(* ===== verification/Dormouse_Prelude.thy ===== *)
theory Dormouse_Prelude
  imports Complex_Main "HOL-Library.Word"
begin

text \<open>
  Shared vocabulary of the development: the JavaScript values the sources handle
  (numbers with their non-finite values, strings as character lists), rounding, and the
  generic facts on lists, sums and options that the component theories use.

  A JavaScript \<open>number\<close> that the code computes with (a weight, a pixel length, a clock)
  is an exact rational \<^typ>\<open>rat\<close>; where the code itself tests for \<open>NaN\<close>, for
  finiteness or for integrality, the value is a \<open>jsnum\<close>, which has the non-finite
  values too. Rounding of binary floating point is not modelled.
\<close>

section \<open>JavaScript numbers\<close>

datatype jsnum = JFin rat | JPosInf | JNegInf | JNaN

definition js_isFinite :: "jsnum \<Rightarrow> bool" where
  "js_isFinite x = (case x of JFin _ \<Rightarrow> True | _ \<Rightarrow> False)"

text \<open>\<open>Number.isInteger\<close>, with the integer when it is one.\<close>

definition js_integer :: "jsnum \<Rightarrow> int option" where
  "js_integer x = (case x of JFin r \<Rightarrow> (if of_int \<lfloor>r\<rfloor> = r then Some \<lfloor>r\<rfloor> else None) | _ \<Rightarrow> None)"

text \<open>\<open>Math.round\<close>: ties go up.\<close>

definition js_round :: "rat \<Rightarrow> int" where
  "js_round x = \<lfloor>x + 1 / 2\<rfloor>"

text \<open>\<open>Math.min (Math.max x lo) hi\<close> on every value but \<open>NaN\<close>, where it is \<open>NaN\<close>.\<close>

definition js_clamp :: "jsnum \<Rightarrow> rat \<Rightarrow> rat \<Rightarrow> rat option" where
  "js_clamp x lo hi = (case x of
      JFin r \<Rightarrow> Some (min (max r lo) hi)
    | JPosInf \<Rightarrow> Some hi
    | JNegInf \<Rightarrow> Some (min lo hi)
    | JNaN \<Rightarrow> None)"

lemma js_round_mono: "x \<le> y \<Longrightarrow> js_round x \<le> js_round y"
  by (simp add: js_round_def floor_mono)

lemma js_round_of_int [simp]: "js_round (of_int i) = i"
  by (simp add: js_round_def floor_eq_iff)

lemma js_round_numeral [simp]: "js_round (numeral n) = numeral n"
  using js_round_of_int [of "numeral n"] by simp

lemma floor_rat_numeral [simp]:
  "\<lfloor>numeral a / numeral b :: rat\<rfloor> = numeral a div numeral b"
  using floor_divide_of_int_eq [of "numeral a" "numeral b", where 'a = rat] by simp

lemma js_round_zero [simp]: "js_round 0 = 0"
  using js_round_of_int [of 0] by simp

lemma js_round_nonneg: "0 \<le> x \<Longrightarrow> 0 \<le> js_round x"
  using js_round_mono [of 0 x] by simp

lemma js_integer_of_int [simp]: "js_integer (JFin (of_int i)) = Some i"
  by (simp add: js_integer_def)

lemma js_integer_of_nat [simp]: "js_integer (JFin (of_nat n)) = Some (int n)"
  using js_integer_of_int [of "int n"] by (simp del: js_integer_of_int)

lemma js_integer_SomeD: "js_integer x = Some i \<Longrightarrow> x = JFin (of_int i)"
  by (auto simp: js_integer_def split: jsnum.splits if_splits)

section \<open>Sums over lists\<close>

lemma sum_list_map_div:
  fixes s :: rat
  shows "sum_list (map (\<lambda>c. f c / s) cs) = sum_list (map f cs) / s"
  by (induction cs) (simp_all add: add_divide_distrib)

lemma sum_list_map_mult:
  fixes s :: rat
  shows "sum_list (map (\<lambda>c. f c * s) cs) = sum_list (map f cs) * s"
  by (induction cs) (simp_all add: distrib_right)

lemma sum_list_pos:
  fixes f :: "'a \<Rightarrow> rat"
  shows "cs \<noteq> [] \<Longrightarrow> (\<And>c. c \<in> set cs \<Longrightarrow> 0 < f c) \<Longrightarrow> 0 < sum_list (map f cs)"
proof (induction cs)
  case (Cons c cs)
  then show ?case by (cases cs) (auto intro: add_pos_pos)
qed simp

lemma sum_list_map_nonneg:
  fixes f :: "'a \<Rightarrow> 'b::ordered_comm_monoid_add"
  shows "(\<And>c. c \<in> set cs \<Longrightarrow> 0 \<le> f c) \<Longrightarrow> 0 \<le> sum_list (map f cs)"
  by (induction cs) auto

section \<open>Lists split at an index\<close>

lemma list_split_nth: "i < length xs \<Longrightarrow> xs = take i xs @ xs ! i # drop (Suc i) xs"
  by (rule id_take_nth_drop)

lemma list_update_split: "i < length xs \<Longrightarrow> xs[i := x] = take i xs @ x # drop (Suc i) xs"
  by (rule upd_conv_take_nth_drop)

lemma concat_map_split:
  "i < length xs \<Longrightarrow>
   concat (map f xs) = concat (map f (take i xs)) @ f (xs ! i) @ concat (map f (drop (Suc i) xs))"
  by (subst list_split_nth [of i xs]) simp_all

lemma concat_map_update:
  "i < length xs \<Longrightarrow>
   concat (map f (xs[i := x])) = concat (map f (take i xs)) @ f x @ concat (map f (drop (Suc i) xs))"
  by (subst list_update_split) simp_all

lemma distinct_concat_nth:
  assumes "distinct (concat (map f cs))" "i < length cs" "j < length cs" "i \<noteq> j" "x \<in> set (f (cs ! i))"
  shows "x \<notin> set (f (cs ! j))"
proof
  assume j: "x \<in> set (f (cs ! j))"
  have "set (f (cs ! j)) \<subseteq> set (concat (map f (take i cs))) \<union> set (concat (map f (drop (Suc i) cs)))"
  proof (cases "j < i")
    case True
    then have "cs ! j \<in> set (take i cs)" using assms(2) by (metis in_set_conv_nth length_take min.absorb4 nth_take)
    then show ?thesis by auto
  next
    case False
    with assms(4) have "drop (Suc i) cs ! (j - Suc i) = cs ! j" "j - Suc i < length (drop (Suc i) cs)"
      using assms(2,3) by auto
    then have "cs ! j \<in> set (drop (Suc i) cs)" by (metis nth_mem)
    then show ?thesis by auto
  qed
  moreover have "distinct (concat (map f (take i cs)) @ f (cs ! i) @ concat (map f (drop (Suc i) cs)))"
    using assms(1) unfolding concat_map_split [OF assms(2), of f] by simp
  ultimately show False using j assms(5) by fastforce
qed

text \<open>\<open>xs.filter((_, i) => i !== k)\<close>\<close>

definition remove_nth :: "nat \<Rightarrow> 'a list \<Rightarrow> 'a list" where
  "remove_nth i xs = take i xs @ drop (Suc i) xs"

text \<open>\<open>xs.splice(i, 0, x)\<close>\<close>

definition insert_nth :: "nat \<Rightarrow> 'a \<Rightarrow> 'a list \<Rightarrow> 'a list" where
  "insert_nth i x xs = take i xs @ x # drop i xs"

lemma length_remove_nth [simp]: "i < length xs \<Longrightarrow> length (remove_nth i xs) = length xs - 1"
  by (simp add: remove_nth_def)

lemma length_insert_nth [simp]: "length (insert_nth i x xs) = Suc (length xs)"
  by (simp add: insert_nth_def)

lemma set_remove_nth: "set (remove_nth i xs) \<subseteq> set xs"
  by (auto simp: remove_nth_def dest: in_set_takeD in_set_dropD)

lemma set_insert_nth [simp]: "set (insert_nth i x xs) = insert x (set xs)"
  by (simp add: insert_nth_def) (metis Un_insert_right append_take_drop_id set_append)

lemma insert_remove_nth: "i < length xs \<Longrightarrow> insert_nth i (xs ! i) (remove_nth i xs) = xs"
  by (simp add: insert_nth_def remove_nth_def id_take_nth_drop [symmetric])

lemma map_insert_nth: "map f (insert_nth i x xs) = insert_nth i (f x) (map f xs)"
  by (simp add: insert_nth_def take_map drop_map)

lemma map_remove_nth: "map f (remove_nth i xs) = remove_nth i (map f xs)"
  by (simp add: remove_nth_def take_map drop_map)

lemma sum_list_remove_nth:
  fixes xs :: "rat list"
  shows "i < length xs \<Longrightarrow> sum_list (remove_nth i xs) = sum_list xs - xs ! i"
proof -
  assume i: "i < length xs"
  have "sum_list xs = sum_list (take i xs @ xs ! i # drop (Suc i) xs)"
    using list_split_nth [OF i] by simp
  then show ?thesis by (simp add: remove_nth_def)
qed

lemma sum_list_insert_nth:
  fixes xs :: "rat list"
  shows "sum_list (insert_nth i x xs) = x + sum_list xs"
proof -
  have "sum_list xs = sum_list (take i xs @ drop i xs)" by simp
  then show ?thesis by (simp only: insert_nth_def sum_list_append sum_list.Cons add_ac)
qed

section \<open>JavaScript maps\<close>

text \<open>\<open>Map.set\<close>: a key already there keeps its place, a new one goes last.\<close>

fun js_map_set :: "'k \<Rightarrow> 'v \<Rightarrow> ('k \<times> 'v) list \<Rightarrow> ('k \<times> 'v) list" where
  "js_map_set k v [] = [(k, v)]"
| "js_map_set k v ((k', v') # m) = (if k' = k then (k, v) # m else (k', v') # js_map_set k v m)"

text \<open>\<open>Map.delete\<close>.\<close>

definition js_map_delete :: "'k \<Rightarrow> ('k \<times> 'v) list \<Rightarrow> ('k \<times> 'v) list" where
  "js_map_delete k m = filter (\<lambda>(k', v). k' \<noteq> k) m"

lemma js_map_set_new: "k \<notin> fst ` set m \<Longrightarrow> js_map_set k v m = m @ [(k, v)]"
  by (induction m) auto

lemma fold_js_map_set:
  "distinct (map fst xs) \<Longrightarrow> fst ` set xs \<inter> fst ` set m = {} \<Longrightarrow> fold (\<lambda>(k, v). js_map_set k v) xs m = m @ xs"
proof (induction xs arbitrary: m)
  case (Cons x xs)
  obtain k v where x: "x = (k, v)" by (cases x)
  have "fold (\<lambda>(k, v). js_map_set k v) xs (m @ [(k, v)]) = (m @ [(k, v)]) @ xs"
    using Cons.prems x by (intro Cons.IH) auto
  with Cons.prems x show ?case by (simp add: js_map_set_new)
qed simp

lemma js_map_set_keys: "set (map fst (js_map_set k v m)) = insert k (set (map fst m))"
  by (induction k v m rule: js_map_set.induct) auto

lemma js_map_set_distinct: "distinct (map fst m) \<Longrightarrow> distinct (map fst (js_map_set k v m))"
proof (induction k v m rule: js_map_set.induct)
  case (2 k v k' v' m)
  then show ?case using js_map_set_keys [of k v m] by auto
qed simp

lemma map_of_js_map_set: "map_of (js_map_set k v m) = (map_of m)(k \<mapsto> v)"
  by (induction k v m rule: js_map_set.induct) auto

lemma map_of_js_map_delete: "map_of (js_map_delete k m) = (map_of m)(k := None)"
  by (induction m) (auto simp: js_map_delete_def fun_eq_iff)

lemma js_map_delete_distinct: "distinct (map fst m) \<Longrightarrow> distinct (map fst (js_map_delete k m))"
  by (simp add: js_map_delete_def distinct_map_filter)

section \<open>Systems of steps\<close>

text \<open>
  The interface every state machine of the development meets: an invariant that holds at the
  start and that every step keeps. A client gets it for every state a run can reach.
\<close>

locale step_system =
  fixes start :: "'s \<Rightarrow> bool"
    and step :: "'s \<Rightarrow> 's \<Rightarrow> bool"
    and inv :: "'s \<Rightarrow> bool"
  assumes start_inv: "start s \<Longrightarrow> inv s"
    and step_inv: "step s s' \<Longrightarrow> inv s \<Longrightarrow> inv s'"
begin

lemma run_inv: "step\<^sup>*\<^sup>* s s' \<Longrightarrow> inv s \<Longrightarrow> inv s'"
  by (induction rule: rtranclp_induct) (auto intro: step_inv)

lemma reachable_inv: "start s \<Longrightarrow> step\<^sup>*\<^sup>* s s' \<Longrightarrow> inv s'"
  using run_inv start_inv by blast

end

end
