(* ===== verification/Js_Json.thy ===== *)
theory Js_Json
  imports Dormouse_Prelude
begin

text \<open>
  \<open>JSON.stringify\<close> on the values the layout fingerprints are made of: strings, arrays and
  objects. A string is quoted and escaped as the language prescribes; strings here are lists
  of 8-bit characters, so the escapes of lone surrogates do not occur. The section ends in the
  fact the code relies on: the text of such a value determines the value, even as a prefix.
\<close>

section \<open>Values and their text\<close>

datatype jsv = JsString string | JsArray "jsv list" | JsObject "(string \<times> jsv) list"

definition dquote :: char where "dquote = CHR 0x22"
definition bslash :: char where "bslash = CHR 0x5C"

definition hex_digit :: "nat \<Rightarrow> char" where
  "hex_digit k = ''0123456789abcdef'' ! k"

definition json_escape :: "char \<Rightarrow> string" where
  "json_escape c =
     (if c = dquote then [bslash, dquote]
      else if c = bslash then [bslash, bslash]
      else if c = CHR 0x08 then bslash # ''b''
      else if c = CHR 0x0C then bslash # ''f''
      else if c = CHR 0x0A then bslash # ''n''
      else if c = CHR 0x0D then bslash # ''r''
      else if c = CHR 0x09 then bslash # ''t''
      else if of_char c < (32::nat)
        then bslash # ''u00'' @ [hex_digit (of_char c div 16), hex_digit (of_char c mod 16)]
      else [c])"

definition json_quote :: "string \<Rightarrow> string" where
  "json_quote s = dquote # concat (map json_escape s) @ [dquote]"

fun join_comma :: "string list \<Rightarrow> string" where
  "join_comma [] = []"
| "join_comma (x # xs) = x @ concat (map (\<lambda>y. CHR '','' # y) xs)"

fun json_stringify :: "jsv \<Rightarrow> string" where
  "json_stringify (JsString s) = json_quote s"
| "json_stringify (JsArray vs) = ''['' @ join_comma (map json_stringify vs) @ '']''"
| "json_stringify (JsObject kvs) =
     ''{'' @ join_comma (map (\<lambda>kv. json_quote (fst kv) @ '':'' @ json_stringify (snd kv)) kvs) @ ''}''"

section \<open>Untrusted values\<close>

text \<open>A value that came in as JSON, as the type guards inspect it; a property that is missing reads as
  \<open>undefined\<close>.\<close>

datatype jval = VUndef | VNull | VBool bool | VNum jsnum | VStr string | VArr "jval list" | VObj "(string \<times> jval) list"

fun js_prop :: "jval \<Rightarrow> string \<Rightarrow> jval" where
  "js_prop (VObj kvs) k = (case map_of kvs k of None \<Rightarrow> VUndef | Some v \<Rightarrow> v)"
| "js_prop _ k = VUndef"

definition is_object :: "jval \<Rightarrow> bool" where
  "is_object v = (case v of VArr _ \<Rightarrow> True | VObj _ \<Rightarrow> True | _ \<Rightarrow> False)"

definition as_str :: "jval \<Rightarrow> string option" where
  "as_str v = (case v of VStr s \<Rightarrow> Some s | _ \<Rightarrow> None)"

definition is_str :: "jval \<Rightarrow> bool" where
  "is_str v = (as_str v \<noteq> None)"

definition is_num :: "jval \<Rightarrow> bool" where
  "is_num v = (case v of VNum _ \<Rightarrow> True | _ \<Rightarrow> False)"

section \<open>The text determines the value\<close>

lemma hex_digit_inj: "a < 16 \<Longrightarrow> b < 16 \<Longrightarrow> hex_digit a = hex_digit b \<Longrightarrow> a = b"
  unfolding hex_digit_def
  by (subst (asm) nth_eq_iff_index_eq) simp_all

lemma json_escape_prefix: "json_escape a @ x = json_escape b @ y \<Longrightarrow> a = b \<and> x = y"
proof -
  assume eq: "json_escape a @ x = json_escape b @ y"
  have ctl: "a = b" if "of_char a < (32::nat)" "of_char b < (32::nat)"
    "hex_digit (of_char a div 16) = hex_digit (of_char b div 16)"
    "hex_digit (of_char a mod 16) = hex_digit (of_char b mod 16)"
  proof -
    from that have "of_char a div 16 = (of_char b div 16 :: nat)" by (intro hex_digit_inj) simp_all
    moreover from that have "of_char a mod 16 = (of_char b mod 16 :: nat)" by (intro hex_digit_inj) simp_all
    ultimately have "of_char a = (of_char b :: nat)" by (metis div_mult_mod_eq)
    then show ?thesis by simp
  qed
  show ?thesis using eq ctl
    by (auto simp: json_escape_def dquote_def bslash_def split: if_splits)
qed

lemma json_escape_head: "\<exists>c cs. json_escape a = c # cs \<and> c \<noteq> dquote"
  by (auto simp: json_escape_def dquote_def bslash_def)

lemma json_chars_prefix:
  "concat (map json_escape s) @ dquote # x = concat (map json_escape t) @ dquote # y \<Longrightarrow> s = t \<and> x = y"
proof (induction s arbitrary: t)
  case Nil
  then show ?case
  proof (cases t)
    case (Cons b t')
    then show ?thesis using Nil json_escape_head [of b] by auto
  qed simp
next
  case (Cons a s)
  then show ?case
  proof (cases t)
    case Nil
    then show ?thesis using Cons.prems json_escape_head [of a] by auto
  next
    case (Cons b t')
    then show ?thesis using Cons.prems Cons.IH by (auto dest!: json_escape_prefix)
  qed
qed

lemma json_quote_prefix: "json_quote s @ x = json_quote t @ y \<Longrightarrow> s = t \<and> x = y"
  by (auto simp: json_quote_def dest!: json_chars_prefix)

text \<open>A sequence of self-delimiting texts, each after a comma, is read back one by one.\<close>

lemma commas_prefix:
  assumes "\<And>v w x y. v \<in> set vs \<Longrightarrow> f v @ x = f w @ y \<Longrightarrow> v = w \<and> x = y"
    and "concat (map (\<lambda>v. CHR '','' # f v) vs) @ e # x = concat (map (\<lambda>v. CHR '','' # f v) ws) @ e # y"
    and "e \<noteq> CHR '',''"
  shows "vs = ws \<and> x = y"
  using assms(1,2)
proof (induction vs arbitrary: ws)
  case Nil
  then show ?case using assms(3) by (cases ws) auto
next
  case (Cons v vs)
  then obtain w ws' where w: "ws = w # ws'" using assms(3) by (cases ws) auto
  with Cons.prems(2) have "f v @ concat (map (\<lambda>v. CHR '','' # f v) vs) @ e # x =
      f w @ concat (map (\<lambda>v. CHR '','' # f v) ws') @ e # y" by simp
  with Cons.prems(1) have "v = w" and
    "concat (map (\<lambda>v. CHR '','' # f v) vs) @ e # x = concat (map (\<lambda>v. CHR '','' # f v) ws') @ e # y"
    by (metis list.set_intros(1))+
  with Cons.IH Cons.prems(1) w show ?case by (metis list.set_intros(2))
qed

lemma join_comma_prefix:
  assumes inj: "\<And>v w x y. v \<in> set vs \<Longrightarrow> f v @ x = f w @ y \<Longrightarrow> v = w \<and> x = y"
    and head: "\<And>v. \<exists>c cs. f v = c # cs \<and> c \<noteq> e"
    and eq: "join_comma (map f vs) @ e # x = join_comma (map f ws) @ e # y"
    and e: "e \<noteq> CHR '',''"
  shows "vs = ws \<and> x = y"
proof (cases vs)
  case Nil
  then show ?thesis using eq head by (cases ws) (auto, metis append_Cons list.inject)
next
  case (Cons v vs')
  then obtain w ws' where w: "ws = w # ws'"
    using eq head [of v] by (cases ws) auto
  from eq Cons w have
    "f v @ concat (map (\<lambda>y. CHR '','' # f y) vs') @ e # x = f w @ concat (map (\<lambda>y. CHR '','' # f y) ws') @ e # y"
    by (simp add: comp_def)
  with inj [of v _ w] Cons have "v = w" and
    rest: "concat (map (\<lambda>y. CHR '','' # f y) vs') @ e # x = concat (map (\<lambda>y. CHR '','' # f y) ws') @ e # y"
    by auto
  from commas_prefix [OF _ rest e] inj Cons have "vs' = ws' \<and> x = y" by auto
  with \<open>v = w\<close> Cons w show ?thesis by simp
qed

lemma json_quote_head: "json_quote s = dquote # concat (map json_escape s) @ [dquote]"
  by (simp add: json_quote_def)

lemma json_stringify_head: "\<exists>c cs. json_stringify v = c # cs \<and> c \<noteq> CHR '']''"
  by (cases v) (auto simp: json_quote_def dquote_def)

lemma json_stringify_prefix: "json_stringify v @ x = json_stringify w @ y \<Longrightarrow> v = w \<and> x = y"
proof (induction v arbitrary: w x y)
  case (JsString s)
  then obtain t where w: "w = JsString t"
    by (cases w) (auto simp: json_quote_head dquote_def)
  with JsString.prems show ?case by (auto dest!: json_quote_prefix)
next
  case (JsArray vs)
  then obtain ws where w: "w = JsArray ws"
    by (cases w) (auto simp: json_quote_head dquote_def)
  with JsArray.prems have "join_comma (map json_stringify vs) @ CHR '']'' # x = join_comma (map json_stringify ws) @ CHR '']'' # y"
    by simp
  from join_comma_prefix [OF _ json_stringify_head this] JsArray.IH w show ?case by auto
next
  case (JsObject kvs)
  let ?f = "\<lambda>kv. json_quote (fst kv) @ '':'' @ json_stringify (snd kv)"
  from JsObject.prems obtain kws where w: "w = JsObject kws"
    by (cases w) (auto simp: json_quote_head dquote_def)
  with JsObject.prems have eq: "join_comma (map ?f kvs) @ CHR ''}'' # x = join_comma (map ?f kws) @ CHR ''}'' # y"
    by simp
  have inj: "v = w' \<and> x' = y'" if "v \<in> set kvs" "?f v @ x' = ?f w' @ y'" for v w' x' y'
  proof -
    from that(2) have "fst v = fst w'" and "json_stringify (snd v) @ x' = json_stringify (snd w') @ y'"
      by (auto dest!: json_quote_prefix)
    with JsObject.IH [OF that(1)] show ?thesis
      by (metis prod_eqI snds.intros)
  qed
  have head: "\<exists>c cs. ?f kv = c # cs \<and> c \<noteq> CHR ''}''" for kv
    by (simp add: json_quote_head dquote_def)
  from join_comma_prefix [where f = ?f, OF inj head eq] w show ?case by auto
qed

lemma json_stringify_inject: "json_stringify v = json_stringify w \<longleftrightarrow> v = w"
  using json_stringify_prefix [of v "[]" w "[]"] by auto

end
