(* ===== verification/Lath_Model.thy ===== *)
theory Lath_Model
  imports Dormouse_Prelude Js_Json
begin

text \<open>
  The split tree of the Lath tiling engine (\<open>lib/src/lib/lath/model.ts\<close>): its data,
  the queries on it, the normalising constructor every operation builds through and the
  structure fingerprint; with the tree invariant, and the facts that \<open>normalize\<close> and
  \<open>replaceAtPath\<close> keep it and keep the leaves.
\<close>

section \<open>Data\<close>

type_synonym leaf_id = string

datatype edge = ELeft | ERight | ETop | EBottom

datatype axis = Row | Col

record rect =
  rx :: rat
  ry :: rat
  width :: rat
  height :: rat

record size2 =
  swidth :: rat
  sheight :: rat

datatype lath_node = Leaf leaf_id | Split axis "(lath_node \<times> rat) list"

text \<open>A child is a node with its weight.\<close>

type_synonym lath_child = "lath_node \<times> rat"

record lath_tree =
  root :: "lath_node option"

lemma lath_node_induct [case_names Leaf Split]:
  assumes "\<And>i. P (Leaf i)"
    and "\<And>d cs. (\<And>n w. (n, w) \<in> set cs \<Longrightarrow> P n) \<Longrightarrow> P (Split d cs)"
  shows "P n"
proof (induction n)
  case (Leaf i)
  show ?case by (rule assms(1))
next
  case (Split d cs)
  show ?case by (rule assms(2)) (force intro: Split.IH)
qed

lemma size_child [termination_simp]:
  "(n, w) \<in> set cs \<Longrightarrow> size n < Suc (size_list (size_prod size (\<lambda>_. 0)) cs)"
  by (induction cs) auto

lemma size_child_fst [termination_simp]:
  "c \<in> set cs \<Longrightarrow> size (fst c) < Suc (size_list (size_prod size (\<lambda>_. 0)) cs)"
  by (cases c) (simp add: size_child)

section \<open>Queries\<close>

definition rectsClose :: "rect \<Rightarrow> rect \<Rightarrow> rat \<Rightarrow> bool" where
  "rectsClose a b eps =
     (\<bar>rx a - rx b\<bar> \<le> eps \<and> \<bar>ry a - ry b\<bar> \<le> eps \<and>
      \<bar>width a - width b\<bar> \<le> eps \<and> \<bar>height a - height b\<bar> \<le> eps)"

fun edgeAxis :: "edge \<Rightarrow> axis" where
  "edgeAxis ELeft = Row"
| "edgeAxis ERight = Row"
| "edgeAxis ETop = Col"
| "edgeAxis EBottom = Col"

definition edgeIsBefore :: "edge \<Rightarrow> bool" where
  "edgeIsBefore e = (e = ELeft \<or> e = ETop)"

fun oppositeEdge :: "edge \<Rightarrow> edge" where
  "oppositeEdge ELeft = ERight"
| "oppositeEdge ERight = ELeft"
| "oppositeEdge ETop = EBottom"
| "oppositeEdge EBottom = ETop"

definition leafTree :: "leaf_id \<Rightarrow> lath_tree" where
  "leafTree i = \<lparr>root = Some (Leaf i)\<rparr>"

fun leaves_walk :: "lath_node \<Rightarrow> leaf_id list" where
  "leaves_walk (Leaf i) = [i]"
| "leaves_walk (Split d cs) = concat (map (\<lambda>c. leaves_walk (fst c)) cs)"

definition leaves :: "lath_tree \<Rightarrow> leaf_id list" where
  "leaves t = (case root t of None \<Rightarrow> [] | Some n \<Rightarrow> leaves_walk n)"

text \<open>The walk stops at the first match, so the rest of the children is looked at only
  when the earlier ones hold no match.\<close>

fun find_walk :: "leaf_id \<Rightarrow> lath_node \<Rightarrow> nat list \<Rightarrow> nat list option"
  and find_walk_children :: "leaf_id \<Rightarrow> lath_child list \<Rightarrow> nat list \<Rightarrow> nat \<Rightarrow> nat list option"
where
  "find_walk k (Leaf i) path = (if i = k then Some path else None)"
| "find_walk k (Split d cs) path = find_walk_children k cs path 0"
| "find_walk_children k [] path i = None"
| "find_walk_children k ((n, w) # cs) path i =
     (case find_walk k n (path @ [i]) of
        Some p \<Rightarrow> Some p
      | None \<Rightarrow> find_walk_children k cs path (Suc i))"

definition findLeafPath :: "lath_tree \<Rightarrow> leaf_id \<Rightarrow> nat list option" where
  "findLeafPath t k = (case root t of None \<Rightarrow> None | Some n \<Rightarrow> find_walk k n [])"

fun node_at :: "lath_node \<Rightarrow> nat list \<Rightarrow> lath_node option" where
  "node_at n [] = Some n"
| "node_at (Leaf _) (i # p) = None"
| "node_at (Split d cs) (i # p) = (if i < length cs then node_at (fst (cs ! i)) p else None)"

definition nodeAtPath :: "lath_tree \<Rightarrow> nat list \<Rightarrow> lath_node option" where
  "nodeAtPath t p = (case root t of None \<Rightarrow> None | Some n \<Rightarrow> node_at n p)"

section \<open>Constructors\<close>

definition weight_sum :: "lath_child list \<Rightarrow> rat" where
  "weight_sum cs = sum_list (map snd cs)"

definition normalizeWeights :: "lath_child list \<Rightarrow> lath_child list" where
  "normalizeWeights cs =
     (let sum = weight_sum cs in
      if sum \<le> 0 then
        (let w = (if length cs > 0 then 1 / of_nat (length cs) else 0) in map (\<lambda>c. (fst c, w)) cs)
      else map (\<lambda>c. (fst c, snd c / sum)) cs)"

text \<open>What one normalised child contributes to its parent's children.\<close>

fun collect_child :: "axis \<Rightarrow> lath_node option \<Rightarrow> rat \<Rightarrow> lath_child list" where
  "collect_child d None w = []"
| "collect_child d (Some (Leaf i)) w = [(Leaf i, w)]"
| "collect_child d (Some (Split d' gcs)) w =
     (if d' = d then map (\<lambda>gc. (fst gc, snd gc * w)) gcs else [(Split d' gcs, w)])"

fun build_split :: "axis \<Rightarrow> lath_child list \<Rightarrow> lath_node option" where
  "build_split d [] = None"
| "build_split d [c] = Some (fst c)"
| "build_split d cs = Some (Split d (normalizeWeights cs))"

fun normalize_node :: "lath_node \<Rightarrow> lath_node option" where
  "normalize_node (Leaf i) = Some (Leaf i)"
| "normalize_node (Split d cs) =
     build_split d (concat (map (\<lambda>c. collect_child d (normalize_node (fst c)) (snd c)) cs))"

fun replaceAtPath :: "lath_node \<Rightarrow> nat list \<Rightarrow> lath_node \<Rightarrow> lath_node" where
  "replaceAtPath n [] r = r"
| "replaceAtPath (Leaf i) (k # p) r = Leaf i"
| "replaceAtPath (Split d cs) (k # p) r =
     (if k < length cs
      then Split d (cs[k := (replaceAtPath (fst (cs ! k)) p r, snd (cs ! k))])
      else Split d cs)"

section \<open>Structure fingerprints\<close>

fun dir_name :: "axis \<Rightarrow> string" where
  "dir_name Row = ''row''"
| "dir_name Col = ''col''"

fun strip :: "lath_node \<Rightarrow> jsv" where
  "strip (Leaf i) = JsObject [(''k'', JsString ''leaf''), (''id'', JsString i)]"
| "strip (Split d cs) =
     JsObject [(''k'', JsString ''split''), (''dir'', JsString (dir_name d)),
               (''children'', JsArray (map (\<lambda>c. strip (fst c)) cs))]"

definition structureFingerprint :: "lath_node \<Rightarrow> string" where
  "structureFingerprint n = json_stringify (strip n)"

section \<open>The tree invariant\<close>

text \<open>The laws \<open>validate\<close> enforces on a node below a split of direction \<open>pd\<close>, with
  \<open>eps\<close> the tolerance on the weight sum.\<close>

fun wf_node :: "rat \<Rightarrow> axis option \<Rightarrow> lath_node \<Rightarrow> bool" where
  "wf_node eps pd (Leaf i) = True"
| "wf_node eps pd (Split d cs) =
     (pd \<noteq> Some d \<and> 2 \<le> length cs \<and>
      (\<forall>c \<in> set cs. 0 < snd c \<and> wf_node eps (Some d) (fst c)) \<and>
      \<bar>weight_sum cs - 1\<bar> \<le> eps)"

definition wf_tree :: "rat \<Rightarrow> lath_tree \<Rightarrow> bool" where
  "wf_tree eps t = (case root t of None \<Rightarrow> True | Some n \<Rightarrow> wf_node eps None n \<and> distinct (leaves_walk n))"

text \<open>All weights positive, at every depth: what \<open>normalize\<close> needs.\<close>

fun pos_node :: "lath_node \<Rightarrow> bool" where
  "pos_node (Leaf i) = True"
| "pos_node (Split d cs) = (cs \<noteq> [] \<and> (\<forall>c \<in> set cs. 0 < snd c \<and> pos_node (fst c)))"

lemma wf_node_pos: "wf_node eps pd n \<Longrightarrow> pos_node n"
proof (induction n arbitrary: pd rule: lath_node_induct)
  case (Split d cs)
  then show ?case by fastforce
qed simp

lemma wf_node_None: "wf_node eps pd n \<Longrightarrow> wf_node eps None n"
  by (cases n) auto

lemma wf_node_mono: "wf_node e pd n \<Longrightarrow> e \<le> e' \<Longrightarrow> wf_node e' pd n"
proof (induction n arbitrary: pd rule: lath_node_induct)
  case (Split d cs)
  then show ?case by fastforce
qed simp

lemma wf_tree_mono: "wf_tree e t \<Longrightarrow> e \<le> e' \<Longrightarrow> wf_tree e' t"
  by (auto simp: wf_tree_def intro: wf_node_mono split: option.splits)

lemma leaves_walk_nonempty: "pos_node n \<Longrightarrow> leaves_walk n \<noteq> []"
proof (induction n rule: lath_node_induct)
  case (Split d cs)
  then obtain c cs' where c: "cs = c # cs'" by (cases cs) auto
  with Split.prems have "pos_node (fst c)" by simp
  then have "leaves_walk (fst c) \<noteq> []" using Split.IH [of "fst c" "snd c"] c by simp
  then show ?case using c by simp
qed simp

subsection \<open>Weights\<close>

lemma weight_sum_simps [simp]:
  "weight_sum [] = 0" "weight_sum (c # cs) = snd c + weight_sum cs"
  "weight_sum (cs @ ds) = weight_sum cs + weight_sum ds"
  by (simp_all add: weight_sum_def)

lemma weight_sum_pos: "cs \<noteq> [] \<Longrightarrow> \<forall>c \<in> set cs. 0 < snd c \<Longrightarrow> 0 < weight_sum cs"
  unfolding weight_sum_def by (rule sum_list_pos) auto

lemma weight_sum_scale: "weight_sum (map (\<lambda>c. (f c, snd c * s)) cs) = weight_sum cs * s"
  by (induction cs) (auto simp: distrib_right)

lemma weight_sum_div: "weight_sum (map (\<lambda>c. (f c, snd c / s)) cs) = weight_sum cs / s"
  by (induction cs) (auto simp: add_divide_distrib)

lemma length_normalizeWeights [simp]: "length (normalizeWeights cs) = length cs"
  by (simp add: normalizeWeights_def Let_def)

lemma map_fst_normalizeWeights [simp]: "map fst (normalizeWeights cs) = map fst cs"
  by (simp add: normalizeWeights_def Let_def)

lemma normalizeWeights_eq_Nil [simp]: "normalizeWeights cs = [] \<longleftrightarrow> cs = []"
  by (metis length_0_conv length_normalizeWeights)

lemma normalizeWeights_pos_eq:
  "0 < weight_sum cs \<Longrightarrow> normalizeWeights cs = map (\<lambda>c. (fst c, snd c / weight_sum cs)) cs"
  by (simp add: normalizeWeights_def Let_def)

lemma normalizeWeights_one: "weight_sum cs = 1 \<Longrightarrow> normalizeWeights cs = cs"
  by (simp add: normalizeWeights_pos_eq)

lemma weight_sum_normalizeWeights: "cs \<noteq> [] \<Longrightarrow> weight_sum (normalizeWeights cs) = 1"
proof -
  assume ne: "cs \<noteq> []"
  have eqw: "weight_sum (map (\<lambda>c. (fst c, w)) cs) = of_nat (length cs) * w" for w
    by (induction cs) (auto simp: distrib_right)
  show ?thesis using ne
    by (auto simp: normalizeWeights_def Let_def eqw weight_sum_div)
qed

lemma normalizeWeights_positive: "c \<in> set (normalizeWeights cs) \<Longrightarrow> \<forall>c \<in> set cs. 0 < snd c \<Longrightarrow> 0 < snd c"
proof -
  assume c: "c \<in> set (normalizeWeights cs)" and pos: "\<forall>c \<in> set cs. 0 < snd c"
  then have "cs \<noteq> []" by (auto simp: normalizeWeights_def)
  with pos have s: "0 < weight_sum cs" by (intro weight_sum_pos)
  with c pos show ?thesis by (auto simp: normalizeWeights_pos_eq)
qed

lemma set_fst_normalizeWeights: "fst ` set (normalizeWeights cs) = fst ` set cs"
  by (metis list.set_map map_fst_normalizeWeights)

lemma leaves_normalizeWeights [simp]:
  "concat (map (\<lambda>c. leaves_walk (fst c)) (normalizeWeights cs)) = concat (map (\<lambda>c. leaves_walk (fst c)) cs)"
proof -
  have "map (\<lambda>c. leaves_walk (fst c)) ds = map leaves_walk (map fst ds)" for ds :: "lath_child list"
    by simp
  then show ?thesis by (metis map_fst_normalizeWeights)
qed

subsection \<open>normalize builds valid nodes\<close>

text \<open>What a list of collected children satisfies: positive weights, exact subtrees, none of
  the parent's own direction.\<close>

definition good_children :: "axis \<Rightarrow> lath_child list \<Rightarrow> bool" where
  "good_children d cs = (\<forall>c \<in> set cs. 0 < snd c \<and> wf_node 0 (Some d) (fst c))"

lemma collect_child_good:
  assumes "wf_node 0 None m" and "0 < w"
  shows "good_children d (collect_child d (Some m) w)"
proof (cases m)
  case (Leaf i)
  with assms show ?thesis by (simp add: good_children_def)
next
  case (Split d' gcs)
  with assms show ?thesis by (auto simp: good_children_def)
qed

lemma leaves_collect_child:
  "concat (map (\<lambda>c. leaves_walk (fst c)) (collect_child d (Some m) w)) = leaves_walk m"
  by (cases m) (auto simp: comp_def)

lemma collect_child_nonempty: "wf_node 0 None m \<Longrightarrow> collect_child d (Some m) w \<noteq> []"
  by (cases m) auto

lemma build_split_Cons2 [simp]:
  "2 \<le> length cs \<Longrightarrow> build_split d cs = Some (Split d (normalizeWeights cs))"
  by (cases "(d, cs)" rule: build_split.cases) auto

lemma build_split_wf:
  assumes "cs \<noteq> []" and "good_children d cs"
  shows "\<exists>m. build_split d cs = Some m \<and> wf_node 0 None m \<and>
             leaves_walk m = concat (map (\<lambda>c. leaves_walk (fst c)) cs)"
proof (cases "2 \<le> length cs")
  case True
  have "0 < snd c \<and> wf_node 0 (Some d) (fst c)" if "c \<in> set (normalizeWeights cs)" for c
  proof
    show "0 < snd c" using that assms(2) normalizeWeights_positive unfolding good_children_def by blast
    have "fst c \<in> fst ` set cs" using that set_fst_normalizeWeights by (metis imageI)
    then show "wf_node 0 (Some d) (fst c)" using assms(2) by (auto simp: good_children_def)
  qed
  with True assms(1) show ?thesis
    by (simp add: weight_sum_normalizeWeights)
next
  case False
  with assms(1) obtain c where "cs = [c]"
    by (cases "(d, cs)" rule: build_split.cases) auto
  with assms(2) show ?thesis by (auto simp: good_children_def intro: wf_node_None)
qed

lemma normalize_wf:
  "pos_node n \<Longrightarrow> \<exists>m. normalize_node n = Some m \<and> wf_node 0 None m \<and> leaves_walk m = leaves_walk n"
proof (induction n rule: lath_node_induct)
  case (Split d cs)
  let ?f = "\<lambda>c. collect_child d (normalize_node (fst c)) (snd c)"
  have child: "good_children d (?f c) \<and> ?f c \<noteq> [] \<and>
               concat (map (\<lambda>c. leaves_walk (fst c)) (?f c)) = leaves_walk (fst c)"
    if c: "c \<in> set cs" for c
  proof -
    from c have "(fst c, snd c) \<in> set cs" by simp
    moreover from c Split.prems have "pos_node (fst c)" and w: "0 < snd c" by auto
    ultimately obtain m where m: "normalize_node (fst c) = Some m" "wf_node 0 None m" "leaves_walk m = leaves_walk (fst c)"
      using Split.IH by blast
    with w show ?thesis
      by (simp add: collect_child_good leaves_collect_child collect_child_nonempty)
  qed
  have "good_children d (concat (map ?f cs))" using child by (auto simp: good_children_def)
  moreover from Split.prems have "concat (map ?f cs) \<noteq> []"
    using child by (cases cs) auto
  ultimately obtain m where "build_split d (concat (map ?f cs)) = Some m" "wf_node 0 None m"
      "leaves_walk m = concat (map (\<lambda>c. leaves_walk (fst c)) (concat (map ?f cs)))"
    using build_split_wf by blast
  moreover have "concat (map (\<lambda>c. leaves_walk (fst c)) (concat (map ?f cs))) = leaves_walk (Split d cs)"
  proof -
    have "concat (map (\<lambda>c. leaves_walk (fst c)) (concat (map ?f ds))) = concat (map (\<lambda>c. leaves_walk (fst c)) ds)"
      if "set ds \<subseteq> set cs" for ds
      using that child by (induction ds) auto
    then show ?thesis by simp
  qed
  ultimately show ?case by simp
qed simp

text \<open>A node that already satisfies the laws exactly is left as it is.\<close>

lemma collect_child_other: "wf_node e (Some d) m \<Longrightarrow> collect_child d (Some m) w = [(m, w)]"
  by (cases m) auto

lemma normalize_id: "wf_node 0 pd n \<Longrightarrow> normalize_node n = Some n"
proof (induction n arbitrary: pd rule: lath_node_induct)
  case (Split d cs)
  have "collect_child d (normalize_node (fst c)) (snd c) = [c]" if "c \<in> set cs" for c
  proof -
    from that Split.prems have "wf_node 0 (Some d) (fst c)" by simp
    moreover from this that have "normalize_node (fst c) = Some (fst c)"
      using Split.IH [of "fst c" "snd c"] by simp
    ultimately show ?thesis by (simp add: collect_child_other)
  qed
  then have "concat (map (\<lambda>c. collect_child d (normalize_node (fst c)) (snd c)) cs) = cs"
    by (induction cs) auto
  with Split.prems show ?case by (simp add: normalizeWeights_one)
qed simp

subsection \<open>Paths\<close>

lemma node_at_append: "node_at n (p @ q) = (case node_at n p of None \<Rightarrow> None | Some m \<Rightarrow> node_at m q)"
  by (induction n p rule: node_at.induct) auto

lemma replaceAtPath_append:
  "node_at n p = Some m \<Longrightarrow> replaceAtPath n (p @ q) r = replaceAtPath n p (replaceAtPath m q r)"
  by (induction n p rule: node_at.induct) (auto split: if_splits)

lemma node_at_replace_same: "node_at n p = Some m \<Longrightarrow> node_at (replaceAtPath n p r) p = Some r"
  by (induction n p rule: node_at.induct) (auto split: if_splits)

lemma replaceAtPath_same: "node_at n p = Some m \<Longrightarrow> replaceAtPath n p m = n"
  by (induction n p rule: node_at.induct) (auto split: if_splits)

lemma replaceAtPath_twice: "node_at n p = Some m \<Longrightarrow> replaceAtPath (replaceAtPath n p r) p r' = replaceAtPath n p r'"
  by (induction n p rule: node_at.induct) (auto split: if_splits)

lemma replaceAtPath_leaves:
  "node_at n p = Some m \<Longrightarrow>
   \<exists>xs ys. leaves_walk n = xs @ leaves_walk m @ ys \<and>
     (\<forall>r. leaves_walk (replaceAtPath n p r) = xs @ leaves_walk r @ ys)"
proof (induction n p arbitrary: m rule: node_at.induct)
  case (1 n)
  then show ?case by (intro exI [of _ "[]"]) auto
next
  case (3 d cs i p)
  then have i: "i < length cs" and at: "node_at (fst (cs ! i)) p = Some m"
    by (auto split: if_splits)
  from "3.IH" [OF i at] obtain xs ys where
    n: "leaves_walk (fst (cs ! i)) = xs @ leaves_walk m @ ys"
    and r: "\<forall>r. leaves_walk (replaceAtPath (fst (cs ! i)) p r) = xs @ leaves_walk r @ ys" by blast
  let ?l = "\<lambda>c. leaves_walk (fst c)"
  show ?case using i n r
    by (intro exI [of _ "concat (map ?l (take i cs)) @ xs"] exI [of _ "ys @ concat (map ?l (drop (Suc i) cs))"])
       (simp add: concat_map_split [OF i, of ?l] concat_map_update [OF i, of ?l])
qed simp

lemma replaceAtPath_pos: "pos_node n \<Longrightarrow> pos_node r \<Longrightarrow> pos_node (replaceAtPath n p r)"
proof (induction n p r rule: replaceAtPath.induct)
  case (3 d cs k p r)
  then show ?case
    by (auto simp: set_update_distinct dest!: set_update_subset_insert [THEN subsetD])
qed simp_all

lemma node_at_pos: "pos_node n \<Longrightarrow> node_at n p = Some m \<Longrightarrow> pos_node m"
  by (induction n p rule: node_at.induct) (auto split: if_splits)

lemma node_at_wf: "wf_node e pd n \<Longrightarrow> node_at n p = Some m \<Longrightarrow> wf_node e None m"
proof (induction n p arbitrary: pd rule: node_at.induct)
  case (1 n)
  then show ?case by (auto intro: wf_node_None)
next
  case (3 d cs i p)
  then show ?case by (auto split: if_splits) (metis nth_mem)
qed simp

subsection \<open>Finding a leaf\<close>

lemma find_walk_sound:
  "find_walk k n path = Some p \<Longrightarrow> \<exists>q. p = path @ q \<and> node_at n q = Some (Leaf k)"
  "find_walk_children k cs path i = Some p \<Longrightarrow>
     \<exists>j q. p = path @ [i + j] @ q \<and> j < length cs \<and> node_at (fst (cs ! j)) q = Some (Leaf k)"
proof (induction k n path and k cs path i arbitrary: p and p rule: find_walk_find_walk_children.induct)
  case (1 k i path)
  then show ?case by (auto split: if_splits)
next
  case (2 k d cs path)
  then obtain j q where "p = path @ [0 + j] @ q" "j < length cs" "node_at (fst (cs ! j)) q = Some (Leaf k)"
    by fastforce
  then show ?case by (intro exI [of _ "j # q"]) simp
next
  case (4 k n w cs path i)
  show ?case
  proof (cases "find_walk k n (path @ [i])")
    case None
    with "4.prems" have "find_walk_children k cs path (Suc i) = Some p" by simp
    from "4.IH"(2) [OF None this] obtain j q where
      "p = path @ [Suc i + j] @ q" "j < length cs" "node_at (fst (cs ! j)) q = Some (Leaf k)" by blast
    then show ?thesis by (intro exI [of _ "Suc j"] exI [of _ q]) simp
  next
    case (Some p')
    with "4.prems" "4.IH"(1) [OF Some] show ?thesis by (intro exI [of _ 0]) auto
  qed
qed simp_all

lemma find_walk_None:
  "find_walk k n path = None \<longleftrightarrow> k \<notin> set (leaves_walk n)"
  "find_walk_children k cs path i = None \<longleftrightarrow> (\<forall>c \<in> set cs. k \<notin> set (leaves_walk (fst c)))"
  by (induction k n path and k cs path i rule: find_walk_find_walk_children.induct)
     (auto split: option.splits)

lemma findLeafPath_Some:
  "findLeafPath t k = Some p \<Longrightarrow> \<exists>n. root t = Some n \<and> node_at n p = Some (Leaf k)"
  by (auto simp: findLeafPath_def dest!: find_walk_sound(1) split: option.splits)

lemma findLeafPath_None: "findLeafPath t k = None \<longleftrightarrow> k \<notin> set (leaves t)"
  by (auto simp: findLeafPath_def leaves_def find_walk_None split: option.splits)

subsection \<open>Fingerprints\<close>

lemma structureFingerprint_eq: "structureFingerprint a = structureFingerprint b \<longleftrightarrow> strip a = strip b"
  by (simp add: structureFingerprint_def json_stringify_inject)

lemma dir_name_inject [simp]: "dir_name a = dir_name b \<longleftrightarrow> a = b"
  by (cases a; cases b) auto

lemma strip_Leaf_iff [simp]: "strip n = strip (Leaf i) \<longleftrightarrow> n = Leaf i"
  by (cases n) auto

lemma strip_leaves: "strip a = strip b \<Longrightarrow> leaves_walk a = leaves_walk b"
proof (induction a arbitrary: b rule: lath_node_induct)
  case (Leaf i)
  then show ?case by (cases b) auto
next
  case (Split d cs)
  then obtain ds where b: "b = Split d ds" by (cases b) auto
  with Split.prems have eq: "map (\<lambda>c. strip (fst c)) cs = map (\<lambda>c. strip (fst c)) ds" by simp
  have "map (\<lambda>c. leaves_walk (fst c)) cs = map (\<lambda>c. leaves_walk (fst c)) ds"
  proof (rule nth_equalityI)
    show "length (map (\<lambda>c. leaves_walk (fst c)) cs) = length (map (\<lambda>c. leaves_walk (fst c)) ds)"
      using eq by (metis length_map)
    fix i assume "i < length (map (\<lambda>c. leaves_walk (fst c)) cs)"
    then have i: "i < length cs" "i < length ds" using eq by (metis length_map)+
    with eq have "strip (fst (cs ! i)) = strip (fst (ds ! i))" by (metis nth_map)
    with Split.IH [of "fst (cs ! i)" "snd (cs ! i)"] i
    show "map (\<lambda>c. leaves_walk (fst c)) cs ! i = map (\<lambda>c. leaves_walk (fst c)) ds ! i" by simp
  qed
  with b show ?case by (simp add: )
qed

end
