(* ===== verification/Lath_Layout.thy ===== *)
theory Lath_Layout
  imports Lath_Model "HOL-Library.Product_Lexorder" "HOL-Library.List_Lexorder" "HOL-Library.Char_ord"
begin

text \<open>
  The geometry of the tiling engine (\<open>lib/src/lib/lath/layout.ts\<close>): how a split's span is
  shared among its children, the rectangles that result, and the queries on them (neighbours,
  the automatic split edge, the sashes). The lemmas show that the shares are exact integers,
  that the rectangles lie inside the given one and never overlap, and that a path and its
  leaf agree on the rectangle.
\<close>

section \<open>Sharing a span\<close>

record layout_opts =
  gap :: rat
  minLeaf :: size2

datatype direction = DLeft | DRight | DUp | DDown

fun minSpan :: "lath_node \<Rightarrow> axis \<Rightarrow> layout_opts \<Rightarrow> rat" where
  "minSpan (Leaf i) ax opts = (if ax = Row then swidth (minLeaf opts) else sheight (minLeaf opts))"
| "minSpan (Split d cs) ax opts =
     (if d = ax
      then sum_list (map (\<lambda>c. minSpan (fst c) ax opts) cs) + gap opts * (of_nat (length cs) - 1)
      else foldl max 0 (map (\<lambda>c. minSpan (fst c) ax opts) cs))"

text \<open>
  A cell of the waterfill: the child's weight, its minimum and whether it is clamped. A clamped
  child's fraction is its minimum, so the array of fractions is not a separate state; the
  fractions of the others are set by the last pass.
\<close>

type_synonym cell = "rat \<times> rat \<times> bool"

definition active_weight :: "cell list \<Rightarrow> rat" where
  "active_weight cells = sum_list (map (\<lambda>(w, m, c). if c then 0 else w) cells)"

definition active_count :: "cell list \<Rightarrow> nat" where
  "active_count cells = length (filter (\<lambda>(w, m, c). \<not> c) cells)"

definition share :: "cell list \<Rightarrow> rat \<Rightarrow> rat \<Rightarrow> rat" where
  "share cells remaining w =
     (if active_weight cells > 0 then w / active_weight cells * remaining
      else remaining / of_nat (active_count cells))"

definition pins :: "cell list \<Rightarrow> rat \<Rightarrow> cell \<Rightarrow> bool" where
  "pins cells remaining = (\<lambda>(w, m, c). \<not> c \<and> share cells remaining w < m - 1 / 10 ^ 9)"

definition pin_pass :: "cell list \<Rightarrow> rat \<Rightarrow> cell list" where
  "pin_pass cells remaining = map (\<lambda>(w, m, c). (w, m, c \<or> pins cells remaining (w, m, c))) cells"

definition pinned_sum :: "cell list \<Rightarrow> rat \<Rightarrow> rat" where
  "pinned_sum cells remaining =
     sum_list (map (\<lambda>(w, m, c). if pins cells remaining (w, m, c) then m else 0) cells)"

lemma pin_pass_decreases:
  assumes "\<exists>x \<in> set cells. pins cells r x"
  shows "active_count (pin_pass cells r) < active_count cells"
proof -
  let ?P = "pins cells r"
  have le: "active_count (map (\<lambda>(w, m, c). (w, m, c \<or> ?P (w, m, c))) xs) \<le> active_count xs" for xs
    by (induction xs) (auto simp: active_count_def)
  have "active_count (map (\<lambda>(w, m, c). (w, m, c \<or> ?P (w, m, c))) xs) < active_count xs"
    if "\<exists>x \<in> set xs. ?P x" for xs
    using that
  proof (induction xs)
    case (Cons x xs)
    obtain w m c where x: "x = (w, m, c)" by (cases x)
    show ?case
    proof (cases "?P x")
      case True
      then have "\<not> c" using x by (simp add: pins_def)
      with True x le [of xs] show ?thesis by (simp add: active_count_def)
    next
      case False
      with Cons have "active_count (map (\<lambda>(w, m, c). (w, m, c \<or> ?P (w, m, c))) xs) < active_count xs" by simp
      with False x show ?thesis by (simp add: active_count_def)
    qed
  qed simp
  then show ?thesis using assms by (simp add: pin_pass_def)
qed

function waterfill :: "cell list \<Rightarrow> rat \<Rightarrow> rat list" where
  "waterfill cells remaining =
     (if active_count cells = 0 then map (\<lambda>(w, m, c). m) cells
      else if \<exists>x \<in> set cells. pins cells remaining x
        then waterfill (pin_pass cells remaining) (remaining - pinned_sum cells remaining)
      else map (\<lambda>(w, m, c). if c then m else share cells remaining w) cells)"
  by pat_completeness auto
termination
  by (relation "measure (\<lambda>(cells, r). active_count cells)") (auto simp: pin_pass_decreases)

declare waterfill.simps [simp del]

text \<open>The loop of \<open>cumulativeRound\<close>: the last entry closes on the target.\<close>

fun cumulative_loop :: "rat list \<Rightarrow> int \<Rightarrow> rat \<Rightarrow> int \<Rightarrow> int list" where
  "cumulative_loop [] target cum prev = []"
| "cumulative_loop [f] target cum prev = [target - prev]"
| "cumulative_loop (f # g # fs) target cum prev =
     (js_round (cum + f) - prev) # cumulative_loop (g # fs) target (cum + f) (js_round (cum + f))"

definition cumulativeRound :: "rat list \<Rightarrow> rat \<Rightarrow> int list" where
  "cumulativeRound fracs tot = cumulative_loop fracs (js_round tot) 0 0"

definition available_span :: "nat \<Rightarrow> rat \<Rightarrow> layout_opts \<Rightarrow> rat" where
  "available_span n spn opts = max 0 (spn - gap opts * (of_nat n - 1))"

definition child_fracs :: "lath_child list \<Rightarrow> rat \<Rightarrow> layout_opts \<Rightarrow> axis \<Rightarrow> rat list" where
  "child_fracs cs available opts d =
     (let mins = map (\<lambda>c. minSpan (fst c) d opts) cs;
          totalMin = sum_list mins
      in if totalMin > available then
           (if totalMin > 0 then map (\<lambda>m. m / totalMin * available) mins
            else map (\<lambda>m. available / of_nat (length cs)) mins)
         else waterfill (map (\<lambda>c. (snd c, minSpan (fst c) d opts, False)) cs) available)"

definition allocateChildSpans :: "lath_child list \<Rightarrow> rat \<Rightarrow> layout_opts \<Rightarrow> axis \<Rightarrow> int list" where
  "allocateChildSpans cs spn opts d =
     (let available = available_span (length cs) spn opts
      in cumulativeRound (child_fracs cs available opts d) available)"

section \<open>Rectangles\<close>

fun child_rects :: "axis \<Rightarrow> rect \<Rightarrow> rat \<Rightarrow> int list \<Rightarrow> rat \<Rightarrow> rect list" where
  "child_rects d r g [] pos = []"
| "child_rects d r g (s # ss) pos =
     (if d = Row then \<lparr>rx = pos, ry = ry r, width = of_int s, height = height r\<rparr>
      else \<lparr>rx = rx r, ry = pos, width = width r, height = of_int s\<rparr>)
     # child_rects d r g ss (pos + of_int s + g)"

definition forEachChildRect :: "axis \<Rightarrow> lath_child list \<Rightarrow> rect \<Rightarrow> layout_opts \<Rightarrow> rect list" where
  "forEachChildRect d cs r opts =
     child_rects d r (gap opts)
       (allocateChildSpans cs (if d = Row then width r else height r) opts d)
       (if d = Row then rx r else ry r)"

definition nonnegativeRect :: "rect \<Rightarrow> rect" where
  "nonnegativeRect r = r\<lparr>width := max 0 (width r), height := max 0 (height r)\<rparr>"

text \<open>The \<open>Map.set\<close> calls of \<open>layoutNode\<close>, in their order.\<close>

fun layoutNode :: "lath_node \<Rightarrow> rect \<Rightarrow> layout_opts \<Rightarrow> (leaf_id \<times> rect) list"
  and layout_children :: "lath_child list \<Rightarrow> rect list \<Rightarrow> layout_opts \<Rightarrow> (leaf_id \<times> rect) list"
where
  "layoutNode (Leaf i) r opts = [(i, r)]"
| "layoutNode (Split d cs) r opts = layout_children cs (forEachChildRect d cs r opts) opts"
| "layout_children [] rs opts = []"
| "layout_children (c # cs) [] opts = []"
| "layout_children (c # cs) (r # rs) opts = layoutNode (fst c) r opts @ layout_children cs rs opts"

definition layout :: "lath_tree \<Rightarrow> rect \<Rightarrow> layout_opts \<Rightarrow> (leaf_id \<times> rect) list" where
  "layout t r opts = (case root t of
      None \<Rightarrow> []
    | Some n \<Rightarrow> fold (\<lambda>(k, v). js_map_set k v) (layoutNode n (nonnegativeRect r) opts) [])"

fun node_rect :: "lath_node \<Rightarrow> rect \<Rightarrow> layout_opts \<Rightarrow> nat list \<Rightarrow> rect option" where
  "node_rect n r opts [] = Some r"
| "node_rect (Leaf i) r opts (k # p) = None"
| "node_rect (Split d cs) r opts (k # p) =
     (if k < length cs then node_rect (fst (cs ! k)) (forEachChildRect d cs r opts ! k) opts p else None)"

definition nodeRectAtPath :: "lath_tree \<Rightarrow> rect \<Rightarrow> layout_opts \<Rightarrow> nat list \<Rightarrow> rect option" where
  "nodeRectAtPath t r opts p = (case root t of
      None \<Rightarrow> None
    | Some n \<Rightarrow> node_rect n (nonnegativeRect r) opts p)"

section \<open>Queries\<close>

text \<open>Whether \<open>r\<close> lies beyond or touches the edge of \<open>c\<close> in the direction.\<close>

fun beyond :: "direction \<Rightarrow> rect \<Rightarrow> rect \<Rightarrow> bool" where
  "beyond DLeft c r = (\<not> rx r + width r > rx c)"
| "beyond DRight c r = (\<not> rx r < rx c + width c)"
| "beyond DUp c r = (\<not> ry r + height r > ry c)"
| "beyond DDown c r = (\<not> ry r < ry c + height c)"

definition is_horizontal :: "direction \<Rightarrow> bool" where
  "is_horizontal dir = (dir = DLeft \<or> dir = DRight)"

definition cand_overlaps :: "direction \<Rightarrow> rect \<Rightarrow> rect \<Rightarrow> bool" where
  "cand_overlaps dir c r =
     (if is_horizontal dir then ry r < ry c + height c \<and> ry r + height r > ry c
      else rx r < rx c + width c \<and> rx r + width r > rx c)"

fun cand_dist :: "direction \<Rightarrow> rect \<Rightarrow> rect \<Rightarrow> rat" where
  "cand_dist DLeft c r = rx c - (rx r + width r)"
| "cand_dist DRight c r = rx r - (rx c + width c)"
| "cand_dist DUp c r = ry c - (ry r + height r)"
| "cand_dist DDown c r = ry r - (ry c + height c)"

definition neighbors :: "lath_tree \<Rightarrow> rect \<Rightarrow> leaf_id \<Rightarrow> direction \<Rightarrow> layout_opts \<Rightarrow> leaf_id option" where
  "neighbors t r k dir opts =
     (let rects = layout t r opts in
      case map_of rects k of
        None \<Rightarrow> None
      | Some c \<Rightarrow>
          (let cands = filter (\<lambda>(pid, q). pid \<noteq> k \<and> beyond dir c q) rects;
               overlapping = filter (\<lambda>(pid, q). cand_overlaps dir c q) cands;
               pool = (if overlapping \<noteq> [] then overlapping else cands)
           in case sort_key (\<lambda>(pid, q). (cand_dist dir c q, ry q, rx q, pid)) pool of
                [] \<Rightarrow> None
              | (pid, q) # _ \<Rightarrow> Some pid))"

definition autoEdge :: "lath_tree \<Rightarrow> rect \<Rightarrow> leaf_id \<Rightarrow> layout_opts \<Rightarrow> edge" where
  "autoEdge t r k opts = (case map_of (layout t r opts) k of
      None \<Rightarrow> ERight
    | Some q \<Rightarrow> (if width q - height q > 0 then ERight else EBottom))"

record sash =
  splitPath :: "nat list"
  boundary :: nat
  sash_dir :: axis
  sash_rect :: rect

fun sash_walk :: "lath_node \<Rightarrow> rect \<Rightarrow> layout_opts \<Rightarrow> nat list \<Rightarrow> sash list"
  and sash_children :: "axis \<Rightarrow> nat \<Rightarrow> lath_child list \<Rightarrow> rect list \<Rightarrow> rect \<Rightarrow> layout_opts \<Rightarrow> nat list \<Rightarrow> nat \<Rightarrow> sash list"
where
  "sash_walk (Leaf i) r opts path = []"
| "sash_walk (Split d cs) r opts path =
     sash_children d (length cs) cs (forEachChildRect d cs r opts) r opts path 0"
| "sash_children d n [] qs r opts path i = []"
| "sash_children d n (c # cs) [] r opts path i = []"
| "sash_children d n (c # cs) (q # qs) r opts path i =
     (if i < n - 1
      then [\<lparr>splitPath = path, boundary = i, sash_dir = d,
             sash_rect = (if d = Row
               then \<lparr>rx = rx q + width q, ry = ry r, width = gap opts, height = height r\<rparr>
               else \<lparr>rx = rx r, ry = ry q + height q, width = width r, height = gap opts\<rparr>)\<rparr>]
      else [])
     @ sash_walk (fst c) q opts (path @ [i])
     @ sash_children d n cs qs r opts path (Suc i)"

definition sashes :: "lath_tree \<Rightarrow> rect \<Rightarrow> layout_opts \<Rightarrow> sash list" where
  "sashes t r opts = (case root t of None \<Rightarrow> [] | Some n \<Rightarrow> sash_walk n (nonnegativeRect r) opts [])"

section \<open>Shares are exact\<close>

definition cells_ok :: "cell list \<Rightarrow> bool" where
  "cells_ok cells = (\<forall>(w, m, c) \<in> set cells. 0 < w \<and> 0 \<le> m)"

definition min_active :: "cell list \<Rightarrow> rat" where
  "min_active cells = sum_list (map (\<lambda>(w, m, c). if c then 0 else m) cells)"

definition min_clamped :: "cell list \<Rightarrow> rat" where
  "min_clamped cells = sum_list (map (\<lambda>(w, m, c). if c then m else 0) cells)"

lemma active_weight_pos: "cells_ok cells \<Longrightarrow> 0 < active_count cells \<Longrightarrow> 0 < active_weight cells"
proof (induction cells)
  case (Cons x cells)
  obtain w m c where x: "x = (w, m, c)" by (cases x)
  have nn: "0 \<le> active_weight cells"
    using Cons.prems(1) unfolding active_weight_def cells_ok_def
    by (intro sum_list_map_nonneg) auto
  show ?case
  proof (cases c)
    case True
    with Cons x show ?thesis by (simp add: active_weight_def active_count_def cells_ok_def)
  next
    case False
    with Cons.prems x nn show ?thesis by (simp add: active_weight_def cells_ok_def add_pos_nonneg)
  qed
qed (simp add: active_count_def)

lemma share_sum:
  assumes "cells_ok cells" "0 < active_count cells"
  shows "sum_list (map (\<lambda>(w, m, c). if c then 0 else share cells r w) cells) = r"
proof -
  from assms have aw: "0 < active_weight cells" by (rule active_weight_pos)
  have "sum_list (map (\<lambda>(w, m, c). if c then 0 else w / a * r) xs)
        = sum_list (map (\<lambda>(w, m, c). if c then 0 else w) xs) / a * r" for xs :: "cell list" and a
    by (induction xs) (auto simp: add_divide_distrib distrib_right)
  note scaled = this [of "active_weight cells" cells]
  have sh: "share cells r = (\<lambda>w. w / active_weight cells * r)" using aw by (simp add: share_def fun_eq_iff)
  show ?thesis unfolding sh scaled using aw by (simp add: active_weight_def [symmetric])
qed

lemma pin_pass_cells_ok: "cells_ok cells \<Longrightarrow> cells_ok (pin_pass cells r)"
  by (auto simp: cells_ok_def pin_pass_def)

lemma pin_pass_sums:
  "min_active (pin_pass cells r) = min_active cells - pinned_sum cells r"
  "min_clamped (pin_pass cells r) = min_clamped cells + pinned_sum cells r"
proof -
  let ?P = "pins cells r"
  have "sum_list (map (\<lambda>(w, m, c). if c then 0 else m) (map (\<lambda>(w, m, c). (w, m, c \<or> ?P (w, m, c))) xs))
     = sum_list (map (\<lambda>(w, m, c). if c then 0 else m) xs)
       - sum_list (map (\<lambda>(w, m, c). if ?P (w, m, c) then m else 0) xs)" for xs
    by (induction xs) (auto simp: pins_def)
  then show "min_active (pin_pass cells r) = min_active cells - pinned_sum cells r"
    by (simp add: min_active_def pin_pass_def pinned_sum_def)
  have "sum_list (map (\<lambda>(w, m, c). if c then m else 0) (map (\<lambda>(w, m, c). (w, m, c \<or> ?P (w, m, c))) xs))
     = sum_list (map (\<lambda>(w, m, c). if c then m else 0) xs)
       + sum_list (map (\<lambda>(w, m, c). if ?P (w, m, c) then m else 0) xs)" for xs
    by (induction xs) (auto simp: pins_def)
  then show "min_clamped (pin_pass cells r) = min_clamped cells + pinned_sum cells r"
    by (simp add: min_clamped_def pin_pass_def pinned_sum_def)
qed

text \<open>A pass never clamps the last active child: then every share would be under its minimum,
  yet the shares add up to a budget that covers the minimums.\<close>

lemma pin_pass_leaves_active:
  assumes ok: "cells_ok cells" and act: "0 < active_count cells" and fit: "min_active cells \<le> r"
  shows "0 < active_count (pin_pass cells r)"
proof (rule ccontr)
  assume "\<not> 0 < active_count (pin_pass cells r)"
  then have "\<forall>x \<in> set (pin_pass cells r). snd (snd x)"
    by (auto simp: active_count_def filter_empty_conv)
  then have all: "\<And>w m. (w, m, False) \<in> set cells \<Longrightarrow> share cells r w < m"
    by (force simp: pin_pass_def pins_def)
  have "sum_list (map (\<lambda>(w, m, c). if c then 0 else share cells r w) xs)
        \<le> sum_list (map (\<lambda>(w, m, c). if c then 0 else m) xs)" if "set xs \<subseteq> set cells" for xs
    using that all by (induction xs) (fastforce intro: add_mono less_imp_le)+
  moreover have "sum_list (map (\<lambda>(w, m, c). if c then 0 else share cells r w) xs)
        < sum_list (map (\<lambda>(w, m, c). if c then 0 else m) xs)"
    if "set xs \<subseteq> set cells" "0 < active_count xs" for xs
    using that
  proof (induction xs)
    case (Cons x xs)
    obtain w m c where x: "x = (w, m, c)" by (cases x)
    have le: "sum_list (map (\<lambda>(w, m, c). if c then 0 else share cells r w) xs)
        \<le> sum_list (map (\<lambda>(w, m, c). if c then 0 else m) xs)"
      using Cons.prems(1) calculation by auto
    show ?case
    proof (cases c)
      case True
      with Cons x show ?thesis by (simp add: active_count_def)
    next
      case False
      with Cons.prems x all have "share cells r w < m" by auto
      with le x False show ?thesis by simp
    qed
  qed (simp add: active_count_def)
  ultimately have "sum_list (map (\<lambda>(w, m, c). if c then 0 else share cells r w) cells) < min_active cells"
    using act by (auto simp: min_active_def)
  with share_sum [OF ok act] fit show False by simp
qed

lemma waterfill_sum:
  assumes "cells_ok cells" "0 < active_count cells" "min_active cells \<le> r"
  shows "sum_list (waterfill cells r) = min_clamped cells + r"
  using assms
proof (induction cells r rule: waterfill.induct)
  case (1 cells r)
  show ?case
  proof (cases "\<exists>x \<in> set cells. pins cells r x")
    case True
    have "sum_list (waterfill (pin_pass cells r) (r - pinned_sum cells r))
          = min_clamped (pin_pass cells r) + (r - pinned_sum cells r)"
    proof (rule "1.IH")
      show "active_count cells \<noteq> 0" using "1.prems" by simp
      show "\<exists>x \<in> set cells. pins cells r x" by (rule True)
      show "cells_ok (pin_pass cells r)" using "1.prems" by (intro pin_pass_cells_ok)
      show "0 < active_count (pin_pass cells r)" using "1.prems" by (intro pin_pass_leaves_active)
      show "min_active (pin_pass cells r) \<le> r - pinned_sum cells r" using "1.prems" by (simp add: pin_pass_sums)
    qed
    with True "1.prems" show ?thesis by (simp add: waterfill.simps [of cells r] pin_pass_sums)
  next
    case False
    have "sum_list (map (\<lambda>(w, m, c). if c then m else f w) xs)
          = sum_list (map (\<lambda>(w, m, c). if c then m else 0) xs) + sum_list (map (\<lambda>(w, m, c). if c then 0 else f w) xs)"
      for f :: "rat \<Rightarrow> rat" and xs :: "cell list"
      by (induction xs) auto
    note parts = this [of "share cells r" cells]
    have "sum_list (waterfill cells r) = sum_list (map (\<lambda>(w, m, c). if c then m else share cells r w) cells)"
      using False "1.prems" by (subst waterfill.simps) simp
    also have "\<dots> = min_clamped cells + r"
      unfolding parts share_sum [OF "1.prems"(1,2)] by (simp add: min_clamped_def)
    finally show ?thesis .
  qed
qed

lemma waterfill_mins:
  assumes "cells_ok cells" "0 < active_count cells" "min_active cells \<le> r"
  shows "list_all2 (\<lambda>(w, m, c) f. m - 1 / 10 ^ 9 \<le> f \<and> 0 \<le> f) cells (waterfill cells r)"
  using assms
proof (induction cells r rule: waterfill.induct)
  case (1 cells r)
  have r0: "0 \<le> r"
  proof -
    have "0 \<le> min_active cells" using "1.prems"(1) unfolding min_active_def cells_ok_def
      by (intro sum_list_map_nonneg) auto
    with "1.prems"(3) show ?thesis by simp
  qed
  show ?case
  proof (cases "\<exists>x \<in> set cells. pins cells r x")
    case True
    have "list_all2 (\<lambda>(w, m, c) f. m - 1 / 10 ^ 9 \<le> f \<and> 0 \<le> f) (pin_pass cells r)
            (waterfill (pin_pass cells r) (r - pinned_sum cells r))"
    proof (rule "1.IH")
      show "active_count cells \<noteq> 0" using "1.prems" by simp
      show "\<exists>x \<in> set cells. pins cells r x" by (rule True)
      show "cells_ok (pin_pass cells r)" using "1.prems" by (intro pin_pass_cells_ok)
      show "0 < active_count (pin_pass cells r)" using "1.prems" by (intro pin_pass_leaves_active)
      show "min_active (pin_pass cells r) \<le> r - pinned_sum cells r" using "1.prems" by (simp add: pin_pass_sums)
    qed
    then show ?thesis using True "1.prems"
      by (simp add: waterfill.simps [of cells r] pin_pass_def list_all2_map1 case_prod_beta)
  next
    case False
    have aw: "0 < active_weight cells" using "1.prems" by (intro active_weight_pos)
    have "m - 1 / 10 ^ 9 \<le> (if c then m else share cells r w) \<and> 0 \<le> (if c then m else share cells r w)"
      if "(w, m, c) \<in> set cells" for w m c
      using that False "1.prems"(1) r0 aw
      by (auto simp: pins_def cells_ok_def share_def not_less)
    then show ?thesis using False "1.prems"
      by (auto simp: waterfill.simps [of cells r] list_all2_map2 list_all2_same case_prod_beta)
  qed
qed

lemma cells_init:
  "active_count (map (\<lambda>c. (f c, g c, False)) cs) = length cs"
  "min_active (map (\<lambda>c. (f c, g c, False)) cs) = sum_list (map g cs)"
  "min_clamped (map (\<lambda>c. (f c, g c, False)) cs) = 0"
  by (induction cs) (auto simp: active_count_def min_active_def min_clamped_def)

subsection \<open>Minimum spans and fractions\<close>

definition opts_ok :: "layout_opts \<Rightarrow> bool" where
  "opts_ok opts = (0 \<le> gap opts \<and> 0 \<le> swidth (minLeaf opts) \<and> 0 \<le> sheight (minLeaf opts))"

lemma foldl_max_ge: "(x::rat) \<le> foldl max x ys"
  by (induction ys arbitrary: x) (auto intro: order_trans [OF max.cobounded1])

lemma minSpan_nonneg: "pos_node n \<Longrightarrow> opts_ok opts \<Longrightarrow> 0 \<le> minSpan n ax opts"
proof (induction n rule: lath_node_induct)
  case (Split d cs)
  have "0 \<le> minSpan (fst c) ax opts" if "c \<in> set cs" for c
    using Split.IH [of "fst c" "snd c"] Split.prems that by auto
  then have "0 \<le> sum_list (map (\<lambda>c. minSpan (fst c) ax opts) cs)" by (intro sum_list_map_nonneg)
  moreover have "(1::rat) \<le> of_nat (length cs)" using Split.prems by (cases cs) auto
  then have "0 \<le> gap opts * (of_nat (length cs) - 1)" using Split.prems by (simp add: opts_ok_def)
  ultimately show ?case by (auto simp: foldl_max_ge)
qed (simp add: opts_ok_def)

lemma child_fracs_sound:
  assumes pos: "pos_node (Split d cs)" and opts: "opts_ok opts" and av: "0 \<le> available"
  shows "length (child_fracs cs available opts d) = length cs"
    and "sum_list (child_fracs cs available opts d) = available"
    and "\<forall>f \<in> set (child_fracs cs available opts d). 0 \<le> f"
proof -
  let ?mins = "map (\<lambda>c. minSpan (fst c) d opts) cs"
  let ?cells = "map (\<lambda>c. (snd c, minSpan (fst c) d opts, False)) cs"
  have mn: "0 \<le> minSpan (fst c) d opts" if "c \<in> set cs" for c
    using pos opts that by (auto intro: minSpan_nonneg)
  have "length (child_fracs cs available opts d) = length cs \<and>
        sum_list (child_fracs cs available opts d) = available \<and>
        (\<forall>f \<in> set (child_fracs cs available opts d). 0 \<le> f)"
  proof (cases "sum_list ?mins > available")
    case True
    with av have T: "0 < sum_list ?mins" by simp
    have "sum_list (map (\<lambda>m. m / sum_list ?mins * available) ?mins) = sum_list ?mins / sum_list ?mins * available"
      by (simp add: sum_list_map_mult sum_list_map_div comp_def)
    with True T av mn show ?thesis
      by (auto simp: child_fracs_def Let_def intro!: mult_nonneg_nonneg divide_nonneg_pos)
  next
    case False
    have ok: "cells_ok ?cells" using pos mn by (auto simp: cells_ok_def)
    have act: "0 < active_count ?cells" using pos by (simp add: cells_init)
    have fit: "min_active ?cells \<le> available" using False by (simp add: cells_init)
    have "list_all2 (\<lambda>(w, m, c) f. m - 1 / 10 ^ 9 \<le> f \<and> 0 \<le> f) ?cells (waterfill ?cells available)"
      by (rule waterfill_mins [OF ok act fit])
    then have "length (waterfill ?cells available) = length cs" "\<forall>f \<in> set (waterfill ?cells available). 0 \<le> f"
      by (auto simp: list_all2_conv_all_nth in_set_conv_nth case_prod_beta)
    with waterfill_sum [OF ok act fit] False show ?thesis
      by (simp add: child_fracs_def Let_def cells_init)
  qed
  then show "length (child_fracs cs available opts d) = length cs"
    and "sum_list (child_fracs cs available opts d) = available"
    and "\<forall>f \<in> set (child_fracs cs available opts d). 0 \<le> f" by auto
qed

subsection \<open>Rounding\<close>

lemma length_cumulative_loop [simp]: "length (cumulative_loop fs target cum prev) = length fs"
  by (induction fs target cum prev rule: cumulative_loop.induct) auto

lemma cumulative_loop_sum: "fs \<noteq> [] \<Longrightarrow> sum_list (cumulative_loop fs target cum prev) = target - prev"
  by (induction fs target cum prev rule: cumulative_loop.induct) auto

lemma cumulative_loop_nonneg:
  "\<forall>f \<in> set fs. 0 \<le> f \<Longrightarrow> prev \<le> js_round cum \<Longrightarrow> js_round (cum + sum_list fs) \<le> target \<Longrightarrow>
   \<forall>s \<in> set (cumulative_loop fs target cum prev). 0 \<le> s"
proof (induction fs target cum prev rule: cumulative_loop.induct)
  case (2 f target cum prev)
  then have "js_round cum \<le> js_round (cum + f)" by (intro js_round_mono) simp
  with 2 show ?case by simp
next
  case (3 f g fs target cum prev)
  then have "js_round cum \<le> js_round (cum + f)" by (intro js_round_mono) simp
  with 3 show ?case by (simp add: add.assoc)
qed simp

lemma cumulativeRound_sound:
  assumes "fs \<noteq> []" "\<forall>f \<in> set fs. 0 \<le> f" "sum_list fs = tot"
  shows "length (cumulativeRound fs tot) = length fs"
    and "sum_list (cumulativeRound fs tot) = js_round tot"
    and "\<forall>s \<in> set (cumulativeRound fs tot). 0 \<le> s"
  using assms cumulative_loop_nonneg [of fs 0 0 "js_round tot"]
  by (simp_all add: cumulativeRound_def cumulative_loop_sum)

lemma allocateChildSpans_sound:
  assumes "pos_node (Split d cs)" and "opts_ok opts"
  shows "length (allocateChildSpans cs spn opts d) = length cs"
    and "sum_list (allocateChildSpans cs spn opts d) = js_round (available_span (length cs) spn opts)"
    and "\<forall>s \<in> set (allocateChildSpans cs spn opts d). 0 \<le> s"
proof -
  let ?a = "available_span (length cs) spn opts"
  have a: "0 \<le> ?a" by (simp add: available_span_def)
  note f = child_fracs_sound [OF assms a]
  have "child_fracs cs ?a opts d \<noteq> []" using f(1) assms(1) by auto
  note c = cumulativeRound_sound [OF this f(3) f(2)]
  show "length (allocateChildSpans cs spn opts d) = length cs"
    and "sum_list (allocateChildSpans cs spn opts d) = js_round ?a"
    and "\<forall>s \<in> set (allocateChildSpans cs spn opts d). 0 \<le> s"
    using c f(1) by (simp_all add: allocateChildSpans_def Let_def)
qed

section \<open>Rectangles tile\<close>

definition rect_inside :: "rect \<Rightarrow> rect \<Rightarrow> bool" where
  "rect_inside a b =
     (rx b \<le> rx a \<and> rx a + width a \<le> rx b + width b \<and>
      ry b \<le> ry a \<and> ry a + height a \<le> ry b + height b)"

definition rects_apart :: "rect \<Rightarrow> rect \<Rightarrow> bool" where
  "rects_apart a b =
     (rx a + width a \<le> rx b \<or> rx b + width b \<le> rx a \<or>
      ry a + height a \<le> ry b \<or> ry b + height b \<le> ry a)"

definition rect_area :: "rect \<Rightarrow> rat" where
  "rect_area r = width r * height r"

definition whole :: "rat \<Rightarrow> bool" where
  "whole x = (of_int \<lfloor>x\<rfloor> = x)"

definition rect_ok :: "rect \<Rightarrow> bool" where
  "rect_ok r = (whole (width r) \<and> whole (height r) \<and> 0 \<le> width r \<and> 0 \<le> height r)"

lemma whole_of_int [simp]: "whole (of_int i)"
  by (simp add: whole_def)

lemma js_round_whole: "whole x \<Longrightarrow> of_int (js_round x) = x"
  unfolding whole_def by (metis js_round_of_int)

lemma rect_inside_refl [simp]: "rect_inside r r"
  by (simp add: rect_inside_def)

lemma rect_inside_trans: "rect_inside a b \<Longrightarrow> rect_inside b c \<Longrightarrow> rect_inside a c"
  by (auto simp: rect_inside_def)

lemma rects_apart_inside: "rects_apart a b \<Longrightarrow> rect_inside a' a \<Longrightarrow> rect_inside b' b \<Longrightarrow> rects_apart a' b'"
  by (auto simp: rects_apart_def rect_inside_def)

text \<open>Every split the layout meets has room for its gaps.\<close>

fun layout_fits :: "lath_node \<Rightarrow> rect \<Rightarrow> layout_opts \<Rightarrow> bool"
  and layout_fits_children :: "lath_child list \<Rightarrow> rect list \<Rightarrow> layout_opts \<Rightarrow> bool"
where
  "layout_fits (Leaf i) r opts = True"
| "layout_fits (Split d cs) r opts =
     (gap opts * (of_nat (length cs) - 1) \<le> (if d = Row then width r else height r) \<and>
      layout_fits_children cs (forEachChildRect d cs r opts) opts)"
| "layout_fits_children [] rs opts = True"
| "layout_fits_children (c # cs) [] opts = True"
| "layout_fits_children (c # cs) (r # rs) opts =
     (layout_fits (fst c) r opts \<and> layout_fits_children cs rs opts)"

subsection \<open>One split\<close>

lemma length_child_rects [simp]: "length (child_rects d r g ss pos) = length ss"
  by (induction ss arbitrary: pos) auto

text \<open>The extent of the children along the axis, gaps between them included.\<close>

definition run_end :: "rat \<Rightarrow> int list \<Rightarrow> rat \<Rightarrow> rat" where
  "run_end pos ss g = pos + of_int (sum_list ss) + g * (of_nat (length ss) - 1)"

definition along_start :: "axis \<Rightarrow> rect \<Rightarrow> rat" where
  "along_start d q = (if d = Row then rx q else ry q)"

definition along_end :: "axis \<Rightarrow> rect \<Rightarrow> rat" where
  "along_end d q = (if d = Row then rx q + width q else ry q + height q)"

definition same_cross :: "axis \<Rightarrow> rect \<Rightarrow> rect \<Rightarrow> bool" where
  "same_cross d q r = (if d = Row then ry q = ry r \<and> height q = height r else rx q = rx r \<and> width q = width r)"

lemma run_end_Cons: "ss \<noteq> [] \<Longrightarrow> run_end pos (s # ss) g = run_end (pos + of_int s + g) ss g"
  by (cases ss) (simp_all add: run_end_def algebra_simps)

lemma child_rects_extent:
  assumes "0 \<le> g" "\<forall>s \<in> set ss. 0 \<le> s" "q \<in> set (child_rects d r g ss pos)"
  shows "pos \<le> along_start d q \<and> along_end d q \<le> run_end pos ss g \<and> same_cross d q r \<and>
         whole (along_end d q - along_start d q) \<and> along_start d q \<le> along_end d q"
  using assms
proof (induction ss arbitrary: pos)
  case (Cons s ss)
  let ?q = "if d = Row then \<lparr>rx = pos, ry = ry r, width = of_int s, height = height r\<rparr>
      else \<lparr>rx = rx r, ry = pos, width = width r, height = of_int s\<rparr>"
  have s0: "0 \<le> s" and ss0: "0 \<le> sum_list ss" using Cons.prems(2) by (auto intro: sum_list_nonneg)
  have e: "pos + of_int s \<le> run_end pos (s # ss) g"
    using ss0 Cons.prems(1) by (simp add: run_end_def)
  show ?case
  proof (cases "q = ?q")
    case True
    with e s0 show ?thesis by (auto simp: along_start_def along_end_def same_cross_def)
  next
    case False
    with Cons.prems(3) have q: "q \<in> set (child_rects d r g ss (pos + of_int s + g))" by auto
    then have "ss \<noteq> []" by auto
    with Cons.IH [OF Cons.prems(1) _ q] Cons.prems s0 show ?thesis
      by (auto simp: run_end_Cons intro: order_trans [of _ "pos + of_int s + g"])
  qed
qed simp

lemma along_apart: "along_end d a \<le> along_start d b \<Longrightarrow> rects_apart a b"
  by (auto simp: along_end_def along_start_def rects_apart_def split: if_splits)

lemma child_rects_apart:
  assumes "0 \<le> g" "\<forall>s \<in> set ss. 0 \<le> s"
  shows "sorted_wrt rects_apart (child_rects d r g ss pos)"
  using assms
proof (induction ss arbitrary: pos)
  case (Cons s ss)
  have "pos + of_int s \<le> along_start d q" if "q \<in> set (child_rects d r g ss (pos + of_int s + g))" for q
    using child_rects_extent [OF Cons.prems(1) _ that] Cons.prems by auto
  with Cons show ?case
    by (auto intro!: along_apart [of d] simp: along_end_def)
qed simp

lemma child_rects_area:
  "sum_list (map rect_area (child_rects d r g ss pos)) = of_int (sum_list ss) * (if d = Row then height r else width r)"
  by (induction ss arbitrary: pos) (auto simp: rect_area_def distrib_right)

lemma available_span_fits:
  assumes "gap opts * (of_nat n - 1) \<le> spn"
  shows "available_span n spn opts = spn - gap opts * (of_nat n - 1)"
  using assms by (simp add: available_span_def)

lemma whole_Ints: "whole x \<longleftrightarrow> x \<in> \<int>"
  by (metis Ints_cases Ints_of_int floor_of_int whole_def)

lemma whole_minus: "whole a \<Longrightarrow> whole b \<Longrightarrow> whole (a - b)"
  by (simp add: whole_Ints)

lemma whole_mult_nat: "whole a \<Longrightarrow> whole (a * (of_nat n - 1))"
  by (simp add: whole_Ints)

lemma forEachChildRect_sound:
  assumes pos: "pos_node (Split d cs)" and opts: "opts_ok opts" and g: "whole (gap opts)" and r: "rect_ok r"
    and fits: "gap opts * (of_nat (length cs) - 1) \<le> (if d = Row then width r else height r)"
  shows "length (forEachChildRect d cs r opts) = length cs"
    and "sorted_wrt rects_apart (forEachChildRect d cs r opts)"
    and "q \<in> set (forEachChildRect d cs r opts) \<Longrightarrow> rect_inside q r \<and> rect_ok q"
    and "sum_list (map rect_area (forEachChildRect d cs r opts))
         + gap opts * (of_nat (length cs) - 1) * (if d = Row then height r else width r) = rect_area r"
proof -
  let ?spn = "if d = Row then width r else height r"
  let ?ss = "allocateChildSpans cs ?spn opts d"
  note sp = allocateChildSpans_sound [OF pos opts, of ?spn]
  have g0: "0 \<le> gap opts" using opts by (simp add: opts_ok_def)
  have "whole ?spn" using r by (simp add: rect_ok_def)
  then have "whole (available_span (length cs) ?spn opts)"
    unfolding available_span_fits [OF fits] using g by (intro whole_minus whole_mult_nat)
  then have tot: "of_int (sum_list ?ss) = ?spn - gap opts * (of_nat (length cs) - 1)"
    unfolding sp(2) by (simp only: js_round_whole available_span_fits [OF fits])
  show "length (forEachChildRect d cs r opts) = length cs"
    using sp(1) by (simp add: forEachChildRect_def)
  show "sorted_wrt rects_apart (forEachChildRect d cs r opts)"
    unfolding forEachChildRect_def by (rule child_rects_apart [OF g0 sp(3)])
  have re: "run_end p ?ss (gap opts) = p + ?spn" for p
    using sp(1) tot by (simp add: run_end_def)
  show "rect_inside q r \<and> rect_ok q" if "q \<in> set (forEachChildRect d cs r opts)"
    using child_rects_extent [OF g0 sp(3) that [unfolded forEachChildRect_def]] r
    by (auto simp: re rect_inside_def rect_ok_def along_start_def along_end_def same_cross_def split: if_splits)
  show "sum_list (map rect_area (forEachChildRect d cs r opts))
         + gap opts * (of_nat (length cs) - 1) * (if d = Row then height r else width r) = rect_area r"
    unfolding forEachChildRect_def child_rects_area tot by (simp add: rect_area_def algebra_simps)
qed

subsection \<open>The whole tree\<close>

lemma layoutNode_leaves:
  "pos_node n \<Longrightarrow> opts_ok opts \<Longrightarrow> map fst (layoutNode n r opts) = leaves_walk n"
  "(\<forall>c \<in> set cs. pos_node (fst c)) \<Longrightarrow> opts_ok opts \<Longrightarrow> length rs = length cs \<Longrightarrow>
     map fst (layout_children cs rs opts) = concat (map (\<lambda>c. leaves_walk (fst c)) cs)"
  by (induction n r opts and cs rs opts rule: layoutNode_layout_children.induct)
     (auto simp: forEachChildRect_def allocateChildSpans_sound(1))

definition good_rect :: "rect \<Rightarrow> rect \<Rightarrow> bool" where
  "good_rect r q = (rect_inside q r \<and> rect_ok q)"

text \<open>The leaves' rectangles lie in the node's one and are pairwise apart.\<close>

lemma layoutNode_tiles:
  "pos_node n \<Longrightarrow> opts_ok opts \<Longrightarrow> whole (gap opts) \<Longrightarrow> rect_ok r \<Longrightarrow> layout_fits n r opts \<Longrightarrow>
     (\<forall>q \<in> snd ` set (layoutNode n r opts). good_rect r q) \<and>
     sorted_wrt rects_apart (map snd (layoutNode n r opts))"
  "(\<forall>c \<in> set cs. pos_node (fst c)) \<Longrightarrow> opts_ok opts \<Longrightarrow> whole (gap opts) \<Longrightarrow> (\<forall>r \<in> set rs. rect_ok r) \<Longrightarrow>
     layout_fits_children cs rs opts \<Longrightarrow> sorted_wrt rects_apart rs \<Longrightarrow>
     (\<forall>q \<in> snd ` set (layout_children cs rs opts). \<exists>r \<in> set rs. good_rect r q) \<and>
     sorted_wrt rects_apart (map snd (layout_children cs rs opts))"
proof (induction n r opts and cs rs opts rule: layoutNode_layout_children.induct)
  case (1 i r opts)
  then show ?case by (simp add: good_rect_def)
next
  case (2 d cs r opts)
  have fits: "gap opts * (of_nat (length cs) - 1) \<le> (if d = Row then width r else height r)"
    using "2.prems" by simp
  note sp = forEachChildRect_sound [OF "2.prems"(1-4) fits]
  have IH: "(\<forall>q \<in> snd ` set (layout_children cs (forEachChildRect d cs r opts) opts).
              \<exists>r \<in> set (forEachChildRect d cs r opts). good_rect r q) \<and>
            sorted_wrt rects_apart (map snd (layout_children cs (forEachChildRect d cs r opts) opts))"
    using "2.IH" "2.prems" sp by auto
  then show ?case using sp(3) by (fastforce simp: good_rect_def intro: rect_inside_trans)
next
  case (5 c cs r rs opts)
  have a: "\<forall>q \<in> snd ` set (layoutNode (fst c) r opts). good_rect r q"
    "sorted_wrt rects_apart (map snd (layoutNode (fst c) r opts))"
    using "5.IH"(1) "5.prems" by auto
  have b: "\<forall>q \<in> snd ` set (layout_children cs rs opts). \<exists>r \<in> set rs. good_rect r q"
    "sorted_wrt rects_apart (map snd (layout_children cs rs opts))"
    using "5.IH"(2) "5.prems" by auto
  have "rects_apart p q" if "p \<in> snd ` set (layoutNode (fst c) r opts)" "q \<in> snd ` set (layout_children cs rs opts)" for p q
  proof -
    from b(1) that(2) obtain r' where "r' \<in> set rs" "good_rect r' q" by blast
    moreover from this "5.prems"(6) have "rects_apart r r'" by simp
    moreover have "good_rect r p" using a(1) that(1) by blast
    ultimately show ?thesis by (auto simp: good_rect_def intro: rects_apart_inside)
  qed
  with a b show ?case by (auto simp: sorted_wrt_append)
qed simp_all

definition gap_area :: "sash list \<Rightarrow> rat" where
  "gap_area ss = sum_list (map (\<lambda>s. rect_area (sash_rect s)) ss)"

lemma gap_area_append [simp]: "gap_area (xs @ ys) = gap_area xs + gap_area ys"
  by (simp add: gap_area_def)

lemma gap_area_simps [simp]: "gap_area [] = 0" "gap_area (s # ss) = rect_area (sash_rect s) + gap_area ss"
  by (simp_all add: gap_area_def)


definition areas :: "(leaf_id \<times> rect) list \<Rightarrow> rat" where
  "areas m = sum_list (map (\<lambda>e. rect_area (snd e)) m)"

lemma areas_simps [simp]: "areas [] = 0" "areas (e # m) = rect_area (snd e) + areas m"
  "areas (m @ m') = areas m + areas m'"
  by (simp_all add: areas_def)

lemma layoutNode_area:
  "pos_node n \<Longrightarrow> opts_ok opts \<Longrightarrow> whole (gap opts) \<Longrightarrow> rect_ok r \<Longrightarrow> layout_fits n r opts \<Longrightarrow>
     areas (layoutNode n r opts) + gap_area (sash_walk n r opts path) = rect_area r"
  "(\<forall>c \<in> set cs. pos_node (fst c)) \<Longrightarrow> opts_ok opts \<Longrightarrow> whole (gap opts) \<Longrightarrow> (\<forall>r \<in> set rs. rect_ok r) \<Longrightarrow>
     layout_fits_children cs rs opts \<Longrightarrow> length rs = length cs \<Longrightarrow> i + length cs = k \<Longrightarrow>
     areas (layout_children cs rs opts) + gap_area (sash_children d k cs rs q opts path i) =
     sum_list (map rect_area rs)
       + (if cs = [] then 0 else gap opts * (of_nat (length cs) - 1) * (if d = Row then height q else width q))"
proof (induction n r opts and cs rs opts arbitrary: path and path i k d q rule: layoutNode_layout_children.induct)
  case (2 d' cs r opts)
  have fits: "gap opts * (of_nat (length cs) - 1) \<le> (if d' = Row then width r else height r)"
    using "2.prems" by simp
  note sp = forEachChildRect_sound [OF "2.prems"(1-4) fits]
  have "cs \<noteq> []" using "2.prems" by simp
  with "2.IH" [of 0 "length cs"] "2.prems" sp show ?case by auto
next
  case (5 c cs r rs opts)
  have a: "areas (layoutNode (fst c) r opts) + gap_area (sash_walk (fst c) r opts (path @ [i])) = rect_area r"
    using "5.IH"(1) "5.prems" by auto
  have b: "areas (layout_children cs rs opts) + gap_area (sash_children d k cs rs q opts path (Suc i)) =
     sum_list (map rect_area rs)
       + (if cs = [] then 0 else gap opts * (of_nat (length cs) - 1) * (if d = Row then height q else width q))"
    using "5.prems" by (intro "5.IH"(2)) auto
  let ?cross = "if d = Row then height q else width q"
  have last: "i < k - Suc 0 \<longleftrightarrow> cs \<noteq> []" using "5.prems" by (cases cs) auto
  have sash: "gap_area (sash_children d k (c # cs) (r # rs) q opts path i) =
      (if cs = [] then 0 else gap opts * ?cross)
        + gap_area (sash_walk (fst c) r opts (path @ [i])) + gap_area (sash_children d k cs rs q opts path (Suc i))"
    by (simp add: last) (simp add: rect_area_def)
  show ?case unfolding sash using a b
    by (cases "cs = []") (simp_all add: algebra_simps)
qed simp_all

subsection \<open>Whole offsets\<close>

text \<open>The top left corner of a rectangle is a whole number of pixels away from that of another.\<close>

definition whole_offset :: "rect \<Rightarrow> rect \<Rightarrow> bool" where
  "whole_offset r q = (whole (rx q - rx r) \<and> whole (ry q - ry r))"

lemma whole_add [intro]: "whole x \<Longrightarrow> whole y \<Longrightarrow> whole (x + y)"
  unfolding whole_def by (metis of_int_add of_int_floor_cancel)

lemma whole_offset_refl [simp]: "whole_offset r r"
  by (simp add: whole_offset_def whole_def)

lemma whole_offset_trans:
  assumes "whole_offset r q" "whole_offset q p"
  shows "whole_offset r p"
  using assms whole_add [of "rx p - rx q" "rx q - rx r"] whole_add [of "ry p - ry q" "ry q - ry r"]
  by (simp add: whole_offset_def)

lemma child_rects_whole_offset:
  assumes "whole g" "whole (pos - (if d = Row then rx r else ry r))" "q \<in> set (child_rects d r g ss pos)"
  shows "whole_offset r q"
  using assms
proof (induction ss arbitrary: pos)
  case (Cons s ss)
  let ?o = "if d = Row then rx r else ry r"
  have "whole (of_int s + g + (pos - ?o))"
    using Cons.prems(1,2) by (intro whole_add) simp_all
  then have step: "whole (pos + of_int s + g - ?o)" by (simp add: algebra_simps)
  have zero: "whole 0" by (simp add: whole_def)
  show ?case
  proof (cases "q \<in> set (child_rects d r g ss (pos + of_int s + g))")
    case True
    then show ?thesis by (intro Cons.IH [OF Cons.prems(1) step])
  next
    case False
    with Cons.prems zero show ?thesis by (auto simp: whole_offset_def split: if_splits)
  qed
qed simp

lemma layoutNode_whole_offset:
  "whole (gap opts) \<Longrightarrow> (k, q) \<in> set (layoutNode n r opts) \<Longrightarrow> whole_offset r q"
  "whole (gap opts) \<Longrightarrow> (k, q) \<in> set (layout_children cs rs opts) \<Longrightarrow> \<exists>r \<in> set rs. whole_offset r q"
proof (induction n r opts and cs rs opts rule: layoutNode_layout_children.induct)
  case (2 d cs r opts)
  then obtain q' where q': "q' \<in> set (forEachChildRect d cs r opts)" "whole_offset q' q" by auto
  moreover have "whole_offset r q'"
    using "2.prems"(1) q'(1) by (intro child_rects_whole_offset [of "gap opts" "if d = Row then rx r else ry r" d])
      (auto simp: forEachChildRect_def whole_def)
  ultimately show ?case by (blast intro: whole_offset_trans)
qed auto

section \<open>The layout map\<close>

lemma layout_eq:
  assumes "root t = Some n" "pos_node n" "distinct (leaves_walk n)" "opts_ok opts"
  shows "layout t r opts = layoutNode n (nonnegativeRect r) opts"
  using assms fold_js_map_set [of "layoutNode n (nonnegativeRect r) opts" "[]"]
  by (simp add: layout_def layoutNode_leaves(1))

lemma layout_keys:
  assumes "wf_tree eps t" "opts_ok opts"
  shows "map fst (layout t r opts) = leaves t"
proof (cases "root t")
  case None
  then show ?thesis by (simp add: layout_def leaves_def)
next
  case (Some n)
  with assms have "pos_node n" "distinct (leaves_walk n)" by (auto simp: wf_tree_def intro: wf_node_pos)
  with Some assms show ?thesis by (simp add: layout_eq layoutNode_leaves(1) leaves_def)
qed

lemma layout_children_nth:
  "i < length cs \<Longrightarrow> length rs = length cs \<Longrightarrow> x \<in> set (layoutNode (fst (cs ! i)) (rs ! i) opts) \<Longrightarrow>
   x \<in> set (layout_children cs rs opts)"
proof (induction cs arbitrary: rs i)
  case (Cons c cs)
  then show ?case by (cases rs; cases i) auto
qed simp

lemma node_rect_layoutNode:
  "pos_node n \<Longrightarrow> opts_ok opts \<Longrightarrow> node_at n p = Some (Leaf k) \<Longrightarrow>
   \<exists>q. node_rect n r opts p = Some q \<and> (k, q) \<in> set (layoutNode n r opts)"
proof (induction n p arbitrary: r rule: node_at.induct)
  case (3 d cs i p)
  then have i: "i < length cs" by (simp split: if_splits)
  have len: "length (forEachChildRect d cs r opts) = length cs"
    using "3.prems" by (simp add: forEachChildRect_def allocateChildSpans_sound(1))
  from "3.IH" [OF i, of "forEachChildRect d cs r opts ! i"] "3.prems" i obtain q where
    "node_rect (fst (cs ! i)) (forEachChildRect d cs r opts ! i) opts p = Some q"
    "(k, q) \<in> set (layoutNode (fst (cs ! i)) (forEachChildRect d cs r opts ! i) opts)" by auto
  with i len show ?case by (auto intro: layout_children_nth)
qed auto

lemma nodeRectAtPath_layout:
  assumes "wf_tree eps t" "opts_ok opts" "findLeafPath t k = Some p"
  shows "nodeRectAtPath t r opts p = map_of (layout t r opts) k" "map_of (layout t r opts) k \<noteq> None"
proof -
  from findLeafPath_Some [OF assms(3)] obtain n where n: "root t = Some n" "node_at n p = Some (Leaf k)" by blast
  with assms(1) have pos: "pos_node n" and d: "distinct (leaves_walk n)"
    by (auto simp: wf_tree_def intro: wf_node_pos)
  from node_rect_layoutNode [OF pos assms(2) n(2), of "nonnegativeRect r"] obtain q where
    q: "node_rect n (nonnegativeRect r) opts p = Some q"
       "(k, q) \<in> set (layoutNode n (nonnegativeRect r) opts)" by blast
  have "distinct (map fst (layout t r opts))"
    using layout_keys [OF assms(1,2), of r] d n(1) by (simp add: leaves_def)
  with q(2) n pos d assms(2) have "map_of (layout t r opts) k = Some q"
    by (simp add: layout_eq)
  with q(1) n show "nodeRectAtPath t r opts p = map_of (layout t r opts) k" "map_of (layout t r opts) k \<noteq> None"
    by (simp_all add: nodeRectAtPath_def)
qed

section \<open>Properties of the layout\<close>

lemma nonnegativeRect_ok: "whole (width r) \<Longrightarrow> whole (height r) \<Longrightarrow> rect_ok (nonnegativeRect r)"
  by (auto simp: rect_ok_def nonnegativeRect_def max_def whole_def)

text \<open>\<open>allocateChildSpans\<close> shares a split's span exactly: one integer per child, none negative,
  and together they make up the rounded span left after the gaps.\<close>

theorem allocate_exact:
  assumes "pos_node (Split d cs)" and "opts_ok opts"
  shows "length (allocateChildSpans cs spn opts d) = length cs
       \<and> (\<forall>s \<in> set (allocateChildSpans cs spn opts d). 0 \<le> s)
       \<and> sum_list (allocateChildSpans cs spn opts d) = js_round (max 0 (spn - gap opts * (of_nat (length cs) - 1)))"
  using allocateChildSpans_sound [OF assms, of spn] by (simp add: available_span_def)

definition demo_opts :: layout_opts where
  "demo_opts = \<lparr>gap = 6, minLeaf = \<lparr>swidth = 100, sheight = 60\<rparr>\<rparr>"

definition demo_node :: lath_node where
  "demo_node = Split Row [(Leaf ''a'', 1 / 2), (Split Col [(Leaf ''b'', 1 / 3), (Leaf ''c'', 2 / 3)], 1 / 2)]"

definition demo_rect :: rect where
  "demo_rect = \<lparr>rx = 0, ry = 0, width = 1000, height = 600\<rparr>"

lemma demo_opts_sel [simp]:
  "gap demo_opts = 6" "minLeaf demo_opts = \<lparr>swidth = 100, sheight = 60\<rparr>"
  by (simp_all add: demo_opts_def)

theorem allocate_exact_witness:
  "sum_list (allocateChildSpans [(Leaf ''a'', 1 / 3), (Leaf ''b'', 2 / 3)] 1000 demo_opts Row) = 994"
proof -
  have "pos_node (Split Row [(Leaf ''a'', 1 / 3), (Leaf ''b'', 2 / 3)])" by simp
  moreover have "opts_ok demo_opts" by (simp add: opts_ok_def)
  ultimately show ?thesis
    using allocate_exact [of Row "[(Leaf ''a'', 1 / 3), (Leaf ''b'', 2 / 3)]" demo_opts 1000]
    by simp
qed

text \<open>C3: \<open>layout\<close> tiles the given rectangle exactly: every leaf has one rectangle, in leaf order;
  the rectangles lie inside, have whole non-negative sizes, start a whole number of pixels from the corner
  of the given one (so have whole coordinates when it has) and are pairwise apart; and together with the
  sash bands they fill the rectangle's area. Side conditions: the tree is valid and not empty, the gap and
  the minimum sizes are not negative, the gap and the size of the given rectangle are whole numbers, and
  \<open>layout_fits\<close>: every split has room for the gaps between its children. A wall too small for its
  gaps is outside the claim: its children have size zero and stick out.\<close>

theorem layout_tiles:
  assumes "wf_tree eps t" and "root t = Some n" and "opts_ok opts" and "whole (gap opts)"
    and "whole (width r)" and "whole (height r)" and "layout_fits n (nonnegativeRect r) opts"
  shows "map fst (layout t r opts) = leaves t
       \<and> (\<forall>(k, q) \<in> set (layout t r opts).
            rect_inside q (nonnegativeRect r) \<and> rect_ok q \<and> whole_offset (nonnegativeRect r) q)
       \<and> sorted_wrt rects_apart (map snd (layout t r opts))
       \<and> sum_list (map (\<lambda>e. rect_area (snd e)) (layout t r opts))
         + sum_list (map (\<lambda>s. rect_area (sash_rect s)) (sashes t r opts)) = rect_area (nonnegativeRect r)"
proof -
  from assms have pos: "pos_node n" and d: "distinct (leaves_walk n)"
    by (auto simp: wf_tree_def intro: wf_node_pos)
  have ok: "rect_ok (nonnegativeRect r)" using assms by (intro nonnegativeRect_ok)
  have lay: "layout t r opts = layoutNode n (nonnegativeRect r) opts"
    using assms pos d by (intro layout_eq)
  note tiles = layoutNode_tiles(1) [OF pos assms(3,4) ok assms(7)]
  note area = layoutNode_area(1) [OF pos assms(3,4) ok assms(7), of "[]"]
  show ?thesis
  proof (intro conjI)
    show "map fst (layout t r opts) = leaves t" by (rule layout_keys [OF assms(1,3)])
    show "\<forall>(k, q) \<in> set (layout t r opts).
            rect_inside q (nonnegativeRect r) \<and> rect_ok q \<and> whole_offset (nonnegativeRect r) q"
      using tiles layoutNode_whole_offset(1) [OF assms(4)] by (force simp: lay good_rect_def)
    show "sorted_wrt rects_apart (map snd (layout t r opts))" using tiles by (simp add: lay)
    show "sum_list (map (\<lambda>e. rect_area (snd e)) (layout t r opts))
         + sum_list (map (\<lambda>s. rect_area (sash_rect s)) (sashes t r opts)) = rect_area (nonnegativeRect r)"
      using area assms(2) by (simp add: lay areas_def gap_area_def sashes_def)
  qed
qed

lemma demo_spans:
  "allocateChildSpans [(Leaf ''a'', 1 / 2), (Split Col [(Leaf ''b'', 1 / 3), (Leaf ''c'', 2 / 3)], 1 / 2)] 1000 demo_opts Row = [497, 497]"
  "allocateChildSpans [(Leaf ''b'', 1 / 3), (Leaf ''c'', 2 / 3)] 600 demo_opts Col = [198, 396]"
  by (simp_all add: allocateChildSpans_def available_span_def child_fracs_def
      waterfill.simps active_count_def active_weight_def share_def pins_def cumulativeRound_def js_round_def Let_def)

theorem layout_tiles_witness:
  "map fst (layout \<lparr>root = Some demo_node\<rparr> demo_rect demo_opts) = [''a'', ''b'', ''c'']
   \<and> sorted_wrt rects_apart (map snd (layout \<lparr>root = Some demo_node\<rparr> demo_rect demo_opts))"
proof -
  have "wf_tree 0 \<lparr>root = Some demo_node\<rparr>" by (simp add: wf_tree_def demo_node_def)
  moreover have "layout_fits demo_node (nonnegativeRect demo_rect) demo_opts"
    by (simp add: demo_node_def demo_rect_def nonnegativeRect_def forEachChildRect_def demo_spans)
  moreover have "opts_ok demo_opts" "whole (gap demo_opts)" by (simp_all add: opts_ok_def whole_def)
  moreover have "whole (width demo_rect)" "whole (height demo_rect)" by (simp_all add: demo_rect_def whole_def)
  ultimately show ?thesis
    using layout_tiles [of 0 "\<lparr>root = Some demo_node\<rparr>" demo_node demo_opts demo_rect]
    by (simp add: leaves_def demo_node_def)
qed

text \<open>The rectangle \<open>nodeRectAtPath\<close> gives for a leaf's path is the one \<open>layout\<close> gives the leaf.\<close>

theorem nodeRect_is_layout:
  assumes "wf_tree eps t" and "opts_ok opts" and "findLeafPath t k = Some p"
  shows "\<exists>q. nodeRectAtPath t r opts p = Some q \<and> (k, q) \<in> set (layout t r opts)"
  using nodeRectAtPath_layout [OF assms, of r] by (metis map_of_SomeD not_None_eq)

theorem nodeRect_is_layout_witness:
  "\<exists>q. nodeRectAtPath \<lparr>root = Some demo_node\<rparr> demo_rect demo_opts [1, 0] = Some q
       \<and> (''b'', q) \<in> set (layout \<lparr>root = Some demo_node\<rparr> demo_rect demo_opts)"
proof (rule nodeRect_is_layout [of 0])
  show "wf_tree 0 \<lparr>root = Some demo_node\<rparr>" by (simp add: wf_tree_def demo_node_def)
  show "opts_ok demo_opts" by (simp add: opts_ok_def)
  show "findLeafPath \<lparr>root = Some demo_node\<rparr> ''b'' = Some [1, 0]"
    by (simp add: findLeafPath_def demo_node_def)
qed

text \<open>\<open>neighbors\<close> answers another leaf beyond the edge, preferring leaves that overlap on the
  other axis and among them the nearest; it answers nothing only when no leaf lies beyond.\<close>

theorem neighbors_nearest:
  assumes "map_of (layout t r opts) k = Some c"
  shows "(case neighbors t r k dir opts of
            None \<Rightarrow> \<forall>(j, q) \<in> set (layout t r opts). j = k \<or> \<not> beyond dir c q
          | Some m \<Rightarrow> \<exists>q. (m, q) \<in> set (layout t r opts) \<and> m \<noteq> k \<and> beyond dir c q \<and>
              (\<forall>(j, q') \<in> set (layout t r opts). j \<noteq> k \<and> beyond dir c q' \<longrightarrow>
                 (cand_overlaps dir c q' \<longrightarrow> cand_overlaps dir c q) \<and>
                 (cand_overlaps dir c q = cand_overlaps dir c q' \<longrightarrow> cand_dist dir c q \<le> cand_dist dir c q')))"
proof -
  let ?L = "layout t r opts"
  let ?key = "\<lambda>(pid, q). (cand_dist dir c q, ry q, rx q, pid)"
  define cands where "cands = filter (\<lambda>(pid, q). pid \<noteq> k \<and> beyond dir c q) ?L"
  define ov where "ov = filter (\<lambda>(pid, q). cand_overlaps dir c q) cands"
  define pool where "pool = (if ov \<noteq> [] then ov else cands)"
  have eq: "neighbors t r k dir opts = (case sort_key ?key pool of [] \<Rightarrow> None | (pid, q) # _ \<Rightarrow> Some pid)"
    using assms by (simp add: neighbors_def Let_def cands_def ov_def pool_def)
  show ?thesis
  proof (cases "sort_key ?key pool")
    case Nil
    then have "length pool = 0" using length_sort [of ?key pool] by simp
    then have "cands = []" by (auto simp: pool_def split: if_splits)
    with Nil show ?thesis by (auto simp: eq cands_def filter_empty_conv)
  next
    case (Cons x xs)
    obtain m q where x: "x = (m, q)" by (cases x)
    have pool: "set (x # xs) = set pool" using Cons set_sort [of ?key pool] by simp
    then have mem: "(m, q) \<in> set pool" using x by auto
    have "sorted (map ?key (x # xs))" using Cons sorted_sort_key [of ?key pool] by simp
    then have low: "\<forall>y \<in> set (x # xs). cand_dist dir c q \<le> cand_dist dir c (snd y)"
      using x by (auto simp: less_eq_prod_def)
    with pool have near: "\<And>j q'. (j, q') \<in> set pool \<Longrightarrow> cand_dist dir c q \<le> cand_dist dir c q'" by fastforce
    have m: "(m, q) \<in> set ?L" "m \<noteq> k" "beyond dir c q"
      using mem by (auto simp: pool_def ov_def cands_def split: if_splits)
    have best: "(cand_overlaps dir c q' \<longrightarrow> cand_overlaps dir c q) \<and>
        (cand_overlaps dir c q = cand_overlaps dir c q' \<longrightarrow> cand_dist dir c q \<le> cand_dist dir c q')"
      if "(j, q') \<in> set ?L" "j \<noteq> k" "beyond dir c q'" for j q'
    proof (cases "ov = []")
      case True
      with that have "\<not> cand_overlaps dir c q'" "(j, q') \<in> set pool"
        by (auto simp: pool_def ov_def cands_def filter_empty_conv)
      with near show ?thesis by blast
    next
      case False
      then have "cand_overlaps dir c q" using mem by (simp add: pool_def ov_def)
      moreover have "cand_overlaps dir c q' \<Longrightarrow> (j, q') \<in> set pool"
        using that False by (simp add: pool_def) (simp add: ov_def cands_def)
      ultimately show ?thesis using near by blast
    qed
    have "neighbors t r k dir opts = Some m" using Cons x by (simp add: eq)
    then show ?thesis using m best by auto
  qed
qed

lemma demo_layout:
  "layout \<lparr>root = Some demo_node\<rparr> demo_rect demo_opts =
     [(''a'', \<lparr>rx = 0, ry = 0, width = 497, height = 600\<rparr>),
      (''b'', \<lparr>rx = 503, ry = 0, width = 497, height = 198\<rparr>),
      (''c'', \<lparr>rx = 503, ry = 204, width = 497, height = 396\<rparr>)]"
  by (simp add: layout_def demo_node_def demo_rect_def nonnegativeRect_def forEachChildRect_def demo_spans)

theorem neighbors_nearest_witness:
  "(case neighbors \<lparr>root = Some demo_node\<rparr> demo_rect ''a'' DRight demo_opts of
      None \<Rightarrow> False | Some m \<Rightarrow> m \<noteq> ''a'')"
  using neighbors_nearest [of "\<lparr>root = Some demo_node\<rparr>" demo_rect demo_opts "''a''"
      "\<lparr>rx = 0, ry = 0, width = 497, height = 600\<rparr>" DRight]
  by (auto simp: demo_layout split: option.splits)

end
