(* ===== verification/Lath_Drop_Target.thy ===== *)
theory Lath_Drop_Target
  imports Lath_Layout
begin

text \<open>
  Drop targets of a drag (\<open>lib/src/lib/lath/drop-target.ts\<close>): a node, or a run of adjacent
  children of a split, beside which a leaf is dropped. A run is made a node of its own for one
  operation (\<open>materializeTarget\<close>) and is found again by its leaves after a removal
  (\<open>targetByLeafSet\<close>).
\<close>

section \<open>Targets\<close>

record edge_target =
  tpath :: "nat list"
  tedge :: edge
  trange :: "(jsnum \<times> jsnum) option"

datatype drop_target = EdgeTarget edge_target | SwapTarget leaf_id

text \<open>A split whose children from \<open>a\<close> up to \<open>b\<close> are grouped in a split of their own.\<close>

definition group_children :: "axis \<Rightarrow> lath_child list \<Rightarrow> nat \<Rightarrow> nat \<Rightarrow> lath_node" where
  "group_children d cs a b =
     (let selected = take (b - a) (drop a cs);
          grp = Split d (normalizeWeights selected)
      in Split d (take a cs @ (grp, weight_sum selected) # drop b cs))"

definition materializeTarget :: "lath_tree \<Rightarrow> edge_target \<Rightarrow> (lath_tree \<times> nat list) option" where
  "materializeTarget t tg = (case nodeAtPath t (tpath tg) of
      None \<Rightarrow> None
    | Some node \<Rightarrow> (case trange tg of
        None \<Rightarrow> Some (t, tpath tg)
      | Some (start, stop) \<Rightarrow> (case (node, js_integer start, js_integer stop) of
          (Split d cs, Some s, Some e) \<Rightarrow>
            (if s < 0 \<or> e > int (length cs) \<or> e - s < 2 then None
             else if e - s = int (length cs) then Some (t, tpath tg)
             else Some (\<lparr>root = map_option (\<lambda>n. replaceAtPath n (tpath tg) (group_children d cs (nat s) (nat e))) (root t)\<rparr>,
                        tpath tg @ [nat s]))
        | _ \<Rightarrow> None)))"

text \<open>The adjacent children that hold exactly the wanted leaves: the first and last child with
  a wanted leaf, when all between are wanted entirely and no wanted leaf is elsewhere.\<close>

definition wanted_range :: "leaf_id list list \<Rightarrow> leaf_id list \<Rightarrow> (nat \<times> nat) option" where
  "wanted_range parts wanted =
     (let counts = map (\<lambda>ids. length (filter (\<lambda>x. x \<in> set wanted) ids)) parts;
          hits = filter (\<lambda>i. counts ! i > 0) [0..<length counts]
      in if hits = [] then None
         else (let first = hd hits; lst = last hits in
               if lst > first \<and> sum_list counts = length wanted
                  \<and> (\<forall>i \<in> set [first..<Suc lst]. counts ! i > 0 \<and> counts ! i = length (parts ! i))
               then Some (first, Suc lst) else None))"

text \<open>The walk of \<open>targetByLeafSet\<close>: the leaf ids below a node, and the target found so far;
  a later match replaces an earlier one. \<open>wanted\<close> lists the set's members once each.\<close>

fun tls_walk :: "leaf_id list \<Rightarrow> edge \<Rightarrow> lath_node \<Rightarrow> nat list \<Rightarrow> edge_target option \<Rightarrow> leaf_id list \<times> edge_target option"
  and tls_children :: "leaf_id list \<Rightarrow> edge \<Rightarrow> lath_child list \<Rightarrow> nat list \<Rightarrow> nat \<Rightarrow> edge_target option
      \<Rightarrow> leaf_id list list \<times> edge_target option"
where
  "tls_walk wanted e (Leaf i) path found =
     ([i], if length [i] = length wanted \<and> list_all (\<lambda>x. x \<in> set wanted) [i]
           then Some \<lparr>tpath = path, tedge = e, trange = None\<rparr> else found)"
| "tls_walk wanted e (Split d cs) path found =
     (let (parts, found') = tls_children wanted e cs path 0 found;
          ids = concat parts
      in (ids,
          if length ids = length wanted \<and> list_all (\<lambda>x. x \<in> set wanted) ids
          then Some \<lparr>tpath = path, tedge = e, trange = None\<rparr>
          else (case wanted_range parts wanted of
                  Some (a, b) \<Rightarrow> Some \<lparr>tpath = path, tedge = e,
                                      trange = Some (JFin (of_nat a), JFin (of_nat b))\<rparr>
                | None \<Rightarrow> found')))"
| "tls_children wanted e [] path i found = ([], found)"
| "tls_children wanted e (c # cs) path i found =
     (let (ids, f1) = tls_walk wanted e (fst c) (path @ [i]) found;
          (parts, f2) = tls_children wanted e cs path (Suc i) f1
      in (ids # parts, f2))"

definition targetByLeafSet :: "lath_tree \<Rightarrow> leaf_id list \<Rightarrow> edge \<Rightarrow> edge_target option" where
  "targetByLeafSet t wanted e =
     (if wanted = [] then None
      else (case root t of None \<Rightarrow> None | Some n \<Rightarrow> snd (tls_walk wanted e n [] None)))"

definition targetRect :: "lath_tree \<Rightarrow> rect \<Rightarrow> layout_opts \<Rightarrow> edge_target \<Rightarrow> rect option" where
  "targetRect t r opts tg = (case trange tg of
      None \<Rightarrow> nodeRectAtPath t r opts (tpath tg)
    | Some (start, stop) \<Rightarrow> (case materializeTarget t tg of
        None \<Rightarrow> None
      | Some _ \<Rightarrow> (case (js_integer start, js_integer stop) of
          (Some s, Some e) \<Rightarrow>
            (case (nodeRectAtPath t r opts (tpath tg @ [nat s]), nodeRectAtPath t r opts (tpath tg @ [nat (e - 1)])) of
               (Some a, Some b) \<Rightarrow>
                 Some \<lparr>rx = rx a, ry = ry a, width = rx b + width b - rx a, height = ry b + height b - ry a\<rparr>
             | _ \<Rightarrow> None)
        | _ \<Rightarrow> None)))"

end
