(* ===== verification/Lath_Ops.thy ===== *)
theory Lath_Ops
  imports Lath_Drop_Target
begin

text \<open>
  The operations on the split tree (\<open>lib/src/lib/lath/ops.ts\<close>): split, remove, restore,
  replace, swap, insert, move and resize. An operation answers the new tree and whether it
  was carried out; a rejected one answers the tree it was given. \<open>remove\<close> and \<open>move\<close> index
  the parent's children with a computed sibling index, which throws on a split with a single
  child: there the result is \<open>None\<close>.
\<close>

section \<open>Tokens\<close>

record restore_token =
  leafId :: leaf_id
  tweight :: jsnum
  siblingId :: "leaf_id option"
  siblingLeafIds :: "leaf_id list option"
  siblingFingerprint :: "string option"
  edge_of :: edge
  index :: jsnum
  fingerprint :: "string option"

datatype tier = Exact | Neighbor | Fallback

definition reject :: "lath_tree \<Rightarrow> lath_tree \<times> bool" where
  "reject t = (t, False)"

fun fp_walk :: "string \<Rightarrow> lath_node \<Rightarrow> nat list \<Rightarrow> nat list option"
  and fp_children :: "string \<Rightarrow> lath_child list \<Rightarrow> nat list \<Rightarrow> nat \<Rightarrow> nat list option"
where
  "fp_walk f (Leaf i) path = None"
| "fp_walk f (Split d cs) path =
     (if structureFingerprint (Split d cs) = f then Some path else fp_children f cs path 0)"
| "fp_children f [] path i = None"
| "fp_children f (c # cs) path i =
     (case fp_walk f (fst c) (path @ [i]) of
        Some p \<Rightarrow> Some p
      | None \<Rightarrow> fp_children f cs path (Suc i))"

definition findSplitPathByFingerprint :: "lath_tree \<Rightarrow> string \<Rightarrow> nat list option" where
  "findSplitPathByFingerprint t f = (case root t of None \<Rightarrow> None | Some n \<Rightarrow> fp_walk f n [])"

section \<open>Split and remove\<close>

definition beside :: "bool \<Rightarrow> 'a \<Rightarrow> 'a \<Rightarrow> 'a list" where
  "beside before new old = (if before then [new, old] else [old, new])"

definition split :: "lath_tree \<Rightarrow> leaf_id \<Rightarrow> edge \<Rightarrow> leaf_id \<Rightarrow> lath_tree \<times> bool" where
  "split t atId e newId = (case root t of
      None \<Rightarrow> reject t
    | Some n \<Rightarrow> (case findLeafPath t atId of
        None \<Rightarrow> reject t
      | Some atPath \<Rightarrow>
          if findLeafPath t newId \<noteq> None then reject t
          else
            (let nested = Split (edgeAxis e)
                   (beside (edgeIsBefore e) (Leaf newId, 1 / 2) (Leaf atId, 1 / 2))
             in (\<lparr>root = normalize_node (replaceAtPath n atPath nested)\<rparr>, True))))"

definition remove_edge :: "bool \<Rightarrow> axis \<Rightarrow> edge" where
  "remove_edge before d =
     (if before then (if d = Row then ERight else EBottom) else (if d = Row then ELeft else ETop))"

definition remove :: "lath_tree \<Rightarrow> leaf_id \<Rightarrow> (lath_tree \<times> bool \<times> restore_token option) option" where
  "remove t k = (case findLeafPath t k of
      None \<Rightarrow> Some (t, False, None)
    | Some path \<Rightarrow>
        if path = [] then
          Some (\<lparr>root = None\<rparr>, True,
            Some \<lparr>leafId = k, tweight = JFin 1, siblingId = None, siblingLeafIds = None,
                  siblingFingerprint = None, edge_of = ERight, index = JFin 0, fingerprint = None\<rparr>)
        else
          (let parentPath = butlast path; idx = last path; before = idx > 0;
               sib = (if before then idx - 1 else idx + 1)
           in case (root t, nodeAtPath t parentPath) of
                (Some n, Some (Split d cs)) \<Rightarrow>
                  if sib < length cs \<and> idx < length cs then
                    (let sibChild = fst (cs ! sib);
                         postChildren = remove_nth idx cs;
                         token = \<lparr>leafId = k, tweight = JFin (snd (cs ! idx)),
                           siblingId = Some (hd (leaves_walk sibChild)),
                           siblingLeafIds = Some (leaves_walk sibChild),
                           siblingFingerprint = Some (structureFingerprint sibChild),
                           edge_of = remove_edge before d,
                           index = JFin (of_nat idx),
                           fingerprint = Some (structureFingerprint (Split d postChildren))\<rparr>
                     in Some (\<lparr>root = normalize_node (replaceAtPath n parentPath (Split d postChildren))\<rparr>, True, Some token))
                  else None
              | _ \<Rightarrow> None))"

section \<open>Replace and swap\<close>

definition replace :: "lath_tree \<Rightarrow> leaf_id \<Rightarrow> leaf_id \<Rightarrow> lath_tree \<times> bool" where
  "replace t oldId newId = (case (root t, findLeafPath t oldId) of
      (Some n, Some path) \<Rightarrow>
        if findLeafPath t newId \<noteq> None then reject t
        else (\<lparr>root = Some (replaceAtPath n path (Leaf newId))\<rparr>, True)
    | _ \<Rightarrow> reject t)"

definition swap :: "lath_tree \<Rightarrow> leaf_id \<Rightarrow> leaf_id \<Rightarrow> lath_tree \<times> bool" where
  "swap t a b =
     (if a = b then reject t
      else (case (root t, findLeafPath t a, findLeafPath t b) of
        (Some n, Some pa, Some pb) \<Rightarrow>
          (\<lparr>root = Some (replaceAtPath (replaceAtPath n pa (Leaf b)) pb (Leaf a))\<rparr>, True)
      | _ \<Rightarrow> reject t))"

section \<open>Insert and move\<close>

datatype share_mode = Renormalize | KeepSiblings | Halve

datatype insert_size = Half | Weight jsnum

text \<open>The children of the parent after a sibling insert, before renormalisation. Under \<open>Halve\<close>
  the new leaf and the target each take half of the target's weight.\<close>

definition insert_sibling :: "share_mode \<Rightarrow> lath_child list \<Rightarrow> nat \<Rightarrow> bool \<Rightarrow> lath_node \<Rightarrow> rat \<Rightarrow> lath_child list" where
  "insert_sibling mode cs idx before newLeaf w =
     (let scale = (if mode = KeepSiblings then 1 - w else 1);
          children = map (\<lambda>c. (fst c, snd c * scale)) cs;
          weight = (if mode = Halve then snd (children ! idx) / 2 else w);
          halved = (if mode = Halve then children[idx := (fst (children ! idx), weight)] else children)
      in insert_nth (if before then idx else idx + 1) (newLeaf, weight) halved)"

definition insertBesideNode :: "lath_tree \<Rightarrow> nat list \<Rightarrow> edge \<Rightarrow> leaf_id \<Rightarrow> rat \<Rightarrow> share_mode \<Rightarrow> lath_tree" where
  "insertBesideNode t targetPath e newId w mode = (case root t of
      None \<Rightarrow> t
    | Some n \<Rightarrow>
        (let ax = edgeAxis e; before = edgeIsBefore e; newLeaf = Leaf newId in
         if targetPath = [] then
           \<lparr>root = normalize_node (Split ax (beside before (newLeaf, w) (n, 1 - w)))\<rparr>
         else
           (let parentPath = butlast targetPath; idx = last targetPath;
                nest = (case nodeAtPath t targetPath of
                    Some targetNode \<Rightarrow>
                      \<lparr>root = normalize_node (replaceAtPath n targetPath
                               (Split ax (beside before (newLeaf, w) (targetNode, 1 - w))))\<rparr>
                  | None \<Rightarrow> t)
            in case nodeAtPath t parentPath of
                 Some (Split d cs) \<Rightarrow>
                   if d = ax then
                     \<lparr>root = normalize_node (replaceAtPath n parentPath
                              (Split ax (normalizeWeights (insert_sibling mode cs idx before newLeaf w))))\<rparr>
                   else nest
               | _ \<Rightarrow> nest)))"

definition size_weight :: "insert_size \<Rightarrow> rat option" where
  "size_weight sz = (case sz of Half \<Rightarrow> Some (1 / 2) | Weight x \<Rightarrow> js_clamp x (1 / 10 ^ 6) (1 - 1 / 10 ^ 6))"

definition insertImpl :: "lath_tree \<Rightarrow> leaf_id \<Rightarrow> drop_target \<Rightarrow> insert_size \<Rightarrow> bool \<Rightarrow> lath_tree \<times> bool" where
  "insertImpl t k target sz keepSiblings = (case target of
      SwapTarget _ \<Rightarrow> reject t
    | EdgeTarget tg \<Rightarrow> (case size_weight sz of
        None \<Rightarrow> reject t
      | Some w \<Rightarrow>
          if root t = None then reject t
          else if findLeafPath t k \<noteq> None then reject t
          else (case materializeTarget t tg of
              None \<Rightarrow> reject t
            | Some (mt, mp) \<Rightarrow>
                (let halve = (sz = Half \<and> (case nodeAtPath mt mp of Some (Leaf _) \<Rightarrow> True | _ \<Rightarrow> False));
                     mode = (if halve then Halve else if keepSiblings then KeepSiblings else Renormalize)
                 in (insertBesideNode mt mp (tedge tg) k w mode, True)))))"

definition insert_op :: "lath_tree \<Rightarrow> leaf_id \<Rightarrow> drop_target \<Rightarrow> insert_size \<Rightarrow> lath_tree \<times> bool" where
  "insert_op t k target sz = insertImpl t k target sz False"

definition sameLeafSet :: "leaf_id list \<Rightarrow> leaf_id list \<Rightarrow> bool" where
  "sameLeafSet a b = (length a = length (remdups b) \<and> list_all (\<lambda>l. l \<in> set b) a)"

text \<open>The weight of the leaf at \<open>path\<close> in its parent, 1 at the root.\<close>

definition own_weight :: "lath_tree \<Rightarrow> nat list \<Rightarrow> rat option" where
  "own_weight t path =
     (if path = [] then Some 1
      else (case nodeAtPath t (butlast path) of
          Some (Split d cs) \<Rightarrow> if last path < length cs then Some (snd (cs ! last path)) else None
        | _ \<Rightarrow> None))"

definition moveSize :: "lath_tree \<Rightarrow> leaf_id \<Rightarrow> edge_target \<Rightarrow> insert_size option" where
  "moveSize t k tg = (case (findLeafPath t k, materializeTarget t tg) of
      (Some idPath, Some (mt, mp)) \<Rightarrow>
        (if length (filter (\<lambda>l. l \<noteq> k) (case nodeAtPath mt mp of None \<Rightarrow> [] | Some m \<Rightarrow> leaves_walk m)) = 1
         then Some Half
         else map_option (\<lambda>w. Weight (JFin w)) (own_weight t idPath))
    | _ \<Rightarrow> None)"

text \<open>Whether the destination lies in the split the leaf came from.\<close>

definition own_split :: "lath_tree \<Rightarrow> nat list \<Rightarrow> leaf_id \<Rightarrow> lath_tree \<Rightarrow> edge_target \<Rightarrow> bool" where
  "own_split t idPath k t2 dest =
     (idPath \<noteq> [] \<and>
      (case (nodeAtPath t (butlast idPath), materializeTarget t2 dest) of
         (Some (Split d cs), Some (mt, mp)) \<Rightarrow>
           mp \<noteq> [] \<and>
           (case nodeAtPath mt (butlast mp) of
              Some (Split d' cs') \<Rightarrow>
                d' = d \<and> sameLeafSet (leaves_walk (Split d' cs')) (filter (\<lambda>l. l \<noteq> k) (leaves_walk (Split d cs)))
            | _ \<Rightarrow> False)
       | _ \<Rightarrow> False))"

definition move :: "lath_tree \<Rightarrow> leaf_id \<Rightarrow> drop_target \<Rightarrow> (lath_tree \<times> bool) option" where
  "move t k target = (case target of
      SwapTarget l \<Rightarrow> Some (swap t k l)
    | EdgeTarget tg \<Rightarrow> (case findLeafPath t k of
        None \<Rightarrow> Some (reject t)
      | Some idPath \<Rightarrow> (case materializeTarget t tg of
          None \<Rightarrow> Some (reject t)
        | Some (mt, mp) \<Rightarrow>
            (let targetLeaves = (case nodeAtPath mt mp of None \<Rightarrow> [] | Some m \<Rightarrow> leaves_walk m) in
             if targetLeaves = [k] then Some (reject t)
             else (case (moveSize t k tg, remove t k) of
                 (Some sz, Some (t2, _, _)) \<Rightarrow>
                   (case targetByLeafSet t2 (remdups (filter (\<lambda>l. l \<noteq> k) targetLeaves)) (tedge tg) of
                      None \<Rightarrow> Some (reject t)
                    | Some dest \<Rightarrow>
                        (let (t3, ok) = insertImpl t2 k (EdgeTarget dest) sz (own_split t idPath k t2 dest) in
                         if \<not> ok then Some (reject t)
                         else if map_option structureFingerprint (root t3) = map_option structureFingerprint (root t)
                           then Some (t, True) else Some (t3, True)))
               | _ \<Rightarrow> None)))))"

section \<open>Restore\<close>

definition isRestoreToken :: "restore_token \<Rightarrow> bool" where
  "isRestoreToken tk =
     ((case tweight tk of
         JFin w \<Rightarrow> w > 0 \<and> (w < 1 \<or> (w = 1 \<and> siblingId tk = None \<and> fingerprint tk = None))
       | _ \<Rightarrow> False) \<and>
      (case js_integer (index tk) of Some i \<Rightarrow> i \<ge> 0 | None \<Rightarrow> False))"

definition token_weight :: "restore_token \<Rightarrow> rat" where
  "token_weight tk = (case tweight tk of JFin w \<Rightarrow> w | _ \<Rightarrow> 0)"

definition token_index :: "restore_token \<Rightarrow> nat" where
  "token_index tk = (case js_integer (index tk) of Some i \<Rightarrow> nat i | None \<Rightarrow> 0)"

text \<open>The first exact tier: the parent with the leaf removed still stands.\<close>

definition restore_parent :: "lath_tree \<Rightarrow> restore_token \<Rightarrow> lath_tree option" where
  "restore_parent t tk = (case (root t, fingerprint tk) of
      (Some n, Some f) \<Rightarrow> (case findSplitPathByFingerprint t f of
          None \<Rightarrow> None
        | Some p \<Rightarrow> (case nodeAtPath t p of
            Some (Split d cs) \<Rightarrow>
              (let scaled = map (\<lambda>c. (fst c, snd c * (1 - token_weight tk))) cs;
                   insertAt = min (token_index tk) (length scaled);
                   children = insert_nth insertAt (Leaf (leafId tk), token_weight tk) scaled
               in Some \<lparr>root = normalize_node (replaceAtPath n p (Split d (normalizeWeights children)))\<rparr>)
          | _ \<Rightarrow> None))
    | _ \<Rightarrow> None)"

text \<open>The second: the parent collapsed, but the sibling subtree still stands.\<close>

definition restore_sibling :: "lath_tree \<Rightarrow> restore_token \<Rightarrow> lath_tree option" where
  "restore_sibling t tk = (case (siblingLeafIds tk, siblingFingerprint tk) of
      (Some ids, Some sf) \<Rightarrow>
        if length ids > 1 \<and> sf \<noteq> [] then
          (case targetByLeafSet t (remdups ids) (edge_of tk) of
             None \<Rightarrow> None
           | Some tg \<Rightarrow> (case materializeTarget t tg of
               None \<Rightarrow> None
             | Some (mt, mp) \<Rightarrow> (case nodeAtPath mt mp of
                 None \<Rightarrow> None
               | Some sib \<Rightarrow>
                   if structureFingerprint sib = sf then
                     (let (t', ok) = insert_op t (leafId tk) (EdgeTarget tg) (Weight (tweight tk)) in
                      if ok then Some t' else None)
                   else None)))
        else None
    | _ \<Rightarrow> None)"

definition restore_neighbor :: "lath_tree \<Rightarrow> restore_token \<Rightarrow> lath_tree option" where
  "restore_neighbor t tk = (case siblingId tk of
      None \<Rightarrow> None
    | Some sid \<Rightarrow>
        if findLeafPath t sid \<noteq> None then
          (let (t', ok) = split t sid (edge_of tk) (leafId tk) in if ok then Some t' else None)
        else None)"

record restore_opts =
  fallbackRef :: "leaf_id option"
  fallbackRect :: "rect option"
  fallbackLayout :: "layout_opts option"

definition restore_fallback :: "lath_tree \<Rightarrow> restore_token \<Rightarrow> restore_opts \<Rightarrow> lath_tree option" where
  "restore_fallback t tk ro = (case fallbackRef ro of
      None \<Rightarrow> None
    | Some ref \<Rightarrow>
        if ref \<noteq> [] \<and> findLeafPath t ref \<noteq> None then
          (let e = (case (fallbackRect ro, fallbackLayout ro) of
                      (Some r, Some lo) \<Rightarrow> autoEdge t r ref lo
                    | _ \<Rightarrow> ERight);
               (t', ok) = split t ref e (leafId tk)
           in if ok then Some t' else None)
        else None)"

definition restore :: "lath_tree \<Rightarrow> restore_token \<Rightarrow> restore_opts \<Rightarrow> lath_tree \<times> bool \<times> tier option" where
  "restore t tk ro =
     (if \<not> isRestoreToken tk \<or> findLeafPath t (leafId tk) \<noteq> None then (t, False, None)
      else if root t = None then (leafTree (leafId tk), True, Some Fallback)
      else
        (let exact = (if siblingId tk \<noteq> None \<and> fingerprint tk \<noteq> None
                      then (case restore_parent t tk of
                              Some t' \<Rightarrow> Some t'
                            | None \<Rightarrow> restore_sibling t tk)
                      else None)
         in case exact of
              Some t' \<Rightarrow> (t', True, Some Exact)
            | None \<Rightarrow> (case restore_neighbor t tk of
                Some t' \<Rightarrow> (t', True, Some Neighbor)
              | None \<Rightarrow> (case restore_fallback t tk ro of
                  Some t' \<Rightarrow> (t', True, Some Fallback)
                | None \<Rightarrow> (t, False, None)))))"

section \<open>Resize\<close>

definition next_span :: "rat \<Rightarrow> rat \<Rightarrow> rat \<Rightarrow> rat \<Rightarrow> rat" where
  "next_span spanA delta lo hi = (if lo \<le> hi then min (max (spanA + delta) lo) hi else spanA)"

definition rebase_children :: "lath_child list \<Rightarrow> rat list \<Rightarrow> lath_child list" where
  "rebase_children cs spans =
     normalizeWeights (map (\<lambda>(c, s). (fst c, max s (1 / 10 ^ 6))) (zip cs spans))"

text \<open>The motion of boundary \<open>a\<close> of the split at \<open>sp\<close>, once every argument is known to be good.\<close>

definition resize_boundary :: "lath_tree \<Rightarrow> lath_node \<Rightarrow> nat list \<Rightarrow> axis \<Rightarrow> lath_child list \<Rightarrow> nat \<Rightarrow> rat \<Rightarrow> rat
    \<Rightarrow> layout_opts \<Rightarrow> lath_tree \<times> bool" where
  "resize_boundary t n sp d cs a delta spn opts =
     (let spans = map of_int (allocateChildSpans cs spn opts d);
          b = a + 1;
          pairSpan = spans ! a + spans ! b;
          minA = minSpan (fst (cs ! a)) d opts;
          minB = minSpan (fst (cs ! b)) d opts;
          nextA = next_span (spans ! a) delta minA (pairSpan - minB)
      in if nextA = spans ! a then (t, True)
         else (\<lparr>root = normalize_node (replaceAtPath n sp
                 (Split d (rebase_children cs (spans[a := nextA, b := pairSpan - nextA]))))\<rparr>, True))"

definition resize :: "lath_tree \<Rightarrow> nat list \<Rightarrow> jsnum \<Rightarrow> jsnum \<Rightarrow> rect \<Rightarrow> layout_opts \<Rightarrow> lath_tree \<times> bool" where
  "resize t sp bnd deltaPx r opts = (case (root t, nodeAtPath t sp) of
      (Some n, Some (Split d cs)) \<Rightarrow> (case (js_integer bnd, deltaPx) of
          (Some b0, JFin delta) \<Rightarrow>
            if b0 < 0 \<or> b0 \<ge> int (length cs) - 1 then reject t
            else (case nodeRectAtPath t r opts sp of
                None \<Rightarrow> reject t
              | Some sr \<Rightarrow>
                  (let spn = (if d = Row then width sr else height sr);
                       available = spn - gap opts * (of_nat (length cs) - 1)
                   in if available \<le> 0 then reject t
                      else resize_boundary t n sp d cs (nat b0) delta spn opts))
        | _ \<Rightarrow> reject t)
    | _ \<Rightarrow> reject t)"

section \<open>Rebuilding a tree\<close>

text \<open>One list of leaves is another with \<open>k\<close> put in somewhere: the other leaves keep their order.\<close>

definition leaf_inserted :: "leaf_id \<Rightarrow> leaf_id list \<Rightarrow> leaf_id list \<Rightarrow> bool" where
  "leaf_inserted k L L' = (\<exists>xs ys. L = xs @ ys \<and> L' = xs @ k # ys)"

lemma leaf_inserted_set: "leaf_inserted k L L' \<Longrightarrow> set L' = Set.insert k (set L)"
  by (auto simp: leaf_inserted_def)

lemma leaf_inserted_distinct: "leaf_inserted k L L' \<Longrightarrow> distinct L' \<longleftrightarrow> distinct L \<and> k \<notin> set L"
  by (auto simp: leaf_inserted_def)

lemma leaf_inserted_context:
  "leaf_inserted k L L' \<Longrightarrow> leaf_inserted k (xs @ L @ ys) (xs @ L' @ ys)"
  unfolding leaf_inserted_def by (metis append.assoc append_Cons)

lemma leaf_inserted_filter: "leaf_inserted k L L' \<Longrightarrow> filter (\<lambda>l. l \<noteq> k) L' = filter (\<lambda>l. l \<noteq> k) L"
  by (auto simp: leaf_inserted_def)

lemma leaf_inserted_nth:
  "i \<le> length cs \<Longrightarrow> leaf_inserted k (concat (map f cs)) (concat (map f (take i cs)) @ k # concat (map f (drop i cs)))"
  unfolding leaf_inserted_def by (metis append_take_drop_id concat_append map_append)

lemma rebuild:
  assumes "pos_node n" "pos_node r"
  obtains m where "normalize_node (replaceAtPath n p r) = Some m" "wf_node 0 None m"
    "leaves_walk m = leaves_walk (replaceAtPath n p r)"
  using normalize_wf [OF replaceAtPath_pos [OF assms, of p]] by blast

lemma rebuild_inserted:
  assumes "pos_node n" "pos_node r" "node_at n p = Some m" "leaf_inserted k (leaves_walk m) (leaves_walk r)"
  shows "\<exists>n'. normalize_node (replaceAtPath n p r) = Some n' \<and> wf_node 0 None n' \<and>
              leaf_inserted k (leaves_walk n) (leaves_walk n')"
proof -
  obtain n' where n': "normalize_node (replaceAtPath n p r) = Some n'" "wf_node 0 None n'"
    "leaves_walk n' = leaves_walk (replaceAtPath n p r)"
    by (rule rebuild [OF assms(1,2)])
  from replaceAtPath_leaves [OF assms(3)] obtain xs ys where
    "leaves_walk n = xs @ leaves_walk m @ ys" "leaves_walk (replaceAtPath n p r) = xs @ leaves_walk r @ ys" by blast
  with assms(4) n' show ?thesis by (auto intro: leaf_inserted_context)
qed

lemma wf_treeI:
  "root t = Some n \<Longrightarrow> wf_node e None n \<Longrightarrow> distinct (leaves_walk n) \<Longrightarrow> wf_tree e t"
  by (simp add: wf_tree_def)

lemma wf_treeD:
  "wf_tree e t \<Longrightarrow> root t = Some n \<Longrightarrow> wf_node e None n \<and> pos_node n \<and> distinct (leaves_walk n)"
  by (auto simp: wf_tree_def intro: wf_node_pos)

lemma leaves_root [simp]: "root t = Some n \<Longrightarrow> leaves t = leaves_walk n"
  by (simp add: leaves_def)

lemma pos_beside: "pos_node a \<Longrightarrow> pos_node b \<Longrightarrow> 0 < u \<Longrightarrow> 0 < v \<Longrightarrow> pos_node (Split d (beside bf (a, u) (b, v)))"
  by (simp add: beside_def)

lemma leaves_beside:
  "leaves_walk (Split d (beside bf (a, u) (b, v))) = (if bf then leaves_walk a @ leaves_walk b else leaves_walk b @ leaves_walk a)"
  by (simp add: beside_def)

lemma inserted_beside: "leaf_inserted k (leaves_walk m) (leaves_walk (Split d (beside bf (Leaf k, u) (m, v))))"
  unfolding leaves_beside leaf_inserted_def
  by (cases bf) (force intro: exI [of _ "[]"])+

section \<open>Splitting\<close>

lemma split_ok_iff: "snd (split t a e k) \<longleftrightarrow> a \<in> set (leaves t) \<and> k \<notin> set (leaves t)"
proof -
  have "a \<in> set (leaves t) \<longleftrightarrow> findLeafPath t a \<noteq> None" "k \<notin> set (leaves t) \<longleftrightarrow> findLeafPath t k = None"
    using findLeafPath_None [of t a] findLeafPath_None [of t k] by auto
  then show ?thesis
    by (auto simp: split_def reject_def leaves_def Let_def split: option.splits)
qed

lemma split_rejected: "\<not> snd (split t a e k) \<Longrightarrow> fst (split t a e k) = t"
  by (auto simp: split_def reject_def Let_def split: option.splits)

lemma split_sound:
  assumes "wf_tree eps t" "snd (split t a e k)"
  shows "\<exists>n'. root (fst (split t a e k)) = Some n' \<and> wf_node 0 None n' \<and>
    (\<exists>xs ys. leaves t = xs @ a # ys \<and> leaves_walk n' = xs @ beside (edgeIsBefore e) k a @ ys)"
proof -
  from assms(2) obtain n p where n: "root t = Some n" and p: "findLeafPath t a = Some p" and k: "findLeafPath t k = None"
    by (auto simp: split_def reject_def Let_def split: option.splits if_splits)
  let ?r = "Split (edgeAxis e) (beside (edgeIsBefore e) (Leaf k, 1 / 2) (Leaf a, 1 / 2))"
  from findLeafPath_Some [OF p] n have at: "node_at n p = Some (Leaf a)" by simp
  have "pos_node n" using wf_treeD [OF assms(1) n] by simp
  moreover have "pos_node ?r" by (simp add: beside_def)
  ultimately obtain m where m: "normalize_node (replaceAtPath n p ?r) = Some m" "wf_node 0 None m"
    "leaves_walk m = leaves_walk (replaceAtPath n p ?r)" by (rule rebuild)
  from replaceAtPath_leaves [OF at] obtain xs ys where
    "leaves_walk n = xs @ [a] @ ys" "leaves_walk (replaceAtPath n p ?r) = xs @ leaves_walk ?r @ ys" by auto
  moreover have "leaves_walk ?r = beside (edgeIsBefore e) k a"
    by (simp add: leaves_beside) (simp add: beside_def)
  moreover have "fst (split t a e k) = \<lparr>root = Some m\<rparr>"
    using n p k m(1) by (simp add: split_def Let_def)
  ultimately show ?thesis using m n by (intro exI [of _ m]) auto
qed

lemma split_inserted:
  assumes "wf_tree eps t" "snd (split t a e k)"
  shows "wf_tree 0 (fst (split t a e k)) \<and> leaf_inserted k (leaves t) (leaves (fst (split t a e k)))"
proof -
  from split_sound [OF assms] obtain n' xs ys where n': "root (fst (split t a e k)) = Some n'" "wf_node 0 None n'"
    and L: "leaves t = xs @ a # ys" "leaves_walk n' = xs @ beside (edgeIsBefore e) k a @ ys" by blast
  have "leaf_inserted k (leaves t) (leaves_walk n')"
  proof (cases "edgeIsBefore e")
    case True
    with L show ?thesis by (auto simp: leaf_inserted_def beside_def)
  next
    case False
    with L show ?thesis unfolding leaf_inserted_def beside_def
      by (intro exI [of _ "xs @ [a]"] exI [of _ ys]) simp
  qed
  moreover have "distinct (leaves t)" using assms(1)
    by (auto simp: wf_tree_def leaves_def split: option.splits)
  moreover have "k \<notin> set (leaves t)" using assms(2) by (simp add: split_ok_iff)
  ultimately show ?thesis using n' by (auto simp: leaf_inserted_distinct intro!: wf_treeI)
qed

section \<open>Removing\<close>

lemma node_at_parent:
  assumes "node_at n p = Some m" "p \<noteq> []"
  obtains d cs where "node_at n (butlast p) = Some (Split d cs)" "last p < length cs" "fst (cs ! last p) = m"
proof -
  have "node_at n (butlast p @ [last p]) = Some m" using assms by simp
  then obtain q where q: "node_at n (butlast p) = Some q" "node_at q [last p] = Some m"
    by (auto simp: node_at_append simp del: append_butlast_last_id split: option.splits)
  then show ?thesis by (cases q) (auto split: if_splits intro: that)
qed

lemma remove_found:
  assumes "wf_tree eps t" "findLeafPath t k = Some p" "p \<noteq> []"
  obtains n d cs idx sib where "root t = Some n" "node_at n (butlast p) = Some (Split d cs)" "idx = last p"
    "idx < length cs" "fst (cs ! idx) = Leaf k" "2 \<le> length cs"
    "sib = (if 0 < idx then idx - 1 else idx + 1)" "sib < length cs"
    "remove t k = Some (\<lparr>root = normalize_node (replaceAtPath n (butlast p) (Split d (remove_nth idx cs)))\<rparr>, True,
       Some \<lparr>leafId = k, tweight = JFin (snd (cs ! idx)),
             siblingId = Some (hd (leaves_walk (fst (cs ! sib)))),
             siblingLeafIds = Some (leaves_walk (fst (cs ! sib))),
             siblingFingerprint = Some (structureFingerprint (fst (cs ! sib))),
             edge_of = remove_edge (0 < idx) d, index = JFin (of_nat idx),
             fingerprint = Some (structureFingerprint (Split d (remove_nth idx cs)))\<rparr>)"
proof -
  from findLeafPath_Some [OF assms(2)] obtain n where n: "root t = Some n" "node_at n p = Some (Leaf k)" by blast
  obtain d cs where cs: "node_at n (butlast p) = Some (Split d cs)" "last p < length cs" "fst (cs ! last p) = Leaf k"
    by (rule node_at_parent [OF n(2) assms(3)])
  have "wf_node eps None n" using wf_treeD [OF assms(1) n(1)] by simp
  from node_at_wf [OF this cs(1)] have len: "2 \<le> length cs" by simp
  have at: "nodeAtPath t (butlast p) = Some (Split d cs)" using n(1) cs(1) by (simp add: nodeAtPath_def)
  define sib where "sib = (if 0 < last p then last p - 1 else last p + 1)"
  then have sib: "sib < length cs" using cs(2) len by auto
  show ?thesis
    by (rule that [OF n(1) cs(1) refl cs(2,3) len sib_def sib])
       (use assms(2,3) n(1) at cs(2) sib in \<open>simp add: remove_def Let_def sib_def\<close>)
qed

lemma pos_remove_nth:
  "pos_node (Split d cs) \<Longrightarrow> 2 \<le> length cs \<Longrightarrow> i < length cs \<Longrightarrow> pos_node (Split d (remove_nth i cs))"
  using set_remove_nth [of i cs] length_remove_nth [of i cs] by (auto simp del: length_remove_nth)

lemma leaves_remove_nth:
  "i < length cs \<Longrightarrow> fst (cs ! i) = Leaf k \<Longrightarrow>
   leaf_inserted k (leaves_walk (Split d (remove_nth i cs))) (leaves_walk (Split d cs))"
  unfolding leaf_inserted_def remove_nth_def
  by (simp add: concat_map_split [of i cs]) blast

lemma remove_sound:
  assumes wf: "wf_tree eps t" and k: "k \<in> set (leaves t)"
  shows "\<exists>t' tk. remove t k = Some (t', True, Some tk) \<and> wf_tree 0 t' \<and> leaf_inserted k (leaves t') (leaves t)
           \<and> leafId tk = k"
proof -
  from k obtain p where p: "findLeafPath t k = Some p" using findLeafPath_None [of t k] by auto
  show ?thesis
  proof (cases "p = []")
    case True
    from findLeafPath_Some [OF p] True have "root t = Some (Leaf k)" by auto
    with p True show ?thesis
      by (simp add: remove_def wf_tree_def leaves_def leaf_inserted_def)
  next
    case False
    from remove_found [OF wf p False] obtain n d cs idx sib tk where
      n: "root t = Some n" and cs: "node_at n (butlast p) = Some (Split d cs)" and idx: "idx < length cs"
      and leaf: "fst (cs ! idx) = Leaf k" and len: "2 \<le> length cs"
      and rm: "remove t k = Some (\<lparr>root = normalize_node (replaceAtPath n (butlast p) (Split d (remove_nth idx cs)))\<rparr>, True, Some tk)"
      and tk: "leafId tk = k"
      by (metis restore_token.select_convs(1))
    let ?r = "Split d (remove_nth idx cs)"
    have pos: "pos_node n" "distinct (leaves_walk n)" using wf_treeD [OF wf n] by simp_all
    have posr: "pos_node ?r" using node_at_pos [OF pos(1) cs] len idx by (rule pos_remove_nth)
    obtain m where m: "normalize_node (replaceAtPath n (butlast p) ?r) = Some m" "wf_node 0 None m"
      "leaves_walk m = leaves_walk (replaceAtPath n (butlast p) ?r)" by (rule rebuild [OF pos(1) posr])
    from replaceAtPath_leaves [OF cs] obtain xs ys where
      "leaves_walk n = xs @ leaves_walk (Split d cs) @ ys" "leaves_walk (replaceAtPath n (butlast p) ?r) = xs @ leaves_walk ?r @ ys"
      by blast
    with m leaves_remove_nth [OF idx leaf, of d] have ins: "leaf_inserted k (leaves_walk m) (leaves_walk n)"
      by (metis leaf_inserted_context)
    then have "distinct (leaves_walk m)" using pos(2) by (simp add: leaf_inserted_distinct)
    with rm m n ins tk show ?thesis by (auto intro: wf_treeI)
  qed
qed

lemma remove_absent: "k \<notin> set (leaves t) \<Longrightarrow> remove t k = Some (t, False, None)"
  by (simp add: remove_def findLeafPath_None [THEN iffD2])

section \<open>Replacing and swapping\<close>

lemma replaceAtPath_leaf_wf:
  "wf_node e pd n \<Longrightarrow> node_at n p = Some (Leaf a) \<Longrightarrow> wf_node e pd (replaceAtPath n p (Leaf b))"
proof (induction n p arbitrary: pd rule: node_at.induct)
  case (3 d cs i p)
  then have i: "i < length cs" and at: "node_at (fst (cs ! i)) p = Some (Leaf a)" by (auto split: if_splits)
  have c: "0 < snd (cs ! i)" "wf_node e (Some d) (fst (cs ! i))" using "3.prems"(1) i nth_mem by auto
  have "weight_sum (cs[i := (x, snd (cs ! i))]) = weight_sum cs" for x
    unfolding weight_sum_def map_update using i by (metis list_update_id nth_map snd_conv)
  with "3.prems" i c "3.IH" [OF i c(2) at] show ?case
    by (auto dest!: set_update_subset_insert [THEN subsetD])
qed (simp_all split: option.splits)

text \<open>The leaf at a path, and what the walk that looks for it sees elsewhere.\<close>

lemma node_at_other:
  "node_at n p = Some (Leaf a) \<Longrightarrow> node_at n q = Some (Leaf b) \<Longrightarrow> p \<noteq> q \<Longrightarrow>
   node_at (replaceAtPath n p (Leaf c)) q = Some (Leaf b)"
proof (induction n p arbitrary: q rule: node_at.induct)
  case (1 n)
  then show ?case by (cases q) auto
next
  case (3 d cs i p)
  then show ?case by (cases q) (auto split: if_splits simp: nth_list_update)
qed simp

section \<open>Relabelling\<close>

text \<open>Other names for the leaves, structure and weights as they were.\<close>

fun relabel :: "(leaf_id \<Rightarrow> leaf_id) \<Rightarrow> lath_node \<Rightarrow> lath_node" where
  "relabel f (Leaf i) = Leaf (f i)"
| "relabel f (Split d cs) = Split d (map (\<lambda>c. (relabel f (fst c), snd c)) cs)"

lemma leaves_relabel [simp]: "leaves_walk (relabel f n) = map f (leaves_walk n)"
proof (induction n rule: lath_node_induct)
  case (Split d cs)
  have "map (\<lambda>c. leaves_walk (relabel f (fst c))) cs = map (\<lambda>c. map f (leaves_walk (fst c))) cs"
    using Split.IH by (auto simp: map_eq_conv)
  then show ?case by (simp add: comp_def map_concat del: map_eq_conv)
qed simp

lemma relabel_wf [simp]: "wf_node e pd (relabel f n) = wf_node e pd n"
proof (induction n arbitrary: pd rule: lath_node_induct)
  case (Split d cs)
  have "weight_sum (map (\<lambda>c. (relabel f (fst c), snd c)) cs) = weight_sum cs"
    by (simp add: weight_sum_def comp_def)
  with Split show ?case by (auto 4 3)
qed simp

lemma relabel_same: "(\<And>x. x \<in> set (leaves_walk n) \<Longrightarrow> f x = x) \<Longrightarrow> relabel f n = n"
proof (induction n rule: lath_node_induct)
  case (Split d cs)
  have "(relabel f (fst c), snd c) = c" if "c \<in> set cs" for c
  proof -
    have "relabel f (fst c) = fst c"
    proof (rule Split.IH)
      show "(fst c, snd c) \<in> set cs" using that by simp
      show "f x = x" if "x \<in> set (leaves_walk (fst c))" for x
        using that \<open>c \<in> set cs\<close> by (intro Split.prems) auto
    qed
    then show ?thesis by simp
  qed
  then show ?case by (simp add: map_idI)
qed simp

lemma relabel_relabel: "relabel f (relabel g n) = relabel (f \<circ> g) n"
  by (induction n rule: lath_node_induct) (auto simp: comp_def)

lemma relabel_children:
  assumes "i < length cs" "distinct (concat (map (\<lambda>c. leaves_walk (fst c)) cs))"
    and "\<And>x. f x \<noteq> x \<Longrightarrow> x \<in> set (concat (map (\<lambda>c. leaves_walk (fst c)) cs)) \<Longrightarrow> x \<in> set (leaves_walk (fst (cs ! i)))"
  shows "map (\<lambda>c. (relabel f (fst c), snd c)) cs = cs[i := (relabel f (fst (cs ! i)), snd (cs ! i))]"
proof (rule nth_equalityI)
  fix j assume "j < length (map (\<lambda>c. (relabel f (fst c), snd c)) cs)"
  then have j: "j < length cs" by simp
  show "map (\<lambda>c. (relabel f (fst c), snd c)) cs ! j = cs[i := (relabel f (fst (cs ! i)), snd (cs ! i))] ! j"
  proof (cases "i = j")
    case False
    have "f x = x" if "x \<in> set (leaves_walk (fst (cs ! j)))" for x
    proof (rule ccontr)
      assume "f x \<noteq> x"
      moreover have "x \<in> set (concat (map (\<lambda>c. leaves_walk (fst c)) cs))" using that j by fastforce
      ultimately have "x \<in> set (leaves_walk (fst (cs ! i)))" by (rule assms(3))
      with distinct_concat_nth [OF assms(2,1) j False] that show False by blast
    qed
    then show ?thesis using False j by (simp add: relabel_same)
  qed (use j in simp)
qed simp

lemma node_at_leaves: "node_at n p = Some m \<Longrightarrow> set (leaves_walk m) \<subseteq> set (leaves_walk n)"
  using replaceAtPath_leaves [of n p m] by auto

lemma replaceAtPath_relabel:
  assumes "distinct (leaves_walk n)" "node_at n p = Some (Leaf a)"
  shows "replaceAtPath n p (Leaf b) = relabel (\<lambda>x. if x = a then b else x) n"
  using assms
proof (induction n p rule: node_at.induct)
  case (3 d cs i p)
  then have i: "i < length cs" and at: "node_at (fst (cs ! i)) p = Some (Leaf a)" by (auto split: if_splits)
  have d: "distinct (leaves_walk (fst (cs ! i)))"
    using "3.prems"(1) concat_map_split [OF i, of "\<lambda>c. leaves_walk (fst c)"] by simp
  have "map (\<lambda>c. (relabel (\<lambda>x. if x = a then b else x) (fst c), snd c)) cs
        = cs[i := (relabel (\<lambda>x. if x = a then b else x) (fst (cs ! i)), snd (cs ! i))]"
    using "3.prems"(1) node_at_leaves [OF at] by (intro relabel_children [OF i]) (auto split: if_splits)
  with "3.IH" [OF i d at] i show ?case by simp
qed auto

definition swap_ids :: "leaf_id \<Rightarrow> leaf_id \<Rightarrow> leaf_id \<Rightarrow> leaf_id" where
  "swap_ids a b x = (if x = a then b else if x = b then a else x)"

lemma relabel_cong: "(\<And>x. x \<in> set (leaves_walk n) \<Longrightarrow> f x = g x) \<Longrightarrow> relabel f n = relabel g n"
proof (induction n rule: lath_node_induct)
  case (Split d cs)
  have "relabel f (fst c) = relabel g (fst c)" if "c \<in> set cs" for c
  proof (rule Split.IH)
    show "(fst c, snd c) \<in> set cs" using that by simp
    show "f x = g x" if "x \<in> set (leaves_walk (fst c))" for x
      using that \<open>c \<in> set cs\<close> by (intro Split.prems) auto
  qed
  then show ?case by simp
qed simp

lemma swap_relabel:
  assumes "distinct (leaves_walk n)" "node_at n p = Some (Leaf a)" "node_at n q = Some (Leaf b)" "a \<noteq> b"
  shows "replaceAtPath (replaceAtPath n p (Leaf b)) q (Leaf a) = relabel (swap_ids a b) n"
  using assms
proof (induction n p arbitrary: q rule: node_at.induct)
  case (1 n)
  then show ?case by (cases q) auto
next
  case (3 d cs i p)
  let ?l = "\<lambda>c. leaves_walk (fst c)"
  from "3.prems" have i: "i < length cs" and at: "node_at (fst (cs ! i)) p = Some (Leaf a)" by (auto split: if_splits)
  from "3.prems" obtain j q' where q: "q = j # q'" and j: "j < length cs" and bt: "node_at (fst (cs ! j)) q' = Some (Leaf b)"
    by (cases q) (auto split: if_splits)
  have dc: "distinct (concat (map ?l cs))" using "3.prems"(1) by simp
  have di: "distinct (?l (cs ! k))" if "k < length cs" for k
    using dc concat_map_split [OF that, of ?l] by simp
  have ai: "a \<in> set (?l (cs ! i))" and bj: "b \<in> set (?l (cs ! j))"
    using node_at_leaves [OF at] node_at_leaves [OF bt] by auto
  show ?case
  proof (cases "i = j")
    case True
    have "map (\<lambda>c. (relabel (swap_ids a b) (fst c), snd c)) cs
          = cs[i := (relabel (swap_ids a b) (fst (cs ! i)), snd (cs ! i))]"
      using ai bj True by (intro relabel_children [OF i dc]) (auto simp: swap_ids_def split: if_splits)
    with "3.IH" [OF i di [OF i] at] bt "3.prems"(4) True i q show ?thesis by simp
  next
    case False
    have bi: "b \<notin> set (?l (cs ! i))" and aj: "a \<notin> set (?l (cs ! j))"
      using distinct_concat_nth [OF dc j i _ bj] distinct_concat_nth [OF dc i j False ai] False by auto
    have ri: "replaceAtPath (fst (cs ! i)) p (Leaf b) = relabel (swap_ids a b) (fst (cs ! i))"
      unfolding replaceAtPath_relabel [OF di [OF i] at] using bi
      by (intro relabel_cong) (auto simp: swap_ids_def)
    have rj: "replaceAtPath (fst (cs ! j)) q' (Leaf a) = relabel (swap_ids a b) (fst (cs ! j))"
      unfolding replaceAtPath_relabel [OF di [OF j] bt] using aj
      by (intro relabel_cong) (auto simp: swap_ids_def)
    have "map (\<lambda>c. (relabel (swap_ids a b) (fst c), snd c)) cs
        = cs[i := (relabel (swap_ids a b) (fst (cs ! i)), snd (cs ! i)), j := (relabel (swap_ids a b) (fst (cs ! j)), snd (cs ! j))]"
    proof (rule nth_equalityI)
      fix k assume "k < length (map (\<lambda>c. (relabel (swap_ids a b) (fst c), snd c)) cs)"
      then have k: "k < length cs" by simp
      have "relabel (swap_ids a b) (fst (cs ! k)) = fst (cs ! k)" if "k \<noteq> i" "k \<noteq> j"
        using distinct_concat_nth [OF dc i k _ ai] distinct_concat_nth [OF dc j k _ bj] that
        by (intro relabel_same) (auto simp: swap_ids_def)
      then show "map (\<lambda>c. (relabel (swap_ids a b) (fst c), snd c)) cs ! k
        = cs[i := (relabel (swap_ids a b) (fst (cs ! i)), snd (cs ! i)), j := (relabel (swap_ids a b) (fst (cs ! j)), snd (cs ! j))] ! k"
        using k i j by (auto simp: nth_list_update)
    qed simp
    with ri rj i j q False show ?thesis by simp
  qed
qed simp

lemma swap_eq:
  assumes "wf_tree e t" "root t = Some n" "a \<noteq> b" "a \<in> set (leaves t)" "b \<in> set (leaves t)"
  shows "swap t a b = (\<lparr>root = Some (relabel (swap_ids a b) n)\<rparr>, True)"
proof -
  from assms(4,5) obtain p q where p: "findLeafPath t a = Some p" and q: "findLeafPath t b = Some q"
    using findLeafPath_None [of t a] findLeafPath_None [of t b] by auto
  with findLeafPath_Some [OF p] findLeafPath_Some [OF q] assms(2)
  have "node_at n p = Some (Leaf a)" "node_at n q = Some (Leaf b)" by auto
  moreover have "distinct (leaves_walk n)" using wf_treeD [OF assms(1,2)] by simp
  ultimately show ?thesis using assms(2,3) p q by (simp add: swap_def swap_relabel)
qed

lemma replace_eq:
  assumes "wf_tree e t" "root t = Some n" "a \<in> set (leaves t)" "b \<notin> set (leaves t)"
  shows "replace t a b = (\<lparr>root = Some (relabel (\<lambda>x. if x = a then b else x) n)\<rparr>, True)"
proof -
  from assms(3) obtain p where p: "findLeafPath t a = Some p"
    using findLeafPath_None [of t a] by auto
  with findLeafPath_Some [OF p] assms(2) have "node_at n p = Some (Leaf a)" by auto
  moreover have "distinct (leaves_walk n)" using wf_treeD [OF assms(1,2)] by simp
  moreover have "findLeafPath t b = None" using assms(4) findLeafPath_None [of t b] by simp
  ultimately show ?thesis using assms(2) p by (simp add: replace_def replaceAtPath_relabel)
qed

section \<open>Inserting\<close>

lemma nodeAtPath_root [simp]: "root t = Some n \<Longrightarrow> nodeAtPath t p = node_at n p"
  by (simp add: nodeAtPath_def)

lemma pos_normalizeWeights: "pos_node (Split d cs) \<Longrightarrow> pos_node (Split d (normalizeWeights cs))"
proof -
  assume pos: "pos_node (Split d cs)"
  have "0 < snd c \<and> pos_node (fst c)" if c: "c \<in> set (normalizeWeights cs)" for c
  proof
    show "0 < snd c" using c pos normalizeWeights_positive by auto
    have "fst c \<in> fst ` set cs" using c set_fst_normalizeWeights by (metis imageI)
    then show "pos_node (fst c)" using pos by auto
  qed
  with pos show ?thesis by simp
qed

lemma pos_sublist: "pos_node (Split d cs) \<Longrightarrow> set ds \<subseteq> set cs \<Longrightarrow> ds \<noteq> [] \<Longrightarrow> pos_node (Split d ds)"
  by auto

text \<open>A target that can be materialised names a node of a tree with the same leaves.\<close>

lemma materialize_sound:
  assumes m: "materializeTarget t tg = Some (mt, mp)" and n: "root t = Some n" and pos: "pos_node n"
  shows "\<exists>n' m. root mt = Some n' \<and> pos_node n' \<and> leaves_walk n' = leaves_walk n \<and> node_at n' mp = Some m"
proof (cases "(mt, mp) = (t, tpath tg)")
  case True
  with m n pos show ?thesis by (auto simp: materializeTarget_def split: option.splits)
next
  case False
  from m n False obtain d cs x y s e where at: "node_at n (tpath tg) = Some (Split d cs)"
    and r: "trange tg = Some (x, y)" "js_integer x = Some s" "js_integer y = Some e"
    by (auto simp: materializeTarget_def split: option.splits lath_node.splits prod.splits)
  with m n False have rng: "0 \<le> s" "e \<le> int (length cs)" "2 \<le> e - s" and mp: "mp = tpath tg @ [nat s]"
    and mt: "mt = \<lparr>root = Some (replaceAtPath n (tpath tg) (group_children d cs (nat s) (nat e)))\<rparr>"
    by (auto simp: materializeTarget_def split: if_splits)
  define a b where ab: "a = nat s" "b = nat e"
  let ?sel = "take (b - a) (drop a cs)"
  let ?rep = "Split d (take a cs @ (Split d (normalizeWeights ?sel), weight_sum ?sel) # drop b cs)"
  have rep: "group_children d cs (nat s) (nat e) = ?rep" by (simp add: group_children_def Let_def ab)
  have ab': "a + 2 \<le> b" "b \<le> length cs" using rng ab by linarith+
  have sel: "?sel \<noteq> []" using ab' by auto
  have cs: "cs = take a cs @ ?sel @ drop b cs"
    using ab' by (metis append.assoc append_take_drop_id le_add1 le_add_diff_inverse order_trans take_add)
  have posc: "pos_node (Split d cs)" by (rule node_at_pos [OF pos at])
  have psel: "pos_node (Split d ?sel)"
    by (rule pos_sublist [OF posc _ sel]) (auto dest: in_set_takeD in_set_dropD)
  then have "0 < weight_sum ?sel" by (intro weight_sum_pos) auto
  then have prep: "pos_node ?rep"
    using posc pos_normalizeWeights [OF psel] by (auto dest: in_set_takeD in_set_dropD)
  have "leaves_walk ?rep = leaves_walk (Split d cs)"
    by (subst (5) cs) simp
  moreover from replaceAtPath_leaves [OF at] obtain xs ys where
    "leaves_walk n = xs @ leaves_walk (Split d cs) @ ys" "leaves_walk (replaceAtPath n (tpath tg) ?rep) = xs @ leaves_walk ?rep @ ys" by blast
  moreover have "node_at (replaceAtPath n (tpath tg) ?rep) mp = Some (Split d (normalizeWeights ?sel))"
    using ab' ab(1) by (simp add: mp node_at_append node_at_replace_same [OF at] nth_append)
  ultimately show ?thesis using mt rep replaceAtPath_pos [OF pos prep] by simp
qed

lemma insert_sibling_sound:
  assumes pos: "pos_node (Split d cs)" and idx: "idx < length cs" and w: "0 < w" "w < 1"
  shows "pos_node (Split d (normalizeWeights (insert_sibling mode cs idx bf (Leaf k) w)))
       \<and> leaf_inserted k (leaves_walk (Split d cs))
           (leaves_walk (Split d (normalizeWeights (insert_sibling mode cs idx bf (Leaf k) w))))"
proof -
  define scale :: rat where "scale = (if mode = KeepSiblings then 1 - w else 1)"
  define ch where "ch = map (\<lambda>c. (fst c, snd c * scale)) cs"
  define wt where "wt = (if mode = Halve then snd (ch ! idx) / 2 else w)"
  define hv where "hv = (if mode = Halve then ch[idx := (fst (ch ! idx), wt)] else ch)"
  let ?j = "if bf then idx else idx + 1"
  have ins: "insert_sibling mode cs idx bf (Leaf k) w = insert_nth ?j (Leaf k, wt) hv"
    by (simp add: insert_sibling_def scale_def ch_def wt_def hv_def Let_def)
  have sc: "0 < scale" using w by (simp add: scale_def)
  have chp: "\<forall>c \<in> set ch. 0 < snd c \<and> pos_node (fst c)" using pos sc by (auto simp: ch_def)
  have chn: "0 < snd (ch ! idx) \<and> pos_node (fst (ch ! idx))"
    using chp idx by (metis ch_def length_map nth_mem)
  then have wt: "0 < wt" using w by (simp add: wt_def)
  have hvp: "\<forall>c \<in> set hv. 0 < snd c \<and> pos_node (fst c)"
    using chp wt chn by (auto simp: hv_def dest!: set_update_subset_insert [THEN subsetD])
  have fsts: "map fst hv = map fst cs"
    using idx by (simp add: hv_def ch_def map_update list_update_id [of "map fst cs" idx, simplified] comp_def)
       (metis list_update_id nth_map)
  have "pos_node (Split d (insert_nth ?j (Leaf k, wt) hv))" using hvp wt by (auto simp: insert_nth_def dest!: in_set_takeD in_set_dropD)
  then have 1: "pos_node (Split d (normalizeWeights (insert_nth ?j (Leaf k, wt) hv)))" by (rule pos_normalizeWeights)
  have L: "map (\<lambda>c. leaves_walk (fst c)) hv = map (\<lambda>c. leaves_walk (fst c)) cs"
    using fsts by (metis (no_types, lifting) comp_def map_map map_eq_conv)
  have "?j \<le> length hv" using idx by (simp add: hv_def ch_def)
  then have "leaf_inserted k (concat (map (\<lambda>c. leaves_walk (fst c)) hv))
     (leaves_walk (Split d (normalizeWeights (insert_nth ?j (Leaf k, wt) hv))))"
    using leaf_inserted_nth [of ?j hv k "\<lambda>c. leaves_walk (fst c)"] by (simp add: insert_nth_def)
  with 1 show ?thesis by (simp add: ins L)
qed

lemma insertBesideNode_sound:
  assumes n: "root t = Some n" and pos: "pos_node n" and at: "node_at n p = Some m" and w: "0 < w" "w < 1"
  shows "\<exists>n'. root (insertBesideNode t p e k w mode) = Some n' \<and> wf_node 0 None n' \<and>
              leaf_inserted k (leaves_walk n) (leaves_walk n')"
proof (cases "p = []")
  case True
  let ?r = "Split (edgeAxis e) (beside (edgeIsBefore e) (Leaf k, w) (n, 1 - w))"
  have "pos_node ?r" using pos w by (intro pos_beside) auto
  from rebuild_inserted [OF pos this, of "[]" n k] inserted_beside True n
  show ?thesis by (simp add: insertBesideNode_def Let_def)
next
  case False
  obtain d cs where cs: "node_at n (butlast p) = Some (Split d cs)" "last p < length cs" "fst (cs ! last p) = m"
    by (rule node_at_parent [OF at False])
  show ?thesis
  proof (cases "d = edgeAxis e")
    case True
    note s = insert_sibling_sound [OF node_at_pos [OF pos cs(1)] cs(2) w, of mode "edgeIsBefore e" k]
    from rebuild_inserted [OF pos conjunct1 [OF s] cs(1) conjunct2 [OF s]] True False n cs
    show ?thesis by (simp add: insertBesideNode_def Let_def)
  next
    case neq: False
    let ?r = "Split (edgeAxis e) (beside (edgeIsBefore e) (Leaf k, w) (m, 1 - w))"
    have "pos_node ?r" using node_at_pos [OF pos at] w by (intro pos_beside) auto
    from rebuild_inserted [OF pos this at inserted_beside] neq False n cs at
    show ?thesis by (simp add: insertBesideNode_def Let_def)
  qed
qed

lemma size_weight_bounds: "size_weight sz = Some w \<Longrightarrow> 0 < w \<and> w < 1"
  by (auto simp: size_weight_def js_clamp_def split: insert_size.splits jsnum.splits)

lemma insertImpl_sound:
  assumes "wf_tree e t" "snd (insertImpl t k tg sz keep)"
  shows "\<exists>n n'. root t = Some n \<and> root (fst (insertImpl t k tg sz keep)) = Some n' \<and> wf_node 0 None n' \<and>
     k \<notin> set (leaves_walk n) \<and> leaf_inserted k (leaves_walk n) (leaves_walk n')"
proof -
  from assms(2) obtain et w n mt mp where tg: "tg = EdgeTarget et" and w: "size_weight sz = Some w"
    and n: "root t = Some n" and k: "findLeafPath t k = None" and m: "materializeTarget t et = Some (mt, mp)"
    by (auto simp: insertImpl_def reject_def split: drop_target.splits option.splits if_splits)
  have pos: "pos_node n" using wf_treeD [OF assms(1) n] by simp
  from materialize_sound [OF m n pos] obtain n1 m1 where n1: "root mt = Some n1" "pos_node n1"
    "leaves_walk n1 = leaves_walk n" "node_at n1 mp = Some m1" by blast
  from size_weight_bounds [OF w] insertBesideNode_sound [OF n1(1,2,4)] n1(3)
  have "\<exists>n'. root (insertBesideNode mt mp ed k w mode) = Some n' \<and> wf_node 0 None n' \<and>
     leaf_inserted k (leaves_walk n) (leaves_walk n')" for ed mode by auto
  moreover have "k \<notin> set (leaves_walk n)" using k n findLeafPath_None [of t k] by simp
  ultimately show ?thesis using tg w n k m by (simp add: insertImpl_def Let_def)
qed

lemma insertImpl_rejected: "\<not> snd (insertImpl t k tg sz keep) \<Longrightarrow> fst (insertImpl t k tg sz keep) = t"
  by (auto simp: insertImpl_def reject_def Let_def split: drop_target.splits option.splits if_splits)

lemma insertImpl_wf:
  assumes "wf_tree e t" "snd (insertImpl t k tg sz keep)"
  shows "wf_tree 0 (fst (insertImpl t k tg sz keep)) \<and>
         leaf_inserted k (leaves t) (leaves (fst (insertImpl t k tg sz keep)))"
proof -
  from insertImpl_sound [OF assms] obtain n n' where
    n: "root t = Some n" "root (fst (insertImpl t k tg sz keep)) = Some n'" "wf_node 0 None n'"
       "k \<notin> set (leaves_walk n)" "leaf_inserted k (leaves_walk n) (leaves_walk n')" by blast
  moreover from n wf_treeD [OF assms(1) n(1)] have "distinct (leaves_walk n')"
    by (simp add: leaf_inserted_distinct)
  ultimately show ?thesis by (auto intro: wf_treeI)
qed

section \<open>Moving\<close>

lemma swap_wf:
  assumes "wf_tree e t"
  shows "wf_tree e (fst (swap t a b)) \<and> set (leaves (fst (swap t a b))) = set (leaves t)"
proof (cases "snd (swap t a b)")
  case False
  then have "fst (swap t a b) = t" by (auto simp: swap_def reject_def split: option.splits if_splits)
  with assms show ?thesis by simp
next
  case True
  then obtain n where n: "root t = Some n" and ab: "a \<noteq> b" "findLeafPath t a \<noteq> None" "findLeafPath t b \<noteq> None"
    by (auto simp: swap_def reject_def split: option.splits if_splits)
  then have mem: "a \<in> set (leaves t)" "b \<in> set (leaves t)" using findLeafPath_None [of t a] findLeafPath_None [of t b] by auto
  from swap_eq [OF assms n ab(1) this] have sw: "fst (swap t a b) = \<lparr>root = Some (relabel (swap_ids a b) n)\<rparr>" by simp
  have inj: "inj (swap_ids a b)" by (auto simp: inj_def swap_ids_def split: if_splits)
  moreover have "swap_ids a b ` set (leaves_walk n) = set (leaves_walk n)"
    using mem n by (auto simp: swap_ids_def image_iff split: if_splits)
  ultimately show ?thesis using wf_treeD [OF assms n] n
    by (auto simp: sw wf_tree_def leaves_def distinct_map inj_on_def inj_def)
qed

lemma distinct_wf: "wf_tree e t \<Longrightarrow> distinct (leaves t)"
  by (auto simp: wf_tree_def leaves_def split: option.splits)

lemma own_weight_Some:
  assumes "findLeafPath t k = Some p"
  shows "\<exists>w. own_weight t p = Some w"
proof (cases "p = []")
  case False
  from findLeafPath_Some [OF assms] obtain n where n: "root t = Some n" "node_at n p = Some (Leaf k)" by blast
  obtain d cs where "node_at n (butlast p) = Some (Split d cs)" "last p < length cs"
    using node_at_parent [OF n(2) False] by metis
  with False n show ?thesis by (simp add: own_weight_def)
qed (simp add: own_weight_def)

lemma moveSize_Some:
  "findLeafPath t k = Some p \<Longrightarrow> materializeTarget t tg = Some m \<Longrightarrow> \<exists>sz. moveSize t k tg = Some sz"
  using own_weight_Some [of t k p] by (cases m) (auto simp: moveSize_def)

text \<open>A move never throws, keeps the tree valid and, but for the moved leaf, the leaves' order.\<close>

lemma move_edge_sound:
  assumes wf: "wf_tree e t" and e: "0 \<le> e"
  shows "\<exists>t' ok. move t k (EdgeTarget tg) = Some (t', ok) \<and> wf_tree e t' \<and> (\<not> ok \<longrightarrow> t' = t) \<and>
           set (leaves t') = set (leaves t) \<and>
           filter (\<lambda>l. l \<noteq> k) (leaves t') = filter (\<lambda>l. l \<noteq> k) (leaves t)"
proof -
  have rej: ?thesis if "move t k (EdgeTarget tg) = Some (reject t)" using that wf by (auto simp: reject_def)
  show ?thesis
  proof (cases "findLeafPath t k")
    case None
    then show ?thesis by (intro rej) (simp add: move_def)
  next
    case (Some p)
    have k: "k \<in> set (leaves t)" using Some findLeafPath_None [of t k] by auto
    show ?thesis
    proof (cases "materializeTarget t tg")
      case None
      with Some show ?thesis by (intro rej) (simp add: move_def)
    next
      case mat: (Some m)
      obtain mt mp where m: "m = (mt, mp)" by (cases m)
      let ?tl = "case nodeAtPath mt mp of None \<Rightarrow> [] | Some m \<Rightarrow> leaves_walk m"
      from remove_sound [OF wf k] obtain t2 tk where rm: "remove t k = Some (t2, True, Some tk)"
        and wf2: "wf_tree 0 t2" and ins2: "leaf_inserted k (leaves t2) (leaves t)" by blast
      from moveSize_Some [OF Some mat] obtain sz where sz: "moveSize t k tg = Some sz" by blast
      let ?dest = "targetByLeafSet t2 (remdups (filter (\<lambda>l. l \<noteq> k) ?tl)) (tedge tg)"
      show ?thesis
      proof (cases "?tl = [k] \<or> ?dest = None")
        case True
        with Some mat m rm sz show ?thesis by (intro rej) (auto simp: move_def Let_def)
      next
        case False
        then obtain dest where dest: "?dest = Some dest" by auto
        let ?r = "insertImpl t2 k (EdgeTarget dest) sz (own_split t p k t2 dest)"
        have mv: "move t k (EdgeTarget tg) =
          (if \<not> snd ?r then Some (reject t)
           else if map_option structureFingerprint (root (fst ?r)) = map_option structureFingerprint (root t)
             then Some (t, True) else Some (fst ?r, True))"
          using Some mat m rm sz False dest by (simp add: move_def Let_def case_prod_beta)
        show ?thesis
        proof (cases "snd ?r")
          case False
          with mv show ?thesis by (intro rej) simp
        next
          case True
          from insertImpl_wf [OF wf2 True] have w: "wf_tree 0 (fst ?r)"
            and ins: "leaf_inserted k (leaves t2) (leaves (fst ?r))" by auto
          from wf_tree_mono [OF w e] have w: "wf_tree e (fst ?r)" .
          have "set (leaves (fst ?r)) = set (leaves t)" "filter (\<lambda>l. l \<noteq> k) (leaves (fst ?r)) = filter (\<lambda>l. l \<noteq> k) (leaves t)"
            using leaf_inserted_set [OF ins] leaf_inserted_set [OF ins2]
              leaf_inserted_filter [OF ins] leaf_inserted_filter [OF ins2] by simp_all
          with mv True w wf show ?thesis by auto
        qed
      qed
    qed
  qed
qed

section \<open>Resizing\<close>

lemma rebase_children_sound:
  assumes pos: "pos_node (Split d cs)" and l: "length ws = length cs"
  shows "pos_node (Split d (rebase_children cs ws))"
    and "leaves_walk (Split d (rebase_children cs ws)) = leaves_walk (Split d cs)"
proof -
  let ?ch = "map (\<lambda>(c, s). (fst c, max s (1 / 10 ^ 6))) (zip cs ws)"
  have "pos_node (Split d ?ch)" using pos l by (auto simp: less_max_iff_disj dest!: set_zip_leftD)
  then show "pos_node (Split d (rebase_children cs ws))"
    unfolding rebase_children_def by (rule pos_normalizeWeights)
  have "map (\<lambda>c. leaves_walk (fst c)) ?ch = map (\<lambda>c. leaves_walk (fst c)) cs"
    using l by (induction cs ws rule: list_induct2') auto
  then show "leaves_walk (Split d (rebase_children cs ws)) = leaves_walk (Split d cs)"
    unfolding rebase_children_def by (simp del: map_map map_eq_conv)
qed

lemma resize_boundary_sound:
  assumes wf: "wf_tree e t" and e: "0 \<le> e" and opts: "opts_ok opts" and n: "root t = Some n"
    and cs: "node_at n sp = Some (Split d cs)"
  shows "wf_tree e (fst (resize_boundary t n sp d cs a delta spn opts))
       \<and> leaves (fst (resize_boundary t n sp d cs a delta spn opts)) = leaves t"
proof -
  have pos: "pos_node n" "distinct (leaves_walk n)" using wf_treeD [OF wf n] by simp_all
  have posc: "pos_node (Split d cs)" by (rule node_at_pos [OF pos(1) cs])
  have ch: "wf_tree e \<lparr>root = normalize_node (replaceAtPath n sp (Split d (rebase_children cs ws)))\<rparr>
      \<and> leaves \<lparr>root = normalize_node (replaceAtPath n sp (Split d (rebase_children cs ws)))\<rparr> = leaves t"
    if "length ws = length cs" for ws
  proof -
    note rb = rebase_children_sound [OF posc that]
    obtain m where m: "normalize_node (replaceAtPath n sp (Split d (rebase_children cs ws))) = Some m" "wf_node 0 None m"
      "leaves_walk m = leaves_walk (replaceAtPath n sp (Split d (rebase_children cs ws)))"
      by (rule rebuild [OF pos(1) rb(1)])
    from replaceAtPath_leaves [OF cs] m(3) rb(2) have "leaves_walk m = leaves_walk n" by auto
    with m n pos wf_node_mono [OF m(2) e] show ?thesis by (simp add: wf_tree_def leaves_def)
  qed
  have "length (allocateChildSpans cs spn opts d) = length cs"
    using posc opts by (rule allocateChildSpans_sound)
  then show ?thesis using ch wf by (simp add: resize_boundary_def Let_def)
qed

lemma resize_sound:
  assumes wf: "wf_tree e t" and e: "0 \<le> e" and opts: "opts_ok opts"
  shows "wf_tree e (fst (resize t sp b dx r opts)) \<and> leaves (fst (resize t sp b dx r opts)) = leaves t"
  using resize_boundary_sound [OF wf e opts] wf
  by (auto simp: resize_def reject_def Let_def nodeAtPath_def split: option.splits jsnum.splits lath_node.splits)

section \<open>Restoring\<close>

lemma fp_walk_sound:
  "fp_walk f n path = Some p \<Longrightarrow>
     \<exists>q d cs. p = path @ q \<and> node_at n q = Some (Split d cs) \<and> structureFingerprint (Split d cs) = f"
  "fp_children f cs path i = Some p \<Longrightarrow>
     \<exists>j q d cs'. p = path @ [i + j] @ q \<and> j < length cs \<and> node_at (fst (cs ! j)) q = Some (Split d cs') \<and>
       structureFingerprint (Split d cs') = f"
proof (induction f n path and f cs path i arbitrary: p and p rule: fp_walk_fp_children.induct)
  case (2 f d cs path)
  show ?case
  proof (cases "structureFingerprint (Split d cs) = f")
    case True
    with "2.prems" show ?thesis by (intro exI [of _ "[]"]) simp
  next
    case False
    with "2.prems" "2.IH" obtain j q d' cs' where "p = path @ [0 + j] @ q" "j < length cs"
      "node_at (fst (cs ! j)) q = Some (Split d' cs')" "structureFingerprint (Split d' cs') = f" by fastforce
    then show ?thesis by (intro exI [of _ "j # q"]) simp
  qed
next
  case (4 f c cs path i)
  show ?case
  proof (cases "fp_walk f (fst c) (path @ [i])")
    case None
    with "4.prems" have "fp_children f cs path (Suc i) = Some p" by simp
    from "4.IH"(2) [OF None this] obtain j q d cs' where
      "p = path @ [Suc i + j] @ q" "j < length cs" "node_at (fst (cs ! j)) q = Some (Split d cs')"
      "structureFingerprint (Split d cs') = f" by blast
    then show ?thesis by (intro exI [of _ "Suc j"] exI [of _ q]) simp
  next
    case (Some p')
    with "4.prems" "4.IH"(1) [OF Some] show ?thesis by (intro exI [of _ 0]) auto
  qed
qed simp_all

lemma findSplitPath_sound:
  "findSplitPathByFingerprint t f = Some p \<Longrightarrow> \<exists>n d cs. root t = Some n \<and> node_at n p = Some (Split d cs) \<and>
     structureFingerprint (Split d cs) = f"
  by (auto simp: findSplitPathByFingerprint_def dest!: fp_walk_sound(1) split: option.splits)

lemma token_weight_bounds:
  "isRestoreToken tk \<Longrightarrow> siblingId tk \<noteq> None \<Longrightarrow> 0 < token_weight tk \<and> token_weight tk < 1"
  by (auto simp: isRestoreToken_def token_weight_def split: jsnum.splits)

lemma restore_parent_sound:
  assumes wf: "wf_tree e t" and tk: "isRestoreToken tk" "siblingId tk \<noteq> None" and r: "restore_parent t tk = Some t'"
    and k: "leafId tk \<notin> set (leaves t)"
  shows "wf_tree 0 t' \<and> leaf_inserted (leafId tk) (leaves t) (leaves t')"
proof -
  let ?w = "token_weight tk" and ?k = "leafId tk"
  note w = token_weight_bounds [OF tk]
  from r obtain n p d cs where n: "root t = Some n" and at: "node_at n p = Some (Split d cs)"
    and t': "t' = \<lparr>root = normalize_node (replaceAtPath n p (Split d (normalizeWeights
        (insert_nth (min (token_index tk) (length cs)) (Leaf ?k, ?w) (map (\<lambda>c. (fst c, snd c * (1 - ?w))) cs)))))\<rparr>"
    by (auto simp: restore_parent_def Let_def split: option.splits lath_node.splits)
  let ?j = "min (token_index tk) (length cs)"
  let ?sc = "map (\<lambda>c. (fst c, snd c * (1 - ?w))) cs"
  have pos: "pos_node n" "distinct (leaves_walk n)" using wf_treeD [OF wf n] by simp_all
  have "pos_node (Split d cs)" by (rule node_at_pos [OF pos(1) at])
  then have "pos_node (Split d (insert_nth ?j (Leaf ?k, ?w) ?sc))"
    using w by (auto simp: insert_nth_def intro!: mult_pos_pos dest!: in_set_takeD in_set_dropD)
  then have posr: "pos_node (Split d (normalizeWeights (insert_nth ?j (Leaf ?k, ?w) ?sc)))" by (rule pos_normalizeWeights)
  have "leaf_inserted ?k (leaves_walk (Split d cs)) (leaves_walk (Split d (normalizeWeights (insert_nth ?j (Leaf ?k, ?w) ?sc))))"
    using leaf_inserted_nth [of ?j ?sc ?k "\<lambda>c. leaves_walk (fst c)"] by (simp add: insert_nth_def comp_def)
  from rebuild_inserted [OF pos(1) posr at this] obtain n' where
    "root t' = Some n'" "wf_node 0 None n'" "leaf_inserted ?k (leaves_walk n) (leaves_walk n')" by (auto simp: t')
  with pos(2) n k show ?thesis by (auto simp: leaf_inserted_distinct intro: wf_treeI)
qed

lemma restore_sound:
  assumes wf: "wf_tree e t"
  shows "case restore t tk ro of (t', ok, tr) \<Rightarrow>
     (if ok then wf_tree 0 t' \<and> leaf_inserted (leafId tk) (leaves t) (leaves t') \<and> tr \<noteq> None else t' = t \<and> tr = None)"
proof (cases "\<not> isRestoreToken tk \<or> findLeafPath t (leafId tk) \<noteq> None")
  case True
  then show ?thesis by (auto simp: restore_def)
next
  case False
  then have tk: "isRestoreToken tk" and k: "leafId tk \<notin> set (leaves t)" by (auto simp: findLeafPath_None)
  show ?thesis
  proof (cases "root t")
    case None
    with False show ?thesis
      by (auto simp: restore_def leafTree_def wf_tree_def leaves_def leaf_inserted_def)
  next
    case (Some n)
    have ins: "wf_tree 0 t' \<and> leaf_inserted (leafId tk) (leaves t) (leaves t')"
      if "restore_sibling t tk = Some t'" for t'
    proof -
      from that obtain tg where "snd (insert_op t (leafId tk) (EdgeTarget tg) (Weight (tweight tk)))"
        "t' = fst (insert_op t (leafId tk) (EdgeTarget tg) (Weight (tweight tk)))"
        by (auto simp: restore_sibling_def case_prod_beta split: option.splits if_splits)
      with insertImpl_wf [OF wf] show ?thesis by (simp add: insert_op_def)
    qed
    have spl: "wf_tree 0 t' \<and> leaf_inserted (leafId tk) (leaves t) (leaves t')"
      if "restore_neighbor t tk = Some t' \<or> restore_fallback t tk ro = Some t'" for t'
    proof -
      from that obtain a ed where "snd (split t a ed (leafId tk))" "t' = fst (split t a ed (leafId tk))"
        unfolding restore_neighbor_def restore_fallback_def Let_def
        by (auto simp: case_prod_beta split: option.splits if_splits)
      with split_inserted [OF wf] show ?thesis by simp
    qed
    show ?thesis using False Some ins spl restore_parent_sound [OF wf tk _ _ k]
      by (auto simp: restore_def Let_def split: option.splits if_splits)
  qed
qed

section \<open>Removing and restoring\<close>

text \<open>A fingerprint names one subtree: with unique leaves and at least two children to a split,
  the search finds the very path that has it.\<close>

lemma leaves_length_child:
  assumes "wf_node e pd (Split d cs)" "i < length cs"
  shows "length (leaves_walk (fst (cs ! i))) < length (leaves_walk (Split d cs))"
proof -
  let ?l = "\<lambda>c. leaves_walk (fst c)"
  have pos: "pos_node (Split d cs)" using assms(1) by (rule wf_node_pos)
  have "2 \<le> length cs" using assms(1) by simp
  define j :: nat where "j = (if i = 0 then 1 else 0)"
  with \<open>2 \<le> length cs\<close> have j: "j < length cs" "j \<noteq> i" by auto
  have "?l (cs ! j) \<noteq> []" using pos j by (intro leaves_walk_nonempty) simp
  moreover have "cs ! j \<in> set (take i cs) \<union> set (drop (Suc i) cs)"
  proof -
    have "cs ! j \<in> set (take i cs @ drop (Suc i) cs)"
    proof (cases "j < i")
      case True
      then show ?thesis using assms(2) by (metis Un_iff in_set_conv_nth length_take min.absorb4 nth_take set_append)
    next
      case False
      with j have "drop (Suc i) cs ! (j - Suc i) = cs ! j" "j - Suc i < length (drop (Suc i) cs)"
        using assms(2) by auto
      then show ?thesis by (metis Un_iff nth_mem set_append)
    qed
    then show ?thesis by simp
  qed
  ultimately have "concat (map ?l (take i cs)) \<noteq> [] \<or> concat (map ?l (drop (Suc i) cs)) \<noteq> []" by auto
  then show ?thesis by (auto simp: concat_map_split [OF assms(2), of ?l])
qed

lemma node_at_length: "node_at n p = Some m \<Longrightarrow> length (leaves_walk m) \<le> length (leaves_walk n)"
  using replaceAtPath_leaves [of n p m] by auto

lemma fp_walk_complete:
  "wf_node e pd n \<Longrightarrow> distinct (leaves_walk n) \<Longrightarrow> node_at n q = Some (Split d cs) \<Longrightarrow>
   structureFingerprint (Split d cs) = f \<Longrightarrow> fp_walk f n path = Some (path @ q)"
proof (induction n q arbitrary: pd path rule: node_at.induct)
  case (1 n)
  then show ?case by simp
next
  case (3 d0 cs0 i q)
  let ?l = "\<lambda>c. leaves_walk (fst c)"
  from "3.prems" have i: "i < length cs0" and at: "node_at (fst (cs0 ! i)) q = Some (Split d cs)" by (auto split: if_splits)
  have wfc: "wf_node e (Some d0) (fst (cs0 ! j))" if "j < length cs0" for j using "3.prems"(1) that by simp
  have dc: "distinct (concat (map ?l cs0))" using "3.prems"(2) by simp
  have di: "distinct (?l (cs0 ! i))" using dc concat_map_split [OF i, of ?l] by simp
  have ne: "leaves_walk (Split d cs) \<noteq> []"
    using wf_node_pos [OF wfc [OF i]] by (intro leaves_walk_nonempty node_at_pos [OF _ at])
  have "structureFingerprint (Split d0 cs0) \<noteq> f"
  proof
    assume "structureFingerprint (Split d0 cs0) = f"
    with "3.prems"(4) have "strip (Split d0 cs0) = strip (Split d cs)"
      by (metis structureFingerprint_eq)
    from strip_leaves [OF this] leaves_length_child [OF "3.prems"(1) i] node_at_length [OF at]
    show False by (simp del: leaves_walk.simps)
  qed
  moreover have "fp_children f (drop k cs0) path k = Some (path @ i # q)" if "k \<le> i" for k
    using that
  proof (induction "i - k" arbitrary: k)
    case 0
    then have "drop k cs0 = cs0 ! i # drop (Suc i) cs0" using i by (simp add: Cons_nth_drop_Suc)
    with 0 "3.IH" [OF i wfc [OF i] di at "3.prems"(4)] show ?case by simp
  next
    case (Suc x)
    then have k: "k < i" by simp
    then have kl: "k < length cs0" using i by simp
    have "fp_walk f (fst (cs0 ! k)) (path @ [k]) = None"
    proof (rule ccontr)
      assume "fp_walk f (fst (cs0 ! k)) (path @ [k]) \<noteq> None"
      then obtain q' d' cs' where at': "node_at (fst (cs0 ! k)) q' = Some (Split d' cs')"
        and "structureFingerprint (Split d' cs') = f"
        using fp_walk_sound(1) by blast
      with "3.prems"(4) have "leaves_walk (Split d' cs') = leaves_walk (Split d cs)"
        by (metis structureFingerprint_eq strip_leaves)
      with ne obtain y where "y \<in> set (leaves_walk (Split d cs))" "y \<in> set (leaves_walk (Split d' cs'))"
        by (metis list.set_sel(1))
      with node_at_leaves [OF at] node_at_leaves [OF at'] have "y \<in> set (?l (cs0 ! i))" "y \<in> set (?l (cs0 ! k))" by auto
      with distinct_concat_nth [OF dc i kl] k show False by blast
    qed
    moreover have "fp_children f (drop (Suc k) cs0) path (Suc k) = Some (path @ i # q)"
      using Suc.hyps(2) k by (intro Suc.hyps(1)) auto
    ultimately show ?case by (simp add: Cons_nth_drop_Suc [OF kl, symmetric])
  qed
  from this [of 0] have "fp_children f cs0 path 0 = Some (path @ i # q)" by simp
  ultimately show ?case by simp
qed simp

lemma collect_self:
  "wf_node 0 (Some d) (fst c) \<Longrightarrow> collect_child d (normalize_node (fst c)) (snd c) = [c]"
  by (simp add: normalize_id [of "Some d"] collect_child_other [of 0])

text \<open>Replacing a split by a normalised one of the same direction leaves the rest of the tree alone.\<close>

lemma normalize_replace_split:
  assumes "wf_node 0 pd n" "node_at n p = Some (Split d cs)" "wf_node 0 None (Split d cs')"
    and "normalize_node r = Some (Split d cs')"
  shows "normalize_node (replaceAtPath n p r) = Some (replaceAtPath n p (Split d cs')) \<and>
         wf_node 0 pd (replaceAtPath n p (Split d cs'))"
  using assms
proof (induction n p arbitrary: pd rule: node_at.induct)
  case (1 n)
  then show ?case by auto
next
  case (3 d0 cs0 i p)
  from "3.prems" have i: "i < length cs0" and at: "node_at (fst (cs0 ! i)) p = Some (Split d cs)" by (auto split: if_splits)
  have c: "0 < snd (cs0 ! i)" "wf_node 0 (Some d0) (fst (cs0 ! i))" using "3.prems"(1) i by simp_all
  note IH = "3.IH" [OF i c(2) at "3.prems"(3,4)]
  let ?m = "replaceAtPath (fst (cs0 ! i)) p (Split d cs')"
  let ?f = "\<lambda>c. collect_child d0 (normalize_node (fst c)) (snd c)"
  let ?cs = "cs0[i := (?m, snd (cs0 ! i))]"
  have id: "?f c = [c]" if "c \<in> set cs0" for c
    using that "3.prems"(1) by (intro collect_self) simp
  have "map ?f (cs0[i := (replaceAtPath (fst (cs0 ! i)) p r, snd (cs0 ! i))]) = map (\<lambda>c. [c]) ?cs"
  proof (rule nth_equalityI)
    fix j assume "j < length (map ?f (cs0[i := (replaceAtPath (fst (cs0 ! i)) p r, snd (cs0 ! i))]))"
    then have j: "j < length cs0" by simp
    show "map ?f (cs0[i := (replaceAtPath (fst (cs0 ! i)) p r, snd (cs0 ! i))]) ! j = map (\<lambda>c. [c]) ?cs ! j"
      using IH id j by (cases "i = j") (simp_all add: collect_child_other [of 0])
  qed simp
  then have col: "concat (map ?f (cs0[i := (replaceAtPath (fst (cs0 ! i)) p r, snd (cs0 ! i))])) = ?cs"
    by (simp only: concat_map_singleton map_ident)
  have "map snd ?cs = map snd cs0" using i by (metis list_update_id map_update nth_map snd_conv)
  then have sum: "weight_sum ?cs = weight_sum cs0" by (simp add: weight_sum_def)
  have "normalize_node (replaceAtPath (Split d0 cs0) (i # p) r) = Some (Split d0 ?cs)"
    using i "3.prems"(1) col by (simp add: normalizeWeights_one sum)
  moreover have "wf_node 0 pd (Split d0 ?cs)"
    using "3.prems"(1) IH c sum by (auto dest!: set_update_subset_insert [THEN subsetD])
  ultimately show ?case using i by simp
qed simp

lemma normalize_remove_nth:
  assumes wf: "wf_node 0 pd (Split d cs)" and len: "3 \<le> length cs" and i: "i < length cs"
  shows "normalize_node (Split d (remove_nth i cs)) = Some (Split d (normalizeWeights (remove_nth i cs)))
       \<and> wf_node 0 None (Split d (normalizeWeights (remove_nth i cs)))"
proof -
  let ?p = "remove_nth i cs"
  have mem: "0 < snd c \<and> wf_node 0 (Some d) (fst c)" if "c \<in> set ?p" for c
    using that wf set_remove_nth [of i cs] by auto
  then have "concat (map (\<lambda>c. collect_child d (normalize_node (fst c)) (snd c)) xs) = xs" if "set xs \<subseteq> set ?p" for xs
    using that mem by (induction xs) (simp_all add: collect_self)
  then have "normalize_node (Split d ?p) = build_split d ?p" by simp
  also have "\<dots> = Some (Split d (normalizeWeights ?p))" using len i by simp
  finally have 1: "normalize_node (Split d ?p) = Some (Split d (normalizeWeights ?p))" .
  moreover have "length ?p = length cs - 1" using i by simp
  then have "?p \<noteq> []" using len by auto
  moreover have "good_children d ?p" using mem by (simp add: good_children_def)
  ultimately show ?thesis using build_split_wf [of ?p d] len i by auto
qed

lemma strip_normalizeWeights: "strip (Split d (normalizeWeights cs)) = strip (Split d cs)"
proof -
  have "map (\<lambda>c. strip (fst c)) ds = map strip (map fst ds)" for ds :: "lath_child list" by simp
  then show ?thesis by (simp only: strip.simps map_fst_normalizeWeights)
qed

lemma rescale_post:
  assumes "weight_sum ds = s" "0 < s"
  shows "map (\<lambda>c. (fst c, snd c * s)) (normalizeWeights ds) = ds"
  using assms by (auto simp: normalizeWeights_pos_eq comp_def intro: map_idI)

lemma weight_sum_remove_nth: "i < length cs \<Longrightarrow> weight_sum (remove_nth i cs) = weight_sum cs - snd (cs ! i)"
  unfolding weight_sum_def map_remove_nth by (simp add: sum_list_remove_nth)

lemma remove_restore:
  assumes wf: "wf_tree 0 t" and p: "findLeafPath t k = Some p" "p \<noteq> []"
    and par: "nodeAtPath t (butlast p) = Some (Split d cs)" and len: "3 \<le> length cs"
  shows "\<exists>t' tk. remove t k = Some (t', True, Some tk) \<and> restore t' tk ro = (t, True, Some Exact)"
proof -
  obtain n d' cs' idx sib where n: "root t = Some n" and cs': "node_at n (butlast p) = Some (Split d' cs')"
    and idx': "idx < length cs'" and leaf': "fst (cs' ! idx) = Leaf k"
    and rm': "remove t k = Some (\<lparr>root = normalize_node (replaceAtPath n (butlast p) (Split d' (remove_nth idx cs')))\<rparr>, True,
       Some \<lparr>leafId = k, tweight = JFin (snd (cs' ! idx)),
             siblingId = Some (hd (leaves_walk (fst (cs' ! sib)))),
             siblingLeafIds = Some (leaves_walk (fst (cs' ! sib))),
             siblingFingerprint = Some (structureFingerprint (fst (cs' ! sib))),
             edge_of = remove_edge (0 < idx) d', index = JFin (of_nat idx),
             fingerprint = Some (structureFingerprint (Split d' (remove_nth idx cs')))\<rparr>)"
    by (rule remove_found [OF wf p]) blast
  from cs' par n have same: "d' = d" "cs' = cs" by simp_all
  define tk where tkd: "tk = \<lparr>leafId = k, tweight = JFin (snd (cs ! idx)),
             siblingId = Some (hd (leaves_walk (fst (cs ! sib)))),
             siblingLeafIds = Some (leaves_walk (fst (cs ! sib))),
             siblingFingerprint = Some (structureFingerprint (fst (cs ! sib))),
             edge_of = remove_edge (0 < idx) d, index = JFin (of_nat idx),
             fingerprint = Some (structureFingerprint (Split d (remove_nth idx cs)))\<rparr>"
  note idx = idx' [unfolded same] and leaf = leaf' [unfolded same] and rm = rm' [unfolded same, folded tkd]
  let ?w = "snd (cs ! idx)" and ?post = "remove_nth idx cs" and ?q = "butlast p"
  have cs: "node_at n ?q = Some (Split d cs)" using par n by simp
  have wfn: "wf_node 0 None n" "distinct (leaves_walk n)" using wf_treeD [OF wf n] by simp_all
  have wfcs: "wf_node 0 None (Split d cs)" by (rule node_at_wf [OF wfn(1) cs])
  note post = normalize_remove_nth [OF wfcs len idx]
  define m where "m = replaceAtPath n ?q (Split d (normalizeWeights ?post))"
  have m: "normalize_node (replaceAtPath n ?q (Split d ?post)) = Some m" "wf_node 0 None m"
    unfolding m_def using normalize_replace_split [OF wfn(1) cs conjunct2 [OF post] conjunct1 [OF post]] by auto
  let ?t' = "\<lparr>root = Some m\<rparr>"
  have k: "k \<in> set (leaves t)" using p(1) findLeafPath_None [of t k] by auto
  from remove_sound [OF wf k] rm m(1) have ins: "leaf_inserted k (leaves_walk m) (leaves_walk n)" and wf': "wf_tree 0 ?t'"
    using n by (auto simp: leaves_def)
  have dm: "distinct (leaves_walk m)" "k \<notin> set (leaves_walk m)"
    using wfn(2) by (simp_all add: leaf_inserted_distinct [OF ins])
  have sum1: "weight_sum cs = 1" using wfcs by simp
  have spost: "weight_sum ?post = 1 - ?w" by (simp add: weight_sum_remove_nth [OF idx] sum1)
  have w: "0 < ?w" using wfcs idx by simp
  have "0 < weight_sum ?post"
  proof (rule weight_sum_pos)
    show "?post \<noteq> []" using post by auto
    show "\<forall>c \<in> set ?post. 0 < snd c" using wfcs set_remove_nth [of idx cs] by auto
  qed
  with spost have w1: "?w < 1" by simp
  have atm: "node_at m ?q = Some (Split d (normalizeWeights ?post))" unfolding m_def by (rule node_at_replace_same [OF cs])
  have "structureFingerprint (Split d (normalizeWeights ?post)) = structureFingerprint (Split d ?post)"
    by (simp only: structureFingerprint_eq strip_normalizeWeights)
  from fp_walk_complete [OF m(2) dm(1) atm this, of "[]"]
  have found: "findSplitPathByFingerprint ?t' (structureFingerprint (Split d ?post)) = Some ?q"
    by (simp add: findSplitPathByFingerprint_def)
  have sc: "map (\<lambda>c. (fst c, snd c * (1 - ?w))) (normalizeWeights ?post) = ?post"
    using spost w1 by (intro rescale_post) auto
  have undo: "insert_nth idx (Leaf k, ?w) ?post = cs"
    using insert_remove_nth [OF idx] leaf by (metis prod.collapse)
  have le: "min idx (length cs - Suc 0) = idx" using idx by simp
  have "restore_parent ?t' tk = Some \<lparr>root = normalize_node (replaceAtPath m ?q (Split d cs))\<rparr>"
    using found atm idx by (simp add: restore_parent_def tkd token_weight_def token_index_def Let_def sc
        undo normalizeWeights_one sum1 le)
  also have "replaceAtPath m ?q (Split d cs) = n"
    unfolding m_def using replaceAtPath_twice [OF cs] replaceAtPath_same [OF cs] by simp
  finally have rp: "restore_parent ?t' tk = Some t"
    using normalize_id [OF wfn(1)] n by (cases t) simp
  have tok: "isRestoreToken tk" using w w1 by (simp add: isRestoreToken_def tkd)
  have "findLeafPath ?t' k = None" using dm(2) findLeafPath_None [of ?t' k] by (simp add: leaves_def)
  then have "restore ?t' tk ro = (t, True, Some Exact)"
    using tok rp by (simp add: restore_def tkd Let_def)
  with rm m(1) show ?thesis by simp
qed

end
