(* ===== verification/Lath_Correct.thy ===== *)
theory Lath_Correct
  imports Lath_Ops
begin

text \<open>
  What the tiling engine promises: every operation keeps the tree valid and touches only the
  leaves it names, rejected calls change nothing, a removed pane comes back where it was, and
  every layout the engine can reach from a single pane is valid.
\<close>

section \<open>A tree to try the operations on\<close>

definition trio :: lath_tree where
  "trio = \<lparr>root = Some (Split Row [(Leaf ''a'', 1 / 2), (Leaf ''b'', 1 / 4), (Leaf ''c'', 1 / 4)])\<rparr>"

lemma trio_wf [simp]: "wf_tree 0 trio"
  by (simp add: trio_def wf_tree_def)

lemma trio_leaves [simp]: "leaves trio = [''a'', ''b'', ''c'']"
  by (simp add: trio_def leaves_def)

section \<open>Reachable layouts\<close>

text \<open>One step of the engine: an operation of \<open>ops.ts\<close> with any arguments.\<close>

inductive lath_step :: "lath_tree \<Rightarrow> lath_tree \<Rightarrow> bool" where
  step_split: "lath_step t (fst (split t a e k))"
| step_remove: "remove t k = Some (t', ok, tk) \<Longrightarrow> lath_step t t'"
| step_restore: "restore t tk ro = (t', ok, tr) \<Longrightarrow> lath_step t t'"
| step_replace: "lath_step t (fst (replace t a b))"
| step_swap: "lath_step t (fst (swap t a b))"
| step_insert: "lath_step t (fst (insert_op t k tg sz))"
| step_move: "move t k tg = Some (t', ok) \<Longrightarrow> lath_step t t'"
| step_resize: "opts_ok opts \<Longrightarrow> lath_step t (fst (resize t sp b dx r opts))"

inductive_cases lath_step_cases: "lath_step t t'"

lemma replace_wf:
  assumes "wf_tree e t"
  shows "wf_tree e (fst (replace t a b))"
proof (cases "snd (replace t a b)")
  case False
  then have "fst (replace t a b) = t" by (auto simp: replace_def reject_def split: option.splits if_splits)
  with assms show ?thesis by simp
next
  case True
  then obtain n where n: "root t = Some n" and ab: "findLeafPath t a \<noteq> None" "findLeafPath t b = None"
    by (auto simp: replace_def reject_def split: option.splits if_splits)
  then have mem: "a \<in> set (leaves t)" "b \<notin> set (leaves t)"
    using findLeafPath_None [of t a] findLeafPath_None [of t b] by auto
  from replace_eq [OF assms n mem] have r: "fst (replace t a b) = \<lparr>root = Some (relabel (\<lambda>x. if x = a then b else x) n)\<rparr>"
    by simp
  have "distinct (map (\<lambda>x. if x = a then b else x) (leaves_walk n))"
    using wf_treeD [OF assms n] mem n by (auto simp: distinct_map inj_on_def)
  with wf_treeD [OF assms n] show ?thesis by (simp add: r wf_tree_def)
qed

lemma lath_step_wf: "lath_step t t' \<Longrightarrow> 0 \<le> e \<Longrightarrow> wf_tree e t \<Longrightarrow> wf_tree e t'"
proof (induction rule: lath_step.induct)
  case (step_split t a ed k)
  then show ?case using split_inserted [of e t a ed k] split_rejected [of t a ed k]
    by (cases "snd (split t a ed k)") (auto intro: wf_tree_mono [of 0])
next
  case (step_remove t k t' ok tk)
  then show ?case using remove_sound [of e t k] remove_absent [of k t]
    by (cases "k \<in> set (leaves t)") (auto intro: wf_tree_mono [of 0])
next
  case (step_restore t tk ro t' ok tr)
  then show ?case using restore_sound [of e t tk ro] by (auto split: if_splits intro: wf_tree_mono [of 0])
next
  case (step_replace t a b)
  then show ?case by (intro replace_wf)
next
  case (step_swap t a b)
  then show ?case using swap_wf by blast
next
  case (step_insert t k tg sz)
  then show ?case using insertImpl_wf [of e t k tg sz False] insertImpl_rejected [of t k tg sz False]
    unfolding insert_op_def by (cases "snd (insertImpl t k tg sz False)") (auto intro: wf_tree_mono [of 0])
next
  case (step_move t k tg t' ok)
  show ?case
  proof (cases tg)
    case (EdgeTarget et)
    with step_move move_edge_sound [of e t k et] show ?thesis by auto
  next
    case (SwapTarget l)
    with step_move have "t' = fst (swap t k l)" by (simp add: move_def)
    with step_move swap_wf [of e t k l] show ?thesis by simp
  qed
next
  case (step_resize opts t sp b dx r)
  then show ?case using resize_sound [of e t opts sp b dx r] by simp
qed

definition seed :: "lath_tree \<Rightarrow> bool" where
  "seed t = (\<exists>i. t = leafTree i)"

interpretation lath: step_system seed lath_step "wf_tree 0"
proof unfold_locales
  show "wf_tree 0 t" if "seed t" for t
    using that by (auto simp: seed_def leafTree_def wf_tree_def)
  show "wf_tree 0 t'" if "lath_step t t'" "wf_tree 0 t" for t t'
    using lath_step_wf [OF that(1) _ that(2)] by simp
qed

section \<open>Equality up to weights\<close>

fun same_structure :: "lath_node \<Rightarrow> lath_node \<Rightarrow> bool" where
  "same_structure (Leaf i) (Leaf j) = (i = j)"
| "same_structure (Split d cs) (Split d' cs') =
     (d = d' \<and> list_all2 (\<lambda>c c'. same_structure (fst c) (fst c')) cs cs')"
| "same_structure _ _ = False"

lemma strip_same_structure: "strip a = strip b \<longleftrightarrow> same_structure a b"
proof (induction a arbitrary: b rule: lath_node_induct)
  case (Leaf i)
  then show ?case by (cases b) auto
next
  case (Split d cs)
  show ?case
  proof (cases b)
    case (Leaf j)
    then show ?thesis by simp
  next
    case (Split d' cs')
    have "map (\<lambda>c. strip (fst c)) cs = map (\<lambda>c. strip (fst c)) cs' \<longleftrightarrow>
          list_all2 (\<lambda>c c'. same_structure (fst c) (fst c')) cs cs'"
      using Split.IH by (auto simp: list_all2_conv_all_nth list_eq_iff_nth_eq) (metis nth_mem prod.collapse)+
    with Split show ?thesis by simp
  qed
qed

section \<open>Properties\<close>

text \<open>C2: every tree the engine can reach from a single pane satisfies the tree laws exactly:
  at least two children to a split, no split directly inside one of its own direction, positive
  weights that sum to one, unique leaf ids.\<close>

theorem reachable_tree_valid: "lath_step\<^sup>*\<^sup>* (leafTree i) t \<Longrightarrow> wf_tree 0 t"
  using lath.reachable_inv [of "leafTree i" t] by (auto simp: seed_def)

theorem reachable_tree_valid_witness: "wf_tree 0 (fst (split (leafTree ''a'') ''a'' ERight ''b''))"
  by (rule reachable_tree_valid [of "''a''"]) (intro r_into_rtranclp lath_step.step_split)

text \<open>\<open>split\<close> succeeds exactly when the reference leaf is there and the new id is not; then the
  tree is valid and the new leaf stands next to the reference, on the side the edge names, with
  all other leaves as they were. A rejected split answers the tree it was given.\<close>

theorem split_correct:
  assumes "wf_tree e t"
  shows "(if a \<in> set (leaves t) \<and> k \<notin> set (leaves t)
          then snd (split t a ed k) \<and> wf_tree 0 (fst (split t a ed k)) \<and>
               (\<exists>xs ys. leaves t = xs @ [a] @ ys \<and>
                  leaves (fst (split t a ed k)) = xs @ (if edgeIsBefore ed then [k, a] else [a, k]) @ ys)
          else split t a ed k = (t, False))"
proof (cases "snd (split t a ed k)")
  case True
  with split_sound [OF assms True] split_inserted [OF assms True] show ?thesis
    unfolding split_ok_iff by (fastforce simp: beside_def)
next
  case False
  then show ?thesis using split_rejected [OF False] unfolding split_ok_iff by (metis prod.collapse split_ok_iff)
qed

theorem split_correct_witness: "snd (split trio ''b'' ETop ''d'') \<and> wf_tree 0 (fst (split trio ''b'' ETop ''d''))"
  using split_correct [of 0 trio "''b''" "''d''" ETop] by simp

text \<open>\<open>remove\<close> never throws on a valid tree. Removing a present leaf gives a valid tree with the
  other leaves in their order, and a token that names the leaf; an absent one changes nothing.\<close>

theorem remove_correct:
  assumes "wf_tree e t"
  shows "(if k \<in> set (leaves t)
          then \<exists>t' tk. remove t k = Some (t', True, Some tk) \<and> leafId tk = k \<and> wf_tree 0 t' \<and>
                 leaves t' = filter (\<lambda>l. l \<noteq> k) (leaves t)
          else remove t k = Some (t, False, None))"
proof (cases "k \<in> set (leaves t)")
  case True
  from remove_sound [OF assms True] obtain t' tk where rm: "remove t k = Some (t', True, Some tk)" "wf_tree 0 t'"
    "leaf_inserted k (leaves t') (leaves t)" "leafId tk = k" by blast
  have "k \<notin> set (leaves t')" using distinct_wf [OF assms] rm(3) by (simp add: leaf_inserted_distinct)
  then have "leaves t' = filter (\<lambda>l. l \<noteq> k) (leaves t)"
    by (subst leaf_inserted_filter [OF rm(3)]) (auto intro: filter_True [symmetric])
  with rm True show ?thesis by auto
qed (simp add: remove_absent)

theorem remove_correct_witness:
  "\<exists>t' tk. remove trio ''b'' = Some (t', True, Some tk) \<and> leaves t' = [''a'', ''c'']"
  using remove_correct [of 0 trio "''b''"] by auto

text \<open>C9: a leaf removed from a split of three or more children comes back exactly: \<open>restore\<close> with the
  token of the removal gives the tree as it was, weights included, by the exact tier.\<close>

theorem remove_restore_exact:
  assumes "wf_tree 0 t" and "findLeafPath t k = Some p" and "p \<noteq> []"
    and "nodeAtPath t (butlast p) = Some (Split d cs)" and "3 \<le> length cs"
  shows "\<exists>t' tk. remove t k = Some (t', True, Some tk) \<and> restore t' tk ro = (t, True, Some Exact)"
  by (rule remove_restore [OF assms])

theorem remove_restore_exact_witness:
  "\<exists>t' tk. remove trio ''b'' = Some (t', True, Some tk) \<and>
     restore t' tk \<lparr>fallbackRef = None, fallbackRect = None, fallbackLayout = None\<rparr> = (trio, True, Some Exact)"
proof (rule remove_restore_exact)
  show "wf_tree 0 trio" by simp
  show "findLeafPath trio ''b'' = Some [1]" by (simp add: trio_def findLeafPath_def)
  show "nodeAtPath trio (butlast [1]) = Some (Split Row [(Leaf ''a'', 1 / 2), (Leaf ''b'', 1 / 4), (Leaf ''c'', 1 / 4)])"
    by (simp add: trio_def nodeAtPath_def)
qed simp_all

text \<open>\<open>restore\<close> puts the token's leaf into a valid tree beside leaves that keep their order, or
  answers the tree it was given and no tier.\<close>

theorem restore_correct:
  assumes "wf_tree e t" and "restore t tk ro = (t', ok, tr)"
  shows "if ok then wf_tree 0 t' \<and> tr \<noteq> None \<and> leafId tk \<notin> set (leaves t) \<and>
                (\<exists>xs ys. leaves t = xs @ ys \<and> leaves t' = xs @ leafId tk # ys)
         else t' = t \<and> tr = None"
proof (cases ok)
  case True
  with restore_sound [OF assms(1), of tk ro] assms(2) have "wf_tree 0 t'" "leaf_inserted (leafId tk) (leaves t) (leaves t')" "tr \<noteq> None"
    by auto
  moreover from this have "leafId tk \<notin> set (leaves t)"
    using distinct_wf leaf_inserted_distinct by metis
  ultimately show ?thesis using True by (simp add: leaf_inserted_def)
next
  case False
  with restore_sound [OF assms(1), of tk ro] assms(2) show ?thesis by auto
qed

theorem restore_correct_witness:
  "wf_tree 0 (fst (restore trio
     \<lparr>leafId = ''z'', tweight = JFin (1 / 3), siblingId = Some ''b'', siblingLeafIds = None, siblingFingerprint = None,
       edge_of = ERight, index = JFin 0, fingerprint = None\<rparr>
     \<lparr>fallbackRef = None, fallbackRect = None, fallbackLayout = None\<rparr>))"
proof -
  let ?tk = "\<lparr>leafId = ''z'', tweight = JFin (1 / 3), siblingId = Some ''b'', siblingLeafIds = None, siblingFingerprint = None,
       edge_of = ERight, index = JFin 0, fingerprint = None\<rparr>"
  let ?ro = "\<lparr>fallbackRef = None, fallbackRect = None, fallbackLayout = None\<rparr>"
  obtain t' ok tr where r: "restore trio ?tk ?ro = (t', ok, tr)" by (metis prod.collapse)
  have "wf_tree 0 trio" by simp
  from restore_correct [OF this r] r show ?thesis by (cases ok) auto
qed

text \<open>\<open>swap\<close> exchanges two leaf names and nothing else: the tree keeps its splits and weights,
  it stays valid, and swapping again gives the tree back.\<close>

theorem swap_correct:
  assumes "wf_tree e t" and "root t = Some n" and "a \<noteq> b" and "a \<in> set (leaves t)" and "b \<in> set (leaves t)"
  shows "swap t a b = (\<lparr>root = Some (relabel (swap_ids a b) n)\<rparr>, True) \<and>
         wf_tree e (fst (swap t a b)) \<and> swap (fst (swap t a b)) a b = (t, True)"
proof (intro conjI)
  show sw: "swap t a b = (\<lparr>root = Some (relabel (swap_ids a b) n)\<rparr>, True)" by (rule swap_eq [OF assms])
  show wf: "wf_tree e (fst (swap t a b))" using swap_wf [OF assms(1)] by blast
  have mem: "a \<in> set (leaves (fst (swap t a b)))" "b \<in> set (leaves (fst (swap t a b)))"
    using swap_wf [OF assms(1), of a b] assms(4,5) by auto
  have "root (fst (swap t a b)) = Some (relabel (swap_ids a b) n)" by (simp add: sw)
  from swap_eq [OF wf this assms(3) mem]
  have "swap (fst (swap t a b)) a b = (\<lparr>root = Some (relabel (swap_ids a b \<circ> swap_ids a b) n)\<rparr>, True)"
    by (simp add: relabel_relabel)
  moreover have "relabel (swap_ids a b \<circ> swap_ids a b) n = n"
    using assms(3) by (intro relabel_same) (auto simp: swap_ids_def)
  ultimately show "swap (fst (swap t a b)) a b = (t, True)" using assms(2) by (cases t) simp
qed

theorem swap_correct_witness: "swap (fst (swap trio ''a'' ''c'')) ''a'' ''c'' = (trio, True)"
proof -
  obtain n where "root trio = Some n" by (simp add: trio_def)
  from swap_correct [OF trio_wf this, of "''a''" "''c''"] show ?thesis by auto
qed

text \<open>\<open>insert\<close> keeps the tree valid: it either rejects and answers the
  tree it was given, or puts the new leaf between leaves that keep their order.\<close>

theorem insert_correct:
  assumes "wf_tree e t"
  shows "if snd (insert_op t k tg sz)
         then k \<notin> set (leaves t) \<and> wf_tree 0 (fst (insert_op t k tg sz)) \<and>
              (\<exists>xs ys. leaves t = xs @ ys \<and> leaves (fst (insert_op t k tg sz)) = xs @ k # ys)
         else insert_op t k tg sz = (t, False)"
proof (cases "snd (insert_op t k tg sz)")
  case True
  then have s: "snd (insertImpl t k tg sz False)" by (simp add: insert_op_def)
  from insertImpl_wf [OF assms s] insertImpl_sound [OF assms s] True show ?thesis
    by (auto simp: insert_op_def leaf_inserted_def)
next
  case False
  then have "fst (insert_op t k tg sz) = t"
    using insertImpl_rejected [of t k tg sz False] by (simp add: insert_op_def)
  with False show ?thesis by (metis prod.collapse)
qed

theorem insert_correct_witness:
  "wf_tree 0 (fst (insert_op trio ''d'' (EdgeTarget \<lparr>tpath = [1], tedge = EBottom, trange = None\<rparr>) Half))"
  using insert_correct [of 0 trio "''d''" "EdgeTarget \<lparr>tpath = [1], tedge = EBottom, trange = None\<rparr>" Half]
  by (cases "snd (insert_op trio ''d'' (EdgeTarget \<lparr>tpath = [1], tedge = EBottom, trange = None\<rparr>) Half)") auto

text \<open>Moving a leaf to an edge never throws; the tree stays valid, no leaf is lost or made up and
  the others keep their order. A rejected move answers the tree it was given.\<close>

theorem move_correct:
  assumes "wf_tree e t" and "0 \<le> e"
  shows "\<exists>t' ok. move t k (EdgeTarget tg) = Some (t', ok) \<and> wf_tree e t' \<and> (\<not> ok \<longrightarrow> t' = t) \<and>
           set (leaves t') = set (leaves t) \<and>
           filter (\<lambda>l. l \<noteq> k) (leaves t') = filter (\<lambda>l. l \<noteq> k) (leaves t)"
  by (rule move_edge_sound [OF assms])

theorem move_correct_witness:
  "\<exists>t' ok. move trio ''a'' (EdgeTarget \<lparr>tpath = [2], tedge = EBottom, trange = None\<rparr>) = Some (t', ok) \<and> wf_tree 0 t'"
  using move_correct [of 0 trio "''a''" "\<lparr>tpath = [2], tedge = EBottom, trange = None\<rparr>"] by auto

text \<open>Dragging a sash keeps the tree valid and every leaf in its place.\<close>

theorem resize_correct:
  assumes "wf_tree e t" and "0 \<le> e" and "opts_ok opts"
  shows "wf_tree e (fst (resize t sp b dx r opts)) \<and> leaves (fst (resize t sp b dx r opts)) = leaves t"
  by (rule resize_sound [OF assms])

theorem resize_correct_witness:
  "leaves (fst (resize trio [] (JFin 0) (JFin 40) demo_rect demo_opts)) = [''a'', ''b'', ''c'']"
  using resize_correct [of 0 trio demo_opts "[]" "JFin 0" "JFin 40" demo_rect] by (simp add: opts_ok_def)

text \<open>\<open>normalize\<close> turns any tree of positive weights into a valid one with the same leaves, and
  leaves a valid tree exactly as it is.\<close>

theorem normalize_canonical:
  assumes "pos_node n"
  shows "\<exists>m. normalize_node n = Some m \<and> wf_node 0 None m \<and> leaves_walk m = leaves_walk n \<and> normalize_node m = Some m"
  using normalize_wf [OF assms] normalize_id by blast

theorem normalize_canonical_witness:
  "\<exists>m. normalize_node (Split Row [(Split Row [(Leaf ''a'', 3), (Leaf ''b'', 1)], 2), (Leaf ''c'', 5)]) = Some m
       \<and> leaves_walk m = [''a'', ''b'', ''c'']"
  using normalize_canonical [of "Split Row [(Split Row [(Leaf ''a'', 3), (Leaf ''b'', 1)], 2), (Leaf ''c'', 5)]"] by auto

text \<open>Two nodes have the same structure fingerprint exactly when they agree up to weights.\<close>

theorem fingerprint_structure: "structureFingerprint a = structureFingerprint b \<longleftrightarrow> same_structure a b"
  by (simp add: structureFingerprint_eq strip_same_structure)

end
