(* ===== verification/Lath_Hit_Test.thy ===== *)
theory Lath_Hit_Test
  imports Lath_Ops
begin

text \<open>
  Hit testing of a drag (\<open>lib/src/lib/lath/hit-test.ts\<close>): the pointer is turned into the one drop
  it would commit. The lemmas show that the test never throws on a valid tree, that the leaf
  under the pointer is the nearest one, and that every drop it offers is one that \<open>move\<close>,
  \<open>swap\<close> or \<open>insert\<close> carries out, with the preview where the layout puts the leaf: the layout and
  the insert commute with a change of leaf ids, so the placeholder stands for any leaf.
\<close>

section \<open>Data\<close>

record point =
  px :: rat
  py :: rat

record hover_info =
  hover_leaf :: leaf_id
  hover_rect :: rect
  bands :: "edge list"
  hover_line :: "edge option"

record scope =
  scope_target :: edge_target
  scope_start :: rat
  scope_end :: rat

record drop_candidate =
  cand_target :: drop_target
  previewRect :: rect
  scopeRect :: "rect option"
  scopeLeafCount :: nat
  canWiden :: bool
  swapRect :: "rect option"

record drop_hit =
  candidate :: "drop_candidate option"
  anchored :: bool

definition EXTERNAL_ID :: leaf_id where "EXTERNAL_ID = ''__lath_external_drop__''"
definition BAND_FRACTION :: rat where "BAND_FRACTION = 1 / 3"
definition LINE_PX :: rat where "LINE_PX = 8"
definition COINCIDE_EPS :: rat where "COINCIDE_EPS = 1 / 2"

section \<open>Geometry\<close>

fun edgeCoord :: "rect \<Rightarrow> edge \<Rightarrow> rat" where
  "edgeCoord r ELeft = rx r"
| "edgeCoord r ERight = rx r + width r"
| "edgeCoord r ETop = ry r"
| "edgeCoord r EBottom = ry r + height r"

definition spanAlong :: "rect \<Rightarrow> edge \<Rightarrow> rat \<times> rat" where
  "spanAlong r e = (if edgeAxis e = Col then (rx r, rx r + width r) else (ry r, ry r + height r))"

definition alongOf :: "point \<Rightarrow> edge \<Rightarrow> rat" where
  "alongOf p e = (if edgeAxis e = Col then px p else py p)"

text \<open>The square of the distance: the code only compares distances with each other and with 0,
  and \<open>Math.hypot\<close> is monotone in it.\<close>

definition distToRect :: "rect \<Rightarrow> rat \<Rightarrow> rat \<Rightarrow> rat" where
  "distToRect r x y =
     (let dx = max (max (rx r - x) 0) (x - (rx r + width r));
          dy = max (max (ry r - y) 0) (y - (ry r + height r))
      in dx * dx + dy * dy)"

section \<open>The hovered leaf\<close>

text \<open>The scan of \<open>hover\<close>: the best distance so far (\<open>None\<close> for \<open>Infinity\<close>) and its leaf; a leaf that
  holds the point ends the scan.\<close>

fun hover_scan :: "(leaf_id \<times> rect) list \<Rightarrow> point \<Rightarrow> (rat \<times> leaf_id \<times> rect) option \<Rightarrow> (rat \<times> leaf_id \<times> rect) option" where
  "hover_scan [] p best = best"
| "hover_scan ((k, r) # m) p best =
     (let d = distToRect r (px p) (py p) in
      if (case best of None \<Rightarrow> True | Some (b, _) \<Rightarrow> d < b)
      then (if d = 0 then Some (d, k, r) else hover_scan m p (Some (d, k, r)))
      else hover_scan m p best)"

fun edge_rank :: "edge \<Rightarrow> nat" where
  "edge_rank ELeft = 0"
| "edge_rank ERight = 1"
| "edge_rank ETop = 2"
| "edge_rank EBottom = 3"

definition hover_bands :: "rect \<Rightarrow> point \<Rightarrow> (edge \<times> rat) list" where
  "hover_bands r p =
     (let bandX = BAND_FRACTION * width r; bandY = BAND_FRACTION * height r;
          dl = px p - rx r; dr = rx r + width r - px p;
          dt = py p - ry r; db = ry r + height r - py p
      in sort_key (\<lambda>(e, d). (d, edge_rank e))
           ((if dl < bandX then [(ELeft, dl)] else []) @
            (if dr < bandX then [(ERight, dr)] else []) @
            (if dt < bandY then [(ETop, dt)] else []) @
            (if db < bandY then [(EBottom, db)] else [])))"

definition nearest_line :: "rect \<Rightarrow> (edge \<times> rat) list \<Rightarrow> edge option" where
  "nearest_line r bs = (case bs of
      [] \<Rightarrow> None
    | (e, d) # _ \<Rightarrow>
        (let band = (if e = ELeft \<or> e = ERight then BAND_FRACTION * width r else BAND_FRACTION * height r)
         in if d < (if e = ETop then 0 else min LINE_PX (band / 2)) then Some e else None))"

definition hover :: "(leaf_id \<times> rect) list \<Rightarrow> point \<Rightarrow> hover_info option" where
  "hover rects p = (case hover_scan rects p None of
      None \<Rightarrow> None
    | Some (_, k, r) \<Rightarrow>
        Some \<lparr>hover_leaf = k, hover_rect = r, bands = map fst (hover_bands r p),
              hover_line = nearest_line r (hover_bands r p)\<rparr>)"

section \<open>Scopes on a line\<close>

fun first_covering :: "(rat \<times> rat) list \<Rightarrow> rat \<Rightarrow> nat \<Rightarrow> nat option" where
  "first_covering [] lo i = None"
| "first_covering (s # ss) lo i = (if snd s \<ge> lo - COINCIDE_EPS then Some i else first_covering ss lo (Suc i))"

fun last_covering :: "(rat \<times> rat) list \<Rightarrow> rat \<Rightarrow> nat \<Rightarrow> nat" where
  "last_covering spans hi 0 = 0"
| "last_covering spans hi (Suc l) =
     (if fst (spans ! Suc l) > hi + COINCIDE_EPS then last_covering spans hi l else Suc l)"

definition range_scope :: "nat list \<Rightarrow> edge \<Rightarrow> (rat \<times> rat) list \<Rightarrow> rat \<Rightarrow> rat \<Rightarrow> scope list" where
  "range_scope path e spans lo hi = (case first_covering spans lo 0 of
      None \<Rightarrow> []
    | Some a \<Rightarrow>
        (let b = last_covering spans hi (length spans - 1) in
         if b > a \<and> b - a + 1 < length spans
         then [\<lparr>scope_target = \<lparr>tpath = path, tedge = e,
                  trange = Some (JFin (of_nat a), JFin (of_nat (b + 1)))\<rparr>,
                scope_start = fst (spans ! a), scope_end = snd (spans ! b)\<rparr>]
         else []))"

text \<open>All values of a list of results, or \<open>None\<close> when one of them is missing: destructuring the
  span of a child without a rectangle throws.\<close>

fun all_some :: "'a option list \<Rightarrow> 'a list option" where
  "all_some [] = Some []"
| "all_some (x # xs) = (case (x, all_some xs) of (Some y, Some ys) \<Rightarrow> Some (y # ys) | _ \<Rightarrow> None)"

definition ancestor_scopes :: "lath_tree \<Rightarrow> rect \<Rightarrow> layout_opts \<Rightarrow> rat \<Rightarrow> edge \<Rightarrow> rat \<Rightarrow> rat \<Rightarrow> nat list \<Rightarrow> scope list option" where
  "ancestor_scopes t r opts line e lo hi path = (case nodeRectAtPath t r opts path of
      None \<Rightarrow> Some []
    | Some ar \<Rightarrow>
        if abs (edgeCoord ar e - line) > COINCIDE_EPS then Some []
        else
          (let whole_scope = \<lparr>scope_target = \<lparr>tpath = path, tedge = e, trange = None\<rparr>,
                              scope_start = fst (spanAlong ar e), scope_end = snd (spanAlong ar e)\<rparr>
           in case nodeAtPath t path of
                Some (Split d cs) \<Rightarrow>
                  if d \<noteq> edgeAxis e then
                    (case all_some (map (\<lambda>i. nodeRectAtPath t r opts (path @ [i])) [0..<length cs]) of
                       None \<Rightarrow> None
                     | Some rs \<Rightarrow> Some (range_scope path e (map (\<lambda>q. spanAlong q e) rs) lo hi @ [whole_scope]))
                  else Some [whole_scope]
              | _ \<Rightarrow> Some [whole_scope]))"

definition scopesOnLine :: "lath_tree \<Rightarrow> rect \<Rightarrow> layout_opts \<Rightarrow> nat list \<Rightarrow> rect \<Rightarrow> edge \<Rightarrow> rat \<Rightarrow> rat \<Rightarrow> scope list option" where
  "scopesOnLine t r opts leafPath leafRect e lo hi =
     (let line = edgeCoord leafRect e;
          own = \<lparr>scope_target = \<lparr>tpath = leafPath, tedge = e, trange = None\<rparr>,
                 scope_start = fst (spanAlong leafRect e), scope_end = snd (spanAlong leafRect e)\<rparr>
      in map_option (\<lambda>parts. own # concat parts)
           (all_some (map (\<lambda>k. ancestor_scopes t r opts line e lo hi (take k leafPath)) (rev [0..<length leafPath]))))"

text \<open>The choice among the scopes: the first is kept until a clearly smaller one that spans the
  slide comes up.\<close>

fun pick_scope :: "scope list \<Rightarrow> rat \<Rightarrow> rat \<Rightarrow> scope option \<Rightarrow> scope option" where
  "pick_scope [] lo hi best = best"
| "pick_scope (s # ss) lo hi best =
     (if scope_start s > lo + COINCIDE_EPS \<or> scope_end s < hi - COINCIDE_EPS then pick_scope ss lo hi best
      else if (case best of None \<Rightarrow> True
               | Some b \<Rightarrow> scope_end s - scope_start s < scope_end b - scope_start b - COINCIDE_EPS)
        then pick_scope ss lo hi (Some s)
        else pick_scope ss lo hi best)"

section \<open>The drop under the pointer\<close>

text \<open>The placeholder id: underscores are added until no leaf has it.\<close>

lemma longest_id: "(k::string) \<in> set ks \<Longrightarrow> length k \<le> foldr max (map length ks) 0"
  by (induction ks) auto

function preview_id :: "leaf_id list \<Rightarrow> leaf_id \<Rightarrow> leaf_id" where
  "preview_id ks k = (if k \<in> set ks then preview_id ks (k @ ''_'') else k)"
  by pat_completeness auto
termination
  by (relation "measure (\<lambda>(ks, k). Suc (foldr max (map length ks) 0) - length k)")
     (auto dest: longest_id)

declare preview_id.simps [simp del]

text \<open>The size the commit would use: \<open>(dragged !== null && moveSize(...)) || 'half'\<close>, where the
  numbers 0 and \<open>NaN\<close> count as false.\<close>

definition preview_size :: "lath_tree \<Rightarrow> leaf_id option \<Rightarrow> edge_target \<Rightarrow> insert_size" where
  "preview_size t dragged tg = (case dragged of
      None \<Rightarrow> Half
    | Some d \<Rightarrow> (case moveSize t d tg of
        Some (Weight w) \<Rightarrow> if w = JFin 0 \<or> w = JNaN then Half else Weight w
      | _ \<Rightarrow> Half))"

text \<open>\<open>evaluate\<close>: \<open>None\<close> when it throws, \<open>Some None\<close> for a drop that is rejected or changes nothing.\<close>

definition evaluate :: "lath_tree \<Rightarrow> rect \<Rightarrow> layout_opts \<Rightarrow> leaf_id option \<Rightarrow> leaf_id \<Rightarrow> edge_target \<Rightarrow> rect option option" where
  "evaluate t r opts dragged previewId tg =
     (let place = (let (t', ok) = insert_op t previewId (EdgeTarget tg) (preview_size t dragged tg)
                   in if ok then map_of (layout t' r opts) previewId else None)
      in case dragged of
           None \<Rightarrow> Some place
         | Some d \<Rightarrow> (case move t d (EdgeTarget tg) of
             None \<Rightarrow> None
           | Some (t', ok) \<Rightarrow> if \<not> ok \<or> t' = t then Some None else Some place))"

definition miss :: drop_hit where
  "miss = \<lparr>candidate = None, anchored = False\<rparr>"

definition outside_wall :: "rect \<Rightarrow> point \<Rightarrow> bool" where
  "outside_wall r p =
     (px p < rx r - LINE_PX \<or> px p > rx r + width r + LINE_PX \<or>
      py p < ry r - LINE_PX \<or> py p > ry r + height r)"

definition clampTo :: "edge \<Rightarrow> rect \<Rightarrow> point \<Rightarrow> rat" where
  "clampTo e r p = min (max (alongOf p e) (fst (spanAlong r e))) (snd (spanAlong r e))"

text \<open>The edge a live slide keeps, with the leaf it started in.\<close>

definition slide :: "hover_info \<Rightarrow> hover_info option \<Rightarrow> (edge \<times> hover_info) option" where
  "slide here from = (case from of
      None \<Rightarrow> None
    | Some f \<Rightarrow> (case bands f of
        [] \<Rightarrow> None
      | e # _ \<Rightarrow>
          if e \<in> set (bands here) \<and> abs (edgeCoord (hover_rect here) e - edgeCoord (hover_rect f) e) \<le> COINCIDE_EPS
          then Some (e, f) else None))"

definition swap_hit :: "(leaf_id \<times> rect) list \<Rightarrow> hover_info \<Rightarrow> leaf_id option \<Rightarrow> drop_hit" where
  "swap_hit rects here dragged = (case dragged of
      None \<Rightarrow> miss
    | Some d \<Rightarrow> (case map_of rects d of
        None \<Rightarrow> miss
      | Some sr \<Rightarrow>
          if hover_leaf here = d then miss
          else \<lparr>candidate = Some \<lparr>cand_target = SwapTarget (hover_leaf here), previewRect = hover_rect here,
                 scopeRect = Some (hover_rect here), scopeLeafCount = 1, canWiden = False, swapRect = Some sr\<rparr>,
                anchored = False\<rparr>))"

text \<open>The drop beside the scope that was chosen.\<close>

definition edge_hit :: "lath_tree \<Rightarrow> rect \<Rightarrow> layout_opts \<Rightarrow> leaf_id option \<Rightarrow> leaf_id \<Rightarrow> scope list \<Rightarrow> scope \<Rightarrow> bool \<Rightarrow> drop_hit option" where
  "edge_hit t r opts dragged previewId scopes s anch =
     (case evaluate t r opts dragged previewId (scope_target s) of
        None \<Rightarrow> None
      | Some None \<Rightarrow> Some \<lparr>candidate = None, anchored = anch\<rparr>
      | Some (Some pr) \<Rightarrow> (case materializeTarget t (scope_target s) of
          None \<Rightarrow> None
        | Some (mt, mp) \<Rightarrow>
            (let scopeLeaves = (case nodeAtPath mt mp of None \<Rightarrow> [] | Some m \<Rightarrow> leaves_walk m) in
             Some \<lparr>candidate = Some \<lparr>cand_target = EdgeTarget (scope_target s), previewRect = pr,
                     scopeRect = targetRect t r opts (scope_target s),
                     scopeLeafCount = length (filter (\<lambda>k. Some k \<noteq> dragged) scopeLeaves),
                     canWiden = list_ex (\<lambda>q. scope_end q - scope_start q > scope_end s - scope_start s + COINCIDE_EPS) scopes,
                     swapRect = None\<rparr>,
                   anchored = anch\<rparr>)))"

text \<open>The part of \<open>hitTest\<close> below the choice of the edge: the slide's extent along the line, the
  scope that spans it, and the drop beside that scope.\<close>

definition edge_drop :: "lath_tree \<Rightarrow> rect \<Rightarrow> point \<Rightarrow> leaf_id option \<Rightarrow> layout_opts \<Rightarrow> point option \<Rightarrow> hover_info
    \<Rightarrow> nat list \<Rightarrow> leaf_id \<Rightarrow> (edge \<times> hover_info) option \<Rightarrow> edge \<Rightarrow> drop_hit option" where
  "edge_drop t r p dragged opts anchor here leafPath previewId sl e =
     (let here_at = clampTo e (hover_rect here) p;
          start = (case (sl, anchor) of (Some (_, f), Some a) \<Rightarrow> clampTo e (hover_rect f) a | _ \<Rightarrow> here_at);
          lo = min start here_at; hi = max start here_at
      in case scopesOnLine t r opts leafPath (hover_rect here) e lo hi of
           None \<Rightarrow> None
         | Some scopes \<Rightarrow>
             (case (if hover_line here = Some e then Some (last scopes) else pick_scope scopes lo hi None) of
                None \<Rightarrow> Some miss
              | Some s \<Rightarrow> edge_hit t r opts dragged previewId scopes s (sl \<noteq> None)))"

definition hitTest :: "lath_tree \<Rightarrow> rect \<Rightarrow> point \<Rightarrow> leaf_id option \<Rightarrow> layout_opts \<Rightarrow> point option \<Rightarrow> drop_hit option" where
  "hitTest t r p dragged opts anchor =
     (if root t = None \<or> outside_wall r p then Some miss
      else (let rects = layout t r opts in
        case hover rects p of
          None \<Rightarrow> Some miss
        | Some here \<Rightarrow> (case findLeafPath t (hover_leaf here) of
            None \<Rightarrow> Some miss
          | Some leafPath \<Rightarrow>
              (let previewId = preview_id (map fst rects) EXTERNAL_ID;
                   sl = slide here (case anchor of None \<Rightarrow> None | Some a \<Rightarrow> hover rects a);
                   edge = (case sl of Some (e, _) \<Rightarrow> Some e | None \<Rightarrow> (case bands here of [] \<Rightarrow> None | e # _ \<Rightarrow> Some e))
               in case edge of
                    None \<Rightarrow> Some (swap_hit rects here dragged)
                  | Some e \<Rightarrow> edge_drop t r p dragged opts anchor here leafPath previewId sl e))))"

section \<open>The hovered leaf is the nearest\<close>

lemma distToRect_nonneg: "0 \<le> distToRect r x y"
  by (simp add: distToRect_def Let_def)

lemma distToRect_zero:
  assumes "0 \<le> width r" "0 \<le> height r"
  shows "distToRect r x y = 0 \<longleftrightarrow> rx r \<le> x \<and> x \<le> rx r + width r \<and> ry r \<le> y \<and> y \<le> ry r + height r"
  by (auto simp: distToRect_def Let_def sum_squares_eq_zero_iff max_def)

text \<open>What the scan keeps: the best entry belongs to the list and no entry is nearer.\<close>

lemma hover_scan_nearest:
  assumes "hover_scan m p best = Some (d, k, r)"
    and "\<forall>d0 k0 r0. best = Some (d0, k0, r0) \<longrightarrow> d0 = distToRect r0 (px p) (py p)"
  shows "d = distToRect r (px p) (py p) \<and> ((k, r) \<in> set m \<or> best = Some (d, k, r)) \<and>
         (\<forall>(k', r') \<in> set m. d \<le> distToRect r' (px p) (py p)) \<and>
         (\<forall>d0 k0 r0. best = Some (d0, k0, r0) \<longrightarrow> d \<le> d0)"
  using assms
proof (induction m p best rule: hover_scan.induct)
  case (1 p best)
  then show ?case by auto
next
  case (2 k1 r1 m p best)
  let ?d = "distToRect r1 (px p) (py p)"
  let ?better = "case best of None \<Rightarrow> True | Some (b, _) \<Rightarrow> ?d < b"
  consider "?better" "?d = 0" | "?better" "?d \<noteq> 0" | "\<not> ?better" by blast
  then show ?case
  proof cases
    case 1
    from "2.prems"(1) have "Some (0, k1, r1) = Some (d, k, r)" using 1 by (cases best) (auto simp: Let_def)
    with 1 show ?thesis by (cases best) (auto simp: distToRect_nonneg)
  next
    case better: 2
    from "2.prems"(1) have "hover_scan m p (Some (?d, k1, r1)) = Some (d, k, r)"
      using better by (cases best) (auto simp: Let_def)
    from "2.IH"(1) [OF refl better this] better "2.prems"(2) show ?thesis by (cases best) auto
  next
    case 3
    then obtain b kb rb where b: "best = Some (b, kb, rb)" "b \<le> ?d"
      by (cases best) auto
    from "2.prems"(1) have "hover_scan m p best = Some (d, k, r)" using b by (simp add: Let_def)
    from "2.IH"(2) [OF refl 3 this "2.prems"(2)] b show ?thesis by auto
  qed
qed

lemma hover_scan_finds: "best \<noteq> None \<or> m \<noteq> [] \<Longrightarrow> hover_scan m p best \<noteq> None"
  by (induction m p best rule: hover_scan.induct) (auto simp: Let_def split: option.splits)

lemma hover_nearest:
  assumes "hover rects p = Some h"
  shows "(hover_leaf h, hover_rect h) \<in> set rects \<and>
         (\<forall>(k', r') \<in> set rects. distToRect (hover_rect h) (px p) (py p) \<le> distToRect r' (px p) (py p))"
proof -
  from assms obtain d where "hover_scan rects p None = Some (d, hover_leaf h, hover_rect h)"
    by (auto simp: hover_def split: option.splits)
  from hover_scan_nearest [OF this] show ?thesis by auto
qed

lemma preview_id_fresh: "preview_id ks k \<notin> set ks"
  by (induction ks k rule: preview_id.induct) (subst preview_id.simps, auto)

section \<open>No throw\<close>

lemma node_rect_None: "node_rect n r opts p = None \<longleftrightarrow> node_at n p = None"
  by (induction n r opts p rule: node_rect.induct) auto

lemma nodeRectAtPath_None: "nodeRectAtPath t r opts p = None \<longleftrightarrow> nodeAtPath t p = None"
  by (simp add: nodeRectAtPath_def nodeAtPath_def node_rect_None split: option.splits)

lemma node_at_child: "node_at n p = Some (Split d cs) \<Longrightarrow> i < length cs \<Longrightarrow> node_at n (p @ [i]) = Some (fst (cs ! i))"
  by (induction n p rule: node_at.induct) (auto split: if_splits)

lemma nodeAtPath_child: "nodeAtPath t p = Some (Split d cs) \<Longrightarrow> i < length cs \<Longrightarrow> nodeAtPath t (p @ [i]) \<noteq> None"
  by (auto simp: nodeAtPath_def node_at_child split: option.splits)

lemma all_some_defined: "(\<And>x. x \<in> set xs \<Longrightarrow> x \<noteq> None) \<Longrightarrow> \<exists>ys. all_some xs = Some ys"
proof (induction xs)
  case (Cons x xs)
  then obtain y ys where "x = Some y" "all_some xs = Some ys" by fastforce
  then show ?case by simp
qed simp

lemma ancestor_scopes_defined: "ancestor_scopes t r opts line e lo hi path \<noteq> None"
proof -
  have "\<exists>rs. all_some (map (\<lambda>i. nodeRectAtPath t r opts (path @ [i])) [0..<length cs]) = Some rs"
    if "nodeAtPath t path = Some (Split d cs)" for d cs
  proof (rule all_some_defined)
    fix x assume "x \<in> set (map (\<lambda>i. nodeRectAtPath t r opts (path @ [i])) [0..<length cs])"
    then obtain i where "i < length cs" "x = nodeRectAtPath t r opts (path @ [i])" by auto
    with nodeAtPath_child [OF that] show "x \<noteq> None" by (metis nodeRectAtPath_None)
  qed
  then show ?thesis by (fastforce simp: ancestor_scopes_def Let_def split: option.splits lath_node.splits)
qed

lemma scopesOnLine_defined: "\<exists>s ss. scopesOnLine t r opts p lr e lo hi = Some (s # ss)"
proof -
  have "\<exists>ys. all_some (map (\<lambda>k. ancestor_scopes t r opts (edgeCoord lr e) e lo hi (take k p)) (rev [0..<length p])) = Some ys"
    using ancestor_scopes_defined by (intro all_some_defined) auto
  then show ?thesis by (auto simp: scopesOnLine_def Let_def)
qed

lemma targetRect_defined: "materializeTarget t tg \<noteq> None \<Longrightarrow> targetRect t r opts tg \<noteq> None"
proof -
  assume m: "materializeTarget t tg \<noteq> None"
  then obtain n where n: "nodeAtPath t (tpath tg) = Some n"
    by (auto simp: materializeTarget_def split: option.splits)
  show ?thesis
  proof (cases "trange tg")
    case None
    with n show ?thesis by (simp add: targetRect_def nodeRectAtPath_None)
  next
    case (Some xy)
    obtain x y where xy: "trange tg = Some (x, y)" using Some by (cases xy) simp
    from m n xy obtain d cs a b where ab: "n = Split d cs" "js_integer x = Some a" "js_integer y = Some b"
        "0 \<le> a" "b \<le> int (length cs)" "2 \<le> b - a"
      by (fastforce simp: materializeTarget_def split: option.splits lath_node.splits if_splits)
    then have "nodeRectAtPath t r opts (tpath tg @ [nat a]) \<noteq> None" "nodeRectAtPath t r opts (tpath tg @ [nat (b - 1)]) \<noteq> None"
      using nodeAtPath_child [of t "tpath tg" d cs] n by (auto simp: nodeRectAtPath_None)
    with xy m ab show ?thesis by (auto simp: targetRect_def)
  qed
qed

lemma insertImpl_ok:
  "snd (insertImpl t k (EdgeTarget tg) sz keep) \<longleftrightarrow>
     size_weight sz \<noteq> None \<and> root t \<noteq> None \<and> k \<notin> set (leaves t) \<and> materializeTarget t tg \<noteq> None"
  by (auto simp: insertImpl_def reject_def Let_def findLeafPath_None [symmetric] split: option.splits)

section \<open>The layout and the insert do not look at leaf ids\<close>

abbreviation rename_children :: "(leaf_id \<Rightarrow> leaf_id) \<Rightarrow> lath_child list \<Rightarrow> lath_child list" where
  "rename_children f \<equiv> map (\<lambda>c. (relabel f (fst c), snd c))"

definition rename_tree :: "(leaf_id \<Rightarrow> leaf_id) \<Rightarrow> lath_tree \<Rightarrow> lath_tree" where
  "rename_tree f t = \<lparr>root = map_option (relabel f) (root t)\<rparr>"

lemma root_rename_tree [simp]: "root (rename_tree f t) = map_option (relabel f) (root t)"
  by (simp add: rename_tree_def)

lemma minSpan_relabel [simp]: "minSpan (relabel f n) ax opts = minSpan n ax opts"
proof (induction n rule: lath_node_induct)
  case (Split d cs)
  then have "map (\<lambda>c. minSpan (relabel f (fst c)) ax opts) cs = map (\<lambda>c. minSpan (fst c) ax opts) cs"
    by (intro map_cong) auto
  then show ?case by (simp add: comp_def del: map_eq_conv)
qed simp

lemma forEachChildRect_relabel [simp]:
  "forEachChildRect d (rename_children f cs) r opts = forEachChildRect d cs r opts"
  by (simp add: forEachChildRect_def allocateChildSpans_def child_fracs_def comp_def Let_def)

lemma layoutNode_relabel:
  "layoutNode (relabel f n) r opts = map (\<lambda>(k, q). (f k, q)) (layoutNode n r opts)"
  "layout_children (rename_children f cs) rs opts = map (\<lambda>(k, q). (f k, q)) (layout_children cs rs opts)"
  by (induction n r opts and cs rs opts rule: layoutNode_layout_children.induct) simp_all

lemma map_of_relabel:
  "inj_on f (Set.insert k (fst ` set m)) \<Longrightarrow> map_of (map (\<lambda>(k, q). (f k, q)) m) (f k) = map_of m k"
proof (induction m)
  case (Cons x m)
  then have "inj_on f (Set.insert k (fst ` set m))" by (auto intro: inj_on_subset)
  with Cons show ?case by (cases x) (auto simp: inj_on_def)
qed simp

lemma map_of_layout_relabel:
  assumes t: "wf_tree e t" and opts: "opts_ok opts" and inj: "inj_on f (Set.insert k (set (leaves t)))"
  shows "map_of (layout (rename_tree f t) r opts) (f k) = map_of (layout t r opts) k"
proof (cases "root t")
  case None
  then show ?thesis by (simp add: layout_def)
next
  case (Some n)
  with t have n: "wf_node e None n" "distinct (leaves_walk n)" by (auto simp: wf_tree_def)
  have "inj_on f (set (leaves_walk n))" using inj Some by (auto intro: inj_on_subset)
  with n have n': "pos_node (relabel f n)" "distinct (leaves_walk (relabel f n))"
    by (auto simp: distinct_map intro: wf_node_pos)
  have "layout (rename_tree f t) r opts = layoutNode (relabel f n) (nonnegativeRect r) opts"
    using Some n' opts by (intro layout_eq) simp_all
  moreover have l: "layout t r opts = layoutNode n (nonnegativeRect r) opts"
    using Some n opts by (intro layout_eq) (auto intro: wf_node_pos)
  moreover have "fst ` set (layout t r opts) = set (leaves t)"
    using layout_keys [OF t opts, of r] by (metis set_map)
  ultimately show ?thesis using inj map_of_relabel [of f k "layout t r opts"] by (simp add: layoutNode_relabel)
qed

lemma node_at_relabel: "node_at (relabel f n) p = map_option (relabel f) (node_at n p)"
  by (induction n p rule: node_at.induct) auto

lemma nodeAtPath_relabel: "nodeAtPath (rename_tree f t) p = map_option (relabel f) (nodeAtPath t p)"
  by (simp add: nodeAtPath_def node_at_relabel split: option.splits)

lemma replaceAtPath_relabel_both:
  "replaceAtPath (relabel f n) p (relabel f m) = relabel f (replaceAtPath n p m)"
  by (induction n p m rule: replaceAtPath.induct) (auto simp: map_update)

lemma weight_sum_relabel [simp]: "weight_sum (rename_children f cs) = weight_sum cs"
  by (induction cs) auto

lemma normalizeWeights_relabel: "normalizeWeights (rename_children f cs) = rename_children f (normalizeWeights cs)"
  by (simp add: normalizeWeights_def Let_def)

lemma collect_child_relabel:
  "collect_child d (map_option (relabel f) m) w = rename_children f (collect_child d m w)"
  by (induction d m w rule: collect_child.induct) auto

lemma build_split_relabel: "build_split d (rename_children f cs) = map_option (relabel f) (build_split d cs)"
  by (induction d cs rule: build_split.induct) (simp_all add: normalizeWeights_relabel [of f "_ # _ # _", simplified])

lemma normalize_relabel: "normalize_node (relabel f n) = map_option (relabel f) (normalize_node n)"
proof (induction n rule: lath_node_induct)
  case (Split d cs)
  have "map (\<lambda>c. collect_child d (normalize_node (relabel f (fst c))) (snd c)) cs =
        map (\<lambda>c. rename_children f (collect_child d (normalize_node (fst c)) (snd c))) cs"
    using Split by (intro map_cong) (auto simp: collect_child_relabel)
  then show ?case by (simp add: comp_def build_split_relabel [symmetric] map_concat del: map_eq_conv)
qed simp

lemma group_children_relabel:
  "group_children d (rename_children f cs) a b = relabel f (group_children d cs a b)"
  by (simp add: group_children_def Let_def drop_map take_map normalizeWeights_relabel)

lemma materializeTarget_relabel:
  "materializeTarget (rename_tree f t) tg = map_option (\<lambda>(mt, mp). (rename_tree f mt, mp)) (materializeTarget t tg)"
proof (cases "nodeAtPath t (tpath tg)")
  case None
  then show ?thesis by (simp add: materializeTarget_def nodeAtPath_relabel)
next
  case (Some node)
  then obtain n where n: "root t = Some n" by (auto simp: nodeAtPath_def split: option.splits)
  show ?thesis
  proof (cases "trange tg")
    case None
    with Some show ?thesis by (simp add: materializeTarget_def nodeAtPath_relabel)
  next
    case range: (Some xy)
    obtain x y where xy: "trange tg = Some (x, y)" using range by (cases xy) simp
    show ?thesis
    proof (cases node)
      case (Leaf i)
      with Some xy show ?thesis by (simp add: materializeTarget_def nodeAtPath_relabel)
    next
      case (Split d cs)
      have "replaceAtPath (relabel f n) (tpath tg) (group_children d (rename_children f cs) a b) =
          relabel f (replaceAtPath n (tpath tg) (group_children d cs a b))" for a b
        by (simp add: group_children_relabel replaceAtPath_relabel_both)
      moreover have "nodeAtPath (rename_tree f t) (tpath tg) = Some (Split d (rename_children f cs))"
        using Some Split by (simp add: nodeAtPath_relabel)
      moreover have "rename_tree f \<lparr>root = Some m\<rparr> = \<lparr>root = Some (relabel f m)\<rparr>" for m by (simp add: rename_tree_def)
      ultimately show ?thesis using Some xy n Split
        by (cases "js_integer x"; cases "js_integer y") (simp_all add: materializeTarget_def del: nodeAtPath_root)
    qed
  qed
qed

lemma insert_sibling_relabel:
  assumes "idx < length cs"
  shows "insert_sibling mode (rename_children f cs) idx before (relabel f l) w = rename_children f (insert_sibling mode cs idx before l w)"
proof -
  define ds where "ds = map (\<lambda>c. (fst c, snd c * (if mode = KeepSiblings then 1 - w else 1))) cs"
  have scaled: "map (\<lambda>c. (fst c, snd c * (if mode = KeepSiblings then 1 - w else 1))) (rename_children f cs) = rename_children f ds"
    by (simp add: ds_def)
  have ins: "insert_nth i (relabel f a, v) (rename_children f xs) = rename_children f (insert_nth i (a, v) xs)" for i a v xs
    by (simp add: insert_nth_def take_map drop_map)
  have upd: "(rename_children f ds)[idx := (relabel f a, v)] = rename_children f (ds[idx := (a, v)])" for a v
    by (simp add: map_update)
  have nth: "rename_children f ds ! idx = (relabel f (fst (ds ! idx)), snd (ds ! idx))"
    using assms by (simp add: ds_def)
  show ?thesis
    unfolding insert_sibling_def Let_def scaled ds_def [symmetric] nth by (simp add: upd ins)
qed

lemma insertBesideNode_relabel:
  assumes "nodeAtPath mt p \<noteq> None"
  shows "insertBesideNode (rename_tree f mt) p e (f k) w mode = rename_tree f (insertBesideNode mt p e k w mode)"
proof (cases "root mt")
  case None
  then show ?thesis by (simp add: insertBesideNode_def rename_tree_def)
next
  case (Some n)
  show ?thesis
  proof (cases "p = []")
    case True
    have b: "beside bf (Leaf (f k), w) (relabel f n, 1 - w) = rename_children f (beside bf (Leaf k, w) (n, 1 - w))" for bf
      by (simp add: beside_def)
    show ?thesis using Some True normalize_relabel [of f "Split (edgeAxis e) (beside (edgeIsBefore e) (Leaf k, w) (n, 1 - w))"]
      by (simp add: insertBesideNode_def Let_def rename_tree_def b)
  next
    case False
    obtain m where m: "node_at n p = Some m" using assms Some by (auto simp: nodeAtPath_def)
    have "node_at n (butlast p @ [last p]) = Some m" using False m by simp
    then obtain d cs where par: "node_at n (butlast p) = Some (Split d cs)" and idx: "last p < length cs"
      by (cases "node_at n (butlast p)") (auto simp: node_at_append elim!: node_at.elims split: if_splits)
    have nest: "normalize_node (replaceAtPath (relabel f n) p
          (Split ax (beside bf (Leaf (f k), w) (relabel f m, 1 - w)))) =
        map_option (relabel f) (normalize_node (replaceAtPath n p (Split ax (beside bf (Leaf k, w) (m, 1 - w)))))" for ax bf
      using replaceAtPath_relabel_both [of f n p "Split ax (beside bf (Leaf k, w) (m, 1 - w))"]
      by (simp add: normalize_relabel [symmetric] beside_def split: if_splits)
    have sib: "normalize_node (replaceAtPath (relabel f n) (butlast p)
          (Split ax (normalizeWeights (insert_sibling mode (rename_children f cs) (last p) bf (Leaf (f k)) w)))) =
        map_option (relabel f) (normalize_node (replaceAtPath n (butlast p)
          (Split ax (normalizeWeights (insert_sibling mode cs (last p) bf (Leaf k) w)))))" for ax bf
      using replaceAtPath_relabel_both [of f n "butlast p" "Split ax (normalizeWeights (insert_sibling mode cs (last p) bf (Leaf k) w))"]
        insert_sibling_relabel [OF idx, of mode f bf "Leaf k" w]
      by (simp add: normalize_relabel [symmetric] normalizeWeights_relabel)
    show ?thesis using Some False m par
      by (simp add: insertBesideNode_def Let_def nodeAtPath_relabel nodeAtPath_def node_at_relabel rename_tree_def nest sib)
  qed
qed

text \<open>Which new id is inserted makes no difference to where it lands.\<close>

lemma insert_op_any_leaf:
  assumes wf: "wf_tree e t" and opts: "opts_ok opts" and k: "k \<notin> set (leaves t)" and k0: "k0 \<notin> set (leaves t)"
    and ins: "insert_op t k0 (EdgeTarget tg) sz = (t', True)"
  shows "\<exists>t''. insert_op t k (EdgeTarget tg) sz = (t'', True) \<and>
     map_of (layout t'' r opts) k = map_of (layout t' r opts) k0"
proof -
  define f where "f = (\<lambda>x. if x = k0 then k else x)"
  obtain n where n: "root t = Some n"
    using ins by (auto simp: insert_op_def insertImpl_def reject_def split: option.splits if_splits)
  have t_same: "rename_tree f t = t"
  proof -
    have "relabel f n = n" using k0 n by (intro relabel_same) (auto simp: f_def)
    then show ?thesis using n by (cases t) (simp add: rename_tree_def)
  qed
  obtain w mt mp where w: "size_weight sz = Some w" and m: "materializeTarget t tg = Some (mt, mp)"
    using ins by (auto simp: insert_op_def insertImpl_def reject_def split: option.splits if_splits)
  have mt_same: "rename_tree f mt = mt" using materializeTarget_relabel [of f t tg] m by (simp add: t_same)
  from materialize_sound [OF m n] wf_treeD [OF wf n] have at: "nodeAtPath mt mp \<noteq> None"
    by (auto simp: nodeAtPath_def)
  have fk0: "f k0 = k" by (simp add: f_def)
  have other: "insert_op t k (EdgeTarget tg) sz = (rename_tree f t', True)"
    using insertBesideNode_relabel [OF at, of f "tedge tg" k0 w] ins w m n k k0
    by (auto simp: insert_op_def insertImpl_def Let_def reject_def mt_same fk0 findLeafPath_None split: if_splits)
  have t': "wf_tree 0 t'" "set (leaves t') = Set.insert k0 (set (leaves t))"
    using insertImpl_wf [OF wf, of k0 "EdgeTarget tg" sz False] ins
    by (auto simp: insert_op_def dest: leaf_inserted_set)
  have "inj_on f (Set.insert k0 (set (leaves t')))" using k t'(2) by (auto simp: inj_on_def f_def)
  from map_of_layout_relabel [OF t'(1) opts this, of r] other show ?thesis by (simp add: fk0)
qed

lemma swap_layout:
  assumes wf: "wf_tree e t" and opts: "opts_ok opts" and ab: "a \<noteq> b" "a \<in> set (leaves t)" "b \<in> set (leaves t)"
  shows "\<exists>t'. swap t a b = (t', True) \<and> map_of (layout t' r opts) a = map_of (layout t r opts) b \<and>
     map_of (layout t' r opts) b = map_of (layout t r opts) a"
proof -
  obtain n where n: "root t = Some n" using ab(2) by (cases "root t") (auto simp: leaves_def)
  have inj: "inj_on (swap_ids a b) A" for A by (auto simp: inj_on_def swap_ids_def split: if_splits)
  from map_of_layout_relabel [OF wf opts inj, of r a] map_of_layout_relabel [OF wf opts inj, of r b]
  show ?thesis using swap_eq [OF wf n ab] n ab(1) by (auto simp: rename_tree_def swap_ids_def)
qed

text \<open>The drops a hit may offer. A swap names another leaf and succeeds, and afterwards the two have the
  rectangles shown. A drop beside a scope shows the rectangle that any new leaf gets when it is inserted there
  with the size the commit uses; for a leaf dragged in from outside that insert is the commit (\<open>Half\<close>), for one
  of the wall the commit is the move, which succeeds and changes the tree.\<close>

definition drop_sound :: "lath_tree \<Rightarrow> rect \<Rightarrow> layout_opts \<Rightarrow> leaf_id option \<Rightarrow> drop_candidate \<Rightarrow> bool" where
  "drop_sound t r opts dragged c = (case cand_target c of
      SwapTarget l \<Rightarrow> (\<exists>d t'. dragged = Some d \<and> d \<noteq> l \<and> swap t d l = (t', True) \<and>
         map_of (layout t' r opts) d = Some (previewRect c) \<and>
         map_of (layout t' r opts) l = swapRect c \<and> swapRect c \<noteq> None)
    | EdgeTarget tg \<Rightarrow>
        (\<forall>k. k \<notin> set (leaves t) \<longrightarrow>
           (\<exists>t'. insert_op t k (EdgeTarget tg) (preview_size t dragged tg) = (t', True) \<and>
              map_of (layout t' r opts) k = Some (previewRect c))) \<and>
        (case dragged of
           None \<Rightarrow> preview_size t dragged tg = Half
         | Some d \<Rightarrow> (\<exists>t'. move t d (EdgeTarget tg) = Some (t', True) \<and> t' \<noteq> t)) \<and>
        scopeRect c \<noteq> None)"

lemma evaluate_sound:
  assumes "wf_tree e t" "0 \<le> e" "opts_ok opts"
  shows "evaluate t r opts dragged k tg \<noteq> None"
    and "evaluate t r opts dragged k tg = Some (Some pr) \<Longrightarrow>
      (case dragged of None \<Rightarrow> True | Some d \<Rightarrow> \<exists>t'. move t d (EdgeTarget tg) = Some (t', True) \<and> t' \<noteq> t) \<and>
      materializeTarget t tg \<noteq> None \<and>
      (\<forall>k. k \<notin> set (leaves t) \<longrightarrow> (\<exists>t'. insert_op t k (EdgeTarget tg) (preview_size t dragged tg) = (t', True) \<and>
        map_of (layout t' r opts) k = Some pr))"
proof -
  show "evaluate t r opts dragged k tg \<noteq> None"
  proof (cases dragged)
    case (Some d)
    from move_edge_sound [OF assms(1,2), of d tg] obtain t' ok where "move t d (EdgeTarget tg) = Some (t', ok)" by blast
    with Some show ?thesis by (simp add: evaluate_def Let_def)
  qed (simp add: evaluate_def Let_def)
  assume ev: "evaluate t r opts dragged k tg = Some (Some pr)"
  obtain t' ok where ins: "insert_op t k (EdgeTarget tg) (preview_size t dragged tg) = (t', ok)" by fastforce
  from ev ins have place: "ok" "map_of (layout t' r opts) k = Some pr"
    by (auto simp: evaluate_def Let_def split: option.splits if_splits)
  with ins have k: "k \<notin> set (leaves t)" "materializeTarget t tg \<noteq> None"
    using insertImpl_ok [of t k tg "preview_size t dragged tg" False] by (auto simp: insert_op_def)
  moreover have "case dragged of None \<Rightarrow> True | Some d \<Rightarrow> \<exists>t'. move t d (EdgeTarget tg) = Some (t', True) \<and> t' \<noteq> t"
    using ev by (auto simp: evaluate_def Let_def split: option.splits if_splits prod.splits)
  moreover have "\<exists>t''. insert_op t k' (EdgeTarget tg) (preview_size t dragged tg) = (t'', True) \<and>
      map_of (layout t'' r opts) k' = Some pr" if "k' \<notin> set (leaves t)" for k'
    using insert_op_any_leaf [OF assms(1,3) that k(1), of tg "preview_size t dragged tg" t' r] ins place by simp
  ultimately show "(case dragged of None \<Rightarrow> True | Some d \<Rightarrow> \<exists>t'. move t d (EdgeTarget tg) = Some (t', True) \<and> t' \<noteq> t) \<and>
      materializeTarget t tg \<noteq> None \<and>
      (\<forall>k. k \<notin> set (leaves t) \<longrightarrow> (\<exists>t'. insert_op t k (EdgeTarget tg) (preview_size t dragged tg) = (t', True) \<and>
        map_of (layout t' r opts) k = Some pr))"
    by blast
qed

lemma edge_hit_sound:
  assumes "wf_tree e t" "0 \<le> e" "opts_ok opts"
  shows "\<exists>h. edge_hit t r opts dragged k scopes s anch = Some h \<and>
             (\<forall>c. candidate h = Some c \<longrightarrow> drop_sound t r opts dragged c)"
proof (cases "evaluate t r opts dragged k (scope_target s)")
  case None
  with evaluate_sound(1) [OF assms] show ?thesis by blast
next
  case (Some res)
  show ?thesis
  proof (cases res)
    case None
    with Some show ?thesis by (simp add: edge_hit_def)
  next
    case pr: (Some pr)
    from evaluate_sound(2) [OF assms] Some pr
    have ev: "case dragged of None \<Rightarrow> True | Some d \<Rightarrow> \<exists>t'. move t d (EdgeTarget (scope_target s)) = Some (t', True) \<and> t' \<noteq> t"
      "materializeTarget t (scope_target s) \<noteq> None"
      "\<forall>k. k \<notin> set (leaves t) \<longrightarrow> (\<exists>t'. insert_op t k (EdgeTarget (scope_target s)) (preview_size t dragged (scope_target s)) = (t', True) \<and>
        map_of (layout t' r opts) k = Some pr)" by blast+
    obtain mt mp where m: "materializeTarget t (scope_target s) = Some (mt, mp)" using ev(2) by auto
    define c where "c = \<lparr>cand_target = EdgeTarget (scope_target s), previewRect = pr,
       scopeRect = targetRect t r opts (scope_target s),
       scopeLeafCount = length (filter (\<lambda>k. Some k \<noteq> dragged) (case nodeAtPath mt mp of None \<Rightarrow> [] | Some m \<Rightarrow> leaves_walk m)),
       canWiden = list_ex (\<lambda>q. scope_end q - scope_start q > scope_end s - scope_start s + COINCIDE_EPS) scopes,
       swapRect = None\<rparr>"
    have hit: "edge_hit t r opts dragged k scopes s anch = Some \<lparr>candidate = Some c, anchored = anch\<rparr>"
      using Some pr m by (simp add: edge_hit_def c_def Let_def)
    have "drop_sound t r opts dragged c"
      using ev(1,3) targetRect_defined [OF ev(2), of r opts] by (cases dragged) (simp_all add: drop_sound_def c_def preview_size_def)
    with hit show ?thesis by simp
  qed
qed

lemma swap_hit_sound:
  assumes "wf_tree e t" "opts_ok opts" "(hover_leaf h, hover_rect h) \<in> set (layout t r opts)"
    and "candidate (swap_hit (layout t r opts) h dragged) = Some c"
  shows "drop_sound t r opts dragged c"
proof -
  from assms(4) obtain d sr where d: "dragged = Some d" "map_of (layout t r opts) d = Some sr" "hover_leaf h \<noteq> d"
    by (auto simp: swap_hit_def miss_def split: option.splits if_splits)
  have keys: "map fst (layout t r opts) = leaves t" by (rule layout_keys [OF assms(1,2)])
  then have dist: "distinct (map fst (layout t r opts))" using distinct_wf [OF assms(1)] by simp
  have "hover_leaf h \<in> set (leaves t)" "d \<in> set (leaves t)"
    using assms(3) map_of_SomeD [OF d(2)] keys by (metis fst_conv image_eqI set_map)+
  from swap_layout [OF assms(1,2) d(3) [symmetric] this(2,1), of r] d dist assms(3,4) show ?thesis
    by (auto simp: swap_hit_def drop_sound_def)
qed

lemma edge_drop_sound:
  assumes "wf_tree e t" "0 \<le> e" "opts_ok opts"
  shows "\<exists>h. edge_drop t r p dragged opts anchor here lp k sl ed = Some h \<and>
             (\<forall>c. candidate h = Some c \<longrightarrow> drop_sound t r opts dragged c)"
proof -
  define here_at where "here_at = clampTo ed (hover_rect here) p"
  define start where "start = (case (sl, anchor) of (Some (_, f), Some a) \<Rightarrow> clampTo ed (hover_rect f) a | _ \<Rightarrow> here_at)"
  define lo hi where "lo = min start here_at" and "hi = max start here_at"
  obtain s ss where sc: "scopesOnLine t r opts lp (hover_rect here) ed lo hi = Some (s # ss)"
    using scopesOnLine_defined by blast
  have eq: "edge_drop t r p dragged opts anchor here lp k sl ed =
      (case scopesOnLine t r opts lp (hover_rect here) ed lo hi of None \<Rightarrow> None | Some scopes \<Rightarrow>
        (case (if hover_line here = Some ed then Some (last scopes) else pick_scope scopes lo hi None) of
           None \<Rightarrow> Some miss
         | Some q \<Rightarrow> edge_hit t r opts dragged k scopes q (sl \<noteq> None)))"
    unfolding edge_drop_def Let_def here_at_def [symmetric] start_def [symmetric] lo_def [symmetric] hi_def [symmetric] ..
  show ?thesis
  proof (cases "if hover_line here = Some ed then Some (last (s # ss)) else pick_scope (s # ss) lo hi None")
    case None
    then show ?thesis unfolding eq sc option.case by (simp only: option.case) (simp add: miss_def)
  next
    case (Some q)
    from edge_hit_sound [OF assms, of r dragged k "s # ss" q "sl \<noteq> None"]
    show ?thesis unfolding eq sc option.case Some .
  qed
qed

lemma hitTest_sound:
  assumes "wf_tree e t" "0 \<le> e" "opts_ok opts"
  shows "\<exists>h. hitTest t r p dragged opts anchor = Some h \<and>
             (\<forall>c. candidate h = Some c \<longrightarrow> drop_sound t r opts dragged c)"
proof (cases "root t = None \<or> outside_wall r p \<or> hover (layout t r opts) p = None")
  case True
  then show ?thesis by (auto simp: hitTest_def miss_def Let_def)
next
  case False
  then obtain here where here: "root t \<noteq> None" "\<not> outside_wall r p" "hover (layout t r opts) p = Some here" by auto
  let ?sl = "slide here (case anchor of None \<Rightarrow> None | Some a \<Rightarrow> hover (layout t r opts) a)"
  show ?thesis
  proof (cases "findLeafPath t (hover_leaf here)")
    case None
    with here show ?thesis by (simp add: hitTest_def miss_def Let_def)
  next
    case (Some lp)
    have hov: "(hover_leaf here, hover_rect here) \<in> set (layout t r opts)" using hover_nearest [OF here(3)] by blast
    show ?thesis
    proof (cases "case ?sl of Some (e, _) \<Rightarrow> Some e | None \<Rightarrow> (case bands here of [] \<Rightarrow> None | e # _ \<Rightarrow> Some e)")
      case None
      with here Some swap_hit_sound [OF assms(1,3) hov, of dragged] show ?thesis
        by (auto simp: hitTest_def Let_def)
    next
      case edge: (Some ed)
      with here Some have "hitTest t r p dragged opts anchor =
          edge_drop t r p dragged opts anchor here lp (preview_id (map fst (layout t r opts)) EXTERNAL_ID) ?sl ed"
        by (auto simp: hitTest_def Let_def)
      then show ?thesis using edge_drop_sound [OF assms] by simp
    qed
  qed
qed

section \<open>Properties of hit testing\<close>

text \<open>C27: hit testing never throws on a valid tree, and every drop it offers is real. A swap is with
  another leaf and succeeds, and in the layout after it the two leaves have the rectangles that were shown. A
  drop beside a scope shows where the drop lands in the current layout, before the dragged pane's slot closes:
  the rectangle of any new leaf inserted there with the size the commit uses. For a leaf from outside that
  insert is the commit; for a leaf of the wall the commit is the move, which succeeds and changes the tree
  (after it the slot that closes may widen the others).\<close>

theorem hitTest_offers_real_drops:
  assumes "wf_tree e t" and "0 \<le> e" and "opts_ok opts"
  shows "\<exists>h. hitTest t r p dragged opts anchor = Some h \<and>
             (\<forall>c. candidate h = Some c \<longrightarrow> drop_sound t r opts dragged c)"
  by (rule hitTest_sound [OF assms])

definition duo :: lath_tree where
  "duo = \<lparr>root = Some demo_node\<rparr>"

lemma demo_swap_hit:
  "hitTest duo demo_rect \<lparr>px = 750, py = 100\<rparr> (Some ''a'') demo_opts None =
     Some \<lparr>candidate = Some \<lparr>cand_target = SwapTarget ''b'',
             previewRect = \<lparr>rx = 503, ry = 0, width = 497, height = 198\<rparr>,
             scopeRect = Some \<lparr>rx = 503, ry = 0, width = 497, height = 198\<rparr>, scopeLeafCount = 1, canWiden = False,
             swapRect = Some \<lparr>rx = 0, ry = 0, width = 497, height = 600\<rparr>\<rparr>, anchored = False\<rparr>"
proof -
  have out: "\<not> outside_wall demo_rect \<lparr>px = 750, py = 100\<rparr>"
    by (simp add: outside_wall_def demo_rect_def LINE_PX_def)
  have hov: "hover (layout duo demo_rect demo_opts) \<lparr>px = 750, py = 100\<rparr> =
      Some \<lparr>hover_leaf = ''b'', hover_rect = \<lparr>rx = 503, ry = 0, width = 497, height = 198\<rparr>, bands = [], hover_line = None\<rparr>"
    by (simp add: duo_def demo_layout hover_def distToRect_def hover_bands_def BAND_FRACTION_def nearest_line_def Let_def)
  have path: "findLeafPath duo ''b'' = Some [1, 0]" by (simp add: duo_def findLeafPath_def demo_node_def)
  have root: "root duo = Some demo_node" by (simp add: duo_def)
  have swp: "swap_hit (layout duo demo_rect demo_opts) h (Some ''a'') =
      (if hover_leaf h = ''a'' then miss
       else \<lparr>candidate = Some \<lparr>cand_target = SwapTarget (hover_leaf h), previewRect = hover_rect h,
               scopeRect = Some (hover_rect h), scopeLeafCount = 1, canWiden = False,
               swapRect = Some \<lparr>rx = 0, ry = 0, width = 497, height = 600\<rparr>\<rparr>, anchored = False\<rparr>)" for h
    by (simp add: swap_hit_def duo_def demo_layout)
  show ?thesis using out root by (simp add: hitTest_def Let_def hov path slide_def swp)
qed

lemma demo_insert:
  "insert_op duo k (EdgeTarget \<lparr>tpath = [0], tedge = ELeft, trange = None\<rparr>) Half =
     (if k \<in> {''a'', ''b'', ''c''} then (duo, False)
      else (\<lparr>root = Some (Split Row [(Leaf k, 1 / 4), (Leaf ''a'', 1 / 4),
              (Split Col [(Leaf ''b'', 1 / 3), (Leaf ''c'', 2 / 3)], 1 / 2)])\<rparr>, True))"
  by (auto simp: insert_op_def insertImpl_def duo_def demo_node_def size_weight_def findLeafPath_def materializeTarget_def
      nodeAtPath_def reject_def insertBesideNode_def insert_sibling_def insert_nth_def edgeIsBefore_def
      normalizeWeights_def Let_def)

lemma demo_insert_spans:
  "allocateChildSpans [(Leaf k, 1 / 4), (Leaf ''a'', 1 / 4),
     (Split Col [(Leaf ''b'', 1 / 3), (Leaf ''c'', 2 / 3)], 1 / 2)] 1000 demo_opts Row = [247, 247, 494]"
  by (simp add: allocateChildSpans_def available_span_def child_fracs_def
      waterfill.simps active_count_def active_weight_def share_def pins_def cumulativeRound_def js_round_def Let_def)

lemma demo_edge_hit:
  "hitTest duo demo_rect \<lparr>px = 10, py = 30\<rparr> None demo_opts None =
     Some \<lparr>candidate = Some \<lparr>cand_target = EdgeTarget \<lparr>tpath = [0], tedge = ELeft, trange = None\<rparr>,
             previewRect = \<lparr>rx = 0, ry = 0, width = 247, height = 600\<rparr>,
             scopeRect = Some \<lparr>rx = 0, ry = 0, width = 497, height = 600\<rparr>, scopeLeafCount = 1, canWiden = False,
             swapRect = None\<rparr>, anchored = False\<rparr>"
proof -
  let ?a = "\<lparr>rx = 0, ry = 0, width = 497, height = 600\<rparr>"
  have root: "root duo = Some demo_node" by (simp add: duo_def)
  have out: "\<not> outside_wall demo_rect \<lparr>px = 10, py = 30\<rparr>"
    by (simp add: outside_wall_def demo_rect_def LINE_PX_def)
  have hov: "hover (layout duo demo_rect demo_opts) \<lparr>px = 10, py = 30\<rparr> =
      Some \<lparr>hover_leaf = ''a'', hover_rect = ?a, bands = [ELeft, ETop], hover_line = None\<rparr>"
    by (simp add: duo_def demo_layout hover_def distToRect_def hover_bands_def BAND_FRACTION_def nearest_line_def LINE_PX_def Let_def)
  have path: "findLeafPath duo ''a'' = Some [0]" by (simp add: duo_def findLeafPath_def demo_node_def)
  have keys: "preview_id (map fst (layout duo demo_rect demo_opts)) EXTERNAL_ID = EXTERNAL_ID"
    by (simp add: duo_def demo_layout preview_id.simps EXTERNAL_ID_def)
  have wall: "nodeRectAtPath duo demo_rect demo_opts [] = Some demo_rect"
    by (simp add: nodeRectAtPath_def duo_def nonnegativeRect_def demo_rect_def)
  have leafr: "nodeRectAtPath duo demo_rect demo_opts [0] = Some ?a"
    by (simp add: nodeRectAtPath_def duo_def nonnegativeRect_def demo_rect_def demo_node_def forEachChildRect_def demo_spans)
  have scopes: "scopesOnLine duo demo_rect demo_opts [0] ?a ELeft 30 30 =
      Some [\<lparr>scope_target = \<lparr>tpath = [0], tedge = ELeft, trange = None\<rparr>, scope_start = 0, scope_end = 600\<rparr>,
            \<lparr>scope_target = \<lparr>tpath = [], tedge = ELeft, trange = None\<rparr>, scope_start = 0, scope_end = 600\<rparr>]"
  proof -
    have dr: "rx demo_rect = 0" "ry demo_rect = 0" "width demo_rect = 1000" "height demo_rect = 600" by (simp_all add: demo_rect_def)
    have "nodeAtPath duo [] = Some (Split Row [(Leaf ''a'', 1 / 2), (Split Col [(Leaf ''b'', 1 / 3), (Leaf ''c'', 2 / 3)], 1 / 2)])"
      by (simp add: duo_def demo_node_def)
    then have "ancestor_scopes duo demo_rect demo_opts 0 ELeft 30 30 [] =
        Some [\<lparr>scope_target = \<lparr>tpath = [], tedge = ELeft, trange = None\<rparr>, scope_start = 0, scope_end = 600\<rparr>]"
      by (simp add: ancestor_scopes_def wall spanAlong_def dr COINCIDE_EPS_def Let_def)
    then show ?thesis by (simp add: scopesOnLine_def spanAlong_def)
  qed
  have place: "evaluate duo demo_rect demo_opts None EXTERNAL_ID \<lparr>tpath = [0], tedge = ELeft, trange = None\<rparr> =
      Some (Some \<lparr>rx = 0, ry = 0, width = 247, height = 600\<rparr>)"
    by (simp add: evaluate_def preview_size_def demo_insert EXTERNAL_ID_def layout_def demo_rect_def nonnegativeRect_def
        forEachChildRect_def demo_insert_spans demo_spans)
  have mat: "materializeTarget duo \<lparr>tpath = [0], tedge = ELeft, trange = None\<rparr> = Some (duo, [0])"
    "nodeAtPath duo [0] = Some (Leaf ''a'')"
    by (simp_all add: materializeTarget_def nodeAtPath_def root demo_node_def)
  have tr: "targetRect duo demo_rect demo_opts \<lparr>tpath = [0], tedge = ELeft, trange = None\<rparr> = Some ?a"
    by (simp add: targetRect_def leafr)
  have drop: "edge_drop duo demo_rect \<lparr>px = 10, py = 30\<rparr> None demo_opts None
      \<lparr>hover_leaf = ''a'', hover_rect = ?a, bands = [ELeft, ETop], hover_line = None\<rparr> [0] EXTERNAL_ID None ELeft =
      Some \<lparr>candidate = Some \<lparr>cand_target = EdgeTarget \<lparr>tpath = [0], tedge = ELeft, trange = None\<rparr>,
             previewRect = \<lparr>rx = 0, ry = 0, width = 247, height = 600\<rparr>, scopeRect = Some ?a, scopeLeafCount = 1,
             canWiden = False, swapRect = None\<rparr>, anchored = False\<rparr>"
    by (simp add: edge_drop_def clampTo_def alongOf_def spanAlong_def scopes COINCIDE_EPS_def edge_hit_def place mat tr Let_def)
  show ?thesis using out root by (simp add: hitTest_def Let_def hov path keys slide_def drop)
qed

theorem hitTest_offers_real_drops_witness:
  "(\<exists>t'. swap duo ''a'' ''b'' = (t', True) \<and>
     map_of (layout t' demo_rect demo_opts) ''a'' = Some \<lparr>rx = 503, ry = 0, width = 497, height = 198\<rparr> \<and>
     map_of (layout t' demo_rect demo_opts) ''b'' = Some \<lparr>rx = 0, ry = 0, width = 497, height = 600\<rparr>) \<and>
   (\<exists>t'. insert_op duo ''new'' (EdgeTarget \<lparr>tpath = [0], tedge = ELeft, trange = None\<rparr>) Half = (t', True) \<and>
     map_of (layout t' demo_rect demo_opts) ''new'' = Some \<lparr>rx = 0, ry = 0, width = 247, height = 600\<rparr>)"
proof
  have duo: "wf_tree 0 duo" "opts_ok demo_opts" "''new'' \<notin> set (leaves duo)"
    by (simp_all add: duo_def wf_tree_def demo_node_def opts_ok_def leaves_def)
  from hitTest_offers_real_drops [OF duo(1) order_refl duo(2), of demo_rect "\<lparr>px = 750, py = 100\<rparr>" "Some ''a''" None]
  show "\<exists>t'. swap duo ''a'' ''b'' = (t', True) \<and>
     map_of (layout t' demo_rect demo_opts) ''a'' = Some \<lparr>rx = 503, ry = 0, width = 497, height = 198\<rparr> \<and>
     map_of (layout t' demo_rect demo_opts) ''b'' = Some \<lparr>rx = 0, ry = 0, width = 497, height = 600\<rparr>"
    by (simp add: demo_swap_hit drop_sound_def)
  from hitTest_offers_real_drops [OF duo(1) order_refl duo(2), of demo_rect "\<lparr>px = 10, py = 30\<rparr>" None None] duo(3)
  show "\<exists>t'. insert_op duo ''new'' (EdgeTarget \<lparr>tpath = [0], tedge = ELeft, trange = None\<rparr>) Half = (t', True) \<and>
     map_of (layout t' demo_rect demo_opts) ''new'' = Some \<lparr>rx = 0, ry = 0, width = 247, height = 600\<rparr>"
    by (simp add: demo_edge_hit drop_sound_def preview_size_def)
qed

text \<open>A point over a wall with leaves is attributed to one of them, and to one that no other is
  nearer than: a leaf that holds the point, when there is one.\<close>

theorem hover_is_nearest:
  assumes "wf_tree e t" and "opts_ok opts" and "leaves t \<noteq> []"
  shows "\<exists>h. hover (layout t r opts) p = Some h \<and> (hover_leaf h, hover_rect h) \<in> set (layout t r opts) \<and>
         (\<forall>(k', r') \<in> set (layout t r opts). distToRect (hover_rect h) (px p) (py p) \<le> distToRect r' (px p) (py p))"
proof -
  have "layout t r opts \<noteq> []" using layout_keys [OF assms(1,2), of r] assms(3) by auto
  then obtain x where "hover_scan (layout t r opts) p None = Some x" using hover_scan_finds by blast
  then obtain h where "hover (layout t r opts) p = Some h" by (cases x) (simp add: hover_def)
  with hover_nearest show ?thesis by blast
qed

theorem hover_is_nearest_witness:
  "\<exists>h. hover (layout duo demo_rect demo_opts) \<lparr>px = 500, py = 30\<rparr> = Some h \<and>
     distToRect (hover_rect h) 500 30 \<le> 9"
proof -
  have "wf_tree 0 duo" "opts_ok demo_opts" "leaves duo \<noteq> []"
    by (simp_all add: duo_def wf_tree_def demo_node_def opts_ok_def leaves_def)
  from hover_is_nearest [OF this, of demo_rect "\<lparr>px = 500, py = 30\<rparr>"] show ?thesis
    by (auto simp: duo_def demo_layout distToRect_def)
qed

end
