(* ===== verification/Lath_Validate.thy ===== *)
theory Lath_Validate
  imports Lath_Ops
begin

text \<open>
  The read boundary of a persisted layout: \<open>validate\<close> of \<open>lib/src/lib/lath/model.ts\<close> and
  \<open>lib/src/lib/lath/persistence.ts\<close>. The input is an untrusted object graph, so it is modelled as a
  heap of records and arrays that may share nodes and have cycles. The lemmas show that the check
  ends on every heap and that what it accepts stands for a valid tree, with one metadata record
  for each leaf.
\<close>

section \<open>Untrusted values\<close>

datatype uval = UNull | UUndefined | UBool bool | UNumber jsnum | UString string | URef nat

datatype uobj = URecord "(string \<times> uval) list" | UArray "uval list"

type_synonym uheap = "uobj list"

text \<open>\<open>isRecord\<close>, with the fields of the record; an object's identity is its address.\<close>

definition as_record :: "uheap \<Rightarrow> uval \<Rightarrow> (string \<times> uval) list option" where
  "as_record h v = (case v of
      URef a \<Rightarrow> if a < length h then (case h ! a of URecord fs \<Rightarrow> Some fs | UArray _ \<Rightarrow> None) else None
    | _ \<Rightarrow> None)"

definition as_array :: "uheap \<Rightarrow> uval \<Rightarrow> uval list option" where
  "as_array h v = (case v of
      URef a \<Rightarrow> if a < length h then (case h ! a of UArray xs \<Rightarrow> Some xs | URecord _ \<Rightarrow> None) else None
    | _ \<Rightarrow> None)"

definition field :: "(string \<times> uval) list \<Rightarrow> string \<Rightarrow> uval" where
  "field fs k = (case map_of fs k of None \<Rightarrow> UUndefined | Some v \<Rightarrow> v)"

section \<open>Validation\<close>

text \<open>One constructor per message of the code.\<close>

datatype violation =
    NoRoot
  | BadNode "nat list"
  | BadLeafId "nat list"
  | DuplicateLeaf string "nat list"
  | BadSplit "nat list"
  | SameDirection "nat list"
  | TooFewChildren "nat list" nat
  | BadChild nat "nat list"
  | BadWeight nat "nat list"
  | BadSum "nat list" rat

type_synonym pending_node = "uval \<times> nat list \<times> axis option"

fun axis_of :: "uval \<Rightarrow> axis option" where
  "axis_of (UString s) = (if s = ''row'' then Some Row else if s = ''col'' then Some Col else None)"
| "axis_of _ = None"

fun good_weight :: "uval \<Rightarrow> rat option" where
  "good_weight (UNumber (JFin w)) = (if w > 0 then Some w else None)"
| "good_weight _ = None"

text \<open>The \<open>forEach\<close> over a split's children: the messages, the sum of the good weights, and the
  nodes pushed on the pending stack.\<close>

fun check_children :: "uheap \<Rightarrow> nat list \<Rightarrow> axis \<Rightarrow> nat \<Rightarrow> uval list \<Rightarrow> violation list \<times> rat \<times> pending_node list" where
  "check_children h path d i [] = ([], 0, [])"
| "check_children h path d i (x # xs) =
     (let (es, s, ps) = check_children h path d (Suc i) xs in
      case as_record h x of
        None \<Rightarrow> (BadChild i path # es, s, ps)
      | Some fs \<Rightarrow>
          (let p = (field fs ''node'', path @ [i], Some d) in
           case good_weight (field fs ''weight'') of
             None \<Rightarrow> (BadWeight i path # es, s, p # ps)
           | Some w \<Rightarrow> (es, w + s, p # ps)))"

definition unseen :: "uheap \<Rightarrow> nat list \<Rightarrow> nat" where
  "unseen h seen = card ({0..<length h} - set seen)"

lemma unseen_less:
  assumes "Some fs = as_record h (URef a)" "a \<notin> set seen"
  shows "unseen h (a # seen) < unseen h seen"
proof -
  have "a < length h" using assms(1) by (simp add: as_record_def split: if_splits)
  with assms(2) have "{0..<length h} - set (a # seen) \<subset> {0..<length h} - set seen"
    by (metis Diff_iff Diff_insert Diff_subset atLeast0LessThan insertI1 lessThan_iff list.simps(15) psubsetI)
  then show ?thesis unfolding unseen_def by (intro psubset_card_mono) simp_all
qed

text \<open>The body of the loop for a record seen for the first time: its messages, the nodes it pushes
  and the leaf ids seen after it.\<close>

definition visit_record :: "uheap \<Rightarrow> (string \<times> uval) list \<Rightarrow> nat list \<Rightarrow> axis option \<Rightarrow> string list
    \<Rightarrow> violation list \<times> pending_node list \<times> string list" where
  "visit_record h fs path pd ids =
     (if field fs ''kind'' = UString ''leaf'' then
        (case field fs ''id'' of
           UString i \<Rightarrow> (if i \<in> set ids then [DuplicateLeaf i path] else [], [], i # ids)
         | _ \<Rightarrow> ([BadLeafId path], [], ids))
      else if field fs ''kind'' \<noteq> UString ''split'' then ([BadSplit path], [], ids)
      else (case (axis_of (field fs ''dir''), as_array h (field fs ''children'')) of
          (Some d, Some children) \<Rightarrow>
            (let (es, s, ps) = check_children h path d 0 children in
             ((if pd = Some d then [SameDirection path] else [])
              @ (if length children < 2 then [TooFewChildren path (length children)] else [])
              @ es
              @ (if length children > 0 \<and> \<bar>s - 1\<bar> > 1 / 10 ^ 6 then [BadSum path s] else []),
              ps, ids))
        | _ \<Rightarrow> ([BadSplit path], [], ids)))"

text \<open>The loop over the stack of pending nodes, with the ids and the records seen so far; \<open>None\<close> is a
  loop that does not end.\<close>

partial_function (option) validate_loop :: "uheap \<Rightarrow> pending_node list \<Rightarrow> string list \<Rightarrow> nat list \<Rightarrow> violation list option" where
  "validate_loop h pending ids seen =
     (case pending of
        [] \<Rightarrow> Some []
      | (v, path, pd) # rest \<Rightarrow>
          (case (v, as_record h v) of
             (URef a, Some fs) \<Rightarrow>
               if a \<in> set seen
               then Option.bind (validate_loop h rest ids seen) (\<lambda>more. Some (BadNode path # more))
               else (case visit_record h fs path pd ids of
                   (es, ps, ids') \<Rightarrow>
                     Option.bind (validate_loop h (rev ps @ rest) ids' (a # seen)) (\<lambda>more. Some (es @ more)))
           | _ \<Rightarrow> Option.bind (validate_loop h rest ids seen) (\<lambda>more. Some (BadNode path # more))))"

definition validate :: "uheap \<Rightarrow> uval \<Rightarrow> violation list option" where
  "validate h t = (case as_record h t of
      None \<Rightarrow> Some [NoRoot]
    | Some fs \<Rightarrow>
        (case map_of fs ''root'' of
           None \<Rightarrow> Some [NoRoot]
         | Some r \<Rightarrow> validate_loop h (if r = UNull then [] else [(r, [], None)]) [] []))"

section \<open>Persisted layouts\<close>

record leaf_meta =
  component :: string
  tabComponent :: string
  title :: string
  params :: "(string \<times> uval) list option"

record persisted_layout =
  version :: nat
  layout_tree :: lath_tree
  leafMeta :: "(leaf_id \<times> leaf_meta) list"

text \<open>The writer: the tree and the metadata of the leaves it places, in their order.\<close>

definition lathLayoutFromStore :: "lath_tree \<Rightarrow> (leaf_id \<rightharpoonup> leaf_meta) \<Rightarrow> persisted_layout" where
  "lathLayoutFromStore t metas =
     \<lparr>version = 1, layout_tree = t,
      leafMeta = fold (\<lambda>i m. case metas i of None \<Rightarrow> m | Some d \<Rightarrow> js_map_set i d m) (leaves t) []\<rparr>"

text \<open>\<open>leaves\<close> on an object graph, as a walk over a stack of nodes; on a cyclic graph it has no
  result, on a node that is neither a leaf nor a split it throws (also \<open>None\<close>).\<close>

partial_function (option) graph_leaves :: "uheap \<Rightarrow> uval list \<Rightarrow> leaf_id list option" where
  "graph_leaves h vs = (case vs of
      [] \<Rightarrow> Some []
    | v # rest \<Rightarrow> (case as_record h v of
        None \<Rightarrow> None
      | Some fs \<Rightarrow>
          if field fs ''kind'' = UString ''leaf'' then
            (case field fs ''id'' of
               UString i \<Rightarrow> Option.bind (graph_leaves h rest) (\<lambda>ids. Some (i # ids))
             | _ \<Rightarrow> None)
          else (case as_array h (field fs ''children'') of
              None \<Rightarrow> None
            | Some xs \<Rightarrow>
                if list_all (\<lambda>x. as_record h x \<noteq> None) xs
                then graph_leaves h (map (\<lambda>x. field (the (as_record h x)) ''node'') xs @ rest)
                else None)))"

definition tree_leaves :: "uheap \<Rightarrow> uval \<Rightarrow> leaf_id list option" where
  "tree_leaves h v = (case as_record h v of
      None \<Rightarrow> None
    | Some fs \<Rightarrow> if field fs ''root'' = UNull then Some [] else graph_leaves h [field fs ''root''])"

fun is_string :: "uval \<Rightarrow> bool" where
  "is_string (UString _) = True"
| "is_string _ = False"

definition good_meta :: "uheap \<Rightarrow> uval \<Rightarrow> bool" where
  "good_meta h v = (case as_record h v of
      None \<Rightarrow> False
    | Some fs \<Rightarrow> is_string (field fs ''component'') \<and> is_string (field fs ''tabComponent'') \<and>
        is_string (field fs ''title'') \<and>
        (field fs ''params'' = UUndefined \<or> as_record h (field fs ''params'') \<noteq> None))"

text \<open>The reader: \<open>None\<close> when it throws or does not end.\<close>

definition isLathPersistedLayout :: "uheap \<Rightarrow> uval \<Rightarrow> bool option" where
  "isLathPersistedLayout h blob = (case as_record h blob of
      None \<Rightarrow> Some False
    | Some fs \<Rightarrow>
        if field fs ''version'' \<noteq> UNumber (JFin 1) then Some False
        else (case validate h (field fs ''tree'') of
            None \<Rightarrow> None
          | Some (_ # _) \<Rightarrow> Some False
          | Some [] \<Rightarrow>
              (case as_record h (field fs ''leafMeta'') of
                 None \<Rightarrow> Some False
               | Some entries \<Rightarrow> map_option (\<lambda>ids.
                   length entries = length (remdups ids) \<and>
                   list_all (\<lambda>(i, m). i \<in> set ids \<and> good_meta h m) entries)
                 (tree_leaves h (field fs ''tree'')))))"

section \<open>The check ends\<close>

text \<open>A popped node is dropped, or its record becomes a seen one, of which there are only so many:
  every pass makes the pair of the unseen records and the pending nodes smaller.\<close>

lemma validate_loop_returns: "\<exists>es. validate_loop h pending ids seen = Some es"
proof (induction "unseen h seen" arbitrary: pending ids seen rule: less_induct)
  case less
  show ?case
  proof (induction pending arbitrary: ids)
    case Nil
    show ?case by (simp add: validate_loop.simps [of h "[]"])
  next
    case (Cons p rest)
    obtain v path pd where p: "p = (v, path, pd)" by (cases p)
    obtain es where drop: "validate_loop h rest ids seen = Some es" using Cons.IH by blast
    show ?case
    proof (cases "\<exists>a fs. v = URef a \<and> as_record h v = Some fs \<and> a \<notin> set seen")
      case True
      then obtain a fs where v: "v = URef a" "as_record h (URef a) = Some fs" "a \<notin> set seen" by blast
      obtain es1 ps ids' where vr: "visit_record h fs path pd ids = (es1, ps, ids')" by (metis prod_cases3)
      obtain es2 where "validate_loop h (rev ps @ rest) ids' (a # seen) = Some es2"
        using less.hyps [OF unseen_less [OF v(2) [symmetric] v(3)]] by blast
      with v vr show ?thesis by (simp add: p validate_loop.simps [of h "(URef a, path, pd) # rest"])
    next
      case False
      with drop show ?thesis
        by (auto simp: p validate_loop.simps [of h "(v, path, pd) # rest"] split: uval.splits option.splits)
    qed
  qed
qed

lemma validate_returns: "\<exists>es. validate h v = Some es"
  using validate_loop_returns by (auto simp: validate_def split: option.splits)

lemma validate_not_None: "validate h v \<noteq> None"
  using validate_returns [of h v] by auto

section \<open>What an accepted graph stands for\<close>

inductive represents :: "uheap \<Rightarrow> uval \<Rightarrow> lath_node \<Rightarrow> bool" for h where
  leafI: "\<lbrakk>as_record h v = Some fs; field fs ''kind'' = UString ''leaf''; field fs ''id'' = UString i\<rbrakk>
    \<Longrightarrow> represents h v (Leaf i)"
| splitI: "\<lbrakk>as_record h v = Some fs; field fs ''kind'' = UString ''split''; axis_of (field fs ''dir'') = Some d;
     as_array h (field fs ''children'') = Some xs;
     list_all2 (\<lambda>x c. \<exists>cf. as_record h x = Some cf \<and> field cf ''weight'' = UNumber (JFin (snd c)) \<and>
       represents h (field cf ''node'') (fst c)) xs cs\<rbrakk>
    \<Longrightarrow> represents h v (Split d cs)"

definition represents_tree :: "uheap \<Rightarrow> uval \<Rightarrow> lath_tree \<Rightarrow> bool" where
  "represents_tree h v t = (\<exists>fs r. as_record h v = Some fs \<and> map_of fs ''root'' = Some r \<and>
     (case root t of None \<Rightarrow> r = UNull | Some n \<Rightarrow> represents h r n))"

text \<open>A pending entry that stands for a valid node.\<close>

definition pending_ok :: "uheap \<Rightarrow> pending_node \<Rightarrow> lath_node \<Rightarrow> bool" where
  "pending_ok h p n = (represents h (fst p) n \<and> wf_node (1 / 10 ^ 6) (snd (snd p)) n)"

definition leaves_of :: "lath_node list \<Rightarrow> leaf_id list" where
  "leaves_of ns = concat (map leaves_walk ns)"

lemma leaves_of_rev: "distinct (leaves_of (rev ns)) \<longleftrightarrow> distinct (leaves_of ns)" "set (leaves_of (rev ns)) = set (leaves_of ns)"
  by (induction ns) (auto simp: leaves_of_def)

lemma good_weight_Some: "good_weight v = Some w \<Longrightarrow> v = UNumber (JFin w) \<and> 0 < w"
  by (cases v rule: good_weight.cases) (auto split: if_splits)

lemma check_children_ok:
  assumes "check_children h path d i xs = ([], s, ps)" "list_all2 (pending_ok h) ps ns"
  shows "\<exists>cs. list_all2 (\<lambda>x c. \<exists>cf. as_record h x = Some cf \<and> field cf ''weight'' = UNumber (JFin (snd c)) \<and>
       represents h (field cf ''node'') (fst c)) xs cs \<and>
     length cs = length xs \<and> weight_sum cs = s \<and> map fst cs = ns \<and>
     (\<forall>c \<in> set cs. 0 < snd c \<and> wf_node (1 / 10 ^ 6) (Some d) (fst c))"
  using assms
proof (induction xs arbitrary: i s ps ns)
  case Nil
  then show ?case by (auto simp: weight_sum_def)
next
  case (Cons x xs)
  obtain es s' ps' where rest: "check_children h path d (Suc i) xs = (es, s', ps')" by (metis prod_cases3)
  from Cons.prems(1) rest obtain fs w where x: "as_record h x = Some fs" "good_weight (field fs ''weight'') = Some w"
    and eqs: "es = []" "s = w + s'" "ps = (field fs ''node'', path @ [i], Some d) # ps'"
    by (auto simp: Let_def split: option.splits)
  from Cons.prems(2) eqs obtain n ns' where ns: "ns = n # ns'" "pending_ok h (field fs ''node'', path @ [i], Some d) n"
      "list_all2 (pending_ok h) ps' ns'" by (auto simp: list_all2_Cons1)
  from Cons.IH [of "Suc i" s' ps' ns'] rest eqs ns(3) obtain cs where
    cs: "list_all2 (\<lambda>x c. \<exists>cf. as_record h x = Some cf \<and> field cf ''weight'' = UNumber (JFin (snd c)) \<and>
       represents h (field cf ''node'') (fst c)) xs cs" "length cs = length xs" "weight_sum cs = s'" "map fst cs = ns'"
     "\<forall>c \<in> set cs. 0 < snd c \<and> wf_node (1 / 10 ^ 6) (Some d) (fst c)" by auto
  from cs x ns good_weight_Some [OF x(2)] eqs show ?case
    by (intro exI [of _ "(n, w) # cs"]) (auto simp: weight_sum_def pending_ok_def)
qed

lemma visit_record_ok:
  assumes "as_record h v = Some fs" "visit_record h fs path pd ids = ([], ps, ids')" "list_all2 (pending_ok h) ps ns"
  shows "\<exists>n. pending_ok h (v, path, pd) n \<and>
     ((ps = [] \<and> leaves_walk n = [hd ids'] \<and> ids' = hd ids' # ids \<and> hd ids' \<notin> set ids) \<or>
      (leaves_walk n = leaves_of ns \<and> ids' = ids))"
proof (cases "field fs ''kind'' = UString ''leaf''")
  case True
  with assms(2) obtain i where i: "field fs ''id'' = UString i" "i \<notin> set ids" "ps = []" "ids' = i # ids"
    by (auto simp: visit_record_def split: uval.splits if_splits)
  with True assms(1) have "pending_ok h (v, path, pd) (Leaf i)"
    by (auto simp: pending_ok_def intro: represents.leafI)
  with i show ?thesis by (intro exI [of _ "Leaf i"]) simp
next
  case False
  with assms(2) obtain d children s where sp: "field fs ''kind'' = UString ''split''" "axis_of (field fs ''dir'') = Some d"
      "as_array h (field fs ''children'') = Some children" "check_children h path d 0 children = ([], s, ps)"
      "pd \<noteq> Some d" "2 \<le> length children" "\<bar>s - 1\<bar> \<le> 1 / 10 ^ 6" "ids' = ids"
    by (auto simp: visit_record_def split: option.splits if_splits prod.splits)
  from check_children_ok [OF sp(4) assms(3)] obtain cs where
    cs: "list_all2 (\<lambda>x c. \<exists>cf. as_record h x = Some cf \<and> field cf ''weight'' = UNumber (JFin (snd c)) \<and>
       represents h (field cf ''node'') (fst c)) children cs" "length cs = length children" "weight_sum cs = s"
     "map fst cs = ns" "\<forall>c \<in> set cs. 0 < snd c \<and> wf_node (1 / 10 ^ 6) (Some d) (fst c)" by blast
  have "represents h v (Split d cs)" by (rule represents.splitI [OF assms(1) sp(1-3) cs(1)])
  moreover have "leaves_walk (Split d cs) = leaves_of ns"
    by (simp add: leaves_of_def comp_def flip: cs(4))
  ultimately show ?thesis using sp cs by (intro exI [of _ "Split d cs"]) (simp add: pending_ok_def)
qed

lemma validate_loop_ok_step:
  assumes v: "v = URef a" "as_record h v = Some fs" and vr: "visit_record h fs path pd ids = ([], ps, ids')"
    and ns: "list_all2 (pending_ok h) (rev ps @ rest) ns" "distinct (leaves_of ns)" "set (leaves_of ns) \<inter> set ids' = {}"
  shows "\<exists>ns. list_all2 (pending_ok h) ((v, path, pd) # rest) ns \<and> distinct (leaves_of ns) \<and> set (leaves_of ns) \<inter> set ids = {}"
proof -
  from ns(1) obtain n1 n2 where n12: "ns = n1 @ n2" "list_all2 (pending_ok h) (rev ps) n1" "list_all2 (pending_ok h) rest n2"
    by (auto simp: list_all2_append1)
  from n12(2) have "list_all2 (pending_ok h) ps (rev n1)" by (metis list_all2_rev rev_rev_ident)
  from visit_record_ok [OF v(2) vr this] obtain n where n: "pending_ok h (v, path, pd) n"
    "(ps = [] \<and> leaves_walk n = [hd ids'] \<and> ids' = hd ids' # ids \<and> hd ids' \<notin> set ids) \<or>
      (leaves_walk n = leaves_of (rev n1) \<and> ids' = ids)" by blast
  have "distinct (leaves_of (n # n2)) \<and> set (leaves_of (n # n2)) \<inter> set ids = {}"
    using n(2)
  proof
    assume l: "ps = [] \<and> leaves_walk n = [hd ids'] \<and> ids' = hd ids' # ids \<and> hd ids' \<notin> set ids"
    then have "n1 = []" using n12(2) by simp
    moreover obtain i where "ids' = i # ids" "leaves_walk n = [i]" "i \<notin> set ids" using l by metis
    ultimately show ?thesis using ns n12(1) by (auto simp: leaves_of_def)
  next
    assume l: "leaves_walk n = leaves_of (rev n1) \<and> ids' = ids"
    have "distinct (leaves_of (rev n1)) \<longleftrightarrow> distinct (leaves_of n1)" "set (leaves_of (rev n1)) = set (leaves_of n1)"
      by (auto simp: leaves_of_rev)
    with l ns n12(1) show ?thesis by (auto simp: leaves_of_def)
  qed
  with n(1) n12(3) show ?thesis by (intro exI [of _ "n # n2"]) simp
qed


lemma validate_loop_ok:
  assumes "validate_loop h pending ids seen = Some es"
  shows "es = [] \<longrightarrow>
     (\<exists>ns. list_all2 (pending_ok h) pending ns \<and> distinct (leaves_of ns) \<and> set (leaves_of ns) \<inter> set ids = {})"
proof (rule validate_loop.raw_induct [where P = "\<lambda>h pending ids seen es. es = [] \<longrightarrow>
     (\<exists>ns. list_all2 (pending_ok h) pending ns \<and> distinct (leaves_of ns) \<and> set (leaves_of ns) \<inter> set ids = {})",
    OF _ assms], rule impI)
  fix loop :: "uheap \<Rightarrow> pending_node list \<Rightarrow> string list \<Rightarrow> nat list \<Rightarrow> violation list option"
    and h pending ids seen es
  assume IH: "\<And>h pending ids seen es. loop h pending ids seen = Some es \<Longrightarrow> es = [] \<longrightarrow>
     (\<exists>ns. list_all2 (pending_ok h) pending ns \<and> distinct (leaves_of ns) \<and> set (leaves_of ns) \<inter> set ids = {})"
  assume body: "(case pending of
        [] \<Rightarrow> Some []
      | (v, path, pd) # rest \<Rightarrow>
          (case (v, as_record h v) of
             (URef a, Some fs) \<Rightarrow>
               if a \<in> set seen
               then Option.bind (loop h rest ids seen) (\<lambda>more. Some (BadNode path # more))
               else (case visit_record h fs path pd ids of
                   (es, ps, ids') \<Rightarrow>
                     Option.bind (loop h (rev ps @ rest) ids' (a # seen)) (\<lambda>more. Some (es @ more)))
           | _ \<Rightarrow> Option.bind (loop h rest ids seen) (\<lambda>more. Some (BadNode path # more)))) = Some es"
    and empty: "es = []"
  show "\<exists>ns. list_all2 (pending_ok h) pending ns \<and> distinct (leaves_of ns) \<and> set (leaves_of ns) \<inter> set ids = {}"
  proof (cases pending)
    case Nil
    then show ?thesis by (simp add: leaves_of_def)
  next
    case (Cons p rest)
    obtain v path pd where p: "p = (v, path, pd)" by (cases p)
    from body empty Cons p obtain a fs where v: "v = URef a" "as_record h v = Some fs" "a \<notin> set seen"
      by (auto split: uval.splits option.splits if_splits bind_splits prod.splits)
    obtain es1 ps ids' where vr: "visit_record h fs path pd ids = (es1, ps, ids')" by (metis prod_cases3)
    from body empty v vr Cons p have es1: "es1 = []" and loop: "loop h (rev ps @ rest) ids' (a # seen) = Some []"
      by (auto split: bind_splits)
    from IH [OF loop] obtain ns where
      "list_all2 (pending_ok h) (rev ps @ rest) ns" "distinct (leaves_of ns)" "set (leaves_of ns) \<inter> set ids' = {}"
      by blast
    from validate_loop_ok_step [OF v(1,2) vr [unfolded es1] this] Cons p show ?thesis by simp
  qed
qed

lemma validate_ok:
  assumes "validate h v = Some []"
  shows "\<exists>t. represents_tree h v t \<and> wf_tree (1 / 10 ^ 6) t"
proof -
  from assms obtain fs r where r: "as_record h v = Some fs" "map_of fs ''root'' = Some r"
    and loop: "validate_loop h (if r = UNull then [] else [(r, [], None)]) [] [] = Some []"
    by (auto simp: validate_def split: option.splits)
  show ?thesis
  proof (cases "r = UNull")
    case True
    with r show ?thesis by (intro exI [of _ "\<lparr>root = None\<rparr>"]) (simp add: represents_tree_def wf_tree_def)
  next
    case False
    from validate_loop_ok [OF loop] False obtain n where "pending_ok h (r, [], None) n" "distinct (leaves_walk n)"
      by (auto simp: list_all2_Cons1 leaves_of_def)
    with r show ?thesis by (intro exI [of _ "\<lparr>root = Some n\<rparr>"]) (simp add: represents_tree_def wf_tree_def pending_ok_def)
  qed
qed

section \<open>Persisted layouts are read back\<close>

lemma represents_children:
  assumes "list_all2 (\<lambda>x c. \<exists>cf. as_record h x = Some cf \<and> field cf ''weight'' = UNumber (JFin (snd c)) \<and>
       represents h (field cf ''node'') (fst c)) xs cs"
  shows "list_all (\<lambda>x. as_record h x \<noteq> None) xs"
    and "list_all2 (represents h) (map (\<lambda>x. field (the (as_record h x)) ''node'') xs) (map fst cs)"
  using assms by (induction rule: list_all2_induct) auto

text \<open>The number of nodes of a tree: the number of steps of the walk.\<close>

fun node_count :: "lath_node \<Rightarrow> nat" where
  "node_count (Leaf i) = 1"
| "node_count (Split d cs) = Suc (sum_list (map (\<lambda>c. node_count (fst c)) cs))"

inductive_cases represents_LeafE: "represents h v (Leaf i)"
inductive_cases represents_SplitE: "represents h v (Split d cs)"

lemma graph_leaves_represents:
  "list_all2 (represents h) vs ns \<Longrightarrow> graph_leaves h vs = Some (leaves_of ns)"
proof (induction "sum_list (map node_count ns)" arbitrary: vs ns rule: less_induct)
  case less
  show ?case
  proof (cases ns)
    case Nil
    with less.prems show ?thesis by (simp add: graph_leaves.simps leaves_of_def)
  next
    case (Cons n rest)
    with less.prems obtain v vs' where vs: "vs = v # vs'" "represents h v n" "list_all2 (represents h) vs' rest"
      by (auto simp: list_all2_Cons2)
    show ?thesis
    proof (cases n)
      case (Leaf i)
      with less.hyps [OF _ vs(3)] Cons vs show ?thesis
        by (auto simp: graph_leaves.simps [of h "v # vs'"] leaves_of_def elim!: represents_LeafE)
    next
      case (Split d cs)
      with vs(2) obtain fs xs where fs: "as_record h v = Some fs" "field fs ''kind'' = UString ''split''"
          "as_array h (field fs ''children'') = Some xs"
        and ch: "list_all2 (\<lambda>x c. \<exists>cf. as_record h x = Some cf \<and> field cf ''weight'' = UNumber (JFin (snd c)) \<and>
           represents h (field cf ''node'') (fst c)) xs cs"
        by (auto elim!: represents_SplitE)
      note rc = represents_children [OF ch]
      have "graph_leaves h (map (\<lambda>x. field (the (as_record h x)) ''node'') xs @ vs') = Some (leaves_of (map fst cs @ rest))"
        using rc(2) vs(3) Cons Split by (intro less.hyps) (auto simp: comp_def intro: list_all2_appendI)
      with rc(1) fs vs(1) Cons Split show ?thesis
        by (simp add: graph_leaves.simps [of h "v # vs'"] leaves_of_def comp_def)
    qed
  qed
qed

lemma represents_not_null: "\<not> represents h UNull n"
  by (auto simp: as_record_def elim: represents.cases)

lemma tree_leaves_represents:
  assumes "represents_tree h v t"
  shows "tree_leaves h v = Some (leaves t)"
proof (cases "root t")
  case None
  with assms show ?thesis by (auto simp: represents_tree_def tree_leaves_def field_def leaves_def)
next
  case (Some n)
  with assms obtain fs r where r: "as_record h v = Some fs" "map_of fs ''root'' = Some r" "represents h r n"
    by (auto simp: represents_tree_def)
  then have "r \<noteq> UNull" using represents_not_null by blast
  moreover have "graph_leaves h [r] = Some (leaves_of [n])" using r(3) by (intro graph_leaves_represents) simp
  ultimately show ?thesis using r Some by (simp add: tree_leaves_def field_def leaves_def leaves_of_def)
qed

text \<open>The writer's metadata: that of the store, on the leaves of the tree.\<close>

lemma written_meta:
  "map_of (fold (\<lambda>i m. case metas i of None \<Rightarrow> m | Some d \<Rightarrow> js_map_set i d m) ids m0) i =
     (if i \<in> set ids \<and> metas i \<noteq> None then metas i else map_of m0 i)"
  by (induction ids arbitrary: m0) (auto simp: map_of_js_map_set split: option.splits)

section \<open>Properties of the read boundary\<close>

text \<open>C7: the loop of \<open>validate\<close> is a partial function, and it ends on every object graph, also on
  one with cycles and shared objects; a graph without violations stands for a tree that satisfies the laws
  within the tolerance of one millionth.\<close>

theorem validate_sound:
  "\<exists>es. validate h v = Some es \<and>
     (es = [] \<longrightarrow> (\<exists>t. represents_tree h v t \<and> wf_tree (1 / 10 ^ 6) t))"
  using validate_returns [of h v] validate_ok [of h v] by blast

definition sample_heap :: uheap where
  "sample_heap =
     [URecord [(''root'', URef 1)],
      URecord [(''kind'', UString ''split''), (''dir'', UString ''row''), (''children'', URef 2)],
      UArray [URef 3, URef 4],
      URecord [(''node'', URef 5), (''weight'', UNumber (JFin (1 / 4)))],
      URecord [(''node'', URef 6), (''weight'', UNumber (JFin (3 / 4)))],
      URecord [(''kind'', UString ''leaf''), (''id'', UString ''a'')],
      URecord [(''kind'', UString ''leaf''), (''id'', UString ''b'')],
      URecord [(''version'', UNumber (JFin 1)), (''tree'', URef 0), (''leafMeta'', URef 8)],
      URecord [(''a'', URef 9), (''b'', URef 9)],
      URecord [(''component'', UString ''terminal''), (''tabComponent'', UString ''terminal''), (''title'', UString ''sh'')]]"

text \<open>A split that is its own two children.\<close>

definition cyclic_heap :: uheap where
  "cyclic_heap =
     [URecord [(''root'', URef 1)],
      URecord [(''kind'', UString ''split''), (''dir'', UString ''row''), (''children'', URef 2)],
      UArray [URef 3, URef 3],
      URecord [(''node'', URef 1), (''weight'', UNumber (JFin (1 / 2)))]]"

lemma sample_valid: "validate sample_heap (URef 0) = Some []"
  by (simp add: sample_heap_def validate_def as_record_def as_array_def field_def visit_record_def validate_loop.simps)

lemma cyclic_invalid: "validate cyclic_heap (URef 0) = Some [BadNode [1], BadNode [0]]"
  by (simp add: cyclic_heap_def validate_def as_record_def as_array_def field_def visit_record_def validate_loop.simps)

theorem validate_sound_witness:
  "(\<exists>t. represents_tree sample_heap (URef 0) t \<and> wf_tree (1 / 10 ^ 6) t) \<and>
   (\<exists>es. validate cyclic_heap (URef 0) = Some es \<and> es \<noteq> [])"
  using validate_sound [of sample_heap "URef 0"] sample_valid cyclic_invalid by simp

text \<open>The writer keeps the tree and exactly the metadata of the leaves the tree places: the record
  of a leaf that is only docked elsewhere is not written.\<close>

theorem written_layout_exact:
  "layout_tree (lathLayoutFromStore t metas) = t \<and>
   map_of (leafMeta (lathLayoutFromStore t metas)) = metas |` set (leaves t)"
  by (rule conjI) (auto simp: lathLayoutFromStore_def written_meta restrict_map_def fun_eq_iff)

text \<open>C35: the reader of a persisted layout answers on every input, and what it accepts is a version 1
  record whose tree is valid and whose metadata names each leaf of the tree exactly once and
  nothing else, every entry well typed.\<close>

theorem persisted_layout_sound:
  "isLathPersistedLayout h blob \<noteq> None \<and>
   (isLathPersistedLayout h blob = Some True \<longrightarrow>
      (\<exists>fs entries t. as_record h blob = Some fs \<and> field fs ''version'' = UNumber (JFin 1) \<and>
         represents_tree h (field fs ''tree'') t \<and> wf_tree (1 / 10 ^ 6) t \<and>
         as_record h (field fs ''leafMeta'') = Some entries \<and>
         (distinct (map fst entries) \<longrightarrow> set (map fst entries) = set (leaves t)) \<and>
         (\<forall>(i, m) \<in> set entries. good_meta h m)))"
proof (cases "\<exists>fs entries. as_record h blob = Some fs \<and> field fs ''version'' = UNumber (JFin 1) \<and>
    validate h (field fs ''tree'') = Some [] \<and> as_record h (field fs ''leafMeta'') = Some entries")
  case False
  then have "isLathPersistedLayout h blob = Some False"
    by (auto simp: isLathPersistedLayout_def validate_not_None split: option.splits list.splits)
  then show ?thesis by simp
next
  case True
  then obtain fs entries where fs: "as_record h blob = Some fs" "field fs ''version'' = UNumber (JFin 1)"
    "validate h (field fs ''tree'') = Some []" "as_record h (field fs ''leafMeta'') = Some entries" by blast
  from validate_ok [OF fs(3)] obtain t where t: "represents_tree h (field fs ''tree'') t" "wf_tree (1 / 10 ^ 6) t" by blast
  have eq: "isLathPersistedLayout h blob = Some (length entries = length (remdups (leaves t)) \<and>
      list_all (\<lambda>(i, m). i \<in> set (leaves t) \<and> good_meta h m) entries)"
    using fs tree_leaves_represents [OF t(1)] by (simp add: isLathPersistedLayout_def)
  have "set (map fst entries) = set (leaves t)"
    if "length entries = length (remdups (leaves t))" "list_all (\<lambda>(i, m). i \<in> set (leaves t) \<and> good_meta h m) entries"
      "distinct (map fst entries)"
  proof (rule card_subset_eq)
    show "set (map fst entries) \<subseteq> set (leaves t)" using that(2) by (auto simp: list_all_iff)
    show "card (set (map fst entries)) = card (set (leaves t))"
      using that(1,3) by (metis distinct_card length_map length_remdups_card_conv)
  qed simp
  with eq fs t show ?thesis by (fastforce simp: list_all_iff)
qed

theorem persisted_layout_sound_witness: "isLathPersistedLayout sample_heap (URef 7) = Some True"
proof -
  have "validate sample_heap (URef 0) = Some []" by (rule sample_valid)
  moreover have "tree_leaves sample_heap (URef 0) = Some [''a'', ''b'']"
    by (simp add: tree_leaves_def graph_leaves.simps sample_heap_def as_record_def as_array_def field_def)
  ultimately have acc: "isLathPersistedLayout sample_heap (URef 7) = Some True"
    by (simp add: isLathPersistedLayout_def, simp add: sample_heap_def as_record_def field_def good_meta_def)
  then show ?thesis using persisted_layout_sound [of sample_heap "URef 7"] by simp
qed

end
