(* ===== verification/Sec_Bytes.thy ===== *)
theory Sec_Bytes
  imports Dormouse_Prelude
begin

text \<open>
  The byte-level helpers of the security code (\<open>remote-lib-common/src/security/bytes.ts\<close>): base64url,
  big-endian lengths, length-prefixed concatenation and the comparison without early exit. Bytes are
  8-bit words and the decoder's accumulator is the 32-bit integer JavaScript's bit operators work
  on, so its overflow on long inputs is in the model.
\<close>

unbundle bit_operations_syntax

section \<open>Base64url\<close>

type_synonym byte = "8 word"

definition B64U_ALPHABET :: string where
  "B64U_ALPHABET = ''ABCDEFGHIJKLMNOPQRSTUVWXYZabcdefghijklmnopqrstuvwxyz0123456789-_''"

fun index_from :: "char \<Rightarrow> string \<Rightarrow> nat \<Rightarrow> nat option" where
  "index_from c [] i = None"
| "index_from c (d # ds) i = (if c = d then Some i else index_from c ds (Suc i))"

definition b64_reverse :: "char \<Rightarrow> nat option" where
  "b64_reverse c = (if of_char c < (128 :: nat) then index_from c B64U_ALPHABET 0 else None)"

definition b64_code :: "32 word \<Rightarrow> char" where
  "b64_code v = B64U_ALPHABET ! unat v"

fun toBase64Url :: "byte list \<Rightarrow> string" where
  "toBase64Url [] = []"
| "toBase64Url [b0] =
     [b64_code (drop_bit 2 (ucast b0)), b64_code (push_bit 4 (ucast b0 AND 3))]"
| "toBase64Url [b0, b1] =
     [b64_code (drop_bit 2 (ucast b0)), b64_code (push_bit 4 (ucast b0 AND 3) OR drop_bit 4 (ucast b1)),
      b64_code (push_bit 2 (ucast b1 AND 15))]"
| "toBase64Url (b0 # b1 # b2 # bs) =
     b64_code (drop_bit 2 (ucast b0)) # b64_code (push_bit 4 (ucast b0 AND 3) OR drop_bit 4 (ucast b1)) #
     b64_code (push_bit 2 (ucast b1 AND 15) OR drop_bit 6 (ucast b2)) # b64_code (ucast b2 AND 63) # toBase64Url bs"

fun decode_loop :: "string \<Rightarrow> 32 word \<Rightarrow> nat \<Rightarrow> (byte list \<times> 32 word \<times> nat) option" where
  "decode_loop [] bits bitCount = Some ([], bits, bitCount)"
| "decode_loop (c # cs) bits bitCount = (case b64_reverse c of
      None \<Rightarrow> None
    | Some v \<Rightarrow>
        (let bits' = push_bit 6 bits OR of_nat v; bitCount' = bitCount + 6 in
         if bitCount' \<ge> 8
         then (case decode_loop cs bits' (bitCount' - 8) of
                 None \<Rightarrow> None
               | Some (out, r) \<Rightarrow> Some (ucast (signed_drop_bit (bitCount' - 8) bits' AND 255) # out, r))
         else decode_loop cs bits' bitCount'))"

definition fromBase64Url :: "string \<Rightarrow> byte list option" where
  "fromBase64Url text =
     (let body = rev (dropWhile (\<lambda>c. c = CHR ''='') (rev text)) in
      if length body mod 4 = 1 then None
      else (case decode_loop body 0 0 of
          None \<Rightarrow> None
        | Some (out, bits, bitCount) \<Rightarrow> if bits AND (push_bit bitCount 1 - 1) \<noteq> 0 then None else Some out))"

definition base64UrlLength :: "nat \<Rightarrow> nat" where
  "base64UrlLength n = n div 3 * 4 + (if n mod 3 = 0 then 0 else n mod 3 + 1)"

definition isBoundedBase64Url :: "string \<Rightarrow> nat \<Rightarrow> bool" where
  "isBoundedBase64Url s limit = (s \<noteq> [] \<and> length s \<le> limit \<and> list_all (\<lambda>c. c \<in> set B64U_ALPHABET) s)"

definition isExactBase64Url :: "string \<Rightarrow> nat \<Rightarrow> bool" where
  "isExactBase64Url s n = (isBoundedBase64Url s n \<and> length s = n)"

definition isBoundedString :: "string \<Rightarrow> nat \<Rightarrow> bool" where
  "isBoundedString s limit = (length s \<le> limit)"

section \<open>Big-endian lengths\<close>

definition UINT32_SIZE :: nat where "UINT32_SIZE = 4"

text \<open>A typed array ignores a write beyond its end, as a list update does.\<close>

definition writeUint32BE :: "byte list \<Rightarrow> nat \<Rightarrow> 32 word \<Rightarrow> byte list" where
  "writeUint32BE out i v =
     out[i := ucast (drop_bit 24 v AND 255), i + 1 := ucast (drop_bit 16 v AND 255),
         i + 2 := ucast (drop_bit 8 v AND 255), i + 3 := ucast (v AND 255)]"

text \<open>\<open>None\<close> stands for the \<open>NaN\<close> that a read beyond the end adds up to.\<close>

definition readUint32BE :: "byte list \<Rightarrow> nat \<Rightarrow> nat option" where
  "readUint32BE bs i =
     (if i + 3 < length bs
      then Some (unat (bs ! i) * 2 ^ 24 + unat (bs ! (i + 1)) * 2 ^ 16 + unat (bs ! (i + 2)) * 2 ^ 8 + unat (bs ! (i + 3)))
      else None)"

section \<open>Concatenation and comparison\<close>

text \<open>\<open>Uint8Array.set\<close> within bounds.\<close>

definition set_bytes :: "byte list \<Rightarrow> byte list \<Rightarrow> nat \<Rightarrow> byte list" where
  "set_bytes out part i = take i out @ part @ drop (i + length part) out"

definition concatBytes :: "byte list list \<Rightarrow> byte list" where
  "concatBytes parts =
     fst (fold (\<lambda>part (out, i). (set_bytes out part i, i + length part)) parts
       (replicate (sum_list (map length parts)) 0, 0))"

definition lengthPrefixedConcat :: "byte list list \<Rightarrow> byte list" where
  "lengthPrefixedConcat parts =
     fst (fold (\<lambda>part (out, i).
         (set_bytes (writeUint32BE out i (of_nat (length part))) part (i + UINT32_SIZE), i + (UINT32_SIZE + length part)))
       parts (replicate (sum_list (map (\<lambda>p. UINT32_SIZE + length p) parts)) 0, 0))"

fun diff_bytes :: "byte list \<Rightarrow> byte list \<Rightarrow> byte \<Rightarrow> byte" where
  "diff_bytes (a # as) (b # bs) d = diff_bytes as bs (d OR (a XOR b))"
| "diff_bytes _ _ d = d"

definition constantTimeEqual :: "byte list \<Rightarrow> byte list \<Rightarrow> bool" where
  "constantTimeEqual a b = (if length a \<noteq> length b then False else diff_bytes a b 0 = 0)"

section \<open>Base64url: one spelling for each byte string\<close>

lemma index_from_nth: "distinct ds \<Longrightarrow> j < length ds \<Longrightarrow> index_from (ds ! j) ds i = Some (i + j)"
proof (induction ds arbitrary: i j)
  case (Cons d ds)
  then show ?case by (cases j) (auto dest: nth_mem)
qed simp

lemma alphabet_length [simp]: "length B64U_ALPHABET = 64"
  by (simp add: B64U_ALPHABET_def)

lemma alphabet_distinct: "distinct B64U_ALPHABET"
  by code_simp

lemma alphabet_ascii: "c \<in> set B64U_ALPHABET \<Longrightarrow> of_char c < (128 :: nat)"
proof -
  have "list_all (\<lambda>c. of_char c < (128 :: nat)) B64U_ALPHABET" by code_simp
  then show "c \<in> set B64U_ALPHABET \<Longrightarrow> of_char c < (128 :: nat)" by (simp add: list_all_iff)
qed

lemma reverse_code: "i < 64 \<Longrightarrow> b64_reverse (B64U_ALPHABET ! i) = Some i"
  by (simp add: b64_reverse_def alphabet_ascii index_from_nth alphabet_distinct)

lemma index_from_Some: "index_from c ds i = Some v \<Longrightarrow> i \<le> v \<and> v < i + length ds \<and> ds ! (v - i) = c"
proof (induction c ds i rule: index_from.induct)
  case (2 c d ds i)
  then show ?case by (cases "c = d") (auto simp: nth_Cons' Suc_diff_le)
qed simp

lemma reverse_Some: "b64_reverse c = Some v \<Longrightarrow> v < 64 \<and> B64U_ALPHABET ! v = c"
  using index_from_Some [of c B64U_ALPHABET 0 v]
  by (auto simp: b64_reverse_def split: if_splits)

text \<open>The bytes that four 6-bit values spell, and the values that three bytes spell.\<close>

definition D0 :: "32 word \<Rightarrow> 32 word \<Rightarrow> byte" where "D0 v0 v1 = ucast (push_bit 2 v0 OR drop_bit 4 v1)"
definition D1 :: "32 word \<Rightarrow> 32 word \<Rightarrow> byte" where "D1 v1 v2 = ucast (push_bit 4 v1 OR drop_bit 2 v2)"
definition D2 :: "32 word \<Rightarrow> 32 word \<Rightarrow> byte" where "D2 v2 v3 = ucast (push_bit 6 v2 OR v3)"
definition E0 :: "byte \<Rightarrow> 32 word" where "E0 b0 = drop_bit 2 (ucast b0)"
definition E1 :: "byte \<Rightarrow> byte \<Rightarrow> 32 word" where "E1 b0 b1 = push_bit 4 (ucast b0 AND 3) OR drop_bit 4 (ucast b1)"
definition E2 :: "byte \<Rightarrow> byte \<Rightarrow> 32 word" where "E2 b1 b2 = push_bit 2 (ucast b1 AND 15) OR drop_bit 6 (ucast b2)"
definition E3 :: "byte \<Rightarrow> 32 word" where "E3 b2 = ucast b2 AND 63"

lemma nat_cases8: "n < (8::nat) \<Longrightarrow> n = 0 \<or> n = 1 \<or> n = 2 \<or> n = 3 \<or> n = 4 \<or> n = 5 \<or> n = 6 \<or> n = 7" by linarith

lemma sextet_iff: "(v::32 word) < 64 \<longleftrightarrow> (\<forall>n. bit v n \<longrightarrow> n < 6)"
proof -
  have "v < 64 \<longleftrightarrow> unat v < 2 ^ 6" by (simp add: word_less_nat_alt)
  also have "\<dots> \<longleftrightarrow> take_bit 6 (unat v) = unat v" by (simp add: take_bit_nat_eq_self_iff)
  also have "\<dots> \<longleftrightarrow> take_bit 6 v = v"
    by (metis unsigned_take_bit_eq word_unat_eq_iff)
  also have "\<dots> \<longleftrightarrow> (\<forall>n. bit v n \<longrightarrow> n < 6)"
    by (metis bit_eqI bit_take_bit_iff)
  finally show ?thesis .
qed

lemma sextet_bit: "(v::32 word) < 64 \<Longrightarrow> bit v n \<Longrightarrow> n < 6"
  by (simp add: sextet_iff)

lemma byte_bit: "bit (b::byte) n \<Longrightarrow> n < 8"
  using bit_imp_le_length [of b n] by simp

lemmas suc_numerals = numeral_2_eq_2 [symmetric] numeral_3_eq_3 [symmetric]

lemma decode_byte0: "v1 < 64 \<Longrightarrow>
    (ucast (signed_drop_bit 4 (push_bit 6 (push_bit 6 bits OR v0) OR v1) AND (255::32 word)) :: byte) = D0 v0 v1"
  by (rule bit_word_eqI) (auto simp: D0_def bit_simps suc_numerals dest!: nat_cases8 dest: sextet_bit)

lemma decode_byte1: "v2 < 64 \<Longrightarrow>
    (ucast (signed_drop_bit 2 (push_bit 6 (push_bit 6 bits OR v1) OR v2) AND (255::32 word)) :: byte) = D1 v1 v2"
  by (rule bit_word_eqI) (auto simp: D1_def bit_simps suc_numerals dest!: nat_cases8 dest: sextet_bit)

lemma decode_byte2: "v3 < 64 \<Longrightarrow>
    (ucast (signed_drop_bit 0 (push_bit 6 (push_bit 6 bits OR v2) OR v3) AND (255::32 word)) :: byte) = D2 v2 v3"
  by (rule bit_word_eqI) (auto simp: D2_def bit_simps suc_numerals dest!: nat_cases8 dest: sextet_bit)

lemma D_E: "D0 (E0 b0) (E1 b0 b1) = b0" "D1 (E1 b0 b1) (E2 b1 b2) = b1" "D2 (E2 b1 b2) (E3 b2) = b2"
  by (rule bit_word_eqI; auto simp: D0_def D1_def D2_def E0_def E1_def E2_def E3_def bit_simps suc_numerals dest!: nat_cases8 dest: byte_bit)+

lemma int_bit_bound: "bit (k::int) n \<Longrightarrow> 0 \<le> k \<Longrightarrow> k < 2 ^ m \<Longrightarrow> n < m"
  by (metis bit_take_bit_iff take_bit_int_eq_self)

lemma E_less: "E0 b0 < 64" "E1 b0 b1 < 64" "E2 b1 b2 < 64" "E3 b2 < 64"
  by (auto simp: sextet_iff E0_def E1_def E2_def E3_def bit_simps dest!: byte_bit int_bit_bound [where m = 6])

lemma nat_cases6: "n < (6::nat) \<Longrightarrow> n = 0 \<or> n = 1 \<or> n = 2 \<or> n = 3 \<or> n = 4 \<or> n = 5" by linarith

lemma sextet_eqI: "v < 64 \<Longrightarrow> w < 64 \<Longrightarrow> (\<And>n. n < 6 \<Longrightarrow> bit v n = bit (w::32 word) n) \<Longrightarrow> v = w"
  by (rule bit_word_eqI) (metis sextet_bit)

lemma E_D: "v0 < 64 \<Longrightarrow> v1 < 64 \<Longrightarrow> E0 (D0 v0 v1) = v0"
  "v0 < 64 \<Longrightarrow> v1 < 64 \<Longrightarrow> v2 < 64 \<Longrightarrow> E1 (D0 v0 v1) (D1 v1 v2) = v1"
  "v1 < 64 \<Longrightarrow> v2 < 64 \<Longrightarrow> v3 < 64 \<Longrightarrow> E2 (D1 v1 v2) (D2 v2 v3) = v2"
  "v2 < 64 \<Longrightarrow> v3 < 64 \<Longrightarrow> E3 (D2 v2 v3) = v3"
  by (rule sextet_eqI; (simp add: E_less)?;
      auto simp: D0_def D1_def D2_def E0_def E1_def E2_def E3_def bit_simps suc_numerals
        dest!: nat_cases6 dest: sextet_bit)+

text \<open>Values whose low bits are zero need no further byte.\<close>

lemma E_D_short:
  "v0 < 64 \<Longrightarrow> v1 < 64 \<Longrightarrow> (\<And>n. n < 4 \<Longrightarrow> \<not> bit v1 n) \<Longrightarrow> E1 (D0 v0 v1) 0 = v1"
  "v1 < 64 \<Longrightarrow> v2 < 64 \<Longrightarrow> (\<And>n. n < 2 \<Longrightarrow> \<not> bit v2 n) \<Longrightarrow> E2 (D1 v1 v2) 0 = v2"
  by (rule sextet_eqI; (simp add: E_less)?;
      auto simp: D0_def D1_def E1_def E2_def bit_simps suc_numerals dest!: nat_cases6 dest: sextet_bit)+

lemma toBase64Url_E:
  "toBase64Url [b0] = [b64_code (E0 b0), b64_code (E1 b0 0)]"
  "toBase64Url [b0, b1] = [b64_code (E0 b0), b64_code (E1 b0 b1), b64_code (E2 b1 0)]"
  "toBase64Url (b0 # b1 # b2 # bs) =
     b64_code (E0 b0) # b64_code (E1 b0 b1) # b64_code (E2 b1 b2) # b64_code (E3 b2) # toBase64Url bs"
  by (simp_all add: E0_def E1_def E2_def E3_def)

lemma reverse_b64_code: "v < 64 \<Longrightarrow> b64_reverse (b64_code v) = Some (unat v)"
  by (simp add: b64_code_def reverse_code word_less_nat_alt)

lemma reverse_sextet:
  assumes "b64_reverse c = Some v"
  shows "of_nat v < (64 :: 32 word) \<and> b64_code (of_nat v) = c"
proof -
  from reverse_Some [OF assms] have v: "v < 64" "B64U_ALPHABET ! v = c" by auto
  then have "unat (of_nat v :: 32 word) = v" by (simp add: unat_of_nat take_bit_nat_eq_self)
  with v show ?thesis by (simp add: b64_code_def word_less_nat_alt)
qed

text \<open>Four values at a time: the bits left from before never reach a byte.\<close>

lemma decode_two:
  assumes "b64_reverse c0 = Some v0" "b64_reverse c1 = Some v1"
  shows "decode_loop (c0 # c1 # cs) bits 0 =
     map_option (\<lambda>(out, r). (D0 (of_nat v0) (of_nat v1) # out, r))
       (decode_loop cs (push_bit 6 (push_bit 6 bits OR of_nat v0) OR of_nat v1) 4)"
  using assms reverse_sextet [OF assms(2)] decode_byte0 [of "of_nat v1" bits "of_nat v0"]
  by (simp add: Let_def split: option.splits)

lemma decode_three:
  assumes "b64_reverse c2 = Some v2"
  shows "decode_loop (c2 # cs) (push_bit 6 bits OR w1) 4 =
     map_option (\<lambda>(out, r). (D1 w1 (of_nat v2) # out, r))
       (decode_loop cs (push_bit 6 (push_bit 6 bits OR w1) OR of_nat v2) 2)"
  using assms reverse_sextet [OF assms] decode_byte1 [of "of_nat v2" bits w1]
  by (simp add: Let_def split: option.splits)

lemma decode_four:
  assumes "b64_reverse c3 = Some v3"
  shows "decode_loop (c3 # cs) (push_bit 6 bits OR w2) 2 =
     map_option (\<lambda>(out, r). (D2 w2 (of_nat v3) # out, r))
       (decode_loop cs (push_bit 6 (push_bit 6 bits OR w2) OR of_nat v3) 0)"
  using assms reverse_sextet [OF assms] decode_byte2 [of "of_nat v3" bits w2]
  by (simp add: Let_def split: option.splits)

lemmas decode_steps = decode_two decode_three decode_four

text \<open>Values with zero trailing bits leave a remainder the last check accepts.\<close>

lemma trailing_zero:
  "(\<And>n. n < k \<Longrightarrow> \<not> bit v n) \<Longrightarrow> k \<le> 6 \<Longrightarrow> (push_bit 6 bits OR v) AND (push_bit k 1 - 1) = (0 :: 32 word)"
  by (rule bit_word_eqI) (auto simp: bit_simps bit_mask_iff simp flip: mask_eq_exp_minus_1 push_bit_eq_mult)

lemma trailing_zeroD:
  assumes "(push_bit 6 bits OR v) AND (push_bit k 1 - 1) = (0 :: 32 word)" "n < k" "k \<le> 6"
  shows "\<not> bit v n"
proof
  assume "bit v n"
  then have "bit ((push_bit 6 bits OR v) AND mask k) n" using assms(2,3) by (simp add: bit_simps bit_mask_iff)
  with assms(1) show False by (simp add: mask_eq_exp_minus_1 push_bit_eq_mult)
qed

lemma E_low: "n < 4 \<Longrightarrow> \<not> bit (E1 b0 0) n" "n < 2 \<Longrightarrow> \<not> bit (E2 b1 0) n"
  by (auto simp: E1_def E2_def bit_simps)

lemma unat_E [simp]: "of_nat (unat (E0 b0)) = E0 b0" "of_nat (unat (E1 b0 b1)) = E1 b0 b1"
  "of_nat (unat (E2 b1 b2)) = E2 b1 b2" "of_nat (unat (E3 b2)) = E3 b2"
  by simp_all

lemma decode_encode:
  "\<exists>bits' n. decode_loop (toBase64Url bs) bits 0 = Some (bs, bits', n) \<and> bits' AND (push_bit n 1 - 1) = 0"
proof (induction bs arbitrary: bits rule: toBase64Url.induct)
  case 1
  then show ?case by simp
next
  case (2 b0)
  let ?bits = "push_bit 6 (push_bit 6 bits OR E0 b0) OR E1 b0 0"
  have "decode_loop (toBase64Url [b0]) bits 0 = Some ([b0], ?bits, 4)"
    by (simp only: toBase64Url_E decode_two [OF reverse_b64_code reverse_b64_code] E_less) (simp add: D_E)
  moreover have "?bits AND (push_bit 4 1 - 1) = 0" by (rule trailing_zero) (simp_all add: E_low)
  ultimately show ?case by blast
next
  case (3 b0 b1)
  let ?bits = "push_bit 6 (push_bit 6 (push_bit 6 bits OR E0 b0) OR E1 b0 b1) OR E2 b1 0"
  have "decode_loop (toBase64Url [b0, b1]) bits 0 = Some ([b0, b1], ?bits, 2)"
    by (simp only: toBase64Url_E decode_two [OF reverse_b64_code reverse_b64_code] decode_three [OF reverse_b64_code] E_less)
       (simp add: D_E)
  moreover have "?bits AND (push_bit 2 1 - 1) = 0" by (rule trailing_zero) (simp_all add: E_low)
  ultimately show ?case by blast
next
  case (4 b0 b1 b2 bs)
  from "4.IH" [of "push_bit 6 (push_bit 6 (push_bit 6 (push_bit 6 bits OR E0 b0) OR E1 b0 b1) OR E2 b1 b2) OR E3 b2"]
  obtain bits' n where "decode_loop (toBase64Url bs) (push_bit 6 (push_bit 6 (push_bit 6 (push_bit 6 bits OR E0 b0) OR E1 b0 b1) OR E2 b1 b2) OR E3 b2) 0
      = Some (bs, bits', n)" "bits' AND (push_bit n 1 - 1) = 0" by blast
  then show ?case
    by (simp only: toBase64Url_E decode_two [OF reverse_b64_code reverse_b64_code] decode_three [OF reverse_b64_code]
        decode_four [OF reverse_b64_code] E_less unat_E) (simp add: D_E)
qed

text \<open>The converse: text that is accepted is the text the encoder writes.\<close>

lemma decode_loop_Cons:
  "decode_loop (c # cs) bits n = Some r \<Longrightarrow> \<exists>v. b64_reverse c = Some v"
  by (cases "b64_reverse c") auto

lemma encode_decode:
  "decode_loop str bits 0 = Some (out, bits', n) \<Longrightarrow> length str mod 4 \<noteq> 1 \<Longrightarrow>
     bits' AND (push_bit n 1 - 1) = 0 \<Longrightarrow> str = toBase64Url out"
proof (induction "length str" arbitrary: str bits out rule: less_induct)
  case less
  show ?case
  proof (cases str)
    case Nil
    with less.prems show ?thesis by simp
  next
    case c0: (Cons c0 t1)
    with less.prems(2) obtain c1 t2 where c1: "t1 = c1 # t2" by (cases t1) auto
    from less.prems(1) c0 obtain v0 where v0: "b64_reverse c0 = Some v0" using decode_loop_Cons by blast
    with less.prems(1) c0 c1 obtain v1 where v1: "b64_reverse c1 = Some v1"
      by (cases "b64_reverse c1") (auto simp: Let_def)
    note r0 = reverse_sextet [OF v0] and r1 = reverse_sextet [OF v1]
    let ?b1 = "push_bit 6 (push_bit 6 bits OR of_nat v0) OR of_nat v1"
    from less.prems(1) c0 c1 obtain out1 where o1: "out = D0 (of_nat v0) (of_nat v1) # out1"
        "decode_loop t2 ?b1 4 = Some (out1, bits', n)"
      by (auto simp only: decode_two [OF v0 v1] map_option_eq_Some prod.case prod.inject split: prod.splits)
    show ?thesis
    proof (cases t2)
      case Nil
      then have "out1 = []" "bits' = ?b1" "n = 4" using o1(2) by simp_all
      then have "?b1 AND (push_bit 4 1 - 1) = 0" using less.prems(3) by blast
      then have "\<not> bit (of_nat v1 :: 32 word) m" if "m < 4" for m
        by (rule trailing_zeroD) (use that in simp_all)
      with o1(1) \<open>out1 = []\<close> r0 r1 Nil c0 c1 show ?thesis
        by (simp only: toBase64Url_E) (simp add: E_D E_D_short)
    next
      case c2: (Cons c2 t3)
      then obtain v2 where v2: "b64_reverse c2 = Some v2" using o1(2) decode_loop_Cons by blast
      note r2 = reverse_sextet [OF v2]
      let ?b2 = "push_bit 6 ?b1 OR of_nat v2"
      from o1(2) c2 obtain out2 where o2: "out1 = D1 (of_nat v1) (of_nat v2) # out2"
          "decode_loop t3 ?b2 2 = Some (out2, bits', n)"
        by (auto simp only: decode_three [OF v2] map_option_eq_Some prod.case prod.inject split: prod.splits)
      show ?thesis
      proof (cases t3)
        case Nil
        then have "out2 = []" "bits' = ?b2" "n = 2" using o2(2) by simp_all
        then have "?b2 AND (push_bit 2 1 - 1) = 0" using less.prems(3) by blast
        then have "\<not> bit (of_nat v2 :: 32 word) m" if "m < 2" for m
          by (rule trailing_zeroD) (use that in simp_all)
        with o1(1) o2(1) \<open>out2 = []\<close> r0 r1 r2 Nil c0 c1 c2 show ?thesis
          by (simp only: toBase64Url_E) (simp add: E_D E_D_short)
      next
        case c3: (Cons c3 t4)
        then obtain v3 where v3: "b64_reverse c3 = Some v3" using o2(2) decode_loop_Cons by blast
        note r3 = reverse_sextet [OF v3]
        from o2(2) c3 obtain out3 where o3: "out2 = D2 (of_nat v2) (of_nat v3) # out3"
            "decode_loop t4 (push_bit 6 ?b2 OR of_nat v3) 0 = Some (out3, bits', n)"
          by (auto simp only: decode_four [OF v3] map_option_eq_Some prod.case prod.inject split: prod.splits)
        have "t4 = toBase64Url out3"
          using less.hyps [OF _ o3(2)] less.prems(2,3) c0 c1 c2 c3 by simp
        with o1(1) o2(1) o3(1) r0 r1 r2 r3 c0 c1 c2 c3 show ?thesis
          by (simp only: toBase64Url_E) (simp add: E_D)
      qed
    qed
  qed
qed

lemma base64UrlLength_3: "base64UrlLength (Suc (Suc (Suc n))) = base64UrlLength n + 4"
proof -
  have "Suc (Suc (Suc n)) div 3 = Suc (n div 3)" "Suc (Suc (Suc n)) mod 3 = n mod 3" by presburger+
  then show ?thesis by (simp add: base64UrlLength_def)
qed

lemma length_toBase64Url: "length (toBase64Url bs) = base64UrlLength (length bs)"
proof (induction bs rule: toBase64Url.induct)
  case (4 b0 b1 b2 bs)
  then show ?case by (simp add: base64UrlLength_3)
qed (simp_all add: base64UrlLength_def)

lemma toBase64Url_alphabet: "c \<in> set (toBase64Url bs) \<Longrightarrow> c \<in> set B64U_ALPHABET"
proof (induction bs rule: toBase64Url.induct)
  have code: "b64_code v \<in> set B64U_ALPHABET" if "v < 64" for v
    using that by (simp add: b64_code_def word_less_nat_alt)
  {
    case (2 b0)
    then show ?case unfolding toBase64Url_E using code E_less by auto
  next
    case (3 b0 b1)
    then show ?case unfolding toBase64Url_E using code E_less by auto
  next
    case (4 b0 b1 b2 bs)
    then show ?case unfolding toBase64Url_E using code E_less by auto
  }
qed simp

lemma base64UrlLength_mod: "base64UrlLength n mod 4 \<noteq> 1"
proof -
  consider "n mod 3 = 0" | "n mod 3 = 1" | "n mod 3 = 2" by linarith
  then show ?thesis unfolding base64UrlLength_def by cases presburger+
qed

lemma from_to_base64: "fromBase64Url (toBase64Url bs) = Some bs"
proof -
  have "toBase64Url bs = [] \<or> last (toBase64Url bs) \<noteq> CHR ''=''"
  proof (rule disjCI)
    assume "\<not> last (toBase64Url bs) \<noteq> CHR ''=''"
    moreover have "CHR ''='' \<notin> set B64U_ALPHABET" by (simp add: B64U_ALPHABET_def)
    ultimately show "toBase64Url bs = []" using toBase64Url_alphabet last_in_set by metis
  qed
  then have body: "rev (dropWhile (\<lambda>c. c = CHR ''='') (rev (toBase64Url bs))) = toBase64Url bs"
    by (cases "rev (toBase64Url bs)") (auto simp: last_rev [symmetric] hd_rev)
  from decode_encode [of bs 0] obtain bits n where
    "decode_loop (toBase64Url bs) 0 0 = Some (bs, bits, n)" "bits AND (push_bit n 1 - 1) = 0" by blast
  then show ?thesis by (simp add: fromBase64Url_def body length_toBase64Url base64UrlLength_mod [simplified])
qed

lemma to_from_base64:
  assumes "fromBase64Url s = Some bs"
  shows "\<exists>k. s = toBase64Url bs @ replicate k CHR ''=''"
proof -
  define body where "body = rev (dropWhile (\<lambda>c. c = CHR ''='') (rev s))"
  define pad where "pad = takeWhile (\<lambda>c. c = CHR ''='') (rev s)"
  have "s = rev (pad @ dropWhile (\<lambda>c. c = CHR ''='') (rev s))" by (simp add: pad_def)
  then have s: "s = body @ rev pad" by (simp add: body_def)
  have "\<forall>c \<in> set (rev pad). c = CHR ''=''" by (auto simp: pad_def dest: set_takeWhileD)
  then have pads: "rev pad = replicate (length pad) CHR ''=''" by (metis length_rev replicate_eqI)
  from assms obtain bits n where "decode_loop body 0 0 = Some (bs, bits, n)" "length body mod 4 \<noteq> 1"
    "bits AND (push_bit n 1 - 1) = 0"
    by (auto simp: fromBase64Url_def body_def [symmetric] Let_def split: if_splits option.splits)
  then have "body = toBase64Url bs" by (rule encode_decode)
  with s pads show ?thesis by metis
qed

section \<open>Framing\<close>

lemma length_set_bytes: "i + length part \<le> length out \<Longrightarrow> length (set_bytes out part i) = length out"
  by (simp add: set_bytes_def)

text \<open>The four bytes of a length.\<close>

definition be32 :: "32 word \<Rightarrow> byte list" where
  "be32 v = [ucast (drop_bit 24 v AND 255), ucast (drop_bit 16 v AND 255), ucast (drop_bit 8 v AND 255), ucast (v AND 255)]"

lemma length_be32 [simp]: "length (be32 v) = 4"
  by (simp add: be32_def)

lemma write_be32: "writeUint32BE (pre @ a # b # c # d # post) (length pre) v = pre @ be32 v @ post"
  by (simp add: writeUint32BE_def be32_def list_update_append)

lemma be32_read:
  "unat (ucast (drop_bit 24 v AND 255) :: byte) * 2 ^ 24 + unat (ucast (drop_bit 16 v AND 255) :: byte) * 2 ^ 16 +
   unat (ucast (drop_bit 8 v AND 255) :: byte) * 2 ^ 8 + unat (ucast (v AND 255) :: byte) = unat (v :: 32 word)"
proof -
  have m: "unat (ucast (drop_bit k v AND 255) :: byte) = unat v div 2 ^ k mod 256" for k
  proof -
    have "(255 :: 32 word) = mask 8" by (simp add: mask_eq_exp_minus_1)
    then have "ucast (drop_bit k v AND 255) = (ucast (take_bit 8 (drop_bit k v)) :: byte)"
      by (simp only: take_bit_eq_mask)
    then have "unat (ucast (drop_bit k v AND 255) :: byte) = take_bit 8 (take_bit 8 (drop_bit k (unat v)))"
      using unsigned_less [where 'a = nat, of v]
      by (simp add: unsigned_ucast_eq unsigned_take_bit_eq unsigned_drop_bit_eq take_bit_nat_eq_self)
    then show ?thesis by (simp add: take_bit_eq_mod drop_bit_eq_div)
  qed
  have "unat v < 2 ^ 32" using unsigned_less [where 'a = nat, of v] by simp
  then have top: "unat v div 2 ^ 24 mod 256 = unat v div 2 ^ 24" by (simp add: less_mult_imp_div_less)
  define q1 where "q1 = unat v div 256"
  define q2 where "q2 = q1 div 256"
  have qs: "unat v div 2 ^ 8 = q1" "unat v div 2 ^ 16 = q2" "unat v div 2 ^ 24 = q2 div 256"
    unfolding q2_def q1_def by (simp_all add: div_mult2_eq [symmetric])
  have "q1 * 256 + unat v mod 256 = unat v" "q2 * 256 + q1 mod 256 = q1" "q2 div 256 * 256 + q2 mod 256 = q2"
    by (simp_all add: q1_def q2_def)
  then have "q2 div 256 * 16777216 + q2 mod 256 * 65536 + q1 mod 256 * 256 + unat v mod 256 = unat v" by linarith
  moreover have "unat (ucast (v AND 255) :: byte) = unat v mod 256" using m [of 0] by simp
  ultimately show ?thesis unfolding m using top qs by simp
qed

lemma read_be32: "readUint32BE (pre @ be32 v @ post) (length pre) = Some (unat v)"
proof -
  have "(pre @ be32 v @ post) ! (length pre + k) = be32 v ! k" if "k < 4" for k
    using that by (simp add: nth_append)
  from this [of 0] this [of 1] this [of 2] this [of 3] show ?thesis
    using be32_read [of v] by (simp add: readUint32BE_def be32_def)
qed

lemma be32_inject: "be32 v = be32 w \<longleftrightarrow> v = w"
proof
  assume eq: "be32 v = be32 w"
  have "Some (unat v) = Some (unat w)" using read_be32 [of "[]" v "[]"] read_be32 [of "[]" w "[]"] eq by simp
  then show "v = w" by (simp add: word_unat_eq_iff)
qed simp

text \<open>What the loop of \<open>lengthPrefixedConcat\<close> builds: a length and the part, one after the other.\<close>

definition frame :: "byte list \<Rightarrow> byte list" where
  "frame p = be32 (of_nat (length p)) @ p"

lemma write_frame:
  assumes "length rest = UINT32_SIZE + length part"
  shows "set_bytes (writeUint32BE (pre @ rest @ post) (length pre) (of_nat (length part))) part (length pre + UINT32_SIZE) =
    pre @ frame part @ post"
proof -
  from assms obtain a b c d rest' where rest: "rest = a # b # c # d # rest'" "length rest' = length part"
    by (auto simp: UINT32_SIZE_def numeral_eq_Suc length_Suc_conv)
  then show ?thesis
    using write_be32 [of pre a b c d "rest' @ post" "of_nat (length part)"]
    by (simp add: set_bytes_def UINT32_SIZE_def frame_def)
qed

lemma lengthPrefixed_loop:
  "fold (\<lambda>part (out, i).
         (set_bytes (writeUint32BE out i (of_nat (length part))) part (i + UINT32_SIZE), i + (UINT32_SIZE + length part)))
     parts (pre @ replicate (sum_list (map (\<lambda>p. UINT32_SIZE + length p) parts)) 0, length pre) =
   (pre @ concat (map frame parts), length pre + sum_list (map (\<lambda>p. UINT32_SIZE + length p) parts))"
proof (induction parts arbitrary: pre)
  case (Cons p ps)
  have len: "length (frame p) = UINT32_SIZE + length p" by (simp add: frame_def UINT32_SIZE_def)
  have "pre @ replicate (sum_list (map (\<lambda>p. UINT32_SIZE + length p) (p # ps))) 0 =
      pre @ replicate (UINT32_SIZE + length p) 0 @ replicate (sum_list (map (\<lambda>p. UINT32_SIZE + length p) ps)) 0"
    by (simp add: replicate_add)
  with write_frame [of "replicate (UINT32_SIZE + length p) 0" p pre] Cons.IH [of "pre @ frame p"] len
  show ?case by (simp add: add.assoc)
qed simp

lemma lengthPrefixedConcat_eq: "lengthPrefixedConcat parts = concat (map frame parts)"
  using lengthPrefixed_loop [of parts "[]"] by (simp add: lengthPrefixedConcat_def)

lemma concatBytes_loop:
  "fold (\<lambda>part (out, i). (set_bytes out part i, i + length part)) parts
     (pre @ replicate (sum_list (map length parts)) 0, length pre) =
   (pre @ concat parts, length pre + sum_list (map length parts))"
proof (induction parts arbitrary: pre)
  case (Cons p ps)
  have "set_bytes (pre @ replicate (sum_list (map length (p # ps))) 0) p (length pre) =
      (pre @ p) @ replicate (sum_list (map length ps)) 0"
    by (simp add: set_bytes_def)
  with Cons.IH [of "pre @ p"] show ?case by (simp add: add.assoc)
qed simp

lemma concatBytes_eq: "concatBytes parts = concat parts"
  using concatBytes_loop [of parts "[]"] by (simp add: concatBytes_def)

lemma frame_inject:
  assumes "frame p @ xs = frame q @ ys" "length p < 2 ^ 32" "length q < 2 ^ 32"
  shows "p = q \<and> xs = ys"
proof -
  from assms(1) have "be32 (of_nat (length p)) = be32 (of_nat (length q))" and rest: "p @ xs = q @ ys"
    by (auto simp: frame_def append_eq_append_conv)
  then have "(of_nat (length p) :: 32 word) = of_nat (length q)" by (simp add: be32_inject)
  then have "unat (of_nat (length p) :: 32 word) = unat (of_nat (length q) :: 32 word)" by simp
  then have "length p = length q" using assms(2,3) by (simp add: unat_of_nat take_bit_nat_eq_self)
  with rest show ?thesis by simp
qed

lemma frames_inject:
  assumes "concat (map frame ps) = concat (map frame qs)"
    and "\<And>p. p \<in> set ps \<Longrightarrow> length p < 2 ^ 32" and "\<And>q. q \<in> set qs \<Longrightarrow> length q < 2 ^ 32"
  shows "ps = qs"
  using assms
proof (induction ps arbitrary: qs)
  case Nil
  then show ?case by (cases qs) (auto simp: frame_def be32_def)
next
  case (Cons p ps)
  then obtain q qs' where q: "qs = q # qs'" by (cases qs) (auto simp: frame_def be32_def)
  with Cons.prems have "p = q \<and> concat (map frame ps) = concat (map frame qs')"
    by (intro frame_inject) auto
  with Cons.IH [of qs'] Cons.prems q show ?case by simp
qed

lemma xor_zero: "(a::byte) XOR b = 0 \<longleftrightarrow> a = b"
  by (metis xor.assoc xor.left_neutral xor.right_neutral xor_self_eq)

lemma diff_bytes_zero: "length a = length b \<Longrightarrow> diff_bytes a b d = 0 \<longleftrightarrow> d = 0 \<and> a = b"
proof (induction a b d rule: diff_bytes.induct)
  case (1 a as b bs d)
  then show ?case by (auto simp: or_eq_0_iff xor_zero)
qed auto

section \<open>Properties of the byte helpers\<close>

text \<open>Encoding and decoding round trip, and the encoded text has the length the size checks use.\<close>

theorem base64_roundtrip:
  "fromBase64Url (toBase64Url bs) = Some bs \<and> length (toBase64Url bs) = base64UrlLength (length bs)"
  by (simp add: from_to_base64 length_toBase64Url)

text \<open>C26: a byte string has exactly one accepted spelling: whatever the decoder accepts is the
  encoder's text, followed by padding at most.\<close>

theorem base64_canonical:
  assumes "fromBase64Url s = Some bs"
  shows "\<exists>k. s = toBase64Url bs @ replicate k CHR ''=''"
  by (rule to_from_base64 [OF assms])

theorem base64_canonical_witness: "\<exists>k. ''TWFu='' = toBase64Url [77, 97, 110] @ replicate k CHR ''=''"
  by (rule base64_canonical) code_simp

text \<open>Length-prefixed concatenation keeps field boundaries: two lists of parts with the same
  bytes are the same list.\<close>

theorem lengthPrefixedConcat_injective:
  assumes "\<forall>p \<in> set ps \<union> set qs. length p < 2 ^ 32"
  shows "lengthPrefixedConcat ps = lengthPrefixedConcat qs \<longleftrightarrow> ps = qs"
  using frames_inject [of ps qs] assms by (auto simp: lengthPrefixedConcat_eq)

theorem lengthPrefixedConcat_injective_witness:
  "lengthPrefixedConcat [[97, 98], [99]] \<noteq> lengthPrefixedConcat [[97], [98, 99]]"
  using lengthPrefixedConcat_injective [of "[[97, 98], [99]]" "[[97], [98, 99]]"] by simp

text \<open>The comparison without early exit decides equality of byte strings.\<close>

theorem constantTimeEqual_correct: "constantTimeEqual a b \<longleftrightarrow> a = b"
  by (auto simp: constantTimeEqual_def diff_bytes_zero)

end
