(* ===== verification/Token_Bucket.thy ===== *)
theory Token_Bucket
  imports Dormouse_Prelude
begin

text \<open>
  The token bucket that limits handshakes (\<open>remote-lib-common/src/security/token-bucket.ts\<close>). Times
  are integers of milliseconds and come from the caller's clock, which may also go back. The lemmas
  bound the tokens any sequence of calls can spend, whatever the clock does, and show that the
  wait a refusal names is enough.
\<close>

section \<open>The bucket\<close>

record token_bucket =
  capacity :: int
  refillIntervalMs :: int
  tokens :: int
  lastRefillAt :: int

definition js_safe_integer :: "jsnum \<Rightarrow> int option" where
  "js_safe_integer x = (case js_integer x of
      Some i \<Rightarrow> if \<bar>i\<bar> \<le> 2 ^ 53 - 1 then Some i else None
    | None \<Rightarrow> None)"

datatype bucket_error = BadCapacity | BadInterval

definition new_bucket :: "jsnum \<Rightarrow> jsnum \<Rightarrow> int \<Rightarrow> bucket_error + token_bucket" where
  "new_bucket cap interval now = (case js_safe_integer cap of
      None \<Rightarrow> Inl BadCapacity
    | Some c \<Rightarrow>
        if c < 1 then Inl BadCapacity
        else (case js_safe_integer interval of
            None \<Rightarrow> Inl BadInterval
          | Some i \<Rightarrow>
              if i < 1 then Inl BadInterval
              else Inr \<lparr>capacity = c, refillIntervalMs = i, tokens = c, lastRefillAt = now\<rparr>))"

text \<open>\<open>take\<close>: \<open>None\<close> for a token spent, otherwise the time to wait.\<close>

definition refilled :: "token_bucket \<Rightarrow> int \<Rightarrow> token_bucket" where
  "refilled b now =
     (let refill = max 0 (now - lastRefillAt b) div refillIntervalMs b in
      if refill > 0
      then b\<lparr>tokens := min (capacity b) (tokens b + refill), lastRefillAt := lastRefillAt b + refill * refillIntervalMs b\<rparr>
      else b)"

definition take_token :: "token_bucket \<Rightarrow> int \<Rightarrow> token_bucket \<times> int option" where
  "take_token b now =
     (let elapsed = max 0 (now - lastRefillAt b); b' = refilled b now in
      if tokens b' > 0 then (b'\<lparr>tokens := tokens b' - 1\<rparr>, None)
      else (b', Some (max 1 (refillIntervalMs b' - elapsed))))"

text \<open>A sequence of calls at the given clock readings, and how many of them spend a token.\<close>

fun run_bucket :: "token_bucket \<Rightarrow> int list \<Rightarrow> token_bucket \<times> nat" where
  "run_bucket b [] = (b, 0)"
| "run_bucket b (now # nows) =
     (let (b1, r) = take_token b now; (b2, n) = run_bucket b1 nows
      in (b2, n + (if r = None then 1 else 0)))"

definition bucket_ok :: "token_bucket \<Rightarrow> bool" where
  "bucket_ok b = (1 \<le> capacity b \<and> 1 \<le> refillIntervalMs b \<and> 0 \<le> tokens b \<and> tokens b \<le> capacity b)"

section \<open>Invariant\<close>

lemma new_bucket_ok:
  assumes "new_bucket cap interval now = Inr b"
  shows "bucket_ok b \<and> tokens b = capacity b \<and> lastRefillAt b = now"
  using assms by (auto simp: new_bucket_def bucket_ok_def split: option.splits if_splits)

lemma take_token_fixed:
  "capacity (fst (take_token b now)) = capacity b" "refillIntervalMs (fst (take_token b now)) = refillIntervalMs b"
  by (simp_all add: take_token_def refilled_def Let_def)

lemma take_token_ok: "bucket_ok b \<Longrightarrow> bucket_ok (fst (take_token b now))"
  by (auto simp: bucket_ok_def take_token_def refilled_def Let_def)

inductive bucket_step :: "token_bucket \<Rightarrow> token_bucket \<Rightarrow> bool" where
  take: "bucket_step b (fst (take_token b now))"

interpretation bucket: step_system "\<lambda>b. \<exists>cap interval now. new_bucket cap interval now = Inr b" bucket_step bucket_ok
proof unfold_locales
  show "bucket_ok b" if "\<exists>cap interval now. new_bucket cap interval now = Inr b" for b
    using that new_bucket_ok by blast
  show "bucket_ok b'" if "bucket_step b b'" "bucket_ok b" for b b'
    using that by (auto elim: bucket_step.cases simp: take_token_ok)
qed

text \<open>What one call may spend: a token it had, or one that the clock paid for with a whole interval.
  The refill mark never passes the clock.\<close>

lemma take_token_paid:
  assumes "bucket_ok b"
  shows "\<exists>k \<ge> 0. lastRefillAt (fst (take_token b now)) = lastRefillAt b + k * refillIntervalMs b \<and>
     lastRefillAt (fst (take_token b now)) \<le> max (lastRefillAt b) now \<and>
     tokens (fst (take_token b now)) + (if snd (take_token b now) = None then 1 else 0) \<le> tokens b + k"
proof -
  define k where "k = max 0 (now - lastRefillAt b) div refillIntervalMs b"
  have i: "1 \<le> refillIntervalMs b" using assms by (simp add: bucket_ok_def)
  then have k: "0 \<le> k" by (simp add: k_def pos_imp_zdiv_nonneg_iff)
  have "k * refillIntervalMs b \<le> max 0 (now - lastRefillAt b)"
    unfolding k_def using i pos_mod_sign [of "refillIntervalMs b" "max 0 (now - lastRefillAt b)"]
    by (simp add: minus_mod_eq_div_mult [symmetric])
  then have le: "lastRefillAt b + k * refillIntervalMs b \<le> max (lastRefillAt b) now" by (simp add: max_def split: if_splits)
  show ?thesis
  proof (cases "k = 0")
    case True
    then show ?thesis using le by (intro exI [of _ 0]) (auto simp: take_token_def refilled_def Let_def k_def [symmetric])
  next
    case False
    with k le show ?thesis by (intro exI [of _ k]) (auto simp: take_token_def refilled_def Let_def k_def [symmetric])
  qed
qed

lemma run_bucket_paid:
  assumes "bucket_ok b"
  shows "\<exists>k \<ge> 0. lastRefillAt b + k * refillIntervalMs b \<le> foldr max nows (lastRefillAt b) \<and>
     int (snd (run_bucket b nows)) \<le> tokens b + k"
  using assms
proof (induction nows arbitrary: b)
  case Nil
  then show ?case by (intro exI [of _ 0]) (auto simp: bucket_ok_def)
next
  case (Cons now nows)
  let ?b = "fst (take_token b now)"
  from take_token_paid [OF Cons.prems, of now] obtain k where k: "0 \<le> k"
    "lastRefillAt ?b = lastRefillAt b + k * refillIntervalMs b" "lastRefillAt ?b \<le> max (lastRefillAt b) now"
    "tokens ?b + (if snd (take_token b now) = None then 1 else 0) \<le> tokens b + k" by blast
  from Cons.IH [OF take_token_ok [OF Cons.prems, of now]] obtain m where m: "0 \<le> m"
    "lastRefillAt ?b + m * refillIntervalMs b \<le> foldr max nows (lastRefillAt ?b)"
    "int (snd (run_bucket ?b nows)) \<le> tokens ?b + m" by (auto simp: take_token_fixed)
  have "foldr max nows x \<le> max y (foldr max nows z)" if "x \<le> max z y" for x y z :: int
    using that by (induction nows) auto
  from this [OF k(3)] m(2) k(2) have "lastRefillAt b + (k + m) * refillIntervalMs b \<le> foldr max (now # nows) (lastRefillAt b)"
    by (simp add: distrib_right)
  moreover have "int (snd (run_bucket b (now # nows))) \<le> tokens b + (k + m)"
    using k(4) m(3) by (auto simp: Let_def split: prod.splits)
  ultimately show ?case using k(1) m(1) by (intro exI [of _ "k + m"]) simp
qed

section \<open>Properties\<close>

text \<open>C33: however often the bucket is asked and whatever its clock does, the tokens spent are at most
  its capacity and one for each whole interval up to the latest clock reading.\<close>

theorem token_rate_bound:
  assumes "new_bucket cap interval start = Inr b"
  shows "int (snd (run_bucket b nows)) \<le> capacity b + (foldr max nows start - start) div refillIntervalMs b"
proof -
  from new_bucket_ok [OF assms] have ok: "bucket_ok b" and b: "tokens b = capacity b" "lastRefillAt b = start" by auto
  from run_bucket_paid [OF ok, of nows] b obtain k where "start + k * refillIntervalMs b \<le> foldr max nows start"
    and spent: "int (snd (run_bucket b nows)) \<le> capacity b + k" by auto
  then have k: "k * refillIntervalMs b \<le> foldr max nows start - start" by simp
  have "k \<le> (foldr max nows start - start) div refillIntervalMs b"
    using zdiv_mono1 [OF k, of "refillIntervalMs b"] ok by (simp add: bucket_ok_def)
  with spent show ?thesis by simp
qed

definition init_bucket :: token_bucket where
  "init_bucket = \<lparr>capacity = 8, refillIntervalMs = 1000, tokens = 8, lastRefillAt = 0\<rparr>"

lemma init_bucket_new: "new_bucket (JFin 8) (JFin 1000) 0 = Inr init_bucket"
  using js_integer_of_int [of 8] js_integer_of_int [of 1000]
  by (simp add: new_bucket_def js_safe_integer_def init_bucket_def del: js_integer_of_int)

theorem token_rate_bound_witness: "int (snd (run_bucket init_bucket [0, 0, 0, 0, 0, 0, 0, 0, 2500, 2500, 2500, 1700, 2500])) \<le> 10"
  using token_rate_bound [OF init_bucket_new, of "[0, 0, 0, 0, 0, 0, 0, 0, 2500, 2500, 2500, 1700, 2500]"] by (simp add: init_bucket_def)

text \<open>A refusal names a positive wait, and asking again after that wait succeeds, if the clock had
  not gone back before the last refill.\<close>

theorem take_token_wait:
  assumes "bucket_ok b" and "take_token b now = (b', Some w)" and "lastRefillAt b \<le> now"
  shows "0 < w \<and> snd (take_token b' (now + w)) = None"
proof -
  have i: "1 \<le> refillIntervalMs b" using assms(1) by (simp add: bucket_ok_def)
  let ?k = "(now - lastRefillAt b) div refillIntervalMs b"
  have k: "\<not> ?k > 0" using assms by (auto simp: take_token_def refilled_def Let_def bucket_ok_def split: if_splits)
  then have "now - lastRefillAt b < refillIntervalMs b" using i by (simp add: pos_imp_zdiv_pos_iff)
  with assms k have "b' = b" "w = refillIntervalMs b - (now - lastRefillAt b)"
    by (auto simp: take_token_def refilled_def Let_def split: if_splits)
  then show ?thesis using i assms(1) \<open>now - lastRefillAt b < refillIntervalMs b\<close>
    by (auto simp: take_token_def refilled_def Let_def bucket_ok_def)
qed

theorem take_token_wait_witness:
  "0 < (750 :: int) \<and> snd (take_token \<lparr>capacity = 8, refillIntervalMs = 1000, tokens = 0, lastRefillAt = 0\<rparr> (250 + 750)) = None"
  by (rule take_token_wait [of "\<lparr>capacity = 8, refillIntervalMs = 1000, tokens = 0, lastRefillAt = 0\<rparr>"])
     (simp_all add: bucket_ok_def take_token_def refilled_def)

end
