(* ===== verification/Presence_Window.thy ===== *)
theory Presence_Window
  imports Dormouse_Prelude
begin

text \<open>
  Presence windows (\<open>remote-lib-common/src/security/presence-window.ts\<close>): the Burrow's memory of the
  presence proofs it verified, with an idle bound and a hard cap. Times are integers of
  milliseconds. The lemmas tie every open window to the latest proof for its key: no activity,
  clock or order of calls opens one without it, past the cap, or after it was closed.
\<close>

section \<open>The store\<close>

definition PRESENCE_WINDOW_IDLE_MS :: int where "PRESENCE_WINDOW_IDLE_MS = 300000"
definition PRESENCE_WINDOW_MAX_MS :: int where "PRESENCE_WINDOW_MAX_MS = 12 * 60 * 60 * 1000"

record presence_record =
  pw_accountId :: string
  pw_passkeyCredentialId :: string
  pw_passkeyPublicKeyHash :: string

record presence_entry =
  identities :: presence_record
  provedAt :: int
  activeAt :: int

type_synonym presence_windows = "(string \<times> presence_entry) list"

definition sweepCapped :: "int \<Rightarrow> presence_windows \<Rightarrow> presence_windows" where
  "sweepCapped now ws = filter (\<lambda>(k, e). \<not> now - provedAt e \<ge> PRESENCE_WINDOW_MAX_MS) ws"

definition seed_window :: "int \<Rightarrow> string \<Rightarrow> presence_record \<Rightarrow> int \<Rightarrow> presence_windows \<Rightarrow> presence_windows" where
  "seed_window now key r proved ws =
     js_map_set key \<lparr>identities = r, provedAt = proved, activeAt = proved\<rparr> (sweepCapped now ws)"

definition noteActivity :: "string \<Rightarrow> int \<Rightarrow> presence_windows \<Rightarrow> presence_windows" where
  "noteActivity key t ws = (case map_of ws key of
      None \<Rightarrow> ws
    | Some e \<Rightarrow> if t \<le> activeAt e then ws else js_map_set key (e\<lparr>activeAt := t\<rparr>) ws)"

definition open_window :: "int \<Rightarrow> string \<Rightarrow> presence_windows \<Rightarrow> presence_windows \<times> presence_entry option" where
  "open_window now key ws = (case map_of ws key of
      None \<Rightarrow> (ws, None)
    | Some e \<Rightarrow>
        if now - activeAt e < PRESENCE_WINDOW_IDLE_MS \<and> now - provedAt e < PRESENCE_WINDOW_MAX_MS
        then (ws, Some e) else (js_map_delete key ws, None))"

definition clear_windows :: "presence_windows \<Rightarrow> presence_windows" where
  "clear_windows ws = []"

definition forget_window :: "string \<Rightarrow> presence_windows \<Rightarrow> presence_windows" where
  "forget_window key ws = js_map_delete key ws"

text \<open>The calls a Burrow makes, with the clock they read.\<close>

datatype window_op =
    Seed int string presence_record int
  | Note string int
  | Open int string
  | Clear
  | Forget string

fun apply_op :: "window_op \<Rightarrow> presence_windows \<Rightarrow> presence_windows" where
  "apply_op (Seed now key r proved) ws = seed_window now key r proved ws"
| "apply_op (Note key t) ws = noteActivity key t ws"
| "apply_op (Open now key) ws = fst (open_window now key ws)"
| "apply_op Clear ws = clear_windows ws"
| "apply_op (Forget key) ws = forget_window key ws"

section \<open>What a window stands for\<close>

text \<open>The abstract meaning of a history for one key: the latest proof that no later \<open>clear\<close> or
  \<open>forget\<close> cancelled, with the latest activity noted since.\<close>

fun proof_step :: "string \<Rightarrow> window_op \<Rightarrow> presence_entry option \<Rightarrow> presence_entry option" where
  "proof_step key (Seed now k r proved) p =
     (if k = key then Some \<lparr>identities = r, provedAt = proved, activeAt = proved\<rparr> else p)"
| "proof_step key (Note k t) p =
     (if k = key then map_option (\<lambda>e. e\<lparr>activeAt := max (activeAt e) t\<rparr>) p else p)"
| "proof_step key (Open now k) p = p"
| "proof_step key Clear p = None"
| "proof_step key (Forget k) p = (if k = key then None else p)"

definition latest_proof :: "string \<Rightarrow> window_op list \<Rightarrow> presence_entry option" where
  "latest_proof key ops = fold (proof_step key) ops None"

lemma apply_op_distinct: "distinct (map fst ws) \<Longrightarrow> distinct (map fst (apply_op c ws))"
  by (cases c) (auto simp: seed_window_def sweepCapped_def noteActivity_def open_window_def clear_windows_def forget_window_def
      js_map_set_distinct js_map_delete_distinct distinct_map_filter split: option.splits)

lemma map_of_filter_le:
  assumes "distinct (map fst m)" "map_of (filter P m) k = Some v"
  shows "map_of m k = Some v"
  using assms map_of_SomeD [OF assms(2)] by simp

text \<open>Each call keeps the store within the abstract meaning: an entry is there only if the meaning
  has it, and then it is the same.\<close>

lemma apply_op_refines:
  assumes "distinct (map fst ws)" "\<And>e. map_of ws key = Some e \<Longrightarrow> p = Some e" "map_of (apply_op c ws) key = Some e"
  shows "proof_step key c p = Some e"
proof (cases c)
  case (Seed now k r proved)
  show ?thesis
  proof (cases "k = key")
    case False
    with Seed assms(3) have "map_of (sweepCapped now ws) key = Some e" by (simp add: seed_window_def map_of_js_map_set)
    then have "map_of ws key = Some e" unfolding sweepCapped_def by (rule map_of_filter_le [OF assms(1)])
    with Seed False assms(2) show ?thesis by simp
  qed (use Seed assms(3) in \<open>simp add: seed_window_def map_of_js_map_set\<close>)
next
  case (Note k t)
  then show ?thesis using assms(2,3)
    by (auto simp: noteActivity_def map_of_js_map_set max_def split: option.splits if_splits)
qed (use assms(2,3) in \<open>auto simp: open_window_def clear_windows_def forget_window_def map_of_js_map_delete
      split: option.splits if_splits\<close>)

lemma run_ops_refines:
  "distinct (map fst (fold apply_op ops [])) \<and>
   (\<forall>e. map_of (fold apply_op ops []) key = Some e \<longrightarrow> latest_proof key ops = Some e)"
proof (induction ops rule: rev_induct)
  case (snoc c ops)
  then show ?case using apply_op_refines [of "fold apply_op ops []" key "latest_proof key ops" c] apply_op_distinct
    by (auto simp: latest_proof_def)
qed (simp add: latest_proof_def)

section \<open>Properties\<close>

text \<open>C34: after any history of calls, an open window is the latest proof verified for that key and not
  closed since, with the latest activity noted since it; it is less than twelve hours old and
  its Client was active in the last five minutes.\<close>

theorem open_window_proved:
  assumes "snd (open_window now key (fold apply_op ops [])) = Some e"
  shows "latest_proof key ops = Some e \<and> now - provedAt e < PRESENCE_WINDOW_MAX_MS \<and> now - activeAt e < PRESENCE_WINDOW_IDLE_MS"
  using assms run_ops_refines [of ops key] by (auto simp: open_window_def split: option.splits if_splits)

definition window_demo :: "window_op list" where
  "window_demo = [Seed 0 ''k'' \<lparr>pw_accountId = ''a'', pw_passkeyCredentialId = ''p'', pw_passkeyPublicKeyHash = ''h''\<rparr> 0, Note ''k'' 1000]"

theorem open_window_proved_witness:
  "latest_proof ''k'' window_demo =
     Some \<lparr>identities = \<lparr>pw_accountId = ''a'', pw_passkeyCredentialId = ''p'', pw_passkeyPublicKeyHash = ''h''\<rparr>,
           provedAt = 0, activeAt = 1000\<rparr>"
  using open_window_proved [of 2000 "''k''" window_demo]
  by (simp add: window_demo_def open_window_def seed_window_def sweepCapped_def noteActivity_def
      PRESENCE_WINDOW_IDLE_MS_def PRESENCE_WINDOW_MAX_MS_def)

text \<open>A verified proof opens the window at once, for every clock within the bounds, and a
  forgotten key stays closed until the next proof.\<close>

theorem seed_opens_forget_closes:
  assumes "0 \<le> now - proved" and "now - proved < PRESENCE_WINDOW_IDLE_MS"
  shows "snd (open_window now key (seed_window now' key r proved ws)) = Some \<lparr>identities = r, provedAt = proved, activeAt = proved\<rparr> \<and>
         snd (open_window now'' key (forget_window key ws)) = None"
  using assms
  by (simp add: open_window_def seed_window_def forget_window_def map_of_js_map_set map_of_js_map_delete
      PRESENCE_WINDOW_IDLE_MS_def PRESENCE_WINDOW_MAX_MS_def)

theorem seed_opens_forget_closes_witness:
  "snd (open_window 5000 ''k'' (seed_window 4000 ''k'' \<lparr>pw_accountId = ''a'', pw_passkeyCredentialId = ''p'', pw_passkeyPublicKeyHash = ''h''\<rparr> 4000 [])) \<noteq> None"
  using seed_opens_forget_closes [of 5000 4000 "''k''" 4000] by (simp add: PRESENCE_WINDOW_IDLE_MS_def)

end
