(* ===== verification/Noise_Cipher.thy ===== *)
theory Noise_Cipher
  imports Sec_Bytes
begin

text \<open>
  The Noise cipher state (\<open>remote-lib-common/src/security/noise.ts\<close>): a key and a counter. The cipher
  itself is a third-party package and a parameter of the model, \<open>aead\<close>: what the code relies on is
  the predicate \<open>aead_ok\<close>, that decryption undoes encryption under the same key, nonce and associated
  data, and that a ciphertext is a tag longer. The lemmas show that no nonce is used twice, that a
  rejected message does not move the counter, and that two states in step carry every message.
\<close>

section \<open>Constants and errors\<close>

definition NOISE_MAX_MESSAGE_LENGTH :: nat where "NOISE_MAX_MESSAGE_LENGTH = 65535"
definition NOISE_KEY_LENGTH :: nat where "NOISE_KEY_LENGTH = 32"
definition NOISE_TAG_LENGTH :: nat where "NOISE_TAG_LENGTH = 16"
definition RESERVED_NONCE :: int where "RESERVED_NONCE = 0xffffffffffffffff"

datatype noise_error =
    NegativeNonce
  | NonceExhausted
  | BadKeyLength
  | MessageTooLong
  | AuthenticationFailed

section \<open>The cipher as a parameter\<close>

record aead =
  seal :: "byte list \<Rightarrow> byte list \<Rightarrow> byte list \<Rightarrow> byte list \<Rightarrow> byte list"
  unseal :: "byte list \<Rightarrow> byte list \<Rightarrow> byte list \<Rightarrow> byte list \<Rightarrow> byte list option"

definition aead_ok :: "aead \<Rightarrow> bool" where
  "aead_ok A = (\<forall>k n ad p. unseal A k n ad (seal A k n ad p) = Some p \<and>
     length (seal A k n ad p) = length p + NOISE_TAG_LENGTH)"

section \<open>The cipher state\<close>

text \<open>\<open>DataView.setBigUint64(4, n, true)\<close> on twelve zero bytes: the counter, little-endian.\<close>

definition noiseNonceBytes :: "int \<Rightarrow> noise_error + byte list" where
  "noiseNonceBytes n =
     (if n < 0 then Inl NegativeNonce
      else if n \<ge> RESERVED_NONCE then Inl NonceExhausted
      else Inr (replicate 4 0 @ map (\<lambda>i. of_int (n div 256 ^ i)) [0..<8]))"

record cipher_state =
  ckey :: "byte list option"
  counter :: int

definition new_cipher :: "byte list option \<Rightarrow> noise_error + cipher_state" where
  "new_cipher k = (case k of
      None \<Rightarrow> Inr \<lparr>ckey = None, counter = 0\<rparr>
    | Some b \<Rightarrow> if length b \<noteq> NOISE_KEY_LENGTH then Inl BadKeyLength else Inr \<lparr>ckey = Some b, counter = 0\<rparr>)"

definition requireMaxMessageLength :: "nat \<Rightarrow> noise_error option" where
  "requireMaxMessageLength n = (if n > NOISE_MAX_MESSAGE_LENGTH then Some MessageTooLong else None)"

text \<open>A call that throws leaves the state as it was.\<close>

definition encryptWithAd :: "aead \<Rightarrow> cipher_state \<Rightarrow> byte list \<Rightarrow> byte list \<Rightarrow> cipher_state \<times> (noise_error + byte list)" where
  "encryptWithAd A st ad plaintext =
     (case requireMaxMessageLength (length plaintext + (if ckey st = None then 0 else NOISE_TAG_LENGTH)) of
        Some e \<Rightarrow> (st, Inl e)
      | None \<Rightarrow> (case ckey st of
          None \<Rightarrow> (st, Inr plaintext)
        | Some k \<Rightarrow> (case noiseNonceBytes (counter st) of
            Inl e \<Rightarrow> (st, Inl e)
          | Inr nonce \<Rightarrow> (st\<lparr>counter := counter st + 1\<rparr>, Inr (seal A k nonce ad plaintext)))))"

definition decryptWithAd :: "aead \<Rightarrow> cipher_state \<Rightarrow> byte list \<Rightarrow> byte list \<Rightarrow> cipher_state \<times> (noise_error + byte list)" where
  "decryptWithAd A st ad ciphertext =
     (case requireMaxMessageLength (length ciphertext) of
        Some e \<Rightarrow> (st, Inl e)
      | None \<Rightarrow> (case ckey st of
          None \<Rightarrow> (st, Inr ciphertext)
        | Some k \<Rightarrow> (case noiseNonceBytes (counter st) of
            Inl e \<Rightarrow> (st, Inl e)
          | Inr nonce \<Rightarrow> (case unseal A k nonce ad ciphertext of
              None \<Rightarrow> (st, Inl AuthenticationFailed)
            | Some p \<Rightarrow> (st\<lparr>counter := counter st + 1\<rparr>, Inr p)))))"

section \<open>Nonces\<close>

lemma digits_inject:
  fixes m n :: int
  assumes "0 \<le> m" "m < 256 ^ k" "0 \<le> n" "n < 256 ^ k"
    and "map (\<lambda>i. (of_int (m div 256 ^ i) :: byte)) [0..<k] = map (\<lambda>i. of_int (n div 256 ^ i)) [0..<k]"
  shows "m = n"
  using assms
proof (induction k arbitrary: m n)
  case (Suc k)
  have shift: "map f [0..<Suc k] = f 0 # map (\<lambda>i. f (Suc i)) [0..<k]" for f :: "nat \<Rightarrow> byte"
    by (simp add: upt_conv_Cons map_Suc_upt [symmetric] comp_def del: upt_Suc)
  from Suc.prems(5) have low: "(of_int m :: byte) = of_int n"
    and high: "map (\<lambda>i. (of_int (m div 256 div 256 ^ i) :: byte)) [0..<k] = map (\<lambda>i. of_int (n div 256 div 256 ^ i)) [0..<k]"
    unfolding shift by (simp_all add: zdiv_zmult2_eq)
  have "m div 256 = n div 256"
    using Suc.prems high by (intro Suc.IH) (auto simp: div_less_iff_less_mult pos_imp_zdiv_nonneg_iff)
  moreover have "m mod 256 = n mod 256"
    using arg_cong [OF low, of uint] by (simp add: uint_word_of_int)
  ultimately show ?case by (metis div_mult_mod_eq)
qed simp

lemma noiseNonceBytes_inject:
  assumes "noiseNonceBytes m = Inr x" "noiseNonceBytes n = Inr x"
  shows "m = n"
proof -
  have "m < 256 ^ 8" "n < 256 ^ 8" "0 \<le> m" "0 \<le> n"
    using assms by (auto simp: noiseNonceBytes_def RESERVED_NONCE_def split: if_splits)
  moreover have "map (\<lambda>i. (of_int (m div 256 ^ i) :: byte)) [0..<8] = map (\<lambda>i. of_int (n div 256 ^ i)) [0..<8]"
    using assms by (auto simp: noiseNonceBytes_def simp del: upt_rec_numeral split: if_splits)
  ultimately show ?thesis by (intro digits_inject)
qed

text \<open>What a sequence of calls gives, one entry for each call that succeeds: its associated data, its
  plaintext and the ciphertext that \<open>encryptWithAd\<close> returned.\<close>

fun sealed :: "aead \<Rightarrow> cipher_state \<Rightarrow> (byte list \<times> byte list) list \<Rightarrow> (byte list \<times> byte list \<times> byte list) list" where
  "sealed A st [] = []"
| "sealed A st ((ad, p) # msgs) =
     (case encryptWithAd A st ad p of
        (st', Inl e) \<Rightarrow> sealed A st' msgs
      | (st', Inr c) \<Rightarrow> (ad, p, c) # sealed A st' msgs)"

text \<open>One call with a key: it fails under every cipher and changes nothing, or it seals under the nonce of
  the counter and moves on.\<close>

lemma encryptWithAd_cases:
  obtains (fails) e where "\<And>A. encryptWithAd A \<lparr>ckey = Some k, counter = n\<rparr> ad p = (\<lparr>ckey = Some k, counter = n\<rparr>, Inl e)"
  | (seals) nonce where "noiseNonceBytes n = Inr nonce"
      "\<And>A. encryptWithAd A \<lparr>ckey = Some k, counter = n\<rparr> ad p =
         (\<lparr>ckey = Some k, counter = n + 1\<rparr>, Inr (seal A k nonce ad p))"
  by (cases "noiseNonceBytes n"; cases "requireMaxMessageLength (length p + NOISE_TAG_LENGTH)")
    (auto simp: encryptWithAd_def)

lemma sealed_under_fresh_nonces:
  "\<exists>uses. distinct (map fst uses) \<and>
     (\<forall>x \<in> set (map fst uses). \<exists>m \<ge> n. noiseNonceBytes m = Inr x) \<and>
     (\<forall>A. sealed A \<lparr>ckey = Some k, counter = n\<rparr> msgs = map (\<lambda>(nonce, ad, p). (ad, p, seal A k nonce ad p)) uses)"
proof (induction msgs arbitrary: n)
  case Nil
  show ?case by (rule exI [of _ "[]"]) simp
next
  case (Cons m msgs)
  obtain ad p where m: "m = (ad, p)" by (cases m)
  show ?case
  proof (cases rule: encryptWithAd_cases [of k n ad p])
    case (fails e)
    then show ?thesis using Cons.IH [of n] by (simp add: m)
  next
    case (seals nonce)
    obtain uses where u: "distinct (map fst uses)"
      "\<forall>x \<in> set (map fst uses). \<exists>m \<ge> n + 1. noiseNonceBytes m = Inr x"
      "\<forall>A. sealed A \<lparr>ckey = Some k, counter = n + 1\<rparr> msgs = map (\<lambda>(nonce, ad, p). (ad, p, seal A k nonce ad p)) uses"
      using Cons.IH [of "n + 1"] by blast
    have "nonce \<notin> set (map fst uses)"
    proof
      assume "nonce \<in> set (map fst uses)"
      with u(2) obtain m where "n + 1 \<le> m" "noiseNonceBytes m = Inr nonce" by blast
      with noiseNonceBytes_inject [OF seals(1)] show False by force
    qed
    moreover have "\<exists>m \<ge> n. noiseNonceBytes m = Inr x" if "x \<in> set (map fst uses)" for x
      using u(2) that by (metis add_increasing2 order_trans zero_le_one order_refl)
    ultimately show ?thesis
      using u(1,3) seals by (intro exI [of _ "(nonce, ad, p) # uses"]) (auto simp: m)
  qed
qed

section \<open>Two states in step\<close>

lemma decrypt_encrypt:
  assumes "aead_ok A" "encryptWithAd A st ad p = (st', Inr c)"
  shows "decryptWithAd A st ad c = (st', Inr p)"
proof (cases "ckey st")
  case None
  with assms show ?thesis by (auto simp: encryptWithAd_def decryptWithAd_def split: option.splits)
next
  case (Some k)
  with assms(2) obtain nonce where n: "noiseNonceBytes (counter st) = Inr nonce" "c = seal A k nonce ad p"
    "st' = st\<lparr>counter := counter st + 1\<rparr>" "\<not> length p + NOISE_TAG_LENGTH > NOISE_MAX_MESSAGE_LENGTH"
    by (auto simp: encryptWithAd_def requireMaxMessageLength_def split: option.splits sum.splits if_splits)
  with assms(1) Some show ?thesis by (simp add: decryptWithAd_def requireMaxMessageLength_def aead_ok_def)
qed

section \<open>Properties\<close>

text \<open>C10: whatever is sent through a cipher state that holds a key, and whichever calls fail, the
  ciphertexts that come out are what the cipher gives for the plaintexts under that key and pairwise different
  nonces. The cipher is any function of key, nonce, associated data and plaintext, and the nonces are the same
  for every one: the statement reads them off what \<open>encryptWithAd\<close> returns.\<close>

theorem nonces_never_repeat:
  "\<exists>uses. distinct (map fst uses) \<and>
     (\<forall>A. sealed A \<lparr>ckey = Some k, counter = n\<rparr> msgs = map (\<lambda>(nonce, ad, p). (ad, p, seal A k nonce ad p)) uses)"
  using sealed_under_fresh_nonces by blast

text \<open>A receiver with the sender's key and counter reads back what was sealed and stays in step with
  the sender; a message it rejects leaves its state as it was.\<close>

theorem cipher_in_step:
  assumes "aead_ok A"
  shows "(encryptWithAd A st ad p = (st', Inr c) \<longrightarrow> decryptWithAd A st ad c = (st', Inr p)) \<and>
         (\<forall>e c. snd (decryptWithAd A st ad c) = Inl e \<longrightarrow> fst (decryptWithAd A st ad c) = st)"
proof (intro conjI impI allI)
  show "decryptWithAd A st ad c = (st', Inr p)" if "encryptWithAd A st ad p = (st', Inr c)"
    by (rule decrypt_encrypt [OF assms that])
  show "fst (decryptWithAd A st ad c) = st" if "snd (decryptWithAd A st ad c) = Inl e" for e c
    using that by (auto simp: decryptWithAd_def split: option.splits sum.splits)
qed

text \<open>A cipher for examples: the tag is sixteen zero bytes.\<close>

definition plain_aead :: aead where
  "plain_aead = \<lparr>seal = (\<lambda>k n ad p. p @ replicate NOISE_TAG_LENGTH 0),
     unseal = (\<lambda>k n ad c. if NOISE_TAG_LENGTH \<le> length c \<and> drop (length c - NOISE_TAG_LENGTH) c = replicate NOISE_TAG_LENGTH 0
                          then Some (take (length c - NOISE_TAG_LENGTH) c) else None)\<rparr>"

lemma plain_aead_ok: "aead_ok plain_aead"
  by (simp add: aead_ok_def plain_aead_def)

theorem cipher_in_step_witness:
  "decryptWithAd plain_aead \<lparr>ckey = Some (replicate 32 7), counter = 3\<rparr> [] ([1, 2] @ replicate 16 0) =
     (\<lparr>ckey = Some (replicate 32 7), counter = 4\<rparr>, Inr [1, 2])"
  using cipher_in_step [OF plain_aead_ok, of "\<lparr>ckey = Some (replicate 32 7), counter = 3\<rparr>" "[]" "[1, 2]"
      "\<lparr>ckey = Some (replicate 32 7), counter = 4\<rparr>" "[1, 2] @ replicate 16 0"]
  by (simp add: encryptWithAd_def requireMaxMessageLength_def noiseNonceBytes_def plain_aead_def RESERVED_NONCE_def
      NOISE_TAG_LENGTH_def NOISE_MAX_MESSAGE_LENGTH_def)

end
