(* ===== verification/Burrow_Acl.thy ===== *)
theory Burrow_Acl
  imports Noise_Cipher Js_Json
begin

text \<open>
  The Burrow's list of approved Clients (\<open>remote-lib-common/src/security/acl.ts\<close>). An approval is the
  pair of a passkey and a Client static key on one active record. Records are only added and
  revoked, never removed or revived; the lemmas show that an authorization names an active
  record of that pair, that a revocation leaves none, and that a miss is explained exactly.
\<close>

section \<open>Records\<close>

definition CLIENT_STATIC_PUBLIC_KEY_LENGTH :: nat where
  "CLIENT_STATIC_PUBLIC_KEY_LENGTH = base64UrlLength NOISE_KEY_LENGTH"
definition DELIVERY_ID_BYTE_LENGTH :: nat where "DELIVERY_ID_BYTE_LENGTH = 32"
definition DELIVERY_ID_LENGTH :: nat where "DELIVERY_ID_LENGTH = base64UrlLength DELIVERY_ID_BYTE_LENGTH"

record approved_client =
  accountId :: string
  passkeyCredentialId :: string
  passkeyPublicKeyHash :: string
  clientStaticPublicKey :: string
  deliveryId :: string
  approvedBy :: string
  label :: string

record acl_record =
  client :: approved_client
  burrowId :: string
  approvedAt :: int
  revokedAt :: "int option"

text \<open>The structural check of a record read from disk.\<close>

definition isBurrowAclRecord :: "jval \<Rightarrow> bool" where
  "isBurrowAclRecord v =
     (is_object v \<and>
      is_str (js_prop v ''burrowId'') \<and> is_str (js_prop v ''accountId'') \<and>
      is_str (js_prop v ''passkeyCredentialId'') \<and> is_str (js_prop v ''passkeyPublicKeyHash'') \<and>
      (case as_str (js_prop v ''clientStaticPublicKey'') of
         Some s \<Rightarrow> isExactBase64Url s CLIENT_STATIC_PUBLIC_KEY_LENGTH | None \<Rightarrow> False) \<and>
      (case as_str (js_prop v ''deliveryId'') of Some s \<Rightarrow> isExactBase64Url s DELIVERY_ID_LENGTH | None \<Rightarrow> False) \<and>
      is_num (js_prop v ''approvedAt'') \<and> is_str (js_prop v ''approvedBy'') \<and> is_str (js_prop v ''label'') \<and>
      (js_prop v ''revokedAt'' = VNull \<or> is_num (js_prop v ''revokedAt'')))"

record acl =
  acl_burrow :: string
  records :: "acl_record list"

definition new_acl :: "string \<Rightarrow> acl" where
  "new_acl b = \<lparr>acl_burrow = b, records = []\<rparr>"

text \<open>\<open>fromRecords\<close>: \<open>None\<close> when a record of another Burrow makes it throw.\<close>

definition fromRecords :: "string \<Rightarrow> acl_record list \<Rightarrow> acl option" where
  "fromRecords b rs = (if list_all (\<lambda>r. burrowId r = b) rs then Some \<lparr>acl_burrow = b, records = rs\<rparr> else None)"

section \<open>Operations\<close>

definition matches_pair :: "string \<Rightarrow> string \<Rightarrow> acl_record \<Rightarrow> bool" where
  "matches_pair pk cs r =
     (revokedAt r = None \<and> passkeyCredentialId (client r) = pk \<and> clientStaticPublicKey (client r) = cs)"

definition findActive :: "acl \<Rightarrow> string \<Rightarrow> string \<Rightarrow> acl_record option" where
  "findActive a pk cs = List.find (matches_pair pk cs) (records a)"

text \<open>Revoking the first record that matches, as \<open>approve\<close> does with the one it supersedes.\<close>

fun revoke_first :: "(acl_record \<Rightarrow> bool) \<Rightarrow> int \<Rightarrow> acl_record list \<Rightarrow> acl_record list" where
  "revoke_first P now [] = []"
| "revoke_first P now (r # rs) = (if P r then r\<lparr>revokedAt := Some now\<rparr> # rs else r # revoke_first P now rs)"

definition approve :: "acl \<Rightarrow> approved_client \<Rightarrow> int \<Rightarrow> acl \<times> acl_record" where
  "approve a c now =
     (let r = \<lparr>client = c, burrowId = acl_burrow a, approvedAt = now, revokedAt = None\<rparr>;
          rs = revoke_first (matches_pair (passkeyCredentialId c) (clientStaticPublicKey c)) now (records a)
      in (a\<lparr>records := rs @ [r]\<rparr>, r))"

definition activeRecords :: "acl \<Rightarrow> acl_record list" where
  "activeRecords a = filter (\<lambda>r. revokedAt r = None) (records a)"

definition hasActivePasskey :: "acl \<Rightarrow> string \<Rightarrow> bool" where
  "hasActivePasskey a pk = list_ex (\<lambda>r. revokedAt r = None \<and> passkeyCredentialId (client r) = pk) (records a)"

definition hasActiveClient :: "acl \<Rightarrow> string \<Rightarrow> bool" where
  "hasActiveClient a cs = list_ex (\<lambda>r. revokedAt r = None \<and> clientStaticPublicKey (client r) = cs) (records a)"

datatype acl_miss = PasskeyNotPaired | ClientNotPaired | PairingMismatch

datatype authorization = Authorized acl_record | Denied "acl_miss list"

definition authorize :: "acl \<Rightarrow> string \<Rightarrow> string \<Rightarrow> authorization" where
  "authorize a pk cs = (case findActive a pk cs of
      Some r \<Rightarrow> Authorized r
    | None \<Rightarrow>
        (let p = hasActivePasskey a pk; c = hasActiveClient a cs in
         Denied ((if \<not> p then [PasskeyNotPaired] else []) @ (if \<not> c then [ClientNotPaired] else []) @
                 (if p \<and> c then [PairingMismatch] else []))))"

fun revoke_loop :: "(acl_record \<Rightarrow> bool) \<Rightarrow> int \<Rightarrow> acl_record list \<Rightarrow> acl_record list \<times> nat" where
  "revoke_loop P now [] = ([], 0)"
| "revoke_loop P now (r # rs) =
     (let (rs', n) = revoke_loop P now rs in
      if revokedAt r = None \<and> P r then (r\<lparr>revokedAt := Some now\<rparr> # rs', Suc n) else (r # rs', n))"

definition revokeMatching :: "(acl_record \<Rightarrow> bool) \<Rightarrow> acl \<Rightarrow> int \<Rightarrow> acl \<times> nat" where
  "revokeMatching P a now = (let (rs, n) = revoke_loop P now (records a) in (a\<lparr>records := rs\<rparr>, n))"

definition revokeClient :: "acl \<Rightarrow> string \<Rightarrow> int \<Rightarrow> acl \<times> nat" where
  "revokeClient a cs now = revokeMatching (\<lambda>r. clientStaticPublicKey (client r) = cs) a now"

definition revokePasskey :: "acl \<Rightarrow> string \<Rightarrow> int \<Rightarrow> acl \<times> nat" where
  "revokePasskey a pk now = revokeMatching (\<lambda>r. passkeyCredentialId (client r) = pk) a now"

section \<open>Invariant\<close>

definition pair_of :: "acl_record \<Rightarrow> string \<times> string" where
  "pair_of r = (passkeyCredentialId (client r), clientStaticPublicKey (client r))"

text \<open>One active record per pair, and every record is this Burrow's.\<close>

definition acl_ok :: "acl \<Rightarrow> bool" where
  "acl_ok a = (distinct (map pair_of (activeRecords a)) \<and> (\<forall>r \<in> set (records a). burrowId r = acl_burrow a))"

inductive acl_step :: "acl \<Rightarrow> acl \<Rightarrow> bool" where
  approved: "acl_step a (fst (approve a c now))"
| client_revoked: "acl_step a (fst (revokeClient a cs now))"
| passkey_revoked: "acl_step a (fst (revokePasskey a pk now))"

lemma revoke_loop_eq:
  "revoke_loop P now rs =
     (map (\<lambda>r. if revokedAt r = None \<and> P r then r\<lparr>revokedAt := Some now\<rparr> else r) rs,
      length (filter (\<lambda>r. revokedAt r = None \<and> P r) rs))"
  by (induction rs) (auto simp: Let_def)

lemma revoke_active:
  "filter (\<lambda>r. revokedAt r = None) (fst (revoke_loop P now rs)) =
     filter (\<lambda>r. \<not> P r) (filter (\<lambda>r. revokedAt r = None) rs)"
  by (induction rs) (auto simp: revoke_loop_eq)

lemma revoke_first_active:
  assumes "distinct (map pair_of (filter (\<lambda>r. revokedAt r = None) rs))"
  shows "filter (\<lambda>r. revokedAt r = None) (revoke_first (matches_pair pk cs) now rs) =
     filter (\<lambda>r. pair_of r \<noteq> (pk, cs)) (filter (\<lambda>r. revokedAt r = None) rs)"
  using assms
proof (induction rs)
  case (Cons r rs)
  show ?case
  proof (cases "matches_pair pk cs r")
    case True
    then have "pair_of r = (pk, cs)" "revokedAt r = None" by (simp_all add: matches_pair_def pair_of_def)
    moreover from this Cons.prems have "\<forall>q \<in> set (filter (\<lambda>r. revokedAt r = None) rs). pair_of q \<noteq> (pk, cs)" by force
    then have "filter (\<lambda>r. pair_of r \<noteq> (pk, cs)) (filter (\<lambda>r. revokedAt r = None) rs) = filter (\<lambda>r. revokedAt r = None) rs"
      by (intro filter_True) blast
    ultimately show ?thesis using True by simp
  next
    case False
    with Cons show ?thesis by (auto simp: matches_pair_def pair_of_def)
  qed
qed simp

lemma revoke_first_burrow: "map burrowId (revoke_first P now rs) = map burrowId rs"
  by (induction rs) auto

lemma approve_ok:
  assumes "acl_ok a"
  shows "acl_ok (fst (approve a c now))"
proof -
  let ?pk = "passkeyCredentialId c" and ?cs = "clientStaticPublicKey c"
  from assms have d: "distinct (map pair_of (filter (\<lambda>r. revokedAt r = None) (records a)))"
    by (simp add: acl_ok_def activeRecords_def)
  have "activeRecords (fst (approve a c now)) =
      filter (\<lambda>r. pair_of r \<noteq> (?pk, ?cs)) (activeRecords a) @ [snd (approve a c now)]"
    using revoke_first_active [OF d] by (simp add: approve_def activeRecords_def Let_def)
  moreover have "pair_of (snd (approve a c now)) = (?pk, ?cs)" by (simp add: approve_def pair_of_def Let_def)
  moreover have "distinct (map pair_of (filter (\<lambda>r. pair_of r \<noteq> (?pk, ?cs)) (activeRecords a)))"
    using d unfolding activeRecords_def by (rule distinct_map_filter)
  ultimately have "distinct (map pair_of (activeRecords (fst (approve a c now))))" by auto
  moreover have "\<forall>r \<in> set (records (fst (approve a c now))). burrowId r = acl_burrow a"
  proof -
    have "burrowId ` set (revoke_first P now (records a)) = burrowId ` set (records a)" for P
      using revoke_first_burrow by (metis list.set_map)
    with assms show ?thesis by (auto simp: acl_ok_def approve_def Let_def)
  qed
  ultimately show ?thesis by (simp add: acl_ok_def approve_def Let_def)
qed

lemma revokeMatching_active: "activeRecords (fst (revokeMatching P a now)) = filter (\<lambda>r. \<not> P r) (activeRecords a)"
  using revoke_active [of P now "records a"] by (simp add: revokeMatching_def activeRecords_def case_prod_unfold Let_def)

lemma revokeMatching_ok: "acl_ok a \<Longrightarrow> acl_ok (fst (revokeMatching P a now))"
proof -
  assume ok: "acl_ok a"
  then have "distinct (map pair_of (filter (\<lambda>r. \<not> P r) (activeRecords a)))"
    by (simp add: acl_ok_def distinct_map_filter)
  moreover have "\<forall>r \<in> set (records (fst (revokeMatching P a now))). burrowId r = acl_burrow a"
    using ok by (auto simp: acl_ok_def revokeMatching_def revoke_loop_eq)
  moreover have "acl_burrow (fst (revokeMatching P a now)) = acl_burrow a"
    by (simp add: revokeMatching_def case_prod_unfold Let_def)
  ultimately show "acl_ok (fst (revokeMatching P a now))"
    using revokeMatching_active [of P a now] by (simp add: acl_ok_def)
qed

interpretation acl: step_system "\<lambda>a. \<exists>b. a = new_acl b" acl_step acl_ok
proof unfold_locales
  show "acl_ok a" if "\<exists>b. a = new_acl b" for a
    using that by (auto simp: new_acl_def acl_ok_def activeRecords_def)
  show "acl_ok a'" if "acl_step a a'" "acl_ok a" for a a'
    using that by (auto elim!: acl_step.cases simp: approve_ok revokeClient_def revokePasskey_def revokeMatching_ok)
qed

text \<open>A record's later state: the same approval, and its revocation is final.\<close>

definition later :: "acl_record \<Rightarrow> acl_record \<Rightarrow> bool" where
  "later r r' = (r'\<lparr>revokedAt := revokedAt r\<rparr> = r \<and> (revokedAt r \<noteq> None \<longrightarrow> r' = r))"

lemma later_refl [simp]: "later r r"
  by (simp add: later_def)

lemma later_revoked: "revokedAt r = None \<Longrightarrow> later r (r\<lparr>revokedAt := Some now\<rparr>)"
  by (simp add: later_def)

lemma later_trans: "later r r' \<Longrightarrow> later r' r'' \<Longrightarrow> later r r''"
  by (cases r; cases r'; cases r'') (auto simp: later_def)

lemma later_revoke_first: "list_all2 later rs (revoke_first (matches_pair pk cs) now rs)"
  by (induction rs) (auto simp: later_revoked matches_pair_def list.rel_refl)

lemma acl_step_later:
  assumes "acl_step a a'"
  shows "\<exists>rs new. records a' = rs @ new \<and> list_all2 later (records a) rs"
  using assms
proof cases
  case (approved c now)
  then show ?thesis using later_revoke_first
    by (intro exI [of _ "revoke_first (matches_pair (passkeyCredentialId c) (clientStaticPublicKey c)) now (records a)"] exI)
       (simp add: approve_def Let_def)
next
  case (client_revoked cs now)
  then show ?thesis
    by (intro exI [of _ "records a'"] exI [of _ "[]"])
       (auto simp: revokeClient_def revokeMatching_def revoke_loop_eq list_all2_map2 later_revoked intro!: list.rel_refl_strong)
next
  case (passkey_revoked pk now)
  then show ?thesis
    by (intro exI [of _ "records a'"] exI [of _ "[]"])
       (auto simp: revokePasskey_def revokeMatching_def revoke_loop_eq list_all2_map2 later_revoked intro!: list.rel_refl_strong)
qed

lemma findActive_iff: "findActive a pk cs = None \<longleftrightarrow> (\<forall>r \<in> set (activeRecords a). pair_of r \<noteq> (pk, cs))"
  by (auto simp: findActive_def find_None_iff matches_pair_def activeRecords_def pair_of_def)

lemma findActive_Some: "findActive a pk cs = Some r \<Longrightarrow> r \<in> set (activeRecords a) \<and> pair_of r = (pk, cs)"
  by (auto simp: findActive_def find_Some_iff matches_pair_def activeRecords_def pair_of_def)

section \<open>Properties\<close>

text \<open>Starting from an empty list, every sequence of approvals and revocations keeps one active
  record per pair of passkey and Client at most, and only records of this Burrow.\<close>

theorem acl_reachable_ok: "acl_step\<^sup>*\<^sup>* (new_acl b) a \<Longrightarrow> acl_ok a"
  using acl.reachable_inv [of "new_acl b" a] by blast

definition phone :: approved_client where
  "phone = \<lparr>accountId = ''acc'', passkeyCredentialId = ''pk'', passkeyPublicKeyHash = ''h'',
     clientStaticPublicKey = ''cs'', deliveryId = ''d'', approvedBy = ''burrow-user'', label = ''Phone''\<rparr>"

theorem acl_reachable_ok_witness: "acl_ok (fst (approve (new_acl ''b'') phone 5))"
  by (rule acl_reachable_ok [of "''b''"]) (intro r_into_rtranclp acl_step.approved)

text \<open>C28: a pair is authorized exactly when an active record has both its passkey and its Client key;
  otherwise the reasons say which half is not paired, or that both are but not together.\<close>

theorem authorize_correct:
  "case authorize a pk cs of
     Authorized r \<Rightarrow> r \<in> set (activeRecords a) \<and> pair_of r = (pk, cs)
   | Denied reasons \<Rightarrow>
       (\<forall>r \<in> set (activeRecords a). pair_of r \<noteq> (pk, cs)) \<and> reasons \<noteq> [] \<and>
       (PasskeyNotPaired \<in> set reasons \<longleftrightarrow> pk \<notin> passkeyCredentialId ` client ` set (activeRecords a)) \<and>
       (ClientNotPaired \<in> set reasons \<longleftrightarrow> cs \<notin> clientStaticPublicKey ` client ` set (activeRecords a)) \<and>
       (PairingMismatch \<in> set reasons \<longleftrightarrow> reasons = [PairingMismatch])"
proof (cases "findActive a pk cs")
  case (Some r)
  then show ?thesis using findActive_Some [OF Some] by (simp add: authorize_def)
next
  case None
  have "hasActivePasskey a pk \<longleftrightarrow> pk \<in> passkeyCredentialId ` client ` set (activeRecords a)"
    "hasActiveClient a cs \<longleftrightarrow> cs \<in> clientStaticPublicKey ` client ` set (activeRecords a)"
    by (auto simp: hasActivePasskey_def hasActiveClient_def activeRecords_def list_ex_iff)
  with None show ?thesis unfolding authorize_def by (simp add: findActive_iff [symmetric] Let_def)
qed

theorem authorize_correct_witness:
  "authorize (fst (approve (new_acl ''b'') phone 5)) ''pk'' ''other'' = Denied [ClientNotPaired]"
  using authorize_correct [of "fst (approve (new_acl ''b'') phone 5)" "''pk''" "''other''"]
  by (simp add: approve_def new_acl_def phone_def authorize_def findActive_def matches_pair_def hasActivePasskey_def hasActiveClient_def Let_def)

text \<open>After an approval the pair is authorized by the new record, whatever was there before.\<close>

theorem approve_authorizes:
  assumes "acl_ok a"
  shows "authorize (fst (approve a c now)) (passkeyCredentialId c) (clientStaticPublicKey c) = Authorized (snd (approve a c now))"
proof -
  let ?a = "fst (approve a c now)" and ?r = "snd (approve a c now)"
  have r: "?r \<in> set (activeRecords ?a)" "pair_of ?r = (passkeyCredentialId c, clientStaticPublicKey c)"
    by (auto simp: approve_def activeRecords_def pair_of_def Let_def)
  then obtain q where q: "findActive ?a (passkeyCredentialId c) (clientStaticPublicKey c) = Some q"
    using findActive_iff by (metis not_None_eq)
  from approve_ok [OF assms] have "inj_on pair_of (set (activeRecords ?a))"
    by (simp add: acl_ok_def distinct_map)
  with r findActive_Some [OF q] have "q = ?r" by (metis inj_onD)
  with q show ?thesis by (simp add: authorize_def)
qed

theorem approve_authorizes_witness:
  "authorize (fst (approve (new_acl ''b'') phone 5)) ''pk'' ''cs'' = Authorized (snd (approve (new_acl ''b'') phone 5))"
  using approve_authorizes [of "new_acl ''b''" phone 5] by (simp add: acl_ok_def new_acl_def activeRecords_def phone_def)

text \<open>Revoking a Client leaves no pair with it authorized, counts the records it revoked, and keeps
  every other active record; the same for a passkey.\<close>

theorem revoke_correct:
  "activeRecords (fst (revokeClient a cs now)) = filter (\<lambda>r. clientStaticPublicKey (client r) \<noteq> cs) (activeRecords a) \<and>
   snd (revokeClient a cs now) + length (activeRecords (fst (revokeClient a cs now))) = length (activeRecords a) \<and>
   activeRecords (fst (revokePasskey a pk now)) = filter (\<lambda>r. passkeyCredentialId (client r) \<noteq> pk) (activeRecords a) \<and>
   snd (revokePasskey a pk now) + length (activeRecords (fst (revokePasskey a pk now))) = length (activeRecords a) \<and>
   findActive (fst (revokeClient a cs now)) q cs = None \<and> findActive (fst (revokePasskey a pk now)) pk q = None"
proof -
  have count: "snd (revokeMatching P a now) + length (activeRecords (fst (revokeMatching P a now))) = length (activeRecords a)" for P
    using sum_length_filter_compl [of P "activeRecords a"]
    by (simp add: revokeMatching_active) (simp add: revokeMatching_def revoke_loop_eq activeRecords_def conj_commute)
  show ?thesis using count
    by (auto simp: revokeClient_def revokePasskey_def revokeMatching_active findActive_iff pair_of_def)
qed

text \<open>Records are only added and revoked: a step keeps every record in its place, changes nothing but
  a missing revocation time, and never revives a revoked record.\<close>

theorem acl_append_only:
  assumes "acl_step\<^sup>*\<^sup>* a a'"
  shows "\<exists>rs new. records a' = rs @ new \<and> list_all2 later (records a) rs"
  using assms
proof (induction rule: rtranclp_induct)
  case base
  show ?case by (intro exI [of _ "records a"] exI [of _ "[]"]) (simp add: list.rel_refl)
next
  case (step a1 a2)
  then obtain rs new where 1: "records a1 = rs @ new" "list_all2 later (records a) rs" by blast
  from acl_step_later [OF step(2)] obtain rs2 new2 where 2: "records a2 = rs2 @ new2" "list_all2 later (records a1) rs2" by blast
  from 1(1) 2(2) obtain xs ys where xs: "rs2 = xs @ ys" "list_all2 later rs xs" by (auto simp: list_all2_append1)
  have "list_all2 later (records a) xs" by (rule list_all2_trans [OF _ 1(2) xs(2)]) (rule later_trans)
  with 2(1) xs(1) show ?case by auto
qed

theorem acl_append_only_witness:
  "\<exists>rs new. records (fst (approve (new_acl ''b'') phone 5)) = rs @ new \<and> list_all2 later (records (new_acl ''b'')) rs"
  by (rule acl_append_only) (intro r_into_rtranclp acl_step.approved)

end
