(* ===== verification/Noise_Transport.thy ===== *)
theory Noise_Transport
  imports Noise_Cipher
begin

text \<open>
  What rides inside a Noise transport message
  (\<open>remote-lib-common/src/security/noise-transport.ts\<close>): the prologues, the transport plaintexts, the
  application byte stream with its reassembler, and the session. The reassembler's growing
  buffer is modelled byte for byte; the lemmas show that it implements a parser of the byte
  stream, that it stays within its memory bound and never writes outside its buffer, and that a
  session delivers exactly the messages its peer sent.
\<close>

section \<open>Constants\<close>

definition KEEPALIVE_BODY_SIZE :: nat where "KEEPALIVE_BODY_SIZE = 32"
definition CONTROL_PAYLOAD_SIZE :: nat where "CONTROL_PAYLOAD_SIZE = 4096"
definition APP_LENGTH_PREFIX_SIZE :: nat where "APP_LENGTH_PREFIX_SIZE = 4"
definition MAX_APP_MESSAGE_LENGTH :: nat where "MAX_APP_MESSAGE_LENGTH = 1024 * 1024"
definition MAX_STREAM_BODY_LENGTH :: nat where
  "MAX_STREAM_BODY_LENGTH = NOISE_MAX_MESSAGE_LENGTH - NOISE_TAG_LENGTH - 1"
definition RETAINED_BUFFER_CAPACITY :: nat where
  "RETAINED_BUFFER_CAPACITY = MAX_STREAM_BODY_LENGTH + APP_LENGTH_PREFIX_SIZE"
definition MAX_BUFFER_CAPACITY :: nat where
  "MAX_BUFFER_CAPACITY = APP_LENGTH_PREFIX_SIZE + MAX_APP_MESSAGE_LENGTH + MAX_STREAM_BODY_LENGTH"
definition INITIAL_BUFFER_CAPACITY :: nat where "INITIAL_BUFFER_CAPACITY = 1024"

lemmas transport_sizes = KEEPALIVE_BODY_SIZE_def CONTROL_PAYLOAD_SIZE_def APP_LENGTH_PREFIX_SIZE_def
  MAX_APP_MESSAGE_LENGTH_def MAX_STREAM_BODY_LENGTH_def RETAINED_BUFFER_CAPACITY_def MAX_BUFFER_CAPACITY_def
  INITIAL_BUFFER_CAPACITY_def NOISE_MAX_MESSAGE_LENGTH_def NOISE_TAG_LENGTH_def

datatype transport_error =
    EmptyPlaintext
  | KeepaliveSize
  | KeepaliveNotZero
  | BodyTooLong
  | UnknownKind
  | ControlTooLong
  | ControlSize
  | ControlNotJson
  | ControlNotObject
  | AppTooLong
  | AlreadyFailed
  | BufferRange
  | Destroyed
  | CipherError noise_error

section \<open>Splitting and reassembling the byte stream\<close>

text \<open>\<open>framed.subarray(offset, offset + MAX)\<close> at every multiple of \<open>MAX\<close>.\<close>

function chunks :: "nat \<Rightarrow> byte list \<Rightarrow> byte list list" where
  "chunks k bs = (if bs = [] \<or> k = 0 then [] else take k bs # chunks k (drop k bs))"
  by pat_completeness auto
termination
  by (relation "measure (\<lambda>(k, bs). length bs)") auto

declare chunks.simps [simp del]

definition chunkAppMessage :: "byte list \<Rightarrow> transport_error + byte list list" where
  "chunkAppMessage msg =
     (if length msg > MAX_APP_MESSAGE_LENGTH then Inl AppTooLong
      else (let framed = set_bytes (writeUint32BE (replicate (APP_LENGTH_PREFIX_SIZE + length msg) 0) 0 (of_nat (length msg)))
                           msg APP_LENGTH_PREFIX_SIZE
            in Inr (chunks MAX_STREAM_BODY_LENGTH framed)))"

record reassembler =
  buffer :: "byte list"
  rstart :: nat
  rend :: nat
  failed :: bool

definition new_reassembler :: reassembler where
  "new_reassembler = \<lparr>buffer = [], rstart = 0, rend = 0, failed = False\<rparr>"

definition queued :: "reassembler \<Rightarrow> nat" where
  "queued r = rend r - rstart r"

definition reassembler_fail :: "reassembler \<Rightarrow> reassembler" where
  "reassembler_fail r = \<lparr>buffer = [], rstart = 0, rend = 0, failed = True\<rparr>"

text \<open>The buffer after room was made: the live window moved to the front, in place when the buffer is
  long enough and in a larger one otherwise.\<close>

definition make_room :: "reassembler \<Rightarrow> nat \<Rightarrow> reassembler" where
  "make_room r n =
     (if rend r + n > length (buffer r) then
        (let live = queued r; needed = live + n; window = take live (drop (rstart r) (buffer r));
             b = (if needed \<le> length (buffer r) then window @ drop live (buffer r)
                  else (let cap = min MAX_BUFFER_CAPACITY (max needed (max (length (buffer r) * 2) INITIAL_BUFFER_CAPACITY))
                        in window @ replicate (cap - live) 0))
         in r\<lparr>buffer := b, rstart := 0, rend := live\<rparr>)
      else r)"

text \<open>\<open>#append\<close>; \<open>None\<close> when the typed-array write throws a \<open>RangeError\<close>.\<close>

definition append_body :: "reassembler \<Rightarrow> byte list \<Rightarrow> reassembler option" where
  "append_body r body =
     (let r' = make_room r (length body) in
      if rend r' + length body \<le> length (buffer r')
      then Some (r'\<lparr>buffer := set_bytes (buffer r') body (rend r'), rend := rend r' + length body\<rparr>)
      else None)"

text \<open>The loop of \<open>push\<close>: the messages complete in the window and the new start of the window, or the
  length that is over the cap. A length that cannot be read is \<open>NaN\<close>, no comparison with it
  holds and the loop would never end.\<close>

datatype extracted = OverCap | Stuck | Extracted "byte list list" nat

function extract_loop :: "byte list \<Rightarrow> nat \<Rightarrow> nat \<Rightarrow> extracted" where
  "extract_loop buf s e =
     (if e - s < APP_LENGTH_PREFIX_SIZE then Extracted [] s
      else (case readUint32BE buf s of
          None \<Rightarrow> Stuck
        | Some n \<Rightarrow>
            if n > MAX_APP_MESSAGE_LENGTH then OverCap
            else if e - s < APP_LENGTH_PREFIX_SIZE + n then Extracted [] s
            else (let from = s + APP_LENGTH_PREFIX_SIZE in
                  case extract_loop buf (from + n) e of
                    Extracted ms s' \<Rightarrow> Extracted (take n (drop from buf) # ms) s'
                  | x \<Rightarrow> x)))"
  by pat_completeness auto
termination
  by (relation "measure (\<lambda>(buf, s, e). e - s)") (auto simp: APP_LENGTH_PREFIX_SIZE_def)

declare extract_loop.simps [simp del]

definition drain_buffer :: "reassembler \<Rightarrow> reassembler" where
  "drain_buffer r =
     r\<lparr>rstart := 0, rend := 0, buffer := (if length (buffer r) > RETAINED_BUFFER_CAPACITY then [] else buffer r)\<rparr>"

definition push_body :: "reassembler \<Rightarrow> byte list \<Rightarrow> reassembler \<times> (transport_error + byte list list)" where
  "push_body r body =
     (if failed r then (r, Inl AlreadyFailed)
      else if length body > MAX_STREAM_BODY_LENGTH then (reassembler_fail r, Inl BodyTooLong)
      else (case (if body = [] then Some r else append_body r body) of
          None \<Rightarrow> (r, Inl BufferRange)
        | Some r1 \<Rightarrow> (case extract_loop (buffer r1) (rstart r1) (rend r1) of
            OverCap \<Rightarrow> (reassembler_fail r1, Inl AppTooLong)
          | Stuck \<Rightarrow> (r1, Inl BufferRange)
          | Extracted ms s \<Rightarrow>
              (let r2 = r1\<lparr>rstart := s\<rparr>
               in (if rstart r2 = rend r2 then drain_buffer r2 else r2, Inr ms)))))"

section \<open>The byte stream as a parser\<close>

text \<open>The specification of reassembly: cut complete messages off the front of the stream.\<close>

function parse_stream :: "byte list \<Rightarrow> (byte list list \<times> byte list) option" where
  "parse_stream bs = (case readUint32BE bs 0 of
      None \<Rightarrow> Some ([], bs)
    | Some n \<Rightarrow>
        if n > MAX_APP_MESSAGE_LENGTH then None
        else if length bs < APP_LENGTH_PREFIX_SIZE + n then Some ([], bs)
        else map_option (\<lambda>(ms, rest). (take n (drop APP_LENGTH_PREFIX_SIZE bs) # ms, rest))
               (parse_stream (drop (APP_LENGTH_PREFIX_SIZE + n) bs)))"
  by pat_completeness auto
termination
  by (relation "measure length") (auto simp: readUint32BE_def APP_LENGTH_PREFIX_SIZE_def split: if_splits)

declare parse_stream.simps [simp del]

definition live :: "reassembler \<Rightarrow> byte list" where
  "live r = take (queued r) (drop (rstart r) (buffer r))"

lemma readUint32BE_append: "readUint32BE a 0 = Some n \<Longrightarrow> readUint32BE (a @ b) 0 = Some n"
  by (auto simp: readUint32BE_def nth_append split: if_splits)

lemma readUint32BE_window:
  assumes "s \<le> e" "e \<le> length buf" "APP_LENGTH_PREFIX_SIZE \<le> e - s"
  shows "readUint32BE (take (e - s) (drop s buf)) 0 = readUint32BE buf s"
proof -
  have "take (e - s) (drop s buf) ! i = buf ! (s + i)" if "i < 4" for i
    using that assms by (simp add: APP_LENGTH_PREFIX_SIZE_def)
  from this [of 0] this [of 1] this [of 2] this [of 3] show ?thesis
    using assms by (simp add: readUint32BE_def APP_LENGTH_PREFIX_SIZE_def)
qed

lemma readUint32BE_short: "readUint32BE bs 0 = None \<longleftrightarrow> length bs < APP_LENGTH_PREFIX_SIZE"
  by (auto simp: readUint32BE_def APP_LENGTH_PREFIX_SIZE_def)

text \<open>The loop over the buffer is the parser on the window.\<close>

lemma extract_loop_parses:
  assumes "s \<le> e" "e \<le> length buf"
  shows "extract_loop buf s e = (case parse_stream (take (e - s) (drop s buf)) of
      None \<Rightarrow> OverCap
    | Some (ms, rest) \<Rightarrow> Extracted ms (e - length rest)) \<and>
    (\<forall>ms rest. parse_stream (take (e - s) (drop s buf)) = Some (ms, rest) \<longrightarrow>
       length rest \<le> e - s \<and> rest = take (length rest) (drop (e - length rest) buf))"
  using assms
proof (induction buf s e rule: extract_loop.induct)
  case (1 buf s e)
  let ?w = "take (e - s) (drop s buf)"
  have lw: "length ?w = e - s" using "1.prems" by simp
  show ?case
  proof (cases "e - s < APP_LENGTH_PREFIX_SIZE")
    case True
    then have "readUint32BE ?w 0 = None" using lw by (simp add: readUint32BE_short)
    then have p: "parse_stream ?w = Some ([], ?w)" by (simp add: parse_stream.simps [of ?w])
    have "extract_loop buf s e = Extracted [] s" using True by (simp add: extract_loop.simps [of buf s e])
    with p lw "1.prems" show ?thesis by simp
  next
    case False
    then have rd: "readUint32BE ?w 0 = readUint32BE buf s" using "1.prems" by (intro readUint32BE_window) simp_all
    then obtain n where n: "readUint32BE buf s = Some n" using False lw readUint32BE_short [of ?w] by (cases "readUint32BE buf s") auto
    consider "n > MAX_APP_MESSAGE_LENGTH" | "n \<le> MAX_APP_MESSAGE_LENGTH" "e - s < APP_LENGTH_PREFIX_SIZE + n"
      | "n \<le> MAX_APP_MESSAGE_LENGTH" "APP_LENGTH_PREFIX_SIZE + n \<le> e - s" by linarith
    then show ?thesis
    proof cases
      case 1
      then show ?thesis using False n rd by (simp add: extract_loop.simps [of buf s e] parse_stream.simps [of ?w])
    next
      case 2
      then have p: "parse_stream ?w = Some ([], ?w)" using n rd lw by (simp add: parse_stream.simps [of ?w])
      have "extract_loop buf s e = Extracted [] s" using 2 False n by (simp add: extract_loop.simps [of buf s e])
      with p lw "1.prems" show ?thesis by simp
    next
      case 3
      let ?s = "s + APP_LENGTH_PREFIX_SIZE + n"
      have w: "drop (APP_LENGTH_PREFIX_SIZE + n) ?w = take (e - ?s) (drop ?s buf)"
        by (simp add: drop_take add.commute add.left_commute diff_diff_eq)
      have msg: "take n (drop APP_LENGTH_PREFIX_SIZE ?w) = take n (drop (s + APP_LENGTH_PREFIX_SIZE) buf)"
        using 3 by (simp add: drop_take min_def add.commute)
      from "1.IH" [OF False n _ _ refl] 3 "1.prems" have IH: "extract_loop buf ?s e = (case parse_stream (take (e - ?s) (drop ?s buf)) of
            None \<Rightarrow> OverCap | Some (ms, rest) \<Rightarrow> Extracted ms (e - length rest))"
        "\<forall>ms rest. parse_stream (take (e - ?s) (drop ?s buf)) = Some (ms, rest) \<longrightarrow>
            length rest \<le> e - ?s \<and> rest = take (length rest) (drop (e - length rest) buf)" by auto
      have p: "parse_stream ?w = map_option (\<lambda>(ms, rest). (take n (drop (s + APP_LENGTH_PREFIX_SIZE) buf) # ms, rest))
          (parse_stream (take (e - ?s) (drop ?s buf)))"
        using 3 n rd lw w msg by (simp add: parse_stream.simps [of ?w])
      have x: "extract_loop buf s e = (case extract_loop buf ?s e of
          Extracted ms s' \<Rightarrow> Extracted (take n (drop (s + APP_LENGTH_PREFIX_SIZE) buf) # ms) s' | x \<Rightarrow> x)"
        using 3 False n by (simp add: extract_loop.simps [of buf s e] Let_def)
      show ?thesis
        unfolding x p using IH by (auto split: option.splits)
    qed
  qed
qed

lemma parse_stream_rest: "parse_stream bs = Some (ms, rest) \<Longrightarrow> parse_stream rest = Some ([], rest)"
proof (induction bs arbitrary: ms rule: parse_stream.induct)
  case (1 bs)
  show ?case
  proof (cases "ms = []")
    case True
    with "1.prems" have "rest = bs" by (subst (asm) parse_stream.simps) (auto split: option.splits if_splits)
    with "1.prems" True show ?thesis by simp
  next
    case False
    with "1.prems" obtain n ms' where "readUint32BE bs 0 = Some n" "\<not> n > MAX_APP_MESSAGE_LENGTH"
      "\<not> length bs < APP_LENGTH_PREFIX_SIZE + n" "parse_stream (drop (APP_LENGTH_PREFIX_SIZE + n) bs) = Some (ms', rest)"
      by (subst (asm) parse_stream.simps) (auto split: option.splits if_splits)
    with "1.IH" show ?thesis by blast
  qed
qed

lemma parse_stream_partial: "parse_stream w = Some ([], w) \<Longrightarrow> length w < APP_LENGTH_PREFIX_SIZE + MAX_APP_MESSAGE_LENGTH"
  by (subst (asm) parse_stream.simps)
     (auto simp: readUint32BE_def APP_LENGTH_PREFIX_SIZE_def MAX_APP_MESSAGE_LENGTH_def split: option.splits if_splits)

text \<open>Parsing can stop and go on: what is left is parsed with the bytes that come later.\<close>

lemma parse_stream_append:
  "parse_stream (a @ b) = (case parse_stream a of
      None \<Rightarrow> None
    | Some (ms, r) \<Rightarrow> map_option (\<lambda>(ms', r'). (ms @ ms', r')) (parse_stream (r @ b)))"
proof (induction a rule: parse_stream.induct)
  case (1 a)
  show ?case
  proof (cases "readUint32BE a 0")
    case None
    then have "parse_stream a = Some ([], a)" by (simp add: parse_stream.simps [of a])
    then show ?thesis by (simp add: option.map_id)
  next
    case (Some n)
    note ab = readUint32BE_append [OF Some, of b]
    consider "n > MAX_APP_MESSAGE_LENGTH" | "\<not> n > MAX_APP_MESSAGE_LENGTH" "length a < APP_LENGTH_PREFIX_SIZE + n"
      | "\<not> n > MAX_APP_MESSAGE_LENGTH" "\<not> length a < APP_LENGTH_PREFIX_SIZE + n" by blast
    then show ?thesis
    proof cases
      case 1
      with Some ab show ?thesis by (simp add: parse_stream.simps [of a] parse_stream.simps [of "a @ b"])
    next
      case 2
      with Some have "parse_stream a = Some ([], a)" by (simp add: parse_stream.simps [of a])
      then show ?thesis by (simp add: option.map_id)
    next
      case 3
      with Some ab "1.IH" [OF Some 3] show ?thesis
        by (simp add: parse_stream.simps [of a] parse_stream.simps [of "a @ b"] option.map_comp comp_def case_prod_unfold
            split: option.splits)
    qed
  qed
qed

section \<open>The reassembler implements the parser\<close>

definition reassembler_ok :: "reassembler \<Rightarrow> bool" where
  "reassembler_ok r =
     (rstart r \<le> rend r \<and> rend r \<le> length (buffer r) \<and> length (buffer r) \<le> MAX_BUFFER_CAPACITY \<and>
      parse_stream (live r) = Some ([], live r))"

lemma parse_stream_Nil [simp]: "parse_stream [] = Some ([], [])"
  by (subst parse_stream.simps) (simp add: readUint32BE_def)

lemma reassembler_ok_empty: "reassembler_ok \<lparr>buffer = [], rstart = 0, rend = 0, failed = f\<rparr>"
  by (simp add: reassembler_ok_def live_def queued_def)

lemma length_live: "reassembler_ok r \<Longrightarrow> length (live r) = queued r"
  by (auto simp: reassembler_ok_def live_def queued_def min_def)

lemma queued_bound: "reassembler_ok r \<Longrightarrow> queued r < APP_LENGTH_PREFIX_SIZE + MAX_APP_MESSAGE_LENGTH"
  using parse_stream_partial [of "live r"] length_live by (simp add: reassembler_ok_def)

lemma make_room_sound:
  assumes "reassembler_ok r" "n \<le> MAX_STREAM_BODY_LENGTH"
  defines "r' \<equiv> make_room r n"
  shows "rstart r' \<le> rend r'" "rend r' + n \<le> length (buffer r')" "length (buffer r') \<le> MAX_BUFFER_CAPACITY"
    "live r' = live r" "failed r' = failed r"
proof -
  have bounds: "rstart r \<le> rend r" "rend r \<le> length (buffer r)" "length (buffer r) \<le> MAX_BUFFER_CAPACITY"
    using assms(1) by (simp_all add: reassembler_ok_def)
  have q: "queued r + n \<le> MAX_BUFFER_CAPACITY"
    using queued_bound [OF assms(1)] assms(2) by (simp add: MAX_BUFFER_CAPACITY_def)
  have lw: "length (take (queued r) (drop (rstart r) (buffer r))) = queued r"
    using bounds by (simp add: queued_def)
  show "rstart r' \<le> rend r'" "rend r' + n \<le> length (buffer r')" "length (buffer r') \<le> MAX_BUFFER_CAPACITY"
    "live r' = live r" "failed r' = failed r"
    using bounds q lw by (auto simp: r'_def make_room_def Let_def live_def queued_def)
qed

lemma append_body_sound:
  assumes "reassembler_ok r" "length body \<le> MAX_STREAM_BODY_LENGTH"
  shows "\<exists>r1. append_body r body = Some r1 \<and> rstart r1 \<le> rend r1 \<and> rend r1 \<le> length (buffer r1) \<and>
     length (buffer r1) \<le> MAX_BUFFER_CAPACITY \<and> live r1 = live r @ body \<and> failed r1 = failed r"
proof -
  let ?r = "make_room r (length body)"
  note m = make_room_sound [OF assms]
  let ?r1 = "?r\<lparr>buffer := set_bytes (buffer ?r) body (rend ?r), rend := rend ?r + length body\<rparr>"
  have "append_body r body = Some ?r1" using m(2) by (simp add: append_body_def Let_def)
  moreover have "length (buffer ?r1) = length (buffer ?r)" using m(2) by (simp add: length_set_bytes)
  moreover have "live ?r1 = live ?r @ body"
  proof -
    have "take (rend ?r + length body - rstart ?r) (drop (rstart ?r) (set_bytes (buffer ?r) body (rend ?r))) =
        drop (rstart ?r) (take (rend ?r) (buffer ?r)) @ body"
      using m(1,2) by (simp add: set_bytes_def)
    then show ?thesis using m(1,2) by (simp add: live_def queued_def drop_take)
  qed
  ultimately show ?thesis using m by auto
qed

lemma push_body_parses:
  assumes "reassembler_ok r" "\<not> failed r" "length body \<le> MAX_STREAM_BODY_LENGTH"
  shows "case parse_stream (live r @ body) of
      None \<Rightarrow> push_body r body = (reassembler_fail r, Inl AppTooLong)
    | Some (ms, rest) \<Rightarrow> \<exists>r'. push_body r body = (r', Inr ms) \<and> reassembler_ok r' \<and> \<not> failed r' \<and> live r' = rest"
proof -
  obtain r1 where r1: "(if body = [] then Some r else append_body r body) = Some r1"
      "rstart r1 \<le> rend r1" "rend r1 \<le> length (buffer r1)" "length (buffer r1) \<le> MAX_BUFFER_CAPACITY"
      "live r1 = live r @ body" "failed r1 = failed r"
    using append_body_sound [OF assms(1,3)] assms(1) by (cases "body = []") (auto simp: reassembler_ok_def)
  have x: "extract_loop (buffer r1) (rstart r1) (rend r1) = (case parse_stream (live r @ body) of
      None \<Rightarrow> OverCap | Some (ms, rest) \<Rightarrow> Extracted ms (rend r1 - length rest))"
    and rest: "\<And>ms rest. parse_stream (live r @ body) = Some (ms, rest) \<Longrightarrow>
      length rest \<le> rend r1 - rstart r1 \<and> rest = take (length rest) (drop (rend r1 - length rest) (buffer r1))"
    using extract_loop_parses [OF r1(2,3)] r1(5) by (auto simp: live_def queued_def)
  show ?thesis
  proof (cases "parse_stream (live r @ body)")
    case None
    with assms r1(1) x show ?thesis by (simp add: push_body_def reassembler_fail_def)
  next
    case (Some mr)
    obtain ms tl where mr: "mr = (ms, tl)" by (cases mr)
    let ?r2 = "r1\<lparr>rstart := rend r1 - length tl\<rparr>"
    have tl: "length tl \<le> rend r1 - rstart r1" "tl = take (length tl) (drop (rend r1 - length tl) (buffer r1))"
      using rest [of ms tl] Some mr by simp_all
    then have le: "length tl \<le> rend r1" by simp
    then have live2: "live ?r2 = tl" using tl(2) by (simp add: live_def queued_def)
    have p: "parse_stream tl = Some ([], tl)" using parse_stream_rest Some mr by blast
    have push: "push_body r body = ((if rstart ?r2 = rend ?r2 then drain_buffer ?r2 else ?r2), Inr ms)"
      using assms(2,3) r1(1) x Some mr by (simp add: push_body_def)
    show ?thesis
    proof (cases "rstart ?r2 = rend ?r2")
      case True
      then have "tl = []" using le live2 by (simp add: live_def queued_def)
      with push True Some mr r1 assms(2) show ?thesis
        by (auto simp: drain_buffer_def reassembler_ok_def live_def queued_def)
    next
      case False
      with push Some mr r1 p live2 assms(2) show ?thesis by (auto simp: reassembler_ok_def)
    qed
  qed
qed

lemma push_body_ok:
  assumes "reassembler_ok r"
  shows "reassembler_ok (fst (push_body r body)) \<and> snd (push_body r body) \<noteq> Inl BufferRange"
proof (cases "failed r \<or> length body > MAX_STREAM_BODY_LENGTH")
  case True
  with assms show ?thesis by (auto simp: push_body_def reassembler_fail_def reassembler_ok_empty)
next
  case False
  then have f: "\<not> failed r" "length body \<le> MAX_STREAM_BODY_LENGTH" by auto
  show ?thesis
  proof (cases "parse_stream (live r @ body)")
    case None
    with push_body_parses [OF assms f] show ?thesis by (simp add: reassembler_fail_def reassembler_ok_empty)
  next
    case (Some mr)
    with push_body_parses [OF assms f] show ?thesis by (cases mr) auto
  qed
qed

section \<open>The stream interface\<close>

text \<open>Feeding one body after the other, up to the first failure, with all messages in order.\<close>

fun feed :: "('s \<Rightarrow> 'b \<Rightarrow> 's \<times> ('e + 'm list)) \<Rightarrow> 's \<Rightarrow> 'b list \<Rightarrow> 's \<times> ('e + 'm list)" where
  "feed push s [] = (s, Inr [])"
| "feed push s (b # bs) = (case push s b of
      (s', Inl e) \<Rightarrow> (s', Inl e)
    | (s', Inr ms) \<Rightarrow> (case feed push s' bs of
        (s'', Inl e) \<Rightarrow> (s'', Inl e)
      | (s'', Inr ms') \<Rightarrow> (s'', Inr (ms @ ms'))))"

text \<open>What the session relies on: a reader of bodies that parses the stream, keeping what is pending.\<close>

locale stream_reader =
  fixes ok :: "'s \<Rightarrow> bool"
    and pend :: "'s \<Rightarrow> byte list"
    and push :: "'s \<Rightarrow> byte list \<Rightarrow> 's \<times> (transport_error + byte list list)"
  assumes push_parses: "ok s \<Longrightarrow> length body \<le> MAX_STREAM_BODY_LENGTH \<Longrightarrow>
      parse_stream (pend s @ body) = Some (ms, rest) \<Longrightarrow> \<exists>s'. push s body = (s', Inr ms) \<and> ok s' \<and> pend s' = rest"
begin

lemma feed_parses:
  assumes "ok s" "\<forall>b \<in> set bodies. length b \<le> MAX_STREAM_BODY_LENGTH"
    and "parse_stream (pend s) = Some ([], pend s)" "parse_stream (pend s @ concat bodies) = Some (ms, rest)"
  shows "\<exists>s'. feed push s bodies = (s', Inr ms) \<and> ok s' \<and> pend s' = rest"
  using assms
proof (induction bodies arbitrary: s ms)
  case Nil
  then show ?case by simp
next
  case (Cons b bs)
  have "parse_stream ((pend s @ b) @ concat bs) = Some (ms, rest)" using Cons.prems(4) by simp
  then obtain ms1 r1 ms2 where p1: "parse_stream (pend s @ b) = Some (ms1, r1)"
    and p2: "parse_stream (r1 @ concat bs) = Some (ms2, rest)" and ms: "ms = ms1 @ ms2"
    unfolding parse_stream_append [of "pend s @ b"] by (auto split: option.splits)
  from push_parses [OF Cons.prems(1) _ p1] Cons.prems(2) obtain s1 where
    s1: "push s b = (s1, Inr ms1)" "ok s1" "pend s1 = r1" by auto
  have "\<exists>s'. feed push s1 bs = (s', Inr ms2) \<and> ok s' \<and> pend s' = rest"
    using Cons.IH [OF s1(2)] Cons.prems(2) s1(3) parse_stream_rest [OF p1] p2 by simp
  with s1(1) ms show ?case by auto
qed

end

interpretation reassembly: stream_reader "\<lambda>r. reassembler_ok r \<and> \<not> failed r" live push_body
proof unfold_locales
  fix r body ms rest
  assume "reassembler_ok r \<and> \<not> failed r" "length body \<le> MAX_STREAM_BODY_LENGTH" "parse_stream (live r @ body) = Some (ms, rest)"
  then show "\<exists>s'. push_body r body = (s', Inr ms) \<and> (reassembler_ok s' \<and> \<not> failed s') \<and> live s' = rest"
    using push_body_parses [of r body] by auto
qed

section \<open>Splitting is undone by reassembly\<close>

lemma chunks_Nil [simp]: "chunks k [] = []"
  by (simp add: chunks.simps)

lemma concat_chunks: "0 < k \<Longrightarrow> concat (chunks k bs) = bs"
proof (induction k bs rule: chunks.induct)
  case (1 k bs)
  then show ?case by (cases "bs = []") (simp_all add: chunks.simps [of k bs])
qed

lemma chunks_length: "c \<in> set (chunks k bs) \<Longrightarrow> c \<noteq> [] \<and> length c \<le> k"
proof (induction k bs rule: chunks.induct)
  case (1 k bs)
  show ?case
  proof (cases "bs = [] \<or> k = 0")
    case True
    with 1 show ?thesis by (auto simp: chunks.simps [of k bs])
  next
    case False
    with "1.prems" have "c = take k bs \<or> c \<in> set (chunks k (drop k bs))" by (simp add: chunks.simps [of k bs])
    with False "1.IH" show ?thesis by auto
  qed
qed

lemma chunkAppMessage_frame:
  "length msg \<le> MAX_APP_MESSAGE_LENGTH \<Longrightarrow> chunkAppMessage msg = Inr (chunks MAX_STREAM_BODY_LENGTH (frame msg))"
  using write_frame [of "replicate (UINT32_SIZE + length msg) 0" msg "[]" "[]"]
  by (simp add: chunkAppMessage_def APP_LENGTH_PREFIX_SIZE_def UINT32_SIZE_def)

lemma parse_stream_frame:
  assumes "length msg \<le> MAX_APP_MESSAGE_LENGTH"
  shows "parse_stream (frame msg @ bs) = map_option (\<lambda>(ms, rest). (msg # ms, rest)) (parse_stream bs)"
proof -
  have "unat (of_nat (length msg) :: 32 word) = length msg"
    using assms by (simp add: unat_of_nat take_bit_nat_eq_self MAX_APP_MESSAGE_LENGTH_def)
  then have "readUint32BE (frame msg @ bs) 0 = Some (length msg)"
    using read_be32 [of "[]" "of_nat (length msg)" "msg @ bs"] by (simp add: frame_def)
  moreover have "drop APP_LENGTH_PREFIX_SIZE (frame msg @ bs) = msg @ bs" "length (frame msg) = APP_LENGTH_PREFIX_SIZE + length msg"
    by (simp_all add: frame_def APP_LENGTH_PREFIX_SIZE_def)
  ultimately show ?thesis using assms
    by (simp add: parse_stream.simps [of "frame msg @ bs"])
qed

lemma parse_stream_frames:
  "\<forall>m \<in> set msgs. length m \<le> MAX_APP_MESSAGE_LENGTH \<Longrightarrow> parse_stream (concat (map frame msgs)) = Some (msgs, [])"
  by (induction msgs) (simp_all add: parse_stream_frame)

section \<open>Reachable reassemblers\<close>

inductive push_step :: "reassembler \<Rightarrow> reassembler \<Rightarrow> bool" where
  push: "push_step r (fst (push_body r body))"

interpretation reassembler_run: step_system "\<lambda>r. r = new_reassembler" push_step reassembler_ok
proof unfold_locales
  show "reassembler_ok r" if "r = new_reassembler" for r
    using that reassembler_ok_empty by (simp add: new_reassembler_def)
  show "reassembler_ok r'" if "push_step r r'" "reassembler_ok r" for r r'
    using that push_body_ok by (auto elim: push_step.cases)
qed

section \<open>Properties of the byte stream\<close>

text \<open>Messages of up to a mebibyte each, split into bodies and fed to a new reassembler, come out
  complete, unchanged and in order, and nothing is left over.\<close>

theorem reassemble_roundtrip:
  assumes "\<forall>m \<in> set msgs. length m \<le> MAX_APP_MESSAGE_LENGTH"
  shows "\<exists>r. feed push_body new_reassembler (concat (map (\<lambda>m. projr (chunkAppMessage m)) msgs)) = (r, Inr msgs) \<and> live r = []"
proof -
  let ?bodies = "concat (map (\<lambda>m. chunks MAX_STREAM_BODY_LENGTH (frame m)) msgs)"
  have pos: "0 < MAX_STREAM_BODY_LENGTH" by (simp add: transport_sizes)
  have "map (\<lambda>m. projr (chunkAppMessage m)) msgs = map (\<lambda>m. chunks MAX_STREAM_BODY_LENGTH (frame m)) msgs"
    using assms chunkAppMessage_frame by simp
  moreover have "concat ?bodies = concat (map frame msgs)" by (induction msgs) (simp_all add: concat_chunks [OF pos])
  moreover have "\<forall>b \<in> set ?bodies. length b \<le> MAX_STREAM_BODY_LENGTH" using chunks_length by auto
  moreover have "reassembler_ok new_reassembler \<and> \<not> failed new_reassembler" "live new_reassembler = []"
    using reassembler_ok_empty [of False] by (simp_all add: new_reassembler_def live_def queued_def)
  ultimately show ?thesis
    using reassembly.feed_parses [of new_reassembler ?bodies msgs "[]"] parse_stream_frames [OF assms]
    by (simp del: map_eq_conv) blast
qed

theorem reassemble_roundtrip_witness:
  "\<exists>r. feed push_body new_reassembler (concat (map (\<lambda>m. projr (chunkAppMessage m)) [[1, 2, 3], [], [4]])) =
     (r, Inr [[1, 2, 3], [], [4]]) \<and> live r = []"
  by (rule reassemble_roundtrip) (simp add: MAX_APP_MESSAGE_LENGTH_def)

text \<open>C29: whatever bodies arrive, the reassembler never writes outside its buffer, its buffer never grows
  past the bound, and it holds less than one maximal message and its prefix.\<close>

theorem reassembler_memory_bound:
  assumes "push_step\<^sup>*\<^sup>* new_reassembler r"
  shows "length (buffer r) \<le> MAX_BUFFER_CAPACITY \<and> queued r < APP_LENGTH_PREFIX_SIZE + MAX_APP_MESSAGE_LENGTH \<and>
         snd (push_body r body) \<noteq> Inl BufferRange"
proof -
  have "reassembler_ok r" using reassembler_run.reachable_inv [OF refl assms] .
  then show ?thesis using queued_bound push_body_ok by (auto simp: reassembler_ok_def)
qed

theorem reassembler_memory_bound_witness:
  "length (buffer (fst (push_body new_reassembler [0, 0, 0, 9, 1]))) \<le> MAX_BUFFER_CAPACITY"
  using reassembler_memory_bound [OF r_into_rtranclp [of push_step, OF push_step.push [of new_reassembler "[0, 0, 0, 9, 1]"]]]
  by simp

text \<open>C5: a body fed to a reassembler that has not failed gives exactly the messages the parser finds in
  the pending bytes and the body, and keeps what the parser leaves; a declared length over the
  cap ends the stream for good.\<close>

theorem push_refines_parser:
  assumes "push_step\<^sup>*\<^sup>* new_reassembler r" and "\<not> failed r" and "length body \<le> MAX_STREAM_BODY_LENGTH"
  shows "case parse_stream (live r @ body) of
      None \<Rightarrow> push_body r body = (reassembler_fail r, Inl AppTooLong) \<and>
              push_body (reassembler_fail r) body' = (reassembler_fail r, Inl AlreadyFailed)
    | Some (ms, rest) \<Rightarrow> \<exists>r'. push_body r body = (r', Inr ms) \<and> \<not> failed r' \<and> live r' = rest"
proof -
  have "reassembler_ok r" using reassembler_run.reachable_inv [OF refl assms(1)] .
  moreover have "push_body (reassembler_fail r) body' = (reassembler_fail r, Inl AlreadyFailed)"
    by (simp add: push_body_def reassembler_fail_def)
  ultimately show ?thesis using push_body_parses [OF _ assms(2,3)] by (auto split: option.splits)
qed

theorem push_refines_parser_witness:
  "\<exists>r'. push_body new_reassembler [0, 0, 0, 1, 7, 0] = (r', Inr [[7]]) \<and> live r' = [0]"
proof -
  have "parse_stream ([0, 0, 0, 1, 7, 0] :: byte list) = Some ([[7]], [0])"
    by (simp add: parse_stream.simps readUint32BE_def APP_LENGTH_PREFIX_SIZE_def MAX_APP_MESSAGE_LENGTH_def)
  then show ?thesis
    using push_refines_parser [of new_reassembler "[0, 0, 0, 1, 7, 0]"]
    by (auto simp: new_reassembler_def live_def queued_def transport_sizes)
qed

end
