(* ===== verification/Noise_Session.thy ===== *)
theory Noise_Session
  imports Noise_Transport Js_Json
begin

text \<open>
  The transport session of \<open>remote-lib-common/src/security/noise-transport.ts\<close>: prologues, transport
  plaintexts and the session object over two cipher states and a reassembler. The JSON text of a
  control message is a parameter, \<open>json_codec\<close>, with the law \<open>codec_inverts\<close>: parsing undoes printing
  and the text does not end in a NUL byte. The lemmas show that a prologue determines its fields, that
  plaintexts round trip, that a session in step delivers every message, and that the first
  failure is final.
\<close>

section \<open>Prologues\<close>

text \<open>UTF-8 of the characters up to U+00FF, which is what a \<^typ>\<open>string\<close> holds here.\<close>

definition utf8_char :: "char \<Rightarrow> byte list" where
  "utf8_char c = (let n = of_char c :: nat in
     if n < 128 then [of_nat n] else [of_nat (192 + n div 64), of_nat (128 + n mod 64)])"

definition utf8Encode :: "string \<Rightarrow> byte list" where
  "utf8Encode s = concat (map utf8_char s)"

datatype e2e_kind = KConnection | KPairing | KOneTime

fun kind_name :: "e2e_kind \<Rightarrow> string" where
  "kind_name KConnection = ''connection''"
| "kind_name KPairing = ''pairing''"
| "kind_name KOneTime = ''one-time''"

definition E2E_PROLOGUE_DOMAIN :: string where "E2E_PROLOGUE_DOMAIN = ''dormouse/e2e/v1''"

definition e2ePrologue :: "e2e_kind \<Rightarrow> string \<Rightarrow> string list \<Rightarrow> byte list" where
  "e2ePrologue kind burrow extra =
     lengthPrefixedConcat ([utf8Encode E2E_PROLOGUE_DOMAIN, utf8Encode (kind_name kind), utf8Encode burrow]
       @ map utf8Encode extra)"

definition e2eConnectionPrologue :: "string \<Rightarrow> string \<Rightarrow> byte list" where
  "e2eConnectionPrologue burrow connection = e2ePrologue KConnection burrow [connection]"

definition e2ePairingPrologue :: "string \<Rightarrow> string list \<Rightarrow> byte list" where
  "e2ePairingPrologue burrow fs = e2ePrologue KPairing burrow fs"

definition e2eOneTimePrologue :: "string \<Rightarrow> string list \<Rightarrow> byte list" where
  "e2eOneTimePrologue room fs = e2ePrologue KOneTime room fs"

section \<open>Transport plaintexts\<close>

record json_codec =
  to_json :: "jval \<Rightarrow> byte list"
  of_json :: "byte list \<Rightarrow> jval option"

definition codec_inverts :: "json_codec \<Rightarrow> (string \<times> jval) list \<Rightarrow> bool" where
  "codec_inverts C v = (of_json C (to_json C (VObj v)) = Some (VObj v) \<and>
     to_json C (VObj v) \<noteq> [] \<and> last (to_json C (VObj v)) \<noteq> 0)"

datatype transport_plaintext = Keepalive | Control "(string \<times> jval) list" | StreamBody "byte list"

definition encodeControlBody :: "json_codec \<Rightarrow> (string \<times> jval) list \<Rightarrow> transport_error + byte list" where
  "encodeControlBody C v =
     (let json = to_json C (VObj v) in
      if length json > CONTROL_PAYLOAD_SIZE then Inl ControlTooLong
      else Inr (set_bytes (replicate CONTROL_PAYLOAD_SIZE 0) json 0))"

definition encodeTransportPlaintext :: "json_codec \<Rightarrow> transport_plaintext \<Rightarrow> transport_error + byte list" where
  "encodeTransportPlaintext C fr = (case fr of
      Keepalive \<Rightarrow> Inr (concatBytes [[0], replicate KEEPALIVE_BODY_SIZE 0])
    | Control v \<Rightarrow> (case encodeControlBody C v of Inl e \<Rightarrow> Inl e | Inr b \<Rightarrow> Inr (concatBytes [[2], b]))
    | StreamBody b \<Rightarrow> if length b > MAX_STREAM_BODY_LENGTH then Inl BodyTooLong else Inr (concatBytes [[1], b]))"

definition decodeControlBody :: "json_codec \<Rightarrow> byte list \<Rightarrow> transport_error + (string \<times> jval) list" where
  "decodeControlBody C body =
     (if length body \<noteq> CONTROL_PAYLOAD_SIZE then Inl ControlSize
      else (case of_json C (rev (dropWhile (\<lambda>b. b = 0) (rev body))) of
          None \<Rightarrow> Inl ControlNotJson
        | Some (VObj v) \<Rightarrow> Inr v
        | Some _ \<Rightarrow> Inl ControlNotObject))"

definition decodeTransportPlaintext :: "json_codec \<Rightarrow> byte list \<Rightarrow> transport_error + transport_plaintext" where
  "decodeTransportPlaintext C plaintext = (case plaintext of
      [] \<Rightarrow> Inl EmptyPlaintext
    | k # body \<Rightarrow>
        if k = 0 then
          (if length body \<noteq> KEEPALIVE_BODY_SIZE then Inl KeepaliveSize
           else if list_ex (\<lambda>b. b \<noteq> 0) body then Inl KeepaliveNotZero
           else Inr Keepalive)
        else if k = 1 then (if length body > MAX_STREAM_BODY_LENGTH then Inl BodyTooLong else Inr (StreamBody body))
        else if k = 2 then (case decodeControlBody C body of Inl e \<Rightarrow> Inl e | Inr v \<Rightarrow> Inr (Control v))
        else Inl UnknownKind)"

section \<open>The session\<close>

record session =
  send_cipher :: cipher_state
  receive_cipher :: cipher_state
  handshakeHash :: "byte list"
  reasm :: reassembler
  poison :: "transport_error option"

definition new_session :: "cipher_state \<Rightarrow> cipher_state \<Rightarrow> byte list \<Rightarrow> session" where
  "new_session snd_st rcv_st hash =
     \<lparr>send_cipher = snd_st, receive_cipher = rcv_st, handshakeHash = hash, reasm = new_reassembler, poison = None\<rparr>"

text \<open>\<open>#guarded\<close>: nothing runs in a poisoned session, and an error poisons it.\<close>

definition guarded :: "session \<Rightarrow> (session \<Rightarrow> session \<times> (transport_error + 'a)) \<Rightarrow> session \<times> (transport_error + 'a)" where
  "guarded s run =
     (if poison s \<noteq> None then (s, Inl Destroyed)
      else (case run s of
          (s', Inl e) \<Rightarrow> (s'\<lparr>poison := Some e\<rparr>, Inl e)
        | (s', Inr x) \<Rightarrow> (s', Inr x)))"

definition seal_plaintext :: "aead \<Rightarrow> byte list \<Rightarrow> session \<Rightarrow> session \<times> (transport_error + byte list)" where
  "seal_plaintext A plaintext s = (case encryptWithAd A (send_cipher s) [] plaintext of
      (c, Inl e) \<Rightarrow> (s\<lparr>send_cipher := c\<rparr>, Inl (CipherError e))
    | (c, Inr ct) \<Rightarrow> (s\<lparr>send_cipher := c\<rparr>, Inr ct))"

definition encrypt_frame :: "aead \<Rightarrow> json_codec \<Rightarrow> transport_plaintext \<Rightarrow> session \<Rightarrow> session \<times> (transport_error + byte list)" where
  "encrypt_frame A C fr s = (case encodeTransportPlaintext C fr of
      Inl e \<Rightarrow> (s, Inl e)
    | Inr plaintext \<Rightarrow> seal_plaintext A plaintext s)"

definition sendKeepalive :: "aead \<Rightarrow> json_codec \<Rightarrow> session \<Rightarrow> session \<times> (transport_error + byte list)" where
  "sendKeepalive A C s = guarded s (encrypt_frame A C Keepalive)"

definition sendControl :: "aead \<Rightarrow> json_codec \<Rightarrow> (string \<times> jval) list \<Rightarrow> session \<Rightarrow> session \<times> (transport_error + byte list)" where
  "sendControl A C v s =
     (if poison s \<noteq> None then (s, Inl Destroyed)
      else (case encodeTransportPlaintext C (Control v) of
          Inl e \<Rightarrow> (s, Inl e)
        | Inr plaintext \<Rightarrow> guarded s (seal_plaintext A plaintext)))"

fun encrypt_bodies :: "aead \<Rightarrow> json_codec \<Rightarrow> byte list list \<Rightarrow> session \<Rightarrow> session \<times> (transport_error + byte list list)" where
  "encrypt_bodies A C [] s = (s, Inr [])"
| "encrypt_bodies A C (b # bs) s = (case encrypt_frame A C (StreamBody b) s of
      (s', Inl e) \<Rightarrow> (s', Inl e)
    | (s', Inr ct) \<Rightarrow> (case encrypt_bodies A C bs s' of
        (s'', Inl e) \<Rightarrow> (s'', Inl e)
      | (s'', Inr cts) \<Rightarrow> (s'', Inr (ct # cts))))"

definition sendApp :: "aead \<Rightarrow> json_codec \<Rightarrow> byte list \<Rightarrow> session \<Rightarrow> session \<times> (transport_error + byte list list)" where
  "sendApp A C msg s =
     (if poison s \<noteq> None then (s, Inl Destroyed)
      else (case chunkAppMessage msg of
          Inl e \<Rightarrow> (s, Inl e)
        | Inr bodies \<Rightarrow> guarded s (encrypt_bodies A C bodies)))"

datatype receipt = KeepaliveReceived | ControlReceived "(string \<times> jval) list" | AppReceived "byte list list"

definition receive_frame :: "aead \<Rightarrow> json_codec \<Rightarrow> byte list \<Rightarrow> session \<Rightarrow> session \<times> (transport_error + receipt)" where
  "receive_frame A C ciphertext s = (case decryptWithAd A (receive_cipher s) [] ciphertext of
      (c, Inl e) \<Rightarrow> (s\<lparr>receive_cipher := c\<rparr>, Inl (CipherError e))
    | (c, Inr plaintext) \<Rightarrow>
        (let s1 = s\<lparr>receive_cipher := c\<rparr> in
         case decodeTransportPlaintext C plaintext of
           Inl e \<Rightarrow> (s1, Inl e)
         | Inr Keepalive \<Rightarrow> (s1, Inr KeepaliveReceived)
         | Inr (Control v) \<Rightarrow> (s1, Inr (ControlReceived v))
         | Inr (StreamBody b) \<Rightarrow> (case push_body (reasm s1) b of
             (r, Inl e) \<Rightarrow> (s1\<lparr>reasm := r\<rparr>, Inl e)
           | (r, Inr ms) \<Rightarrow> (s1\<lparr>reasm := r\<rparr>, Inr (AppReceived ms)))))"

definition receive :: "aead \<Rightarrow> json_codec \<Rightarrow> byte list \<Rightarrow> session \<Rightarrow> session \<times> (transport_error + receipt)" where
  "receive A C ciphertext s = guarded s (receive_frame A C ciphertext)"

section \<open>Prologues determine their fields\<close>

lemma of_nat_byte_eq: "m < 256 \<Longrightarrow> n < 256 \<Longrightarrow> (of_nat m :: byte) = of_nat n \<longleftrightarrow> m = n"
proof
  assume "m < 256" "n < 256" "(of_nat m :: byte) = of_nat n"
  then have "unat (of_nat m :: byte) = unat (of_nat n :: byte)" by simp
  with \<open>m < 256\<close> \<open>n < 256\<close> show "m = n" by (simp add: unat_of_nat take_bit_nat_eq_self)
qed simp

lemma utf8_char_prefix:
  assumes "utf8_char a @ x = utf8_char b @ y"
  shows "a = b \<and> x = y"
proof -
  define m n where "m = (of_char a :: nat)" and "n = (of_char b :: nat)"
  have lt: "m < 256" "n < 256" by (simp_all add: m_def n_def)
  have ab: "m = n \<Longrightarrow> a = b" by (simp add: m_def n_def)
  have ineq: "192 + m div 64 < 256" "192 + n div 64 < 256" "128 + m mod 64 < 256" "128 + n mod 64 < 256"
    using lt by (auto simp: less_mult_imp_div_less intro: order.strict_trans2)
  show ?thesis
  proof (cases "m < 128")
    case True
    then show ?thesis using assms lt ineq ab by (auto simp: utf8_char_def Let_def m_def [symmetric] n_def [symmetric] of_nat_byte_eq simp del: of_nat_add split: if_splits)
  next
    case False
    have "m div 64 = n div 64 \<Longrightarrow> m mod 64 = n mod 64 \<Longrightarrow> m = n" by (metis div_mult_mod_eq)
    with False show ?thesis using assms lt ineq ab
      by (auto simp: utf8_char_def Let_def m_def [symmetric] n_def [symmetric] of_nat_byte_eq simp del: of_nat_add split: if_splits)
  qed
qed

lemma utf8Encode_inject: "utf8Encode s = utf8Encode t \<longleftrightarrow> s = t"
proof
  show "utf8Encode s = utf8Encode t \<Longrightarrow> s = t"
  proof (induction s arbitrary: t)
    case Nil
    then show ?case by (cases t) (auto simp: utf8Encode_def utf8_char_def Let_def split: if_splits)
  next
    case (Cons c s)
    then obtain d u where t: "t = d # u" by (cases t) (auto simp: utf8Encode_def utf8_char_def Let_def split: if_splits)
    with Cons.prems utf8_char_prefix [of c "utf8Encode s" d "utf8Encode u"] Cons.IH [of u] show ?case
      by (simp add: utf8Encode_def)
  qed
qed simp

lemma kind_name_inject: "kind_name k = kind_name l \<longleftrightarrow> k = l"
  by (cases k; cases l) simp_all

section \<open>Plaintexts round trip\<close>

lemma control_roundtrip:
  assumes "codec_inverts C v" "encodeControlBody C v = Inr b"
  shows "decodeControlBody C b = Inr v"
proof -
  let ?j = "to_json C (VObj v)"
  from assms(2) have len: "length ?j \<le> CONTROL_PAYLOAD_SIZE" and b: "b = ?j @ replicate (CONTROL_PAYLOAD_SIZE - length ?j) 0"
    by (auto simp: encodeControlBody_def set_bytes_def Let_def split: if_splits)
  have j: "?j \<noteq> []" "last ?j \<noteq> 0" "of_json C ?j = Some (VObj v)" using assms(1) by (auto simp: codec_inverts_def)
  have "dropWhile (\<lambda>b. b = 0) (replicate n 0 @ rev ?j) = rev ?j" for n
    using j(1,2) by (induction n) (cases ?j rule: rev_cases; simp)+
  with len b j(3) show ?thesis by (simp add: decodeControlBody_def)
qed

lemma plaintext_roundtrip:
  assumes "\<And>v. f = Control v \<Longrightarrow> codec_inverts C v" "encodeTransportPlaintext C f = Inr p"
  shows "decodeTransportPlaintext C p = Inr f"
  using assms control_roundtrip
  by (cases f) (auto simp: encodeTransportPlaintext_def decodeTransportPlaintext_def concatBytes_eq list_ex_iff
      split: sum.splits if_splits)

lemma plaintext_length:
  assumes "encodeTransportPlaintext C f = Inr p"
  shows "length p + NOISE_TAG_LENGTH \<le> NOISE_MAX_MESSAGE_LENGTH"
  using assms
  by (cases f) (auto simp: encodeTransportPlaintext_def encodeControlBody_def concatBytes_eq set_bytes_def transport_sizes Let_def
      split: if_splits)

section \<open>Delivery\<close>

text \<open>A receiver that collects the application messages.\<close>

definition receive_app :: "aead \<Rightarrow> json_codec \<Rightarrow> session \<Rightarrow> byte list \<Rightarrow> session \<times> (transport_error + byte list list)" where
  "receive_app A C t ct = (case receive A C ct t of
      (t', Inl e) \<Rightarrow> (t', Inl e)
    | (t', Inr (AppReceived ms)) \<Rightarrow> (t', Inr ms)
    | (t', Inr _) \<Rightarrow> (t', Inr []))"

text \<open>The counter is valid and good for so many more messages.\<close>

definition spare :: "cipher_state \<Rightarrow> nat \<Rightarrow> bool" where
  "spare st n = (0 \<le> counter st \<and> counter st + int n \<le> RESERVED_NONCE)"

lemma encrypt_succeeds:
  assumes "spare st (Suc n)" "length p + NOISE_TAG_LENGTH \<le> NOISE_MAX_MESSAGE_LENGTH"
  shows "\<exists>st' c. encryptWithAd A st ad p = (st', Inr c) \<and> spare st' n"
  using assms by (auto simp: encryptWithAd_def requireMaxMessageLength_def noiseNonceBytes_def spare_def split: option.splits)

lemma encrypt_frame_delivered:
  assumes "aead_ok A" "length b \<le> MAX_STREAM_BODY_LENGTH" "spare (send_cipher s) (Suc n)"
    and "receive_cipher t = send_cipher s" "poison t = None" "push_body (reasm t) b = (r, Inr ms)"
  shows "\<exists>c ct. encrypt_frame A C (StreamBody b) s = (s\<lparr>send_cipher := c\<rparr>, Inr ct) \<and> spare c n \<and>
    receive_app A C t ct = (t\<lparr>receive_cipher := c, reasm := r\<rparr>, Inr ms)"
proof -
  obtain p where p: "encodeTransportPlaintext C (StreamBody b) = Inr p"
    using assms(2) by (simp add: encodeTransportPlaintext_def)
  from encrypt_succeeds [OF assms(3) plaintext_length [OF p]] obtain c ct where
    enc: "encryptWithAd A (send_cipher s) [] p = (c, Inr ct)" "spare c n" by blast
  from decrypt_encrypt [OF assms(1) enc(1)] plaintext_roundtrip [OF _ p] assms(4-6)
  have "receive_app A C t ct = (t\<lparr>receive_cipher := c, reasm := r\<rparr>, Inr ms)"
    by (simp add: receive_app_def receive_def guarded_def receive_frame_def)
  moreover have "encrypt_frame A C (StreamBody b) s = (s\<lparr>send_cipher := c\<rparr>, Inr ct)"
    using p enc(1) by (simp add: encrypt_frame_def seal_plaintext_def)
  ultimately show ?thesis using enc(2) by blast
qed

lemma encrypt_bodies_delivered:
  assumes "aead_ok A"
    and "\<forall>b \<in> set bodies. length b \<le> MAX_STREAM_BODY_LENGTH" "spare (send_cipher s) (length bodies + n)"
    and "receive_cipher t = send_cipher s" "poison t = None" "feed push_body (reasm t) bodies = (r, Inr ms)"
  shows "\<exists>c cts. encrypt_bodies A C bodies s = (s\<lparr>send_cipher := c\<rparr>, Inr cts) \<and> spare c n \<and>
    feed (receive_app A C) t cts = (t\<lparr>receive_cipher := c, reasm := r\<rparr>, Inr ms)"
  using assms(2-6)
proof (induction bodies arbitrary: s t ms)
  case Nil
  then show ?case by (intro exI [of _ "send_cipher s"] exI [of _ "[]"]) simp
next
  case (Cons b bs)
  from Cons.prems(5) obtain r1 ms1 ms2 where push: "push_body (reasm t) b = (r1, Inr ms1)"
    and rest: "feed push_body r1 bs = (r, Inr ms2)" and ms: "ms = ms1 @ ms2"
    by (auto split: prod.splits sum.splits)
  have b: "length b \<le> MAX_STREAM_BODY_LENGTH" "spare (send_cipher s) (Suc (length bs + n))" using Cons.prems(1,2) by auto
  from encrypt_frame_delivered [OF assms(1) b Cons.prems(3,4) push] obtain c ct where
    fr: "encrypt_frame A C (StreamBody b) s = (s\<lparr>send_cipher := c\<rparr>, Inr ct)" "spare c (length bs + n)"
      "receive_app A C t ct = (t\<lparr>receive_cipher := c, reasm := r1\<rparr>, Inr ms1)" by blast
  have "\<exists>c' cts. encrypt_bodies A C bs (s\<lparr>send_cipher := c\<rparr>) = (s\<lparr>send_cipher := c\<rparr>\<lparr>send_cipher := c'\<rparr>, Inr cts) \<and> spare c' n \<and>
      feed (receive_app A C) (t\<lparr>receive_cipher := c, reasm := r1\<rparr>) cts =
        (t\<lparr>receive_cipher := c, reasm := r1\<rparr>\<lparr>receive_cipher := c', reasm := r\<rparr>, Inr ms2)"
    using Cons.prems(1,4) fr(2) rest by (intro Cons.IH) auto
  then obtain c' cts where "encrypt_bodies A C bs (s\<lparr>send_cipher := c\<rparr>) = (s\<lparr>send_cipher := c'\<rparr>, Inr cts)" "spare c' n"
      "feed (receive_app A C) (t\<lparr>receive_cipher := c, reasm := r1\<rparr>) cts = (t\<lparr>receive_cipher := c', reasm := r\<rparr>, Inr ms2)"
    by auto
  with fr ms show ?case by (intro exI [of _ c'] exI [of _ "ct # cts"]) simp
qed

lemma feed_append:
  "feed p s xs = (s1, Inr m1) \<Longrightarrow> feed p s1 ys = (s2, Inr m2) \<Longrightarrow> feed p s (xs @ ys) = (s2, Inr (m1 @ m2))"
  by (induction xs arbitrary: s m1) (auto split: prod.splits sum.splits)

text \<open>Two ends of a session: both alive, the receiver at the sender's key and counter, no message half
  read.\<close>

definition in_step :: "session \<Rightarrow> session \<Rightarrow> bool" where
  "in_step s t = (poison s = None \<and> poison t = None \<and> receive_cipher t = send_cipher s \<and>
     reassembler_ok (reasm t) \<and> \<not> failed (reasm t) \<and> live (reasm t) = [])"

definition body_count :: "byte list \<Rightarrow> nat" where
  "body_count msg = length (chunks MAX_STREAM_BODY_LENGTH (frame msg))"

lemma sendApp_delivered:
  assumes "aead_ok A" "in_step s t" "length msg \<le> MAX_APP_MESSAGE_LENGTH"
    and "spare (send_cipher s) (body_count msg + n)"
  shows "\<exists>s' t' cts. sendApp A C msg s = (s', Inr cts) \<and> feed (receive_app A C) t cts = (t', Inr [msg]) \<and>
    in_step s' t' \<and> spare (send_cipher s') n"
proof -
  let ?bodies = "chunks MAX_STREAM_BODY_LENGTH (frame msg)"
  have bodies: "concat ?bodies = frame msg" "\<forall>b \<in> set ?bodies. length b \<le> MAX_STREAM_BODY_LENGTH"
    using concat_chunks chunks_length by (auto simp: transport_sizes)
  from parse_stream_frame [OF assms(3), of "[]"] have "parse_stream (frame msg) = Some ([msg], [])" by simp
  with reassembly.feed_parses [of "reasm t" ?bodies "[msg]" "[]"] bodies assms(2)
  obtain r where r: "feed push_body (reasm t) ?bodies = (r, Inr [msg])" "reassembler_ok r" "\<not> failed r" "live r = []"
    by (auto simp: in_step_def)
  have st: "receive_cipher t = send_cipher s" "poison t = None" "poison s = None" using assms(2) by (simp_all add: in_step_def)
  from encrypt_bodies_delivered [OF assms(1) bodies(2) _ st(1,2) r(1), of n C] assms(4) obtain c cts where
    e: "encrypt_bodies A C ?bodies s = (s\<lparr>send_cipher := c\<rparr>, Inr cts)" "spare c n"
      "feed (receive_app A C) t cts = (t\<lparr>receive_cipher := c, reasm := r\<rparr>, Inr [msg])"
    by (auto simp: body_count_def)
  have "sendApp A C msg s = (s\<lparr>send_cipher := c\<rparr>, Inr cts)"
    using e(1) st(3) chunkAppMessage_frame [OF assms(3)] by (simp add: sendApp_def guarded_def)
  moreover have "in_step (s\<lparr>send_cipher := c\<rparr>) (t\<lparr>receive_cipher := c, reasm := r\<rparr>)"
    using st r by (simp add: in_step_def)
  ultimately show ?thesis using e(2,3) by (intro exI conjI) (assumption | simp)+
qed

lemma session_delivery:
  assumes "aead_ok A" "in_step s t" "\<forall>m \<in> set msgs. length m \<le> MAX_APP_MESSAGE_LENGTH"
    and "spare (send_cipher s) (sum_list (map body_count msgs) + n)"
  shows "\<exists>s' t' cts. feed (\<lambda>s m. sendApp A C m s) s msgs = (s', Inr cts) \<and> feed (receive_app A C) t cts = (t', Inr msgs) \<and>
    in_step s' t' \<and> spare (send_cipher s') n"
  using assms(2-4)
proof (induction msgs arbitrary: s t)
  case Nil
  then show ?case by (intro exI [of _ s] exI [of _ t] exI [of _ "[]"]) simp
next
  case (Cons m ms)
  have m: "length m \<le> MAX_APP_MESSAGE_LENGTH" "spare (send_cipher s) (body_count m + (sum_list (map body_count ms) + n))"
    using Cons.prems by (simp_all add: add.assoc)
  from sendApp_delivered [OF assms(1) Cons.prems(1) m] obtain s1 t1 cts1 where
    1: "sendApp A C m s = (s1, Inr cts1)" "feed (receive_app A C) t cts1 = (t1, Inr [m])" "in_step s1 t1"
      "spare (send_cipher s1) (sum_list (map body_count ms) + n)" by blast
  from Cons.IH [OF 1(3) _ 1(4)] Cons.prems(2) obtain s2 t2 cts2 where
    2: "feed (\<lambda>s m. sendApp A C m s) s1 ms = (s2, Inr cts2)" "feed (receive_app A C) t1 cts2 = (t2, Inr ms)"
      "in_step s2 t2" "spare (send_cipher s2) n" by auto
  have "feed (receive_app A C) t (cts1 @ cts2) = (t2, Inr (m # ms))" using feed_append [OF 1(2) 2(2)] by simp
  with 1(1) 2 show ?case by (intro exI [of _ s2] exI [of _ t2] exI [of _ "cts1 @ cts2"]) simp
qed

section \<open>Failure is final\<close>

lemma guarded_poison:
  assumes "guarded s run = (s', Inl e)"
  shows "poison s' \<noteq> None"
  using assms by (auto simp: guarded_def split: if_splits prod.splits sum.splits)

lemma poisoned_calls:
  assumes "poison s \<noteq> None"
  shows "sendKeepalive A C s = (s, Inl Destroyed)" "sendControl A C v s = (s, Inl Destroyed)"
    "sendApp A C msg s = (s, Inl Destroyed)" "receive A C ct s = (s, Inl Destroyed)"
  using assms by (simp_all add: sendKeepalive_def sendControl_def sendApp_def receive_def guarded_def)

section \<open>Properties\<close>

text \<open>A prologue determines the ceremony, the Burrow and every field: two transcripts with the same
  prologue bytes are the same transcript.\<close>

theorem prologue_binds_fields:
  assumes "\<forall>f \<in> set (b # xs) \<union> set (c # ys). length (utf8Encode f) < 2 ^ 32"
  shows "e2ePrologue k b xs = e2ePrologue l c ys \<longleftrightarrow> k = l \<and> b = c \<and> xs = ys"
proof -
  let ?P = "[utf8Encode E2E_PROLOGUE_DOMAIN, utf8Encode (kind_name k), utf8Encode b] @ map utf8Encode xs"
  let ?Q = "[utf8Encode E2E_PROLOGUE_DOMAIN, utf8Encode (kind_name l), utf8Encode c] @ map utf8Encode ys"
  have "length (utf8Encode E2E_PROLOGUE_DOMAIN) < 2 ^ 32" "length (utf8Encode (kind_name m)) < 2 ^ 32" for m
    by (cases m; simp add: utf8Encode_def utf8_char_def E2E_PROLOGUE_DOMAIN_def)+
  with assms have "e2ePrologue k b xs = e2ePrologue l c ys \<longleftrightarrow> ?P = ?Q"
    unfolding e2ePrologue_def lengthPrefixedConcat_eq by (intro iffI frames_inject) auto
  also have "\<dots> \<longleftrightarrow> k = l \<and> b = c \<and> xs = ys"
    by (auto simp: utf8Encode_inject kind_name_inject inj_map_eq_map inj_def)
  finally show ?thesis .
qed

theorem prologue_binds_fields_witness:
  "e2eConnectionPrologue ''b'' ''pairing'' \<noteq> e2ePairingPrologue ''b'' [''pairing'']"
  using prologue_binds_fields [of "''b''" "[''pairing'']" "''b''" "[''pairing'']" KConnection KPairing]
  by (simp add: e2eConnectionPrologue_def e2ePairingPrologue_def utf8Encode_def utf8_char_def)

text \<open>A transport plaintext decodes to the frame that was encoded, and its ciphertext fits one Noise
  message.\<close>

theorem transport_plaintext_roundtrip:
  assumes "\<And>v. f = Control v \<Longrightarrow> codec_inverts C v" and "encodeTransportPlaintext C f = Inr p"
  shows "decodeTransportPlaintext C p = Inr f \<and> length p + NOISE_TAG_LENGTH \<le> NOISE_MAX_MESSAGE_LENGTH"
  using plaintext_roundtrip [OF assms] plaintext_length [OF assms(2)] by blast

definition empty_codec :: json_codec where
  "empty_codec = \<lparr>to_json = (\<lambda>v. [123, 125]), of_json = (\<lambda>bs. if bs = [123, 125] then Some (VObj []) else None)\<rparr>"

theorem transport_plaintext_roundtrip_witness:
  "decodeTransportPlaintext empty_codec (2 # [123, 125] @ replicate 4094 0) = Inr (Control [])"
  using transport_plaintext_roundtrip [of "Control []" empty_codec "2 # [123, 125] @ replicate 4094 0"]
  by (simp add: codec_inverts_def empty_codec_def encodeTransportPlaintext_def encodeControlBody_def concatBytes_eq
      set_bytes_def CONTROL_PAYLOAD_SIZE_def)

text \<open>A session in step delivers: the messages one end sends are accepted, and the other end reads
  exactly those messages, in order, as long as the counter lasts; both ends are in step again.\<close>

theorem session_delivers_messages:
  assumes "aead_ok A" and "in_step s t" and "\<forall>m \<in> set msgs. length m \<le> MAX_APP_MESSAGE_LENGTH"
    and "0 \<le> counter (send_cipher s)"
    and "counter (send_cipher s) + int (sum_list (map body_count msgs)) \<le> RESERVED_NONCE"
  shows "\<exists>s' t' cts. feed (\<lambda>s m. sendApp A C m s) s msgs = (s', Inr cts) \<and>
           feed (receive_app A C) t cts = (t', Inr msgs) \<and> in_step s' t'"
  using session_delivery [OF assms(1-3), of 0 C] assms(4,5) by (auto simp: spare_def)

definition fresh_end :: session where
  "fresh_end = new_session \<lparr>ckey = Some (replicate 32 1), counter = 0\<rparr> \<lparr>ckey = Some (replicate 32 1), counter = 0\<rparr> []"

theorem session_delivers_messages_witness:
  "\<exists>s' t' cts. feed (\<lambda>s m. sendApp plain_aead empty_codec m s) fresh_end [[1, 2], []] = (s', Inr cts) \<and>
     feed (receive_app plain_aead empty_codec) fresh_end cts = (t', Inr [[1, 2], []]) \<and> in_step s' t'"
proof (rule session_delivers_messages [OF plain_aead_ok])
  show "in_step fresh_end fresh_end"
    using reassembler_ok_empty by (simp add: in_step_def fresh_end_def new_session_def new_reassembler_def live_def queued_def)
  show "counter (send_cipher fresh_end) + int (sum_list (map body_count [[1, 2], []])) \<le> RESERVED_NONCE"
    by (simp add: fresh_end_def new_session_def body_count_def chunks.simps frame_def transport_sizes RESERVED_NONCE_def)
qed (simp_all add: MAX_APP_MESSAGE_LENGTH_def fresh_end_def new_session_def)

text \<open>C31: the first failure is final: a failed receive poisons the session, and every later call is refused
  and changes nothing. A message too big to send is refused with an error and without harm: the error is the
  one of a destroyed session where the session is poisoned and that of the size otherwise, and the session is
  as it was.\<close>

theorem session_failure_final:
  "(snd (receive A C ct s) = Inl e \<longrightarrow>
     (let s' = fst (receive A C ct s) in
      poison s' \<noteq> None \<and> sendKeepalive A C s' = (s', Inl Destroyed) \<and> sendControl A C v s' = (s', Inl Destroyed) \<and>
      sendApp A C msg s' = (s', Inl Destroyed) \<and> receive A C ct' s' = (s', Inl Destroyed))) \<and>
   (length big > MAX_APP_MESSAGE_LENGTH \<longrightarrow>
      sendApp A C big s = (s, Inl (if poison s = None then AppTooLong else Destroyed)))"
proof (intro conjI impI)
  assume fail: "snd (receive A C ct s) = Inl e"
  then obtain s' where s': "receive A C ct s = (s', Inl e)" by (metis prod.collapse)
  then have "poison s' \<noteq> None" unfolding receive_def by (rule guarded_poison)
  with s' poisoned_calls [OF this] show "let s' = fst (receive A C ct s) in
      poison s' \<noteq> None \<and> sendKeepalive A C s' = (s', Inl Destroyed) \<and> sendControl A C v s' = (s', Inl Destroyed) \<and>
      sendApp A C msg s' = (s', Inl Destroyed) \<and> receive A C ct' s' = (s', Inl Destroyed)"
    by (simp add: Let_def)
next
  assume "length big > MAX_APP_MESSAGE_LENGTH"
  then show "sendApp A C big s = (s, Inl (if poison s = None then AppTooLong else Destroyed))"
    by (simp add: sendApp_def chunkAppMessage_def)
qed

theorem session_failure_final_witness:
  "poison (fst (receive plain_aead empty_codec [9] fresh_end)) \<noteq> None \<and>
   sendApp plain_aead empty_codec (replicate (Suc MAX_APP_MESSAGE_LENGTH) 0) fresh_end = (fresh_end, Inl AppTooLong)"
  using session_failure_final [of plain_aead empty_codec "[9]" fresh_end "CipherError AuthenticationFailed" "[]" "[]" "[]"
      "replicate (Suc MAX_APP_MESSAGE_LENGTH) 0"]
  by (simp add: receive_def guarded_def receive_frame_def decryptWithAd_def fresh_end_def new_session_def requireMaxMessageLength_def
      noiseNonceBytes_def plain_aead_def RESERVED_NONCE_def NOISE_MAX_MESSAGE_LENGTH_def NOISE_TAG_LENGTH_def Let_def)

end
