(* ===== verification/Noise_Handshake.thy ===== *)
theory Noise_Handshake
  imports Noise_Session
begin

text \<open>
  The Noise IK handshake (\<open>remote-lib-common/src/security/noise.ts\<close>): the symmetric state, the two
  messages of each role and the guard that lets one step run at a time. SHA-256, HMAC and X25519 are
  WebCrypto's and parameters of the model; what the handshake relies on is \<open>crypto_ok\<close>: digests
  have 32 bytes and an agreement is the same from both sides. A private key is an opaque handle.

  The lemmas show that two honest ends finish with the same transcript hash and mirrored keys, that
  the responder learns the initiator's static key, and that a failed handshake stays failed and
  yields no session.
\<close>

section \<open>Cryptographic parameters\<close>

record webcrypto =
  digest :: "byte list \<Rightarrow> byte list"
  hmac :: "byte list \<Rightarrow> byte list \<Rightarrow> byte list"
  deriveBits :: "nat \<Rightarrow> byte list \<Rightarrow> byte list option"
  public_of :: "nat \<Rightarrow> byte list"

definition crypto_ok :: "webcrypto \<Rightarrow> bool" where
  "crypto_ok W \<longleftrightarrow> (\<forall>x. length (digest W x) = 32) \<and> (\<forall>k x. length (hmac W k x) = 32) \<and>
     (\<forall>a b. deriveBits W a (public_of W b) = deriveBits W b (public_of W a))"

record key_pair =
  privateKey :: nat
  publicKey :: "byte list"

section \<open>Errors and steps that may throw\<close>

datatype handshake_error =
    CipherFailed noise_error
  | KeyNot32Bytes
  | AgreementFailed
  | KeyGenerationFailed
  | ProtocolNameTooLong
  | MessageTooShort
  | MessageOverMaximum
  | WrongOrder
  | AlreadyFailed
  | AlreadyComplete
  | StepInFlight
  | NotComplete
  | HandshakeFailed

text \<open>A computation that may throw keeps what it had written by then.\<close>

type_synonym ('s, 'a) act = "'s \<Rightarrow> 's \<times> (handshake_error + 'a)"

definition act_bind :: "('s, 'a) act \<Rightarrow> ('a \<Rightarrow> ('s, 'b) act) \<Rightarrow> ('s, 'b) act" where
  "act_bind m f s = (case m s of (s', Inl e) \<Rightarrow> (s', Inl e) | (s', Inr x) \<Rightarrow> f x s')"

definition act_pure :: "(handshake_error + 'a) \<Rightarrow> ('s, 'a) act" where
  "act_pure r s = (s, r)"

definition act_put :: "('s \<Rightarrow> 's) \<Rightarrow> ('s, unit) act" where
  "act_put f s = (f s, Inr ())"

section \<open>The symmetric state\<close>

definition NOISE_PROTOCOL_NAME :: string where
  "NOISE_PROTOCOL_NAME = ''Noise_IK_25519_ChaChaPoly_SHA256''"

definition MESSAGE_1_OVERHEAD :: nat where
  "MESSAGE_1_OVERHEAD = NOISE_KEY_LENGTH * 2 + NOISE_TAG_LENGTH * 2"

definition MESSAGE_2_OVERHEAD :: nat where
  "MESSAGE_2_OVERHEAD = NOISE_KEY_LENGTH + NOISE_TAG_LENGTH"

record symmetric =
  chainingKey :: "byte list"
  transcript :: "byte list"
  sym_cipher :: cipher_state

record noise_session =
  nsend :: cipher_state
  nreceive :: cipher_state
  nhash :: "byte list"

definition noiseHkdf :: "webcrypto \<Rightarrow> byte list \<Rightarrow> byte list \<Rightarrow> byte list \<times> byte list" where
  "noiseHkdf W ck ikm =
     (let tempKey = hmac W ck ikm;
          output1 = hmac W tempKey [1];
          output2 = hmac W tempKey (output1 @ [2])
      in (output1, output2))"

definition initialize_symmetric :: "handshake_error + symmetric" where
  "initialize_symmetric =
     (let name = utf8Encode NOISE_PROTOCOL_NAME in
      if length name > NOISE_KEY_LENGTH then Inl ProtocolNameTooLong
      else (let h = name @ replicate (NOISE_KEY_LENGTH - length name) 0
            in Inr \<lparr>chainingKey = h, transcript = h, sym_cipher = \<lparr>ckey = None, counter = 0\<rparr>\<rparr>))"

definition mixHash :: "webcrypto \<Rightarrow> byte list \<Rightarrow> symmetric \<Rightarrow> symmetric" where
  "mixHash W d y = y\<lparr>transcript := digest W (transcript y @ d)\<rparr>"

definition mixKey :: "webcrypto \<Rightarrow> byte list \<Rightarrow> (symmetric, unit) act" where
  "mixKey W ikm y =
     (let (ck, tk) = noiseHkdf W (chainingKey y) ikm; y1 = y\<lparr>chainingKey := ck\<rparr>
      in case new_cipher (Some tk) of
           Inl e \<Rightarrow> (y1, Inl (CipherFailed e))
         | Inr c \<Rightarrow> (y1\<lparr>sym_cipher := c\<rparr>, Inr ()))"

definition encryptAndHash :: "webcrypto \<Rightarrow> aead \<Rightarrow> byte list \<Rightarrow> (symmetric, byte list) act" where
  "encryptAndHash W A plaintext y = (case encryptWithAd A (sym_cipher y) (transcript y) plaintext of
      (c, Inl e) \<Rightarrow> (y\<lparr>sym_cipher := c\<rparr>, Inl (CipherFailed e))
    | (c, Inr ct) \<Rightarrow> (mixHash W ct (y\<lparr>sym_cipher := c\<rparr>), Inr ct))"

definition decryptAndHash :: "webcrypto \<Rightarrow> aead \<Rightarrow> byte list \<Rightarrow> (symmetric, byte list) act" where
  "decryptAndHash W A ciphertext y = (case decryptWithAd A (sym_cipher y) (transcript y) ciphertext of
      (c, Inl e) \<Rightarrow> (y\<lparr>sym_cipher := c\<rparr>, Inl (CipherFailed e))
    | (c, Inr p) \<Rightarrow> (mixHash W ciphertext (y\<lparr>sym_cipher := c\<rparr>), Inr p))"

definition split_session :: "webcrypto \<Rightarrow> bool \<Rightarrow> symmetric \<Rightarrow> handshake_error + noise_session" where
  "split_session W initiator y =
     (let (k1, k2) = noiseHkdf W (chainingKey y) [] in
      case (new_cipher (Some (if initiator then k1 else k2)), new_cipher (Some (if initiator then k2 else k1))) of
        (Inl e, _) \<Rightarrow> Inl (CipherFailed e)
      | (_, Inl e) \<Rightarrow> Inl (CipherFailed e)
      | (Inr s, Inr r) \<Rightarrow> Inr \<lparr>nsend = s, nreceive = r, nhash = transcript y\<rparr>)"

section \<open>The handshake\<close>

record handshake =
  is_initiator :: bool
  sym :: symmetric
  static_pair :: key_pair
  ephemeral :: "key_pair option"
  remoteStatic :: "byte list option"
  remoteEphemeral :: "byte list option"
  firstMessageDone :: bool
  hs_failed :: bool
  inFlight :: bool
  hs_session :: "noise_session option"

definition requireKey :: "byte list \<Rightarrow> handshake_error + unit" where
  "requireKey k = (if length k \<noteq> NOISE_KEY_LENGTH then Inl KeyNot32Bytes else Inr ())"

definition copyKey :: "byte list \<Rightarrow> nat \<Rightarrow> byte list" where
  "copyKey source offset = take NOISE_KEY_LENGTH (drop offset source)"

definition requireMessageLength :: "nat \<Rightarrow> nat \<Rightarrow> handshake_error + unit" where
  "requireMessageLength n overhead =
     (if n < overhead then Inl MessageTooShort
      else if n > NOISE_MAX_MESSAGE_LENGTH then Inl MessageOverMaximum
      else Inr ())"

definition x25519Agree :: "webcrypto \<Rightarrow> nat \<Rightarrow> byte list \<Rightarrow> handshake_error + byte list" where
  "x25519Agree W private_key public_key = (case requireKey public_key of
      Inl e \<Rightarrow> Inl e
    | Inr _ \<Rightarrow> (case deriveBits W private_key public_key of
        None \<Rightarrow> Inl AgreementFailed
      | Some shared \<Rightarrow>
          if length shared \<noteq> NOISE_KEY_LENGTH \<or> constantTimeEqual shared (replicate NOISE_KEY_LENGTH 0)
          then Inl AgreementFailed else Inr shared))"

text \<open>A generated key pair, \<open>None\<close> when WebCrypto fails; its public half is checked.\<close>

definition generateNoiseKeyPair :: "key_pair option \<Rightarrow> handshake_error + key_pair" where
  "generateNoiseKeyPair fresh = (case fresh of
      None \<Rightarrow> Inl KeyGenerationFailed
    | Some k \<Rightarrow> if length (publicKey k) \<noteq> NOISE_KEY_LENGTH then Inl KeyNot32Bytes else Inr k)"

definition start_handshake :: "webcrypto \<Rightarrow> byte list \<Rightarrow> key_pair \<Rightarrow> key_pair option \<Rightarrow> byte list option \<Rightarrow> handshake_error + handshake" where
  "start_handshake W prologue s e rs =
     (if length (publicKey s) \<noteq> NOISE_KEY_LENGTH
         \<or> (case e of Some k \<Rightarrow> length (publicKey k) \<noteq> NOISE_KEY_LENGTH | None \<Rightarrow> False)
         \<or> (case rs of Some k \<Rightarrow> length k \<noteq> NOISE_KEY_LENGTH | None \<Rightarrow> False)
      then Inl KeyNot32Bytes
      else case initialize_symmetric of
        Inl err \<Rightarrow> Inl err
      | Inr y \<Rightarrow> Inr \<lparr>is_initiator = (rs \<noteq> None),
          sym = mixHash W (case rs of Some k \<Rightarrow> k | None \<Rightarrow> publicKey s) (mixHash W prologue y),
          static_pair = s, ephemeral = e, remoteStatic = rs, remoteEphemeral = None, firstMessageDone = False,
          hs_failed = False, inFlight = False, hs_session = None\<rparr>)"

definition createNoiseInitiator :: "webcrypto \<Rightarrow> byte list \<Rightarrow> key_pair \<Rightarrow> key_pair option \<Rightarrow> byte list \<Rightarrow> handshake_error + handshake" where
  "createNoiseInitiator W prologue s e rs = (case requireKey rs of
      Inl err \<Rightarrow> Inl err
    | Inr _ \<Rightarrow> start_handshake W prologue s e (Some (copyKey rs 0)))"

definition createNoiseResponder :: "webcrypto \<Rightarrow> byte list \<Rightarrow> key_pair \<Rightarrow> key_pair option \<Rightarrow> handshake_error + handshake" where
  "createNoiseResponder W prologue s e = start_handshake W prologue s e None"

definition session_result :: "handshake \<Rightarrow> handshake_error + noise_session" where
  "session_result h = (case hs_session h of None \<Rightarrow> Inl NotComplete | Some s \<Rightarrow> Inr s)"

text \<open>A step on the symmetric state, an agreement, and the ephemeral key. A key that is not there yet throws.\<close>

definition on_sym :: "(symmetric, 'a) act \<Rightarrow> (handshake, 'a) act" where
  "on_sym m h = (let (y, r) = m (sym h) in (h\<lparr>sym := y\<rparr>, r))"

definition mix_hash :: "webcrypto \<Rightarrow> byte list \<Rightarrow> (handshake, unit) act" where
  "mix_hash W d = act_put (\<lambda>h. h\<lparr>sym := mixHash W d (sym h)\<rparr>)"

definition mix_dh :: "webcrypto \<Rightarrow> nat option \<Rightarrow> byte list option \<Rightarrow> (handshake, unit) act" where
  "mix_dh W private_key public_key = (case (private_key, public_key) of
      (Some k, Some p) \<Rightarrow> act_bind (act_pure (x25519Agree W k p)) (\<lambda>shared. on_sym (mixKey W shared))
    | _ \<Rightarrow> act_pure (Inl HandshakeFailed))"

definition useEphemeral :: "key_pair option \<Rightarrow> (handshake, key_pair) act" where
  "useEphemeral fresh h = (case ephemeral h of
      Some k \<Rightarrow> (h, Inr k)
    | None \<Rightarrow> (case generateNoiseKeyPair fresh of Inl e \<Rightarrow> (h, Inl e) | Inr k \<Rightarrow> (h\<lparr>ephemeral := Some k\<rparr>, Inr k)))"

definition finish_split :: "webcrypto \<Rightarrow> (handshake, unit) act" where
  "finish_split W h = (case split_session W (is_initiator h) (sym h) of
      Inl e \<Rightarrow> (h, Inl e)
    | Inr s \<Rightarrow> (h\<lparr>hs_session := Some s\<rparr>, Inr ()))"

definition writeMessage1 :: "webcrypto \<Rightarrow> aead \<Rightarrow> key_pair option \<Rightarrow> byte list \<Rightarrow> (handshake, byte list) act" where
  "writeMessage1 W A fresh payload h =
     (let rs = remoteStatic h; s = static_pair h in
      act_bind (act_pure (requireMessageLength (MESSAGE_1_OVERHEAD + length payload) MESSAGE_1_OVERHEAD)) (\<lambda>_.
      act_bind (useEphemeral fresh) (\<lambda>e.
      act_bind (mix_hash W (publicKey e)) (\<lambda>_.
      act_bind (mix_dh W (Some (privateKey e)) rs) (\<lambda>_.
      act_bind (on_sym (encryptAndHash W A (publicKey s))) (\<lambda>encryptedStatic.
      act_bind (mix_dh W (Some (privateKey s)) rs) (\<lambda>_.
      act_bind (on_sym (encryptAndHash W A payload)) (\<lambda>encryptedPayload.
      act_bind (act_put (\<lambda>h. h\<lparr>firstMessageDone := True\<rparr>)) (\<lambda>_.
      act_pure (Inr (publicKey e @ encryptedStatic @ encryptedPayload)))))))))) h)"

definition readMessage1 :: "webcrypto \<Rightarrow> aead \<Rightarrow> byte list \<Rightarrow> (handshake, byte list) act" where
  "readMessage1 W A message h =
     (let s = static_pair h; staticEnd = MESSAGE_1_OVERHEAD - NOISE_TAG_LENGTH; re = copyKey message 0 in
      act_bind (act_pure (requireMessageLength (length message) MESSAGE_1_OVERHEAD)) (\<lambda>_.
      act_bind (act_put (\<lambda>h. h\<lparr>remoteEphemeral := Some re\<rparr>)) (\<lambda>_.
      act_bind (mix_hash W re) (\<lambda>_.
      act_bind (mix_dh W (Some (privateKey s)) (Some re)) (\<lambda>_.
      act_bind (on_sym (decryptAndHash W A (take (staticEnd - NOISE_KEY_LENGTH) (drop NOISE_KEY_LENGTH message)))) (\<lambda>rs.
      act_bind (act_pure (requireKey rs)) (\<lambda>_.
      act_bind (act_put (\<lambda>h. h\<lparr>remoteStatic := Some rs\<rparr>)) (\<lambda>_.
      act_bind (mix_dh W (Some (privateKey s)) (Some rs)) (\<lambda>_.
      act_bind (on_sym (decryptAndHash W A (drop staticEnd message))) (\<lambda>payload.
      act_bind (act_put (\<lambda>h. h\<lparr>firstMessageDone := True\<rparr>)) (\<lambda>_.
      act_pure (Inr payload))))))))))) h)"

definition writeMessage2 :: "webcrypto \<Rightarrow> aead \<Rightarrow> key_pair option \<Rightarrow> byte list \<Rightarrow> (handshake, byte list) act" where
  "writeMessage2 W A fresh payload h =
     (let re = remoteEphemeral h; rs = remoteStatic h in
      act_bind (act_pure (requireMessageLength (MESSAGE_2_OVERHEAD + length payload) MESSAGE_2_OVERHEAD)) (\<lambda>_.
      act_bind (useEphemeral fresh) (\<lambda>e.
      act_bind (mix_hash W (publicKey e)) (\<lambda>_.
      act_bind (mix_dh W (Some (privateKey e)) re) (\<lambda>_.
      act_bind (mix_dh W (Some (privateKey e)) rs) (\<lambda>_.
      act_bind (on_sym (encryptAndHash W A payload)) (\<lambda>encryptedPayload.
      act_bind (finish_split W) (\<lambda>_.
      act_pure (Inr (publicKey e @ encryptedPayload))))))))) h)"

definition readMessage2 :: "webcrypto \<Rightarrow> aead \<Rightarrow> byte list \<Rightarrow> (handshake, byte list) act" where
  "readMessage2 W A message h =
     (let e = ephemeral h; s = static_pair h; re = copyKey message 0 in
      act_bind (act_pure (requireMessageLength (length message) MESSAGE_2_OVERHEAD)) (\<lambda>_.
      act_bind (mix_hash W re) (\<lambda>_.
      act_bind (mix_dh W (map_option privateKey e) (Some re)) (\<lambda>_.
      act_bind (mix_dh W (Some (privateKey s)) (Some re)) (\<lambda>_.
      act_bind (on_sym (decryptAndHash W A (drop NOISE_KEY_LENGTH message))) (\<lambda>payload.
      act_bind (finish_split W) (\<lambda>_.
      act_pure (Inr payload))))))) h)"

text \<open>\<open>#step\<close>: one step at a time, and the first failure is terminal.\<close>

definition hs_step :: "(handshake, byte list) act \<Rightarrow> (handshake, byte list) act" where
  "hs_step run h =
     (if hs_failed h then (h, Inl AlreadyFailed)
      else if hs_session h \<noteq> None then (h, Inl AlreadyComplete)
      else if inFlight h then (h\<lparr>hs_failed := True\<rparr>, Inl StepInFlight)
      else (case run (h\<lparr>inFlight := True\<rparr>) of
          (h', Inl e) \<Rightarrow> (h'\<lparr>hs_failed := True, inFlight := False\<rparr>, Inl e)
        | (h', Inr x) \<Rightarrow> (h'\<lparr>inFlight := False\<rparr>, Inr x)))"

definition writeMessage :: "webcrypto \<Rightarrow> aead \<Rightarrow> key_pair option \<Rightarrow> byte list \<Rightarrow> (handshake, byte list) act" where
  "writeMessage W A fresh payload = hs_step (\<lambda>h.
     if is_initiator h
     then (if firstMessageDone h then (h, Inl WrongOrder) else writeMessage1 W A fresh payload h)
     else (if \<not> firstMessageDone h then (h, Inl WrongOrder) else writeMessage2 W A fresh payload h))"

definition readMessage :: "webcrypto \<Rightarrow> aead \<Rightarrow> byte list \<Rightarrow> (handshake, byte list) act" where
  "readMessage W A message = hs_step (\<lambda>h.
     if \<not> is_initiator h
     then (if firstMessageDone h then (h, Inl WrongOrder) else readMessage1 W A message h)
     else (if \<not> firstMessageDone h then (h, Inl WrongOrder) else readMessage2 W A message h))"

section \<open>Keys at rest\<close>

definition NOISE_STATIC_PKCS8_MIN_LENGTH :: nat where "NOISE_STATIC_PKCS8_MIN_LENGTH = 48"
definition NOISE_STATIC_PKCS8_MAX_LENGTH :: nat where "NOISE_STATIC_PKCS8_MAX_LENGTH = 128"

definition isNoisePublicKey :: "jval \<Rightarrow> bool" where
  "isNoisePublicKey v = (case v of VStr s \<Rightarrow> isExactBase64Url s (base64UrlLength NOISE_KEY_LENGTH) | _ \<Rightarrow> False)"

definition isNoiseStaticMaterial :: "string \<Rightarrow> string \<Rightarrow> bool" where
  "isNoiseStaticMaterial public_key pkcs8 = (case fromBase64Url pkcs8 of
      None \<Rightarrow> False
    | Some p \<Rightarrow> (case fromBase64Url public_key of
        None \<Rightarrow> False
      | Some k \<Rightarrow> length k = NOISE_KEY_LENGTH \<and> NOISE_STATIC_PKCS8_MIN_LENGTH \<le> length p \<and>
          length p \<le> NOISE_STATIC_PKCS8_MAX_LENGTH))"

text \<open>A persisted key that passes is one the handshake can start with, once WebCrypto imports it.\<close>

lemma static_material_usable:
  "isNoiseStaticMaterial public_key pkcs8 \<Longrightarrow> \<exists>k. fromBase64Url public_key = Some k \<and> requireKey k = Inr ()"
  by (auto simp: isNoiseStaticMaterial_def requireKey_def split: option.splits)

section \<open>Steps that succeed\<close>

text \<open>The state after mixing a key, and after sealing a payload under it.\<close>

definition keyed :: "webcrypto \<Rightarrow> byte list \<Rightarrow> symmetric \<Rightarrow> symmetric" where
  "keyed W ikm y = y\<lparr>chainingKey := fst (noiseHkdf W (chainingKey y) ikm),
     sym_cipher := \<lparr>ckey = Some (snd (noiseHkdf W (chainingKey y) ikm)), counter = 0\<rparr>\<rparr>"

definition fresh_key :: "symmetric \<Rightarrow> bool" where
  "fresh_key y \<longleftrightarrow> (\<exists>k. sym_cipher y = \<lparr>ckey = Some k, counter = 0\<rparr>)"

definition sealed :: "webcrypto \<Rightarrow> aead \<Rightarrow> byte list \<Rightarrow> symmetric \<Rightarrow> symmetric \<times> byte list" where
  "sealed W A p y = (let (c, r) = encryptWithAd A (sym_cipher y) (transcript y) p;
      ct = (case r of Inr x \<Rightarrow> x | Inl _ \<Rightarrow> []) in (mixHash W ct (y\<lparr>sym_cipher := c\<rparr>), ct))"

lemma act_bind_pure [simp]:
  "act_bind (act_pure (Inr x)) f s = f x s" "act_bind (act_put g) f s = f () (g s)"
  by (simp_all add: act_bind_def act_pure_def act_put_def)

lemma act_bind_ok: "m s = (s', Inr x) \<Longrightarrow> act_bind m f s = f x s'"
  by (simp add: act_bind_def)

lemma hkdf_length: "crypto_ok W \<Longrightarrow> length (fst (noiseHkdf W ck x)) = 32 \<and> length (snd (noiseHkdf W ck x)) = 32"
  by (simp add: noiseHkdf_def crypto_ok_def Let_def)

lemma mixKey_ok: "crypto_ok W \<Longrightarrow> mixKey W k y = (keyed W k y, Inr ())"
  using hkdf_length [of W "chainingKey y" k]
  by (simp add: mixKey_def keyed_def new_cipher_def NOISE_KEY_LENGTH_def split_beta Let_def)

lemma fresh_keyed [simp]: "fresh_key (keyed W k y)"
  by (simp add: fresh_key_def keyed_def)

lemma sealed_ok:
  assumes "aead_ok A" "fresh_key y" "length p + NOISE_TAG_LENGTH \<le> NOISE_MAX_MESSAGE_LENGTH"
  shows "encryptAndHash W A p y = (fst (sealed W A p y), Inr (snd (sealed W A p y)))"
    "decryptAndHash W A (snd (sealed W A p y)) y = (fst (sealed W A p y), Inr p)"
    "length (snd (sealed W A p y)) = length p + NOISE_TAG_LENGTH"
proof -
  obtain k where k: "sym_cipher y = \<lparr>ckey = Some k, counter = 0\<rparr>" using assms(2) by (auto simp: fresh_key_def)
  have "spare (sym_cipher y) (Suc 0)" by (simp add: k spare_def RESERVED_NONCE_def)
  from encrypt_succeeds [OF this assms(3)] obtain c ct where
    e: "encryptWithAd A (sym_cipher y) (transcript y) p = (c, Inr ct)" by blast
  then have s: "sealed W A p y = (mixHash W ct (y\<lparr>sym_cipher := c\<rparr>), ct)" by (simp add: sealed_def)
  show "encryptAndHash W A p y = (fst (sealed W A p y), Inr (snd (sealed W A p y)))"
    using e s by (simp add: encryptAndHash_def)
  show "decryptAndHash W A (snd (sealed W A p y)) y = (fst (sealed W A p y), Inr p)"
    using decrypt_encrypt [OF assms(1) e] s by (simp add: decryptAndHash_def)
  show "length (snd (sealed W A p y)) = length p + NOISE_TAG_LENGTH"
    using e s k assms(1) by (auto simp: encryptWithAd_def aead_ok_def split: option.splits sum.splits)
qed

lemma on_sym_ok: "m (sym h) = (y, Inr x) \<Longrightarrow> act_bind (on_sym m) f h = f x (h\<lparr>sym := y\<rparr>)"
  by (simp add: on_sym_def act_bind_def)

text \<open>A pair of keys that can agree, as WebCrypto generates them.\<close>

definition valid_pair :: "webcrypto \<Rightarrow> key_pair \<Rightarrow> bool" where
  "valid_pair W k \<longleftrightarrow> publicKey k = public_of W (privateKey k) \<and> length (publicKey k) = NOISE_KEY_LENGTH"

definition shared :: "webcrypto \<Rightarrow> key_pair \<Rightarrow> key_pair \<Rightarrow> byte list" where
  "shared W a b = (case deriveBits W (privateKey a) (publicKey b) of Some k \<Rightarrow> k | None \<Rightarrow> [])"

definition agrees :: "webcrypto \<Rightarrow> key_pair \<Rightarrow> key_pair \<Rightarrow> bool" where
  "agrees W a b \<longleftrightarrow> (\<exists>k. deriveBits W (privateKey a) (publicKey b) = Some k \<and> length k = NOISE_KEY_LENGTH \<and>
     k \<noteq> replicate NOISE_KEY_LENGTH 0)"

lemma constantTimeEqual_iff: "constantTimeEqual a b \<longleftrightarrow> a = b"
  by (auto simp: constantTimeEqual_def diff_bytes_zero)

lemma agree_ok:
  assumes "valid_pair W a" "valid_pair W b" "agrees W a b" "crypto_ok W"
  shows "x25519Agree W (privateKey a) (publicKey b) = Inr (shared W a b)"
    "x25519Agree W (privateKey b) (publicKey a) = Inr (shared W a b)"
proof -
  have "deriveBits W (privateKey b) (publicKey a) = deriveBits W (privateKey a) (publicKey b)"
    using assms by (simp add: valid_pair_def crypto_ok_def)
  with assms show "x25519Agree W (privateKey a) (publicKey b) = Inr (shared W a b)"
    "x25519Agree W (privateKey b) (publicKey a) = Inr (shared W a b)"
    by (auto simp: x25519Agree_def requireKey_def agrees_def shared_def valid_pair_def constantTimeEqual_iff)
qed

lemma mix_dh_ok:
  "crypto_ok W \<Longrightarrow> x25519Agree W k p = Inr x \<Longrightarrow> act_bind (mix_dh W (Some k) (Some p)) f h = f () (h\<lparr>sym := keyed W x (sym h)\<rparr>)"
  by (simp add: act_bind_def mix_dh_def act_pure_def on_sym_def mixKey_ok)

lemma mix_hash_ok: "act_bind (mix_hash W d) f h = f () (h\<lparr>sym := mixHash W d (sym h)\<rparr>)"
  by (simp add: mix_hash_def)

lemma fresh_mixHash [simp]: "fresh_key (mixHash W d y) = fresh_key y"
  by (simp add: fresh_key_def mixHash_def)

lemma split_ok:
  "crypto_ok W \<Longrightarrow> \<exists>k1 k2. split_session W b y =
     Inr \<lparr>nsend = \<lparr>ckey = Some (if b then k1 else k2), counter = 0\<rparr>, nreceive = \<lparr>ckey = Some (if b then k2 else k1), counter = 0\<rparr>,
          nhash = transcript y\<rparr> \<and> (k1, k2) = noiseHkdf W (chainingKey y) []"
  using hkdf_length [of W "chainingKey y" "[]"]
  by (cases "noiseHkdf W (chainingKey y) []") (simp add: split_session_def new_cipher_def NOISE_KEY_LENGTH_def)

section \<open>The two messages\<close>

text \<open>What both ends compute for message 1 from equal states: the state after it and the message.\<close>

definition flow1 :: "webcrypto \<Rightarrow> aead \<Rightarrow> key_pair \<Rightarrow> key_pair \<Rightarrow> key_pair \<Rightarrow> byte list \<Rightarrow> symmetric \<Rightarrow> symmetric \<times> byte list" where
  "flow1 W A e s r payload y =
     (let y1 = keyed W (shared W e r) (mixHash W (publicKey e) y);
          (y2, es) = sealed W A (publicKey s) y1;
          (y4, ep) = sealed W A payload (keyed W (shared W s r) y2)
      in (y4, publicKey e @ es @ ep))"

definition flow2 :: "webcrypto \<Rightarrow> aead \<Rightarrow> key_pair \<Rightarrow> key_pair \<Rightarrow> key_pair \<Rightarrow> byte list \<Rightarrow> symmetric \<Rightarrow> symmetric \<times> byte list" where
  "flow2 W A e s f payload y =
     (let (y2, ep) = sealed W A payload (keyed W (shared W s f) (keyed W (shared W e f) (mixHash W (publicKey f) y)))
      in (y2, publicKey f @ ep))"

lemmas noise_sizes = MESSAGE_1_OVERHEAD_def MESSAGE_2_OVERHEAD_def NOISE_KEY_LENGTH_def NOISE_TAG_LENGTH_def
  NOISE_MAX_MESSAGE_LENGTH_def

lemma valid_len: "valid_pair W k \<Longrightarrow> length (publicKey k) = 32"
  by (metis NOISE_KEY_LENGTH_def valid_pair_def)

lemma useEphemeral_ok:
  "ephemeral h = None \<Longrightarrow> valid_pair W e \<Longrightarrow> act_bind (useEphemeral (Some e)) f h = f e (h\<lparr>ephemeral := Some e\<rparr>)"
  using valid_len [of W e] by (simp add: act_bind_def useEphemeral_def generateNoiseKeyPair_def NOISE_KEY_LENGTH_def)

lemma open_sealed:
  "aead_ok A \<Longrightarrow> sym h = y \<Longrightarrow> fresh_key y \<Longrightarrow> length p + NOISE_TAG_LENGTH \<le> NOISE_MAX_MESSAGE_LENGTH \<Longrightarrow>
   act_bind (on_sym (decryptAndHash W A (snd (sealed W A p y)))) f h = f p (h\<lparr>sym := fst (sealed W A p y)\<rparr>)"
  by (simp add: on_sym_def act_bind_def sealed_ok(2))

lemma copyKey_first: "length k = 32 \<Longrightarrow> copyKey (k @ rest) 0 = k"
  by (simp add: copyKey_def NOISE_KEY_LENGTH_def)

lemma write1:
  assumes "crypto_ok W" "aead_ok A"
    and "valid_pair W e" "valid_pair W s" "valid_pair W r" "agrees W e r" "agrees W s r"
    and "length payload + 96 \<le> NOISE_MAX_MESSAGE_LENGTH"
    and "remoteStatic h = Some (publicKey r)" "static_pair h = s" "ephemeral h = None"
  shows "writeMessage1 W A (Some e) payload h =
    (h\<lparr>ephemeral := Some e, sym := fst (flow1 W A e s r payload (sym h)), firstMessageDone := True\<rparr>,
     Inr (snd (flow1 W A e s r payload (sym h))))"
proof -
  have len: "requireMessageLength (MESSAGE_1_OVERHEAD + length payload) MESSAGE_1_OVERHEAD = Inr ()"
    using assms(8) by (simp add: requireMessageLength_def noise_sizes)
  have s1: "length (publicKey s) + NOISE_TAG_LENGTH \<le> NOISE_MAX_MESSAGE_LENGTH" "length payload + NOISE_TAG_LENGTH \<le> NOISE_MAX_MESSAGE_LENGTH"
    using valid_len [OF assms(4)] assms(8) by (simp_all add: noise_sizes)
  show ?thesis
    using assms(9-11)
    by (simp add: writeMessage1_def len useEphemeral_ok [OF _ assms(3)] mix_hash_ok
        mix_dh_ok [OF assms(1) agree_ok(1) [OF assms(3,5,6,1)]] mix_dh_ok [OF assms(1) agree_ok(1) [OF assms(4,5,7,1)]]
        on_sym_ok [OF sealed_ok(1) [OF assms(2)]] s1 flow1_def split_beta Let_def)
      (simp add: act_pure_def)
qed

lemma flow1_parts:
  assumes "aead_ok A" "valid_pair W e" "valid_pair W s" "length payload + 96 \<le> NOISE_MAX_MESSAGE_LENGTH"
  obtains es ep where "snd (flow1 W A e s r payload y) = publicKey e @ es @ ep"
    "es = snd (sealed W A (publicKey s) (keyed W (shared W e r) (mixHash W (publicKey e) y)))" "length es = 48"
    "ep = snd (sealed W A payload (keyed W (shared W s r) (fst (sealed W A (publicKey s) (keyed W (shared W e r) (mixHash W (publicKey e) y))))))"
    "length ep = length payload + 16"
proof -
  have s1: "length (publicKey s) + NOISE_TAG_LENGTH \<le> NOISE_MAX_MESSAGE_LENGTH" "length payload + NOISE_TAG_LENGTH \<le> NOISE_MAX_MESSAGE_LENGTH"
    using valid_len [OF assms(3)] assms(4) by (simp_all add: noise_sizes)
  have "length (snd (sealed W A (publicKey s) (keyed W k z))) = 48" "length (snd (sealed W A payload (keyed W k z))) = length payload + 16"
    for k z
    using sealed_ok(3) [OF assms(1) fresh_keyed s1(1), of W W k z] sealed_ok(3) [OF assms(1) fresh_keyed s1(2), of W W k z]
      valid_len [OF assms(3)] by (simp_all add: NOISE_TAG_LENGTH_def)
  then show ?thesis
    by (intro that [OF _ refl _ refl]) (simp_all add: flow1_def split_beta Let_def)
qed

lemma read1:
  assumes "crypto_ok W" "aead_ok A"
    and "valid_pair W e" "valid_pair W s" "valid_pair W r" "agrees W e r" "agrees W s r"
    and "length payload + 96 \<le> NOISE_MAX_MESSAGE_LENGTH"
    and "static_pair h = r"
  shows "readMessage1 W A (snd (flow1 W A e s r payload (sym h))) h =
    (h\<lparr>remoteEphemeral := Some (publicKey e), remoteStatic := Some (publicKey s),
       sym := fst (flow1 W A e s r payload (sym h)), firstMessageDone := True\<rparr>, Inr payload)"
proof -
  obtain es ep where m: "snd (flow1 W A e s r payload (sym h)) = publicKey e @ es @ ep"
    and es: "es = snd (sealed W A (publicKey s) (keyed W (shared W e r) (mixHash W (publicKey e) (sym h))))" "length es = 48"
    and ep: "ep = snd (sealed W A payload (keyed W (shared W s r) (fst (sealed W A (publicKey s) (keyed W (shared W e r) (mixHash W (publicKey e) (sym h)))))))"
      "length ep = length payload + 16"
    using flow1_parts [OF assms(2,3,4,8)] by metis
  have e32: "length (publicKey e) = 32" using valid_len assms(3) .
  have len: "requireMessageLength (length (publicKey e @ es @ ep)) MESSAGE_1_OVERHEAD = Inr ()"
    using assms(8) e32 es(2) ep(2) by (simp add: requireMessageLength_def noise_sizes)
  have parts: "take (MESSAGE_1_OVERHEAD - NOISE_TAG_LENGTH - NOISE_KEY_LENGTH) (drop NOISE_KEY_LENGTH (publicKey e @ es @ ep)) = es"
    "drop (MESSAGE_1_OVERHEAD - NOISE_TAG_LENGTH) (publicKey e @ es @ ep) = ep"
    using e32 es(2) by (simp_all add: noise_sizes)
  have s1: "length (publicKey s) + NOISE_TAG_LENGTH \<le> NOISE_MAX_MESSAGE_LENGTH" "length payload + NOISE_TAG_LENGTH \<le> NOISE_MAX_MESSAGE_LENGTH"
    using valid_len [OF assms(4)] assms(8) by (simp_all add: noise_sizes)
  have k: "requireKey (publicKey s) = Inr ()" using valid_len [OF assms(4)] by (simp add: requireKey_def NOISE_KEY_LENGTH_def)
  have "readMessage1 W A (publicKey e @ es @ ep) h =
    (h\<lparr>remoteEphemeral := Some (publicKey e), remoteStatic := Some (publicKey s),
       sym := fst (flow1 W A e s r payload (sym h)), firstMessageDone := True\<rparr>, Inr payload)"
    unfolding readMessage1_def Let_def parts copyKey_first [OF e32] assms(9) len
    by (simp add: mix_hash_ok k
        mix_dh_ok [OF assms(1) agree_ok(2) [OF assms(3,5,6,1)]] mix_dh_ok [OF assms(1) agree_ok(2) [OF assms(4,5,7,1)]]
        es(1) ep(1) open_sealed [OF assms(2)] s1 flow1_def split_beta Let_def del: append_assoc)
      (simp add: act_pure_def)
  then show ?thesis by (simp add: m)
qed

text \<open>The session a state splits into, for each end.\<close>

definition split_of :: "webcrypto \<Rightarrow> bool \<Rightarrow> symmetric \<Rightarrow> noise_session" where
  "split_of W b y = (case noiseHkdf W (chainingKey y) [] of (k1, k2) \<Rightarrow>
     \<lparr>nsend = \<lparr>ckey = Some (if b then k1 else k2), counter = 0\<rparr>, nreceive = \<lparr>ckey = Some (if b then k2 else k1), counter = 0\<rparr>,
      nhash = transcript y\<rparr>)"

lemma finish_split_ok:
  "crypto_ok W \<Longrightarrow> act_bind (finish_split W) f h = f () (h\<lparr>hs_session := Some (split_of W (is_initiator h) (sym h))\<rparr>)"
  using split_ok [of W "is_initiator h" "sym h"] by (auto simp: finish_split_def act_bind_def split_of_def split: prod.splits)

lemma write2:
  assumes "crypto_ok W" "aead_ok A"
    and "valid_pair W e" "valid_pair W s" "valid_pair W f" "agrees W e f" "agrees W s f"
    and "length payload + 48 \<le> NOISE_MAX_MESSAGE_LENGTH"
    and "remoteStatic h = Some (publicKey s)" "remoteEphemeral h = Some (publicKey e)" "ephemeral h = None"
  shows "writeMessage2 W A (Some f) payload h =
    (h\<lparr>ephemeral := Some f, sym := fst (flow2 W A e s f payload (sym h)),
       hs_session := Some (split_of W (is_initiator h) (fst (flow2 W A e s f payload (sym h))))\<rparr>,
     Inr (snd (flow2 W A e s f payload (sym h))))"
proof -
  have len: "requireMessageLength (MESSAGE_2_OVERHEAD + length payload) MESSAGE_2_OVERHEAD = Inr ()"
    using assms(8) by (simp add: requireMessageLength_def noise_sizes)
  have s1: "length payload + NOISE_TAG_LENGTH \<le> NOISE_MAX_MESSAGE_LENGTH" using assms(8) by (simp add: noise_sizes)
  show ?thesis
    using assms(9-11)
    by (simp add: writeMessage2_def len useEphemeral_ok [OF _ assms(5)] mix_hash_ok
        mix_dh_ok [OF assms(1) agree_ok(2) [OF assms(3,5,6,1)]] mix_dh_ok [OF assms(1) agree_ok(2) [OF assms(4,5,7,1)]]
        on_sym_ok [OF sealed_ok(1) [OF assms(2)]] s1 flow2_def split_beta Let_def finish_split_ok [OF assms(1)])
      (simp add: act_pure_def)
qed

lemma read2:
  assumes "crypto_ok W" "aead_ok A"
    and "valid_pair W e" "valid_pair W s" "valid_pair W f" "agrees W e f" "agrees W s f"
    and "length payload + 48 \<le> NOISE_MAX_MESSAGE_LENGTH"
    and "static_pair h = s" "ephemeral h = Some e"
  shows "readMessage2 W A (snd (flow2 W A e s f payload (sym h))) h =
    (h\<lparr>sym := fst (flow2 W A e s f payload (sym h)),
       hs_session := Some (split_of W (is_initiator h) (fst (flow2 W A e s f payload (sym h))))\<rparr>, Inr payload)"
proof -
  let ?ep = "snd (sealed W A payload (keyed W (shared W s f) (keyed W (shared W e f) (mixHash W (publicKey f) (sym h)))))"
  have m: "snd (flow2 W A e s f payload (sym h)) = publicKey f @ ?ep" by (simp add: flow2_def split_beta Let_def)
  have f32: "length (publicKey f) = 32" using valid_len assms(5) .
  have s1: "length payload + NOISE_TAG_LENGTH \<le> NOISE_MAX_MESSAGE_LENGTH" using assms(8) by (simp add: noise_sizes)
  have "length ?ep = length payload + 16" using sealed_ok(3) [OF assms(2) _ s1] by (simp add: NOISE_TAG_LENGTH_def)
  then have len: "requireMessageLength (length (publicKey f @ ?ep)) MESSAGE_2_OVERHEAD = Inr ()"
    using assms(8) f32 by (simp add: requireMessageLength_def noise_sizes)
  have part: "drop NOISE_KEY_LENGTH (publicKey f @ ?ep) = ?ep" using f32 by (simp add: NOISE_KEY_LENGTH_def)
  have "readMessage2 W A (publicKey f @ ?ep) h =
    (h\<lparr>sym := fst (flow2 W A e s f payload (sym h)),
       hs_session := Some (split_of W (is_initiator h) (fst (flow2 W A e s f payload (sym h))))\<rparr>, Inr payload)"
    unfolding readMessage2_def Let_def part copyKey_first [OF f32] assms(9,10) len
    by (simp add: mix_hash_ok
        mix_dh_ok [OF assms(1) agree_ok(1) [OF assms(3,5,6,1)]] mix_dh_ok [OF assms(1) agree_ok(1) [OF assms(4,5,7,1)]]
        open_sealed [OF assms(2)] s1 flow2_def split_beta Let_def finish_split_ok [OF assms(1)])
      (simp add: act_pure_def)
  then show ?thesis by (simp add: m)
qed

section \<open>A whole run\<close>

lemma initialize_symmetric_ok: "\<exists>y. initialize_symmetric = Inr y"
  by (simp add: initialize_symmetric_def utf8Encode_def NOISE_PROTOCOL_NAME_def utf8_char_def NOISE_KEY_LENGTH_def Let_def)

text \<open>The state of either end before its first message.\<close>

definition ready :: "bool \<Rightarrow> handshake \<Rightarrow> bool" where
  "ready b h \<longleftrightarrow> is_initiator h = b \<and> \<not> firstMessageDone h \<and> \<not> hs_failed h \<and> \<not> inFlight h \<and> hs_session h = None \<and> ephemeral h = None"

lemma start_ok:
  assumes "valid_pair W s" "valid_pair W r"
  shows "\<exists>i0 r0. createNoiseInitiator W prologue s None (publicKey r) = Inr i0 \<and> createNoiseResponder W prologue r None = Inr r0 \<and>
    sym i0 = sym r0 \<and> ready True i0 \<and> ready False r0 \<and> static_pair i0 = s \<and> static_pair r0 = r \<and> remoteStatic i0 = Some (publicKey r)"
proof -
  obtain y where y: "initialize_symmetric = Inr y" using initialize_symmetric_ok by blast
  show ?thesis
    using valid_len [OF assms(1)] valid_len [OF assms(2)] copyKey_first [of "publicKey r" "[]"]
    by (simp add: createNoiseInitiator_def createNoiseResponder_def start_handshake_def requireKey_def NOISE_KEY_LENGTH_def y ready_def)
qed

definition mirrored :: "noise_session \<Rightarrow> noise_session \<Rightarrow> bool" where
  "mirrored a b \<longleftrightarrow> nsend a = nreceive b \<and> nreceive a = nsend b \<and> nhash a = nhash b \<and>
     counter (nsend a) = 0 \<and> counter (nreceive a) = 0 \<and> ckey (nsend a) \<noteq> None \<and> ckey (nreceive a) \<noteq> None"

lemma split_mirrored: "mirrored (split_of W True y) (split_of W False y)"
  by (simp add: mirrored_def split_of_def split: prod.splits)

lemma handshake_run:
  assumes "crypto_ok W" "aead_ok A"
    and "valid_pair W s" "valid_pair W e" "valid_pair W r" "valid_pair W f"
    and "agrees W e r" "agrees W s r" "agrees W e f" "agrees W s f"
    and "length p1 + 96 \<le> NOISE_MAX_MESSAGE_LENGTH" "length p2 + 48 \<le> NOISE_MAX_MESSAGE_LENGTH"
    and "sym i0 = sym r0" "ready True i0" "ready False r0" "static_pair i0 = s" "static_pair r0 = r" "remoteStatic i0 = Some (publicKey r)"
  shows "\<exists>i1 m1 r1 r2 m2 i2 a b.
    writeMessage W A (Some e) p1 i0 = (i1, Inr m1) \<and> readMessage W A m1 r0 = (r1, Inr p1) \<and>
    writeMessage W A (Some f) p2 r1 = (r2, Inr m2) \<and> readMessage W A m2 i1 = (i2, Inr p2) \<and>
    session_result i2 = Inr a \<and> session_result r2 = Inr b \<and> mirrored a b \<and> remoteStatic r2 = Some (publicKey s) \<and>
    remoteStatic i2 = Some (publicKey r)"
proof -
  let ?m1 = "snd (flow1 W A e s r p1 (sym i0))" and ?y1 = "fst (flow1 W A e s r p1 (sym i0))"
  let ?m2 = "snd (flow2 W A e s f p2 ?y1)" and ?y2 = "fst (flow2 W A e s f p2 ?y1)"
  let ?i1 = "i0\<lparr>ephemeral := Some e, sym := ?y1, firstMessageDone := True, inFlight := False\<rparr>"
  let ?r1 = "r0\<lparr>remoteEphemeral := Some (publicKey e), remoteStatic := Some (publicKey s), sym := ?y1, firstMessageDone := True, inFlight := False\<rparr>"
  let ?r2 = "?r1\<lparr>ephemeral := Some f, sym := ?y2, hs_session := Some (split_of W False ?y2), inFlight := False\<rparr>"
  let ?i2 = "?i1\<lparr>sym := ?y2, hs_session := Some (split_of W True ?y2), inFlight := False\<rparr>"
  note rd = assms(14,15) [unfolded ready_def]
  have 1: "writeMessage W A (Some e) p1 i0 = (?i1, Inr ?m1)"
    using rd assms(16,18)
    by (simp add: writeMessage_def hs_step_def write1 [OF assms(1,2,4,3,5,7,8,11)])
  have 2: "readMessage W A ?m1 r0 = (?r1, Inr p1)"
    using rd assms(17) read1 [OF assms(1,2,4,3,5,7,8,11), of "r0\<lparr>inFlight := True\<rparr>"]
    by (simp add: readMessage_def hs_step_def assms(13))
  have 3: "writeMessage W A (Some f) p2 ?r1 = (?r2, Inr ?m2)"
    using rd write2 [OF assms(1,2,4,3,6,9,10,12), of "?r1\<lparr>inFlight := True\<rparr>"] by (simp add: writeMessage_def hs_step_def)
  have 4: "readMessage W A ?m2 ?i1 = (?i2, Inr p2)"
    using rd assms(16) read2 [OF assms(1,2,4,3,6,9,10,12), of "?i1\<lparr>inFlight := True\<rparr>"] by (simp add: readMessage_def hs_step_def)
  have "session_result ?i2 = Inr (split_of W True ?y2)" "session_result ?r2 = Inr (split_of W False ?y2)"
    by (simp_all add: session_result_def)
  with 1 2 3 4 split_mirrored [of W ?y2] assms(18) show ?thesis by (intro exI conjI) (assumption | simp)+
qed

section \<open>Failure\<close>

text \<open>A step that leaves the session alone, and one that does so whenever it throws.\<close>

definition keeps :: "(handshake, 'a) act \<Rightarrow> bool" where
  "keeps m \<longleftrightarrow> (\<forall>h. hs_session (fst (m h)) = hs_session h)"

definition clean :: "noise_session option \<Rightarrow> handshake \<times> (handshake_error + 'a) \<Rightarrow> bool" where
  "clean x r \<longleftrightarrow> (\<forall>h' e. r = (h', Inl e) \<longrightarrow> hs_session h' = x)"

named_theorems clean_intro

lemma clean_bind [clean_intro]:
  "keeps m \<Longrightarrow> hs_session h = x \<Longrightarrow> (\<And>y h1. hs_session h1 = x \<Longrightarrow> clean x (f y h1)) \<Longrightarrow> clean x (act_bind m f h)"
proof -
  assume k: "keeps m" and x: "hs_session h = x" and f: "\<And>y h1. hs_session h1 = x \<Longrightarrow> clean x (f y h1)"
  obtain h1 r where m: "m h = (h1, r)" by fastforce
  have h1: "hs_session h1 = x" using k x m unfolding keeps_def by (metis fst_conv)
  show ?thesis using h1 f [OF h1] by (cases r) (simp_all add: clean_def act_bind_def m)
qed

lemma clean_pure: "hs_session h = x \<Longrightarrow> clean x (act_pure r h)"
  by (simp add: clean_def act_pure_def)

lemma clean_finish: "hs_session h = x \<Longrightarrow> clean x (act_bind (finish_split W) (\<lambda>_. act_pure (Inr y)) h)"
  by (auto simp: clean_def act_bind_def finish_split_def act_pure_def split: sum.splits)

lemma keeps_pure [clean_intro]: "keeps (act_pure r)"
  by (simp add: keeps_def act_pure_def)

lemma keeps_sym [clean_intro]: "keeps (on_sym m)"
  by (simp add: keeps_def on_sym_def split_beta)

lemma keeps_hash [clean_intro]: "keeps (mix_hash W d)"
  by (simp add: keeps_def mix_hash_def act_put_def)

lemma keeps_dh [clean_intro]: "keeps (mix_dh W k p)"
  by (auto simp: keeps_def mix_dh_def act_bind_def act_pure_def on_sym_def split_beta split: option.splits sum.splits)

lemma keeps_ephemeral [clean_intro]: "keeps (useEphemeral fresh)"
  by (auto simp: keeps_def useEphemeral_def split: option.splits sum.splits)

lemma keeps_put [clean_intro]:
  "keeps (act_put (\<lambda>h. h\<lparr>firstMessageDone := b\<rparr>))" "keeps (act_put (\<lambda>h. h\<lparr>remoteStatic := rs\<rparr>))"
  "keeps (act_put (\<lambda>h. h\<lparr>remoteEphemeral := re\<rparr>))"
  by (simp_all add: keeps_def act_put_def)

lemma messages_clean:
  "clean (hs_session h) (writeMessage1 W A fresh p h)" "clean (hs_session h) (readMessage1 W A m h)"
  "clean (hs_session h) (writeMessage2 W A fresh p h)" "clean (hs_session h) (readMessage2 W A m h)"
  unfolding writeMessage1_def readMessage1_def writeMessage2_def readMessage2_def Let_def
  by (rule clean_finish clean_pure clean_intro refl | assumption)+

lemma step_clean:
  assumes "hs_step run h = (h', Inl e)" "\<And>h. clean (hs_session h) (run h)"
  shows "hs_session h' = hs_session h \<and> (hs_session h = None \<longrightarrow> hs_failed h')"
  using assms(1) assms(2) [of "h\<lparr>inFlight := True\<rparr>"]
  by (auto simp: hs_step_def clean_def split: if_splits prod.splits sum.splits)

lemma failed_step: "hs_failed h \<Longrightarrow> hs_step run h = (h, Inl AlreadyFailed)"
  by (simp add: hs_step_def)

lemma write_clean: "clean (hs_session h) ((\<lambda>h. if is_initiator h
     then (if firstMessageDone h then (h, Inl WrongOrder) else writeMessage1 W A fresh p h)
     else (if \<not> firstMessageDone h then (h, Inl WrongOrder) else writeMessage2 W A fresh p h)) h)"
  using messages_clean by (auto simp: clean_def)

lemma read_clean: "clean (hs_session h) ((\<lambda>h. if \<not> is_initiator h
     then (if firstMessageDone h then (h, Inl WrongOrder) else readMessage1 W A m h)
     else (if \<not> firstMessageDone h then (h, Inl WrongOrder) else readMessage2 W A m h)) h)"
  using messages_clean by (auto simp: clean_def)

section \<open>Properties\<close>

text \<open>C8: Two honest ends complete the handshake: with the same prologue, keys that agree and payloads that
  fit, both messages are accepted, each end reads the other's payload, the responder learns the
  initiator's static key, and the two sessions mirror each other: what one sends under, the other
  receives under, from counter zero, with the same transcript hash.\<close>

theorem handshake_agrees:
  assumes "crypto_ok W" "aead_ok A"
    and "valid_pair W s" "valid_pair W e" "valid_pair W r" "valid_pair W f"
    and "agrees W e r" "agrees W s r" "agrees W e f" "agrees W s f"
    and "length p1 + 96 \<le> NOISE_MAX_MESSAGE_LENGTH" "length p2 + 48 \<le> NOISE_MAX_MESSAGE_LENGTH"
  shows "\<exists>i0 r0 i1 m1 r1 r2 m2 i2 a b.
    createNoiseInitiator W prologue s None (publicKey r) = Inr i0 \<and> createNoiseResponder W prologue r None = Inr r0 \<and>
    writeMessage W A (Some e) p1 i0 = (i1, Inr m1) \<and> readMessage W A m1 r0 = (r1, Inr p1) \<and>
    writeMessage W A (Some f) p2 r1 = (r2, Inr m2) \<and> readMessage W A m2 i1 = (i2, Inr p2) \<and>
    session_result i2 = Inr a \<and> session_result r2 = Inr b \<and> remoteStatic r2 = Some (publicKey s) \<and>
    nsend a = nreceive b \<and> nreceive a = nsend b \<and> nhash a = nhash b \<and> counter (nsend a) = 0 \<and> counter (nreceive a) = 0"
proof -
  obtain i0 r0 where st: "createNoiseInitiator W prologue s None (publicKey r) = Inr i0" "createNoiseResponder W prologue r None = Inr r0"
    and c: "sym i0 = sym r0" "ready True i0" "ready False r0" "static_pair i0 = s" "static_pair r0 = r" "remoteStatic i0 = Some (publicKey r)"
    using start_ok [OF assms(3,5)] by blast
  from handshake_run [OF assms c] obtain i1 m1 r1 r2 m2 i2 a b where
    "writeMessage W A (Some e) p1 i0 = (i1, Inr m1)" "readMessage W A m1 r0 = (r1, Inr p1)"
    "writeMessage W A (Some f) p2 r1 = (r2, Inr m2)" "readMessage W A m2 i1 = (i2, Inr p2)"
    "session_result i2 = Inr a" "session_result r2 = Inr b" "mirrored a b" "remoteStatic r2 = Some (publicKey s)" by blast
  with st show ?thesis unfolding mirrored_def by blast
qed

text \<open>Parameters for examples: a handle's public key repeats it, and two handles agree on their product.\<close>

definition toy_crypto :: webcrypto where
  "toy_crypto = \<lparr>digest = (\<lambda>x. take 32 (rev x @ replicate 32 0)), hmac = (\<lambda>k x. take 32 (x @ k @ replicate 32 0)),
     deriveBits = (\<lambda>a p. Some (replicate 32 (of_nat a * hd p))), public_of = (\<lambda>a. replicate 32 (of_nat a))\<rparr>"

definition toy_pair :: "nat \<Rightarrow> key_pair" where
  "toy_pair a = \<lparr>privateKey = a, publicKey = replicate 32 (of_nat a)\<rparr>"

lemma toy_crypto_ok: "crypto_ok toy_crypto"
  by (auto simp: crypto_ok_def toy_crypto_def mult.commute)

lemma toy_valid: "valid_pair toy_crypto (toy_pair a)"
  by (simp add: valid_pair_def toy_pair_def toy_crypto_def NOISE_KEY_LENGTH_def)

lemma toy_agrees: "(of_nat a * of_nat b :: byte) \<noteq> 0 \<Longrightarrow> agrees toy_crypto (toy_pair a) (toy_pair b)"
  by (simp add: agrees_def toy_crypto_def toy_pair_def NOISE_KEY_LENGTH_def)

theorem handshake_agrees_witness:
  "\<exists>i0 i1 m1 r0 r1. createNoiseInitiator toy_crypto [1] (toy_pair 3) None (publicKey (toy_pair 5)) = Inr i0 \<and>
     createNoiseResponder toy_crypto [1] (toy_pair 5) None = Inr r0 \<and>
     writeMessage toy_crypto plain_aead (Some (toy_pair 7)) [42] i0 = (i1, Inr m1) \<and>
     readMessage toy_crypto plain_aead m1 r0 = (r1, Inr [42])"
proof -
  have l: "length [42 :: byte] + 96 \<le> NOISE_MAX_MESSAGE_LENGTH" "length ([] :: byte list) + 48 \<le> NOISE_MAX_MESSAGE_LENGTH"
    by (simp_all add: NOISE_MAX_MESSAGE_LENGTH_def)
  have a: "agrees toy_crypto (toy_pair 7) (toy_pair 5)" "agrees toy_crypto (toy_pair 3) (toy_pair 5)"
    "agrees toy_crypto (toy_pair 7) (toy_pair 11)" "agrees toy_crypto (toy_pair 3) (toy_pair 11)"
    by (simp_all add: toy_agrees)
  from handshake_agrees [OF toy_crypto_ok plain_aead_ok toy_valid toy_valid toy_valid toy_valid a l, of "[1]"]
  show ?thesis by blast
qed

text \<open>A handshake step that throws is final: no session comes out of it, the handshake is failed, and
  every later call is refused and changes nothing. Calls out of order are such failures: an initiator
  that reads first, a responder that writes first, and a call while another is in flight.\<close>

theorem handshake_failure_final:
  assumes "hs_session h = None"
    and "writeMessage W A fresh p h = (h', Inl err) \<or> readMessage W A m h = (h', Inl err)"
  shows "hs_failed h' \<and>
    session_result h' = Inl NotComplete \<and>
    writeMessage W A fresh' p' h' = (h', Inl AlreadyFailed) \<and>
    readMessage W A m' h' = (h', Inl AlreadyFailed)"
proof -
  have "hs_session h' = None \<and> hs_failed h'"
    using assms(2)
  proof
    assume "writeMessage W A fresh p h = (h', Inl err)"
    then show ?thesis using step_clean [OF _ write_clean] assms(1) unfolding writeMessage_def by auto
  next
    assume "readMessage W A m h = (h', Inl err)"
    then show ?thesis using step_clean [OF _ read_clean] assms(1) unfolding readMessage_def by auto
  qed
  then have c1: "hs_failed h'" "session_result h' = Inl NotComplete"
    "writeMessage W A fresh' p' h' = (h', Inl AlreadyFailed)" "readMessage W A m' h' = (h', Inl AlreadyFailed)"
    by (simp_all add: session_result_def writeMessage_def readMessage_def failed_step)
  show ?thesis using c1 by blast
qed

theorem handshake_failure_final_witness:
  "\<exists>i h. createNoiseInitiator toy_crypto [1] (toy_pair 3) None (publicKey (toy_pair 5)) = Inr i \<and>
     readMessage toy_crypto plain_aead [] i = (h, Inl WrongOrder) \<and>
     writeMessage toy_crypto plain_aead (Some (toy_pair 7)) [42] h = (h, Inl AlreadyFailed)"
proof -
  obtain i where i: "createNoiseInitiator toy_crypto [1] (toy_pair 3) None (publicKey (toy_pair 5)) = Inr i" "ready True i"
    using start_ok [OF toy_valid toy_valid] by blast
  then obtain h where h: "readMessage toy_crypto plain_aead [] i = (h, Inl WrongOrder)"
    by (simp add: readMessage_def hs_step_def ready_def)
  have "hs_session i = None" using i(2) by (simp add: ready_def)
  from handshake_failure_final [OF this disjI2, OF h] i h show ?thesis by blast
qed

end
