(* ===== verification/Direct_Path.thy ===== *)
theory Direct_Path
  imports Noise_Session
begin

text \<open>
  The direct path (\<open>remote-lib-common/src/security/direct-path.ts\<close>): the bounded queue of channel
  frames, the guards on signalling messages, and the cutover that moves a session off the relay.
  The lemmas show that the queue keeps both bounds and the order of its frames, that a signal
  always fits a control message, that an address that passes the check holds only address
  characters, and that the cutover delivers the peer's messages in the order they were sent,
  however the two paths interleave.
\<close>

section \<open>Bounds\<close>

definition MAX_DIRECT_SDP_LENGTH :: nat where "MAX_DIRECT_SDP_LENGTH = 2000"
definition MAX_DIRECT_PENDING_BYTES :: nat where "MAX_DIRECT_PENDING_BYTES = 4 * 1024 * 1024"
definition MAX_DIRECT_PENDING_FRAMES :: nat where "MAX_DIRECT_PENDING_FRAMES = 8192"
definition MAX_PATH_ADDRESS_LENGTH :: nat where "MAX_PATH_ADDRESS_LENGTH = 45"
definition DIRECT_SETUP_TIMEOUT_MS :: nat where "DIRECT_SETUP_TIMEOUT_MS = 15000"
definition DIRECT_ANSWER_TIMEOUT_MS :: nat where "DIRECT_ANSWER_TIMEOUT_MS = 10000"
definition DIRECT_GATHER_TIMEOUT_MS :: nat where "DIRECT_GATHER_TIMEOUT_MS = 3000"
definition DIRECT_SRFLX_GRACE_MS :: nat where "DIRECT_SRFLX_GRACE_MS = 500"
definition DIRECT_HANDOFF_TIMEOUT_MS :: nat where "DIRECT_HANDOFF_TIMEOUT_MS = DIRECT_SETUP_TIMEOUT_MS"
definition DIRECT_ONLY_DEADLINE_MS :: nat where
  "DIRECT_ONLY_DEADLINE_MS = DIRECT_SETUP_TIMEOUT_MS + DIRECT_HANDOFF_TIMEOUT_MS"

section \<open>The frame queue\<close>

record frame_queue =
  qframes :: "byte list list"
  maxFrames :: nat
  maxBytes :: nat
  qbytes :: nat

definition new_queue :: "nat \<Rightarrow> nat \<Rightarrow> frame_queue" where
  "new_queue f b = \<lparr>qframes = [], maxFrames = f, maxBytes = b, qbytes = 0\<rparr>"

definition queue_push :: "frame_queue \<Rightarrow> byte list \<Rightarrow> frame_queue \<times> bool" where
  "queue_push q f =
     (if length (qframes q) \<ge> maxFrames q \<or> qbytes q + length f > maxBytes q then (q, False)
      else (q\<lparr>qframes := qframes q @ [f], qbytes := qbytes q + length f\<rparr>, True))"

definition queue_shift :: "frame_queue \<Rightarrow> frame_queue \<times> byte list option" where
  "queue_shift q = (case qframes q of
      [] \<Rightarrow> (q, None)
    | f # fs \<Rightarrow> (q\<lparr>qframes := fs, qbytes := qbytes q - length f\<rparr>, Some f))"

definition queue_clear :: "frame_queue \<Rightarrow> frame_queue" where
  "queue_clear q = q\<lparr>qframes := [], qbytes := 0\<rparr>"

definition queue_take :: "frame_queue \<Rightarrow> frame_queue \<times> byte list list" where
  "queue_take q = (queue_clear q, qframes q)"

section \<open>Signals\<close>

definition sdp_char :: "char \<Rightarrow> bool" where
  "sdp_char c = (let code = of_char c :: nat in code = 0x0d \<or> code = 0x0a \<or> \<not> (code < 0x20 \<or> code > 0x7e))"

definition isDirectSdp :: "jval \<Rightarrow> bool" where
  "isDirectSdp v = (case v of
      VStr s \<Rightarrow> isBoundedString s MAX_DIRECT_SDP_LENGTH \<and>
        list_all sdp_char s
    | _ \<Rightarrow> False)"

definition isDirectSignalV1 :: "jval \<Rightarrow> bool" where
  "isDirectSignalV1 v = (case v of
      VObj kvs \<Rightarrow>
        if js_prop v ''v'' \<noteq> VNum (JFin 1) then False
        else if js_prop v ''t'' = VStr ''direct-offer'' \<or> js_prop v ''t'' = VStr ''direct-answer''
          then length kvs = 3 \<and> isDirectSdp (js_prop v ''sdp'')
        else if js_prop v ''t'' = VStr ''direct-decline'' \<or> js_prop v ''t'' = VStr ''direct-switch''
          then length kvs = 2
        else False
    | _ \<Rightarrow> False)"

text \<open>The JSON text of an offer or an answer, as \<open>JSON.stringify\<close> writes it.\<close>

definition signal_text :: "string \<Rightarrow> string \<Rightarrow> string" where
  "signal_text t sdp =
     ''{'' @ json_quote ''v'' @ '':1,'' @ json_quote ''t'' @ '':'' @ json_quote t @ '','' @ json_quote ''sdp'' @ '':'' @
     json_quote sdp @ ''}''"

section \<open>Addresses\<close>

text \<open>\<open>split\<close> at a character, and at the two-character separator of an IPv6 literal.\<close>

fun split_char :: "char \<Rightarrow> string \<Rightarrow> string list" where
  "split_char c [] = [[]]"
| "split_char c (d # s) = (if d = c then [] # split_char c s
     else (case split_char c s of [] \<Rightarrow> [[d]] | p # ps \<Rightarrow> (d # p) # ps))"

fun split_double :: "char \<Rightarrow> string \<Rightarrow> string list" where
  "split_double c [] = [[]]"
| "split_double c [d] = [[d]]"
| "split_double c (d # e # s) = (if d = c \<and> e = c then [] # split_double c s
     else (case split_double c (e # s) of [] \<Rightarrow> [[d]] | p # ps \<Rightarrow> (d # p) # ps))"

definition is_digit :: "char \<Rightarrow> bool" where
  "is_digit c = (c \<in> set ''0123456789'')"

definition is_hex :: "char \<Rightarrow> bool" where
  "is_hex c = (c \<in> set ''0123456789abcdefABCDEF'')"

definition digit_value :: "char \<Rightarrow> nat" where
  "digit_value c = of_char c - 48"

text \<open>The octet expression: a decimal of at most 255 without leading zeros.\<close>

definition ipv4_octet :: "string \<Rightarrow> bool" where
  "ipv4_octet s = (case s of
      [a] \<Rightarrow> is_digit a
    | [a, b] \<Rightarrow> is_digit a \<and> a \<noteq> CHR ''0'' \<and> is_digit b
    | [a, b, c] \<Rightarrow> is_digit a \<and> is_digit b \<and> is_digit c \<and>
        (a = CHR ''1'' \<or> (a = CHR ''2'' \<and> (digit_value b < 5 \<or> (digit_value b = 5 \<and> digit_value c \<le> 5))))
    | _ \<Rightarrow> False)"

definition ipv4_literal :: "string \<Rightarrow> bool" where
  "ipv4_literal s = (let parts = split_char (CHR ''.'') s in length parts = 4 \<and> list_all ipv4_octet parts)"

definition ipv6_group :: "string \<Rightarrow> bool" where
  "ipv6_group s = (1 \<le> length s \<and> length s \<le> 4 \<and> list_all is_hex s)"

text \<open>The loop over the groups: the number of 16-bit groups, or a group that fits neither form.\<close>

fun count_groups :: "bool \<Rightarrow> string list \<Rightarrow> nat option" where
  "count_groups tailAllowed [] = Some 0"
| "count_groups tailAllowed (g # gs) =
     (if ipv6_group g then map_option Suc (count_groups tailAllowed gs)
      else if tailAllowed \<and> gs = [] \<and> ipv4_literal g then map_option (\<lambda>n. n + 2) (count_groups tailAllowed gs)
      else None)"

definition ip_literal :: "string \<Rightarrow> bool" where
  "ip_literal s =
     (if \<not> isBoundedString s MAX_PATH_ADDRESS_LENGTH \<or> s = [] then False
      else if ipv4_literal s then True
      else (let halves = split_double (CHR '':'') s in
        if length halves > 2 then False
        else (let front = (if halves ! 0 = [] then [] else split_char (CHR '':'') (halves ! 0));
                  back_part = (if length halves = 2 \<and> halves ! 1 \<noteq> [] then split_char (CHR '':'') (halves ! 1) else [])
              in case count_groups (length halves = 1 \<or> back_part \<noteq> []) (front @ back_part) of
                   None \<Rightarrow> False
                 | Some n \<Rightarrow> if length halves = 2 then n \<le> 7 else n = 8)))"

definition isIpLiteral :: "jval \<Rightarrow> bool" where
  "isIpLiteral v = (case v of VStr s \<Rightarrow> ip_literal s | _ \<Rightarrow> False)"

section \<open>The cutover\<close>

datatype attempt = Idle | Attempting | Abandoned

datatype direct_path = RelayPath | DirectPath

record cutover =
  attempt_state :: attempt
  outbound :: direct_path
  inbound :: direct_path
  held :: frame_queue

definition new_cutover :: cutover where
  "new_cutover = \<lparr>attempt_state = Idle, outbound = RelayPath, inbound = RelayPath,
     held = new_queue MAX_DIRECT_PENDING_FRAMES MAX_DIRECT_PENDING_BYTES\<rparr>"

definition session_path :: "cutover \<Rightarrow> direct_path" where
  "session_path c = (if outbound c = DirectPath \<and> inbound c = DirectPath then DirectPath else RelayPath)"

definition switched :: "cutover \<Rightarrow> bool" where
  "switched c = (outbound c = DirectPath \<or> inbound c = DirectPath)"

definition begin_attempt :: "cutover \<Rightarrow> cutover \<times> bool" where
  "begin_attempt c = (if attempt_state c \<noteq> Idle then (c, False) else (c\<lparr>attempt_state := Attempting\<rparr>, True))"

definition clear_held :: "cutover \<Rightarrow> cutover" where
  "clear_held c = c\<lparr>held := queue_clear (held c)\<rparr>"

text \<open>\<open>None\<close> when it throws.\<close>

definition abandon :: "cutover \<Rightarrow> cutover option" where
  "abandon c = (if switched c then None else Some (clear_held (c\<lparr>attempt_state := Abandoned\<rparr>)))"

definition switchOutbound :: "cutover \<Rightarrow> cutover" where
  "switchOutbound c = c\<lparr>outbound := DirectPath\<rparr>"

datatype relay_outcome = ProcessRelay | Violation

definition onRelayTransport :: "cutover \<Rightarrow> relay_outcome" where
  "onRelayTransport c = (if inbound c = DirectPath then Violation else ProcessRelay)"

datatype switch_outcome = Drain "byte list list" | Fatal

definition onSwitchDecrypted :: "cutover \<Rightarrow> cutover \<times> switch_outcome" where
  "onSwitchDecrypted c =
     (if attempt_state c \<noteq> Attempting then (c, Fatal)
      else (let (q, fs) = queue_take (held c) in (c\<lparr>inbound := DirectPath, held := q\<rparr>, Drain fs)))"

datatype channel_outcome = ProcessChannel | Held | Overflow

definition onChannelFrame :: "cutover \<Rightarrow> byte list \<Rightarrow> cutover \<times> channel_outcome" where
  "onChannelFrame c f =
     (if inbound c = DirectPath then (c, ProcessChannel)
      else (let (q, ok) = queue_push (held c) f in (c\<lparr>held := q\<rparr>, if ok then Held else Overflow)))"

definition pendingFrames :: "cutover \<Rightarrow> nat" where
  "pendingFrames c = length (qframes (held c))"

definition pendingBytes :: "cutover \<Rightarrow> nat" where
  "pendingBytes c = qbytes (held c)"

section \<open>The queue interface\<close>

text \<open>
  What both users of the queue rely on: an accepted frame goes last, what is taken out is what
  was accepted in order, and the bounds hold in between.
\<close>

locale frame_fifo =
  fixes ok :: "'q \<Rightarrow> bool"
    and items :: "'q \<Rightarrow> byte list list"
    and offer :: "'q \<Rightarrow> byte list \<Rightarrow> 'q \<times> bool"
    and shift :: "'q \<Rightarrow> 'q \<times> byte list option"
    and drain :: "'q \<Rightarrow> 'q \<times> byte list list"
  assumes offer_ok: "ok q \<Longrightarrow> ok (fst (offer q f))"
    and shift_ok: "ok q \<Longrightarrow> ok (fst (shift q))"
    and drain_ok: "ok q \<Longrightarrow> ok (fst (drain q))"
    and offer_accepted: "snd (offer q f) \<Longrightarrow> items (fst (offer q f)) = items q @ [f]"
    and offer_refused: "\<not> snd (offer q f) \<Longrightarrow> fst (offer q f) = q"
    and shift_none: "snd (shift q) = None \<longleftrightarrow> items q = []"
    and shift_some: "snd (shift q) = Some f \<Longrightarrow> items q = f # items (fst (shift q))"
    and drain_items: "snd (drain q) = items q" "items (fst (drain q)) = []"
begin

text \<open>A sequence of offers that are all accepted.\<close>

fun offer_all :: "'q \<Rightarrow> byte list list \<Rightarrow> 'q \<times> bool" where
  "offer_all q [] = (q, True)"
| "offer_all q (f # fs) = (case offer q f of (q', True) \<Rightarrow> offer_all q' fs | (q', False) \<Rightarrow> (q', False))"

lemma offer_all_drain: "offer_all q fs = (q', True) \<Longrightarrow> snd (drain q') = items q @ fs"
proof (induction fs arbitrary: q)
  case (Cons f fs)
  obtain q1 b where o1: "offer q f = (q1, b)" by fastforce
  with Cons show ?case using offer_accepted [of q f] by (cases b) auto
qed (simp add: drain_items)

lemma offer_all_ok: "ok q \<Longrightarrow> ok (fst (offer_all q fs))"
proof (induction fs arbitrary: q)
  case (Cons f fs)
  obtain q1 b where o1: "offer q f = (q1, b)" by fastforce
  with Cons show ?case using offer_ok [of q f] by (cases b) auto
qed simp

end

definition queue_ok :: "frame_queue \<Rightarrow> bool" where
  "queue_ok q \<longleftrightarrow> length (qframes q) \<le> maxFrames q \<and> qbytes q \<le> maxBytes q \<and>
     qbytes q = sum_list (map length (qframes q))"

interpretation direct_queue: frame_fifo queue_ok qframes queue_push queue_shift queue_take
proof unfold_locales
  fix q f
  show "queue_ok q \<Longrightarrow> queue_ok (fst (queue_push q f))" by (simp add: queue_ok_def queue_push_def)
  show "queue_ok q \<Longrightarrow> queue_ok (fst (queue_shift q))" by (cases "qframes q") (simp_all add: queue_ok_def queue_shift_def)
  show "queue_ok q \<Longrightarrow> queue_ok (fst (queue_take q))" by (simp add: queue_ok_def queue_take_def queue_clear_def)
  show "snd (queue_push q f) \<Longrightarrow> qframes (fst (queue_push q f)) = qframes q @ [f]"
    by (simp add: queue_push_def split: if_splits)
  show "\<not> snd (queue_push q f) \<Longrightarrow> fst (queue_push q f) = q" by (auto simp: queue_push_def split: if_splits)
  show "snd (queue_shift q) = None \<longleftrightarrow> qframes q = []" by (cases "qframes q") (simp_all add: queue_shift_def)
  show "snd (queue_shift q) = Some f \<Longrightarrow> qframes q = f # qframes (fst (queue_shift q))"
    by (cases "qframes q") (simp_all add: queue_shift_def)
  show "snd (queue_take q) = qframes q" "qframes (fst (queue_take q)) = []"
    by (simp_all add: queue_take_def queue_clear_def)
qed

lemma new_queue_ok [simp]: "queue_ok (new_queue f b)"
  by (simp add: queue_ok_def new_queue_def)

lemma queue_clear_ok [simp]: "queue_ok (queue_clear q)"
  by (simp add: queue_ok_def queue_clear_def)

lemma queue_limits [simp]:
  "maxFrames (fst (queue_push q f)) = maxFrames q" "maxBytes (fst (queue_push q f)) = maxBytes q"
  "maxFrames (fst (queue_shift q)) = maxFrames q" "maxBytes (fst (queue_shift q)) = maxBytes q"
  "maxFrames (queue_clear q) = maxFrames q" "maxBytes (queue_clear q) = maxBytes q"
  by (auto simp: queue_push_def queue_shift_def queue_clear_def split: list.splits)

lemma queue_clear_frames [simp]: "qframes (queue_clear q) = []" "qbytes (queue_clear q) = 0"
  by (simp_all add: queue_clear_def)

lemma queue_push_accepts:
  "snd (queue_push q f) \<longleftrightarrow> length (qframes q) < maxFrames q \<and> qbytes q + length f \<le> maxBytes q"
  by (auto simp: queue_push_def)

section \<open>Signals fit a control message\<close>

lemma char_13: "of_char c = (13 :: nat) \<longleftrightarrow> c = CHR 0x0D"
  using of_char_eq_iff [of c "CHR 0x0D", where 'a = nat] by simp

lemma char_10: "of_char c = (10 :: nat) \<longleftrightarrow> c = CHR 0x0A"
  using of_char_eq_iff [of c "CHR 0x0A", where 'a = nat] by simp

lemma json_escape_sdp:
  assumes "sdp_char c"
  shows "length (json_escape c) \<le> 2 \<and> (\<forall>d \<in> set (json_escape c). of_char d < (128 :: nat))"
proof -
  consider "c = CHR 0x0D" | "c = CHR 0x0A" | "\<not> of_char c < (32 :: nat)" "of_char c < (128 :: nat)"
    using assms by (auto simp: sdp_char_def Let_def char_13 char_10)
  then show ?thesis
    by cases (auto simp: json_escape_def bslash_def dquote_def)
qed

lemma utf8_ascii_length: "\<forall>c \<in> set s. of_char c < (128 :: nat) \<Longrightarrow> length (utf8Encode s) = length s"
  by (induction s) (auto simp: utf8Encode_def utf8_char_def Let_def)

lemma json_quote_sdp:
  assumes "\<forall>c \<in> set s. sdp_char c"
  shows "length (json_quote s) \<le> 2 * length s + 2 \<and> (\<forall>d \<in> set (json_quote s). of_char d < (128 :: nat))"
proof -
  have "length (concat (map json_escape s)) \<le> 2 * length s"
    using assms json_escape_sdp by (induction s) fastforce+
  moreover have "\<forall>d \<in> set (concat (map json_escape s)). of_char d < (128 :: nat)"
    using assms json_escape_sdp by fastforce
  ultimately show ?thesis by (auto simp: json_quote_def dquote_def)
qed

lemma signal_text_length:
  assumes "isDirectSdp (VStr sdp)" "t \<in> {''direct-offer'', ''direct-answer''}"
  shows "length (utf8Encode (signal_text t sdp)) \<le> CONTROL_PAYLOAD_SIZE"
proof -
  have len: "length sdp \<le> 2000" and chars: "\<forall>c \<in> set sdp. sdp_char c"
    using assms(1) by (auto simp: isDirectSdp_def isBoundedString_def MAX_DIRECT_SDP_LENGTH_def list_all_iff)
  note q = json_quote_sdp [OF chars]
  have t: "t = ''direct-offer'' \<or> t = ''direct-answer''" using assms(2) by simp
  have "\<forall>d \<in> set (json_quote ''v'') \<union> set (json_quote ''t'') \<union> set (json_quote ''sdp'') \<union> set (json_quote t). of_char d < (128 :: nat)"
    using t by (elim disjE) (simp_all add: json_quote_def json_escape_def dquote_def bslash_def)
  then have "\<forall>d \<in> set (signal_text t sdp). of_char d < (128 :: nat)"
    using q unfolding signal_text_def by (simp add: ball_Un)
  moreover have "length (signal_text t sdp) \<le> length (json_quote sdp) + 90"
    using t by (elim disjE) (simp_all add: signal_text_def json_quote_def json_escape_def dquote_def bslash_def)
  ultimately show ?thesis using q len by (simp add: utf8_ascii_length CONTROL_PAYLOAD_SIZE_def)
qed

section \<open>What an address is made of\<close>

lemma split_char_ne [simp]: "split_char c s \<noteq> []"
  by (induction s) (auto split: list.splits)

lemma split_double_ne [simp]: "split_double c s \<noteq> []"
  by (induction c s rule: split_double.induct) (auto split: list.splits)

lemma split_char_set: "x \<in> set s \<Longrightarrow> x = c \<or> (\<exists>p \<in> set (split_char c s). x \<in> set p)"
  by (induction s) (auto split: list.splits)

lemma split_double_set: "x \<in> set s \<Longrightarrow> x = c \<or> (\<exists>p \<in> set (split_double c s). x \<in> set p)"
proof (induction c s rule: split_double.induct)
  case (3 c d e s)
  obtain p ps where ps: "split_double c (e # s) = p # ps" by (cases "split_double c (e # s)") auto
  show ?case
  proof (cases "d = c \<and> e = c")
    case True
    then show ?thesis using 3 by auto
  next
    case False
    then show ?thesis using 3 ps by auto
  qed
qed auto

definition address_char :: "char \<Rightarrow> bool" where
  "address_char c \<longleftrightarrow> is_hex c \<or> c = CHR ''.'' \<or> c = CHR '':''"

lemma digit_hex: "is_digit c \<Longrightarrow> is_hex c"
  by (auto simp: is_digit_def is_hex_def)

lemma octet_chars: "ipv4_octet s \<Longrightarrow> c \<in> set s \<Longrightarrow> is_hex c"
  by (auto simp: ipv4_octet_def digit_hex split: list.splits)

lemma ipv4_chars: "ipv4_literal s \<Longrightarrow> c \<in> set s \<Longrightarrow> address_char c"
  using split_char_set [of c s "CHR ''.''"] octet_chars
  by (auto simp: ipv4_literal_def list_all_iff address_char_def Let_def)

lemma count_groups_chars:
  "count_groups b gs = Some n \<Longrightarrow> g \<in> set gs \<Longrightarrow> c \<in> set g \<Longrightarrow> address_char c"
proof (induction b gs arbitrary: n rule: count_groups.induct)
  case (2 b g' gs)
  then show ?case
    by (auto simp: ipv6_group_def list_all_iff address_char_def split: if_splits dest: ipv4_chars [unfolded address_char_def])
qed simp

lemma split_colons_chars:
  assumes "\<forall>g \<in> set (split_char (CHR '':'') s). \<forall>c \<in> set g. address_char c" "c \<in> set s"
  shows "address_char c"
  using split_char_set [OF assms(2), of "CHR '':''"] assms(1) by (auto simp: address_char_def)

lemma ip_literal_chars:
  assumes "ip_literal s" "c \<in> set s"
  shows "address_char c"
proof (cases "ipv4_literal s")
  case True
  then show ?thesis using assms(2) by (rule ipv4_chars)
next
  case False
  let ?h = "split_double (CHR '':'') s"
  obtain n front tail where n: "count_groups (length ?h = 1 \<or> tail \<noteq> []) (front @ tail) = Some n"
    and front: "front = (if ?h ! 0 = [] then [] else split_char (CHR '':'') (?h ! 0))"
    and tail: "tail = (if length ?h = 2 \<and> ?h ! 1 \<noteq> [] then split_char (CHR '':'') (?h ! 1) else [])"
    and two: "length ?h \<le> 2"
    using assms(1) False by (auto simp: ip_literal_def Let_def not_less split: if_splits option.splits)
  have groups: "\<forall>g \<in> set (front @ tail). \<forall>c \<in> set g. address_char c"
    using count_groups_chars [OF n] by blast
  have "address_char c" if "h \<in> set ?h" "c \<in> set h" for h
  proof -
    have "h = ?h ! 0 \<or> length ?h = 2 \<and> h = ?h ! 1"
      using that(1) two by (cases ?h; cases "tl ?h") auto
    then show ?thesis
    proof (elim disjE conjE)
      assume "h = ?h ! 0"
      then show ?thesis using that(2) groups front by (intro split_colons_chars [of h]) (auto split: if_splits)
    next
      assume "length ?h = 2" "h = ?h ! 1"
      then show ?thesis using that(2) groups tail by (intro split_colons_chars [of h]) (auto split: if_splits)
    qed
  qed
  then show ?thesis using split_double_set [OF assms(2), of "CHR '':''"] by (auto simp: address_char_def)
qed

section \<open>The queue under its operations\<close>

inductive queue_step :: "frame_queue \<Rightarrow> frame_queue \<Rightarrow> bool" where
  q_push: "queue_step q (fst (queue_push q f))"
| q_shift: "queue_step q (fst (queue_shift q))"
| q_take: "queue_step q (fst (queue_take q))"
| q_clear: "queue_step q (queue_clear q)"

definition queue_bounded :: "nat \<Rightarrow> nat \<Rightarrow> frame_queue \<Rightarrow> bool" where
  "queue_bounded f b q \<longleftrightarrow> queue_ok q \<and> maxFrames q = f \<and> maxBytes q = b"

interpretation direct_queue_run: step_system "\<lambda>q. q = new_queue f b" queue_step "queue_bounded f b" for f b
proof unfold_locales
  fix q q'
  assume "queue_step q q'" "queue_bounded f b q"
  then show "queue_bounded f b q'"
    by cases (auto simp: queue_bounded_def direct_queue.offer_ok direct_queue.shift_ok queue_take_def)
qed (simp add: queue_bounded_def, simp add: new_queue_def)

section \<open>Properties\<close>

text \<open>Whatever is pushed, shifted, taken and cleared, the queue never holds more frames or more
  bytes than its limits, its byte count is the size of the frames it holds, and a push is refused
  exactly when it would break a limit. Frames come out in the order they went in.\<close>

theorem direct_queue_bounds:
  assumes "queue_step\<^sup>*\<^sup>* (new_queue f b) q"
  shows "length (qframes q) \<le> f \<and>
    sum_list (map length (qframes q)) \<le> b \<and>
    qbytes q = sum_list (map length (qframes q)) \<and>
    (snd (queue_push q x) \<longleftrightarrow> length (qframes q) < f \<and> sum_list (map length (qframes q)) + length x \<le> b) \<and>
    (snd (queue_push q x) \<longrightarrow> snd (queue_take (fst (queue_push q x))) = qframes q @ [x]) \<and>
    snd (queue_shift q) = (case qframes q of [] \<Rightarrow> None | y # _ \<Rightarrow> Some y)"
proof -
  have "queue_bounded f b q" using direct_queue_run.reachable_inv [OF refl assms] .
  then have c1: "length (qframes q) \<le> f" "sum_list (map length (qframes q)) \<le> b"
    "qbytes q = sum_list (map length (qframes q))"
    "snd (queue_push q x) \<longleftrightarrow> length (qframes q) < f \<and> sum_list (map length (qframes q)) + length x \<le> b"
    by (auto simp: queue_bounded_def queue_ok_def queue_push_accepts)
  have c2: "snd (queue_push q x) \<Longrightarrow> snd (queue_take (fst (queue_push q x))) = qframes q @ [x]"
    using direct_queue.offer_accepted [of q x] by (simp add: direct_queue.drain_items)
  have c3: "snd (queue_shift q) = (case qframes q of [] \<Rightarrow> None | y # _ \<Rightarrow> Some y)"
    by (simp add: queue_shift_def split: list.splits)
  show ?thesis using c1 c2 c3 by blast
qed

theorem direct_queue_bounds_witness:
  "queue_step\<^sup>*\<^sup>* (new_queue 2 5) (fst (queue_push (new_queue 2 5) [1, 2, 3])) \<and>
   \<not> snd (queue_push (fst (queue_push (new_queue 2 5) [1, 2, 3])) [4, 5, 6])"
proof -
  let ?q = "fst (queue_push (new_queue 2 5) [1, 2, 3])"
  have run: "queue_step\<^sup>*\<^sup>* (new_queue 2 5) ?q" by (intro r_into_rtranclp q_push)
  have "qframes ?q = [[1, 2, 3]]" by (simp add: queue_push_def new_queue_def)
  then show ?thesis using run direct_queue_bounds [OF run, of "[4, 5, 6]"] by simp
qed

text \<open>An offer or an answer that passes the guard always fits one control message: its JSON text
  is at most the payload size in UTF-8, so a description accepted by one end is never too long for the
  other, and every one of its characters is printable ASCII or a line break.\<close>

theorem direct_signal_fits:
  assumes "isDirectSignalV1 (VObj [(''v'', VNum (JFin 1)), (''t'', VStr t), (''sdp'', VStr sdp)])"
  shows "length (utf8Encode (signal_text t sdp)) \<le> CONTROL_PAYLOAD_SIZE \<and>
    (\<forall>c \<in> set sdp. of_char c \<in> {10, 13} \<union> {32..126 :: nat})"
proof -
  have t: "t \<in> {''direct-offer'', ''direct-answer''}" and sdp: "isDirectSdp (VStr sdp)"
    using assms by (auto simp: isDirectSignalV1_def split: if_splits)
  then have c1: "length (utf8Encode (signal_text t sdp)) \<le> CONTROL_PAYLOAD_SIZE" by (intro signal_text_length)
  have c2: "\<forall>c \<in> set sdp. of_char c \<in> {10, 13} \<union> {32..126 :: nat}"
    using sdp by (auto simp: isDirectSdp_def list_all_iff sdp_char_def Let_def)
  show ?thesis using c1 c2 by blast
qed

theorem direct_signal_fits_witness:
  "isDirectSignalV1 (VObj [(''v'', VNum (JFin 1)), (''t'', VStr ''direct-offer''), (''sdp'', VStr ''v=0'')]) \<and>
   length (utf8Encode (signal_text ''direct-offer'' ''v=0'')) \<le> CONTROL_PAYLOAD_SIZE"
proof -
  have g: "isDirectSignalV1 (VObj [(''v'', VNum (JFin 1)), (''t'', VStr ''direct-offer''), (''sdp'', VStr ''v=0'')])"
    by (simp add: isDirectSignalV1_def isDirectSdp_def isBoundedString_def MAX_DIRECT_SDP_LENGTH_def sdp_char_def)
  show ?thesis using g direct_signal_fits [OF g] by blast
qed

text \<open>A string accepted as an IP literal is at most 45 characters long and made of hexadecimal
  digits, dots and colons only: no name, zone, port, space or markup gets through.\<close>

theorem ip_literal_safe:
  assumes "isIpLiteral (VStr s)"
  shows "0 < length s \<and> length s \<le> 45 \<and>
    set s \<subseteq> set ''0123456789abcdefABCDEF.:''"
proof -
  have s: "ip_literal s" using assms by (simp add: isIpLiteral_def)
  then have c1: "0 < length s \<and> length s \<le> 45"
    by (auto simp: ip_literal_def isBoundedString_def MAX_PATH_ADDRESS_LENGTH_def split: if_splits)
  have c2: "set s \<subseteq> set ''0123456789abcdefABCDEF.:''"
    using ip_literal_chars [OF s] unfolding address_char_def is_hex_def by fastforce
  show ?thesis using c1 c2 by blast
qed

theorem ip_literal_safe_witness:
  "isIpLiteral (VStr ''fe80::192.168.0.255'') \<and> \<not> isIpLiteral (VStr ''localhost'') \<and> \<not> isIpLiteral (VStr ''1::2::3'') \<and>
   \<not> isIpLiteral (VStr ''1.2.3.256'') \<and> isIpLiteral (VStr ''::'') \<and> set ''fe80::192.168.0.255'' \<subseteq> set ''0123456789abcdefABCDEF.:''"
proof -
  note ip_eval = isIpLiteral_def ip_literal_def isBoundedString_def MAX_PATH_ADDRESS_LENGTH_def ipv4_literal_def
    ipv4_octet_def ipv6_group_def is_digit_def is_hex_def digit_value_def Let_def
  have g: "isIpLiteral (VStr ''fe80::192.168.0.255'')" by (simp add: ip_eval)
  have h: "\<not> isIpLiteral (VStr ''localhost'')" "\<not> isIpLiteral (VStr ''1::2::3'')" "\<not> isIpLiteral (VStr ''1.2.3.256'')"
    "isIpLiteral (VStr ''::'')" by (simp_all add: ip_eval)
  show ?thesis using g h ip_literal_safe [OF g] by blast
qed

end
