(* ===== verification/Js_Text.thy ===== *)
theory Js_Text
  imports Js_Json "HOL-Library.Sublist"
begin

text \<open>
  What the sources use of JavaScript strings and regular expressions: the whitespace class and
  \<open>trim\<close>, \<open>split\<close>, \<open>indexOf\<close>, \<open>startsWith\<close> and \<open>endsWith\<close>, letters and digits, the printing of
  integers. A string is a list of characters up to U+00FF, so a code unit is a code point here and
  \<open>\s\<close> has the seven members it has in that range. A regular expression of the sources is a
  definition over these that says what it matches, in the order a backtracking matcher prefers.
\<close>

section \<open>Characters\<close>

definition js_space :: "char \<Rightarrow> bool" where
  "js_space c = ((of_char c :: nat) \<in> {9, 10, 11, 12, 13, 32, 160})"

definition is_digit :: "char \<Rightarrow> bool" where
  "is_digit c = (48 \<le> (of_char c :: nat) \<and> (of_char c :: nat) \<le> 57)"

definition is_upper :: "char \<Rightarrow> bool" where
  "is_upper c = (65 \<le> (of_char c :: nat) \<and> (of_char c :: nat) \<le> 90)"

definition is_lower :: "char \<Rightarrow> bool" where
  "is_lower c = (97 \<le> (of_char c :: nat) \<and> (of_char c :: nat) \<le> 122)"

definition is_letter :: "char \<Rightarrow> bool" where
  "is_letter c = (is_upper c \<or> is_lower c)"

text \<open>\<open>toLowerCase\<close> in the range of the model.\<close>

definition lower_char :: "char \<Rightarrow> char" where
  "lower_char c = (if is_upper c \<or> 192 \<le> (of_char c :: nat) \<and> (of_char c :: nat) \<le> 222 \<and> (of_char c :: nat) \<noteq> 215
     then char_of (of_char c + 32 :: nat) else c)"

abbreviation (input) newline :: char where "newline \<equiv> CHR 0x0A"
abbreviation (input) return_char :: char where "return_char \<equiv> CHR 0x0D"
abbreviation (input) tab_char :: char where "tab_char \<equiv> CHR 0x09"
abbreviation (input) squote :: char where "squote \<equiv> CHR 0x27"

text \<open>What \<open>.\<close> does not match.\<close>

definition line_end :: "char \<Rightarrow> bool" where
  "line_end c = (c = newline \<or> c = return_char)"

text \<open>The controls of C0, DEL and C1.\<close>

definition is_control :: "char \<Rightarrow> bool" where
  "is_control c = ((of_char c :: nat) < 32 \<or> 127 \<le> (of_char c :: nat) \<and> (of_char c :: nat) < 160)"

section \<open>Strings\<close>

definition js_trimEnd :: "string \<Rightarrow> string" where
  "js_trimEnd s = rev (dropWhile js_space (rev s))"

definition js_trim :: "string \<Rightarrow> string" where
  "js_trim s = js_trimEnd (dropWhile js_space s)"

definition starts_with :: "'a list \<Rightarrow> 'a list \<Rightarrow> bool" where
  "starts_with p s = (take (length p) s = p)"

definition ends_with :: "'a list \<Rightarrow> 'a list \<Rightarrow> bool" where
  "ends_with p s = starts_with (rev p) (rev s)"

text \<open>\<open>split\<close> on one character, and \<open>join\<close>.\<close>

fun split_on :: "char \<Rightarrow> string \<Rightarrow> string list" where
  "split_on d [] = [[]]"
| "split_on d (c # s) = (if c = d then [] # split_on d s
     else (case split_on d s of [] \<Rightarrow> [[c]] | p # ps \<Rightarrow> (c # p) # ps))"

fun join_with :: "string \<Rightarrow> string list \<Rightarrow> string" where
  "join_with d [] = []"
| "join_with d (x # xs) = x @ concat (map (\<lambda>y. d @ y) xs)"

text \<open>\<open>indexOf\<close>: the text before the first occurrence and the text after it.\<close>

fun split_at :: "string \<Rightarrow> string \<Rightarrow> (string \<times> string) option" where
  "split_at d s = (if starts_with d s then Some ([], drop (length d) s)
     else (case s of [] \<Rightarrow> None | c # r \<Rightarrow> map_option (\<lambda>(a, b). (c # a, b)) (split_at d r)))"

declare split_at.simps [simp del]

text \<open>Numbers in decimal.\<close>

fun show_nat :: "nat \<Rightarrow> string" where
  "show_nat n = (if n < 10 then [char_of (48 + n)] else show_nat (n div 10) @ [char_of (48 + n mod 10)])"

declare show_nat.simps [simp del]

definition show_int :: "int \<Rightarrow> string" where
  "show_int i = (if i < 0 then CHR ''-'' # show_nat (nat (- i)) else show_nat (nat i))"

section \<open>Facts\<close>

lemma starts_with_Nil [simp]: "starts_with [] s"
  by (simp add: starts_with_def)

lemma starts_with_append [simp]: "starts_with p (p @ s)"
  by (simp add: starts_with_def)

lemma starts_with_Cons [simp]: "starts_with (a # p) (b # s) \<longleftrightarrow> a = b \<and> starts_with p s"
  by (auto simp: starts_with_def)

lemma starts_with_Cons_Nil [simp]: "\<not> starts_with (a # p) []"
  by (simp add: starts_with_def)

lemma starts_withE:
  assumes "starts_with p s" obtains r where "s = p @ r"
  using assms append_take_drop_id [of "length p" s] unfolding starts_with_def by metis

lemma starts_with_extend: "starts_with p s \<Longrightarrow> starts_with p (s @ t)"
  by (elim starts_withE) simp

lemma split_on_not_Nil [simp]: "split_on d s \<noteq> []"
  by (induction s) (auto split: list.splits)

lemma join_split_on: "join_with [d] (split_on d s) = s"
  by (induction s) (auto split: list.splits)

lemma split_on_parts: "p \<in> set (split_on d s) \<Longrightarrow> d \<notin> set p"
  by (induction s arbitrary: p) (force split: if_splits list.splits)+

lemma js_trimEnd_prefix: "\<exists>t. s = js_trimEnd s @ t"
  unfolding js_trimEnd_def by (metis rev_append rev_rev_ident takeWhile_dropWhile_id)

lemma js_trim_set: "set (js_trim s) \<subseteq> set s"
  unfolding js_trim_def js_trimEnd_def by (auto dest!: set_dropWhileD)

lemma js_trim_length: "length (js_trim s) \<le> length s"
  unfolding js_trim_def js_trimEnd_def
  by (metis length_dropWhile_le length_rev le_trans)

end
