(* ===== verification/Direct_Peer.thy ===== *)
theory Direct_Peer
  imports Direct_Path Js_Text
begin

text \<open>
  One peer connection and its data channel (\<open>lib/src/remote/direct/direct-peer.ts\<close>): the bounded
  send queue, the checks before a channel is adopted or used, the path policy, and what is reported
  to the endpoint. The WebRTC stack is a parameter: what it answers to a read or a write is a
  function of everything that has happened so far. A timer is the flag that it is armed and the
  definition of what its expiry does.

  The lemmas show that frames leave in the order they were given, none twice and none after one was
  lost, that a closed peer reports nothing and a loss is reported once, and that nothing is
  delivered, and no opening reported, over a path the policy refused.
\<close>

section \<open>The stack and the state\<close>

definition DIRECT_CHANNEL_LABEL :: string where "DIRECT_CHANNEL_LABEL = ''dormouse''"
definition DIRECT_BUFFER_HIGH :: nat where "DIRECT_BUFFER_HIGH = 256 * 1024"
definition DIRECT_BUFFER_LOW :: nat where "DIRECT_BUFFER_LOW = 64 * 1024"

datatype path_end = LocalEnd | RemoteEnd
datatype address_source = ObservedAddress | ReportedAddress

datatype refused_end = RefusedRemote "(string \<times> address_source) option" | RefusedLocal "string option"

datatype selected_pair = Unreadable | NoPair | Pair "string option" "string option"

datatype connection_state = Connected | Disconnected | FailedConnection | ClosedConnection | OtherState

datatype peer_event =
    Wrote "byte list"
  | Taken "byte list"
  | ReportOpen
  | ReportFrame "byte list"
  | ReportClosed string
  | ReportViolation string bool
  | ChannelClosed
  | ConnectionClosed
  | FlushDone nat
  | LowThreshold nat
  | Tick nat

type_synonym peer_log = "peer_event list"

record path_policy =
  policy_describe :: "string \<Rightarrow> string option"
  policy_reported :: "string \<Rightarrow> string option"
  policy_refusal :: "(string option \<times> string option) option \<Rightarrow> (string \<times> path_end option) option"

record peer_stack =
  bufferedAmount :: "peer_log \<Rightarrow> nat"
  write_accepted :: "peer_log \<Rightarrow> byte list \<Rightarrow> bool"
  maxMessageSize :: "peer_log \<Rightarrow> nat option"
  connectionState :: "peer_log \<Rightarrow> connection_state"
  selectedPair :: "peer_log \<Rightarrow> selected_pair"
  localDescription :: "peer_log \<Rightarrow> string option"
  pathPolicy :: "path_policy option"

record direct_peer =
  has_channel :: bool
  out_queue :: frame_queue
  setup_armed :: bool
  grace_armed :: bool
  recheck_armed :: bool
  flush_waiters :: "nat list"
  opened :: bool
  peer_closed :: bool
  refused :: "path_end option"
  refusedAddress :: "string option"
  reported :: "string option"
  plog :: peer_log

definition new_peer :: direct_peer where
  "new_peer = \<lparr>has_channel = False, out_queue = new_queue MAX_DIRECT_PENDING_FRAMES MAX_DIRECT_PENDING_BYTES,
     setup_armed = False, grace_armed = False, recheck_armed = False, flush_waiters = [], opened = False, peer_closed = False,
     refused = None, refusedAddress = None, reported = None, plog = []\<rparr>"

definition p_log :: "peer_event \<Rightarrow> direct_peer \<Rightarrow> direct_peer" where
  "p_log x s = s\<lparr>plog := x # plog s\<rparr>"

definition isOpen :: "direct_peer \<Rightarrow> bool" where
  "isOpen s = (opened s \<and> \<not> peer_closed s)"

section \<open>Addresses a refusal names\<close>

definition lower_f :: "char \<Rightarrow> char" where
  "lower_f c = (if c = CHR ''F'' then CHR ''f'' else c)"

definition dotted_digits :: "string \<Rightarrow> bool" where
  "dotted_digits s = (let parts = split_char (CHR ''.'') s in length parts = 4 \<and> list_all (\<lambda>p. p \<noteq> [] \<and> list_all is_digit p) parts)"

definition unmap_ipv4 :: "string \<Rightarrow> string" where
  "unmap_ipv4 s = (if map lower_f (take 7 s) = ''::ffff:'' \<and> dotted_digits (drop 7 s) then drop 7 s else s)"

definition shownAddress :: "string option \<Rightarrow> string option" where
  "shownAddress a = (case a of
      None \<Rightarrow> None
    | Some s \<Rightarrow> (let unmapped = unmap_ipv4 s in if isIpLiteral (VStr unmapped) then Some unmapped else None))"

definition refused_end_of :: "direct_peer \<Rightarrow> refused_end option" where
  "refused_end_of s =
     (if refused s = Some LocalEnd then Some (RefusedLocal (refusedAddress s))
      else case (refused s, refusedAddress s) of
        (Some RemoteEnd, Some a) \<Rightarrow> Some (RefusedRemote (Some (a, ObservedAddress)))
      | _ \<Rightarrow> (let rep = map_option (\<lambda>a. (a, ReportedAddress)) (reported s)
              in if refused s = Some RemoteEnd \<or> rep \<noteq> None then Some (RefusedRemote rep) else None))"

section \<open>Closing and flushing\<close>

definition flushed :: "peer_stack \<Rightarrow> direct_peer \<Rightarrow> bool" where
  "flushed S s = (\<not> has_channel s \<or> \<not> isOpen s \<or> (qframes (out_queue s) = [] \<and> bufferedAmount S (plog s) = 0))"

definition settleFlush :: "peer_stack \<Rightarrow> direct_peer \<Rightarrow> direct_peer" where
  "settleFlush S s =
     (if flush_waiters s = [] \<or> \<not> flushed S s then s
      else s\<lparr>flush_waiters := [], plog := rev (map FlushDone (flush_waiters s)) @ plog s\<rparr>)"

definition afterFlush :: "peer_stack \<Rightarrow> nat \<Rightarrow> direct_peer \<Rightarrow> direct_peer" where
  "afterFlush S w s =
     (if flushed S s then p_log (FlushDone w) s
      else p_log (LowThreshold 0) (s\<lparr>flush_waiters := flush_waiters s @ [w]\<rparr>))"

definition close_peer_connection :: "peer_stack \<Rightarrow> direct_peer \<Rightarrow> direct_peer" where
  "close_peer_connection S s =
     (let s1 = s\<lparr>peer_closed := True, setup_armed := False, grace_armed := False, recheck_armed := False,
            out_queue := queue_clear (out_queue s)\<rparr>;
          s2 = (if has_channel s1 then p_log ChannelClosed s1 else s1)
      in settleFlush S ((p_log ConnectionClosed s2)\<lparr>has_channel := False\<rparr>))"

definition fail_peer :: "peer_stack \<Rightarrow> string \<Rightarrow> direct_peer \<Rightarrow> direct_peer" where
  "fail_peer S reason s = (if peer_closed s then s else p_log (ReportClosed reason) (close_peer_connection S s))"

definition refuse :: "peer_stack \<Rightarrow> string \<Rightarrow> direct_peer \<Rightarrow> direct_peer" where
  "refuse S reason s = (if peer_closed s then s else p_log (ReportViolation reason True) (close_peer_connection S s))"

section \<open>The path policy\<close>

definition end_address :: "path_end \<Rightarrow> string option \<times> string option \<Rightarrow> string option" where
  "end_address e p = (case e of LocalEnd \<Rightarrow> fst p | RemoteEnd \<Rightarrow> snd p)"

definition pathRefused :: "peer_stack \<Rightarrow> selected_pair \<Rightarrow> direct_peer \<Rightarrow> direct_peer \<times> bool" where
  "pathRefused S pr s = (case pathPolicy S of
      None \<Rightarrow> (s, False)
    | Some P \<Rightarrow>
        if pr = Unreadable then (refuse S ''the selected candidate pair could not be read'' s, True)
        else (let p = (case pr of Pair l r \<Rightarrow> Some (l, r) | _ \<Rightarrow> None) in
          case policy_refusal P p of
            None \<Rightarrow> (s, False)
          | Some (reason, e) \<Rightarrow>
              (refuse S reason (s\<lparr>refused := e,
                 refusedAddress := shownAddress (case (e, p) of (Some x, Some q) \<Rightarrow> end_address x q | _ \<Rightarrow> None)\<rparr>), True)))"

definition recheckPath :: "peer_stack \<Rightarrow> direct_peer \<Rightarrow> direct_peer" where
  "recheckPath S s =
     (if pathPolicy S = None \<or> peer_closed s \<or> \<not> opened s \<or> connectionState S (plog s) \<noteq> Connected then s
      else (let pr = selectedPair S (plog s) in if pr \<noteq> NoPair then fst (pathRefused S pr s) else s))"

definition armPathRecheck :: "peer_stack \<Rightarrow> direct_peer \<Rightarrow> direct_peer" where
  "armPathRecheck S s = (if pathPolicy S = None \<or> peer_closed s then s else s\<lparr>recheck_armed := True\<rparr>)"

definition recheck_expired :: "peer_stack \<Rightarrow> direct_peer \<Rightarrow> direct_peer" where
  "recheck_expired S s = armPathRecheck S (recheckPath S (s\<lparr>recheck_armed := False\<rparr>))"

section \<open>The channel\<close>

record channel_params =
  ch_label :: string
  ch_ordered :: bool
  maxRetransmits :: "nat option"
  maxPacketLifeTime :: "nat option"

definition adopt :: "peer_stack \<Rightarrow> channel_params \<Rightarrow> direct_peer \<Rightarrow> direct_peer" where
  "adopt S c s =
     (if has_channel s then s
      else if ch_label c \<noteq> DIRECT_CHANNEL_LABEL \<or> \<not> ch_ordered c \<or> maxRetransmits c \<noteq> None \<or> maxPacketLifeTime c \<noteq> None
        then fail_peer S ''the direct channel is not the reliable ordered one this session opens'' s
      else p_log (LowThreshold DIRECT_BUFFER_LOW) (s\<lparr>has_channel := True\<rparr>))"

definition channel_open :: "peer_stack \<Rightarrow> direct_peer \<Rightarrow> direct_peer" where
  "channel_open S s =
     (if peer_closed s \<or> opened s then s
      else let limit = (case maxMessageSize S (plog s) of None \<Rightarrow> 0 | Some n \<Rightarrow> n) in
        if limit > 0 \<and> limit < NOISE_MAX_MESSAGE_LENGTH
          then fail_peer S (''the direct channel carries only '' @ show_nat limit @ '' bytes per message'') s
        else case pathRefused S (selectedPair S (plog s)) s of
               (s1, True) \<Rightarrow> s1
             | (s1, False) \<Rightarrow> p_log ReportOpen (armPathRecheck S (s1\<lparr>opened := True, setup_armed := False\<rparr>)))"

definition write_frame :: "peer_stack \<Rightarrow> byte list \<Rightarrow> direct_peer \<Rightarrow> direct_peer \<times> bool" where
  "write_frame S f s = (if write_accepted S (plog s) f then (p_log (Wrote f) s, True) else (s, False))"

definition peer_send :: "peer_stack \<Rightarrow> byte list \<Rightarrow> direct_peer \<Rightarrow> direct_peer" where
  "peer_send S ct s =
     (if \<not> has_channel s \<or> \<not> isOpen s then s
      else if qframes (out_queue s) = [] \<and> bufferedAmount S (plog s) < DIRECT_BUFFER_HIGH then
        (case write_frame S ct (p_log (Taken ct) s) of
           (s1, True) \<Rightarrow> s1
         | (s1, False) \<Rightarrow> fail_peer S ''the direct channel refused a message'' s1)
      else (case queue_push (out_queue s) ct of
           (q, True) \<Rightarrow> p_log (Taken ct) (s\<lparr>out_queue := q\<rparr>)
         | (q, False) \<Rightarrow> fail_peer S ''the direct path outran what a sender can hold in order'' (s\<lparr>out_queue := q\<rparr>)))"

function drain_channel :: "peer_stack \<Rightarrow> direct_peer \<Rightarrow> direct_peer" where
  "drain_channel S s =
     (if \<not> has_channel s \<or> \<not> isOpen s \<or> \<not> bufferedAmount S (plog s) < DIRECT_BUFFER_HIGH then s
      else (case queue_shift (out_queue s) of
          (q, None) \<Rightarrow> s
        | (q, Some f) \<Rightarrow> (case write_frame S f (s\<lparr>out_queue := q\<rparr>) of
            (s1, True) \<Rightarrow> drain_channel S s1
          | (s1, False) \<Rightarrow> fail_peer S ''the direct channel refused a message'' s1)))"
  by pat_completeness auto
termination
  by (relation "measure (\<lambda>(S, s). length (qframes (out_queue s)))")
    (auto simp: queue_shift_def write_frame_def p_log_def split: list.splits if_splits)

definition buffered_low :: "peer_stack \<Rightarrow> direct_peer \<Rightarrow> direct_peer" where
  "buffered_low S s = settleFlush S (drain_channel S s)"

datatype channel_data = Binary "byte list" | NotBinary

definition onMessage :: "peer_stack \<Rightarrow> channel_data \<Rightarrow> direct_peer \<Rightarrow> direct_peer" where
  "onMessage S d s =
     (if peer_closed s then s
      else case (if opened s then (s, False) else pathRefused S (selectedPair S (plog s)) s) of
        (s1, True) \<Rightarrow> s1
      | (s1, False) \<Rightarrow> (case d of
          NotBinary \<Rightarrow> p_log (ReportViolation ''a direct channel message was not binary'' False) s1
        | Binary f \<Rightarrow>
            if length f > NOISE_MAX_MESSAGE_LENGTH
            then p_log (ReportViolation ''a direct channel frame exceeds one Noise message'' False) s1
            else p_log (ReportFrame f) s1))"

section \<open>The connection and its deadlines\<close>

definition onConnectionState :: "peer_stack \<Rightarrow> direct_peer \<Rightarrow> direct_peer" where
  "onConnectionState S s =
     (if peer_closed s then s
      else case connectionState S (plog s) of
        FailedConnection \<Rightarrow> fail_peer S ''the direct connection failed'' s
      | ClosedConnection \<Rightarrow> fail_peer S ''the direct connection closed'' s
      | Disconnected \<Rightarrow> (if grace_armed s then s else s\<lparr>grace_armed := True\<rparr>)
      | _ \<Rightarrow> recheckPath S (s\<lparr>grace_armed := False\<rparr>))"

definition grace_expired :: "peer_stack \<Rightarrow> direct_peer \<Rightarrow> direct_peer" where
  "grace_expired S s =
     (let s1 = s\<lparr>grace_armed := False\<rparr> in
      if peer_closed s1 \<or> connectionState S (plog s1) \<noteq> Disconnected then s1
      else fail_peer S ''the direct connection stayed disconnected'' s1)"

definition armSetupTimeout :: "direct_peer \<Rightarrow> direct_peer" where
  "armSetupTimeout s = s\<lparr>setup_armed := True\<rparr>"

definition setup_expired :: "peer_stack \<Rightarrow> direct_peer \<Rightarrow> direct_peer" where
  "setup_expired S s =
     (let s1 = s\<lparr>setup_armed := False\<rparr> in
      if opened s1 \<or> peer_closed s1 then s1 else fail_peer S ''the direct channel did not open in time'' s1)"

text \<open>The description to send once gathering has settled.\<close>

definition gatheredSdp :: "peer_stack \<Rightarrow> direct_peer \<Rightarrow> direct_peer \<times> string option" where
  "gatheredSdp S s =
     (if peer_closed s then (s, None)
      else case (pathPolicy S, localDescription S (plog s)) of
        (Some P, Some sdp) \<Rightarrow> (case policy_describe P sdp of
            None \<Rightarrow> (refuse S ''no candidate of this end is on an allowed network'' (s\<lparr>refused := Some LocalEnd\<rparr>), None)
          | Some d \<Rightarrow> (s, if isDirectSdp (VStr d) then Some d else None))
      | (_, Some sdp) \<Rightarrow> (s, if isDirectSdp (VStr sdp) then Some sdp else None)
      | (_, None) \<Rightarrow> (s, None))"

text \<open>What an answerer remembers of the offer.\<close>

definition note_reported :: "peer_stack \<Rightarrow> string \<Rightarrow> direct_peer \<Rightarrow> direct_peer" where
  "note_reported S offer s = (case pathPolicy S of
      None \<Rightarrow> s | Some P \<Rightarrow> s\<lparr>reported := shownAddress (policy_reported P offer)\<rparr>)"

declare drain_channel.simps [simp del]

section \<open>Steps and the invariant\<close>

inductive peer_step :: "peer_stack \<Rightarrow> direct_peer \<Rightarrow> direct_peer \<Rightarrow> bool" for S where
  pe_adopt: "peer_step S s (adopt S c s)"
| pe_open: "peer_step S s (channel_open S s)"
| pe_send: "peer_step S s (peer_send S ct s)"
| pe_low: "peer_step S s (buffered_low S s)"
| pe_message: "peer_step S s (onMessage S d s)"
| pe_state: "peer_step S s (onConnectionState S s)"
| pe_lost: "peer_step S s (fail_peer S r s)"
| pe_grace: "grace_armed s \<Longrightarrow> peer_step S s (grace_expired S s)"
| pe_setup: "setup_armed s \<Longrightarrow> peer_step S s (setup_expired S s)"
| pe_recheck: "recheck_armed s \<Longrightarrow> peer_step S s (recheck_expired S s)"
| pe_arm: "peer_step S s (armSetupTimeout s)"
| pe_ice: "peer_step S s (recheckPath S s)"
| pe_flush: "peer_step S s (afterFlush S w s)"
| pe_close: "peer_step S s (close_peer_connection S s)"
| pe_sdp: "peer_step S s (fst (gatheredSdp S s))"
| pe_note: "peer_step S s (note_reported S offer s)"
| pe_tick: "peer_step S s (p_log (Tick k) s)"

text \<open>What was handed to the stack, what was taken from the session, and what was reported.\<close>

definition writes :: "peer_log \<Rightarrow> byte list list" where
  "writes l = concat (map (\<lambda>x. case x of Wrote f \<Rightarrow> [f] | _ \<Rightarrow> []) (rev l))"

definition takes :: "peer_log \<Rightarrow> byte list list" where
  "takes l = concat (map (\<lambda>x. case x of Taken f \<Rightarrow> [f] | _ \<Rightarrow> []) (rev l))"

fun loss :: "peer_event \<Rightarrow> bool" where
  "loss (ReportClosed r) = True"
| "loss (ReportViolation r b) = b"
| "loss _ = False"

definition losses :: "peer_log \<Rightarrow> nat" where
  "losses l = length (filter loss l)"

fun bounded_report :: "peer_event \<Rightarrow> bool" where
  "bounded_report (ReportFrame f) = (length f \<le> NOISE_MAX_MESSAGE_LENGTH)"
| "bounded_report _ = True"

definition fifo :: "direct_peer \<Rightarrow> bool" where
  "fifo s \<longleftrightarrow> (if peer_closed s then \<exists>ys. takes (plog s) = writes (plog s) @ ys
     else takes (plog s) = writes (plog s) @ qframes (out_queue s))"

definition peer_inv :: "direct_peer \<Rightarrow> bool" where
  "peer_inv s \<longleftrightarrow> fifo s \<and> queue_bounded MAX_DIRECT_PENDING_FRAMES MAX_DIRECT_PENDING_BYTES (out_queue s) \<and>
     losses (plog s) \<le> (if peer_closed s then 1 else 0) \<and> list_all bounded_report (plog s)"

lemma log_views [simp]:
  "writes (x # l) = writes l @ (case x of Wrote f \<Rightarrow> [f] | _ \<Rightarrow> [])"
  "takes (x # l) = takes l @ (case x of Taken f \<Rightarrow> [f] | _ \<Rightarrow> [])"
  "losses (x # l) = (if loss x then 1 else 0) + losses l"
  "writes (k @ l) = writes l @ writes k" "takes (k @ l) = takes l @ takes k" "losses (k @ l) = losses k + losses l"
  by (simp_all add: writes_def takes_def losses_def)

lemma flush_log [simp]:
  "writes (rev (map FlushDone ws)) = []" "takes (rev (map FlushDone ws)) = []" "losses (rev (map FlushDone ws)) = 0"
  "list_all bounded_report (map FlushDone ws)"
  by (induction ws) (simp_all add: writes_def takes_def losses_def)

lemma p_log_simps [simp]:
  "has_channel (p_log x s) = has_channel s" "out_queue (p_log x s) = out_queue s" "opened (p_log x s) = opened s"
  "peer_closed (p_log x s) = peer_closed s" "plog (p_log x s) = x # plog s" "flush_waiters (p_log x s) = flush_waiters s"
  by (simp_all add: p_log_def)

lemma isOpen_log [simp]: "isOpen (p_log x s) = isOpen s"
  by (simp add: isOpen_def)

text \<open>An event that is no write, no frame taken and no loss.\<close>

fun neutral :: "peer_event \<Rightarrow> bool" where
  "neutral (Wrote f) = False"
| "neutral (Taken f) = False"
| "neutral x = (\<not> loss x)"

lemma neutral_inv: "peer_inv s \<Longrightarrow> neutral x \<Longrightarrow> bounded_report x \<Longrightarrow> peer_inv (p_log x s)"
  by (cases x) (auto simp: peer_inv_def fifo_def)

lemma settleFlush_inv: "peer_inv s \<Longrightarrow> peer_inv (settleFlush S s)"
  by (auto simp: peer_inv_def fifo_def settleFlush_def list_all_append)

lemma settleFlush_keeps [simp]:
  "peer_closed (settleFlush S s) = peer_closed s" "losses (plog (settleFlush S s)) = losses (plog s)"
  "opened (settleFlush S s) = opened s" "has_channel (settleFlush S s) = has_channel s"
  by (simp_all add: settleFlush_def)

lemma closing_inv:
  assumes "peer_inv s"
  shows "peer_inv (close_peer_connection S s)" "losses (plog (close_peer_connection S s)) = losses (plog s)"
    "peer_closed (close_peer_connection S s)"
proof -
  let ?s = "s\<lparr>peer_closed := True, setup_armed := False, grace_armed := False, recheck_armed := False, out_queue := queue_clear (out_queue s)\<rparr>"
  have 1: "peer_inv ?s"
    using assms by (auto simp: peer_inv_def fifo_def queue_bounded_def split: if_splits)
  have chan: "peer_inv (u\<lparr>has_channel := b\<rparr>) = peer_inv u" for u b by (simp add: peer_inv_def fifo_def)
  have "peer_inv (p_log ConnectionClosed ?s)" "peer_inv (p_log ConnectionClosed (p_log ChannelClosed ?s))"
    using 1 by (auto intro!: neutral_inv)
  then show "peer_inv (close_peer_connection S s)"
    by (simp add: close_peer_connection_def Let_def settleFlush_inv chan)
  show "losses (plog (close_peer_connection S s)) = losses (plog s)" "peer_closed (close_peer_connection S s)"
    by (simp_all add: close_peer_connection_def Let_def)
qed

lemma loss_inv:
  assumes "peer_inv s" "\<not> peer_closed s" "loss x"
  shows "peer_inv (p_log x (close_peer_connection S s))"
proof -
  have "losses (plog s) = 0" using assms by (simp add: peer_inv_def)
  then show ?thesis
    using closing_inv [OF assms(1), of S] assms(3) by (cases x) (auto simp: peer_inv_def fifo_def)
qed

lemma fail_inv: "peer_inv s \<Longrightarrow> peer_inv (fail_peer S r s)"
  by (simp add: fail_peer_def loss_inv)

lemma refuse_inv: "peer_inv s \<Longrightarrow> peer_inv (refuse S r s)"
  by (simp add: refuse_def loss_inv)

lemma fields_inv [simp]:
  "peer_inv (s\<lparr>refused := a, refusedAddress := b\<rparr>) = peer_inv s" "peer_inv (s\<lparr>refused := a\<rparr>) = peer_inv s"
  "peer_inv (s\<lparr>recheck_armed := c\<rparr>) = peer_inv s" "peer_inv (s\<lparr>grace_armed := c\<rparr>) = peer_inv s"
  "peer_inv (s\<lparr>setup_armed := c\<rparr>) = peer_inv s" "peer_inv (s\<lparr>opened := c, setup_armed := d\<rparr>) = peer_inv s"
  "peer_inv (s\<lparr>has_channel := c\<rparr>) = peer_inv s" "peer_inv (s\<lparr>flush_waiters := w\<rparr>) = peer_inv s"
  "peer_inv (s\<lparr>reported := b\<rparr>) = peer_inv s"
  by (simp_all add: peer_inv_def fifo_def)

lemma pathRefused_inv: "peer_inv s \<Longrightarrow> peer_inv (fst (pathRefused S pr s))"
  by (auto simp: pathRefused_def Let_def refuse_inv split: option.splits)

lemma recheckPath_inv: "peer_inv s \<Longrightarrow> peer_inv (recheckPath S s)"
  by (simp add: recheckPath_def Let_def pathRefused_inv)

lemma armPathRecheck_inv: "peer_inv s \<Longrightarrow> peer_inv (armPathRecheck S s)"
  by (simp add: armPathRecheck_def)

lemma adopt_inv: "peer_inv s \<Longrightarrow> peer_inv (adopt S c s)"
  by (simp add: adopt_def fail_inv neutral_inv)

lemma channel_open_inv:
  assumes "peer_inv s"
  shows "peer_inv (channel_open S s)"
proof -
  obtain s1 b where r: "pathRefused S (selectedPair S (plog s)) s = (s1, b)" by fastforce
  then have i: "peer_inv s1" using pathRefused_inv [OF assms, of S "selectedPair S (plog s)"] by simp
  then have "peer_inv (armPathRecheck S (s1\<lparr>opened := True, setup_armed := False\<rparr>))"
    by (intro armPathRecheck_inv) (simp add: peer_inv_def fifo_def)
  with i show ?thesis using assms r by (cases b) (simp_all add: channel_open_def Let_def fail_inv neutral_inv)
qed

lemma onMessage_inv:
  assumes "peer_inv s"
  shows "peer_inv (onMessage S d s)"
proof -
  obtain s1 b where r: "(if opened s then (s, False) else pathRefused S (selectedPair S (plog s)) s) = (s1, b)" "peer_inv s1"
    using pathRefused_inv [OF assms, of S "selectedPair S (plog s)"] assms
    by (cases "opened s"; cases "pathRefused S (selectedPair S (plog s)) s") auto
  show ?thesis
    unfolding onMessage_def r(1) using assms r(2) by (cases b; cases d) (simp_all add: neutral_inv not_less)
qed

lemma write_inv:
  assumes "peer_inv s" "\<not> peer_closed s" "qframes (out_queue s) = f # qframes q"
    "queue_bounded MAX_DIRECT_PENDING_FRAMES MAX_DIRECT_PENDING_BYTES q"
  shows "peer_inv (p_log (Wrote f) (s\<lparr>out_queue := q\<rparr>))"
  using assms by (auto simp: peer_inv_def fifo_def)

lemma queue_shift_next:
  assumes "queue_shift q = (q', Some f)" "queue_bounded m n q"
  shows "qframes q = f # qframes q'" "queue_bounded m n q'"
  using direct_queue.shift_some [of q f] direct_queue.shift_ok [of q] queue_limits(3,4) [of q] assms
  by (auto simp: queue_bounded_def)

lemma queue_clear_eq:
  "maxFrames p = maxFrames q \<Longrightarrow> maxBytes p = maxBytes q \<Longrightarrow> queue_clear p = queue_clear q"
  by (simp add: queue_clear_def)

lemma lost_write_inv:
  assumes "peer_inv s" "\<not> peer_closed s" "qframes (out_queue s) = f # qframes q"
    "queue_bounded MAX_DIRECT_PENDING_FRAMES MAX_DIRECT_PENDING_BYTES q"
  shows "peer_inv (fail_peer S r (s\<lparr>out_queue := q\<rparr>))"
proof -
  let ?c = "close_peer_connection S (s\<lparr>out_queue := q\<rparr>)"
  have "queue_clear q = queue_clear (out_queue s)"
    using assms(1,4) by (intro queue_clear_eq) (simp_all add: queue_bounded_def peer_inv_def)
  then have eq: "?c = close_peer_connection S s" by (simp add: close_peer_connection_def Let_def)
  show ?thesis using loss_inv [OF assms(1,2), of "ReportClosed r" S] assms(2) by (simp add: fail_peer_def eq)
qed

lemma drain_inv: "peer_inv s \<Longrightarrow> peer_inv (drain_channel S s)"
proof (induction S s rule: drain_channel.induct)
  case (1 S s)
  show ?case
  proof (cases "\<not> has_channel s \<or> \<not> isOpen s \<or> \<not> bufferedAmount S (plog s) < DIRECT_BUFFER_HIGH")
    case True
    then show ?thesis using "1.prems" by (subst drain_channel.simps) auto
  next
    case go: False
    then have nc: "\<not> peer_closed s" by (simp add: isOpen_def)
    obtain q fo where sh: "queue_shift (out_queue s) = (q, fo)" by fastforce
    show ?thesis
    proof (cases fo)
      case None
      then show ?thesis using "1.prems" go sh by (subst drain_channel.simps) simp
    next
      case (Some f)
      have b: "queue_bounded MAX_DIRECT_PENDING_FRAMES MAX_DIRECT_PENDING_BYTES (out_queue s)" using "1.prems" by (simp add: peer_inv_def)
      note q = queue_shift_next [OF sh [unfolded Some] b]
      obtain s1 ok where w: "write_frame S f (s\<lparr>out_queue := q\<rparr>) = (s1, ok)" by fastforce
      show ?thesis
      proof (cases ok)
        case True
        then have "s1 = p_log (Wrote f) (s\<lparr>out_queue := q\<rparr>)" using w by (auto simp: write_frame_def split: if_splits)
        then have "peer_inv s1" using write_inv [OF "1.prems" nc q] by simp
        then show ?thesis using "1.IH" [OF go sh [symmetric] Some w [symmetric]] True go sh Some w
          by (subst drain_channel.simps) simp
      next
        case False
        then have "s1 = s\<lparr>out_queue := q\<rparr>" using w by (auto simp: write_frame_def split: if_splits)
        then show ?thesis using lost_write_inv [OF "1.prems" nc q] False go sh Some w by (subst drain_channel.simps) simp
      qed
    qed
  qed
qed

lemma push_inv:
  assumes "peer_inv s" "\<not> peer_closed s" "queue_push (out_queue s) ct = (q, True)"
  shows "peer_inv (p_log (Taken ct) (s\<lparr>out_queue := q\<rparr>))"
proof -
  have "qframes q = qframes (out_queue s) @ [ct]" using direct_queue.offer_accepted [of "out_queue s" ct] assms(3) by simp
  moreover have "queue_bounded MAX_DIRECT_PENDING_FRAMES MAX_DIRECT_PENDING_BYTES q"
    using direct_queue.offer_ok [of "out_queue s" ct] queue_limits(1,2) [of "out_queue s" ct] assms(1,3)
    by (auto simp: peer_inv_def queue_bounded_def)
  ultimately show ?thesis using assms by (auto simp: peer_inv_def fifo_def)
qed

lemma direct_write_inv:
  assumes "peer_inv s" "\<not> peer_closed s" "qframes (out_queue s) = []"
  shows "peer_inv (p_log (Wrote ct) (p_log (Taken ct) s))" "peer_inv (fail_peer S r (p_log (Taken ct) s))"
proof -
  show "peer_inv (p_log (Wrote ct) (p_log (Taken ct) s))" using assms by (auto simp: peer_inv_def fifo_def)
  let ?t = "(p_log (Taken ct) s)\<lparr>peer_closed := True, setup_armed := False, grace_armed := False, recheck_armed := False,
     out_queue := queue_clear (out_queue s)\<rparr>"
  have "peer_inv ?t" using assms by (auto simp: peer_inv_def fifo_def queue_bounded_def)
  moreover have "losses (plog ?t) = 0" using assms by (simp add: peer_inv_def)
  ultimately have "peer_inv (close_peer_connection S (p_log (Taken ct) s)) \<and> losses (plog (close_peer_connection S (p_log (Taken ct) s))) = 0
      \<and> peer_closed (close_peer_connection S (p_log (Taken ct) s))"
    by (auto simp: close_peer_connection_def Let_def intro!: settleFlush_inv neutral_inv)
  then show "peer_inv (fail_peer S r (p_log (Taken ct) s))"
    using assms(2) by (auto simp: fail_peer_def peer_inv_def fifo_def)
qed

lemma send_peer_inv:
  assumes "peer_inv s"
  shows "peer_inv (peer_send S ct s)"
proof (cases "\<not> has_channel s \<or> \<not> isOpen s")
  case True
  then show ?thesis using assms by (auto simp: peer_send_def)
next
  case False
  then have nc: "\<not> peer_closed s" by (simp add: isOpen_def)
  show ?thesis
  proof (cases "qframes (out_queue s) = [] \<and> bufferedAmount S (plog s) < DIRECT_BUFFER_HIGH")
    case True
    then show ?thesis using False direct_write_inv [OF assms nc] by (auto simp: peer_send_def write_frame_def)
  next
    case queue: False
    obtain q b where q: "queue_push (out_queue s) ct = (q, b)" by fastforce
    have "\<not> b \<Longrightarrow> q = out_queue s" using direct_queue.offer_refused [of "out_queue s" ct] q by simp
    then show ?thesis using False queue q push_inv [OF assms nc] fail_inv [OF assms] by (cases b) (auto simp: peer_send_def)
  qed
qed

lemma peer_step_inv: "peer_step S s s' \<Longrightarrow> peer_inv s \<Longrightarrow> peer_inv s'"
proof (induction rule: peer_step.induct)
  case (pe_state s)
  then show ?case by (simp add: onConnectionState_def fail_inv recheckPath_inv split: connection_state.splits)
next
  case (pe_sdp s)
  then show ?case by (auto simp: gatheredSdp_def refuse_inv split: option.splits)
next
  case (pe_flush s w)
  then show ?case by (simp add: afterFlush_def neutral_inv)
qed (simp_all add: adopt_inv channel_open_inv send_peer_inv buffered_low_def settleFlush_inv drain_inv onMessage_inv fail_inv
    grace_expired_def setup_expired_def recheck_expired_def Let_def armPathRecheck_inv recheckPath_inv armSetupTimeout_def
    closing_inv neutral_inv note_reported_def split: option.splits)

lemma new_peer_inv: "peer_inv new_peer"
  by (simp add: peer_inv_def fifo_def new_peer_def takes_def writes_def losses_def queue_bounded_def) (simp add: new_queue_def)

interpretation peer_connection: step_system "\<lambda>s. s = new_peer" "peer_step S" peer_inv for S
  by unfold_locales (auto simp: new_peer_inv intro: peer_step_inv)

section \<open>Silence after closing\<close>

fun report :: "peer_event \<Rightarrow> bool" where
  "report ReportOpen = True"
| "report (ReportFrame f) = True"
| "report (ReportClosed r) = True"
| "report (ReportViolation r b) = True"
| "report _ = False"

text \<open>What the endpoint and the wire see of a peer.\<close>

definition visible :: "direct_peer \<Rightarrow> bool \<times> peer_event list \<times> byte list list" where
  "visible s = (peer_closed s, filter report (plog s), writes (plog s))"

lemma flush_report [simp]: "filter report (rev (map FlushDone ws)) = []"
  by (induction ws) simp_all

lemma visible_settle [simp]: "visible (settleFlush S s) = visible s"
  by (simp add: visible_def settleFlush_def)

lemma closed_step:
  assumes "peer_step S s s'" "peer_closed s"
  shows "visible s' = visible s"
  using assms
proof (induction rule: peer_step.induct)
  case (pe_low s)
  then have "drain_channel S s = s" by (subst drain_channel.simps) (simp add: isOpen_def)
  then show ?case by (simp add: buffered_low_def)
next
  case (pe_close s)
  then show ?case by (simp add: close_peer_connection_def Let_def) (simp add: visible_def)
qed (simp_all add: visible_def adopt_def channel_open_def peer_send_def isOpen_def onMessage_def onConnectionState_def fail_peer_def
    grace_expired_def setup_expired_def recheck_expired_def recheckPath_def armPathRecheck_def armSetupTimeout_def afterFlush_def
    gatheredSdp_def note_reported_def Let_def split: option.splits)

lemma closed_run:
  assumes "(peer_step S)\<^sup>*\<^sup>* s s'" "peer_closed s"
  shows "visible s' = visible s"
  using assms
proof (induction rule: rtranclp_induct)
  case (step y z)
  then have "peer_closed y" by (simp add: visible_def)
  then show ?case using closed_step step by metis
qed simp

section \<open>Properties\<close>

text \<open>C12: Whatever the stack does, frames leave a peer connection in the order the session gave them:
  what was written is what was taken, up to what still waits in the queue, and after a loss a prefix of
  it. The queue keeps its bounds, no frame longer than a Noise message is delivered, and the loss of
  the connection is reported at most once.\<close>

theorem peer_sends_in_order:
  assumes "(peer_step S)\<^sup>*\<^sup>* new_peer s"
  shows "(\<exists>ys. takes (plog s) = writes (plog s) @ ys) \<and>
    (\<not> peer_closed s \<longrightarrow> takes (plog s) = writes (plog s) @ qframes (out_queue s)) \<and>
    length (qframes (out_queue s)) \<le> MAX_DIRECT_PENDING_FRAMES \<and> qbytes (out_queue s) \<le> MAX_DIRECT_PENDING_BYTES \<and>
    (ReportFrame f \<in> set (plog s) \<longrightarrow> length f \<le> NOISE_MAX_MESSAGE_LENGTH) \<and>
    losses (plog s) \<le> 1"
proof -
  have i: "peer_inv s" using peer_connection.reachable_inv [OF refl assms] .
  then have c1: "\<exists>ys. takes (plog s) = writes (plog s) @ ys" "\<not> peer_closed s \<Longrightarrow> takes (plog s) = writes (plog s) @ qframes (out_queue s)"
    "losses (plog s) \<le> 1"
    by (auto simp: peer_inv_def fifo_def split: if_splits)
  have c2: "length (qframes (out_queue s)) \<le> MAX_DIRECT_PENDING_FRAMES \<and> qbytes (out_queue s) \<le> MAX_DIRECT_PENDING_BYTES"
    using i by (auto simp: peer_inv_def queue_bounded_def queue_ok_def)
  have c3: "ReportFrame f \<in> set (plog s) \<Longrightarrow> length f \<le> NOISE_MAX_MESSAGE_LENGTH"
    using i by (auto simp: peer_inv_def list_all_iff)
  show ?thesis using c1 c2 c3 by blast
qed

text \<open>A stack whose buffer is full until a tick has passed.\<close>

definition example_stack :: peer_stack where
  "example_stack = \<lparr>bufferedAmount = (\<lambda>l. if Tick 1 \<in> set l then 0 else DIRECT_BUFFER_HIGH), write_accepted = (\<lambda>l f. True),
     maxMessageSize = (\<lambda>l. None), connectionState = (\<lambda>l. Connected), selectedPair = (\<lambda>l. NoPair), localDescription = (\<lambda>l. None),
     pathPolicy = None\<rparr>"

definition example_channel :: channel_params where
  "example_channel = \<lparr>ch_label = ''dormouse'', ch_ordered = True, maxRetransmits = None, maxPacketLifeTime = None\<rparr>"

definition example_queued :: direct_peer where
  "example_queued = peer_send example_stack [2] (peer_send example_stack [1]
     (channel_open example_stack (adopt example_stack example_channel new_peer)))"

lemma example_queued_eq:
  "takes (plog example_queued) = [[1], [2]]" "writes (plog example_queued) = []" "\<not> peer_closed example_queued"
  by (simp_all add: example_queued_def example_stack_def example_channel_def adopt_def channel_open_def peer_send_def pathRefused_def
      armPathRecheck_def isOpen_def new_peer_def p_log_def queue_push_def new_queue_def DIRECT_CHANNEL_LABEL_def
      MAX_DIRECT_PENDING_FRAMES_def MAX_DIRECT_PENDING_BYTES_def DIRECT_BUFFER_HIGH_def takes_def writes_def)

lemma example_queued_run: "(peer_step example_stack)\<^sup>*\<^sup>* new_peer example_queued"
proof -
  let ?R = "(peer_step example_stack)\<^sup>*\<^sup>* new_peer"
  have "?R (adopt example_stack example_channel new_peer)" by (intro r_into_rtranclp pe_adopt)
  from rtranclp.rtrancl_into_rtrancl [of "peer_step example_stack", OF this pe_open]
  have "?R (channel_open example_stack (adopt example_stack example_channel new_peer))" .
  from rtranclp.rtrancl_into_rtrancl [of "peer_step example_stack", OF this pe_send [of _ _ "[1]"]]
  have "?R (peer_send example_stack [1] (channel_open example_stack (adopt example_stack example_channel new_peer)))" .
  from rtranclp.rtrancl_into_rtrancl [of "peer_step example_stack", OF this pe_send [of _ _ "[2]"]]
  show ?thesis unfolding example_queued_def .
qed

theorem peer_sends_in_order_witness: "qframes (out_queue example_queued) = [[1], [2]]"
  using peer_sends_in_order [OF example_queued_run] example_queued_eq by simp

text \<open>A closed peer connection is silent: whatever the stack reports later and whichever deadline
  expires, nothing more is reported to the endpoint and nothing more is written.\<close>

theorem closed_peer_silent:
  assumes "peer_closed s" "(peer_step S)\<^sup>*\<^sup>* s s'"
  shows "peer_closed s' \<and>
    filter report (plog s') = filter report (plog s) \<and>
    writes (plog s') = writes (plog s)"
  using closed_run [OF assms(2,1)] assms(1) by (simp_all add: visible_def)

theorem closed_peer_silent_witness:
  "filter report (plog (fail_peer example_stack ''x'' (close_peer_connection example_stack example_queued))) =
   filter report (plog (close_peer_connection example_stack example_queued))"
  using closed_peer_silent [of "close_peer_connection example_stack example_queued" example_stack,
      OF _ r_into_rtranclp [of "peer_step example_stack", OF pe_lost [of _ _ "''x''"]]]
  by (simp add: close_peer_connection_def Let_def)

definition pair_refused :: "peer_stack \<Rightarrow> peer_log \<Rightarrow> bool" where
  "pair_refused S l \<longleftrightarrow> (\<exists>P. pathPolicy S = Some P \<and> (selectedPair S l = Unreadable \<or>
     (\<exists>r. policy_refusal P (case selectedPair S l of Pair a b \<Rightarrow> Some (a, b) | _ \<Rightarrow> None) = Some r)))"

definition closed_by_policy :: "direct_peer \<Rightarrow> direct_peer \<Rightarrow> bool" where
  "closed_by_policy s s' \<longleftrightarrow> peer_closed s' \<and> (\<exists>r. filter report (plog s') = ReportViolation r True # filter report (plog s))"

lemma refuse_closes: "\<not> peer_closed s \<Longrightarrow> filter report (plog s) = l \<Longrightarrow> peer_closed (refuse S r s) \<and>
   filter report (plog (refuse S r s)) = ReportViolation r True # l"
proof -
  assume "\<not> peer_closed s" "filter report (plog s) = l"
  moreover have "peer_closed (close_peer_connection S s) \<and> filter report (plog (close_peer_connection S s)) = filter report (plog s)"
    by (simp add: close_peer_connection_def Let_def settleFlush_def)
  ultimately show ?thesis by (simp add: refuse_def)
qed

lemma pair_refused_closes:
  assumes "pair_refused S (plog s)" "\<not> peer_closed s"
  shows "\<exists>s'. pathRefused S (selectedPair S (plog s)) s = (s', True) \<and> closed_by_policy s s'"
proof -
  obtain P where P: "pathPolicy S = Some P" using assms(1) by (auto simp: pair_refused_def)
  show ?thesis
  proof (cases "selectedPair S (plog s) = Unreadable")
    case True
    then show ?thesis using P refuse_closes [OF assms(2) refl] by (auto simp: pathRefused_def closed_by_policy_def)
  next
    case False
    then obtain reason e where r: "policy_refusal P (case selectedPair S (plog s) of Pair a b \<Rightarrow> Some (a, b) | _ \<Rightarrow> None) = Some (reason, e)"
      using assms(1) P by (auto simp: pair_refused_def)
    let ?t = "s\<lparr>refused := e, refusedAddress := shownAddress (case (e, case selectedPair S (plog s) of Pair a b \<Rightarrow> Some (a, b) | _ \<Rightarrow> None) of
        (Some x, Some q) \<Rightarrow> end_address x q | _ \<Rightarrow> None)\<rparr>"
    have "pathRefused S (selectedPair S (plog s)) s = (refuse S reason ?t, True)"
      using P False r by (simp add: pathRefused_def Let_def)
    then show ?thesis using refuse_closes [of ?t "filter report (plog s)" S reason] assms(2) by (auto simp: closed_by_policy_def)
  qed
qed

text \<open>The path policy is enforced. While the policy refuses the selected pair, or the pair cannot be
  read, a channel that opens is not reported open, a frame that comes early is not delivered, and an
  open channel is closed at the next check; each time the session is told that the path was refused.\<close>

theorem path_policy_enforced:
  assumes "pair_refused S (plog s)" "\<not> peer_closed s"
  shows "(\<not> opened s \<longrightarrow> maxMessageSize S (plog s) = None \<longrightarrow> closed_by_policy s (channel_open S s)) \<and>
    (\<not> opened s \<longrightarrow> closed_by_policy s (onMessage S d s)) \<and>
    (opened s \<longrightarrow> connectionState S (plog s) = Connected \<longrightarrow> selectedPair S (plog s) \<noteq> NoPair \<longrightarrow> closed_by_policy s (recheckPath S s))"
proof -
  obtain s' where s': "pathRefused S (selectedPair S (plog s)) s = (s', True)" "closed_by_policy s s'"
    using pair_refused_closes [OF assms] by blast
  have "pathPolicy S \<noteq> None" using assms(1) by (auto simp: pair_refused_def)
  with s' assms(2) have c1: "\<not> opened s \<Longrightarrow> maxMessageSize S (plog s) = None \<Longrightarrow> closed_by_policy s (channel_open S s)"
    "\<not> opened s \<Longrightarrow> closed_by_policy s (onMessage S d s)"
    "opened s \<Longrightarrow> connectionState S (plog s) = Connected \<Longrightarrow> selectedPair S (plog s) \<noteq> NoPair \<Longrightarrow> closed_by_policy s (recheckPath S s)"
    by (auto simp: channel_open_def onMessage_def recheckPath_def)
  show ?thesis using c1 by blast
qed

definition strict_stack :: peer_stack where
  "strict_stack = example_stack\<lparr>pathPolicy := Some \<lparr>policy_describe = Some, policy_reported = (\<lambda>x. None),
     policy_refusal = (\<lambda>p. Some (''outside'', None))\<rparr>\<rparr>"

theorem path_policy_enforced_witness: "closed_by_policy new_peer (onMessage strict_stack (Binary [1]) new_peer)"
  using path_policy_enforced [of strict_stack new_peer "Binary [1]"] by (simp add: pair_refused_def strict_stack_def new_peer_def)

end
