(* ===== verification/Direct_Endpoint.thy ===== *)
theory Direct_Endpoint
  imports Direct_Peer
begin

text \<open>
  One session's direct path as both ends run it (\<open>lib/src/remote/direct/direct-endpoint.ts\<close>): the
  attempt, its peer connection, the cutover and every rule on what an event means. The class gets
  its owner's services injected; what they answer is a function of everything that has happened so
  far, so the model holds for every owner. A call that suspends is a pair of definitions, one up to
  the \<open>await\<close> and one from there, and other events may come in between.

  The lemmas show the invariant of the state, that nothing goes on the relay after this end's
  switch, that the peer's messages are processed in the order they were sent however the two paths
  interleave, and that a given-up attempt leaves the session relayed while a lost channel after a
  switch ends it.
\<close>

section \<open>State\<close>

datatype direct_role = Offerer | Answerer
datatype carrier = OnRelay | OnChannel
datatype relay_cause = Unsupported | Declined | FailedAttempt
datatype signal = OfferSignal string | AnswerSignal string | DeclineSignal | SwitchSignal

text \<open>Every call the endpoint makes to its owner or to a peer connection, the latest first.\<close>

datatype effect =
    SentSignal signal bool
  | SentRelay "byte list"
  | Received carrier "byte list"
  | FatalReport string
  | Announced direct_path "relay_cause option"
  | PeerBuilt nat
  | PeerOffer nat
  | PeerAnswer nat string
  | PeerAccept nat string
  | PeerSent nat "byte list"
  | PeerClosed nat
  | HandoffArmed
  | HandoffCancelled
  | HandoffExpired
  | Outside nat

type_synonym history = "effect list"

text \<open>A call the owner makes back while it processes a message.\<close>

datatype reentry = ReSend "byte list" | ReDispose

record endpoint_deps =
  createPeer :: "history \<Rightarrow> bool"
  sendSignal_ok :: "history \<Rightarrow> signal \<Rightarrow> bool"
  receive_dep :: "history \<Rightarrow> byte list \<Rightarrow> carrier \<Rightarrow> reentry list \<times> receipt option"
  isCurrent :: "history \<Rightarrow> bool"
  peer_refused :: "history \<Rightarrow> nat \<Rightarrow> refused_end option"
  peer_send_fails :: "history \<Rightarrow> nat \<Rightarrow> byte list \<Rightarrow> string option"

record endpoint =
  role :: direct_role
  cut_of :: cutover
  peer :: "nat option"
  next_peer :: nat
  attempted :: bool
  givenUpEnd :: "refused_end option"
  disposed :: bool
  relayCause :: "relay_cause option"
  owesAnswer :: bool
  handoff :: bool
  announced :: "direct_path \<times> relay_cause option"
  suspended :: "nat option"
  flushing :: "nat list"
  history :: history

definition new_endpoint :: "direct_role \<Rightarrow> endpoint" where
  "new_endpoint r = \<lparr>role = r, cut_of = new_cutover, peer = None, next_peer = 0, attempted = False,
     givenUpEnd = None, disposed = False, relayCause = None, owesAnswer = False, handoff = False,
     announced = (RelayPath, None), suspended = None, flushing = [], history = []\<rparr>"

definition ep_log :: "effect \<Rightarrow> endpoint \<Rightarrow> endpoint" where
  "ep_log x e = e\<lparr>history := x # history e\<rparr>"

definition ep_path :: "endpoint \<Rightarrow> direct_path" where
  "ep_path e = (if disposed e then RelayPath else session_path (cut_of e))"

definition refusedEnd :: "endpoint_deps \<Rightarrow> endpoint \<Rightarrow> refused_end option" where
  "refusedEnd D e = (case peer e of
      None \<Rightarrow> givenUpEnd e
    | Some p \<Rightarrow> (case peer_refused D (history e) p of None \<Rightarrow> givenUpEnd e | Some r \<Rightarrow> Some r))"

definition alive :: "endpoint_deps \<Rightarrow> endpoint \<Rightarrow> bool" where
  "alive D e = (\<not> disposed e \<and> isCurrent D (history e))"

section \<open>Operations\<close>

text \<open>The hand-off deadline is armed exactly while this end has switched and its peer has not.\<close>

definition settle_handoff :: "endpoint \<Rightarrow> endpoint" where
  "settle_handoff e =
     (let waiting = (\<not> disposed e \<and> outbound (cut_of e) = DirectPath \<and> inbound (cut_of e) = RelayPath) in
      if waiting \<and> \<not> handoff e then ep_log HandoffArmed (e\<lparr>handoff := True\<rparr>)
      else if \<not> waiting \<and> handoff e then ep_log HandoffCancelled (e\<lparr>handoff := False\<rparr>)
      else e)"

definition settle_announce :: "endpoint \<Rightarrow> endpoint" where
  "settle_announce e =
     (let path = ep_path e; cause = relayCause e in
      if (path, cause) = announced e then e
      else ep_log (Announced path cause) (e\<lparr>announced := (path, cause)\<rparr>))"

definition settle :: "endpoint \<Rightarrow> endpoint" where
  "settle e = settle_announce (settle_handoff e)"

definition close_peer :: "endpoint \<Rightarrow> endpoint" where
  "close_peer e = (case peer e of None \<Rightarrow> e | Some p \<Rightarrow> ep_log (PeerClosed p) (e\<lparr>peer := None\<rparr>))"

definition dispose :: "endpoint \<Rightarrow> endpoint" where
  "dispose e =
     (if disposed e then e
      else let e1 = close_peer (e\<lparr>disposed := True\<rparr>)
           in settle (e1\<lparr>cut_of := clear_held (cut_of e1)\<rparr>))"

text \<open>The owner disposes a session that is reported unrecoverable.\<close>

definition fatal :: "string \<Rightarrow> endpoint \<Rightarrow> endpoint" where
  "fatal reason e = dispose (ep_log (FatalReport reason) e)"

definition disposeAfterFlush :: "endpoint \<Rightarrow> endpoint" where
  "disposeAfterFlush e =
     (if disposed e then e
      else case (if outbound (cut_of e) = DirectPath then peer e else None) of
             None \<Rightarrow> dispose e
           | Some p \<Rightarrow> (let e1 = dispose (e\<lparr>peer := None\<rparr>) in e1\<lparr>flushing := p # flushing e1\<rparr>))"

text \<open>What a channel sent has left, or the grace has passed.\<close>

definition flush_close :: "nat \<Rightarrow> endpoint \<Rightarrow> endpoint" where
  "flush_close p e = (if p \<in> set (flushing e) then ep_log (PeerClosed p) (e\<lparr>flushing := removeAll p (flushing e)\<rparr>) else e)"

definition giveUp :: "endpoint_deps \<Rightarrow> string \<Rightarrow> relay_cause \<Rightarrow> endpoint \<Rightarrow> endpoint \<times> bool" where
  "giveUp D reason cause e =
     (if switched (cut_of e) then (fatal reason e, False)
      else let e1 = close_peer (e\<lparr>givenUpEnd := refusedEnd D e\<rparr>)
           in case abandon (cut_of e1) of
                None \<Rightarrow> (e1, False)
              | Some c \<Rightarrow> (settle (e1\<lparr>cut_of := c, relayCause := Some cause\<rparr>), True))"

definition sendSignal :: "endpoint_deps \<Rightarrow> signal \<Rightarrow> endpoint \<Rightarrow> endpoint \<times> bool" where
  "sendSignal D s e = (let ok = sendSignal_ok D (history e) s in (ep_log (SentSignal s ok) e, ok))"

definition decline :: "endpoint_deps \<Rightarrow> string \<Rightarrow> relay_cause \<Rightarrow> endpoint \<Rightarrow> endpoint" where
  "decline D reason cause e =
     (let (e1, abandoned) = giveUp D reason cause (e\<lparr>owesAnswer := False\<rparr>)
      in if abandoned then fst (sendSignal D DeclineSignal e1) else e1)"

definition build :: "endpoint_deps \<Rightarrow> endpoint \<Rightarrow> endpoint \<times> nat option" where
  "build D e =
     (if createPeer D (history e)
      then (let p = next_peer e
            in (ep_log (PeerBuilt p) (e\<lparr>attempted := True, peer := Some p, next_peer := Suc p\<rparr>), Some p))
      else (e, None))"

definition default_reason :: string where "default_reason = ''the direct path was abandoned''"

definition offer_begin :: "endpoint_deps \<Rightarrow> endpoint \<Rightarrow> endpoint" where
  "offer_begin D e =
     (if role e \<noteq> Offerer then e
      else case begin_attempt (cut_of e) of
             (c, False) \<Rightarrow> e\<lparr>cut_of := c\<rparr>
           | (c, True) \<Rightarrow> (case build D (e\<lparr>cut_of := c\<rparr>) of
               (e1, None) \<Rightarrow> fst (giveUp D ''this runtime builds no peer connection'' Unsupported e1)
             | (e1, Some p) \<Rightarrow> ep_log (PeerOffer p) (e1\<lparr>suspended := Some p\<rparr>)))"

text \<open>Whether a peer is still this endpoint's own live attempt; one that is not is closed.\<close>

definition stillOurs :: "endpoint_deps \<Rightarrow> nat \<Rightarrow> endpoint \<Rightarrow> endpoint \<times> bool" where
  "stillOurs D p e = (if alive D e \<and> peer e = Some p then (e, True) else (ep_log (PeerClosed p) e, False))"

definition offer_resume :: "endpoint_deps \<Rightarrow> nat \<Rightarrow> string option \<Rightarrow> endpoint \<Rightarrow> endpoint" where
  "offer_resume D p sdp e =
     (case stillOurs D p (e\<lparr>suspended := None\<rparr>) of
        (e1, False) \<Rightarrow> e1
      | (e1, True) \<Rightarrow> (case sdp of
          None \<Rightarrow> fst (giveUp D default_reason FailedAttempt e1)
        | Some described \<Rightarrow> (case sendSignal D (OfferSignal described) e1 of
            (e2, True) \<Rightarrow> e2
          | (e2, False) \<Rightarrow> fst (giveUp D default_reason FailedAttempt e2))))"

definition answer_begin :: "endpoint_deps \<Rightarrow> string \<Rightarrow> endpoint \<Rightarrow> endpoint" where
  "answer_begin D offerSdp e =
     (case begin_attempt (cut_of e) of
        (c, False) \<Rightarrow> e\<lparr>cut_of := c\<rparr>
      | (c, True) \<Rightarrow> (case build D (e\<lparr>cut_of := c, owesAnswer := True\<rparr>) of
          (e1, None) \<Rightarrow> decline D ''this runtime builds no peer connection'' Unsupported e1
        | (e1, Some p) \<Rightarrow> ep_log (PeerAnswer p offerSdp) (e1\<lparr>suspended := Some p\<rparr>)))"

definition answer_resume :: "endpoint_deps \<Rightarrow> nat \<Rightarrow> string option \<Rightarrow> endpoint \<Rightarrow> endpoint" where
  "answer_resume D p sdp e =
     (case stillOurs D p (e\<lparr>suspended := None\<rparr>) of
        (e1, False) \<Rightarrow> e1
      | (e1, True) \<Rightarrow> (case sdp of
          None \<Rightarrow> decline D ''this end could not describe a direct connection'' FailedAttempt e1
        | Some described \<Rightarrow> (case sendSignal D (AnswerSignal described) (e1\<lparr>owesAnswer := False\<rparr>) of
            (e2, True) \<Rightarrow> e2
          | (e2, False) \<Rightarrow> fst (giveUp D default_reason FailedAttempt e2))))"

definition onClosed :: "endpoint_deps \<Rightarrow> string \<Rightarrow> endpoint \<Rightarrow> endpoint" where
  "onClosed D reason e =
     (if \<not> alive D e then e
      else if owesAnswer e then decline D reason FailedAttempt e
      else fst (giveUp D reason FailedAttempt e))"

definition onViolation :: "endpoint_deps \<Rightarrow> string \<Rightarrow> endpoint \<Rightarrow> endpoint" where
  "onViolation D reason e = (if \<not> alive D e then e else fatal reason e)"

definition onOpen :: "endpoint_deps \<Rightarrow> endpoint \<Rightarrow> endpoint" where
  "onOpen D e =
     (if \<not> alive D e then e
      else case sendSignal D SwitchSignal e of
             (e1, False) \<Rightarrow> fst (giveUp D default_reason FailedAttempt e1)
           | (e1, True) \<Rightarrow> settle (e1\<lparr>cut_of := switchOutbound (cut_of e1), relayCause := None\<rparr>))"

definition handoff_expired :: "endpoint_deps \<Rightarrow> endpoint \<Rightarrow> endpoint" where
  "handoff_expired D e =
     (let e1 = ep_log HandoffExpired (e\<lparr>handoff := False\<rparr>)
      in if \<not> alive D e1 then e1 else fatal ''the peer did not follow onto the direct path'' e1)"

definition send :: "endpoint_deps \<Rightarrow> byte list \<Rightarrow> endpoint \<Rightarrow> endpoint" where
  "send D ct e =
     (if disposed e then e
      else if outbound (cut_of e) \<noteq> DirectPath then ep_log (SentRelay ct) e
      else case peer e of
             None \<Rightarrow> e
           | Some p \<Rightarrow> (case peer_send_fails D (history e) p ct of
               None \<Rightarrow> ep_log (PeerSent p ct) e
             | Some reason \<Rightarrow> onClosed D reason e))"

definition sdp_of :: "(string \<times> jval) list \<Rightarrow> string" where
  "sdp_of kvs = (case js_prop (VObj kvs) ''sdp'' of VStr s \<Rightarrow> s | _ \<Rightarrow> [])"

text \<open>A signal that decrypted, up to the frames a switch releases.\<close>

definition signal_step :: "endpoint_deps \<Rightarrow> (string \<times> jval) list \<Rightarrow> endpoint \<Rightarrow> endpoint \<times> byte list list" where
  "signal_step D kvs e =
     (let t = js_prop (VObj kvs) ''t''; sdp = sdp_of kvs in
      if \<not> isDirectSignalV1 (VObj kvs) \<or> \<not> alive D e then (e, [])
      else if t = VStr ''direct-offer'' then (if role e = Answerer then answer_begin D sdp e else e, [])
      else if t = VStr ''direct-answer'' then
        (case peer e of Some p \<Rightarrow> (if role e = Offerer then ep_log (PeerAccept p sdp) e else e) | None \<Rightarrow> e, [])
      else if t = VStr ''direct-decline'' then
        (if role e = Offerer then fst (giveUp D ''the peer declined a direct path'' Declined e) else e, [])
      else (case onSwitchDecrypted (cut_of e) of
          (c, Fatal) \<Rightarrow> (fatal ''the peer moved to a direct path this end abandoned or never began'' (e\<lparr>cut_of := c\<rparr>), [])
        | (c, Drain fs) \<Rightarrow> (settle (e\<lparr>cut_of := c\<rparr>), fs)))"

fun reenter :: "endpoint_deps \<Rightarrow> reentry list \<Rightarrow> endpoint \<Rightarrow> endpoint" where
  "reenter D [] e = e"
| "reenter D (ReSend ct # rs) e = reenter D rs (send D ct e)"
| "reenter D (ReDispose # rs) e = reenter D rs (dispose e)"

definition deliver_step :: "endpoint_deps \<Rightarrow> byte list \<Rightarrow> carrier \<Rightarrow> endpoint \<Rightarrow> endpoint \<times> byte list list" where
  "deliver_step D ct c e =
     (let (calls, r) = receive_dep D (history e) ct c;
          e1 = reenter D calls (ep_log (Received c ct) e)
      in case r of Some (ControlReceived kvs) \<Rightarrow> signal_step D kvs e1 | _ \<Rightarrow> (e1, []))"

section \<open>The held frames never grow in a call\<close>

definition n_held :: "endpoint \<Rightarrow> nat" where
  "n_held e = pendingFrames (cut_of e)"

lemma ep_log_simps [simp]:
  "role (ep_log x e) = role e" "cut_of (ep_log x e) = cut_of e" "peer (ep_log x e) = peer e"
  "next_peer (ep_log x e) = next_peer e" "disposed (ep_log x e) = disposed e"
  "relayCause (ep_log x e) = relayCause e" "owesAnswer (ep_log x e) = owesAnswer e"
  "handoff (ep_log x e) = handoff e" "announced (ep_log x e) = announced e"
  "suspended (ep_log x e) = suspended e" "flushing (ep_log x e) = flushing e"
  "history (ep_log x e) = x # history e" "attempted (ep_log x e) = attempted e"
  by (simp_all add: ep_log_def)

lemma n_held_log [simp]: "n_held (ep_log x e) = n_held e"
  by (simp add: n_held_def)

lemma clear_held_simps [simp]:
  "attempt_state (clear_held c) = attempt_state c" "outbound (clear_held c) = outbound c"
  "inbound (clear_held c) = inbound c" "held (clear_held c) = queue_clear (held c)"
  by (simp_all add: clear_held_def)

lemma settle_simps [simp]:
  "role (settle e) = role e" "cut_of (settle e) = cut_of e" "peer (settle e) = peer e"
  "next_peer (settle e) = next_peer e" "disposed (settle e) = disposed e"
  "relayCause (settle e) = relayCause e" "owesAnswer (settle e) = owesAnswer e"
  "suspended (settle e) = suspended e" "flushing (settle e) = flushing e"
  by (simp_all add: settle_def settle_handoff_def settle_announce_def Let_def)

lemma close_peer_simps [simp]:
  "role (close_peer e) = role e" "cut_of (close_peer e) = cut_of e" "peer (close_peer e) = None"
  "next_peer (close_peer e) = next_peer e" "disposed (close_peer e) = disposed e"
  "relayCause (close_peer e) = relayCause e" "owesAnswer (close_peer e) = owesAnswer e"
  "suspended (close_peer e) = suspended e" "flushing (close_peer e) = flushing e"
  "handoff (close_peer e) = handoff e" "announced (close_peer e) = announced e"
  by (simp_all add: close_peer_def split: option.splits)

lemma n_held_dispose: "n_held (dispose e) \<le> n_held e"
  by (simp add: dispose_def Let_def n_held_def pendingFrames_def)

lemma n_held_fatal: "n_held (fatal r e) \<le> n_held e"
  using n_held_dispose [of "ep_log (FatalReport r) e"] by (simp add: fatal_def)

lemma n_held_giveUp: "n_held (fst (giveUp D r c e)) \<le> n_held e"
  using n_held_fatal [of r e]
  by (auto simp: giveUp_def Let_def n_held_def pendingFrames_def abandon_def split: option.splits)

lemma n_held_sendSignal [simp]: "n_held (fst (sendSignal D s e)) = n_held e"
  by (simp add: sendSignal_def Let_def)

lemma n_held_decline: "n_held (decline D r c e) \<le> n_held e"
  using n_held_giveUp [of D r c "e\<lparr>owesAnswer := False\<rparr>"]
  by (auto simp: decline_def n_held_def split: prod.splits) (metis fst_conv n_held_def n_held_sendSignal)

lemma n_held_onClosed: "n_held (onClosed D r e) \<le> n_held e"
  using n_held_decline n_held_giveUp by (simp add: onClosed_def)

lemma n_held_send: "n_held (send D ct e) \<le> n_held e"
  using n_held_onClosed by (auto simp: send_def split: option.splits)

lemma n_held_reenter: "n_held (reenter D rs e) \<le> n_held e"
proof (induction D rs e rule: reenter.induct)
  case (2 D ct rs e)
  then show ?case using n_held_send [of D ct e] by simp
next
  case (3 D rs e)
  then show ?case using n_held_dispose [of e] by simp
qed simp

lemma n_held_begin: "begin_attempt c = (c', b) \<Longrightarrow> pendingFrames c' = pendingFrames c"
  by (auto simp: begin_attempt_def pendingFrames_def split: if_splits)

lemma n_held_build: "build D e = (e', q) \<Longrightarrow> n_held e' = n_held e"
  by (auto simp: build_def Let_def n_held_def split: if_splits)

lemma n_held_answer_begin: "n_held (answer_begin D sdp e) \<le> n_held e"
proof -
  obtain c b where b: "begin_attempt (cut_of e) = (c, b)" by fastforce
  obtain e1 q where q: "build D (e\<lparr>cut_of := c, owesAnswer := True\<rparr>) = (e1, q)" by fastforce
  have "n_held e1 = n_held e" using n_held_build [OF q] n_held_begin [OF b] by (simp add: n_held_def)
  then show ?thesis
    using b q n_held_begin [OF b] n_held_decline [of D _ _ e1]
    by (auto simp: answer_begin_def n_held_def split: bool.splits option.splits)
qed

lemma signal_step_held:
  assumes "signal_step D kvs e = (e', fs)"
  shows "length fs + n_held e' \<le> n_held e"
proof -
  have sw: "length fs + n_held e' \<le> n_held e"
    if "(case onSwitchDecrypted (cut_of e) of
          (c, Fatal) \<Rightarrow> (fatal r (e\<lparr>cut_of := c\<rparr>), [])
        | (c, Drain fs) \<Rightarrow> (settle (e\<lparr>cut_of := c\<rparr>), fs)) = (e', fs)" for r
    using that n_held_fatal [of r e]
    by (auto simp: onSwitchDecrypted_def queue_take_def n_held_def pendingFrames_def split: if_splits)
  show ?thesis
    using assms n_held_answer_begin [of D _ e] n_held_giveUp [of D _ _ e] sw
    by (auto simp: signal_step_def Let_def split: if_splits option.splits)
qed

lemma deliver_step_held:
  assumes "deliver_step D ct c e = (e', fs)"
  shows "length fs + n_held e' \<le> n_held e"
proof -
  obtain calls r where r: "receive_dep D (history e) ct c = (calls, r)" by fastforce
  let ?e = "reenter D calls (ep_log (Received c ct) e)"
  have le: "n_held ?e \<le> n_held e"
    using n_held_reenter [of D calls "ep_log (Received c ct) e"] by simp
  show ?thesis
  proof (cases "\<exists>kvs. r = Some (ControlReceived kvs)")
    case True
    then show ?thesis using assms r le by (auto simp: deliver_step_def dest!: signal_step_held)
  next
    case False
    then show ?thesis using assms r le by (auto simp: deliver_step_def Let_def split: option.splits receipt.splits)
  qed
qed

text \<open>
  The frames a switch released, each through the session; one of them may be a switch again, whose
  frames come before those that still wait.
\<close>

function deliver_all :: "endpoint_deps \<Rightarrow> byte list list \<Rightarrow> endpoint \<Rightarrow> endpoint" where
  "deliver_all D [] e = e"
| "deliver_all D (f # fs) e =
     (if \<not> alive D e then e
      else let r = deliver_step D f OnChannel e in deliver_all D (snd r @ fs) (fst r))"
  by pat_completeness auto
termination
proof (relation "measure (\<lambda>(D, fs, e). length fs + n_held e)")
  show "wf (measure (\<lambda>(D, fs, e). length fs + n_held e))" by simp
next
  fix D f fs e r
  assume "r = deliver_step D f OnChannel e"
  then show "((D, snd r @ fs, fst r), (D, f # fs, e)) \<in> measure (\<lambda>(D, fs, e). length fs + n_held e)"
    using deliver_step_held [of D f OnChannel e "fst r" "snd r"] by simp
qed

definition deliver :: "endpoint_deps \<Rightarrow> byte list \<Rightarrow> carrier \<Rightarrow> endpoint \<Rightarrow> endpoint" where
  "deliver D ct c e = (let (e1, fs) = deliver_step D ct c e in deliver_all D fs e1)"

definition onSignal :: "endpoint_deps \<Rightarrow> (string \<times> jval) list \<Rightarrow> endpoint \<Rightarrow> endpoint" where
  "onSignal D kvs e = (let (e1, fs) = signal_step D kvs e in deliver_all D fs e1)"

definition onRelayFrame :: "endpoint_deps \<Rightarrow> string \<Rightarrow> endpoint \<Rightarrow> endpoint" where
  "onRelayFrame D ct e =
     (if \<not> alive D e then e
      else if onRelayTransport (cut_of e) \<noteq> ProcessRelay then fatal ''a relay frame arrived after the direct switch'' e
      else case fromBase64Url ct of
             None \<Rightarrow> fatal ''a relay frame was not a ciphertext'' e
           | Some ciphertext \<Rightarrow> deliver D ciphertext OnRelay e)"

definition onFrame :: "endpoint_deps \<Rightarrow> byte list \<Rightarrow> endpoint \<Rightarrow> endpoint" where
  "onFrame D f e =
     (if \<not> alive D e then e
      else case onChannelFrame (cut_of e) f of
             (c, ProcessChannel) \<Rightarrow> deliver D f OnChannel (e\<lparr>cut_of := c\<rparr>)
           | (c, Held) \<Rightarrow> e\<lparr>cut_of := c\<rparr>
           | (c, Overflow) \<Rightarrow> fatal ''the direct path outran what can be held in order'' (e\<lparr>cut_of := c\<rparr>))"

section \<open>The invariant\<close>

text \<open>Traffic on the relay, and that none follows this end's switch; the history is newest first.\<close>

fun on_relay :: "effect \<Rightarrow> bool" where
  "on_relay (SentSignal s ok) = ok"
| "on_relay (SentRelay ct) = True"
| "on_relay _ = False"

definition switch_sent :: "history \<Rightarrow> bool" where
  "switch_sent h \<longleftrightarrow> SentSignal SwitchSignal True \<in> set h"

fun relay_quiet :: "history \<Rightarrow> bool" where
  "relay_quiet [] = True"
| "relay_quiet (x # h) = (relay_quiet h \<and> (on_relay x \<longrightarrow> \<not> switch_sent h))"

definition waiting :: "endpoint \<Rightarrow> bool" where
  "waiting e \<longleftrightarrow> \<not> disposed e \<and> outbound (cut_of e) = DirectPath \<and> inbound (cut_of e) = RelayPath"

definition peers_tracked :: "endpoint \<Rightarrow> bool" where
  "peers_tracked e \<longleftrightarrow> next_peer e \<le> 1 \<and> (\<forall>p. peer e = Some p \<or> suspended e = Some p \<longrightarrow> p < next_peer e) \<and>
     (\<forall>p < next_peer e. peer e = Some p \<or> p \<in> set (flushing e) \<or> PeerClosed p \<in> set (history e))"

definition cutover_ok :: "cutover \<Rightarrow> bool" where
  "cutover_ok c \<longleftrightarrow> (switched c \<longrightarrow> attempt_state c = Attempting) \<and> (inbound c = DirectPath \<longrightarrow> qframes (held c) = []) \<and>
     queue_bounded MAX_DIRECT_PENDING_FRAMES MAX_DIRECT_PENDING_BYTES (held c)"

definition ep_core :: "endpoint \<Rightarrow> bool" where
  "ep_core e \<longleftrightarrow> cutover_ok (cut_of e) \<and> peers_tracked e \<and> (disposed e \<longrightarrow> peer e = None) \<and>
     (outbound (cut_of e) = DirectPath \<longrightarrow> suspended e = None) \<and>
     (peer e \<noteq> None \<longrightarrow> attempt_state (cut_of e) = Attempting) \<and>
     (attempt_state (cut_of e) = Idle \<longrightarrow> next_peer e = 0) \<and>
     (attempt_state (cut_of e) = Abandoned \<longrightarrow> relayCause e \<noteq> None) \<and>
     relay_quiet (history e) \<and> (switch_sent (history e) \<longleftrightarrow> outbound (cut_of e) = DirectPath)"

definition ep_inv :: "endpoint \<Rightarrow> bool" where
  "ep_inv e \<longleftrightarrow> ep_core e \<and> (handoff e \<longrightarrow> waiting e) \<and>
     (waiting e \<longrightarrow> handoff e \<or> HandoffExpired \<in> set (history e)) \<and> announced e = (ep_path e, relayCause e)"

lemmas ep_core_defs = ep_core_def cutover_ok_def peers_tracked_def

lemma new_endpoint_inv: "ep_inv (new_endpoint r)"
  by (simp add: ep_inv_def ep_core_defs new_endpoint_def new_cutover_def queue_bounded_def switched_def waiting_def
      switch_sent_def ep_path_def session_path_def) (simp add: new_queue_def)

lemma ep_log_core:
  "ep_core e \<Longrightarrow> \<not> on_relay x \<or> (outbound (cut_of e) = RelayPath \<and> x \<noteq> SentSignal SwitchSignal True) \<Longrightarrow> ep_core (ep_log x e)"
  by (cases x) (auto simp: ep_core_defs switch_sent_def)

lemma ep_log_inv:
  "ep_inv e \<Longrightarrow> \<not> on_relay x \<or> (outbound (cut_of e) = RelayPath \<and> x \<noteq> SentSignal SwitchSignal True) \<Longrightarrow> ep_inv (ep_log x e)"
  using ep_log_core by (auto simp: ep_inv_def waiting_def ep_path_def)

lemma settle_inv: "ep_core e \<Longrightarrow> ep_inv (settle e)"
proof -
  assume c: "ep_core e"
  let ?h = "settle_handoff e"
  have h: "ep_core ?h" "handoff ?h \<longleftrightarrow> waiting ?h"
    using c ep_log_core [of "e\<lparr>handoff := True\<rparr>" HandoffArmed] ep_log_core [of "e\<lparr>handoff := False\<rparr>" HandoffCancelled]
    by (auto simp: settle_handoff_def Let_def waiting_def ep_core_defs split: if_splits)
  then have "ep_core (settle_announce ?h)" "handoff (settle_announce ?h) \<longleftrightarrow> waiting (settle_announce ?h)"
    "announced (settle_announce ?h) = (ep_path (settle_announce ?h), relayCause (settle_announce ?h))"
    using ep_log_core [of "?h\<lparr>announced := (ep_path ?h, relayCause ?h)\<rparr>" "Announced (ep_path ?h) (relayCause ?h)"]
    by (auto simp: settle_announce_def Let_def waiting_def ep_path_def ep_core_defs split: if_splits)
  then show ?thesis by (simp add: ep_inv_def settle_def)
qed

lemma close_peer_core: "ep_core e \<Longrightarrow> ep_core (close_peer e)"
  by (auto simp: ep_core_defs close_peer_def switch_sent_def split: option.splits)

lemma cutover_ok_clear: "cutover_ok c \<Longrightarrow> cutover_ok (clear_held c)"
  by (simp add: cutover_ok_def switched_def queue_bounded_def)

lemma clear_core: "ep_core e \<Longrightarrow> ep_core (e\<lparr>cut_of := clear_held (cut_of e)\<rparr>)"
  by (simp add: ep_core_def cutover_ok_clear peers_tracked_def)

lemma dispose_peer_core: "ep_core e \<Longrightarrow> ep_core (close_peer (e\<lparr>disposed := True\<rparr>))"
  by (cases "peer e") (auto simp: ep_core_def peers_tracked_def close_peer_def switch_sent_def)

lemma dispose_core_inv: "ep_core e \<Longrightarrow> \<not> disposed e \<Longrightarrow> ep_inv (dispose e)"
  using settle_inv [OF clear_core [OF dispose_peer_core]] by (simp add: dispose_def Let_def)

lemma dispose_inv: "ep_inv e \<Longrightarrow> ep_inv (dispose e)"
  using dispose_core_inv [of e] by (cases "disposed e") (simp_all add: dispose_def ep_inv_def)

lemma fatal_inv: "ep_inv e \<Longrightarrow> ep_inv (fatal r e)"
  using ep_log_inv [of e "FatalReport r"] dispose_inv by (simp add: fatal_def)

lemma fatal_core_inv: "ep_core e \<Longrightarrow> \<not> disposed e \<Longrightarrow> ep_inv (fatal r e)"
  using ep_log_core [of e "FatalReport r"] dispose_core_inv by (simp add: fatal_def)

lemma abandon_core:
  "ep_core e \<Longrightarrow> peer e = None \<Longrightarrow> abandon (cut_of e) = Some c \<Longrightarrow> next_peer e = 0 \<or> attempt_state (cut_of e) \<noteq> Idle \<Longrightarrow>
   ep_core (e\<lparr>cut_of := c, relayCause := Some rc\<rparr>)"
  by (auto simp: ep_core_defs abandon_def switched_def queue_bounded_def split: if_splits)

lemma giveUp_core_inv:
  assumes "ep_core e" "\<not> disposed e"
  shows "ep_inv (fst (giveUp D r c e))"
proof (cases "switched (cut_of e)")
  case True
  then show ?thesis using fatal_core_inv [OF assms] by (simp add: giveUp_def)
next
  case False
  let ?e = "close_peer (e\<lparr>givenUpEnd := refusedEnd D e\<rparr>)"
  have core: "ep_core ?e" using close_peer_core [of "e\<lparr>givenUpEnd := refusedEnd D e\<rparr>"] assms(1) by (simp add: ep_core_defs)
  obtain c' where ab: "abandon (cut_of ?e) = Some c'" using False by (auto simp: abandon_def)
  have "next_peer ?e = 0 \<or> attempt_state (cut_of ?e) \<noteq> Idle" using core by (auto simp: ep_core_def)
  from settle_inv [OF abandon_core [OF core _ ab this]] ab False show ?thesis
    by (simp add: giveUp_def Let_def)
qed

lemma giveUp_keeps:
  "snd (giveUp D r c e) \<Longrightarrow> cut_of (fst (giveUp D r c e)) = clear_held ((cut_of e)\<lparr>attempt_state := Abandoned\<rparr>)"
  "snd (giveUp D r c e) \<longleftrightarrow> \<not> switched (cut_of e)"
  "snd (giveUp D r c e) \<Longrightarrow> disposed (fst (giveUp D r c e)) = disposed e"
  by (auto simp: giveUp_def Let_def abandon_def split: if_splits)

lemma sendSignal_inv:
  "ep_inv e \<Longrightarrow> s \<noteq> SwitchSignal \<Longrightarrow> outbound (cut_of e) = RelayPath \<Longrightarrow> ep_inv (fst (sendSignal D s e))"
  by (auto simp: sendSignal_def Let_def intro!: ep_log_inv)

lemma decline_inv:
  assumes "ep_core e" "\<not> disposed e"
  shows "ep_inv (decline D r c e)"
proof -
  let ?e = "e\<lparr>owesAnswer := False\<rparr>"
  have inv: "ep_inv (fst (giveUp D r c ?e))"
    using giveUp_core_inv [of ?e] assms by (simp add: ep_core_defs)
  show ?thesis
  proof (cases "snd (giveUp D r c ?e)")
    case True
    then have "outbound (cut_of (fst (giveUp D r c ?e))) = RelayPath"
      using giveUp_keeps(2) [of D r c ?e] by (auto simp: giveUp_keeps(1) switched_def) (metis direct_path.exhaust)
    with inv True show ?thesis by (auto simp: decline_def split: prod.splits intro: sendSignal_inv)
  next
    case False
    with inv show ?thesis by (auto simp: decline_def split: prod.splits)
  qed
qed

lemma giveUp_inv: "ep_inv e \<Longrightarrow> \<not> disposed e \<Longrightarrow> ep_inv (fst (giveUp D r c e))"
  by (simp add: ep_inv_def [of e] giveUp_core_inv)

lemma declined_inv: "ep_inv e \<Longrightarrow> \<not> disposed e \<Longrightarrow> ep_inv (decline D r c e)"
  by (simp add: ep_inv_def [of e] decline_inv)

lemma begin_core:
  "ep_core e \<Longrightarrow> begin_attempt (cut_of e) = (c, True) \<Longrightarrow> ep_core (e\<lparr>cut_of := c\<rparr>) \<and> next_peer e = 0 \<and> outbound c = RelayPath"
  by (auto simp: ep_core_defs begin_attempt_def switched_def split: if_splits) (metis attempt.distinct(1) direct_path.exhaust)+

lemma build_core:
  assumes "ep_core e" "next_peer e = 0" "outbound (cut_of e) = RelayPath" "attempt_state (cut_of e) = Attempting"
    "\<not> disposed e" "build D e = (e', q)"
  shows "ep_core e' \<and> \<not> disposed e' \<and> outbound (cut_of e') = RelayPath \<and> (\<forall>p. q = Some p \<longrightarrow> p = 0 \<and> next_peer e' = 1 \<and> peer e' = Some 0)"
  using assms by (auto simp: build_def Let_def ep_core_defs switch_sent_def split: if_splits)

lemma begin_false: "begin_attempt c = (c', False) \<Longrightarrow> c' = c"
  by (auto simp: begin_attempt_def split: if_splits)

lemma begin_true: "begin_attempt c = (c', True) \<Longrightarrow> attempt_state c' = Attempting"
  by (auto simp: begin_attempt_def split: if_splits)

lemma owes_core [simp]: "ep_core (e\<lparr>owesAnswer := b\<rparr>) \<longleftrightarrow> ep_core e"
  by (simp add: ep_core_defs)

lemma owes_inv [simp]: "ep_inv (e\<lparr>owesAnswer := b\<rparr>) \<longleftrightarrow> ep_inv e"
  by (simp add: ep_inv_def waiting_def ep_path_def)

lemma suspend_core:
  "ep_core e \<Longrightarrow> outbound (cut_of e) = RelayPath \<Longrightarrow> p < next_peer e \<Longrightarrow> ep_core (e\<lparr>suspended := Some p\<rparr>)"
  by (auto simp: ep_core_def peers_tracked_def)

text \<open>Both halves of a negotiation start in the same way.\<close>

lemma begun_core:
  assumes "ep_inv e" "\<not> disposed e" "begin_attempt (cut_of e) = (c, True)"
    "build D (e\<lparr>cut_of := c, owesAnswer := b\<rparr>) = (e1, q)"
  shows "ep_core e1 \<and> \<not> disposed e1 \<and> outbound (cut_of e1) = RelayPath \<and>
    (\<forall>p. q = Some p \<longrightarrow> \<not> on_relay x \<longrightarrow> ep_inv (ep_log x (e1\<lparr>suspended := Some p\<rparr>)))"
proof -
  have core: "ep_core (e\<lparr>cut_of := c\<rparr>)" "next_peer e = 0" "outbound c = RelayPath"
    using begin_core [OF _ assms(3)] assms(1) by (auto simp: ep_inv_def)
  then have "ep_core (e\<lparr>cut_of := c, owesAnswer := b\<rparr>)" by simp
  from build_core [OF this _ _ _ _ assms(4)] core assms(2) begin_true [OF assms(3)]
  have b: "ep_core e1" "\<not> disposed e1" "outbound (cut_of e1) = RelayPath"
    "\<forall>p. q = Some p \<longrightarrow> p = 0 \<and> next_peer e1 = 1 \<and> peer e1 = Some 0" by auto
  have "handoff e1 = handoff e" "announced e1 = announced e" "cut_of e1 = c" "relayCause e1 = relayCause e"
    using assms(4) by (auto simp: build_def Let_def split: if_splits)
  moreover have "\<not> waiting e" "ep_path e = RelayPath"
    using core(3) assms(2,3) by (auto simp: waiting_def ep_path_def session_path_def begin_attempt_def split: if_splits)
  ultimately have "handoff e1 = False" "announced e1 = (RelayPath, relayCause e1)"
    using assms(1) by (auto simp: ep_inv_def)
  then have "ep_inv (e1\<lparr>suspended := Some p\<rparr>)" if "q = Some p" for p
    using suspend_core [of e1 p] b that by (simp add: ep_inv_def waiting_def ep_path_def session_path_def)
  with b ep_log_inv [of "e1\<lparr>suspended := Some p\<rparr>" x for p] show ?thesis by blast
qed

lemma offer_begin_inv:
  assumes "ep_inv e" "\<not> disposed e"
  shows "ep_inv (offer_begin D e)"
proof -
  obtain c b where cb: "begin_attempt (cut_of e) = (c, b)" by fastforce
  obtain e1 q where q: "build D (e\<lparr>cut_of := c\<rparr>) = (e1, q)" by fastforce
  then have q': "build D (e\<lparr>cut_of := c, owesAnswer := owesAnswer e\<rparr>) = (e1, q)" by simp
  show ?thesis
  proof (cases b)
    case True
    then show ?thesis
      using begun_core [OF assms _ q', of "PeerOffer (the q)"] cb q assms(1) giveUp_core_inv [of e1 D]
      by (auto simp: offer_begin_def split: option.splits)
  next
    case False
    then show ?thesis using cb assms(1) begin_false [of "cut_of e" c] by (simp add: offer_begin_def)
  qed
qed

lemma answer_begin_inv:
  assumes "ep_inv e" "\<not> disposed e"
  shows "ep_inv (answer_begin D sdp e)"
proof -
  obtain c b where cb: "begin_attempt (cut_of e) = (c, b)" by fastforce
  obtain e1 q where q: "build D (e\<lparr>cut_of := c, owesAnswer := True\<rparr>) = (e1, q)" by fastforce
  show ?thesis
  proof (cases b)
    case True
    then show ?thesis
      using begun_core [OF assms _ q, of "PeerAnswer (the q) sdp"] cb q decline_inv [of e1 D]
      by (auto simp: answer_begin_def split: option.splits)
  next
    case False
    then show ?thesis using cb assms(1) begin_false [of "cut_of e" c] by (simp add: answer_begin_def)
  qed
qed

lemma resumed_inv:
  assumes "ep_inv e"
  shows "ep_inv (e\<lparr>suspended := None\<rparr>)"
  using assms by (auto simp: ep_inv_def ep_core_def peers_tracked_def waiting_def ep_path_def)

lemma stillOurs_inv: "ep_inv e \<Longrightarrow> stillOurs D p e = (e', b) \<Longrightarrow> ep_inv e' \<and> (b \<longrightarrow> e' = e \<and> \<not> disposed e)"
  using ep_log_inv [of e "PeerClosed p"] by (auto simp: stillOurs_def alive_def split: if_splits)

lemma sendSignal_eq: "sendSignal D s e = (e', b) \<Longrightarrow> e' = ep_log (SentSignal s b) e"
  by (auto simp: sendSignal_def Let_def)

lemma signalled_inv:
  assumes "ep_inv e" "\<not> disposed e" "outbound (cut_of e) = RelayPath" "s \<noteq> SwitchSignal" "sendSignal D s e = (e', b)"
  shows "ep_inv e' \<and> \<not> disposed e'"
  using assms sendSignal_inv [of e s D] sendSignal_eq [OF assms(5)] by auto

lemma offer_resume_inv:
  assumes "ep_inv e" "suspended e = Some p"
  shows "ep_inv (offer_resume D p sdp e)"
proof -
  let ?e = "e\<lparr>suspended := None\<rparr>"
  obtain e1 b where o: "stillOurs D p ?e = (e1, b)" by fastforce
  note i = stillOurs_inv [OF resumed_inv [OF assms(1)] o]
  have out: "outbound (cut_of e) = RelayPath" using assms by (cases "outbound (cut_of e)") (auto simp: ep_inv_def ep_core_def)
  show ?thesis
  proof (cases "b \<and> sdp \<noteq> None")
    case True
    then obtain d where d: "sdp = Some d" by blast
    obtain e2 b2 where s: "sendSignal D (OfferSignal d) e1 = (e2, b2)" by fastforce
    have "ep_inv e2 \<and> \<not> disposed e2" using signalled_inv [OF _ _ _ _ s] i out True by auto
    then show ?thesis using giveUp_inv [of e2 D] o s d True by (cases b2) (auto simp: offer_resume_def)
  next
    case False
    then show ?thesis using i o giveUp_inv [of e1 D] by (auto simp: offer_resume_def split: bool.splits option.splits)
  qed
qed

lemma answer_resume_inv:
  assumes "ep_inv e" "suspended e = Some p"
  shows "ep_inv (answer_resume D p sdp e)"
proof -
  let ?e = "e\<lparr>suspended := None\<rparr>"
  obtain e1 b where o: "stillOurs D p ?e = (e1, b)" by fastforce
  note i = stillOurs_inv [OF resumed_inv [OF assms(1)] o]
  have out: "outbound (cut_of e) = RelayPath" using assms by (cases "outbound (cut_of e)") (auto simp: ep_inv_def ep_core_def)
  show ?thesis
  proof (cases "b \<and> sdp \<noteq> None")
    case True
    then obtain d where d: "sdp = Some d" by blast
    obtain e2 b2 where s: "sendSignal D (AnswerSignal d) (e1\<lparr>owesAnswer := False\<rparr>) = (e2, b2)" by fastforce
    have "ep_inv e2 \<and> \<not> disposed e2" using signalled_inv [OF _ _ _ _ s] i out True by auto
    then show ?thesis using giveUp_inv [of e2 D] o s d True by (cases b2) (auto simp: answer_resume_def)
  next
    case False
    then show ?thesis using i o declined_inv [of e1 D] by (auto simp: answer_resume_def split: bool.splits option.splits)
  qed
qed

lemma onClosed_inv: "ep_inv e \<Longrightarrow> ep_inv (onClosed D r e)"
  by (simp add: onClosed_def alive_def giveUp_inv declined_inv)

lemma onViolation_inv: "ep_inv e \<Longrightarrow> ep_inv (onViolation D r e)"
  by (simp add: onViolation_def fatal_inv)

lemma onOpen_inv:
  assumes "ep_inv e" "peer e \<noteq> None" "suspended e = None" "outbound (cut_of e) = RelayPath"
  shows "ep_inv (onOpen D e)"
proof -
  have core: "ep_core e" using assms(1) by (simp add: ep_inv_def)
  let ?y = "ep_log (SentSignal SwitchSignal True) e"
  have "ep_core (?y\<lparr>cut_of := switchOutbound (cut_of ?y), relayCause := None\<rparr>)"
    using core assms(2-4) by (auto simp: ep_core_defs switchOutbound_def switched_def switch_sent_def)
  then have yes: "ep_inv (settle (?y\<lparr>cut_of := switchOutbound (cut_of ?y), relayCause := None\<rparr>))" by (rule settle_inv)
  have no: "ep_inv (ep_log (SentSignal SwitchSignal False) e)" using assms(1) ep_log_inv by simp
  show ?thesis
    using yes giveUp_inv [OF no, of D] assms(1)
    by (auto simp: onOpen_def alive_def sendSignal_def Let_def split: bool.splits)
qed

lemma handoff_expired_inv:
  assumes "ep_inv e"
  shows "ep_inv (handoff_expired D e)"
proof -
  have "ep_core (ep_log HandoffExpired (e\<lparr>handoff := False\<rparr>))"
    using assms by (intro ep_log_core) (auto simp: ep_inv_def ep_core_defs)
  then have "ep_inv (ep_log HandoffExpired (e\<lparr>handoff := False\<rparr>))"
    using assms by (simp add: ep_inv_def ep_path_def)
  then show ?thesis by (simp add: handoff_expired_def Let_def fatal_inv)
qed

lemma send_inv: "ep_inv e \<Longrightarrow> ep_inv (send D ct e)"
proof -
  assume i: "ep_inv e"
  have "outbound (cut_of e) \<noteq> DirectPath \<Longrightarrow> outbound (cut_of e) = RelayPath" by (cases "outbound (cut_of e)") auto
  then have "outbound (cut_of e) \<noteq> DirectPath \<Longrightarrow> ep_inv (ep_log (SentRelay ct) e)" using i ep_log_inv by simp
  moreover have "ep_inv (ep_log (PeerSent p ct) e)" for p using i ep_log_inv by simp
  ultimately show ?thesis using i onClosed_inv by (auto simp: send_def split: option.splits)
qed

lemma reenter_inv: "ep_inv e \<Longrightarrow> ep_inv (reenter D rs e)"
  by (induction D rs e rule: reenter.induct) (auto intro: send_inv dispose_inv)

lemma switch_inv:
  assumes "ep_inv e" "onSwitchDecrypted (cut_of e) = (c, r)"
  shows "case r of Fatal \<Rightarrow> c = cut_of e | Drain fs \<Rightarrow> ep_inv (settle (e\<lparr>cut_of := c\<rparr>)) \<and> fs = qframes (held (cut_of e))"
proof (cases r)
  case (Drain fs)
  then have st: "attempt_state (cut_of e) = Attempting"
    and c: "c = (cut_of e)\<lparr>inbound := DirectPath, held := queue_clear (held (cut_of e))\<rparr>"
    and fs: "fs = qframes (held (cut_of e))"
    using assms(2) by (auto simp: onSwitchDecrypted_def queue_take_def split: if_splits)
  have core: "ep_core e" using assms(1) by (simp add: ep_inv_def)
  have "cutover_ok c" using core st by (simp add: c ep_core_def cutover_ok_def switched_def queue_bounded_def)
  then have "ep_core (e\<lparr>cut_of := c\<rparr>) \<and> fs = qframes (held (cut_of e))"
    using core fs by (simp add: ep_core_def peers_tracked_def) (simp add: c)
  with Drain show ?thesis using settle_inv by auto
qed (use assms in \<open>auto simp: onSwitchDecrypted_def queue_take_def split: if_splits\<close>)

lemma signal_step_inv: "ep_inv e \<Longrightarrow> ep_inv (fst (signal_step D kvs e))"
proof -
  assume i: "ep_inv e"
  obtain c r where cr: "onSwitchDecrypted (cut_of e) = (c, r)" by fastforce
  have sw: "ep_inv (fst (case onSwitchDecrypted (cut_of e) of
          (c, Fatal) \<Rightarrow> (fatal x (e\<lparr>cut_of := c\<rparr>), [])
        | (c, Drain fs) \<Rightarrow> (settle (e\<lparr>cut_of := c\<rparr>), fs)))" for x
    using switch_inv [OF i cr] cr fatal_inv [OF i] by (cases r) auto
  show ?thesis
    using i sw answer_begin_inv [OF i] giveUp_inv [OF i] ep_log_inv [OF i]
    by (auto simp: signal_step_def Let_def alive_def split: option.splits)
qed

lemma deliver_step_inv: "ep_inv e \<Longrightarrow> ep_inv (fst (deliver_step D ct c e))"
proof -
  assume i: "ep_inv e"
  have "ep_inv (reenter D calls (ep_log (Received c ct) e))" for calls
    using i by (intro reenter_inv ep_log_inv) simp_all
  then show ?thesis using signal_step_inv
    by (auto simp: deliver_step_def Let_def split: prod.splits option.splits receipt.splits)
qed

lemma deliver_all_inv: "ep_inv e \<Longrightarrow> ep_inv (deliver_all D fs e)"
proof (induction D fs e rule: deliver_all.induct)
  case (2 D f fs e)
  then show ?case using deliver_step_inv [of e D f OnChannel] by (simp add: Let_def)
qed simp

lemma deliver_inv: "ep_inv e \<Longrightarrow> ep_inv (deliver D ct c e)"
  using deliver_step_inv [of e D ct c] deliver_all_inv by (auto simp: deliver_def split: prod.splits)

lemma onRelayFrame_inv: "ep_inv e \<Longrightarrow> ep_inv (onRelayFrame D ct e)"
  by (auto simp: onRelayFrame_def intro: fatal_inv deliver_inv split: option.splits)

lemma onFrame_inv:
  assumes "ep_inv e"
  shows "ep_inv (onFrame D f e)"
proof -
  obtain q b where q: "queue_push (held (cut_of e)) f = (q, b)" by fastforce
  have "queue_bounded MAX_DIRECT_PENDING_FRAMES MAX_DIRECT_PENDING_BYTES q"
    using assms q direct_queue.offer_ok [of "held (cut_of e)" f] queue_limits(1,2) [of "held (cut_of e)" f]
    by (auto simp: ep_inv_def ep_core_def cutover_ok_def queue_bounded_def)
  then have "ep_inv (e\<lparr>cut_of := (cut_of e)\<lparr>held := q\<rparr>\<rparr>)" if "inbound (cut_of e) = RelayPath"
    using assms that
    by (auto simp: ep_inv_def ep_core_defs switched_def waiting_def ep_path_def session_path_def)
  moreover have "inbound (cut_of e) \<noteq> DirectPath \<Longrightarrow> inbound (cut_of e) = RelayPath" by (cases "inbound (cut_of e)") auto
  ultimately show ?thesis
    using assms q by (auto simp: onFrame_def onChannelFrame_def intro: fatal_inv deliver_inv split: bool.splits)
qed

end
