(* ===== verification/Direct_Session.thy ===== *)
theory Direct_Session
  imports Direct_Endpoint
begin

text \<open>
  The direct endpoint as a state machine, and what it guarantees: the invariant of every reachable
  endpoint, silence on the relay after this end's switch, the order of the peer's messages over both
  paths, and what giving up means before and after a switch.
\<close>

section \<open>Steps\<close>

text \<open>
  What the environment guarantees appears as the premises of the steps: a suspended negotiation
  resumes once, a closed peer connection reports nothing, a channel opens once and only after the
  description has left, and the owner makes no offer on a disposed endpoint.
\<close>

inductive ep_step :: "endpoint_deps \<Rightarrow> endpoint \<Rightarrow> endpoint \<Rightarrow> bool" for D where
  st_offer: "\<not> disposed e \<Longrightarrow> ep_step D e (offer_begin D e)"
| st_offer_resume: "suspended e = Some p \<Longrightarrow> role e = Offerer \<Longrightarrow> ep_step D e (offer_resume D p sdp e)"
| st_answer_resume: "suspended e = Some p \<Longrightarrow> role e = Answerer \<Longrightarrow> ep_step D e (answer_resume D p sdp e)"
| st_relay: "ep_step D e (onRelayFrame D ct e)"
| st_frame: "peer e \<noteq> None \<Longrightarrow> ep_step D e (onFrame D f e)"
| st_open: "peer e = Some p \<Longrightarrow> PeerClosed p \<notin> set (history e) \<Longrightarrow> suspended e = None \<Longrightarrow>
    outbound (cut_of e) = RelayPath \<Longrightarrow> ep_step D e (onOpen D e)"
| st_closed: "peer e \<noteq> None \<Longrightarrow> ep_step D e (onClosed D r e)"
| st_violation: "peer e \<noteq> None \<Longrightarrow> ep_step D e (onViolation D r e)"
| st_expired: "handoff e \<Longrightarrow> ep_step D e (handoff_expired D e)"
| st_send: "ep_step D e (send D ct e)"
| st_dispose: "ep_step D e (dispose e)"
| st_flush: "ep_step D e (disposeAfterFlush e)"
| st_flushed: "ep_step D e (flush_close p e)"
| st_outside: "ep_step D e (ep_log (Outside k) e)"

lemma disposeAfterFlush_inv:
  assumes "ep_inv e"
  shows "ep_inv (disposeAfterFlush e)"
proof (cases "disposed e \<or> outbound (cut_of e) \<noteq> DirectPath \<or> peer e = None")
  case True
  then show ?thesis using dispose_inv [OF assms] assms by (auto simp: disposeAfterFlush_def)
next
  case False
  then obtain p where p: "peer e = Some p" by blast
  have core: "ep_core e" using assms by (simp add: ep_inv_def)
  let ?e = "e\<lparr>peer := None, flushing := p # flushing e\<rparr>"
  have c: "ep_core ?e" using core p by (auto simp: ep_core_def peers_tracked_def)
  have "dispose (e\<lparr>peer := None\<rparr>)\<lparr>flushing := p # flushing (dispose (e\<lparr>peer := None\<rparr>))\<rparr> = dispose ?e"
    using False by (simp add: dispose_def Let_def close_peer_def settle_def settle_handoff_def settle_announce_def ep_path_def ep_log_def)
  then show ?thesis
    using dispose_core_inv [OF c] False p by (simp add: disposeAfterFlush_def Let_def)
qed

lemma flush_close_inv:
  assumes "ep_inv e"
  shows "ep_inv (flush_close p e)"
proof -
  let ?e = "ep_log (PeerClosed p) (e\<lparr>flushing := removeAll p (flushing e)\<rparr>)"
  have core: "ep_core e" using assms by (simp add: ep_inv_def)
  have "ep_core ?e" using core by (auto simp: ep_core_def peers_tracked_def switch_sent_def)
  then have "ep_inv ?e" using assms by (simp add: ep_inv_def waiting_def ep_path_def)
  then show ?thesis using assms by (simp add: flush_close_def)
qed

lemma ep_step_inv: "ep_step D e e' \<Longrightarrow> ep_inv e \<Longrightarrow> ep_inv e'"
proof (induction rule: ep_step.induct)
  case (st_open e p)
  then show ?case by (auto intro: onOpen_inv)
qed (auto intro: offer_begin_inv offer_resume_inv answer_resume_inv onRelayFrame_inv onFrame_inv onClosed_inv
    onViolation_inv handoff_expired_inv send_inv dispose_inv disposeAfterFlush_inv flush_close_inv ep_log_inv)

interpretation direct_endpoint: step_system "\<lambda>e. e = new_endpoint r" "ep_step D" ep_inv for r D
  by unfold_locales (auto simp: new_endpoint_inv intro: ep_step_inv)

section \<open>What is received, and in which order\<close>

fun received :: "history \<Rightarrow> byte list list" where
  "received [] = []"
| "received (x # h) = received h @ (case x of Received c ct \<Rightarrow> [ct] | _ \<Rightarrow> [])"

text \<open>What the order depends on: whether the session is over, the cutover, and the messages read.\<close>

definition view :: "endpoint \<Rightarrow> bool \<times> cutover \<times> byte list list" where
  "view e = (disposed e, cut_of e, received (history e))"

definition switch_message :: "(string \<times> jval) list" where
  "switch_message = [(''v'', VNum (JFin 1)), (''t'', VStr ''direct-switch'')]"

fun is_send :: "reentry \<Rightarrow> bool" where
  "is_send (ReSend ct) = True"
| "is_send ReDispose = False"

definition plain :: "receipt \<Rightarrow> bool" where
  "plain r \<longleftrightarrow> (\<forall>kvs. r = ControlReceived kvs \<longrightarrow> \<not> isDirectSignalV1 (VObj kvs))"

text \<open>
  A session that stays up: its owner keeps it, the channel takes what it is given, and every message
  of the peer decrypts, the switch to a switch and the others to something else. The owner may send
  while it processes a message.
\<close>

definition healthy :: "endpoint_deps \<Rightarrow> byte list set \<Rightarrow> byte list \<Rightarrow> bool" where
  "healthy D msgs sw \<longleftrightarrow> (\<forall>h. isCurrent D h) \<and> (\<forall>h p ct. peer_send_fails D h p ct = None) \<and>
     (\<forall>h c. \<exists>calls. receive_dep D h sw c = (calls, Some (ControlReceived switch_message)) \<and> list_all is_send calls) \<and>
     (\<forall>h c. \<forall>x \<in> msgs. \<exists>calls r. receive_dep D h x c = (calls, Some r) \<and> plain r \<and> list_all is_send calls)"

lemma view_log: "received [x] = [] \<Longrightarrow> view (ep_log x e) = view e"
  by (simp add: view_def)

lemma view_settle [simp]: "view (settle e) = view e"
  by (simp add: view_def settle_def settle_handoff_def settle_announce_def Let_def)

lemma view_send: "healthy D M sw \<Longrightarrow> view (send D ct e) = view e"
  by (auto simp: send_def healthy_def view_def split: option.splits)

lemma view_reenter: "healthy D M sw \<Longrightarrow> list_all is_send calls \<Longrightarrow> view (reenter D calls e) = view e"
proof (induction D calls e rule: reenter.induct)
  case (2 D ct rs e)
  then show ?case using view_send [of D M sw ct e] by simp
qed auto

lemma deliver_step_plain:
  assumes "healthy D M sw" "x \<in> M"
  shows "snd (deliver_step D x c e) = []"
    "view (fst (deliver_step D x c e)) = (disposed e, cut_of e, received (history e) @ [x])"
proof -
  obtain calls r where r: "receive_dep D (history e) x c = (calls, Some r)" "plain r" "list_all is_send calls"
    using assms by (auto simp: healthy_def) blast
  have v: "view (reenter D calls (ep_log (Received c x) e)) = (disposed e, cut_of e, received (history e) @ [x])"
    using view_reenter [OF assms(1) r(3)] by (simp add: view_def)
  have "deliver_step D x c e = (reenter D calls (ep_log (Received c x) e), [])"
    using r by (auto simp: deliver_step_def plain_def signal_step_def Let_def split: receipt.splits)
  with v show "snd (deliver_step D x c e) = []"
    "view (fst (deliver_step D x c e)) = (disposed e, cut_of e, received (history e) @ [x])" by auto
qed

lemma alive_healthy: "healthy D M sw \<Longrightarrow> alive D e \<longleftrightarrow> \<not> disposed e"
  by (simp add: alive_def healthy_def)

lemma deliver_all_plain:
  assumes "healthy D M sw" "set fs \<subseteq> M" "\<not> disposed e"
  shows "view (deliver_all D fs e) = (False, cut_of e, received (history e) @ fs)"
  using assms(2,3)
proof (induction fs arbitrary: e)
  case Nil
  then show ?case by (simp add: view_def)
next
  case (Cons x fs)
  note p = deliver_step_plain [OF assms(1), of x OnChannel e]
  have "view (deliver_all D fs (fst (deliver_step D x OnChannel e))) =
      (False, cut_of (fst (deliver_step D x OnChannel e)), received (history (fst (deliver_step D x OnChannel e))) @ fs)"
    using Cons p by (intro Cons.IH) (auto simp: view_def)
  with Cons.prems p show ?case by (auto simp: view_def alive_healthy [OF assms(1)] Let_def)
qed

lemma deliver_plain:
  assumes "healthy D M sw" "x \<in> M"
  shows "view (deliver D x c e) = (disposed e, cut_of e, received (history e) @ [x])"
  using deliver_step_plain [OF assms, of c e] by (auto simp: deliver_def split: prod.splits)

lemma switch_message_signal: "isDirectSignalV1 (VObj switch_message)"
  by (simp add: isDirectSignalV1_def switch_message_def)

lemma deliver_switch:
  assumes "healthy D M sw" "\<not> disposed e" "attempt_state (cut_of e) = Attempting"
    "set (qframes (held (cut_of e))) \<subseteq> M"
  shows "view (deliver D sw c e) =
    (False, (cut_of e)\<lparr>inbound := DirectPath, held := queue_clear (held (cut_of e))\<rparr>,
     received (history e) @ sw # qframes (held (cut_of e)))"
proof -
  obtain calls where r: "receive_dep D (history e) sw c = (calls, Some (ControlReceived switch_message))" "list_all is_send calls"
    using assms(1) by (auto simp: healthy_def) blast
  let ?e = "reenter D calls (ep_log (Received c sw) e)"
  have v: "disposed ?e = False" "cut_of ?e = cut_of e" "received (history ?e) = received (history e) @ [sw]"
    using view_reenter [OF assms(1) r(2), of "ep_log (Received c sw) e"] assms(2) by (auto simp: view_def)
  let ?c = "(cut_of e)\<lparr>inbound := DirectPath, held := queue_clear (held (cut_of e))\<rparr>"
  have sw: "js_prop (VObj switch_message) ''t'' = VStr ''direct-switch''" by (simp add: switch_message_def)
  have "deliver_step D sw c e = signal_step D switch_message ?e" using r by (simp add: deliver_step_def)
  also have "\<dots> = (settle (?e\<lparr>cut_of := ?c\<rparr>), qframes (held (cut_of e)))"
    unfolding signal_step_def Let_def sw
    using v assms(3) alive_healthy [OF assms(1), of ?e] switch_message_signal
    by (simp add: onSwitchDecrypted_def queue_take_def)
  finally have d: "deliver_step D sw c e = (settle (?e\<lparr>cut_of := ?c\<rparr>), qframes (held (cut_of e)))" .
  have "received (history (settle (?e\<lparr>cut_of := ?c\<rparr>))) = received (history e) @ [sw]"
    using view_settle [of "?e\<lparr>cut_of := ?c\<rparr>"] v(3) by (simp add: view_def)
  then show ?thesis
    using deliver_all_plain [OF assms(1,4), of "settle (?e\<lparr>cut_of := ?c\<rparr>)"] v(1) by (simp add: deliver_def d)
qed

section \<open>Two paths, one order\<close>

datatype arrival = RelayArrival "byte list" | ChannelArrival "byte list"

fun arrive :: "endpoint_deps \<Rightarrow> arrival \<Rightarrow> endpoint \<Rightarrow> endpoint" where
  "arrive D (RelayArrival ct) e = onRelayFrame D (toBase64Url ct) e"
| "arrive D (ChannelArrival f) e = onFrame D f e"

lemma arrivals_after_switch:
  assumes "healthy D M sw" "set fs \<subseteq> M" "\<not> disposed e" "inbound (cut_of e) = DirectPath"
  shows "view (fold (arrive D) (map ChannelArrival fs) e) = (False, cut_of e, received (history e) @ fs)"
  using assms(2-4)
proof (induction fs arbitrary: e)
  case Nil
  then show ?case by (simp add: view_def)
next
  case (Cons f fs)
  have "view (onFrame D f e) = (False, cut_of e, received (history e) @ [f])"
    using Cons.prems deliver_plain [OF assms(1), of f OnChannel "e\<lparr>cut_of := cut_of e\<rparr>"] alive_healthy [OF assms(1)]
    by (simp add: onFrame_def onChannelFrame_def)
  then show ?case using Cons.IH [of "onFrame D f e"] Cons.prems by (simp add: view_def)
qed

lemma hold_frame:
  assumes "healthy D M sw" "\<not> disposed e" "inbound (cut_of e) = RelayPath" "queue_push (held (cut_of e)) f = (q, True)"
  shows "onFrame D f e = e\<lparr>cut_of := (cut_of e)\<lparr>held := q\<rparr>\<rparr>"
  using assms alive_healthy [OF assms(1)] by (simp add: onFrame_def onChannelFrame_def)

text \<open>What is still to come fits the queue.\<close>

definition room_for :: "frame_queue \<Rightarrow> byte list list \<Rightarrow> bool" where
  "room_for q fs \<longleftrightarrow> length (qframes q) + length fs \<le> maxFrames q \<and> qbytes q + sum_list (map length fs) \<le> maxBytes q"

lemma room_push: "room_for q (f # fs) \<Longrightarrow> \<exists>q'. queue_push q f = (q', True) \<and> room_for q' fs \<and> qframes q' = qframes q @ [f]"
  by (auto simp: room_for_def queue_push_def)

lemma relay_arrival:
  assumes "healthy D M sw" "\<not> disposed e" "inbound (cut_of e) = RelayPath"
  shows "onRelayFrame D (toBase64Url ct) e = deliver D ct OnRelay e"
  using assms alive_healthy [OF assms(1)] by (simp add: onRelayFrame_def onRelayTransport_def from_to_base64)

lemma arrivals_in_order:
  assumes "healthy D M sw"
    and "evs \<in> shuffles (map RelayArrival (ms @ [sw])) (map ChannelArrival fs)"
    and "set ms \<union> set fs \<union> set (qframes (held (cut_of e))) \<subseteq> M"
    and "\<not> disposed e" "attempt_state (cut_of e) = Attempting" "inbound (cut_of e) = RelayPath"
    and "room_for (held (cut_of e)) fs"
  shows "\<exists>c. view (fold (arrive D) evs e) = (False, c, received (history e) @ ms @ sw # qframes (held (cut_of e)) @ fs) \<and>
    inbound c = DirectPath"
  using assms(2-7)
proof (induction evs arbitrary: e ms fs)
  case Nil
  then show ?case by simp
next
  case (Cons ev evs)
  note ok = Cons.prems(3-6)
  from Cons.prems(1) consider
      (relay) m ms' where "ms = m # ms'" "ev = RelayArrival m" "evs \<in> shuffles (map RelayArrival (ms' @ [sw])) (map ChannelArrival fs)"
    | (switch) "ms = []" "ev = RelayArrival sw" "evs \<in> shuffles [] (map ChannelArrival fs)"
    | (channel) f fs' where "fs = f # fs'" "ev = ChannelArrival f" "evs \<in> shuffles (map RelayArrival (ms @ [sw])) (map ChannelArrival fs')"
    by (cases ms; cases fs) (auto simp: Cons_in_shuffles_iff)
  then show ?case
  proof cases
    case relay
    let ?e = "onRelayFrame D (toBase64Url m) e"
    have v: "view ?e = (False, cut_of e, received (history e) @ [m])"
      using relay_arrival [OF assms(1) ok(1,3)] deliver_plain [OF assms(1)] Cons.prems(2) relay(1) ok(1) by simp
    then show ?thesis using Cons.IH [OF relay(3), of ?e] Cons.prems relay by (simp add: view_def)
  next
    case switch
    let ?e = "onRelayFrame D (toBase64Url sw) e"
    have v: "view ?e = (False, (cut_of e)\<lparr>inbound := DirectPath, held := queue_clear (held (cut_of e))\<rparr>,
        received (history e) @ sw # qframes (held (cut_of e)))"
      using relay_arrival [OF assms(1) ok(1,3)] deliver_switch [OF assms(1) ok(1,2)] Cons.prems(2) by simp
    have "evs = map ChannelArrival fs" using switch(3) by simp
    then show ?thesis using arrivals_after_switch [OF assms(1), of fs ?e] v Cons.prems(2) switch by (simp add: view_def)
  next
    case channel
    obtain q where q: "queue_push (held (cut_of e)) f = (q, True)" "room_for q fs'" "qframes q = qframes (held (cut_of e)) @ [f]"
      using room_push Cons.prems(6) channel(1) by blast
    have e: "onFrame D f e = e\<lparr>cut_of := (cut_of e)\<lparr>held := q\<rparr>\<rparr>" using hold_frame [OF assms(1) ok(1,3) q(1)] .
    show ?thesis using Cons.IH [OF channel(3), of "onFrame D f e"] Cons.prems channel q by (simp add: view_def e)
  qed
qed

lemma relay_quiet_split: "relay_quiet (later @ s # earlier) \<Longrightarrow> s = SentSignal SwitchSignal True \<Longrightarrow> x \<in> set later \<Longrightarrow> \<not> on_relay x"
  by (induction later) (auto simp: switch_sent_def)

section \<open>Properties\<close>

text \<open>C11: In every reachable endpoint: at most one peer connection was ever built, and none is open after
  the session is disposed but one that is flushing its last message; the held frames stay within both
  bounds; the hand-off deadline runs exactly while this end waits for the peer's switch, unless it has
  expired; the owner was told the current path and cause; and an attempt given up says why.\<close>

theorem direct_endpoint_invariant:
  assumes "(ep_step D)\<^sup>*\<^sup>* (new_endpoint r) e"
  shows "next_peer e \<le> 1 \<and>
    (disposed e \<longrightarrow> p < next_peer e \<longrightarrow> p \<in> set (flushing e) \<or> PeerClosed p \<in> set (history e)) \<and>
    pendingFrames (cut_of e) \<le> MAX_DIRECT_PENDING_FRAMES \<and> pendingBytes (cut_of e) \<le> MAX_DIRECT_PENDING_BYTES \<and>
    (handoff e \<longrightarrow> \<not> disposed e \<and> outbound (cut_of e) = DirectPath \<and> inbound (cut_of e) = RelayPath) \<and>
    (\<not> disposed e \<longrightarrow> outbound (cut_of e) = DirectPath \<longrightarrow> inbound (cut_of e) = RelayPath \<longrightarrow>
      handoff e \<or> HandoffExpired \<in> set (history e)) \<and>
    announced e = (ep_path e, relayCause e) \<and>
    (attempt_state (cut_of e) = Abandoned \<longrightarrow> relayCause e \<noteq> None \<and> \<not> switched (cut_of e))"
proof -
  have i: "ep_inv e" using direct_endpoint.reachable_inv [OF refl assms] .
  then have core: "ep_core e" by (simp add: ep_inv_def)
  have c1: "next_peer e \<le> 1" using core by (simp add: ep_core_def peers_tracked_def)
  have c2: "disposed e \<Longrightarrow> p < next_peer e \<Longrightarrow> p \<in> set (flushing e) \<or> PeerClosed p \<in> set (history e)"
    using core by (auto simp: ep_core_def peers_tracked_def)
  have c3: "pendingFrames (cut_of e) \<le> MAX_DIRECT_PENDING_FRAMES \<and> pendingBytes (cut_of e) \<le> MAX_DIRECT_PENDING_BYTES"
    using core by (auto simp: ep_core_def cutover_ok_def queue_bounded_def queue_ok_def pendingFrames_def pendingBytes_def)
  have c4: "handoff e \<Longrightarrow> \<not> disposed e \<and> outbound (cut_of e) = DirectPath \<and> inbound (cut_of e) = RelayPath"
    "\<not> disposed e \<Longrightarrow> outbound (cut_of e) = DirectPath \<Longrightarrow> inbound (cut_of e) = RelayPath \<Longrightarrow>
      handoff e \<or> HandoffExpired \<in> set (history e)"
    "announced e = (ep_path e, relayCause e)"
    using i by (auto simp: ep_inv_def waiting_def)
  have c5: "attempt_state (cut_of e) = Abandoned \<Longrightarrow> relayCause e \<noteq> None \<and> \<not> switched (cut_of e)"
    using core by (auto simp: ep_core_def cutover_ok_def)
  show ?thesis using c1 c2 c3 c4 c5 by blast
qed

text \<open>An owner that keeps the session, sends every signal and reads a message as application data
  unless it is the byte 1, which stands for the switch.\<close>

definition example_deps :: endpoint_deps where
  "example_deps = \<lparr>createPeer = (\<lambda>h. True), sendSignal_ok = (\<lambda>h s. True),
     receive_dep = (\<lambda>h ct c. ([ReSend [9]], Some (if ct = [1] then ControlReceived switch_message else AppReceived [ct]))),
     isCurrent = (\<lambda>h. True), peer_refused = (\<lambda>h p. None), peer_send_fails = (\<lambda>h p ct. None)\<rparr>"

definition example_begun :: endpoint where
  "example_begun = offer_begin example_deps (new_endpoint Offerer)"

definition example_open :: endpoint where
  "example_open = onOpen example_deps (offer_resume example_deps 0 (Some ''v=0'') example_begun)"

lemma example_begun_eq:
  "example_begun = (new_endpoint Offerer)\<lparr>cut_of := new_cutover\<lparr>attempt_state := Attempting\<rparr>, attempted := True, peer := Some 0,
     next_peer := 1, suspended := Some 0, history := [PeerOffer 0, PeerBuilt 0]\<rparr>"
  by (simp add: example_begun_def example_deps_def offer_begin_def new_endpoint_def begin_attempt_def new_cutover_def
      build_def ep_log_def Let_def)

lemma example_resumed_eq:
  "offer_resume example_deps 0 (Some ''v=0'') example_begun =
   example_begun\<lparr>suspended := None, history := [SentSignal (OfferSignal ''v=0'') True, PeerOffer 0, PeerBuilt 0]\<rparr>"
  by (simp add: example_begun_eq offer_resume_def stillOurs_def alive_def sendSignal_def example_deps_def new_endpoint_def
      ep_log_def Let_def)

lemma example_open_eq:
  "example_open = example_begun\<lparr>suspended := None, cut_of := new_cutover\<lparr>attempt_state := Attempting, outbound := DirectPath\<rparr>,
     handoff := True, history := [HandoffArmed, SentSignal SwitchSignal True, SentSignal (OfferSignal ''v=0'') True, PeerOffer 0, PeerBuilt 0]\<rparr>"
  unfolding example_open_def example_resumed_eq
  by (simp add: example_begun_eq onOpen_def alive_def sendSignal_def example_deps_def new_endpoint_def ep_log_def Let_def
      switchOutbound_def settle_def settle_handoff_def settle_announce_def ep_path_def session_path_def new_cutover_def)

lemma example_run: "(ep_step example_deps)\<^sup>*\<^sup>* (new_endpoint Offerer) example_open"
proof -
  have "ep_step example_deps (new_endpoint Offerer) example_begun"
    unfolding example_begun_def by (rule st_offer) (simp add: new_endpoint_def)
  moreover have "ep_step example_deps example_begun (offer_resume example_deps 0 (Some ''v=0'') example_begun)"
    by (rule st_offer_resume) (simp_all add: example_begun_eq new_endpoint_def)
  moreover have "ep_step example_deps (offer_resume example_deps 0 (Some ''v=0'') example_begun) example_open"
    unfolding example_open_def by (rule st_open [of _ 0]) (simp_all add: example_resumed_eq, simp_all add: example_begun_eq new_cutover_def)
  ultimately show ?thesis by (blast intro: rtranclp.rtrancl_into_rtrancl rtranclp.rtrancl_refl)
qed

theorem direct_endpoint_invariant_witness:
  "(ep_step example_deps)\<^sup>*\<^sup>* (new_endpoint Offerer) example_open \<and> handoff example_open \<and> inbound (cut_of example_open) = RelayPath"
  using direct_endpoint_invariant [OF example_run] example_run by (simp add: example_open_eq)

text \<open>C6: Once this end has put its switch on the relay, nothing else of the session goes there: no
  ciphertext and no signal follows it in the history of any reachable endpoint.\<close>

theorem relay_silent_after_switch:
  assumes "(ep_step D)\<^sup>*\<^sup>* (new_endpoint r) e"
    and "history e = later @ SentSignal SwitchSignal True # earlier"
  shows "SentRelay ct \<notin> set later \<and>
    SentSignal s True \<notin> set later"
proof -
  have "relay_quiet (history e)"
    using direct_endpoint.reachable_inv [OF refl assms(1)] by (simp add: ep_inv_def ep_core_def)
  then have "\<not> on_relay x" if "x \<in> set later" for x
    using relay_quiet_split [of later "SentSignal SwitchSignal True" earlier x] that assms(2) by simp
  then have c1: "SentRelay ct \<notin> set later" "SentSignal s True \<notin> set later" by force+
  show ?thesis using c1 by blast
qed

theorem relay_silent_after_switch_witness:
  "history (send example_deps [7] example_open) = [PeerSent 0 [7], HandoffArmed] @ SentSignal SwitchSignal True #
     [SentSignal (OfferSignal ''v=0'') True, PeerOffer 0, PeerBuilt 0] \<and>
   SentRelay [7] \<notin> set [PeerSent 0 [7], HandoffArmed]"
proof -
  have run: "(ep_step example_deps)\<^sup>*\<^sup>* (new_endpoint Offerer) (send example_deps [7] example_open)"
    using example_run st_send by (rule rtranclp.rtrancl_into_rtrancl)
  have h: "history (send example_deps [7] example_open) = [PeerSent 0 [7], HandoffArmed] @ SentSignal SwitchSignal True #
     [SentSignal (OfferSignal ''v=0'') True, PeerOffer 0, PeerBuilt 0]"
    by (simp add: send_def example_open_eq) (simp add: example_begun_eq example_deps_def new_endpoint_def ep_log_def)
  show ?thesis using h relay_silent_after_switch [OF run h] by blast
qed

text \<open>C4: The cutover keeps the peer's order. The peer sends some messages over the relay, then its switch,
  then the rest over the channel; however the two paths interleave on the way, this end reads the
  messages exactly in the order they were sent, nothing is lost or read twice, and the session
  stays up, as long as what arrives early fits the bounds.\<close>

theorem direct_delivery_in_order:
  assumes "(ep_step D)\<^sup>*\<^sup>* (new_endpoint r) e"
    and "\<not> disposed e" "attempt_state (cut_of e) = Attempting" "inbound (cut_of e) = RelayPath" "pendingFrames (cut_of e) = 0"
    and "healthy D (set ms \<union> set fs) sw"
    and "length fs \<le> MAX_DIRECT_PENDING_FRAMES" "sum_list (map length fs) \<le> MAX_DIRECT_PENDING_BYTES"
    and "evs \<in> shuffles (map RelayArrival (ms @ [sw])) (map ChannelArrival fs)"
  shows "received (history (fold (arrive D) evs e)) = received (history e) @ ms @ [sw] @ fs \<and>
    \<not> disposed (fold (arrive D) evs e) \<and>
    inbound (cut_of (fold (arrive D) evs e)) = DirectPath"
proof -
  have "ep_inv e" using direct_endpoint.reachable_inv [OF refl assms(1)] .
  then have q: "queue_bounded MAX_DIRECT_PENDING_FRAMES MAX_DIRECT_PENDING_BYTES (held (cut_of e))"
    by (simp add: ep_inv_def ep_core_def cutover_ok_def)
  have empty: "qframes (held (cut_of e)) = []" using assms(5) by (simp add: pendingFrames_def)
  have room: "room_for (held (cut_of e)) fs"
    using q empty assms(7,8) by (auto simp: room_for_def queue_bounded_def queue_ok_def)
  obtain c where "view (fold (arrive D) evs e) = (False, c, received (history e) @ ms @ sw # fs)" "inbound c = DirectPath"
    using arrivals_in_order [OF assms(6,9) _ assms(2-4) room] empty by auto
  then have c1: "received (history (fold (arrive D) evs e)) = received (history e) @ ms @ [sw] @ fs"
    "\<not> disposed (fold (arrive D) evs e)" "inbound (cut_of (fold (arrive D) evs e)) = DirectPath"
    by (auto simp: view_def)
  show ?thesis using c1 by blast
qed

theorem direct_delivery_in_order_witness:
  "received (history (fold (arrive example_deps)
     [ChannelArrival [5], RelayArrival [3], ChannelArrival [6], RelayArrival [1], ChannelArrival [7]] example_open)) =
   [[3], [1], [5], [6], [7]]"
proof -
  have h: "healthy example_deps (set [[3]] \<union> set [[5], [6], [7]]) [1]"
    by (auto simp: healthy_def example_deps_def plain_def)
  have s: "[ChannelArrival [5], RelayArrival [3], ChannelArrival [6], RelayArrival [1], ChannelArrival [7]] \<in>
      shuffles (map RelayArrival ([[3]] @ [[1]])) (map ChannelArrival [[5], [6], [7]])"
    by (simp add: Cons_in_shuffles_iff)
  have "received (history (fold (arrive example_deps)
     [ChannelArrival [5], RelayArrival [3], ChannelArrival [6], RelayArrival [1], ChannelArrival [7]] example_open)) =
     received (history example_open) @ [[3]] @ [[1]] @ [[5], [6], [7]]"
    by (rule conjunct1 [OF direct_delivery_in_order [OF example_run _ _ _ _ h _ _ s]])
      (simp_all add: example_open_eq, simp_all add: example_begun_eq new_endpoint_def new_cutover_def new_queue_def pendingFrames_def
        MAX_DIRECT_PENDING_FRAMES_def MAX_DIRECT_PENDING_BYTES_def)
  also have "received (history example_open) = []" by (simp add: example_open_eq)
  finally show ?thesis by simp
qed

text \<open>What a lost channel means depends on the switch alone. Before either direction has switched,
  the attempt is given up and the session stays: not disposed, relayed, its next message goes on the
  relay, and no attempt starts again. After a switch the session is reported lost and disposed, and
  nothing is sent any more.\<close>

theorem channel_loss:
  assumes "alive D e" "owesAnswer e = False"
  shows "(\<not> switched (cut_of e) \<longrightarrow>
      (let e' = onClosed D reason e in \<not> disposed e' \<and> ep_path e' = RelayPath \<and> relayCause e' = Some FailedAttempt \<and>
        peer e' = None \<and> pendingFrames (cut_of e') = 0 \<and> history (send D ct e') = SentRelay ct # history e' \<and>
        offer_begin D e' = e' \<and> answer_begin D sdp e' = e')) \<and>
    (switched (cut_of e) \<longrightarrow>
      (let e' = onClosed D reason e in disposed e' \<and> FatalReport reason \<in> set (history e') \<and> send D ct e' = e' \<and> peer e' = None))"
proof -
  have nd: "\<not> disposed e" using assms(1) by (simp add: alive_def)
  let ?e = "onClosed D reason e"
  have c1: "let e' = onClosed D reason e in \<not> disposed e' \<and> ep_path e' = RelayPath \<and> relayCause e' = Some FailedAttempt \<and>
        peer e' = None \<and> pendingFrames (cut_of e') = 0 \<and> history (send D ct e') = SentRelay ct # history e' \<and>
        offer_begin D e' = e' \<and> answer_begin D sdp e' = e'" if ns: "\<not> switched (cut_of e)"
  proof -
    let ?g = "close_peer (e\<lparr>givenUpEnd := refusedEnd D e\<rparr>)"
    have eq: "?e = settle (?g\<lparr>cut_of := clear_held ((cut_of e)\<lparr>attempt_state := Abandoned\<rparr>), relayCause := Some FailedAttempt\<rparr>)"
      using assms ns by (simp add: onClosed_def giveUp_def Let_def abandon_def)
    have c: "attempt_state (cut_of ?e) = Abandoned" "outbound (cut_of ?e) \<noteq> DirectPath" "\<not> disposed ?e"
      "relayCause ?e = Some FailedAttempt" "peer ?e = None" "qframes (held (cut_of ?e)) = []"
      unfolding eq using ns nd by (simp_all add: switched_def)
    have b: "begin_attempt (cut_of ?e) = (cut_of ?e, False)" using c(1) by (simp add: begin_attempt_def)
    show ?thesis
      unfolding Let_def using c b
      by (simp add: ep_path_def session_path_def pendingFrames_def send_def offer_begin_def answer_begin_def)
  qed
  have c2: "let e' = onClosed D reason e in disposed e' \<and> FatalReport reason \<in> set (history e') \<and> send D ct e' = e' \<and> peer e' = None"
    if sw: "switched (cut_of e)"
  proof -
    have eq: "?e = fatal reason e" using assms sw by (simp add: onClosed_def giveUp_def)
    have "disposed (fatal reason e)" "peer (fatal reason e) = None" "FatalReport reason \<in> set (history (fatal reason e))"
      using nd by (auto simp: fatal_def dispose_def Let_def settle_def settle_handoff_def settle_announce_def close_peer_def split: option.splits)
    then show ?thesis unfolding Let_def eq by (simp add: send_def)
  qed
  show ?thesis using c1 c2 by blast
qed

theorem channel_loss_witness:
  "disposed (onClosed example_deps ''gone'' example_open) \<and> \<not> disposed (onClosed example_deps ''gone'' example_begun)"
  using channel_loss [of example_deps example_open "''gone''"] channel_loss [of example_deps example_begun "''gone''"]
  by (simp add: example_open_eq Let_def) (simp add: example_begun_eq alive_def example_deps_def new_endpoint_def new_cutover_def switched_def)

end
