(* ===== verification/Quiesce_Detector.thy ===== *)
theory Quiesce_Detector
  imports Dormouse_Prelude
begin

text \<open>
  The detector that decides when a terminal session has gone quiet
  (\<open>lib/src/lib/quiesce-detector.ts\<close>): a state machine over output, expected work and four timers.
  Times are integer milliseconds; a timer is the time it is due, and its callback runs at some time
  from then on. What the owner is told goes into a log, the latest first. The hook of a settle may
  call the detector back; the listener of status changes is taken to only read.

  The lemmas show that a settle is announced only after five seconds without output in a busy run,
  that a busy detector always has the deadline armed that leads to the settle, and that output
  nobody asked for does not start a run.
\<close>

section \<open>State\<close>

datatype quiesce_status = NothingToShow | MightBeBusy | Busy | MightNeedAttention

datatype detector_timer = BusyCandidate | BusyConfirm | MightNeedTimer | SettledConfirm

datatype detector_event = Output int | Changed quiesce_status | Settled int

definition T_BUSY_CANDIDATE_GAP :: int where "T_BUSY_CANDIDATE_GAP = 1500"
definition T_BUSY_CONFIRM_GAP :: int where "T_BUSY_CONFIRM_GAP = 500"
definition T_MIGHT_NEED_ATTENTION :: int where "T_MIGHT_NEED_ATTENTION = 2000"
definition T_SETTLED_CONFIRM :: int where "T_SETTLED_CONFIRM = 3000"
definition WORK_START_WINDOW :: int where "WORK_START_WINDOW = 5000"

definition CANDIDATE_HISTORY_TTL_MS :: int where
  "CANDIDATE_HISTORY_TTL_MS = T_BUSY_CANDIDATE_GAP + T_BUSY_CONFIRM_GAP"

record detector =
  status :: quiesce_status
  qdisposed :: bool
  lastWorkExpectedAt :: "int option"
  timers :: "detector_timer \<Rightarrow> int option"
  firstOutputAt :: "int option"
  lastOutputAt :: "int option"
  outputCountSinceReset :: nat
  qlog :: "detector_event list"

definition new_detector :: detector where
  "new_detector = \<lparr>status = NothingToShow, qdisposed = False, lastWorkExpectedAt = None, timers = (\<lambda>k. None),
     firstOutputAt = None, lastOutputAt = None, outputCountSinceReset = 0, qlog = []\<rparr>"

section \<open>Operations\<close>

definition isConfirmedBusy :: "detector \<Rightarrow> bool" where
  "isConfirmedBusy d = (status d = Busy \<or> status d = MightNeedAttention)"

definition clearTimers :: "detector \<Rightarrow> detector" where
  "clearTimers d = d\<lparr>timers := (\<lambda>k. None)\<rparr>"

definition resetOutputTracking :: "detector \<Rightarrow> detector" where
  "resetOutputTracking d = d\<lparr>firstOutputAt := None, lastOutputAt := None, outputCountSinceReset := 0\<rparr>"

definition reset_detector :: "detector \<Rightarrow> detector" where
  "reset_detector d = (if qdisposed d then d else (resetOutputTracking (clearTimers d))\<lparr>status := NothingToShow\<rparr>)"

definition expectWork :: "int \<Rightarrow> detector \<Rightarrow> detector" where
  "expectWork now d = d\<lparr>lastWorkExpectedAt := Some now\<rparr>"

definition dispose_detector :: "detector \<Rightarrow> detector" where
  "dispose_detector d = clearTimers (d\<lparr>qdisposed := True\<rparr>)"

datatype hook_call = HookReset | HookDispose | HookExpect int

fun run_hook :: "hook_call list \<Rightarrow> detector \<Rightarrow> detector" where
  "run_hook [] d = d"
| "run_hook (HookReset # hs) d = run_hook hs (reset_detector d)"
| "run_hook (HookDispose # hs) d = run_hook hs (dispose_detector d)"
| "run_hook (HookExpect t # hs) d = run_hook hs (expectWork t d)"

text \<open>The one writer of the status: the hook runs with the new status already there.\<close>

definition publish :: "quiesce_status \<Rightarrow> detector \<Rightarrow> detector" where
  "publish st d = (if status d = st \<and> \<not> qdisposed d then d\<lparr>qlog := Changed st # qlog d\<rparr> else d)"

definition setStatus :: "quiesce_status \<Rightarrow> (detector \<Rightarrow> detector) \<Rightarrow> detector \<Rightarrow> detector" where
  "setStatus st beforePublish d = (if status d = st then d else publish st (beforePublish (d\<lparr>status := st\<rparr>)))"

definition schedule :: "detector_timer \<Rightarrow> int \<Rightarrow> int \<Rightarrow> detector \<Rightarrow> detector" where
  "schedule kind delay now d = d\<lparr>timers := (timers d)(kind := Some (now + delay))\<rparr>"

definition startBusyCandidateTimer :: "int \<Rightarrow> detector \<Rightarrow> detector" where
  "startBusyCandidateTimer now d =
     (if timers d BusyCandidate = None then schedule BusyCandidate T_BUSY_CANDIDATE_GAP now d else d)"

definition startMightNeedAttentionTimer :: "int \<Rightarrow> detector \<Rightarrow> detector" where
  "startMightNeedAttentionTimer now d = schedule MightNeedTimer T_MIGHT_NEED_ATTENTION now d"

definition enterMightBeBusy :: "int \<Rightarrow> detector \<Rightarrow> detector" where
  "enterMightBeBusy now d = schedule BusyConfirm T_BUSY_CONFIRM_GAP now (setStatus MightBeBusy id (clearTimers d))"

definition enterBusy :: "int \<Rightarrow> detector \<Rightarrow> detector" where
  "enterBusy now d = startMightNeedAttentionTimer now (setStatus Busy id (resetOutputTracking (clearTimers d)))"

definition handleNothingToShowOutput :: "int \<Rightarrow> detector \<Rightarrow> detector" where
  "handleNothingToShowOutput now d = (case firstOutputAt d of
      None \<Rightarrow> startBusyCandidateTimer now (d\<lparr>firstOutputAt := Some now, outputCountSinceReset := 1\<rparr>)
    | Some first \<Rightarrow>
        (let d1 = d\<lparr>outputCountSinceReset := outputCountSinceReset d + 1\<rparr>
         in if now - first \<ge> T_BUSY_CANDIDATE_GAP then enterMightBeBusy now d1 else d1))"

definition expire_history :: "int \<Rightarrow> detector \<Rightarrow> detector" where
  "expire_history now d = (case lastOutputAt d of
      None \<Rightarrow> d
    | Some t \<Rightarrow> if \<not> isConfirmedBusy d \<and> now - t > CANDIDATE_HISTORY_TTL_MS
        then setStatus NothingToShow id (resetOutputTracking (clearTimers d)) else d)"

text \<open>Whether output would begin a run nobody asked for; work that was never expected lies infinitely far back.\<close>

definition unasked :: "int \<Rightarrow> detector \<Rightarrow> bool" where
  "unasked now d = (status d = NothingToShow \<and> firstOutputAt d = None \<and>
     (case lastWorkExpectedAt d of None \<Rightarrow> True | Some t \<Rightarrow> now - t > WORK_START_WINDOW))"

definition onData :: "int \<Rightarrow> detector \<Rightarrow> detector \<times> bool" where
  "onData now d =
     (if qdisposed d then (d, False)
      else let d1 = expire_history now d in
        if unasked now d1 then (d1, False)
        else let d2 = d1\<lparr>lastOutputAt := Some now, qlog := Output now # qlog d1\<rparr> in
          (case status d2 of
             NothingToShow \<Rightarrow> handleNothingToShowOutput now d2
           | MightBeBusy \<Rightarrow> enterBusy now d2
           | Busy \<Rightarrow> startMightNeedAttentionTimer now d2
           | MightNeedAttention \<Rightarrow> enterBusy now d2, True))"

definition seedFromLatestOutput :: "int \<Rightarrow> detector \<Rightarrow> detector" where
  "seedFromLatestOutput now d = (case lastOutputAt d of
      None \<Rightarrow> resetOutputTracking d
    | Some t \<Rightarrow> startBusyCandidateTimer now (d\<lparr>firstOutputAt := Some t, outputCountSinceReset := 1\<rparr>))"

text \<open>The callback of a timer that was due at \<open>dueAt\<close>.\<close>

definition timer_fired :: "detector_timer \<Rightarrow> int \<Rightarrow> hook_call list \<Rightarrow> int \<Rightarrow> detector \<Rightarrow> detector" where
  "timer_fired kind dueAt hook now d =
     (let d1 = d\<lparr>timers := (timers d)(kind := None)\<rparr> in
      if qdisposed d1 then d1
      else case kind of
        BusyCandidate \<Rightarrow>
          if status d1 = NothingToShow \<and> outputCountSinceReset d1 \<ge> 2 then enterMightBeBusy now d1 else d1
      | BusyConfirm \<Rightarrow>
          if status d1 \<noteq> MightBeBusy then d1 else setStatus NothingToShow id (seedFromLatestOutput now d1)
      | MightNeedTimer \<Rightarrow>
          if status d1 \<noteq> Busy then d1
          else schedule SettledConfirm (max 0 (dueAt + T_SETTLED_CONFIRM - now)) now (setStatus MightNeedAttention id d1)
      | SettledConfirm \<Rightarrow>
          if status d1 \<noteq> MightNeedAttention then d1
          else setStatus NothingToShow (\<lambda>x. run_hook hook (x\<lparr>qlog := Settled now # qlog x\<rparr>)) (resetOutputTracking d1))"

section \<open>Runs\<close>

text \<open>A detector under a clock that does not go back; a timer fires when it is due or later.\<close>

inductive q_step :: "int \<times> detector \<Rightarrow> int \<times> detector \<Rightarrow> bool" where
  q_data: "t \<le> now \<Longrightarrow> q_step (t, d) (now, fst (onData now d))"
| q_expect: "t \<le> now \<Longrightarrow> q_step (t, d) (now, expectWork now d)"
| q_reset: "q_step (t, d) (t, reset_detector d)"
| q_dispose: "q_step (t, d) (t, dispose_detector d)"
| q_fire: "t \<le> now \<Longrightarrow> timers d k = Some due \<Longrightarrow> due \<le> now \<Longrightarrow> q_step (t, d) (now, timer_fired k due hook now d)"

fun last_output :: "detector_event list \<Rightarrow> int option" where
  "last_output [] = None"
| "last_output (Output t # l) = Some t"
| "last_output (Changed s # l) = last_output l"
| "last_output (Settled s # l) = last_output l"

fun settles_ok :: "detector_event list \<Rightarrow> bool" where
  "settles_ok [] = True"
| "settles_ok (x # l) = (settles_ok l \<and> (case x of
     Settled s \<Rightarrow> (\<exists>u. last_output l = Some u \<and> u + T_MIGHT_NEED_ATTENTION + T_SETTLED_CONFIRM \<le> s) | _ \<Rightarrow> True))"

text \<open>A deadline that lies far enough behind the latest output.\<close>

definition deadline :: "detector_timer \<Rightarrow> int \<Rightarrow> detector \<Rightarrow> bool" where
  "deadline k n d \<longleftrightarrow> (\<exists>due u. timers d k = Some due \<and> last_output (qlog d) = Some u \<and> u + n \<le> due)"

definition q_inv :: "int \<times> detector \<Rightarrow> bool" where
  "q_inv = (\<lambda>(t, d). settles_ok (qlog d) \<and> (\<forall>u. last_output (qlog d) = Some u \<longrightarrow> u \<le> t) \<and>
     (if qdisposed d then timers d = (\<lambda>k. None)
      else (status d = Busy \<longrightarrow> deadline MightNeedTimer T_MIGHT_NEED_ATTENTION d) \<and>
        (status d = MightNeedAttention \<longrightarrow> deadline SettledConfirm (T_MIGHT_NEED_ATTENTION + T_SETTLED_CONFIRM) d) \<and>
        (status d = MightBeBusy \<longrightarrow> timers d BusyConfirm \<noteq> None)))"

lemmas detector_defs = clearTimers_def resetOutputTracking_def schedule_def startBusyCandidateTimer_def
  startMightNeedAttentionTimer_def setStatus_def publish_def

lemma new_detector_inv: "q_inv (t, new_detector)"
  by (simp add: q_inv_def new_detector_def)

lemma reset_inv: "q_inv (t, d) \<Longrightarrow> q_inv (t, reset_detector d)"
  by (auto simp: q_inv_def reset_detector_def detector_defs)

lemma detector_dispose_inv: "q_inv (t, d) \<Longrightarrow> q_inv (t, dispose_detector d)"
  by (auto simp: q_inv_def dispose_detector_def detector_defs split: if_splits)

lemma expect_inv: "q_inv (t, d) \<Longrightarrow> t \<le> now \<Longrightarrow> q_inv (now, expectWork v d)"
  by (force simp: q_inv_def expectWork_def deadline_def split: if_splits)

lemma hook_inv: "q_inv (t, d) \<Longrightarrow> q_inv (t, run_hook hs d)"
  by (induction hs d rule: run_hook.induct) (auto intro: reset_inv detector_dispose_inv expect_inv [OF _ order_refl])

lemma publish_inv: "q_inv (t, d) \<Longrightarrow> q_inv (t, publish st d)"
  by (auto simp: q_inv_def publish_def deadline_def split: if_splits)

lemma later_inv: "q_inv (t, d) \<Longrightarrow> t \<le> now \<Longrightarrow> q_inv (now, d)"
  by (force simp: q_inv_def split: if_splits)

lemma expire_inv: "q_inv (t, d) \<Longrightarrow> \<not> qdisposed d \<Longrightarrow> q_inv (t, expire_history now d) \<and> \<not> qdisposed (expire_history now d)"
  by (auto simp: q_inv_def expire_history_def detector_defs split: option.splits if_splits)

lemma quiet_inv:
  "settles_ok (qlog d) \<Longrightarrow> (\<And>u. last_output (qlog d) = Some u \<Longrightarrow> u \<le> t) \<Longrightarrow> \<not> qdisposed d \<Longrightarrow> status d = NothingToShow \<Longrightarrow> q_inv (t, d)"
  by (simp add: q_inv_def)

lemma mightBeBusy_inv:
  "settles_ok (qlog d) \<Longrightarrow> (\<And>u. last_output (qlog d) = Some u \<Longrightarrow> u \<le> t) \<Longrightarrow> \<not> qdisposed d \<Longrightarrow> q_inv (t, enterMightBeBusy now d)"
  by (auto simp: q_inv_def enterMightBeBusy_def detector_defs)

lemma busy_inv:
  "settles_ok (qlog d) \<Longrightarrow> last_output (qlog d) = Some now \<Longrightarrow> \<not> qdisposed d \<Longrightarrow> q_inv (now, enterBusy now d)"
  by (auto simp: q_inv_def enterBusy_def detector_defs deadline_def)

lemma onData_inv:
  assumes "q_inv (t, d)" "t \<le> now"
  shows "q_inv (now, fst (onData now d))"
proof (cases "qdisposed d")
  case True
  then show ?thesis using later_inv [OF assms] by (simp add: onData_def)
next
  case False
  let ?d1 = "expire_history now d"
  let ?d2 = "?d1\<lparr>lastOutputAt := Some now, qlog := Output now # qlog ?d1\<rparr>"
  have e: "q_inv (t, ?d1)" "\<not> qdisposed ?d1" using expire_inv [OF assms(1) False] by auto
  then have s: "settles_ok (qlog ?d2)" "last_output (qlog ?d2) = Some now" "\<not> qdisposed ?d2" by (auto simp: q_inv_def)
  have quiet: "q_inv (now, handleNothingToShowOutput now ?d2)" if "status ?d1 = NothingToShow"
  proof (cases "firstOutputAt ?d1")
    case None
    then show ?thesis
      using s that by (intro quiet_inv) (auto simp: handleNothingToShowOutput_def detector_defs split: if_splits)
  next
    case (Some f)
    show ?thesis
    proof (cases "now - f \<ge> T_BUSY_CANDIDATE_GAP")
      case True
      then show ?thesis using s Some mightBeBusy_inv [of "?d2\<lparr>outputCountSinceReset := outputCountSinceReset ?d2 + 1\<rparr>" now now]
        by (simp add: handleNothingToShowOutput_def Let_def)
    next
      case False
      then show ?thesis using s Some that by (intro quiet_inv) (auto simp: handleNothingToShowOutput_def Let_def)
    qed
  qed
  have busy: "q_inv (now, startMightNeedAttentionTimer now ?d2)" if "status ?d1 = Busy"
    using that s by (auto simp: q_inv_def detector_defs deadline_def)
  show ?thesis
  proof (cases "unasked now ?d1")
    case True
    then show ?thesis using later_inv [OF e(1) assms(2)] False by (simp add: onData_def Let_def)
  next
    case asked: False
    show ?thesis
    proof (cases "status ?d1")
      case NothingToShow
      then have "fst (onData now d) = handleNothingToShowOutput now ?d2" using False asked by (simp add: onData_def Let_def)
      then show ?thesis using quiet [OF NothingToShow] by simp
    qed (use busy busy_inv [OF s] False asked in \<open>simp_all add: onData_def Let_def\<close>)
  qed
qed

lemma settle_hook_inv:
  assumes "q_inv (t, d)" "\<not> qdisposed d" "status d = MightNeedAttention" "timers d SettledConfirm = Some due" "due \<le> now" "t \<le> now"
    and "\<And>k. timers d' k = (timers d) k \<or> timers d' k = None" "qlog d' = qlog d" "qdisposed d' = qdisposed d" "status d' = MightNeedAttention"
  shows "q_inv (now, setStatus NothingToShow (\<lambda>x. run_hook hook (x\<lparr>qlog := Settled now # qlog x\<rparr>)) d')"
proof -
  have "q_inv (now, d'\<lparr>status := NothingToShow, qlog := Settled now # qlog d'\<rparr>)"
    using assms by (intro quiet_inv) (auto simp: q_inv_def deadline_def split: if_splits)
  then show ?thesis using assms(10) by (simp add: setStatus_def publish_inv hook_inv)
qed

lemma fired_inv:
  assumes "q_inv (t, d)" "t \<le> now" "timers d k = Some due" "due \<le> now"
  shows "q_inv (now, timer_fired k due hook now d)"
proof -
  let ?d = "d\<lparr>timers := (timers d)(k := None)\<rparr>"
  have nd: "\<not> qdisposed d" using assms(1,3) by (auto simp: q_inv_def)
  have s: "settles_ok (qlog d)" "\<And>u. last_output (qlog d) = Some u \<Longrightarrow> u \<le> now" using assms(1,2) by (force simp: q_inv_def)+
  have i: "q_inv (now, d)" using later_inv [OF assms(1,2)] .
  show ?thesis
  proof (cases k)
    case BusyCandidate
    have "q_inv (now, ?d)" using i nd BusyCandidate by (auto simp: q_inv_def deadline_def)
    then show ?thesis using mightBeBusy_inv [of ?d now now] s nd BusyCandidate by (simp add: timer_fired_def Let_def)
  next
    case BusyConfirm
    have other: "status d \<noteq> MightBeBusy \<Longrightarrow> q_inv (now, ?d)" using i nd BusyConfirm by (auto simp: q_inv_def deadline_def)
    have seed: "qlog (seedFromLatestOutput now ?d) = qlog d" "qdisposed (seedFromLatestOutput now ?d) = qdisposed d"
      "status (seedFromLatestOutput now ?d) = status d"
      by (auto simp: seedFromLatestOutput_def detector_defs split: option.splits)
    have "status d = MightBeBusy \<Longrightarrow> q_inv (now, setStatus NothingToShow id (seedFromLatestOutput now ?d))"
      using s nd seed by (auto simp: setStatus_def intro!: publish_inv quiet_inv)
    with other show ?thesis using nd BusyConfirm by (simp add: timer_fired_def Let_def)
  next
    case MightNeedTimer
    have other: "status d \<noteq> Busy \<Longrightarrow> q_inv (now, ?d)" using i nd MightNeedTimer by (auto simp: q_inv_def deadline_def)
    have "status d = Busy \<Longrightarrow> q_inv (now, schedule SettledConfirm (max 0 (due + T_SETTLED_CONFIRM - now)) now (setStatus MightNeedAttention id ?d))"
      using i nd assms(3) MightNeedTimer by (auto simp: q_inv_def detector_defs deadline_def T_SETTLED_CONFIRM_def T_MIGHT_NEED_ATTENTION_def)
    with other show ?thesis using nd MightNeedTimer by (simp add: timer_fired_def Let_def)
  next
    case SettledConfirm
    have other: "status d \<noteq> MightNeedAttention \<Longrightarrow> q_inv (now, ?d)" using i nd SettledConfirm by (auto simp: q_inv_def deadline_def)
    have "status d = MightNeedAttention \<Longrightarrow>
        q_inv (now, setStatus NothingToShow (\<lambda>x. run_hook hook (x\<lparr>qlog := Settled now # qlog x\<rparr>)) (resetOutputTracking ?d))"
      using settle_hook_inv [OF assms(1) nd _ _ assms(4,2), of "resetOutputTracking ?d" hook] assms(3) SettledConfirm
      by (simp add: resetOutputTracking_def)
    with other show ?thesis using nd SettledConfirm by (simp add: timer_fired_def Let_def)
  qed
qed

lemma q_step_inv: "q_step x y \<Longrightarrow> q_inv x \<Longrightarrow> q_inv y"
  by (induction rule: q_step.induct) (auto intro: onData_inv expect_inv reset_inv detector_dispose_inv fired_inv)

interpretation quiesce: step_system "\<lambda>x. snd x = new_detector" q_step q_inv
  by unfold_locales (auto intro: q_step_inv new_detector_inv)

lemma settles_ok_split:
  "settles_ok (later @ Settled x # earlier) \<Longrightarrow>
   \<exists>u. last_output earlier = Some u \<and> u + T_MIGHT_NEED_ATTENTION + T_SETTLED_CONFIRM \<le> x"
  by (induction later) auto

section \<open>Properties\<close>

text \<open>A settle is never announced early: whenever the detector reports that a busy session has gone
  quiet, the latest output it had accepted lies at least five seconds back, however late its timers
  ran.\<close>

theorem settle_means_silence:
  assumes "q_step\<^sup>*\<^sup>* (t0, new_detector) (t, d)" "qlog d = later @ Settled x # earlier"
  shows "\<exists>u. last_output earlier = Some u \<and> u + 5000 \<le> x"
proof -
  have "q_inv (t, d)" using quiesce.reachable_inv [OF _ assms(1)] by simp
  then have "settles_ok (later @ Settled x # earlier)" using assms(2) by (simp add: q_inv_def)
  from settles_ok_split [OF this] show ?thesis
    by (simp add: T_MIGHT_NEED_ATTENTION_def T_SETTLED_CONFIRM_def add.commute)
qed

text \<open>An example run: work is expected at 0, output comes at 100, 1000, 1700 and 1800, and both deadlines pass.\<close>

definition example_busy :: detector where
  "example_busy = fst (onData 1800 (fst (onData 1700 (fst (onData 1000 (fst (onData 100 (expectWork 0 new_detector))))))))"

definition example_settled :: detector where
  "example_settled = timer_fired SettledConfirm 6800 [] 7000 (timer_fired MightNeedTimer 3800 [] 3900 example_busy)"

lemma example_busy_run: "q_step\<^sup>*\<^sup>* (0, new_detector) (1800, example_busy)"
proof -
  let ?R = "q_step\<^sup>*\<^sup>* (0, new_detector)"
  have 0: "?R (0, expectWork 0 new_detector)" by (intro r_into_rtranclp q_expect) simp
  have 1: "?R (100, fst (onData 100 (expectWork 0 new_detector)))" by (rule rtranclp.rtrancl_into_rtrancl [OF 0 q_data]) simp
  have 2: "?R (1000, fst (onData 1000 (fst (onData 100 (expectWork 0 new_detector)))))"
    by (rule rtranclp.rtrancl_into_rtrancl [OF 1 q_data]) simp
  have 3: "?R (1700, fst (onData 1700 (fst (onData 1000 (fst (onData 100 (expectWork 0 new_detector)))))))"
    by (rule rtranclp.rtrancl_into_rtrancl [OF 2 q_data]) simp
  show ?thesis unfolding example_busy_def by (rule rtranclp.rtrancl_into_rtrancl [OF 3 q_data]) simp
qed

lemmas detector_eval = detector_defs onData_def expire_history_def unasked_def handleNothingToShowOutput_def enterMightBeBusy_def
  enterBusy_def isConfirmedBusy_def expectWork_def new_detector_def timer_fired_def T_BUSY_CANDIDATE_GAP_def T_BUSY_CONFIRM_GAP_def
  T_MIGHT_NEED_ATTENTION_def T_SETTLED_CONFIRM_def WORK_START_WINDOW_def CANDIDATE_HISTORY_TTL_MS_def Let_def

lemma example_busy_eq:
  "status example_busy = Busy" "timers example_busy MightNeedTimer = Some 3800" "\<not> qdisposed example_busy"
  "qlog example_busy = [Changed Busy, Output 1800, Changed MightBeBusy, Output 1700, Output 1000, Output 100]"
  by (simp_all add: example_busy_def detector_eval)

lemma example_need_eq:
  "timers (timer_fired MightNeedTimer 3800 [] 3900 example_busy) SettledConfirm = Some 6800"
  by (simp add: example_busy_def detector_eval)

lemma example_settled_log:
  "qlog example_settled = [Changed NothingToShow] @ Settled 7000 # Changed MightNeedAttention # qlog example_busy"
  by (simp add: example_settled_def example_busy_def detector_eval)

lemma example_settled_run: "q_step\<^sup>*\<^sup>* (0, new_detector) (7000, example_settled)"
proof -
  have 1: "q_step\<^sup>*\<^sup>* (0, new_detector) (3900, timer_fired MightNeedTimer 3800 [] 3900 example_busy)"
    by (rule rtranclp.rtrancl_into_rtrancl [OF example_busy_run q_fire]) (simp_all add: example_busy_eq)
  show ?thesis unfolding example_settled_def
    by (rule rtranclp.rtrancl_into_rtrancl [OF 1 q_fire]) (simp_all add: example_need_eq)
qed

theorem settle_means_silence_witness:
  "qlog example_settled = [Changed NothingToShow] @ Settled 7000 # Changed MightNeedAttention # qlog example_busy \<and>
   (\<exists>u. last_output (Changed MightNeedAttention # qlog example_busy) = Some u \<and> u + 5000 \<le> 7000)"
  using settle_means_silence [OF example_settled_run example_settled_log] example_settled_log by blast

text \<open>C32: A busy detector cannot get stuck: the deadline of its state is armed, and when the deadlines are
  served, however late and with no output in between, the first one announces the change to
  \<open>MightNeedAttention\<close> and no settle, the second announces exactly one settle and the change to
  \<open>NothingToShow\<close>, and nothing else is announced. The second deadline counts from the first one's due time,
  not from its late callback.\<close>

theorem busy_settles:
  assumes "q_step\<^sup>*\<^sup>* (t0, new_detector) (t, d)" "\<not> qdisposed d"
  shows "(status d = Busy \<longrightarrow> (\<exists>due. timers d MightNeedTimer = Some due \<and> (\<forall>now \<ge> due.
      let d1 = timer_fired MightNeedTimer due hook now d; due2 = max now (due + 3000) in
      status d1 = MightNeedAttention \<and> qlog d1 = Changed MightNeedAttention # qlog d \<and>
      timers d1 SettledConfirm = Some due2 \<and>
      (\<forall>now2 \<ge> due2. let d2 = timer_fired SettledConfirm due2 [] now2 d1 in
         status d2 = NothingToShow \<and>
         qlog d2 = [Changed NothingToShow, Settled now2, Changed MightNeedAttention] @ qlog d)))) \<and>
    (status d = MightNeedAttention \<longrightarrow> (\<exists>due. timers d SettledConfirm = Some due \<and> (\<forall>now \<ge> due.
      status (timer_fired SettledConfirm due [] now d) = NothingToShow \<and>
      qlog (timer_fired SettledConfirm due [] now d) = Changed NothingToShow # Settled now # qlog d))) \<and>
    (status d = MightBeBusy \<longrightarrow> timers d BusyConfirm \<noteq> None)"
proof -
  have i: "q_inv (t, d)" using quiesce.reachable_inv [OF _ assms(1)] by simp
  show ?thesis
    using i assms(2) by (cases "status d") (auto simp: q_inv_def deadline_def timer_fired_def detector_defs Let_def T_SETTLED_CONFIRM_def)
qed

theorem busy_settles_witness:
  "qlog (timer_fired SettledConfirm 9000 [] 9500 (timer_fired MightNeedTimer 3800 [] 9000 example_busy)) =
     [Changed NothingToShow, Settled 9500, Changed MightNeedAttention] @ qlog example_busy"
proof -
  from busy_settles [OF example_busy_run example_busy_eq(3), of "[]"] obtain due where
    due: "timers example_busy MightNeedTimer = Some due" and
    all: "\<forall>now \<ge> due. \<forall>now2 \<ge> max now (due + 3000).
       qlog (timer_fired SettledConfirm (max now (due + 3000)) [] now2 (timer_fired MightNeedTimer due [] now example_busy)) =
         [Changed NothingToShow, Settled now2, Changed MightNeedAttention] @ qlog example_busy"
    by (auto simp: example_busy_eq(1) Let_def)
  from due have "due = 3800" by (simp add: example_busy_eq)
  with all [rule_format, of 9000 9500] show ?thesis by simp
qed

text \<open>Output nobody asked for starts nothing: on a quiet detector with no run under way, output that comes
  more than five seconds after the last expected work, or before any, is ignored, and so is any amount of
  it; nothing is announced and the detector stays as it was.\<close>

theorem unasked_output_ignored:
  assumes "status d = NothingToShow" "firstOutputAt d = None" "lastOutputAt d = None"
    and "\<forall>now \<in> set arrivals. case lastWorkExpectedAt d of None \<Rightarrow> True | Some w \<Rightarrow> w + 5000 < now"
  shows "fold (\<lambda>now x. fst (onData now x)) arrivals d = d"
  using assms(4)
proof (induction arrivals)
  case (Cons now arrivals)
  have "fst (onData now d) = d"
    using assms(1-3) Cons.prems
    by (auto simp: onData_def expire_history_def unasked_def WORK_START_WINDOW_def Let_def split: option.splits)
  then show ?case using Cons by simp
qed simp

theorem unasked_output_ignored_witness:
  "fold (\<lambda>now x. fst (onData now x)) [5001, 5100, 90000] (expectWork 0 new_detector) = expectWork 0 new_detector"
  by (rule unasked_output_ignored) (simp_all add: expectWork_def new_detector_def)

end
