(* ===== verification/Terminal_Command.thy ===== *)
theory Terminal_Command
  imports Js_Text
begin

text \<open>
  Reading the command line a shell reports (\<open>lib/src/lib/terminal-state.ts\<close>): the tokenizer with its
  quotes, escapes, redirections, substitutions, comments and here-documents; the simple commands of
  a list; the key a command is watched under; the title it is shown with.
\<close>

section \<open>The tokenizer\<close>

definition POSIX_ESCAPABLE :: "char \<Rightarrow> bool" where
  "POSIX_ESCAPABLE c = (c \<in> set (tab_char # dquote # squote # bslash # '' !#$&()*;<>?[]`{|}~''))"

record here_document =
  delimiter :: string
  stripTabs :: bool

definition name_start :: "char \<Rightarrow> bool" where
  "name_start c = (is_letter c \<or> c = CHR ''_'')"

definition name_char :: "char \<Rightarrow> bool" where
  "name_char c = (is_letter c \<or> is_digit c \<or> c = CHR ''_'')"

text \<open>The text after a leading shell name, or none when there is no name.\<close>

definition after_name :: "string \<Rightarrow> string option" where
  "after_name s = (case s of [] \<Rightarrow> None | c # r \<Rightarrow> if name_start c then Some (dropWhile name_char r) else None)"

definition ARRAY_ASSIGNMENT_PREFIX :: "string \<Rightarrow> bool" where
  "ARRAY_ASSIGNMENT_PREFIX s = (after_name s \<in> {Some ''='', Some ''+=''})"

definition isEnvAssignment :: "string \<Rightarrow> bool" where
  "isEnvAssignment s = (case after_name s of Some r \<Rightarrow> starts_with ''='' r | None \<Rightarrow> False)"

text \<open>The word of a here-document: its loop, with the quote that is open.\<close>

fun delimiter_loop :: "char option \<Rightarrow> string \<Rightarrow> string" where
  "delimiter_loop q [] = []"
| "delimiter_loop (Some q) (c # r) = (if c = q then delimiter_loop None r else c # delimiter_loop (Some q) r)"
| "delimiter_loop None (c # r) =
     (if c = dquote \<or> c = squote then delimiter_loop (Some c) r
      else if c = bslash \<and> r \<noteq> [] then hd r # delimiter_loop None (tl r)
      else if js_space c \<or> c \<in> set '';&|()<>'' then []
      else c # delimiter_loop None r)"

definition readHereDocumentDelimiter :: "string \<Rightarrow> here_document option" where
  "readHereDocumentDelimiter s =
     (let strip = starts_with ''-'' s;
          word = delimiter_loop None (dropWhile (\<lambda>c. c = CHR '' '' \<or> c = tab_char) (if strip then drop 1 s else s))
      in if word = [] then None else Some \<lparr>delimiter = word, stripTabs = strip\<rparr>)"

text \<open>The lines up to and including the delimiter's are dropped, for each here-document in turn.\<close>

function skip_body :: "here_document \<Rightarrow> string \<Rightarrow> string" where
  "skip_body h s = (if s = [] then []
     else let line = takeWhile (\<lambda>c. c \<noteq> newline) s; rest = drop (length line + 1) s
          in if (if stripTabs h then dropWhile (\<lambda>c. c = tab_char) line else line) = delimiter h then rest
             else skip_body h rest)"
  by pat_completeness auto
termination by (relation "measure (\<lambda>(h, s). length s)") auto

declare skip_body.simps [simp del]

definition skipHereDocumentBodies :: "here_document list \<Rightarrow> string \<Rightarrow> string" where
  "skipHereDocumentBodies hs s = fold skip_body hs s"

text \<open>The variables of the loop over the input; \<open>previous\<close> is the character before the one being read.\<close>

record lexer =
  ltokens :: "string list"
  lcurrent :: string
  lquote :: "char option"
  escaping :: bool
  wordParens :: nat
  operatorPrefix :: "char option"
  hereDocuments :: "here_document list"
  previous :: "char option"

definition new_lexer :: lexer where
  "new_lexer = \<lparr>ltokens = [], lcurrent = [], lquote = None, escaping = False, wordParens = 0,
     operatorPrefix = None, hereDocuments = [], previous = None\<rparr>"

definition push_token :: "lexer \<Rightarrow> lexer" where
  "push_token s = (if lcurrent s = [] then s else s\<lparr>ltokens := ltokens s @ [lcurrent s], lcurrent := []\<rparr>)"

definition emit :: "string \<Rightarrow> lexer \<Rightarrow> lexer" where
  "emit t s = (let p = push_token s in p\<lparr>ltokens := ltokens p @ [t]\<rparr>)"

definition add_char :: "char \<Rightarrow> lexer \<Rightarrow> lexer" where
  "add_char c s = s\<lparr>lcurrent := lcurrent s @ [c]\<rparr>"

text \<open>The part of the loop's body for a character that is not quoted, escaped or inside a
  substitution, with the operator \<open>prefix\<close> right before it: what is left of the input, and the
  variables.\<close>

definition lex_plain :: "char option \<Rightarrow> char \<Rightarrow> string \<Rightarrow> lexer \<Rightarrow> string \<times> lexer" where
  "lex_plain pre c r s =
     (let next = (case r of [] \<Rightarrow> None | d # _ \<Rightarrow> Some d) in
      if c = newline then
        (let p = emit '';'' s in
         if hereDocuments p = [] then (r, p) else (skipHereDocumentBodies (hereDocuments p) r, p\<lparr>hereDocuments := []\<rparr>))
      else if js_space c then (r, push_token s)
      else if c = CHR ''('' \<or> c = CHR '')'' then (r, emit [c] s)
      else if c = CHR ''&'' \<and> pre \<in> {Some CHR ''<'', Some CHR ''>''} \<or> c = CHR ''|'' \<and> pre = Some CHR ''>'' then (r, add_char c s)
      else if c = CHR ''&'' \<and> next = Some CHR ''>'' then (r, (push_token s)\<lparr>lcurrent := [c]\<rparr>)
      else if c = CHR ''|'' \<and> next = Some CHR ''&'' \<or> c = CHR ''&'' \<and> next = Some CHR ''|'' then (tl r, emit ''|'' s)
      else if c = CHR ''&'' \<and> next = Some CHR ''&'' then (tl r, emit ''&&'' s)
      else if c = CHR ''|'' \<and> next = Some CHR ''|'' then (tl r, emit ''||'' s)
      else if c = CHR '';'' \<and> next \<in> {Some CHR '';'', Some CHR ''&''} then
        (let e = (if starts_with '';;&'' (c # r) then '';;&'' else take 2 (c # r)) in (drop (length e - 1) r, emit e s))
      else if c \<in> {CHR ''|'', CHR '';'', CHR ''&''} then (r, emit [c] s)
      else if c = CHR ''#'' \<and> lcurrent s = [] \<and>
          (case previous s of None \<Rightarrow> True | Some b \<Rightarrow> js_space b \<or> b \<in> set '';&|()'') then
        (dropWhile (\<lambda>d. d \<noteq> newline) r, s)
      else
        (let s1 = (if c = CHR ''<'' \<and> next = Some CHR ''<'' \<and> starts_with ''<<'' r = False \<and> previous s \<noteq> Some CHR ''<'' then
                     (case readHereDocumentDelimiter (drop 1 r) of
                        Some h \<Rightarrow> s\<lparr>hereDocuments := hereDocuments s @ [h]\<rparr> | None \<Rightarrow> s)
                   else s)
         in (r, (add_char c s1)\<lparr>operatorPrefix := (if c \<in> set ''$<>'' then Some c else None)\<rparr>)))"

text \<open>The body of the loop.\<close>

definition lex_step :: "char \<Rightarrow> string \<Rightarrow> lexer \<Rightarrow> string \<times> lexer" where
  "lex_step c r s0 =
     (let pre = operatorPrefix s0; s = s0\<lparr>operatorPrefix := None\<rparr> in
      if escaping s then (r, (add_char c s)\<lparr>escaping := False\<rparr>)
      else if c = bslash \<and> lquote s \<noteq> Some squote then
        (case r of
           d # r' \<Rightarrow> if d = newline then (r', s)
                     else if POSIX_ESCAPABLE d then (r, s\<lparr>escaping := True\<rparr>) else (r, add_char c s)
         | [] \<Rightarrow> (r, add_char c s))
      else (case lquote s of
        Some q \<Rightarrow> (r, if c = q then s\<lparr>lquote := None\<rparr> else add_char c s)
      | None \<Rightarrow>
          if c = dquote \<or> c = squote then (r, s\<lparr>lquote := Some c\<rparr>)
          else if wordParens s > 0 \<or> c = CHR ''('' \<and> (pre \<noteq> None \<or> ARRAY_ASSIGNMENT_PREFIX (lcurrent s)) then
            (r, add_char c (s\<lparr>wordParens := (if c = CHR ''('' then wordParens s + 1
                                             else if c = CHR '')'' then wordParens s - 1 else wordParens s)\<rparr>))
          else lex_plain pre c r s))"

lemma skip_body_length: "length (skip_body h s) \<le> length s"
  by (induction h s rule: skip_body.induct) (subst skip_body.simps, force simp: Let_def)

lemma skip_bodies_length: "length (skipHereDocumentBodies hs s) \<le> length s"
  unfolding skipHereDocumentBodies_def
  by (induction hs arbitrary: s) (auto intro: le_trans [OF _ skip_body_length])

lemma lex_plain_length: "length (fst (lex_plain pre c r s)) \<le> length r"
  using skip_bodies_length by (simp add: lex_plain_def Let_def length_dropWhile_le)

lemma lex_plain_length_Cons: "length (fst (lex_plain pre c (d # r) s)) \<le> Suc (length r)"
  using lex_plain_length [of pre c "d # r" s] by simp

lemma lex_plain_Nil: "fst (lex_plain pre c [] s) = []"
  using lex_plain_length [of pre c "[]" s] by simp

lemma lex_step_length: "length (fst (lex_step c r s)) \<le> length r"
  by (cases r; cases "lquote s") (simp_all add: lex_step_def Let_def lex_plain_length lex_plain_length_Cons lex_plain_Nil)

function lex_loop :: "string \<Rightarrow> lexer \<Rightarrow> lexer" where
  "lex_loop [] s = s"
| "lex_loop (c # r) s =
     (let (r', s') = lex_step c r s in lex_loop r' (s'\<lparr>previous := Some ((c # r) ! (length r - length r'))\<rparr>))"
  by pat_completeness auto
termination
proof (relation "measure (\<lambda>(r, s). length r)", goal_cases)
  case (2 c r s x r' s')
  then have "length r' \<le> length r" using lex_step_length [of c r s] by (cases "lex_step c r s") auto
  then show ?case by simp
qed simp

definition tokenizeCommand :: "string \<Rightarrow> string list" where
  "tokenizeCommand input = ltokens (push_token (lex_loop input new_lexer))"


section \<open>The commands of a list\<close>

definition CASE_ITEM_ENDS :: "string list" where
  "CASE_ITEM_ENDS = ['';;'', '';&'', '';;&'']"

definition LIST_SEPARATORS :: "string list" where
  "LIST_SEPARATORS = [''&&'', ''||'', '';'', ''&''] @ CASE_ITEM_ENDS"

definition GROUPING_TOKENS :: "string list" where
  "GROUPING_TOKENS = [''('', '')'', ''{'', ''}'']"

definition CLOSING_WORDS :: "string list" where
  "CLOSING_WORDS = [''done'', ''fi'', ''esac'', ''end'', ''}'', '')'']"

definition OPENING_WORDS :: "string list" where
  "OPENING_WORDS = [''if'', ''elif'', ''then'', ''else'', ''while'', ''until'', ''do'', ''!'', ''('', ''{'', ''begin'', ''and'', ''or'', ''not'']"

definition LOOP_HEADERS :: "string list" where
  "LOOP_HEADERS = [''for'', ''select'']"

definition takePrimaryCommandTokens :: "string list \<Rightarrow> string list" where
  "takePrimaryCommandTokens tokens =
     (let words = (case tokens of t # ts \<Rightarrow> if t = ''&'' then ts else tokens | [] \<Rightarrow> tokens);
          command = filter (\<lambda>t. t \<notin> set GROUPING_TOKENS) (takeWhile (\<lambda>t. t \<noteq> ''|'' \<and> t \<notin> set LIST_SEPARATORS) words);
          rest = dropWhile isEnvAssignment command
      in case rest of t # ts \<Rightarrow> if t = ''env'' then dropWhile isEnvAssignment ts else rest | [] \<Rightarrow> [])"

definition primaryCommandTokens :: "string \<Rightarrow> string list" where
  "primaryCommandTokens raw = takePrimaryCommandTokens (tokenizeCommand (js_trim raw))"

text \<open>What the next command may start with inside a \<open>case\<close>.\<close>

datatype case_next = Pattern | InWord

text \<open>The words after the first occurrence of one, if there is any.\<close>

definition after_word :: "string \<Rightarrow> string list \<Rightarrow> string list option" where
  "after_word w ws = (case dropWhile (\<lambda>t. t \<noteq> w) ws of [] \<Rightarrow> None | _ # r \<Rightarrow> Some r)"

lemma after_word_length: "after_word w ws = Some r \<Longrightarrow> length r < length ws"
  unfolding after_word_def using length_dropWhile_le [of "\<lambda>t. t \<noteq> w" ws] by (auto split: list.splits)

text \<open>The inner loop of \<open>end\<close>: the command words, if the segment holds a command, and what is next.\<close>

function strip_grammar :: "case_next option \<Rightarrow> string list \<Rightarrow> string list option \<times> case_next option" where
  "strip_grammar cn [] = (None, cn)"
| "strip_grammar cn (w # ws) =
     (if cn = Some InWord then (if w = ''in'' then strip_grammar (Some Pattern) ws else strip_grammar None (w # ws))
      else if w \<in> set OPENING_WORDS then strip_grammar cn ws
      else if cn = Some Pattern then (case after_word '')'' (w # ws) of None \<Rightarrow> (Some (w # ws), None) | Some r \<Rightarrow> strip_grammar None r)
      else if w = ''case'' then (case after_word ''in'' (drop 1 ws) of None \<Rightarrow> (None, Some InWord) | Some r \<Rightarrow> strip_grammar (Some Pattern) r)
      else if w \<in> set LOOP_HEADERS then (None, cn)
      else (Some (w # ws), cn))"
  by pat_completeness auto
termination
  by (relation "measures [\<lambda>(cn, ws). length ws, \<lambda>(cn, ws). if cn = Some InWord then 1 else 0]")
    (auto dest!: after_word_length)

definition end_segment :: "string list \<Rightarrow> string list list \<times> case_next option \<Rightarrow> string list list \<times> case_next option" where
  "end_segment seg st = (case st of (cmds, cn) \<Rightarrow>
     if seg = [] then st
     else if hd seg \<in> set CLOSING_WORDS then (cmds, if hd seg = ''esac'' then None else cn)
     else case strip_grammar cn seg of
        (None, cn') \<Rightarrow> (cmds, cn')
      | (Some ws, cn') \<Rightarrow> (cmds @ [filter (\<lambda>t. t \<notin> set GROUPING_TOKENS) ws], cn'))"

fun list_loop :: "string list \<Rightarrow> string list \<Rightarrow> string list list \<times> case_next option \<Rightarrow> string list list" where
  "list_loop seg [] st = fst (end_segment seg st)"
| "list_loop seg (t # ts) st =
     (if t \<notin> set LIST_SEPARATORS then list_loop (seg @ [t]) ts st
      else let (cmds, cn) = end_segment seg st
           in list_loop [] ts (cmds, if t \<in> set CASE_ITEM_ENDS then Some Pattern else cn))"

definition listCommands :: "string list \<Rightarrow> string list list" where
  "listCommands tokens = filter (\<lambda>ws. ws \<noteq> []) (list_loop [] tokens ([], None))"

section \<open>The name of a program\<close>

text \<open>\<open>/^.*[\\/]/\<close> is greedy, so it reaches the last separator of the first line.\<close>

definition path_sep :: "char \<Rightarrow> bool" where
  "path_sep c = (c = bslash \<or> c = CHR ''/'')"

definition commandBasename :: "string \<Rightarrow> string" where
  "commandBasename s =
     (let line = takeWhile (\<lambda>c. \<not> line_end c) s
      in rev (takeWhile (\<lambda>c. \<not> path_sep c) (rev line)) @ drop (length line) s)"

definition EXECUTABLE_SUFFIXES :: "string list" where
  "EXECUTABLE_SUFFIXES = [''.exe'', ''.cmd'', ''.bat'', ''.com'', ''.ps1'']"

definition WINDOWS_EXECUTABLE_SUFFIX :: "string \<Rightarrow> bool" where
  "WINDOWS_EXECUTABLE_SUFFIX s = (\<exists>x \<in> set EXECUTABLE_SUFFIXES. ends_with x (map lower_char s))"

definition commandProgramName :: "string \<Rightarrow> string" where
  "commandProgramName s = (let b = commandBasename s in if WINDOWS_EXECUTABLE_SUFFIX b then take (length b - 4) b else b)"

definition isWatchKey :: "string \<Rightarrow> bool" where
  "isWatchKey name =
     (let parts = split_on CHR '' '' name
      in length parts \<le> 2 \<and> (\<forall>p \<in> set parts. p \<noteq> [] \<and> (\<forall>c \<in> set p. \<not> path_sep c \<and> \<not> js_space c)) \<and>
         \<not> (case hd parts of c # d # _ \<Rightarrow> is_letter c \<and> d = CHR '':'' | _ \<Rightarrow> False) \<and>
         \<not> WINDOWS_EXECUTABLE_SUFFIX (hd parts))"

section \<open>The key of a command\<close>

record wrapper_spec =
  wvalue :: "string list"
  wbool :: "string list"
  wassignments :: bool
  boolPattern :: bool
  operands :: nat
  packageSpec :: bool

definition plain_wrapper :: wrapper_spec where
  "plain_wrapper = \<lparr>wvalue = [], wbool = [], wassignments = False, boolPattern = False, operands = 0, packageSpec = False\<rparr>"

definition PNPM_DLX :: wrapper_spec where
  "PNPM_DLX = plain_wrapper\<lparr>wvalue := [''--package''], wbool := [''-s'', ''--silent''], packageSpec := True\<rparr>"

definition BUN_X :: wrapper_spec where
  "BUN_X = plain_wrapper\<lparr>wvalue := [''-p'', ''--package''], wbool := [''--bun'', ''-y''], packageSpec := True\<rparr>"

definition TRANSPARENT_WRAPPERS :: "(string \<times> wrapper_spec) list" where
  "TRANSPARENT_WRAPPERS = [
     (''env'', plain_wrapper\<lparr>wvalue := [''-u'', ''--unset'', ''-C'', ''--chdir''],
        wbool := [''-'', ''-i'', ''--ignore-environment'', ''-0'', ''--null'', ''-v'', ''--debug''], wassignments := True\<rparr>),
     (''sudo'', plain_wrapper\<lparr>wvalue := [''-u'', ''--user'', ''-g'', ''--group'', ''-p'', ''--prompt'', ''-C'', ''--close-from'', ''-D'', ''--chdir'',
          ''-r'', ''--role'', ''-t'', ''--type'', ''-T'', ''--command-timeout'', ''-U'', ''--other-user''],
        wbool := [''-E'', ''--preserve-env'', ''-H'', ''--set-home'', ''-n'', ''--non-interactive'', ''-S'', ''--stdin'', ''-b'', ''--background'',
          ''-k'', ''--reset-timestamp'', ''-P'', ''--preserve-groups'', ''-A'', ''--askpass'', ''-B'', ''--bell'', ''-i'', ''--login'', ''-s'', ''--shell''],
        wassignments := True\<rparr>),
     (''doas'', plain_wrapper\<lparr>wvalue := [''-u''], wbool := [''-n'']\<rparr>),
     (''time'', plain_wrapper\<lparr>wvalue := [''-o'', ''--output'', ''-f'', ''--format''],
        wbool := [''-p'', ''--portability'', ''-v'', ''--verbose'', ''-a'', ''--append'', ''-l'']\<rparr>),
     (''nice'', plain_wrapper\<lparr>wvalue := [''-n'', ''--adjustment''], boolPattern := True\<rparr>),
     (''nohup'', plain_wrapper),
     (''caffeinate'', plain_wrapper\<lparr>wvalue := [''-t'', ''-w''], wbool := [''-d'', ''-i'', ''-m'', ''-s'', ''-u'']\<rparr>),
     (''command'', plain_wrapper\<lparr>wbool := [''-p'']\<rparr>),
     (''builtin'', plain_wrapper),
     (''exec'', plain_wrapper\<lparr>wvalue := [''-a''], wbool := [''-c'', ''-l'']\<rparr>),
     (''stdbuf'', plain_wrapper\<lparr>wvalue := [''-i'', ''--input'', ''-o'', ''--output'', ''-e'', ''--error'']\<rparr>),
     (''timeout'', plain_wrapper\<lparr>wvalue := [''-k'', ''--kill-after'', ''-s'', ''--signal''],
        wbool := [''-v'', ''--verbose'', ''--foreground'', ''--preserve-status''], operands := 1\<rparr>),
     (''npx'', plain_wrapper\<lparr>wvalue := [''-p'', ''--package''], wbool := [''-y'', ''--yes'', ''--no'', ''-q'', ''--quiet''], packageSpec := True\<rparr>),
     (''pnpx'', PNPM_DLX),
     (''bunx'', BUN_X),
     (''uvx'', plain_wrapper\<lparr>wvalue := [''--from'', ''--with'', ''-p'', ''--python''],
        wbool := [''-q'', ''--quiet'', ''-v'', ''--verbose'', ''--isolated'', ''--offline''], packageSpec := True\<rparr>),
     (''pnpm dlx'', PNPM_DLX),
     (''yarn dlx'', plain_wrapper\<lparr>wvalue := [''-p'', ''--package''], wbool := [''-q'', ''--quiet''], packageSpec := True\<rparr>),
     (''npm exec'', plain_wrapper\<lparr>wvalue := [''-p'', ''--package'', ''-w'', ''--workspace''],
        wbool := [''-y'', ''--yes'', ''--no'', ''-q'', ''--quiet'', ''-ws'', ''--workspaces''], packageSpec := True\<rparr>),
     (''bun x'', BUN_X)]"

record runner_spec =
  rvalue :: "string list"
  numeric :: "string list"
  dropped_verbs :: "string list"
  rassignments :: bool
  toolchain :: bool

definition plain_runner :: runner_spec where
  "plain_runner = \<lparr>rvalue = [], numeric = [], dropped_verbs = [], rassignments = False, toolchain = False\<rparr>"

definition SCRIPT_RUNNERS :: "(string \<times> runner_spec) list" where
  "SCRIPT_RUNNERS = [
     (''npm'', plain_runner\<lparr>rvalue := [''-C'', ''--prefix'', ''-w'', ''--workspace''], dropped_verbs := [''run'', ''run-script'']\<rparr>),
     (''pnpm'', plain_runner\<lparr>rvalue := [''-C'', ''--dir'', ''-F'', ''--filter''], dropped_verbs := [''run'']\<rparr>),
     (''yarn'', plain_runner\<lparr>rvalue := [''--cwd''], dropped_verbs := [''run'']\<rparr>),
     (''bun'', plain_runner\<lparr>rvalue := [''--cwd'', ''-F'', ''--filter'', ''-c'', ''--config''], dropped_verbs := [''run'']\<rparr>),
     (''cargo'', plain_runner\<lparr>rvalue := [''-C'', ''--color'', ''--config'', ''-Z''], toolchain := True\<rparr>),
     (''make'', plain_runner\<lparr>rvalue := [''-C'', ''--directory'', ''-f'', ''--file'', ''--makefile'', ''-I'', ''--include-dir'', ''-o'', ''--old-file'', ''-W'', ''--what-if''],
        numeric := [''-j'', ''--jobs'', ''-l'', ''--load-average''], rassignments := True\<rparr>),
     (''just'', plain_runner\<lparr>rvalue := [''-f'', ''--justfile'', ''-d'', ''--working-directory'', ''--shell'', ''--dotenv-path'', ''--dotenv-filename'', ''--color''],
        rassignments := True\<rparr>)]"

text \<open>How many words a wrapper's flag takes, none when it is not understood.\<close>

definition flagWidth :: "wrapper_spec \<Rightarrow> string \<Rightarrow> nat" where
  "flagWidth spec word =
     (if word \<in> set (wbool spec) \<or> boolPattern spec \<and> (case word of c # ds \<Rightarrow> c = CHR ''-'' \<and> ds \<noteq> [] \<and> list_all is_digit ds | [] \<Rightarrow> False) then 1
      else if word \<in> set (wvalue spec) then 2
      else if starts_with ''--'' word then
        (if CHR ''='' \<in> set word \<and> takeWhile (\<lambda>c. c \<noteq> CHR ''='') word \<in> set (wvalue spec) \<union> set (wbool spec) then 1 else 0)
      else if length word > 2 \<and> (take 2 word \<in> set (wvalue spec) \<or> list_all (\<lambda>c. [CHR ''-'', c] \<in> set (wbool spec)) (tl word)) then 1
      else 0)"

text \<open>The words after a wrapper's own flags; none when one of them is not understood.\<close>

function skip_flags :: "wrapper_spec \<Rightarrow> string list \<Rightarrow> string list option" where
  "skip_flags spec [] = Some []"
| "skip_flags spec (w # ws) =
     (if w = ''--'' then Some ws
      else if wassignments spec \<and> isEnvAssignment w then skip_flags spec ws
      else if \<not> starts_with ''-'' w then Some (w # ws)
      else if flagWidth spec w = 0 then None
      else skip_flags spec (drop (flagWidth spec w) (w # ws)))"
  by pat_completeness auto
termination by (relation "measure (\<lambda>(spec, ws). length ws)") auto

definition wrappedCommandIndex :: "string list \<Rightarrow> (string list \<times> bool) option" where
  "wrappedCommandIndex ws =
     (let program = commandProgramName (case ws of w # _ \<Rightarrow> w | [] \<Rightarrow> []);
          launcher = map_of TRANSPARENT_WRAPPERS (program @ '' '' @ (case ws of _ # w # _ \<Rightarrow> w | _ \<Rightarrow> []))
      in case (case launcher of Some x \<Rightarrow> Some x | None \<Rightarrow> map_of TRANSPARENT_WRAPPERS program) of
           None \<Rightarrow> None
         | Some spec \<Rightarrow> (case skip_flags spec (drop (if launcher = None then 1 else 2) ws) of
              None \<Rightarrow> None
            | Some r \<Rightarrow> let r' = drop (operands spec) r in if r' = [] then None else Some (r', packageSpec spec)))"

text \<open>The operators of a redirection, in the order the expression tries them; one that a \<open>(\<close> follows
  is not matched, and then the shorter ones are tried.\<close>

definition REDIRECTION_OPERATORS :: "string list" where
  "REDIRECTION_OPERATORS = [''&>>'', ''&>'', ''<&'', ''>&'', ''>|'', ''<>'', ''>>'', ''>'', ''<<<'', ''<<-'', ''<<'', ''<'']"

definition REDIRECTION :: "string \<Rightarrow> string option" where
  "REDIRECTION word =
     (let fd = takeWhile is_digit word; r = dropWhile is_digit word
      in map_option (\<lambda>op. fd @ op)
           (find (\<lambda>op. starts_with op r \<and> \<not> starts_with ''('' (drop (length op) r)) REDIRECTION_OPERATORS))"

fun withoutRedirections :: "string list \<Rightarrow> string list" where
  "withoutRedirections [] = []"
| "withoutRedirections (w # ws) = (case REDIRECTION w of
      None \<Rightarrow> w # withoutRedirections ws
    | Some op \<Rightarrow> if op = w then (case ws of [] \<Rightarrow> [] | _ # r \<Rightarrow> withoutRedirections r) else withoutRedirections ws)"

text \<open>\<open>/^\d+(?:\.\d+)?$/\<close>.\<close>

definition number_word :: "string \<Rightarrow> bool" where
  "number_word s =
     (let r = dropWhile is_digit s
      in s \<noteq> r \<and> (r = [] \<or> (hd r = CHR ''.'' \<and> tl r \<noteq> [] \<and> list_all is_digit (tl r))))"

function runner_loop :: "runner_spec \<Rightarrow> bool \<Rightarrow> string list \<Rightarrow> string option" where
  "runner_loop spec dropped [] = None"
| "runner_loop spec dropped (w # ws) =
     (if starts_with ''-'' w \<and> w \<noteq> ''-'' then
        runner_loop spec dropped
          (if w \<in> set (rvalue spec) \<or> w \<in> set (numeric spec) \<and> number_word (case ws of n # _ \<Rightarrow> n | [] \<Rightarrow> []) then tl ws else ws)
      else if rassignments spec \<and> isEnvAssignment w then runner_loop spec dropped ws
      else if \<not> dropped \<and> w \<in> set (dropped_verbs spec) then runner_loop spec True ws
      else Some w)"
  by pat_completeness auto
termination by (relation "measure (\<lambda>(spec, d, ws). length ws)") auto

definition runnerScript :: "string list \<Rightarrow> runner_spec \<Rightarrow> string option" where
  "runnerScript ws spec =
     runner_loop spec False (if toolchain spec \<and> (case ws of w # _ \<Rightarrow> starts_with ''+'' w | [] \<Rightarrow> False) then tl ws else ws)"

text \<open>\<open>claude@latest\<close> is \<open>claude\<close>: the text before the last \<open>@\<close>, unless it is empty or has a line break.\<close>

definition drop_version :: "string \<Rightarrow> string" where
  "drop_version s =
     (let name = rev (tl (dropWhile (\<lambda>c. c \<noteq> CHR ''@'') (rev s)))
      in if CHR ''@'' \<in> set s \<and> name \<noteq> [] \<and> list_all (\<lambda>c. \<not> line_end c) name then name else s)"

lemma skip_flags_length: "skip_flags spec ws = Some r \<Longrightarrow> length r \<le> length ws"
  by (induction spec ws rule: skip_flags.induct) (auto split: if_splits)

lemma wrapped_Nil: "wrappedCommandIndex [] = None"
  by code_simp

lemma wrapped_shorter: "wrappedCommandIndex ws = Some (r, p) \<Longrightarrow> length r < length ws"
  by (cases ws) (auto simp: wrapped_Nil wrappedCommandIndex_def Let_def split: option.splits if_splits dest!: skip_flags_length)

function strip_wrappers :: "bool \<Rightarrow> string list \<Rightarrow> string list \<times> bool" where
  "strip_wrappers p ws = (let ws1 = dropWhile isEnvAssignment ws in
     case wrappedCommandIndex ws1 of None \<Rightarrow> (ws1, p) | Some (r, q) \<Rightarrow> strip_wrappers q r)"
  by pat_completeness auto
termination
  by (relation "measure (\<lambda>(p, ws). length ws)")
    (auto dest!: wrapped_shorter intro: less_le_trans [OF _ length_dropWhile_le])

declare strip_wrappers.simps [simp del]

definition watchKeyOfCommand :: "string list \<Rightarrow> string option" where
  "watchKeyOfCommand command =
     (let (ws, pkg) = strip_wrappers False (withoutRedirections command);
          name = commandProgramName (case ws of w # _ \<Rightarrow> w | [] \<Rightarrow> []);
          program = (if pkg then drop_version name else name)
      in if CHR '' '' \<in> set program \<or> \<not> isWatchKey program then None
         else case map_of SCRIPT_RUNNERS program of
             None \<Rightarrow> Some program
           | Some spec \<Rightarrow> (case runnerScript (drop 1 ws) spec of
               None \<Rightarrow> Some program
             | Some script \<Rightarrow> Some (if isWatchKey (program @ '' '' @ script) then program @ '' '' @ script else program)))"

definition commandWatchKey :: "string \<Rightarrow> string option" where
  "commandWatchKey raw =
     (let commands = listCommands (tokenizeCommand (js_trim raw));
          words = (if commands = [] then [] else List.last commands)
      in watchKeyOfCommand (takeWhile (\<lambda>t. t \<noteq> ''|'') words))"

section \<open>The title of a command\<close>

definition COMMAND_TITLE_LIMIT :: nat where "COMMAND_TITLE_LIMIT = 48"

definition DEFAULT_COMMAND_TITLE :: string where "DEFAULT_COMMAND_TITLE = ''shell''"

definition commandTitleTokens :: "string list \<Rightarrow> string list" where
  "commandTitleTokens tokens = (case tokens of
      [] \<Rightarrow> []
    | command # rest \<Rightarrow>
        if command = [] then []
        else let program = commandProgramName command; first = (case rest of w # _ \<Rightarrow> w | [] \<Rightarrow> []) in
          if program = ''npm'' \<and> first = ''run'' then program # take 2 rest
          else if program \<in> {''pnpm'', ''yarn'', ''bun''} then program # take 2 rest
          else if program = ''docker'' \<and> first = ''compose'' then program # take 2 rest
          else if program = ''cargo'' \<and> first = ''watch'' then program # take 3 rest
          else if program = ''ssh'' then program # take 1 rest
          else if program \<in> {''vim'', ''nvim'', ''vi'', ''pytest''} then [program]
          else program # take 2 rest)"

definition truncateCommandTitle :: "string \<Rightarrow> string" where
  "truncateCommandTitle title =
     (if length title \<le> COMMAND_TITLE_LIMIT then title
      else js_trimEnd (take (COMMAND_TITLE_LIMIT - 3) title) @ ''...'')"

text \<open>\<open>/\s*\n\s*/\<close> matches a whole run of whitespace when it has a line break, and is replaced by a space.\<close>

function one_line :: "string \<Rightarrow> string" where
  "one_line [] = []"
| "one_line (c # s) =
     (if js_space c then
        (let run = takeWhile js_space (c # s)
         in (if newline \<in> set run then '' '' else run) @ one_line (dropWhile js_space s))
      else c # one_line s)"
  by pat_completeness auto
termination by (relation "measure length") (auto simp: less_Suc_eq_le length_dropWhile_le)

definition summarizeCommandLine :: "string \<Rightarrow> string" where
  "summarizeCommandLine raw =
     (let tokens = tokenizeCommand (js_trim raw); commandTokens = takePrimaryCommandTokens tokens
      in if tokens = [] \<or> commandTokens = [] then DEFAULT_COMMAND_TITLE
         else let suffix = (if ''|'' \<in> set tokens then '' | ...''
                            else if \<exists>t \<in> set tokens. t \<noteq> ''&'' \<and> t \<in> set LIST_SEPARATORS then '' ...'' else [])
              in truncateCommandTitle (one_line (join_with '' '' (commandTitleTokens commandTokens) @ suffix)))"

section \<open>What the reading keeps\<close>

lemma after_word_suffix: "after_word w ws = Some r \<Longrightarrow> suffix r ws"
  unfolding after_word_def using suffix_dropWhile [of "\<lambda>t. t \<noteq> w" ws] by (auto split: list.splits dest: suffix_ConsD)

lemma strip_grammar_suffix: "strip_grammar cn ws = (Some r, cn') \<Longrightarrow> suffix r ws"
proof (induction cn ws rule: strip_grammar.induct)
  case (2 cn w ws)
  have step: "suffix r x \<Longrightarrow> suffix x (w # ws) \<Longrightarrow> suffix r (w # ws)" for x by (rule suffix_order.trans)
  from 2 show ?case
    by (auto split: if_splits option.splits dest!: after_word_suffix intro: step suffix_ConsI)
      (metis step suffix_ConsI suffix_drop suffix_order.trans)+
qed simp

definition separator_free :: "string list \<Rightarrow> bool" where
  "separator_free ws \<longleftrightarrow> (\<forall>w \<in> set ws. w \<notin> set LIST_SEPARATORS)"

text \<open>The commands found so far take their words, in order, from the tokens read, none of them a
  separator or a grouping token.\<close>

definition found_ok :: "string list list \<Rightarrow> string list \<Rightarrow> bool" where
  "found_ok cmds read \<longleftrightarrow> subseq (concat cmds) read \<and>
     (\<forall>ws \<in> set cmds. \<forall>w \<in> set ws. w \<notin> set LIST_SEPARATORS \<and> w \<notin> set GROUPING_TOKENS)"

lemma end_segment_ok:
  assumes "found_ok cmds read" "separator_free seg"
  shows "found_ok (fst (end_segment seg (cmds, cn))) (read @ seg)"
proof -
  have keep: "found_ok cmds (read @ seg)"
    using assms(1) unfolding found_ok_def by (metis append_Nil2 list_emb_Nil list_emb_append_mono)
  have new: "found_ok (cmds @ [filter (\<lambda>t. t \<notin> set GROUPING_TOKENS) ws]) (read @ seg)" if "suffix ws seg" for ws
  proof -
    have "subseq (filter (\<lambda>t. t \<notin> set GROUPING_TOKENS) ws) seg"
      using suffix_imp_subseq [OF that] subseq_filter_left subseq_order.order_trans by blast
    then have "subseq (concat (cmds @ [filter (\<lambda>t. t \<notin> set GROUPING_TOKENS) ws])) (read @ seg)"
      using assms(1) list_emb_append_mono [of "(=)" "concat cmds" read] unfolding found_ok_def by simp
    moreover have "set ws \<subseteq> set seg" using that by (rule set_mono_suffix)
    ultimately show ?thesis using assms unfolding found_ok_def separator_free_def by fastforce
  qed
  obtain found cn' where g: "strip_grammar cn seg = (found, cn')" by fastforce
  show ?thesis
  proof (cases found)
    case None
    then show ?thesis using keep assms(1) g by (simp add: end_segment_def)
  next
    case (Some ws)
    then show ?thesis using keep assms(1) g new [OF strip_grammar_suffix, of cn ws cn'] by (simp add: end_segment_def)
  qed
qed

lemma list_loop_ok:
  "found_ok (fst st) read \<Longrightarrow> separator_free seg \<Longrightarrow> found_ok (list_loop seg ts st) (read @ seg @ ts)"
proof (induction seg ts st arbitrary: read rule: list_loop.induct)
  case (1 seg st)
  then show ?case using end_segment_ok by (cases st) auto
next
  case (2 seg t ts st)
  show ?case
  proof (cases "t \<in> set LIST_SEPARATORS")
    case False
    then show ?thesis using 2 by (auto simp: separator_free_def)
  next
    case True
    obtain cmds cn where e: "end_segment seg st = (cmds, cn)" by fastforce
    have "found_ok cmds (read @ seg)" using end_segment_ok [OF 2(3,4)] e by (cases st) (metis fst_conv prod.collapse)
    then have "found_ok cmds (read @ seg @ [t])"
      unfolding found_ok_def by (metis append.assoc append_Nil2 list_emb_Nil list_emb_append_mono)
    then show ?thesis using 2(2) [OF _ e [symmetric] refl, of "read @ seg @ [t]"] True e by (auto simp: separator_free_def)
  qed
qed

lemma listCommands_ok:
  "subseq (concat (listCommands tokens)) tokens"
  "ws \<in> set (listCommands tokens) \<Longrightarrow> ws \<noteq> [] \<and> (\<forall>w \<in> set ws. w \<notin> set LIST_SEPARATORS \<and> w \<notin> set GROUPING_TOKENS)"
proof -
  have f: "found_ok (list_loop [] tokens ([], None)) tokens"
    using list_loop_ok [of "([], None)" "[]" "[]" tokens] by (simp add: found_ok_def separator_free_def)
  have "concat (filter (\<lambda>ws. ws \<noteq> []) xs) = concat xs" for xs :: "string list list" by (induction xs) auto
  then show "subseq (concat (listCommands tokens)) tokens" using f by (simp add: listCommands_def found_ok_def)
  show "ws \<in> set (listCommands tokens) \<Longrightarrow> ws \<noteq> [] \<and> (\<forall>w \<in> set ws. w \<notin> set LIST_SEPARATORS \<and> w \<notin> set GROUPING_TOKENS)"
    using f by (auto simp: listCommands_def found_ok_def)
qed

lemma one_line_no_break: "newline \<notin> set (one_line s)"
proof (induction s rule: one_line.induct)
  case (2 c s)
  have "js_space newline" by (simp add: js_space_def)
  then show ?case using 2 by (auto simp: Let_def dest: set_takeWhileD)
qed simp

lemma truncate_ok: "length (truncateCommandTitle t) \<le> COMMAND_TITLE_LIMIT" "newline \<notin> set t \<Longrightarrow> newline \<notin> set (truncateCommandTitle t)"
proof -
  obtain r where r: "take (COMMAND_TITLE_LIMIT - 3) t = js_trimEnd (take (COMMAND_TITLE_LIMIT - 3) t) @ r"
    using js_trimEnd_prefix by blast
  then have "length (js_trimEnd (take (COMMAND_TITLE_LIMIT - 3) t)) \<le> COMMAND_TITLE_LIMIT - 3"
    by (metis length_append length_take min.cobounded2 add_leD1)
  then show "length (truncateCommandTitle t) \<le> COMMAND_TITLE_LIMIT"
    by (simp add: truncateCommandTitle_def COMMAND_TITLE_LIMIT_def)
  show "newline \<notin> set t \<Longrightarrow> newline \<notin> set (truncateCommandTitle t)"
    using r in_set_takeD [of newline "COMMAND_TITLE_LIMIT - 3" t] unfolding truncateCommandTitle_def
    by (auto simp del: take_append) (metis Un_iff set_append)
qed

lemma script_runner_names: "map_of SCRIPT_RUNNERS p = Some spec \<Longrightarrow> p \<in> set (map fst SCRIPT_RUNNERS)"
  by (metis (mono_tags) domI dom_map_of_conv_image_fst list.set_map)

lemma first_word: "d \<notin> set p \<Longrightarrow> takeWhile (\<lambda>c. c \<noteq> d) (p @ d # s) = p"
  by (induction p) auto

lemma key_form:
  assumes "watchKeyOfCommand c = Some k"
  shows "isWatchKey k \<and> (CHR '' '' \<in> set k \<longrightarrow> takeWhile (\<lambda>c. c \<noteq> CHR '' '') k \<in> set (map fst SCRIPT_RUNNERS))"
proof -
  obtain ws pkg where "strip_wrappers False (withoutRedirections c) = (ws, pkg)" by fastforce
  then obtain p where p: "CHR '' '' \<notin> set p" "isWatchKey p"
    "k = p \<or> (\<exists>spec script. map_of SCRIPT_RUNNERS p = Some spec \<and> k = p @ CHR '' '' # script \<and> isWatchKey k)"
    using assms by (auto simp: watchKeyOfCommand_def Let_def split: if_splits option.splits)
  from p(3) show ?thesis
  proof (elim disjE exE conjE)
    assume "k = p" then show ?thesis using p by simp
  next
    fix spec script assume "map_of SCRIPT_RUNNERS p = Some spec" "k = p @ CHR '' '' # script" "isWatchKey k"
    then show ?thesis using script_runner_names first_word [OF p(1)] by simp
  qed
qed

section \<open>Properties\<close>

text \<open>C40: The key a command line is watched under is well formed: it is a watch key, and if it has two words
  the first is a script runner. It comes from one of the simple commands of the line, whose words
  are tokens of the line in their order, none of them a separator or a grouping token.\<close>

theorem watch_key_wellformed:
  assumes "commandWatchKey raw = Some k"
  shows "isWatchKey k \<and> (CHR '' '' \<in> set k \<longrightarrow> takeWhile (\<lambda>c. c \<noteq> CHR '' '') k \<in> set (map fst SCRIPT_RUNNERS)) \<and>
    (\<exists>ws \<in> set (listCommands (tokenizeCommand (js_trim raw))). watchKeyOfCommand (takeWhile (\<lambda>t. t \<noteq> ''|'') ws) = Some k \<and>
       subseq ws (tokenizeCommand (js_trim raw)) \<and> (\<forall>w \<in> set ws. w \<notin> set LIST_SEPARATORS \<and> w \<notin> set GROUPING_TOKENS))"
proof -
  let ?ts = "tokenizeCommand (js_trim raw)"
  let ?ws = "List.last (listCommands ?ts)"
  have ne: "listCommands ?ts \<noteq> []"
  proof
    assume "listCommands ?ts = []"
    then have "watchKeyOfCommand [] = Some k" using assms by (simp add: commandWatchKey_def)
    moreover have "watchKeyOfCommand [] = None" by code_simp
    ultimately show False by simp
  qed
  then have key: "watchKeyOfCommand (takeWhile (\<lambda>t. t \<noteq> ''|'') ?ws) = Some k" using assms by (simp add: commandWatchKey_def Let_def)
  have ws: "?ws \<in> set (listCommands ?ts)" using ne by simp
  then obtain a b where "listCommands ?ts = a @ ?ws # b" by (meson split_list)
  then have "subseq ?ws (concat (listCommands ?ts))" by (metis concat.simps(2) concat_append list_emb_append2 subseq_order.refl append.right_neutral subseq_append_iff list_emb_Nil)
  then have sub: "subseq ?ws ?ts" using listCommands_ok(1) subseq_order.order_trans by blast
  show ?thesis using key_form [OF key] first_word key ws sub listCommands_ok(2) [OF ws] by blast
qed

theorem watch_key_wellformed_witness:
  "isWatchKey ''pnpm dev'' \<and> (\<exists>ws \<in> set (listCommands (tokenizeCommand (js_trim ''cd web && sudo pnpm run dev | tee log''))).
     watchKeyOfCommand (takeWhile (\<lambda>t. t \<noteq> ''|'') ws) = Some ''pnpm dev'')"
proof -
  have "commandWatchKey ''cd web && sudo pnpm run dev | tee log'' = Some ''pnpm dev''" by code_simp
  from watch_key_wellformed [OF this] show ?thesis by blast
qed

text \<open>The title a command line is shown with has at most 48 characters and one line.\<close>

theorem command_title_bounded:
  "length (summarizeCommandLine raw) \<le> 48 \<and> newline \<notin> set (summarizeCommandLine raw)"
  using truncate_ok one_line_no_break
  by (simp add: summarizeCommandLine_def Let_def) (simp add: COMMAND_TITLE_LIMIT_def DEFAULT_COMMAND_TITLE_def)

text \<open>The check for a watch key accepts any two words, although only a script runner's key has two.\<close>

lemma watch_key_unreachable: "isWatchKey ''foo bar'' \<and> commandWatchKey raw \<noteq> Some ''foo bar''"
proof
  show "isWatchKey ''foo bar''" by code_simp
  show "commandWatchKey raw \<noteq> Some ''foo bar''"
  proof
    assume "commandWatchKey raw = Some ''foo bar''"
    then have "takeWhile (\<lambda>c. c \<noteq> CHR '' '') ''foo bar'' \<in> set (map fst SCRIPT_RUNNERS)"
      using key_form unfolding commandWatchKey_def Let_def by fastforce
    then have "''foo'' \<in> set (map fst SCRIPT_RUNNERS)" by simp
    moreover have "''foo'' \<notin> set (map fst SCRIPT_RUNNERS)" by code_simp
    ultimately show False by blast
  qed
qed

text \<open>A program path that ends in a separator leaves no name, and the title is empty.\<close>

lemma empty_title: "summarizeCommandLine ''./'' = []"
  by code_simp

end
