(* ===== verification/Terminal_Cwd.thy ===== *)
theory Terminal_Cwd
  imports Terminal_Command
begin

text \<open>
  Working directories as terminals report them (\<open>lib/src/lib/terminal-state.ts\<close>): where they come from,
  their identity, how they are compared across the dialects of Windows, and the labels that tell
  them apart. The URL parser of the platform and \<open>decodeURIComponent\<close>, which yields text outside the
  model's characters, are parameters of the reading of OSC 7.
\<close>

section \<open>Paths\<close>

datatype cwd_source = Osc7 | Osc9_9 | Osc633 | Osc1337 | ProcessCwd | ManualCwd

datatype path_kind = Posix | Windows | UnknownPath

record cwd_state =
  curi :: "string option"
  cpath :: string
  chost :: "string option"
  cscheme :: "string option"
  pathKind :: path_kind
  isRemote :: bool
  csource :: cwd_source
  cupdated :: rat

definition MAX_CWD_LENGTH :: nat where "MAX_CWD_LENGTH = 4096"

definition boundedCwdValue :: "string \<Rightarrow> string" where
  "boundedCwdValue v = take MAX_CWD_LENGTH (filter (\<lambda>c. \<not> is_control c) v)"

definition isUncOrDevicePath :: "string \<Rightarrow> bool" where
  "isUncOrDevicePath p = (case p of a # b # _ \<Rightarrow> path_sep a \<and> path_sep b | _ \<Rightarrow> False)"

definition isWindowsPath :: "string \<Rightarrow> bool" where
  "isWindowsPath p = ((case p of a # b # r \<Rightarrow> is_letter a \<and> b = CHR '':'' \<and> (case r of [] \<Rightarrow> True | c # _ \<Rightarrow> path_sep c) | _ \<Rightarrow> False) \<or>
     isUncOrDevicePath p)"

definition inferPathKind :: "string \<Rightarrow> path_kind" where
  "inferPathKind p = (if isWindowsPath p then Windows else if starts_with ''/'' p \<or> starts_with ''~/'' p then Posix else UnknownPath)"

definition normalizeFileUriPath :: "string \<Rightarrow> string" where
  "normalizeFileUriPath p = (case p of a # b # c # d # _ \<Rightarrow>
      if a = CHR ''/'' \<and> is_letter b \<and> c = CHR '':'' \<and> d = CHR ''/'' then tl p else p | _ \<Rightarrow> p)"

definition isRemoteFileHost :: "string option \<Rightarrow> bool" where
  "isRemoteFileHost h = (case h of None \<Rightarrow> False | Some s \<Rightarrow> s \<noteq> [] \<and> map lower_char s \<noteq> ''localhost'')"

section \<open>Where a directory comes from\<close>

definition cwdFromDecodedPath :: "string \<Rightarrow> cwd_source \<Rightarrow> rat \<Rightarrow> cwd_state option" where
  "cwdFromDecodedPath raw src now =
     (let p = boundedCwdValue raw
      in if p = [] then None
         else Some \<lparr>curi = None, cpath = p, chost = None, cscheme = None, pathKind = inferPathKind p,
                    isRemote = isUncOrDevicePath p, csource = src, cupdated = now\<rparr>)"

definition cwdFromOsc9_9 :: "string \<Rightarrow> rat \<Rightarrow> cwd_state option" where
  "cwdFromOsc9_9 raw now =
     (let p = boundedCwdValue raw
      in if p = [] then None
         else Some \<lparr>curi = None, cpath = p, chost = None, cscheme = None, pathKind = (if isWindowsPath p then Windows else UnknownPath),
                    isRemote = isUncOrDevicePath p, csource = Osc9_9, cupdated = now\<rparr>)"

definition cwdFromOsc633 :: "string \<Rightarrow> rat \<Rightarrow> cwd_state option" where
  "cwdFromOsc633 raw now = cwdFromDecodedPath raw Osc633 now"

definition cwdFromOsc1337 :: "string \<Rightarrow> rat \<Rightarrow> cwd_state option" where
  "cwdFromOsc1337 raw now = cwdFromDecodedPath raw Osc1337 now"

definition cwdFromProcessPath :: "string \<Rightarrow> rat \<Rightarrow> cwd_state option" where
  "cwdFromProcessPath raw now = cwdFromDecodedPath raw ProcessCwd now"

definition cwdFromManualPath :: "string \<Rightarrow> rat \<Rightarrow> cwd_state option" where
  "cwdFromManualPath raw now = cwdFromDecodedPath raw ManualCwd now"

text \<open>What the platform does with a URL.\<close>

record parsed_url =
  protocol :: string
  pathname :: string
  hostname :: string

record url_services =
  parse_url :: "string \<Rightarrow> parsed_url option"
  decodeURIComponent :: "string \<Rightarrow> string option"

definition safeDecodeURIComponent :: "url_services \<Rightarrow> string \<Rightarrow> string" where
  "safeDecodeURIComponent U v = (case decodeURIComponent U v of Some d \<Rightarrow> d | None \<Rightarrow> v)"

definition extractFileUriHost :: "url_services \<Rightarrow> string \<Rightarrow> string option" where
  "extractFileUriHost U uri =
     (if starts_with ''file://'' (map lower_char (take 7 uri))
      then (let h = takeWhile (\<lambda>c. c \<notin> set ''/?#'') (drop 7 uri) in if h = [] then None else Some (safeDecodeURIComponent U h))
      else None)"

definition fileUriHost :: "url_services \<Rightarrow> string \<Rightarrow> string \<Rightarrow> string" where
  "fileUriHost U uri parsedHostname = (case extractFileUriHost U uri of
      None \<Rightarrow> parsedHostname
    | Some sliced \<Rightarrow>
        if sliced = [] then parsedHostname
        else if map lower_char sliced = parsedHostname then sliced
        else if parsedHostname = [] \<and> map lower_char sliced = ''localhost'' then sliced
        else parsedHostname)"

definition cwdFromOsc7 :: "url_services \<Rightarrow> string \<Rightarrow> rat \<Rightarrow> cwd_state option" where
  "cwdFromOsc7 U rawUriInput now =
     (let rawUri = boundedCwdValue rawUriInput
      in case parse_url U rawUri of
           None \<Rightarrow> None
         | Some parsed \<Rightarrow>
             if protocol parsed \<noteq> ''file:'' then None
             else let decodedPath = boundedCwdValue (normalizeFileUriPath (safeDecodeURIComponent U (pathname parsed)));
                      h = boundedCwdValue (fileUriHost U rawUri (hostname parsed));
                      host = (if h = [] then None else Some h)
                  in Some \<lparr>curi = Some rawUri, cpath = decodedPath, chost = host, cscheme = Some ''file'', pathKind = inferPathKind decodedPath,
                           isRemote = (isRemoteFileHost host \<or> isUncOrDevicePath decodedPath), csource = Osc7, cupdated = now\<rparr>)"

definition processCwdMayReplace :: "cwd_source option \<Rightarrow> bool" where
  "processCwdMayReplace src = (src \<in> {None, Some ProcessCwd, Some ManualCwd})"

section \<open>Identity\<close>

fun path_kind_name :: "path_kind \<Rightarrow> string" where
  "path_kind_name Posix = ''posix''"
| "path_kind_name Windows = ''windows''"
| "path_kind_name UnknownPath = ''unknown''"

definition cwdIdentity :: "cwd_state \<Rightarrow> string" where
  "cwdIdentity c = (case cscheme c of None \<Rightarrow> ''path'' | Some s \<Rightarrow> s) @ ''|'' @ (case chost c of None \<Rightarrow> [] | Some h \<Rightarrow> h) @ ''|'' @
     path_kind_name (pathKind c) @ ''|'' @ cpath c"

definition sameCwd :: "cwd_state \<Rightarrow> cwd_state \<Rightarrow> bool" where
  "sameCwd a b = (cwdIdentity a = cwdIdentity b \<and> csource a = csource b)"

text \<open>\<open>/c/Users\<close>, \<open>c:/Users\<close> and \<open>C:\Users\<close> are one directory; a POSIX path stays as it is.\<close>

definition canonicalizeCwdForMatch :: "string \<Rightarrow> string" where
  "canonicalizeCwdForMatch p =
     (let withDrive = (case p of a # d # b # r \<Rightarrow> if a = CHR ''/'' \<and> is_letter d \<and> b = CHR ''/'' then d # CHR '':'' # CHR ''/'' # r else p | _ \<Rightarrow> p)
      in case withDrive of
           a # b # c # r \<Rightarrow>
             if is_letter a \<and> b = CHR '':'' \<and> path_sep c
             then (if is_lower a then char_of (of_char a - 32 :: nat) else a) # b #
                    map (\<lambda>x. if x = CHR ''/'' then bslash else x) (c # r)
             else p
         | _ \<Rightarrow> p)"

definition cwdPathsEqual :: "string option \<Rightarrow> string option \<Rightarrow> bool" where
  "cwdPathsEqual a b = (case (a, b) of
      (Some x, Some y) \<Rightarrow> x \<noteq> [] \<and> y \<noteq> [] \<and> canonicalizeCwdForMatch x = canonicalizeCwdForMatch y
    | _ \<Rightarrow> False)"

section \<open>Labels\<close>

datatype include_host = HostAuto | HostAlways | HostNever

datatype display_style = BasenameStyle | ShortStyle | FullStyle

record display_options =
  includeHost :: include_host
  dstyle :: display_style
  maxSegments :: nat
  homePath :: "string option"

definition default_options :: display_options where
  "default_options = \<lparr>includeHost = HostAuto, dstyle = ShortStyle, maxSegments = 2, homePath = None\<rparr>"

definition DEFAULT_DIRECTORY_LABEL :: string where "DEFAULT_DIRECTORY_LABEL = ''Unknown directory''"

definition slashes :: "string \<Rightarrow> string" where
  "slashes p = map (\<lambda>c. if c = CHR ''/'' then bslash else c) p"

definition segments_of :: "char \<Rightarrow> string \<Rightarrow> string list" where
  "segments_of d p = filter (\<lambda>s. s \<noteq> []) (split_on d p)"

text \<open>\<open>/^\\\\([^\\]+)\\([^\\]+)\\?(.*)$/\<close> on a path whose slashes are backslashes; \<open>.\<close> stops at a line
  break, but a reported path has none. The host, the share and what follows.\<close>

definition unc_parts :: "string \<Rightarrow> (string \<times> string \<times> string) option" where
  "unc_parts p = (case p of
      a # b # r \<Rightarrow>
        if a = bslash \<and> b = bslash then
          (let h = takeWhile (\<lambda>c. c \<noteq> bslash) r; r1 = drop (length h + 1) r; s = takeWhile (\<lambda>c. c \<noteq> bslash) r1
           in if h = [] \<or> s = [] then None else Some (h, s, drop (length s + 1) r1))
        else None
    | _ \<Rightarrow> None)"

definition pathParts :: "string \<Rightarrow> path_kind \<Rightarrow> string \<times> string list \<times> string" where
  "pathParts p kind =
     (if kind = Windows then
        (let n = slashes p in
         case unc_parts n of
           Some (h, s, rest) \<Rightarrow> ([bslash, bslash] @ h @ [bslash] @ s @ [bslash], segments_of bslash rest, [bslash])
         | None \<Rightarrow> (case n of
             a # b # r \<Rightarrow> if is_letter a \<and> b = CHR '':'' then ([a, b, bslash], segments_of bslash (if starts_with [bslash] r then tl r else r), [bslash])
                          else ([], segments_of bslash n, [bslash])
           | _ \<Rightarrow> ([], segments_of bslash n, [bslash])))
      else (if starts_with ''/'' p then ''/'' else [], segments_of CHR ''/'' p, ''/''))"

definition formatTrailingPath :: "string \<Rightarrow> path_kind \<Rightarrow> nat \<Rightarrow> string" where
  "formatTrailingPath p kind depth =
     (let (root, segments, separator) = pathParts p kind
      in if segments = [] then (if root \<noteq> [] then root else if p \<noteq> [] then p else DEFAULT_DIRECTORY_LABEL)
         else let tail = join_with separator (drop (length segments - max 1 depth) segments)
              in if kind = Windows \<and> root \<noteq> [] \<and> depth \<ge> length segments then root @ tail else tail)"

definition formatFullPath :: "string \<Rightarrow> string option \<Rightarrow> string" where
  "formatFullPath p home_path = (case home_path of
      None \<Rightarrow> p
    | Some home0 \<Rightarrow>
        if home0 = [] then p
        else let norm = (\<lambda>v. if isWindowsPath home0 then map lower_char (map (\<lambda>c. if c = bslash then CHR ''/'' else c) v) else v);
                 h0 = norm home0;
                 home = (if ends_with ''/'' h0 then butlast h0 else h0);
                 candidate = norm p
             in if candidate = home \<or> starts_with (home @ ''/'') candidate then CHR ''~'' # drop (length home) p else p)"

definition cwdDisplay :: "cwd_state \<Rightarrow> display_options \<Rightarrow> string" where
  "cwdDisplay c opts =
     (let label = (if dstyle opts = FullStyle then formatFullPath (cpath c) (homePath opts)
                   else formatTrailingPath (cpath c) (pathKind c) (if dstyle opts = BasenameStyle then 1 else maxSegments opts));
          host = (case chost c of None \<Rightarrow> [] | Some h \<Rightarrow> h)
      in if (includeHost opts = HostAlways \<or> includeHost opts = HostAuto \<and> isRemote c \<and> host \<noteq> []) \<and> host \<noteq> []
         then host @ '':'' @ label else label)"

definition uniqueByIdentity :: "cwd_state list \<Rightarrow> cwd_state list" where
  "uniqueByIdentity cs = foldl (\<lambda>acc c. if cwdIdentity c \<in> set (map cwdIdentity acc) then acc else acc @ [c]) [] cs"

text \<open>A map from identities to labels; the loops over a group write every cwd of it.\<close>

definition findLabelCollisions :: "cwd_state list \<Rightarrow> (string \<rightharpoonup> string) \<Rightarrow> string list" where
  "findLabelCollisions cs labels =
     (let ls = filter (\<lambda>l. l \<noteq> []) (map (\<lambda>c. case labels (cwdIdentity c) of None \<Rightarrow> [] | Some l \<Rightarrow> l) cs)
      in filter (\<lambda>l. length (filter (\<lambda>k. k = l) ls) > 1) ls)"

definition host_of :: "cwd_state \<Rightarrow> string" where
  "host_of c = (case chost c of None \<Rightarrow> [] | Some h \<Rightarrow> h)"

definition prefixed_label :: "cwd_state list \<Rightarrow> (cwd_state \<Rightarrow> string) \<Rightarrow> include_host \<Rightarrow> cwd_state \<Rightarrow> string" where
  "prefixed_label cs base mode c =
     (let label = base c; group = filter (\<lambda>d. base d = label) cs;
          hasCollision = (length group > 1);
          samePathDifferentHosts = (card (set (map cpath group)) < length group \<and> card (set (map host_of group)) > 1)
      in if label \<noteq> [] \<and> (mode = HostAlways \<or> mode = HostAuto \<and> host_of c \<noteq> [] \<and> (isRemote c \<or> hasCollision \<and> samePathDifferentHosts)) \<and> host_of c \<noteq> []
         then host_of c @ '':'' @ label else label)"

definition withRequiredHostPrefixes :: "cwd_state list \<Rightarrow> (cwd_state \<Rightarrow> string) \<Rightarrow> display_options \<Rightarrow> string \<rightharpoonup> string" where
  "withRequiredHostPrefixes cs base opts = map_of (map (\<lambda>c. (cwdIdentity c, prefixed_label cs base (includeHost opts) c)) cs)"

fun label_loop :: "cwd_state list \<Rightarrow> display_options \<Rightarrow> nat \<Rightarrow> nat \<Rightarrow> (string \<rightharpoonup> string) \<Rightarrow> bool \<times> (string \<rightharpoonup> string)" where
  "label_loop cs opts depth 0 labels = (False, labels)"
| "label_loop cs opts depth (Suc n) labels =
     (let l = withRequiredHostPrefixes cs (\<lambda>c. formatTrailingPath (cpath c) (pathKind c) depth) opts
      in if findLabelCollisions cs l = [] then (True, l) else label_loop cs opts (depth + 1) n l)"

definition shortestUniqueCwdLabels :: "cwd_state list \<Rightarrow> display_options \<Rightarrow> string \<rightharpoonup> string" where
  "shortestUniqueCwdLabels cwds opts =
     (let cs = uniqueByIdentity cwds in
      if cs = [] then Map.empty
      else let maxDepth = fold max (map (\<lambda>c. length (fst (snd (pathParts (cpath c) (pathKind c))))) cs) 1;
               (done, labels) = label_loop cs opts 1 maxDepth Map.empty
           in if done then labels
              else let collisions = findLabelCollisions cs labels
                   in map_of (map (\<lambda>c.
                        let label = (case labels (cwdIdentity c) of Some l \<Rightarrow> l | None \<Rightarrow> cwdDisplay c opts);
                            needsHost = (includeHost opts = HostAlways \<or> includeHost opts = HostAuto \<and> (isRemote c \<or> label \<in> set collisions))
                        in (cwdIdentity c, if needsHost \<and> host_of c \<noteq> [] then host_of c @ '':'' @ label else label)) cs))"

section \<open>Facts\<close>

definition clean_value :: "string \<Rightarrow> bool" where
  "clean_value v \<longleftrightarrow> length v \<le> MAX_CWD_LENGTH \<and> (\<forall>c \<in> set v. \<not> is_control c)"

lemma clean_Nil [simp]: "clean_value []"
  by (simp add: clean_value_def)

lemma bounded_clean: "clean_value (boundedCwdValue v)"
  by (auto simp: clean_value_def boundedCwdValue_def dest: in_set_takeD)

lemma uniqueByIdentity_ok:
  "distinct (map cwdIdentity (uniqueByIdentity cs)) \<and> cwdIdentity ` set (uniqueByIdentity cs) = cwdIdentity ` set cs"
proof -
  define f where "f = (\<lambda>acc c. if cwdIdentity c \<in> set (map cwdIdentity acc) then acc else acc @ [c])"
  have "distinct (map cwdIdentity acc) \<Longrightarrow> distinct (map cwdIdentity (foldl f acc cs)) \<and>
      cwdIdentity ` set (foldl f acc cs) = cwdIdentity ` (set acc \<union> set cs)" for acc
  proof (induction cs arbitrary: acc)
    case (Cons c cs)
    then show ?case using Cons.IH [of "f acc c"] by (auto simp: f_def)
  qed simp
  from this [of "[]"] show ?thesis by (simp add: uniqueByIdentity_def f_def)
qed

lemma formatTrailingPath_nonempty: "formatTrailingPath p kind depth \<noteq> []"
proof -
  obtain root segments separator where parts: "pathParts p kind = (root, segments, separator)" by (metis prod_cases3)
  have ne: "s \<noteq> []" if "s \<in> set segments" for s
    using parts that by (auto simp: pathParts_def segments_of_def Let_def split: if_splits option.splits list.splits prod.splits)
  have join: "join_with separator xs \<noteq> []" if "xs \<noteq> []" "set xs \<subseteq> set segments" for xs
    using that ne by (cases xs) auto
  have "join_with separator (drop (length segments - max 1 depth) segments) \<noteq> []" if "segments \<noteq> []"
    using that by (intro join set_drop_subset) (cases segments; simp)
  then show ?thesis using parts by (simp add: formatTrailingPath_def Let_def DEFAULT_DIRECTORY_LABEL_def)
qed

lemma prefixed_nonempty: "base c \<noteq> [] \<Longrightarrow> prefixed_label cs base mode c \<noteq> []"
  by (simp add: prefixed_label_def Let_def)

text \<open>The labels of one depth.\<close>

definition labels_at :: "cwd_state list \<Rightarrow> display_options \<Rightarrow> nat \<Rightarrow> string \<rightharpoonup> string" where
  "labels_at cs opts depth = withRequiredHostPrefixes cs (\<lambda>c. formatTrailingPath (cpath c) (pathKind c) depth) opts"

lemma labels_at_dom: "dom (labels_at cs opts d) = cwdIdentity ` set cs"
  by (auto simp: labels_at_def withRequiredHostPrefixes_def dom_map_of_conv_image_fst image_image)

lemma labels_at_nonempty: "labels_at cs opts d i = Some l \<Longrightarrow> l \<noteq> []"
proof -
  have "prefixed_label cs (\<lambda>c. formatTrailingPath (cpath c) (pathKind c) d) m c \<noteq> []" for m c
    by (rule prefixed_nonempty) (rule formatTrailingPath_nonempty)
  then show "labels_at cs opts d i = Some l \<Longrightarrow> l \<noteq> []"
    by (auto simp: labels_at_def withRequiredHostPrefixes_def dest!: map_of_SomeD) metis
qed

lemma distinct_if_counts: "(\<And>l. l \<in> set xs \<Longrightarrow> count_list xs l \<le> 1) \<Longrightarrow> distinct xs"
proof (induction xs)
  case (Cons x xs)
  have "count_list xs x = 0" using Cons.prems [of x] by simp
  moreover have "count_list xs l \<le> 1" if "l \<in> set xs" for l using Cons.prems [of l] that by (simp split: if_splits)
  ultimately show ?case using Cons.IH by (simp add: count_list_0_iff)
qed simp

lemma no_collision_distinct:
  assumes "findLabelCollisions cs labels = []" "\<And>c. c \<in> set cs \<Longrightarrow> \<exists>l. labels (cwdIdentity c) = Some l \<and> l \<noteq> []"
    and "distinct (map cwdIdentity cs)"
  shows "inj_on labels (cwdIdentity ` set cs)"
proof -
  let ?l = "\<lambda>c. case labels (cwdIdentity c) of None \<Rightarrow> [] | Some l \<Rightarrow> l"
  have "filter (\<lambda>l. l \<noteq> []) (map ?l cs) = map ?l cs" using assms(2) by (intro filter_True) fastforce
  then have "\<forall>l \<in> set (map ?l cs). \<not> 1 < length (filter (\<lambda>k. k = l) (map ?l cs))"
    using assms(1) unfolding findLabelCollisions_def Let_def by (simp only: filter_empty_conv)
  moreover have "count_list xs l = length (filter (\<lambda>k. k = l) xs)" for xs :: "string list" and l by (induction xs) auto
  ultimately have "\<And>l. l \<in> set (map ?l cs) \<Longrightarrow> count_list (map ?l cs) l \<le> 1" by (simp only: not_less)
  then have "distinct (map ?l cs)" by (rule distinct_if_counts)
  then have "inj_on ?l (set cs)" by (simp add: distinct_map)
  show ?thesis
  proof (rule inj_onI)
    fix x y assume "x \<in> cwdIdentity ` set cs" "y \<in> cwdIdentity ` set cs" "labels x = labels y"
    then obtain c d where "c \<in> set cs" "d \<in> set cs" "x = cwdIdentity c" "y = cwdIdentity d" "?l c = ?l d" by auto
    with \<open>inj_on ?l (set cs)\<close> show "x = y" by (auto dest: inj_onD)
  qed
qed

lemma label_loop_done:
  "label_loop cs opts d n l0 = (True, l) \<Longrightarrow> \<exists>k. l = labels_at cs opts k \<and> findLabelCollisions cs l = []"
  by (induction cs opts d n l0 rule: label_loop.induct) (auto simp: Let_def labels_at_def split: if_splits)

lemma label_loop_finds:
  "findLabelCollisions cs (labels_at cs opts k) = [] \<Longrightarrow> d \<le> k \<Longrightarrow> k < d + n \<Longrightarrow> fst (label_loop cs opts d n l0)"
proof (induction n arbitrary: d l0)
  case (Suc n)
  then show ?case by (cases "k = d") (auto simp: Let_def labels_at_def)
qed simp

definition max_depth :: "cwd_state list \<Rightarrow> nat" where
  "max_depth cs = fold max (map (\<lambda>c. length (fst (snd (pathParts (cpath c) (pathKind c))))) cs) 1"

lemma labels_dom: "dom (shortestUniqueCwdLabels cwds opts) = cwdIdentity ` set cwds"
proof (cases "uniqueByIdentity cwds = []")
  case True
  then show ?thesis using uniqueByIdentity_ok [of cwds] by (simp add: shortestUniqueCwdLabels_def)
next
  case False
  let ?cs = "uniqueByIdentity cwds"
  obtain b l where l: "label_loop ?cs opts 1 (max_depth ?cs) Map.empty = (b, l)" by fastforce
  show ?thesis
  proof (cases b)
    case True
    then obtain j where "l = labels_at ?cs opts j" using label_loop_done [of ?cs opts 1 "max_depth ?cs" Map.empty l] l by auto
    then have "dom l = cwdIdentity ` set cwds" using labels_at_dom uniqueByIdentity_ok by simp
    then show ?thesis using False True l unfolding shortestUniqueCwdLabels_def max_depth_def by (simp add: Let_def)
  next
    case no: False
    have "fst ` set (map (\<lambda>c. (cwdIdentity c, f c)) ?cs) = cwdIdentity ` set cwds" for f :: "cwd_state \<Rightarrow> string"
      using uniqueByIdentity_ok [of cwds] by (simp add: image_image)
    then show ?thesis using False no l unfolding shortestUniqueCwdLabels_def max_depth_def by (simp add: Let_def dom_map_of_conv_image_fst)
  qed
qed

text \<open>A path with a drive, in either dialect: the drive and what follows.\<close>

definition drive_of :: "string \<Rightarrow> (char \<times> string) option" where
  "drive_of p = (case p of
      a # b # c # r \<Rightarrow>
        if a = CHR ''/'' \<and> is_letter b \<and> c = CHR ''/'' then Some (b, c # r)
        else if is_letter a \<and> b = CHR '':'' \<and> path_sep c then Some (a, c # r) else None
    | _ \<Rightarrow> None)"

definition upper_drive :: "char \<Rightarrow> char" where
  "upper_drive a = (if is_lower a then char_of (of_char a - 32 :: nat) else a)"

lemma canonicalize_drive:
  "canonicalizeCwdForMatch p = (case drive_of p of None \<Rightarrow> p | Some (d, r) \<Rightarrow> upper_drive d # CHR '':'' # slashes r)"
proof -
  have "\<not> is_letter CHR ''/''" by code_simp
  then show ?thesis
    by (auto simp: canonicalizeCwdForMatch_def drive_of_def upper_drive_def slashes_def path_sep_def Let_def split: list.splits)
qed

lemma labels_inj:
  assumes "k \<in> {1..max_depth (uniqueByIdentity cwds)}"
    and "findLabelCollisions (uniqueByIdentity cwds) (labels_at (uniqueByIdentity cwds) opts k) = []"
  shows "inj_on (shortestUniqueCwdLabels cwds opts) (cwdIdentity ` set cwds)"
proof (cases "uniqueByIdentity cwds = []")
  case True
  then show ?thesis using uniqueByIdentity_ok [of cwds] by (simp add: shortestUniqueCwdLabels_def)
next
  case False
  let ?cs = "uniqueByIdentity cwds"
  obtain b l where l: "label_loop ?cs opts 1 (max_depth ?cs) Map.empty = (b, l)" by fastforce
  have "fst (label_loop ?cs opts 1 (max_depth ?cs) Map.empty)" using label_loop_finds [OF assms(2)] assms(1) by auto
  then have fin: b "label_loop ?cs opts 1 (max_depth ?cs) Map.empty = (True, l)" using l by simp_all
  from label_loop_done [OF fin(2)] obtain j where j: "l = labels_at ?cs opts j" "findLabelCollisions ?cs l = []" by blast
  have "inj_on l (cwdIdentity ` set ?cs)"
  proof (rule no_collision_distinct [OF j(2)])
    fix c assume "c \<in> set ?cs"
    then have "cwdIdentity c \<in> dom l" using j(1) labels_at_dom by auto
    then show "\<exists>x. l (cwdIdentity c) = Some x \<and> x \<noteq> []" using j(1) labels_at_nonempty by blast
  qed (use uniqueByIdentity_ok in blast)
  moreover have "shortestUniqueCwdLabels cwds opts = l"
    using False fin unfolding shortestUniqueCwdLabels_def max_depth_def by (simp add: Let_def)
  ultimately show ?thesis using uniqueByIdentity_ok [of cwds] by simp
qed

text \<open>Whatever a program reports, and whatever the platform makes of its URLs, a directory that is kept
  has a path, a host and a URI of at most 4096 characters without controls.\<close>

lemma reported_cwd_clean:
  assumes "c \<in> Option.these {cwdFromOsc7 U raw now, cwdFromOsc9_9 raw now, cwdFromOsc633 raw now, cwdFromOsc1337 raw now,
    cwdFromProcessPath raw now, cwdFromManualPath raw now}"
  shows "clean_value (cpath c) \<and> pred_option clean_value (chost c) \<and> pred_option clean_value (curi c)"
  using assms bounded_clean
  by (auto simp: in_these_eq cwdFromOsc7_def cwdFromOsc9_9_def cwdFromOsc633_def cwdFromOsc1337_def cwdFromProcessPath_def
      cwdFromManualPath_def cwdFromDecodedPath_def Let_def split: option.splits if_splits)

section \<open>Properties\<close>

text \<open>Comparing directories across the dialects is an equivalence on paths that are there: two are equal
  exactly when they are the same text or have the same drive, up to case, and the same rest, up to
  the direction of slashes. Every other path equals only itself.\<close>

theorem cwd_match_dialects:
  "cwdPathsEqual (Some a) (Some b) \<longleftrightarrow> a \<noteq> [] \<and> b \<noteq> [] \<and>
     (a = b \<or> (\<exists>d r e t. drive_of a = Some (d, r) \<and> drive_of b = Some (e, t) \<and> upper_drive d = upper_drive e \<and> slashes r = slashes t))"
proof -
  have canon: "drive_of (upper_drive d # CHR '':'' # slashes r) \<noteq> None" if "drive_of p = Some (d, r)" for p d r
  proof -
    have "is_letter d" "\<exists>c q. r = c # q \<and> path_sep c"
      using that by (auto simp: drive_of_def path_sep_def split: list.splits if_splits)
    moreover from this have "is_letter (upper_drive d)"
      by (auto simp: upper_drive_def is_letter_def is_lower_def is_upper_def of_char_of)
    ultimately show ?thesis by (auto simp: drive_of_def slashes_def path_sep_def)
  qed
  show ?thesis
  proof (cases "drive_of a"; cases "drive_of b")
    fix x y assume "drive_of a = Some x" "drive_of b = Some y"
    then show ?thesis by (cases x; cases y) (auto simp: cwdPathsEqual_def canonicalize_drive)
  next
    fix x assume "drive_of a = Some x" "drive_of b = None"
    then show ?thesis using canon [of a "fst x" "snd x"] by (cases x) (auto simp: cwdPathsEqual_def canonicalize_drive)
  next
    fix y assume "drive_of a = None" "drive_of b = Some y"
    then show ?thesis using canon [of b "fst y" "snd y"] by (cases y) (auto simp: cwdPathsEqual_def canonicalize_drive)
  qed (auto simp: cwdPathsEqual_def canonicalize_drive)
qed

text \<open>Every directory gets a label, and if at some depth the last segments of the paths, with the hosts
  they need, tell all of them apart, then so do the labels.\<close>

theorem cwd_labels_unique:
  "dom (shortestUniqueCwdLabels cwds opts) = cwdIdentity ` set cwds \<and>
   ((\<exists>k \<in> {1..max_depth (uniqueByIdentity cwds)}. findLabelCollisions (uniqueByIdentity cwds) (labels_at (uniqueByIdentity cwds) opts k) = []) \<longrightarrow>
    inj_on (shortestUniqueCwdLabels cwds opts) (cwdIdentity ` set cwds))"
  using labels_dom labels_inj by blast

theorem cwd_labels_unique_witness:
  "inj_on (shortestUniqueCwdLabels [the (cwdFromOsc633 ''/a/web'' 0), the (cwdFromOsc633 ''/b/web'' 0)] default_options)
     (cwdIdentity ` set [the (cwdFromOsc633 ''/a/web'' 0), the (cwdFromOsc633 ''/b/web'' 0)])"
proof -
  let ?cs = "[the (cwdFromOsc633 ''/a/web'' 0), the (cwdFromOsc633 ''/b/web'' 0)]"
  have "2 \<in> {1..max_depth (uniqueByIdentity ?cs)}" "findLabelCollisions (uniqueByIdentity ?cs) (labels_at (uniqueByIdentity ?cs) default_options 2) = []"
    by code_simp+
  then show ?thesis using cwd_labels_unique [of ?cs default_options] by blast
qed

end
