(* ===== verification/Terminal_State.thy ===== *)
theory Terminal_State
  imports Terminal_Cwd
begin

text \<open>
  The state of a terminal pane (\<open>lib/src/lib/terminal-state.ts\<close>): the semantic events a shell reports,
  the reducer that turns them into a state, the title its header shows and the grouping of panes.
  Times are rationals, as the event clock adds thousandths. The glyph of a failed command lies
  outside the model's characters and is a field of the header's options.
\<close>

section \<open>Events and state\<close>

datatype run_source = Osc633E | Osc633Boundaries | Osc133Boundaries | UserInput

datatype title_source = TOsc0 | TOsc2 | TOsc9 | TOsc99 | TOsc777 | TUser

record terminal_title =
  ttitle :: string
  tsource :: title_source
  tupdated :: rat

datatype semantic_event =
  CwdEvent cwd_state
| PromptStart
| PromptEnd
| CommandLine string
| CommandStart "run_source option" "rat option"
| CommandFinish "int option" "rat option"
| TitleEvent terminal_title

datatype shell_activity = UnknownActivity | PromptActivity | EditingActivity | RunningActivity | FinishedActivity "int option"

record command_run =
  run_id :: string
  rawCommandLine :: "string option"
  display_command :: string
  cwdAtStart :: "cwd_state option"
  startedAt :: rat
  finishedAt :: "rat option"
  run_exit :: "int option"
  source_of_run :: run_source
  finalTerminalTitle :: "terminal_title option"

record pane_state =
  pane_cwd :: "cwd_state option"
  activity :: shell_activity
  pending_line :: "string option"
  currentCommand :: "command_run option"
  lastCommand :: "command_run option"
  titleCandidates :: "(title_source \<times> terminal_title) list"

definition DEFAULT_TERMINAL_PANE_STATE :: pane_state where
  "DEFAULT_TERMINAL_PANE_STATE = \<lparr>pane_cwd = None, activity = UnknownActivity, pending_line = None, currentCommand = None,
     lastCommand = None, titleCandidates = []\<rparr>"

definition DEFAULT_IDLE_TITLE :: string where "DEFAULT_IDLE_TITLE = ''<idle>''"

definition UNNAMED_PANEL_TITLE :: string where "UNNAMED_PANEL_TITLE = ''<unnamed>''"

section \<open>Titles\<close>

definition HEADER_APP_TITLE_SOURCES :: "title_source list" where
  "HEADER_APP_TITLE_SOURCES = [TOsc0, TOsc2, TOsc9]"

definition titleCandidateForSource :: "pane_state \<Rightarrow> title_source \<Rightarrow> terminal_title option" where
  "titleCandidateForSource p src = map_of (titleCandidates p) src"

text \<open>The first of the latest.\<close>

definition later_title :: "terminal_title option \<Rightarrow> terminal_title \<Rightarrow> terminal_title option" where
  "later_title best c = (case best of None \<Rightarrow> Some c | Some b \<Rightarrow> if tupdated c > tupdated b then Some c else best)"

definition latestTerminalTitleCandidate :: "pane_state \<Rightarrow> terminal_title option" where
  "latestTerminalTitleCandidate p =
     foldl later_title None (filter (\<lambda>c. tsource c \<in> set HEADER_APP_TITLE_SOURCES) (map snd (titleCandidates p)))"

definition deriveFallbackCommandTitle :: "pane_state \<Rightarrow> string" where
  "deriveFallbackCommandTitle p = (case latestTerminalTitleCandidate p of
      None \<Rightarrow> DEFAULT_COMMAND_TITLE
    | Some t \<Rightarrow> if js_trim (ttitle t) = [] then DEFAULT_COMMAND_TITLE else js_trim (ttitle t))"

definition in_window :: "rat \<Rightarrow> rat option \<Rightarrow> terminal_title \<Rightarrow> bool" where
  "in_window start fin c = (\<not> tupdated c < start \<and> (case fin of None \<Rightarrow> True | Some f \<Rightarrow> \<not> tupdated c > f))"

text \<open>The scan over the header's sources, in their order.\<close>

definition title_scan :: "pane_state \<Rightarrow> rat \<Rightarrow> rat option \<Rightarrow> terminal_title option" where
  "title_scan p start fin =
     foldl later_title None (filter (in_window start fin) (List.map_filter (titleCandidateForSource p) HEADER_APP_TITLE_SOURCES))"

definition snapshotInRunTerminalTitle :: "pane_state \<Rightarrow> command_run \<Rightarrow> rat \<Rightarrow> terminal_title option" where
  "snapshotInRunTerminalTitle p c fin = title_scan p (startedAt c) (Some fin)"

definition findInRunTerminalTitle :: "pane_state \<Rightarrow> command_run \<Rightarrow> terminal_title option" where
  "findInRunTerminalTitle p c = title_scan p (startedAt c) (finishedAt c)"

section \<open>The reducer\<close>

text \<open>The fields of a run that a start resolves: the raw line, the display label, the source and the
  time.\<close>

definition resolveCommandStart ::
  "string option \<Rightarrow> run_source option \<Rightarrow> rat option \<Rightarrow> rat \<Rightarrow> string \<Rightarrow> string option \<times> string \<times> run_source \<times> rat" where
  "resolveCommandStart raw src started now fallbackTitle =
     (let truthy = (raw \<noteq> None \<and> raw \<noteq> Some [])
      in (raw, if truthy then summarizeCommandLine (the raw) else fallbackTitle,
          if src = Some Osc633Boundaries \<and> truthy then Osc633E
          else (case src of Some s \<Rightarrow> s | None \<Rightarrow> if truthy then Osc633E else Osc133Boundaries),
          case started of Some t \<Rightarrow> t | None \<Rightarrow> now))"

definition finishedActivity :: "int option \<Rightarrow> shell_activity" where
  "finishedActivity code = FinishedActivity code"

definition reduceTerminalState :: "rat \<Rightarrow> string \<Rightarrow> semantic_event \<Rightarrow> pane_state \<Rightarrow> pane_state" where
  "reduceTerminalState now newId ev p = (case ev of
      CwdEvent c \<Rightarrow> (case pane_cwd p of
          Some d \<Rightarrow> if sameCwd d c then p else p\<lparr>pane_cwd := Some c\<rparr>
        | None \<Rightarrow> p\<lparr>pane_cwd := Some c\<rparr>)
    | PromptStart \<Rightarrow>
        if activity p = PromptActivity \<and> pending_line p = None \<and> currentCommand p = None then p
        else p\<lparr>activity := PromptActivity, currentCommand := None, pending_line := None\<rparr>
    | PromptEnd \<Rightarrow>
        if activity p = EditingActivity \<and> pending_line p = None \<and> currentCommand p = None then p
        else p\<lparr>activity := EditingActivity, currentCommand := None, pending_line := None\<rparr>
    | CommandLine l \<Rightarrow> if pending_line p = Some l then p else p\<lparr>pending_line := Some l\<rparr>
    | CommandStart src started \<Rightarrow>
        let (raw, display, rs, t) = resolveCommandStart (pending_line p) src started now (deriveFallbackCommandTitle p)
        in p\<lparr>currentCommand := Some \<lparr>run_id = newId, rawCommandLine = raw, display_command = display, cwdAtStart = pane_cwd p,
                startedAt = t, finishedAt = None, run_exit = None, source_of_run = rs, finalTerminalTitle = None\<rparr>,
              activity := RunningActivity, pending_line := None\<rparr>
    | CommandFinish code fin \<Rightarrow> (case currentCommand p of
          None \<Rightarrow> if activity p = finishedActivity code then p else p\<lparr>activity := finishedActivity code\<rparr>
        | Some c \<Rightarrow>
            let f = (case fin of Some t \<Rightarrow> t | None \<Rightarrow> now);
                final = snapshotInRunTerminalTitle p c f
            in p\<lparr>currentCommand := None,
                 lastCommand := Some (c\<lparr>finishedAt := Some f, run_exit := code,
                   finalTerminalTitle := (case final of None \<Rightarrow> finalTerminalTitle c | Some x \<Rightarrow> Some x)\<rparr>),
                 activity := finishedActivity code\<rparr>)
    | TitleEvent t \<Rightarrow>
        if map_of (titleCandidates p) (tsource t) = Some t then p
        else p\<lparr>titleCandidates := js_map_set (tsource t) t (titleCandidates p)\<rparr>)"

definition effectiveCwd :: "pane_state \<Rightarrow> cwd_state option" where
  "effectiveCwd p = (case Option.bind (currentCommand p) cwdAtStart of Some c \<Rightarrow> Some c | None \<Rightarrow> pane_cwd p)"

definition surfaceRunsCommand :: "pane_state \<Rightarrow> string \<Rightarrow> string \<Rightarrow> bool" where
  "surfaceRunsCommand p command cwdPath = (case currentCommand p of
      None \<Rightarrow> False
    | Some run \<Rightarrow> rawCommandLine run = Some command \<and>
        cwdPathsEqual (case cwdAtStart run of Some c \<Rightarrow> Some (cpath c) | None \<Rightarrow> map_option cpath (pane_cwd p)) (Some cwdPath))"

section \<open>The rule for a watched command\<close>

definition watchRuleFor :: "string set \<Rightarrow> string option \<Rightarrow> string option" where
  "watchRuleFor rules key = (case key of
      None \<Rightarrow> None
    | Some k \<Rightarrow> if k \<in> rules then Some k
        else if CHR '' '' \<in> set k \<and> takeWhile (\<lambda>c. c \<noteq> CHR '' '') k \<in> rules
        then Some (takeWhile (\<lambda>c. c \<noteq> CHR '' '') k) else None)"

section \<open>Headers\<close>

definition GENERIC_PROCESS_TITLE_NAMES :: "string list" where
  "GENERIC_PROCESS_TITLE_NAMES = [''cmd'', ''powershell'', ''pwsh'', ''bash'', ''sh'', ''zsh'', ''fish'', ''dash'', ''ksh'', ''csh'', ''tcsh'', ''wsl'', ''conhost'']"

definition isGenericProcessTitle :: "string \<Rightarrow> bool" where
  "isGenericProcessTitle title =
     (let trimmed = js_trim title; basename = commandBasename trimmed
      in if trimmed = [] then False
         else if list_ex js_space basename then False
         else if WINDOWS_EXECUTABLE_SUFFIX basename then True
         else map lower_char basename \<in> set GENERIC_PROCESS_TITLE_NAMES)"

definition meaningfulTerminalTitle :: "string \<Rightarrow> string option" where
  "meaningfulTerminalTitle title =
     (let trimmed = js_trim title
      in if trimmed = [] \<or> isGenericProcessTitle trimmed then None
         else case split_at '' - '' trimmed of
             Some (before, after) \<Rightarrow>
               if before \<noteq> [] \<and> isGenericProcessTitle before
               then (let rest = js_trim after in if rest = [] then None else Some rest) else Some trimmed
           | None \<Rightarrow> Some trimmed)"

definition terminalTitleForCommand :: "pane_state \<Rightarrow> command_run \<Rightarrow> string option" where
  "terminalTitleForCommand p c =
     (let snapshot = (if finishedAt c \<noteq> None then Option.bind (finalTerminalTitle c) (\<lambda>t. meaningfulTerminalTitle (ttitle t)) else None)
      in if snapshot \<noteq> None then snapshot
         else (case findInRunTerminalTitle p c of
             Some t \<Rightarrow> if ttitle t = [] then None else meaningfulTerminalTitle (ttitle t) | None \<Rightarrow> None))"

definition isAppTitleFreshFor :: "pane_state \<Rightarrow> command_run \<Rightarrow> bool" where
  "isAppTitleFreshFor p c = (case titleCandidateForSource p TOsc9 of
      None \<Rightarrow> True | Some t \<Rightarrow> in_window (startedAt c) (finishedAt c) t)"

record header_options =
  hdisplay :: display_options
  appTitleForPane :: "pane_state \<Rightarrow> string option"
  fail_glyph :: string

definition app_title :: "header_options \<Rightarrow> pane_state \<Rightarrow> string" where
  "app_title opts p = (case appTitleForPane opts p of None \<Rightarrow> [] | Some t \<Rightarrow> js_trim t)"

definition commandHeaderLabel :: "pane_state \<Rightarrow> command_run \<Rightarrow> header_options \<Rightarrow> string" where
  "commandHeaderLabel p c opts =
     (if app_title opts p \<noteq> [] \<and> isAppTitleFreshFor p c then app_title opts p
      else case terminalTitleForCommand p c of
          Some t \<Rightarrow> if t = [] then display_command c else t | None \<Rightarrow> display_command c)"

definition lastCommandFailed :: "command_run \<Rightarrow> bool" where
  "lastCommandFailed c = (case run_exit c of None \<Rightarrow> False | Some x \<Rightarrow> x \<noteq> 0)"

definition user_title :: "pane_state \<Rightarrow> string" where
  "user_title p = (case titleCandidateForSource p TUser of None \<Rightarrow> [] | Some t \<Rightarrow> js_trim (ttitle t))"

definition headerPrimary :: "pane_state \<Rightarrow> header_options \<Rightarrow> string \<times> bool" where
  "headerPrimary p opts =
     (if user_title p \<noteq> [] then (user_title p, False)
      else case currentCommand p of
          Some c \<Rightarrow> (commandHeaderLabel p c opts, False)
        | None \<Rightarrow> (case lastCommand p of
              Some c \<Rightarrow> (let idle = DEFAULT_IDLE_TITLE @ '' '' @ commandHeaderLabel p c opts
                         in if lastCommandFailed c then (idle @ '' '' @ fail_glyph opts, True) else (idle, False))
            | None \<Rightarrow> (DEFAULT_IDLE_TITLE, False)))"

record derived_header =
  primary :: string
  secondary :: "string option"
  hfailed :: bool

definition deriveHeader :: "pane_state \<Rightarrow> pane_state list \<Rightarrow> header_options \<Rightarrow> derived_header" where
  "deriveHeader p visible opts =
     (let (prim, fail) = headerPrimary p opts;
          samePrimary = filter (\<lambda>q. fst (headerPrimary q opts) = prim) visible
      in \<lparr>primary = prim,
          secondary = (if length samePrimary > 1 then Some (case effectiveCwd p of
              Some c \<Rightarrow> (case shortestUniqueCwdLabels (List.map_filter effectiveCwd samePrimary) (hdisplay opts) (cwdIdentity c) of
                  Some l \<Rightarrow> l | None \<Rightarrow> cwdDisplay c (hdisplay opts))
            | None \<Rightarrow> DEFAULT_DIRECTORY_LABEL) else None),
          hfailed = fail\<rparr>)"

definition resolveDisplayPrimary :: "string \<Rightarrow> string option \<Rightarrow> string" where
  "resolveDisplayPrimary prim fallback =
     (if prim = DEFAULT_IDLE_TITLE then prim
      else if prim \<noteq> DEFAULT_COMMAND_TITLE then prim
      else let trimmed = (case fallback of None \<Rightarrow> [] | Some f \<Rightarrow> js_trim f)
           in if trimmed \<noteq> [] \<and> trimmed \<noteq> UNNAMED_PANEL_TITLE then trimmed else prim)"

definition deriveSurfaceLabel :: "pane_state \<Rightarrow> header_options \<Rightarrow> string option \<Rightarrow> string" where
  "deriveSurfaceLabel p opts fallback = resolveDisplayPrimary (primary (deriveHeader p [] opts)) fallback"

definition idleLabel :: "pane_state \<Rightarrow> string" where
  "idleLabel p = (if user_title p \<noteq> [] then user_title p else DEFAULT_IDLE_TITLE)"

text \<open>The title a notification offers; sources are their names.\<close>

definition notificationDisplayTitle :: "string \<Rightarrow> string option \<Rightarrow> string option" where
  "notificationDisplayTitle src body =
     (if src = ''OSC 9'' then (case body of Some b \<Rightarrow> if js_trim b = [] then None else Some (js_trim b) | None \<Rightarrow> None) else None)"

definition terminalTitleFromNotification :: "string \<Rightarrow> string option \<Rightarrow> string option \<Rightarrow> rat \<Rightarrow> terminal_title option" where
  "terminalTitleFromNotification src title body now =
     (let trimmed = (case title of Some t \<Rightarrow> if js_trim t = [] then None else Some (js_trim t) | None \<Rightarrow> None)
      in if src = ''OSC 9'' then map_option (\<lambda>t. \<lparr>ttitle = t, tsource = TOsc9, tupdated = now\<rparr>) (notificationDisplayTitle src body)
         else if src = ''OSC 99'' then map_option (\<lambda>t. \<lparr>ttitle = t, tsource = TOsc99, tupdated = now\<rparr>) trimmed
         else if src = ''OSC 777'' then map_option (\<lambda>t. \<lparr>ttitle = t, tsource = TOsc777, tupdated = now\<rparr>) trimmed
         else None)"

section \<open>Groups\<close>

datatype grouping_mode = GroupNone | GroupDirectory | GroupCommand | GroupStatus

record terminal_group =
  gkey :: string
  glabel :: string
  gpanes :: "pane_state list"

fun statusBucket :: "shell_activity \<Rightarrow> string" where
  "statusBucket RunningActivity = ''running''"
| "statusBucket (FinishedActivity c) = ''finished''"
| "statusBucket UnknownActivity = ''unknown''"
| "statusBucket PromptActivity = ''idle''"
| "statusBucket EditingActivity = ''idle''"

fun add_to_group :: "string \<Rightarrow> string \<Rightarrow> pane_state \<Rightarrow> terminal_group list \<Rightarrow> terminal_group list" where
  "add_to_group k l p [] = [\<lparr>gkey = k, glabel = l, gpanes = [p]\<rparr>]"
| "add_to_group k l p (g # gs) = (if gkey g = k then g\<lparr>gpanes := gpanes g @ [p]\<rparr> # gs else g # add_to_group k l p gs)"

definition groupBy :: "pane_state list \<Rightarrow> (pane_state \<Rightarrow> string \<times> string) \<Rightarrow> terminal_group list" where
  "groupBy panes keyForPane = foldl (\<lambda>gs p. add_to_group (fst (keyForPane p)) (snd (keyForPane p)) p gs) [] panes"

definition groupTerminalPanes :: "pane_state list \<Rightarrow> grouping_mode \<Rightarrow> display_options \<Rightarrow> terminal_group list" where
  "groupTerminalPanes panes mode opts = (case mode of
      GroupNone \<Rightarrow> [\<lparr>gkey = ''all'', glabel = ''All'', gpanes = panes\<rparr>]
    | GroupDirectory \<Rightarrow>
        let labels = shortestUniqueCwdLabels (List.map_filter effectiveCwd panes) opts
        in groupBy panes (\<lambda>p. case effectiveCwd p of
             None \<Rightarrow> (''unknown'', DEFAULT_DIRECTORY_LABEL)
           | Some c \<Rightarrow> (cwdIdentity c, case labels (cwdIdentity c) of Some l \<Rightarrow> l | None \<Rightarrow> cwdDisplay c opts))
    | GroupCommand \<Rightarrow> groupBy panes (\<lambda>p. let l = (case currentCommand p of Some c \<Rightarrow> display_command c | None \<Rightarrow> idleLabel p) in (l, l))
    | GroupStatus \<Rightarrow> groupBy panes (\<lambda>p. (statusBucket (activity p), statusBucket (activity p))))"

section \<open>The state as a machine\<close>

text \<open>One event, with whatever the clock says and whatever id a run gets.\<close>

inductive pane_step :: "pane_state \<Rightarrow> pane_state \<Rightarrow> bool" where
  "pane_step p (reduceTerminalState now newId ev p)"

definition in_run :: "command_run \<Rightarrow> rat \<Rightarrow> terminal_title \<Rightarrow> bool" where
  "in_run c f t \<longleftrightarrow> startedAt c \<le> tupdated t \<and> tupdated t \<le> f \<and> tsource t \<in> set HEADER_APP_TITLE_SOURCES"

definition pane_inv :: "pane_state \<Rightarrow> bool" where
  "pane_inv p \<longleftrightarrow> (activity p = RunningActivity \<longleftrightarrow> currentCommand p \<noteq> None) \<and>
     (\<forall>c. currentCommand p = Some c \<longrightarrow> finishedAt c = None \<and> run_exit c = None \<and> finalTerminalTitle c = None) \<and>
     (\<forall>c. lastCommand p = Some c \<longrightarrow> (\<exists>f. finishedAt c = Some f \<and> pred_option (in_run c f) (finalTerminalTitle c))) \<and>
     distinct (map fst (titleCandidates p)) \<and> (\<forall>(k, t) \<in> set (titleCandidates p). tsource t = k)"

lemma foldl_later: "foldl later_title b cs = Some t \<Longrightarrow> b = Some t \<or> t \<in> set cs"
proof (induction cs arbitrary: b)
  case (Cons c cs)
  have "later_title b c = Some t \<Longrightarrow> b = Some t \<or> c = t" by (auto simp: later_title_def split: option.splits if_splits)
  then show ?case using Cons.IH [of "later_title b c"] Cons.prems by auto
qed simp

lemma title_scan_window:
  assumes "title_scan p start (Some f) = Some t" "\<forall>(k, t) \<in> set (titleCandidates p). tsource t = k"
  shows "start \<le> tupdated t \<and> tupdated t \<le> f \<and> tsource t \<in> set HEADER_APP_TITLE_SOURCES"
proof -
  from foldl_later assms(1) have "t \<in> set (filter (in_window start (Some f)) (List.map_filter (titleCandidateForSource p) HEADER_APP_TITLE_SOURCES))"
    unfolding title_scan_def by blast
  then obtain k where "in_window start (Some f) t" "k \<in> set HEADER_APP_TITLE_SOURCES" "titleCandidateForSource p k = Some t"
    by (auto simp: List.map_filter_def)
  moreover from this(3) assms(2) have "tsource t = k" unfolding titleCandidateForSource_def by (auto dest: map_of_SomeD)
  ultimately show ?thesis by (simp add: in_window_def)
qed

lemma js_map_set_set: "x \<in> set (js_map_set k v m) \<Longrightarrow> x = (k, v) \<or> x \<in> set m"
  by (induction k v m rule: js_map_set.induct) (auto split: if_splits)

lemma reduce_inv: "pane_inv p \<Longrightarrow> pane_inv (reduceTerminalState now newId ev p)"
proof (cases ev)
  case (CommandFinish code fin)
  assume inv: "pane_inv p"
  show ?thesis
  proof (cases "currentCommand p")
    case None
    then show ?thesis using inv CommandFinish by (auto simp: pane_inv_def reduceTerminalState_def finishedActivity_def)
  next
    case (Some c)
    have key: "\<forall>(k, t) \<in> set (titleCandidates p). tsource t = k" "finalTerminalTitle c = None" using inv Some by (simp_all add: pane_inv_def)
    show ?thesis using inv CommandFinish Some key(2) title_scan_window [OF _ key(1), of "startedAt c"]
      by (auto simp: pane_inv_def reduceTerminalState_def finishedActivity_def Let_def in_run_def snapshotInRunTerminalTitle_def split: option.split)
  qed
next
  case (CommandStart src started)
  then show "pane_inv p \<Longrightarrow> ?thesis" by (simp add: pane_inv_def reduceTerminalState_def resolveCommandStart_def Let_def)
next
  case (TitleEvent t)
  then show "pane_inv p \<Longrightarrow> ?thesis"
    by (auto simp: pane_inv_def reduceTerminalState_def js_map_set_distinct dest!: js_map_set_set)
qed (simp_all add: pane_inv_def reduceTerminalState_def split: option.split)

lemma default_inv: "pane_inv DEFAULT_TERMINAL_PANE_STATE"
  by (simp add: DEFAULT_TERMINAL_PANE_STATE_def pane_inv_def)

interpretation panes: step_system "\<lambda>p. p = DEFAULT_TERMINAL_PANE_STATE" pane_step pane_inv
  by unfold_locales (auto simp: default_inv elim!: pane_step.cases intro: reduce_inv)

section \<open>Grouping\<close>

definition groups_ok :: "(pane_state \<Rightarrow> string) \<Rightarrow> pane_state list \<Rightarrow> terminal_group list \<Rightarrow> bool" where
  "groups_ok key panes gs \<longleftrightarrow> distinct (map gkey gs) \<and> (\<forall>g \<in> set gs. gpanes g = filter (\<lambda>p. key p = gkey g) panes) \<and>
     key ` set panes \<subseteq> gkey ` set gs"

lemma add_to_group_keys: "gkey ` set (add_to_group k l p gs) = insert k (gkey ` set gs)"
  by (induction gs) auto

lemma add_to_group_set:
  "g \<in> set (add_to_group k l p gs) \<Longrightarrow> distinct (map gkey gs) \<Longrightarrow>
   if gkey g = k then gpanes g = (case find (\<lambda>h. gkey h = k) gs of None \<Rightarrow> [] | Some h \<Rightarrow> gpanes h) @ [p] else g \<in> set gs"
  by (induction gs) (auto split: if_splits simp: image_iff)

lemma add_to_group_distinct: "distinct (map gkey gs) \<Longrightarrow> distinct (map gkey (add_to_group k l p gs))"
  by (induction gs) (auto simp: add_to_group_keys)

lemma add_to_group_ok:
  assumes "groups_ok key panes gs"
  shows "groups_ok key (panes @ [p]) (add_to_group (key p) l p gs)"
proof -
  have d: "distinct (map gkey gs)" using assms by (simp add: groups_ok_def)
  have "gpanes g = filter (\<lambda>q. key q = gkey g) (panes @ [p])" if g: "g \<in> set (add_to_group (key p) l p gs)" for g
  proof (cases "gkey g = key p")
    case True
    have "filter (\<lambda>q. key q = key p) panes = []" if "find (\<lambda>h. gkey h = key p) gs = None"
    proof -
      have "key p \<notin> gkey ` set gs" using that by (auto simp: find_None_iff)
      then show ?thesis using assms unfolding groups_ok_def filter_empty_conv by (metis image_eqI subsetD)
    qed
    moreover have "gpanes h = filter (\<lambda>q. key q = key p) panes" if "find (\<lambda>h. gkey h = key p) gs = Some h" for h
    proof -
      have "h \<in> set gs" "gkey h = key p" using that by (auto simp: find_Some_iff)
      then show ?thesis using assms by (simp add: groups_ok_def)
    qed
    ultimately show ?thesis using add_to_group_set [OF g d] True by (simp split: option.splits)
  next
    case False
    then show ?thesis using add_to_group_set [OF g d] assms by (auto simp: groups_ok_def)
  qed
  moreover have "key ` set (panes @ [p]) \<subseteq> gkey ` set (add_to_group (key p) l p gs)"
    using assms unfolding add_to_group_keys groups_ok_def by auto
  ultimately show ?thesis using add_to_group_distinct [OF d] unfolding groups_ok_def by blast
qed

lemma groupBy_ok: "groups_ok (\<lambda>p. fst (f p)) panes (groupBy panes f)"
proof (induction panes rule: rev_induct)
  case Nil
  then show ?case by (simp add: groupBy_def groups_ok_def)
next
  case (snoc p panes)
  then show ?case using add_to_group_ok [of "\<lambda>p. fst (f p)" panes "groupBy panes f" p "snd (f p)"] by (simp add: groupBy_def)
qed

text \<open>What a mode groups by.\<close>

fun pane_key :: "grouping_mode \<Rightarrow> pane_state \<Rightarrow> string" where
  "pane_key GroupNone p = ''all''"
| "pane_key GroupDirectory p = (case effectiveCwd p of None \<Rightarrow> ''unknown'' | Some c \<Rightarrow> cwdIdentity c)"
| "pane_key GroupCommand p = (case currentCommand p of Some c \<Rightarrow> display_command c | None \<Rightarrow> idleLabel p)"
| "pane_key GroupStatus p = statusBucket (activity p)"

section \<open>Properties\<close>

text \<open>C39: In every state the reducer can reach, whatever events come in whatever order and whatever the clock
  says: a command runs exactly when there is a current command, which has neither an end nor an exit
  code; the last command has ended, and the title kept with it was set while it ran.\<close>

theorem pane_state_consistent:
  assumes "pane_step\<^sup>*\<^sup>* DEFAULT_TERMINAL_PANE_STATE p"
  shows "(activity p = RunningActivity \<longleftrightarrow> currentCommand p \<noteq> None) \<and>
    (\<forall>c. currentCommand p = Some c \<longrightarrow> finishedAt c = None \<and> run_exit c = None) \<and>
    (\<forall>c. lastCommand p = Some c \<longrightarrow> (\<exists>f. finishedAt c = Some f \<and>
       (\<forall>t. finalTerminalTitle c = Some t \<longrightarrow> startedAt c \<le> tupdated t \<and> tupdated t \<le> f \<and> tsource t \<in> set HEADER_APP_TITLE_SOURCES)))"
proof -
  have "pane_inv p" using panes.reachable_inv [OF refl assms] .
  then show ?thesis by (fastforce simp: pane_inv_def in_run_def)
qed

theorem pane_state_consistent_witness:
  "currentCommand (reduceTerminalState 5 ''r'' (CommandStart None None) (reduceTerminalState 4 ''r'' (CommandLine ''make'') DEFAULT_TERMINAL_PANE_STATE)) \<noteq> None"
proof -
  let ?p = "reduceTerminalState 5 ''r'' (CommandStart None None) (reduceTerminalState 4 ''r'' (CommandLine ''make'') DEFAULT_TERMINAL_PANE_STATE)"
  have run: "pane_step\<^sup>*\<^sup>* DEFAULT_TERMINAL_PANE_STATE ?p"
    by (rule converse_rtranclp_into_rtranclp, rule pane_step.intros, rule r_into_rtranclp, rule pane_step.intros)
  have "activity ?p = RunningActivity" by code_simp
  then show ?thesis using pane_state_consistent [OF run] by blast
qed

text \<open>Once a command has ended with a title that says something, nothing but the user's own title or a
  new command changes the header: not the shell resetting its title, nor prompts, nor directories.\<close>

theorem finished_title_stays:
  assumes "currentCommand p = None" "lastCommand p = Some c" "finishedAt c \<noteq> None" "finalTerminalTitle c = Some t"
    and "meaningfulTerminalTitle (ttitle t) \<noteq> None" "appTitleForPane opts = (\<lambda>_. None)"
    and "\<forall>src started. ev \<noteq> CommandStart src started" "\<forall>u. ev = TitleEvent u \<longrightarrow> tsource u \<noteq> TUser"
  shows "headerPrimary (reduceTerminalState now newId ev p) opts = headerPrimary p opts"
proof -
  let ?q = "reduceTerminalState now newId ev p"
  have same: "currentCommand ?q = None" "lastCommand ?q = Some c" "titleCandidateForSource ?q TUser = titleCandidateForSource p TUser"
    using assms(1,2,7,8) by (cases ev; auto simp: reduceTerminalState_def titleCandidateForSource_def map_of_js_map_set split: option.split)+
  have "terminalTitleForCommand q c = meaningfulTerminalTitle (ttitle t)" for q
    using assms(3-5) by (auto simp: terminalTitleForCommand_def)
  then have "commandHeaderLabel ?q c opts = commandHeaderLabel p c opts" using assms(6) by (simp add: commandHeaderLabel_def app_title_def)
  then show ?thesis using same assms(1,2) by (simp add: headerPrimary_def user_title_def)
qed

definition example_finished :: pane_state where
  "example_finished = fold (\<lambda>(now, ev). reduceTerminalState now ''r'' ev)
     [(1, CommandLine ''vim''), (2, CommandStart None None), (3, TitleEvent \<lparr>ttitle = ''notes - VIM'', tsource = TOsc2, tupdated = 3\<rparr>),
      (9, CommandFinish (Some 0) None)] DEFAULT_TERMINAL_PANE_STATE"

theorem finished_title_stays_witness:
  "fst (headerPrimary (reduceTerminalState 10 ''s'' (TitleEvent \<lparr>ttitle = ''zsh'', tsource = TOsc2, tupdated = 10\<rparr>) example_finished)
     \<lparr>hdisplay = default_options, appTitleForPane = (\<lambda>_. None), fail_glyph = ''x''\<rparr>) = ''<idle> notes - VIM''"
proof -
  let ?o = "\<lparr>hdisplay = default_options, appTitleForPane = (\<lambda>_. None), fail_glyph = ''x''\<rparr>"
  have e: "currentCommand example_finished = None" "fst (headerPrimary example_finished ?o) = ''<idle> notes - VIM''" by code_simp+
  have "map_option (\<lambda>c. (finishedAt c, map_option ttitle (finalTerminalTitle c))) (lastCommand example_finished) = Some (Some 9, Some ''notes - VIM'')"
    by code_simp
  then obtain c t where c: "lastCommand example_finished = Some c" "finishedAt c \<noteq> None" "finalTerminalTitle c = Some t" "ttitle t = ''notes - VIM''"
    by auto
  have m: "meaningfulTerminalTitle (ttitle t) \<noteq> None" unfolding c(4) by code_simp
  have "headerPrimary (reduceTerminalState 10 ''s'' (TitleEvent \<lparr>ttitle = ''zsh'', tsource = TOsc2, tupdated = 10\<rparr>) example_finished) ?o = headerPrimary example_finished ?o"
    by (rule finished_title_stays [OF e(1) c(1-3) m]) simp_all
  then show ?thesis using e(2) by simp
qed

text \<open>Grouping is a partition, whatever the mode: no two groups share a key, every pane is in the group of
  its key, and a group holds exactly the panes of its key, in the order they were given.\<close>

theorem grouping_partitions:
  "distinct (map gkey (groupTerminalPanes panes mode opts)) \<and>
   (\<forall>g \<in> set (groupTerminalPanes panes mode opts). gpanes g = filter (\<lambda>p. pane_key mode p = gkey g) panes) \<and>
   pane_key mode ` set panes \<subseteq> gkey ` set (groupTerminalPanes panes mode opts)"
proof -
  have "groups_ok (pane_key mode) panes (groupTerminalPanes panes mode opts)"
  proof (cases mode)
    case GroupNone
    then show ?thesis by (auto simp: groups_ok_def groupTerminalPanes_def)
  next
    case GroupDirectory
    let ?f = "\<lambda>p. case effectiveCwd p of None \<Rightarrow> (''unknown'', DEFAULT_DIRECTORY_LABEL)
      | Some c \<Rightarrow> (cwdIdentity c, case shortestUniqueCwdLabels (List.map_filter effectiveCwd panes) opts (cwdIdentity c) of Some l \<Rightarrow> l | None \<Rightarrow> cwdDisplay c opts)"
    have "(\<lambda>p. fst (?f p)) = pane_key GroupDirectory" by (auto simp: fun_eq_iff split: option.split)
    then show ?thesis using groupBy_ok [of ?f panes] GroupDirectory by (simp only: groupTerminalPanes_def Let_def grouping_mode.case)
  next
    case GroupCommand
    have "pane_key GroupCommand = (\<lambda>p. case currentCommand p of Some c \<Rightarrow> display_command c | None \<Rightarrow> idleLabel p)" by (simp add: fun_eq_iff)
    then show ?thesis using GroupCommand groupBy_ok [of "\<lambda>p. let l = (case currentCommand p of Some c \<Rightarrow> display_command c | None \<Rightarrow> idleLabel p) in (l, l)" panes]
      by (simp add: groupTerminalPanes_def Let_def)
  next
    case GroupStatus
    have "pane_key GroupStatus = (\<lambda>p. statusBucket (activity p))" by (simp add: fun_eq_iff)
    then show ?thesis using GroupStatus groupBy_ok [of "\<lambda>p. (statusBucket (activity p), statusBucket (activity p))" panes]
      by (simp add: groupTerminalPanes_def)
  qed
  then show ?thesis by (simp add: groups_ok_def)
qed

end
