(* ===== verification/Js_Regex.thy ===== *)
theory Js_Regex
  imports Js_Text
begin

text \<open>
  Regular expressions of the sources, as they are written, under the rules of JavaScript's
  backtracking matcher: a match is a remainder of the input, and the remainders come in the order in
  which the matcher tries them. An iteration of a star that matches nothing is not taken.
\<close>

datatype regex = Class "char \<Rightarrow> bool" | Eps | AtEnd | Seq regex regex | Alt regex regex | Many regex | Few regex

function rests :: "regex \<Rightarrow> string \<Rightarrow> string list" where
  "rests (Class p) s = (case s of [] \<Rightarrow> [] | c # r \<Rightarrow> if p c then [r] else [])"
| "rests Eps s = [s]"
| "rests AtEnd s = (if s = [] then [s] else [])"
| "rests (Seq a b) s = concat (map (rests b) (rests a s))"
| "rests (Alt a b) s = rests a s @ rests b s"
| "rests (Many a) s = concat (map (\<lambda>t. if length t < length s then rests (Many a) t else []) (rests a s)) @ [s]"
| "rests (Few a) s = s # concat (map (\<lambda>t. if length t < length s then rests (Few a) t else []) (rests a s))"
  by pat_completeness auto
termination by (relation "measures [\<lambda>(r, s). size r, \<lambda>(r, s). length s]") auto

declare rests.simps(6,7) [simp del]

text \<open>Letters, words, classes, \<open>r?\<close>, \<open>r+\<close> and alternatives.\<close>

definition one :: "char \<Rightarrow> regex" where "one c = Class (\<lambda>d. d = c)"
definition of_chars :: "string \<Rightarrow> regex" where "of_chars cs = Class (\<lambda>d. d \<in> set cs)"
definition any_char :: regex where "any_char = Class (\<lambda>_. True)"
definition code_range :: "nat \<Rightarrow> nat \<Rightarrow> regex" where "code_range a b = Class (\<lambda>c. a \<le> of_char c \<and> of_char c \<le> b)"
definition digit :: regex where "digit = Class is_digit"
definition seq :: "regex list \<Rightarrow> regex" where "seq rs = foldr Seq rs Eps"
definition word :: "string \<Rightarrow> regex" where "word w = seq (map one w)"
definition maybe :: "regex \<Rightarrow> regex" where "maybe r = Alt r Eps"
definition some :: "regex \<Rightarrow> regex" where "some r = Seq r (Many r)"

fun alts :: "regex list \<Rightarrow> regex" where
  "alts [] = Class (\<lambda>_. False)"
| "alts [r] = r"
| "alts (r # rs) = Alt r (alts rs)"

text \<open>A test of the whole text, as \<open>^(?:r)$\<close> makes it.\<close>

definition matches_all :: "regex \<Rightarrow> string \<Rightarrow> bool" where
  "matches_all r s = ([] \<in> set (rests r s))"

text \<open>The match at the start of the text that the matcher finds first, and what follows it.\<close>

definition match_here :: "regex \<Rightarrow> string \<Rightarrow> (string \<times> string) option" where
  "match_here r s = (case rests r s of [] \<Rightarrow> None | t # _ \<Rightarrow> Some (take (length s - length t) s, t))"

lemma rests_suffix: "t \<in> set (rests r s) \<Longrightarrow> suffix t s"
proof (induction r s arbitrary: t rule: rests.induct)
  case (1 p s)
  then show ?case by (auto simp: suffix_ConsI split: list.splits if_splits)
next
  case (4 a b s)
  then obtain u where "u \<in> set (rests a s)" "t \<in> set (rests b u)" by auto
  then show ?case using 4(1,2) suffix_order.trans by blast
next
  case (6 a s)
  from 6(3) consider "t = s" | u where "u \<in> set (rests a s)" "length u < length s" "t \<in> set (rests (Many a) u)"
    by (auto simp: rests.simps(6) [of a s] split: if_splits)
  then show ?case using 6(1,2) suffix_order.trans by cases blast+
next
  case (7 a s)
  from 7(3) consider "t = s" | u where "u \<in> set (rests a s)" "length u < length s" "t \<in> set (rests (Few a) u)"
    by (auto simp: rests.simps(7) [of a s] split: if_splits)
  then show ?case using 7(1,2) suffix_order.trans by cases blast+
qed auto

lemma match_here_split: "match_here r s = Some (m, t) \<Longrightarrow> s = m @ t"
proof -
  assume a: "match_here r s = Some (m, t)"
  then have "t \<in> set (rests r s)" "m = take (length s - length t) s" by (auto simp: match_here_def split: list.splits)
  then show "s = m @ t" using rests_suffix [of t r s] by (auto simp: suffix_def)
qed

text \<open>The successive matches of a global expression, and their replacement. After an empty match the
  search goes on one character further.\<close>

lemma match_here_shorter: "match_here r s = Some (m, t) \<Longrightarrow> m \<noteq> [] \<Longrightarrow> length t < length s"
  using match_here_split by fastforce

function all_matches :: "regex \<Rightarrow> string \<Rightarrow> string list" where
  "all_matches r s = (case match_here r s of
      Some (m, t) \<Rightarrow> m # (if m \<noteq> [] then all_matches r t else if s = [] then [] else all_matches r (tl s))
    | None \<Rightarrow> if s = [] then [] else all_matches r (tl s))"
  by pat_completeness auto
termination by (relation "measure (\<lambda>(r, s). length s)") (auto intro: match_here_shorter)

function replace_all :: "regex \<Rightarrow> (string \<Rightarrow> string) \<Rightarrow> string \<Rightarrow> string" where
  "replace_all r f s = (case match_here r s of
      Some (m, t) \<Rightarrow> f m @ (if m \<noteq> [] then replace_all r f t else if s = [] then [] else hd s # replace_all r f (tl s))
    | None \<Rightarrow> if s = [] then [] else hd s # replace_all r f (tl s))"
  by pat_completeness auto
termination by (relation "measure (\<lambda>(r, f, s). length s)") (auto intro: match_here_shorter)

text \<open>The replacement of the first match alone.\<close>

fun replace_first :: "regex \<Rightarrow> string \<Rightarrow> string \<Rightarrow> string" where
  "replace_first r x [] = (case match_here r [] of Some _ \<Rightarrow> x | None \<Rightarrow> [])"
| "replace_first r x (c # s) = (case match_here r (c # s) of Some (m, t) \<Rightarrow> x @ t | None \<Rightarrow> c # replace_first r x s)"

declare all_matches.simps [simp del] replace_all.simps [simp del]

section \<open>Expressions that start with a fixed character\<close>

lemma rests_seq [simp]: "rests (seq []) s = [s]" "rests (seq (r # rs)) s = concat (map (rests (seq rs)) (rests r s))"
  by (simp_all add: seq_def)

lemma rests_one: "rests (one d) (c # s) = (if c = d then [s] else [])" "rests (one d) [] = []"
  by (simp_all add: one_def)

lemma rests_alts_Nil: "(\<And>r. r \<in> set rs \<Longrightarrow> rests r s = []) \<Longrightarrow> s \<noteq> [] \<Longrightarrow> rests (alts rs) s = []"
  by (induction rs rule: alts.induct) (auto split: list.splits)

end
