(* ===== verification/Terminal_Report_Filter.thy ===== *)
theory Terminal_Report_Filter
  imports Js_Regex "HOL-Library.Word"
begin

text \<open>
  Telling a terminal's own reports from what a user types (\<open>lib/src/lib/terminal-report-filter.ts\<close>): the
  replies a terminal sends on its input, mouse reports, and the test whether input can start work,
  which the alert manager asks. The expressions are those of the source.
\<close>

unbundle bit_operations_syntax

abbreviation (input) esc :: char where "esc \<equiv> CHR 0x1B"

definition REPORT_CSI :: regex where
  "REPORT_CSI = seq [word [esc, CHR ''[''], Many (code_range 48 63), Many (code_range 32 47), code_range 64 126]"

definition REPORT_SS3 :: regex where
  "REPORT_SS3 = seq [word [esc, CHR ''O''], code_range 64 126]"

definition REPORT_OSC :: regex where
  "REPORT_OSC = seq [word [esc, CHR '']''], Few any_char, Alt (one (CHR 0x07)) (word [esc, bslash])]"

definition REPORT_APC :: regex where
  "REPORT_APC = seq [word [esc, CHR ''_''], Few any_char, word [esc, bslash]]"

definition REPORT_DCS :: regex where
  "REPORT_DCS = seq [word [esc, CHR ''P''], Few any_char, word [esc, bslash]]"

definition REPORT_PARTS :: "regex list" where
  "REPORT_PARTS = [REPORT_CSI, REPORT_SS3, REPORT_OSC, REPORT_APC]"

text \<open>\<open>\d+(?:;\d+)*\<close> and \<open>(?:;\d+)*\<close>.\<close>

definition params :: regex where "params = Many (Seq (one CHR '';'') (some digit))"

definition numbers :: regex where "numbers = Seq (some digit) params"

definition REPLAY_REPORT_CSI :: regex where
  "REPLAY_REPORT_CSI = seq [word [esc, CHR ''['' ], alts [
     seq [maybe (one CHR ''?''), numbers, of_chars ''Rn''],
     seq [maybe (of_chars ''?>=''), Many digit, params, one CHR ''c''],
     seq [numbers, of_chars ''tx''],
     seq [maybe (one CHR ''?''), numbers, word ''$y''],
     seq [one CHR ''?'', numbers, one CHR ''S''],
     seq [one CHR ''?'', Many digit, one CHR ''u'']]]"

definition REPLAY_REPORT_FOCUS :: regex where
  "REPLAY_REPORT_FOCUS = seq [word [esc, CHR ''[''], of_chars ''IO'']"

definition REPLAY_REPORT_PARTS :: "regex list" where
  "REPLAY_REPORT_PARTS = [REPLAY_REPORT_CSI, REPLAY_REPORT_FOCUS, REPORT_OSC, REPORT_DCS, REPORT_APC]"

definition MOUSE_REPORT_X10 :: regex where
  "MOUSE_REPORT_X10 = seq [word [esc, CHR ''['', CHR ''M''], any_char, any_char, any_char]"

definition MOUSE_REPORT_SGR :: regex where
  "MOUSE_REPORT_SGR = seq [word [esc, CHR ''['', CHR ''<''], some digit, one CHR '';'', some digit, one CHR '';'', some digit, of_chars ''mM'']"

definition MOUSE_REPORT_URXVT :: regex where
  "MOUSE_REPORT_URXVT = seq [word [esc, CHR ''[''], some digit, one CHR '';'', some digit, one CHR '';'', some digit, one CHR ''M'']"

definition MOUSE_REPORT_TOKENS :: regex where
  "MOUSE_REPORT_TOKENS = alts [MOUSE_REPORT_X10, MOUSE_REPORT_SGR, MOUSE_REPORT_URXVT]"

text \<open>Every token of the data, a report or else one character, is a report.\<close>

definition all_reports :: "regex list \<Rightarrow> string \<Rightarrow> bool" where
  "all_reports parts data =
     (let chunks = all_matches (alts (parts @ [any_char])) data
      in data \<noteq> [] \<and> chunks \<noteq> [] \<and> list_all (matches_all (alts parts)) chunks)"

definition inputIsSyntheticTerminalReport :: "string \<Rightarrow> bool" where
  "inputIsSyntheticTerminalReport data = all_reports REPORT_PARTS data"

definition inputIsReplayTerminalReport :: "string \<Rightarrow> bool" where
  "inputIsReplayTerminalReport data = all_reports REPLAY_REPORT_PARTS data"

definition stripMouseReportsFromInput :: "string \<Rightarrow> string" where
  "stripMouseReportsFromInput data = replace_all MOUSE_REPORT_TOKENS (\<lambda>_. []) data"

text \<open>\<open>parseInt\<close> on a text that starts with digits; the bits of the button are those of its 32-bit value.\<close>

definition leading_number :: "string \<Rightarrow> int" where
  "leading_number s = foldl (\<lambda>n c. 10 * n + (of_char c - 48)) 0 (takeWhile is_digit s)"

definition isWheelReport :: "string \<Rightarrow> bool" where
  "isWheelReport report =
     (let kind = report ! 2;
          button = (if kind = CHR ''M'' then of_char (report ! 3) - 32
                    else if kind = CHR ''<'' then leading_number (drop 3 report)
                    else leading_number (drop 2 report) - 32)
      in (of_int button :: 32 word) AND 0xE0 = 64)"

definition stripPassiveMouseReportsFromInput :: "string \<Rightarrow> string" where
  "stripPassiveMouseReportsFromInput data = replace_all MOUSE_REPORT_TOKENS (\<lambda>r. if isWheelReport r then r else []) data"

definition inputCanStartWork :: "string \<Rightarrow> bool \<Rightarrow> bool" where
  "inputCanStartWork data userInput =
     (if data \<noteq> [] \<and> hd data \<noteq> esc then True
      else (userInput \<or> \<not> inputIsReplayTerminalReport data) \<and> stripMouseReportsFromInput data \<noteq> [])"

section \<open>Reports start with an escape\<close>

definition escaped :: "regex \<Rightarrow> bool" where
  "escaped r \<longleftrightarrow> (\<forall>c s. c \<noteq> esc \<longrightarrow> rests r (c # s) = [])"

lemma escaped_word: "escaped (seq (word (esc # w) # rs))"
  by (simp add: escaped_def word_def rests_one)

lemma escaped_reports: "r \<in> set REPLAY_REPORT_PARTS \<Longrightarrow> escaped r" "r \<in> {MOUSE_REPORT_X10, MOUSE_REPORT_SGR, MOUSE_REPORT_URXVT} \<Longrightarrow> escaped r"
  unfolding REPLAY_REPORT_PARTS_def REPLAY_REPORT_CSI_def REPLAY_REPORT_FOCUS_def REPORT_OSC_def REPORT_DCS_def REPORT_APC_def
    MOUSE_REPORT_X10_def MOUSE_REPORT_SGR_def MOUSE_REPORT_URXVT_def
  by (auto simp: escaped_word)

lemma escaped_alts: "(\<And>r. r \<in> set rs \<Longrightarrow> escaped r) \<Longrightarrow> escaped (alts rs)"
  unfolding escaped_def using rests_alts_Nil by blast

lemma rests_alts_snoc: "rests (alts (rs @ [r])) s = (if rs = [] then rests r s else rests (alts rs) s @ rests r s)"
  by (induction rs rule: alts.induct) (auto simp: neq_Nil_conv)

text \<open>Text that does not start with an escape is not all reports, and stripping mouse reports leaves some
  of it.\<close>

lemma plain_not_report: "c \<noteq> esc \<Longrightarrow> \<not> inputIsReplayTerminalReport (c # s)"
proof -
  assume c: "c \<noteq> esc"
  have e: "escaped (alts REPLAY_REPORT_PARTS)" using escaped_alts escaped_reports(1) by blast
  then have "rests (alts (REPLAY_REPORT_PARTS @ [any_char])) (c # s) = [s]"
    using c by (simp add: rests_alts_snoc escaped_def any_char_def)
  then have "match_here (alts (REPLAY_REPORT_PARTS @ [any_char])) (c # s) = Some ([c], s)" by (simp add: match_here_def)
  then have "\<exists>ms. all_matches (alts (REPLAY_REPORT_PARTS @ [any_char])) (c # s) = [c] # ms" by (subst all_matches.simps) simp
  moreover have "\<not> matches_all (alts REPLAY_REPORT_PARTS) [c]" using e c by (simp add: matches_all_def escaped_def)
  ultimately show ?thesis by (auto simp: inputIsReplayTerminalReport_def all_reports_def Let_def)
qed

lemma plain_survives: "c \<noteq> esc \<Longrightarrow> stripMouseReportsFromInput (c # s) \<noteq> []"
proof -
  assume c: "c \<noteq> esc"
  have "escaped MOUSE_REPORT_TOKENS" unfolding MOUSE_REPORT_TOKENS_def by (rule escaped_alts) (use escaped_reports(2) in auto)
  then have "match_here MOUSE_REPORT_TOKENS (c # s) = None" using c by (simp add: match_here_def escaped_def)
  then show ?thesis unfolding stripMouseReportsFromInput_def by (subst replace_all.simps) simp
qed

section \<open>Properties\<close>

text \<open>The early answer for input that does not start with an escape changes nothing: input can start work
  exactly when a user typed it or it is not made of terminal replies alone, and something is left of
  it without its mouse reports.\<close>

theorem start_work_early_answer:
  "inputCanStartWork data userInput \<longleftrightarrow>
     (userInput \<or> \<not> inputIsReplayTerminalReport data) \<and> stripMouseReportsFromInput data \<noteq> []"
  using plain_not_report plain_survives by (cases data) (auto simp: inputCanStartWork_def)

end
