(* ===== verification/Alert_Manager.thy ===== *)
theory Alert_Manager
  imports Quiesce_Detector Terminal_State Terminal_Report_Filter
begin

text \<open>
  The alerts of terminal sessions (\<open>lib/src/lib/alert-manager.ts\<close>): one ring per session fed by three
  sources, completions held while the user looks, the TODO they leave, progress cycles, parked awaits
  and what subscribers are told. Every operation and every timer of the class is a definition here,
  over one record of its state; the detector of each session is the one of \<open>Quiesce_Detector\<close>.

  The clock is an argument. Subscribers, removal listeners and resolved promises go into a log, the
  latest first; subscribers are taken to only read. The summary and the watch key of a command line and
  the filter of terminal replies are those of \<open>Terminal_Command\<close> and \<open>Terminal_Report_Filter\<close>; the
  identifiers of new episodes and completion claimants other than awaits are parameters.
\<close>

section \<open>Notifications\<close>

datatype notification_source = OSC9 | OSC94 | OSC99 | OSC777 | BEL | COMMAND_EXIT | WATCHING

record activity_notification =
  nsource :: notification_source
  ntitle :: "string option"
  nbody :: "string option"

definition ACTIVITY_NOTIFICATION_SOURCES :: "(string \<times> notification_source) list" where
  "ACTIVITY_NOTIFICATION_SOURCES = [(''OSC 9'', OSC9), (''OSC 9;4'', OSC94), (''OSC 99'', OSC99), (''OSC 777'', OSC777),
     (''BEL'', BEL), (''COMMAND_EXIT'', COMMAND_EXIT), (''WATCHING'', WATCHING)]"

fun DETAIL_RANK :: "notification_source \<Rightarrow> nat" where
  "DETAIL_RANK OSC9 = 4"
| "DETAIL_RANK OSC99 = 4"
| "DETAIL_RANK OSC777 = 4"
| "DETAIL_RANK COMMAND_EXIT = 3"
| "DETAIL_RANK OSC94 = 2"
| "DETAIL_RANK WATCHING = 1"
| "DETAIL_RANK BEL = 0"

definition richer :: "activity_notification option \<Rightarrow> activity_notification \<Rightarrow> activity_notification" where
  "richer current new = (case current of
      Some c \<Rightarrow> if DETAIL_RANK (nsource c) > DETAIL_RANK (nsource new) then c else new
    | None \<Rightarrow> new)"

definition normalizeNotificationTextField :: "jval \<Rightarrow> string option" where
  "normalizeNotificationTextField v = (case v of
      VStr s \<Rightarrow> (if js_trim s = [] then None else Some (js_trim s)) | _ \<Rightarrow> None)"

definition normalizeActivityNotification :: "jval \<Rightarrow> activity_notification option" where
  "normalizeActivityNotification v = (case v of
      VObj _ \<Rightarrow> (case js_prop v ''source'' of
          VStr s \<Rightarrow> (case map_of ACTIVITY_NOTIFICATION_SOURCES s of
              None \<Rightarrow> None
            | Some src \<Rightarrow>
                (let t = normalizeNotificationTextField (js_prop v ''title'');
                     b = normalizeNotificationTextField (js_prop v ''body'')
                 in if t = None \<and> b = None then None else Some \<lparr>nsource = src, ntitle = t, nbody = b\<rparr>))
        | _ \<Rightarrow> None)
    | _ \<Rightarrow> None)"

section \<open>Rings and holds\<close>

datatype listed_source = ExitSource | ReportSource

record watching_source =
  wkey :: string
  workSince :: bool

datatype ring_source = Watched watching_source | Listed listed_source

record held_completion =
  sources :: "listed_source list"
  watching :: "watching_source option"
  detail :: activity_notification
  arrived :: nat

record alert_episode =
  episode_id :: string
  episode_startedAt :: int

record alert_ring = held_completion +
  episode :: alert_episode

definition takeRicher :: "activity_notification \<Rightarrow> nat \<Rightarrow> 'a held_completion_scheme \<Rightarrow> 'a held_completion_scheme" where
  "takeRicher d a into =
     (if DETAIL_RANK (nsource d) < DETAIL_RANK (nsource (detail into)) \<or>
         (DETAIL_RANK (nsource d) = DETAIL_RANK (nsource (detail into)) \<and> a < arrived into)
      then into else into\<lparr>detail := d, arrived := a\<rparr>)"

definition addSource :: "ring_source \<Rightarrow> 'a held_completion_scheme \<Rightarrow> 'a held_completion_scheme" where
  "addSource s ss = (case s of
      Watched w \<Rightarrow> ss\<lparr>watching := Some w\<rparr>
    | Listed l \<Rightarrow> if l \<in> set (sources ss) then ss else ss\<lparr>sources := sources ss @ [l]\<rparr>)"

definition LISTED_RING_SOURCES :: "listed_source list" where
  "LISTED_RING_SOURCES = [ExitSource, ReportSource]"

definition eachSource :: "'a held_completion_scheme \<Rightarrow> ring_source list" where
  "eachSource ss = (case watching ss of None \<Rightarrow> [] | Some w \<Rightarrow> [Watched w]) @
     map Listed (filter (\<lambda>l. l \<in> set (sources ss)) LISTED_RING_SOURCES)"

text \<open>\<open>dropWatching\<close>, with the set it leaves unless that is empty.\<close>

definition dropWatching :: "'a held_completion_scheme \<Rightarrow> 'a held_completion_scheme option" where
  "dropWatching ss = (if sources ss = [] then None else Some (ss\<lparr>watching := None\<rparr>))"

section \<open>Commands, progress, completions\<close>

record command_exit_watch =
  displayCommand :: string
  watchKey :: "string option"
  run_source :: run_source
  seen :: bool

datatype progress_state = ProgClear | ProgNormal | ProgWarning | ProgIndeterminate | ProgError

datatype progress_outcome = Complete | Warned | Failed

record pending_end =
  end_outcome :: progress_outcome
  end_percent :: "rat option"
  end_due :: int

record active_progress =
  pstate :: progress_state
  percent :: "rat option"
  pend :: "pending_end option"

datatype completion_event =
    SettledEvent
  | CommandFinished string "string option" "int option" bool
  | Notified activity_notification

datatype await_until = UntilQuiet | UntilExit

datatype await_cause = CauseQuiet | CauseExit | CauseBell | CauseIdle

datatype await_outcome = Resolved await_cause int | TimedOut int | Died int | Cancelled int

record waiter =
  wid :: nat
  wuntil :: await_until
  startedAt :: int
  graceTimer :: "int option"
  timeoutTimer :: int

definition AWAIT_GRACE_MS :: int where
  "AWAIT_GRACE_MS = T_BUSY_CANDIDATE_GAP + T_BUSY_CONFIRM_GAP"

definition MAX_AWAIT_TIMEOUT_MS :: rat where
  "MAX_AWAIT_TIMEOUT_MS = 24 * 60 * 60 * 1000"

definition LEAVE_GRACE :: int where "LEAVE_GRACE = 1000"
definition PROGRESS_END_GRACE :: int where "PROGRESS_END_GRACE = 3000"
definition ECHO_WINDOW :: int where "ECHO_WINDOW = 750"

fun awaitCauseFor :: "await_until \<Rightarrow> completion_event \<Rightarrow> await_cause option" where
  "awaitCauseFor u (CommandFinished c k x s) = Some CauseExit"
| "awaitCauseFor UntilExit SettledEvent = None"
| "awaitCauseFor UntilExit (Notified n) = None"
| "awaitCauseFor UntilQuiet SettledEvent = Some CauseQuiet"
| "awaitCauseFor UntilQuiet (Notified n) = Some CauseBell"

fun progress_titles :: "progress_outcome \<Rightarrow> string \<times> string" where
  "progress_titles Complete = (''finished'', ''Progress complete'')"
| "progress_titles Warned = (''finished with a warning'', ''Progress warning'')"
| "progress_titles Failed = (''reported an error'', ''Progress error'')"

definition progressTitle :: "command_exit_watch option \<Rightarrow> progress_outcome \<Rightarrow> string" where
  "progressTitle w oc = (case w of
      None \<Rightarrow> snd (progress_titles oc)
    | Some x \<Rightarrow> (case watchKey x of None \<Rightarrow> displayCommand x | Some k \<Rightarrow> k) @ '' '' @ fst (progress_titles oc))"

definition formatCommandExitBody :: "string \<Rightarrow> int option \<Rightarrow> string" where
  "formatCommandExitBody display exitCode =
     (let command = (if js_trim display = [] then DEFAULT_COMMAND_TITLE else js_trim display)
      in case exitCode of None \<Rightarrow> command | Some c \<Rightarrow> command @ '' exited '' @ show_int c)"

section \<open>State\<close>

record alert_entry =
  edetector :: detector
  ring :: "alert_ring option"
  ackedQuiet :: bool
  progress :: "active_progress option"
  commandExitWatch :: "command_exit_watch option"
  pendingCommandLine :: "string option"
  todo :: bool
  notification :: "activity_notification option"
  held :: "held_completion option"
  leaveGrace :: "int option"
  echoUntil :: int

datatype session_status =
  DetectorStatus quiesce_status | WATCHING_DISABLED | ALERT_RINGING | OSC_NOTIF_BUSY | COMMAND_EXIT_ARMED

record alert_state =
  s_episode :: "alert_episode option"
  s_status :: session_status
  watchingEnabled :: bool
  s_todo :: bool
  s_notification :: "activity_notification option"
  awaited :: bool

definition DEFAULT_ALERT_STATE :: alert_state where
  "DEFAULT_ALERT_STATE = \<lparr>s_episode = None, s_status = WATCHING_DISABLED, watchingEnabled = False, s_todo = False,
     s_notification = None, awaited = False\<rparr>"

datatype claimant = AwaitGroup | OtherClaimant nat

datatype alert_event = Published string alert_state | Gone string | AwaitDone nat await_outcome | ListenersCleared

record manager =
  entries :: "(string \<times> alert_entry) list"
  removed :: "string set"
  claimants :: "string \<Rightarrow> claimant list"
  awaits :: "(string \<times> waiter list) list"
  viewers :: "(string \<times> string option) list"
  lastEmitted :: "string \<Rightarrow> alert_state option"
  watchedCommands :: "string set"
  arrivals :: nat
  helpers :: "string set"
  next_episode :: nat
  next_waiter :: nat
  mlog :: "alert_event list"

definition new_manager :: manager where
  "new_manager = \<lparr>entries = [], removed = {}, claimants = (\<lambda>sid. []), awaits = [], viewers = [], lastEmitted = (\<lambda>sid. None),
     watchedCommands = {}, arrivals = 0, helpers = {}, next_episode = 0, next_waiter = 0, mlog = []\<rparr>"

record services =
  uuid :: "nat \<Rightarrow> string"
  claims :: "nat \<Rightarrow> completion_event \<Rightarrow> bool"

definition new_entry :: alert_entry where
  "new_entry = \<lparr>edetector = new_detector, ring = None, ackedQuiet = False, progress = None, commandExitWatch = None,
     pendingCommandLine = None, todo = False, notification = None, held = None, leaveGrace = None, echoUntil = 0\<rparr>"

definition entry_of :: "manager \<Rightarrow> string \<Rightarrow> alert_entry option" where
  "entry_of m = map_of (entries m)"

definition mod_entry :: "string \<Rightarrow> (alert_entry \<Rightarrow> alert_entry) \<Rightarrow> manager \<Rightarrow> manager" where
  "mod_entry sid f m = (case entry_of m sid of None \<Rightarrow> m | Some e \<Rightarrow> m\<lparr>entries := js_map_set sid (f e) (entries m)\<rparr>)"

definition getOrCreateEntry :: "string \<Rightarrow> manager \<Rightarrow> manager" where
  "getOrCreateEntry sid m = (case entry_of m sid of
      None \<Rightarrow> m\<lparr>entries := js_map_set sid new_entry (entries m)\<rparr> | Some e \<Rightarrow> m)"

definition waiters_of :: "manager \<Rightarrow> string \<Rightarrow> waiter list" where
  "waiters_of m sid = (case map_of (awaits m) sid of None \<Rightarrow> [] | Some ws \<Rightarrow> ws)"

section \<open>What subscribers see\<close>

definition isEngaged :: "manager \<Rightarrow> string \<Rightarrow> bool" where
  "isEngaged m sid = (Some sid \<in> snd ` set (viewers m))"

definition isWatching :: "manager \<Rightarrow> alert_entry \<Rightarrow> bool" where
  "isWatching m e = (watchRuleFor (watchedCommands m) (Option.bind (commandExitWatch e) watchKey) \<noteq> None)"

definition getProjectedStatus :: "manager \<Rightarrow> string \<Rightarrow> alert_entry \<Rightarrow> session_status" where
  "getProjectedStatus m sid e =
     (if ring e \<noteq> None then ALERT_RINGING
      else if progress e \<noteq> None then OSC_NOTIF_BUSY
      else if isWatching m e then DetectorStatus (status (edetector e))
      else if (case commandExitWatch e of Some w \<Rightarrow> seen w | None \<Rightarrow> False) \<and> \<not> isEngaged m sid then COMMAND_EXIT_ARMED
      else WATCHING_DISABLED)"

definition getState :: "manager \<Rightarrow> string \<Rightarrow> alert_state" where
  "getState m sid = (case entry_of m sid of
      None \<Rightarrow> DEFAULT_ALERT_STATE
    | Some e \<Rightarrow> if sid \<in> helpers m then DEFAULT_ALERT_STATE else
        \<lparr>s_episode = map_option episode (ring e), s_status = getProjectedStatus m sid e, watchingEnabled = isWatching m e,
         s_todo = todo e, s_notification = (case ring e of Some r \<Rightarrow> Some (detail r) | None \<Rightarrow> notification e),
         awaited = (waiters_of m sid \<noteq> [])\<rparr>)"

definition alertStatesEqual :: "alert_state \<Rightarrow> alert_state \<Rightarrow> bool" where
  "alertStatesEqual a b = (s_status a = s_status b \<and> watchingEnabled a = watchingEnabled b \<and> s_todo a = s_todo b \<and>
     awaited a = awaited b \<and> map_option episode_id (s_episode a) = map_option episode_id (s_episode b) \<and>
     s_notification a = s_notification b)"

definition has_state :: "manager \<Rightarrow> string \<Rightarrow> bool" where
  "has_state m sid = (entry_of m sid \<noteq> None \<and> sid \<notin> helpers m)"

definition getAllStates :: "manager \<Rightarrow> (string \<times> alert_state) list" where
  "getAllStates m = map (\<lambda>(sid, e). (sid, getState m sid)) (filter (\<lambda>(sid, e). sid \<notin> helpers m) (entries m))"

definition notify :: "string \<Rightarrow> manager \<Rightarrow> manager" where
  "notify sid m =
     (let state = getState m sid in
      if (case lastEmitted m sid of Some said \<Rightarrow> alertStatesEqual said state | None \<Rightarrow> sid \<in> helpers m) then m
      else m\<lparr>lastEmitted := (lastEmitted m)(sid := if entry_of m sid \<noteq> None then Some state else None),
             mlog := Published sid state # mlog m\<rparr>)"

definition setHelper :: "string \<Rightarrow> bool \<Rightarrow> manager \<Rightarrow> manager" where
  "setHelper sid helper m =
     (let m1 = m\<lparr>helpers := if helper then insert sid (helpers m) else helpers m - {sid}\<rparr>
      in if entry_of m1 sid \<noteq> None then notify sid m1 else m1)"

section \<open>Awaits\<close>

definition set_waiters :: "string \<Rightarrow> waiter list \<Rightarrow> manager \<Rightarrow> manager" where
  "set_waiters sid ws m = m\<lparr>awaits := js_map_set sid ws (awaits m)\<rparr>"

definition registerCompletionClaimant :: "string \<Rightarrow> claimant \<Rightarrow> manager \<Rightarrow> manager" where
  "registerCompletionClaimant sid c m =
     (if c \<in> set (claimants m sid) then m else m\<lparr>claimants := (claimants m)(sid := claimants m sid @ [c])\<rparr>)"

definition unregister :: "string \<Rightarrow> claimant \<Rightarrow> manager \<Rightarrow> manager" where
  "unregister sid c m = m\<lparr>claimants := (claimants m)(sid := filter (\<lambda>x. x \<noteq> c) (claimants m sid))\<rparr>"

definition addWaiter :: "string \<Rightarrow> waiter \<Rightarrow> manager \<Rightarrow> manager" where
  "addWaiter sid w m = (case map_of (awaits m) sid of
      None \<Rightarrow> set_waiters sid [w] (registerCompletionClaimant sid AwaitGroup m)
    | Some ws \<Rightarrow> set_waiters sid (ws @ [w]) m)"

definition dropWaiter :: "string \<Rightarrow> nat \<Rightarrow> manager \<Rightarrow> manager" where
  "dropWaiter sid k m = (case map_of (awaits m) sid of
      None \<Rightarrow> m
    | Some ws \<Rightarrow>
        if k \<notin> wid ` set ws then m
        else (let ws' = filter (\<lambda>w. wid w \<noteq> k) ws
              in if ws' \<noteq> [] then set_waiters sid ws' m
                 else unregister sid AwaitGroup (m\<lparr>awaits := js_map_delete sid (awaits m)\<rparr>)))"

text \<open>The \<open>settle\<close> of one await; an await is parked exactly while it has not settled.\<close>

definition settle_waiter :: "string \<Rightarrow> nat \<Rightarrow> await_outcome \<Rightarrow> manager \<Rightarrow> manager" where
  "settle_waiter sid k oc m =
     (if k \<notin> wid ` set (waiters_of m sid) then m
      else let m1 = dropWaiter sid k m in notify sid (m1\<lparr>mlog := AwaitDone k oc # mlog m1\<rparr>))"

definition mod_waiters :: "string \<Rightarrow> (waiter \<Rightarrow> waiter) \<Rightarrow> manager \<Rightarrow> manager" where
  "mod_waiters sid f m = (case map_of (awaits m) sid of None \<Rightarrow> m | Some ws \<Rightarrow> set_waiters sid (map f ws) m)"

definition onOutput :: "waiter \<Rightarrow> waiter" where
  "onOutput w = (if wuntil w = UntilQuiet then w\<lparr>graceTimer := None\<rparr> else w)"

definition onCommandStart :: "waiter \<Rightarrow> waiter" where
  "onCommandStart w = w\<lparr>graceTimer := None\<rparr>"

definition settleWaiters :: "int \<Rightarrow> string \<Rightarrow> (int \<Rightarrow> await_outcome) \<Rightarrow> manager \<Rightarrow> manager" where
  "settleWaiters now sid how m = fold (\<lambda>w. settle_waiter sid (wid w) (how (now - startedAt w))) (waiters_of m sid) m"

definition offer :: "int \<Rightarrow> string \<Rightarrow> completion_event \<Rightarrow> waiter \<Rightarrow> manager \<times> bool \<Rightarrow> manager \<times> bool" where
  "offer now sid ev w = (\<lambda>(m, claimed). case awaitCauseFor (wuntil w) ev of
      None \<Rightarrow> (m, claimed)
    | Some c \<Rightarrow> (settle_waiter sid (wid w) (Resolved c (now - startedAt w)) m, True))"

fun run_claimants :: "services \<Rightarrow> int \<Rightarrow> string \<Rightarrow> completion_event \<Rightarrow> claimant list \<Rightarrow> manager \<Rightarrow> manager \<times> bool" where
  "run_claimants S now sid ev [] m = (m, False)"
| "run_claimants S now sid ev (OtherClaimant n # cs) m = (if claims S n ev then (m, True) else run_claimants S now sid ev cs m)"
| "run_claimants S now sid ev (AwaitGroup # cs) m =
     (let (m', claimed) = fold (offer now sid ev) (waiters_of m sid) (m, False)
      in if claimed then (m', True) else run_claimants S now sid ev cs m')"

section \<open>Completions\<close>

definition inEchoWindow :: "int \<Rightarrow> alert_entry \<Rightarrow> bool" where
  "inEchoWindow now e = (now < echoUntil e)"

definition hold :: "ring_source \<Rightarrow> activity_notification \<Rightarrow> nat \<Rightarrow> alert_entry \<Rightarrow> alert_entry" where
  "hold s d a e =
     (let h = (case held e of None \<Rightarrow> \<lparr>sources = [], watching = None, detail = d, arrived = a\<rparr> | Some h \<Rightarrow> h)
      in e\<lparr>held := Some (addSource s (takeRicher d a h)), todo := True, notification := Some (richer (notification e) d)\<rparr>)"

definition updateReceipt :: "activity_notification \<Rightarrow> alert_entry \<Rightarrow> alert_entry" where
  "updateReceipt d e = (if todo e then e\<lparr>notification := Some (richer (notification e) d)\<rparr> else e)"

definition raiseRing :: "services \<Rightarrow> int \<Rightarrow> string \<Rightarrow> ring_source \<Rightarrow> activity_notification \<Rightarrow> nat \<Rightarrow> manager \<Rightarrow> manager" where
  "raiseRing S now sid s d a m = (case Option.bind (entry_of m sid) ring of
      None \<Rightarrow>
        (let r = addSource s \<lparr>sources = [], watching = None, detail = d, arrived = a,
                   episode = \<lparr>episode_id = uuid S (next_episode m), episode_startedAt = now\<rparr>\<rparr>
         in mod_entry sid (\<lambda>e. e\<lparr>ring := Some r, ackedQuiet := False\<rparr>) (m\<lparr>next_episode := next_episode m + 1\<rparr>))
    | Some r \<Rightarrow> mod_entry sid (\<lambda>e. e\<lparr>ring := Some (addSource s (takeRicher d a r))\<rparr>) m)"

definition holdOrDeliver ::
  "services \<Rightarrow> int \<Rightarrow> string \<Rightarrow> ring_source \<Rightarrow> activity_notification \<Rightarrow> nat option \<Rightarrow> manager \<Rightarrow> manager" where
  "holdOrDeliver S now sid s d kept m =
     (let m1 = (if kept = None then m\<lparr>arrivals := arrivals m + 1\<rparr> else m);
          a = (case kept of None \<Rightarrow> arrivals m1 | Some k \<Rightarrow> k)
      in notify sid
        (if isEngaged m1 sid then mod_entry sid (hold s d a) m1
         else if s = Listed ReportSource \<and> (case entry_of m1 sid of Some e \<Rightarrow> ackedQuiet e | None \<Rightarrow> False)
         then (if kept = None then mod_entry sid (updateReceipt d) m1 else m1)
         else raiseRing S now sid s d a m1))"

text \<open>What a completion may ring with: its source and its detail, or nothing.\<close>

definition ring_rule :: "manager \<Rightarrow> alert_entry \<Rightarrow> completion_event \<Rightarrow> (ring_source \<times> activity_notification) option" where
  "ring_rule m e ev = (case ev of
      SettledEvent \<Rightarrow> (case Option.bind (commandExitWatch e) watchKey of
          None \<Rightarrow> None
        | Some key \<Rightarrow> if key = [] \<or> \<not> isWatching m e then None
            else Some (Watched \<lparr>wkey = key, workSince = False\<rparr>,
                       \<lparr>nsource = WATCHING, ntitle = Some (key @ '' went quiet''), nbody = None\<rparr>))
    | CommandFinished display key exitCode wasSeen \<Rightarrow>
        if \<not> wasSeen then None
        else Some (Listed ExitSource, \<lparr>nsource = COMMAND_EXIT, ntitle = Some ''Command finished'',
                                       nbody = Some (formatCommandExitBody display exitCode)\<rparr>)
    | Notified n \<Rightarrow> Some (Listed ReportSource, n))"

definition dispatchCompletion :: "services \<Rightarrow> int \<Rightarrow> string \<Rightarrow> completion_event \<Rightarrow> manager \<Rightarrow> manager \<times> bool" where
  "dispatchCompletion S now sid ev m =
     (if sid \<in> helpers m then (m, False)
      else let (m1, claimed) = run_claimants S now sid ev (claimants m sid) m
        in if claimed then (m1, True)
           else (case entry_of m1 sid of
               None \<Rightarrow> m1
             | Some e \<Rightarrow>
                 if inEchoWindow now e then notify sid m1
                 else (case ring_rule m1 e ev of None \<Rightarrow> m1 | Some (s, d) \<Rightarrow> holdOrDeliver S now sid s d None m1), False))"

definition invalidateWatching :: "(string \<Rightarrow> bool) \<Rightarrow> alert_entry \<Rightarrow> alert_entry" where
  "invalidateWatching voids e =
     e\<lparr>ring := (case ring e of
           None \<Rightarrow> None
         | Some r \<Rightarrow> (case watching r of Some w \<Rightarrow> if voids (wkey w) then dropWatching r else Some r | None \<Rightarrow> Some r)),
       held := (case held e of
           None \<Rightarrow> None
         | Some h \<Rightarrow> (case watching h of Some w \<Rightarrow> if voids (wkey w) then dropWatching h else Some h | None \<Rightarrow> Some h))\<rparr>"

definition onSettled :: "services \<Rightarrow> int \<Rightarrow> string \<Rightarrow> manager \<Rightarrow> manager" where
  "onSettled S now sid m = (case entry_of m sid of
      None \<Rightarrow> m
    | Some e \<Rightarrow>
        if progress e \<noteq> None then m
        else (let (m1, claimed) = dispatchCompletion S now sid SettledEvent m
              in if claimed then notify sid (mod_entry sid (invalidateWatching (\<lambda>k. True)) m1) else m1))"

section \<open>The detector of a session\<close>

text \<open>What the manager does with each report of a detector it created.\<close>

definition createDetector :: "services \<Rightarrow> int \<Rightarrow> string \<Rightarrow> detector_event \<Rightarrow> manager \<Rightarrow> manager" where
  "createDetector S now sid ev m = (case ev of
      Output t \<Rightarrow> m | Changed st \<Rightarrow> notify sid m | Settled t \<Rightarrow> onSettled S now sid m)"

text \<open>
  The session's detector moves on to \<open>d\<close>, and the manager hears what it reported meanwhile, in order.
  A move reports one change of status at most and its status does not change again after that, so
  each handler sees the status the detector ends with; no handler here calls the detector back.
\<close>

definition run_detector :: "services \<Rightarrow> int \<Rightarrow> string \<Rightarrow> detector \<Rightarrow> manager \<Rightarrow> manager" where
  "run_detector S now sid d m = (case entry_of m sid of
      None \<Rightarrow> m
    | Some e \<Rightarrow> fold (createDetector S now sid) (rev (take (length (qlog d) - length (qlog (edetector e))) (qlog d)))
        (mod_entry sid (\<lambda>x. x\<lparr>edetector := d\<rparr>) m))"

definition work_noted :: "'a held_completion_scheme \<Rightarrow> 'a held_completion_scheme" where
  "work_noted ss = ss\<lparr>watching := map_option (\<lambda>w. w\<lparr>workSince := True\<rparr>) (watching ss)\<rparr>"

definition noteWork :: "string \<Rightarrow> manager \<Rightarrow> manager" where
  "noteWork sid m = mod_waiters sid onOutput
     (mod_entry sid (\<lambda>e. e\<lparr>ring := map_option work_noted (ring e), held := map_option work_noted (held e), ackedQuiet := False\<rparr>) m)"

definition alert_onData :: "services \<Rightarrow> int \<Rightarrow> string \<Rightarrow> manager \<Rightarrow> manager" where
  "alert_onData S now sid m =
     (if sid \<in> removed m then m
      else let m0 = getOrCreateEntry sid m in
        (case entry_of m0 sid of
           None \<Rightarrow> m0
         | Some e \<Rightarrow>
             if inEchoWindow now e then m0
             else (let (d, counted) = onData now (edetector e); m1 = run_detector S now sid d m0
                   in if counted then noteWork sid m1 else m1)))"

definition detector_timer_fired :: "services \<Rightarrow> int \<Rightarrow> string \<Rightarrow> detector_timer \<Rightarrow> manager \<Rightarrow> manager" where
  "detector_timer_fired S now sid k m = (case entry_of m sid of
      None \<Rightarrow> m
    | Some e \<Rightarrow> (case timers (edetector e) k of
          None \<Rightarrow> m
        | Some due \<Rightarrow> run_detector S now sid (timer_fired k due [] now (edetector e)) m))"

section \<open>Rings, TODOs and runs of one entry\<close>

definition answeredWatching :: "alert_entry \<Rightarrow> alert_entry" where
  "answeredWatching e = e\<lparr>edetector := reset_detector (edetector e)\<rparr>"

datatype withdrawable = WithdrawWatching | WithdrawListed listed_source

definition withdrawRingSource :: "withdrawable \<Rightarrow> alert_entry \<Rightarrow> alert_entry option" where
  "withdrawRingSource s e = (case ring e of
      None \<Rightarrow> None
    | Some r \<Rightarrow> (case s of
          WithdrawWatching \<Rightarrow> if watching r = None then None else Some (answeredWatching (e\<lparr>ring := dropWatching r\<rparr>))
        | WithdrawListed l \<Rightarrow>
            if l \<notin> set (sources r) then None
            else (let r' = r\<lparr>sources := filter (\<lambda>x. x \<noteq> l) (sources r)\<rparr>
                  in Some (e\<lparr>ring := if sources r' = [] \<and> watching r' = None then None else Some r'\<rparr>))))"

definition clearRingForUser :: "alert_entry \<Rightarrow> alert_entry" where
  "clearRingForUser e =
     (if ring e = None \<and> held e = None then e
      else let e1 = e\<lparr>ring := None, held := None, ackedQuiet := True\<rparr>
        in if Option.bind (ring e) watching \<noteq> None \<or> Option.bind (held e) watching \<noteq> None
           then answeredWatching e1 else e1)"

definition ringToTodo :: "alert_ring option \<Rightarrow> alert_entry \<Rightarrow> alert_entry" where
  "ringToTodo r e = (case r of None \<Rightarrow> e | Some x \<Rightarrow> e\<lparr>todo := True, notification := Some (detail x)\<rparr>)"

definition cancelProgressEnd :: "alert_entry \<Rightarrow> alert_entry" where
  "cancelProgressEnd e = e\<lparr>progress := map_option (\<lambda>p. p\<lparr>pend := None\<rparr>) (progress e)\<rparr>"

definition endRun :: "alert_entry \<Rightarrow> alert_entry" where
  "endRun e = (cancelProgressEnd e)\<lparr>progress := None, edetector := reset_detector (edetector e)\<rparr>"

definition endLeaveGrace :: "alert_entry \<Rightarrow> alert_entry" where
  "endLeaveGrace e = e\<lparr>leaveGrace := None\<rparr>"

definition startLeaveGrace :: "int \<Rightarrow> alert_entry \<Rightarrow> alert_entry" where
  "startLeaveGrace now e = (if held e = None then endLeaveGrace e else (endLeaveGrace e)\<lparr>leaveGrace := Some (now + LEAVE_GRACE)\<rparr>)"

definition markSeen :: "alert_entry \<Rightarrow> alert_entry" where
  "markSeen e = e\<lparr>commandExitWatch := map_option (\<lambda>w. w\<lparr>seen := True\<rparr>) (commandExitWatch e)\<rparr>"

definition setTodoForUser :: "string \<Rightarrow> bool \<Rightarrow> manager \<Rightarrow> manager" where
  "setTodoForUser sid v m = notify sid (mod_entry sid (\<lambda>e.
     let e1 = clearRingForUser e;
         e2 = (if v then ringToTodo (ring e) e1 else e1)
     in e2\<lparr>todo := v, notification := if v then notification e2 else None\<rparr>) m)"

section \<open>Progress cycles\<close>

definition settleProgressEnd :: "services \<Rightarrow> int \<Rightarrow> string \<Rightarrow> manager \<Rightarrow> manager" where
  "settleProgressEnd S now sid m = (case entry_of m sid of
      None \<Rightarrow> m
    | Some e \<Rightarrow> (case Option.bind (progress e) pend of
          None \<Rightarrow> m
        | Some en \<Rightarrow>
            (let (m1, claimed) = dispatchCompletion S now sid
                   (Notified \<lparr>nsource = OSC94, ntitle = Some (progressTitle (commandExitWatch e) (end_outcome en)),
                      nbody = map_option (\<lambda>p. ''Progress '' @ show_int (js_round p) @ ''%'') (end_percent en)\<rparr>)
                   (mod_entry sid endRun m)
             in if claimed then notify sid m1 else m1)))"

definition reportedEntry :: "string \<Rightarrow> manager \<Rightarrow> manager" where
  "reportedEntry sid m = getOrCreateEntry sid (m\<lparr>removed := removed m - {sid}\<rparr>)"

definition updateProtocolProgress :: "services \<Rightarrow> int \<Rightarrow> string \<Rightarrow> progress_state \<Rightarrow> rat option \<Rightarrow> manager \<Rightarrow> manager" where
  "updateProtocolProgress S now sid st pc m =
     (if sid \<in> helpers m then m
      else let m0 = reportedEntry sid m; live = Option.bind (entry_of m0 sid) progress in
        if st = ProgClear \<or> st = ProgError \<or> (st = ProgNormal \<and> pc = Some 100)
        then (case live of
            None \<Rightarrow> m0
          | Some p \<Rightarrow>
              if pend p \<noteq> None then m0
              else mod_entry sid (\<lambda>e. e\<lparr>progress := Some (p\<lparr>pend := Some
                \<lparr>end_outcome = (if st = ProgError then Failed else if pstate p = ProgWarning then Warned else Complete),
                 end_percent = (if st = ProgClear then percent p else pc),
                 end_due = now + PROGRESS_END_GRACE\<rparr>\<rparr>)\<rparr>) m0)
        else (let m1 = mod_entry sid (\<lambda>e. e\<lparr>edetector := expectWork now (edetector e)\<rparr>)
                         (noteWork sid (mod_entry sid cancelProgressEnd m0))
              in if (case live of Some p \<Rightarrow> pstate p = st \<and> percent p = pc | None \<Rightarrow> False) then m1
                 else notify sid (mod_entry sid (\<lambda>e. e\<lparr>progress := Some \<lparr>pstate = st, percent = pc, pend = None\<rparr>\<rparr>) m1)))"

definition notifyFromProtocol :: "services \<Rightarrow> int \<Rightarrow> string \<Rightarrow> jval \<Rightarrow> manager \<Rightarrow> manager" where
  "notifyFromProtocol S now sid v m =
     (if sid \<in> helpers m then m
      else let m0 = reportedEntry sid m
        in case normalizeActivityNotification v of
             None \<Rightarrow> m0 | Some n \<Rightarrow> fst (dispatchCompletion S now sid (Notified n) m0))"

section \<open>Commands\<close>

definition endRunAtBoundary :: "services \<Rightarrow> int \<Rightarrow> string \<Rightarrow> manager \<Rightarrow> manager \<times> bool" where
  "endRunAtBoundary S now sid m =
     (let m1 = settleProgressEnd S now sid m
      in (mod_entry sid endRun m1, Option.bind (entry_of m1 sid) progress \<noteq> None))"

definition startCommandExitWatch :: "services \<Rightarrow> int \<Rightarrow> string \<Rightarrow> run_source option \<Rightarrow> rat option \<Rightarrow> manager \<Rightarrow> manager" where
  "startCommandExitWatch S now sid src started m =
     (let m1 = fst (endRunAtBoundary S now sid m)
      in mod_waiters sid onCommandStart (mod_entry sid (\<lambda>e.
           let (raw, display, rs, _) = resolveCommandStart (pendingCommandLine e) src started (of_int now) DEFAULT_COMMAND_TITLE
           in e\<lparr>pendingCommandLine := None, ackedQuiet := False, commandExitWatch := Some
               \<lparr>displayCommand = display, watchKey = Option.bind raw commandWatchKey, run_source = rs,
                seen = isEngaged m1 sid\<rparr>\<rparr>) m1))"

definition finishCommandExitWatch :: "services \<Rightarrow> int \<Rightarrow> string \<Rightarrow> int option \<Rightarrow> manager \<Rightarrow> manager \<times> bool" where
  "finishCommandExitWatch S now sid exitCode m =
     (let (m1, endedProgress) = endRunAtBoundary S now sid m;
          watch = Option.bind (entry_of m1 sid) commandExitWatch;
          m2 = mod_entry sid (\<lambda>e. e\<lparr>commandExitWatch := None, pendingCommandLine := None\<rparr>) m1
      in (case watch of
            None \<Rightarrow> m2
          | Some w \<Rightarrow> fst (dispatchCompletion S now sid
              (CommandFinished (displayCommand w) (watchKey w) exitCode (seen w)) m2),
          watch \<noteq> None \<or> endedProgress))"

definition semantic_event_step :: "services \<Rightarrow> int \<Rightarrow> string \<Rightarrow> semantic_event \<Rightarrow> manager \<times> bool \<Rightarrow> manager \<times> bool" where
  "semantic_event_step S now sid ev = (\<lambda>(m, changed). case ev of
      CommandLine l \<Rightarrow>
        if Option.bind (entry_of m sid) pendingCommandLine \<noteq> Some l
        then (mod_entry sid (\<lambda>e. e\<lparr>pendingCommandLine := Some l\<rparr>) m, True) else (m, changed)
    | CommandStart src started \<Rightarrow> (startCommandExitWatch S now sid src started m, True)
    | CommandFinish c finished \<Rightarrow> (let (m1, ch) = finishCommandExitWatch S now sid c m in (m1, ch \<or> changed))
    | PromptStart \<Rightarrow> (let (m1, ch) = finishCommandExitWatch S now sid None m in (m1, ch \<or> changed))
    | PromptEnd \<Rightarrow> (let (m1, ch) = finishCommandExitWatch S now sid None m in (m1, ch \<or> changed))
    | CwdEvent _ \<Rightarrow> (m, changed)
    | TitleEvent _ \<Rightarrow> (m, changed))"

definition applyTerminalSemanticEvents :: "services \<Rightarrow> int \<Rightarrow> string \<Rightarrow> semantic_event list \<Rightarrow> manager \<Rightarrow> manager" where
  "applyTerminalSemanticEvents S now sid evs m =
     (if evs = [] then m
      else let (m1, changed) = fold (semantic_event_step S now sid) evs (reportedEntry sid m, False)
        in if changed then notify sid m1 else m1)"

definition onExit :: "services \<Rightarrow> int \<Rightarrow> string \<Rightarrow> int option \<Rightarrow> manager \<Rightarrow> manager" where
  "onExit S now sid exitCode m =
     settleWaiters now sid Died (case entry_of m sid of
        None \<Rightarrow> m
      | Some e \<Rightarrow> (let (m1, changed) = finishCommandExitWatch S now sid exitCode m in if changed then notify sid m1 else m1))"

section \<open>Engagement and the user's verbs\<close>

datatype lapse = LapseIdle | LapseLeave

definition escalateHeld :: "services \<Rightarrow> int \<Rightarrow> string \<Rightarrow> manager \<Rightarrow> manager" where
  "escalateHeld S now sid m = (case Option.bind (entry_of m sid) held of
      None \<Rightarrow> m
    | Some h \<Rightarrow> fold (\<lambda>s. holdOrDeliver S now sid s (detail h) (Some (arrived h))) (eachSource h)
        (mod_entry sid (\<lambda>e. e\<lparr>held := None\<rparr>) m))"

definition viewer_moved ::
  "services \<Rightarrow> int \<Rightarrow> string option option \<Rightarrow> lapse option \<Rightarrow> string \<times> bool \<Rightarrow> manager \<Rightarrow> manager" where
  "viewer_moved S now after lp = (\<lambda>(sid, was) m.
     if entry_of m sid = None \<or> sid \<in> helpers m \<or> isEngaged m sid = was then m
     else notify sid
       (if \<not> was then mod_entry sid (markSeen \<circ> endLeaveGrace) m
        else if after \<noteq> None then mod_entry sid (\<lambda>e. e\<lparr>held := None\<rparr>) m
        else if lp = Some LapseIdle then escalateHeld S now sid m
        else mod_entry sid (startLeaveGrace now) m))"

definition setViewer :: "services \<Rightarrow> int \<Rightarrow> string \<Rightarrow> jval \<Rightarrow> lapse option \<Rightarrow> manager \<Rightarrow> manager" where
  "setViewer S now vid v lp m =
     (let focusId = as_str (js_prop v ''focusId'');
          before = map_of (viewers m) vid;
          after = (if js_prop v ''present'' = VBool True then Some focusId else None)
      in if before = after then m
         else let touched = map (\<lambda>sid. (sid, isEngaged m sid)) (concat (map (\<lambda>f. case f of Some (Some sid) \<Rightarrow> [sid] | _ \<Rightarrow> []) [before, after]));
                  vs = (case after of None \<Rightarrow> js_map_delete vid (viewers m) | Some f \<Rightarrow> js_map_set vid f (viewers m))
           in fold (viewer_moved S now after lp) touched (m\<lparr>viewers := vs\<rparr>))"

definition removeViewer :: "services \<Rightarrow> int \<Rightarrow> string \<Rightarrow> manager \<Rightarrow> manager" where
  "removeViewer S now vid = setViewer S now vid (VObj [(''present'', VBool False), (''focusId'', VNull)]) (Some LapseLeave)"

definition leave_grace_fired :: "services \<Rightarrow> int \<Rightarrow> string \<Rightarrow> manager \<Rightarrow> manager" where
  "leave_grace_fired S now sid m =
     (let m1 = mod_entry sid endLeaveGrace m
      in if viewers m1 = [] then escalateHeld S now sid m1 else mod_entry sid (\<lambda>e. e\<lparr>held := None\<rparr>) m1)"

definition acknowledge :: "services \<Rightarrow> int \<Rightarrow> string \<Rightarrow> bool \<Rightarrow> manager \<Rightarrow> manager" where
  "acknowledge S now sid input m =
     (if entry_of m sid = None then m
      else let m1 = (if input then mod_entry sid (\<lambda>e. e\<lparr>echoUntil := now + ECHO_WINDOW\<rparr>) m else m)
        in if sid \<in> helpers m1 then m1
           else let m2 = mod_entry sid markSeen m1
             in if input
                then setTodoForUser sid False (mod_entry sid clearRingForUser (settleProgressEnd S now sid m2))
                else notify sid (mod_entry sid (\<lambda>e. ringToTodo (ring e) (clearRingForUser e)) m2))"

definition dismissAlert :: "string \<Rightarrow> manager \<Rightarrow> manager" where
  "dismissAlert sid m =
     (if entry_of m sid = None then m
      else notify sid (mod_entry sid (\<lambda>e. ringToTodo (ring e) (clearRingForUser e)) m))"

definition toggleTodo :: "string \<Rightarrow> manager \<Rightarrow> manager" where
  "toggleTodo sid m =
     (if sid \<in> helpers m then m
      else let m0 = getOrCreateEntry sid m
        in setTodoForUser sid (case entry_of m0 sid of Some e \<Rightarrow> \<not> todo e | None \<Rightarrow> False) m0)"

definition clearTodo :: "string \<Rightarrow> manager \<Rightarrow> manager" where
  "clearTodo sid m = (if sid \<in> helpers m then m else setTodoForUser sid False (getOrCreateEntry sid m))"

definition onWrite :: "services \<Rightarrow> int \<Rightarrow> string \<Rightarrow> string \<Rightarrow> bool \<Rightarrow> manager \<Rightarrow> manager" where
  "onWrite S now sid data userInput m =
     (let m1 = (if userInput then acknowledge S now sid True m else m)
      in if inputCanStartWork data userInput \<and> sid \<notin> removed m1
         then mod_entry sid (\<lambda>e. e\<lparr>edetector := expectWork now (edetector e)\<rparr>) (getOrCreateEntry sid m1)
         else m1)"

section \<open>Watch rules\<close>

definition withdrawUncoveredWatchingRing :: "string set \<Rightarrow> alert_entry \<Rightarrow> alert_entry" where
  "withdrawUncoveredWatchingRing rules = invalidateWatching (\<lambda>key. watchRuleFor rules (Some key) = None)"

definition replace_rules :: "string set \<Rightarrow> manager \<Rightarrow> manager" where
  "replace_rules rules m =
     (if rules = watchedCommands m then m
      else fold (\<lambda>sid x. notify sid (mod_entry sid (withdrawUncoveredWatchingRing rules) x))
             (map fst (entries m)) (m\<lparr>watchedCommands := rules\<rparr>))"

definition setWatchedCommands :: "string list \<Rightarrow> manager \<Rightarrow> manager" where
  "setWatchedCommands names m = replace_rules (set names) m"

definition setCommandWatched :: "string \<Rightarrow> bool \<Rightarrow> manager \<Rightarrow> manager" where
  "setCommandWatched name watched m =
     (let t = js_trim name
      in if t = [] \<or> (t \<in> watchedCommands m) = watched then m
         else replace_rules (if watched then insert t (watchedCommands m) else watchedCommands m - {t}) m)"

section \<open>Parking an await\<close>

definition consumeAwaitableRing :: "await_until \<Rightarrow> alert_entry \<Rightarrow> (alert_entry \<times> await_cause) option" where
  "consumeAwaitableRing u e =
     (case (if u = UntilQuiet then withdrawRingSource (WithdrawListed ReportSource) e else None) of
        Some e' \<Rightarrow> Some (e', CauseBell)
      | None \<Rightarrow>
          (case (if commandExitWatch e = None then withdrawRingSource (WithdrawListed ExitSource) e else None) of
             Some e' \<Rightarrow> Some (e', CauseExit)
           | None \<Rightarrow>
               (case (if u = UntilQuiet \<and> map_option workSince (Option.bind (ring e) watching) = Some False
                      then withdrawRingSource WithdrawWatching e else None) of
                  Some e' \<Rightarrow> Some (e', CauseQuiet)
                | None \<Rightarrow> None)))"

text \<open>An await that is over at once is its outcome, a parked one its number.\<close>

definition awaitCompletion :: "int \<Rightarrow> string \<Rightarrow> await_until \<Rightarrow> jsnum \<Rightarrow> manager \<Rightarrow> manager \<times> (await_outcome + nat)" where
  "awaitCompletion now sid u timeoutMs m =
     (if sid \<in> helpers m then (m, Inl (Cancelled 0))
      else case timeoutMs of
        JFin t \<Rightarrow>
          if t \<le> 0 \<or> t > MAX_AWAIT_TIMEOUT_MS then (m, Inl (Cancelled 0))
          else if sid \<in> removed m then (m, Inl (Died 0))
          else (let m0 = getOrCreateEntry sid m; e = (case entry_of m0 sid of Some e \<Rightarrow> e | None \<Rightarrow> new_entry) in
            case consumeAwaitableRing u e of
              Some (e', c) \<Rightarrow> (notify sid (mod_entry sid (\<lambda>_. e') m0), Inl (Resolved c 0))
            | None \<Rightarrow>
                (let w = \<lparr>wid = next_waiter m0, wuntil = u, startedAt = now,
                          graceTimer = (if commandExitWatch e = None then Some (now + AWAIT_GRACE_MS) else None),
                          timeoutTimer = now + \<lfloor>t\<rfloor>\<rparr>
                 in (notify sid (addWaiter sid w (m0\<lparr>next_waiter := next_waiter m0 + 1\<rparr>)), Inr (wid w))))
      | _ \<Rightarrow> (m, Inl (Cancelled 0)))"

definition cancel_await :: "int \<Rightarrow> string \<Rightarrow> nat \<Rightarrow> manager \<Rightarrow> manager" where
  "cancel_await now sid k m = (case find (\<lambda>w. wid w = k) (waiters_of m sid) of
      None \<Rightarrow> m | Some w \<Rightarrow> settle_waiter sid k (Cancelled (now - startedAt w)) m)"

definition await_grace_fired :: "int \<Rightarrow> string \<Rightarrow> nat \<Rightarrow> manager \<Rightarrow> manager" where
  "await_grace_fired now sid k m = (case find (\<lambda>w. wid w = k) (waiters_of m sid) of
      None \<Rightarrow> m | Some w \<Rightarrow> settle_waiter sid k (Resolved CauseIdle (now - startedAt w)) m)"

definition await_timeout_fired :: "int \<Rightarrow> string \<Rightarrow> nat \<Rightarrow> manager \<Rightarrow> manager" where
  "await_timeout_fired now sid k m = (case find (\<lambda>w. wid w = k) (waiters_of m sid) of
      None \<Rightarrow> m | Some w \<Rightarrow> settle_waiter sid k (TimedOut (now - startedAt w)) m)"

section \<open>The end of a run and of a session\<close>

definition silenceRun :: "string \<Rightarrow> manager \<Rightarrow> manager" where
  "silenceRun sid m =
     (if entry_of m sid = None then m
      else notify sid (mod_entry sid (\<lambda>e. endRun (e\<lparr>commandExitWatch := None, pendingCommandLine := None\<rparr>)) m))"

definition discard :: "int \<Rightarrow> string \<Rightarrow> manager \<Rightarrow> manager" where
  "discard now sid m =
     (let m1 = settleWaiters now sid Died (m\<lparr>removed := insert sid (removed m)\<rparr>);
          m2 = m1\<lparr>claimants := (claimants m1)(sid := [])\<rparr>;
          m3 = (if entry_of m2 sid = None then m2 else notify sid (m2\<lparr>entries := js_map_delete sid (entries m2)\<rparr>))
      in m3\<lparr>helpers := helpers m3 - {sid}\<rparr>)"

definition remove_session :: "int \<Rightarrow> string \<Rightarrow> manager \<Rightarrow> manager" where
  "remove_session now sid m = (let m1 = discard now sid m in m1\<lparr>mlog := Gone sid # mlog m1\<rparr>)"

definition restart :: "int \<Rightarrow> string \<Rightarrow> manager \<Rightarrow> manager" where
  "restart now sid m = (let m1 = discard now sid m in m1\<lparr>removed := removed m1 - {sid}\<rparr>)"

definition seed_session :: "string \<Rightarrow> jval \<Rightarrow> jval \<Rightarrow> manager \<Rightarrow> manager" where
  "seed_session sid t n m =
     (if sid \<in> helpers m then m
      else notify sid (mod_entry sid (\<lambda>e. endRun (e\<lparr>todo := (t = VBool True),
        notification := (if t = VBool True then normalizeActivityNotification n else None),
        ring := None, held := None, ackedQuiet := False, commandExitWatch := None, pendingCommandLine := None\<rparr>))
        (getOrCreateEntry sid m)))"

definition dispose_manager :: "int \<Rightarrow> manager \<Rightarrow> manager" where
  "dispose_manager now m =
     (let m1 = fold (\<lambda>sid. settleWaiters now sid Cancelled) (map fst (awaits m)) m
      in m1\<lparr>entries := [], removed := {}, helpers := {}, awaits := [], claimants := (\<lambda>sid. []), viewers := [],
            lastEmitted := (\<lambda>sid. None), mlog := ListenersCleared # mlog m1\<rparr>)"

section \<open>Runs of the manager\<close>

datatype alert_call =
    SetHelper string bool
  | OnData string
  | OnExit string "int option"
  | OnWrite string string bool
  | SetWatchedCommands "string list"
  | SetCommandWatched string bool
  | NotifyFromProtocol string jval
  | UpdateProgress string progress_state "rat option"
  | SemanticEvents string "semantic_event list"
  | AwaitCompletion string await_until jsnum
  | CancelAwait string nat
  | SetViewer string jval "lapse option"
  | Acknowledge string bool
  | DismissAlert string
  | ToggleTodo string
  | ClearTodo string
  | SilenceRun string
  | RemoveSession string
  | Restart string
  | SeedSession string jval jval
  | DisposeManager
  | RegisterClaimant string nat
  | UnregisterClaimant string nat
  | DetectorTimer string detector_timer
  | ProgressTimer string
  | LeaveTimer string
  | GraceTimer string nat
  | TimeoutTimer string nat

fun perform :: "services \<Rightarrow> int \<Rightarrow> alert_call \<Rightarrow> manager \<Rightarrow> manager" where
  "perform S now (SetHelper sid h) m = setHelper sid h m"
| "perform S now (OnData sid) m = alert_onData S now sid m"
| "perform S now (OnExit sid c) m = onExit S now sid c m"
| "perform S now (OnWrite sid data u) m = onWrite S now sid data u m"
| "perform S now (SetWatchedCommands names) m = setWatchedCommands names m"
| "perform S now (SetCommandWatched name w) m = setCommandWatched name w m"
| "perform S now (NotifyFromProtocol sid v) m = notifyFromProtocol S now sid v m"
| "perform S now (UpdateProgress sid st pc) m = updateProtocolProgress S now sid st pc m"
| "perform S now (SemanticEvents sid evs) m = applyTerminalSemanticEvents S now sid evs m"
| "perform S now (AwaitCompletion sid u t) m = fst (awaitCompletion now sid u t m)"
| "perform S now (CancelAwait sid k) m = cancel_await now sid k m"
| "perform S now (SetViewer vid v lp) m = setViewer S now vid v lp m"
| "perform S now (Acknowledge sid i) m = acknowledge S now sid i m"
| "perform S now (DismissAlert sid) m = dismissAlert sid m"
| "perform S now (ToggleTodo sid) m = toggleTodo sid m"
| "perform S now (ClearTodo sid) m = clearTodo sid m"
| "perform S now (SilenceRun sid) m = silenceRun sid m"
| "perform S now (RemoveSession sid) m = remove_session now sid m"
| "perform S now (Restart sid) m = restart now sid m"
| "perform S now (SeedSession sid t n) m = seed_session sid t n m"
| "perform S now DisposeManager m = dispose_manager now m"
| "perform S now (RegisterClaimant sid n) m = registerCompletionClaimant sid (OtherClaimant n) m"
| "perform S now (UnregisterClaimant sid n) m = unregister sid (OtherClaimant n) m"
| "perform S now (DetectorTimer sid k) m = detector_timer_fired S now sid k m"
| "perform S now (ProgressTimer sid) m = settleProgressEnd S now sid m"
| "perform S now (LeaveTimer sid) m = leave_grace_fired S now sid m"
| "perform S now (GraceTimer sid k) m = await_grace_fired now sid k m"
| "perform S now (TimeoutTimer sid k) m = await_timeout_fired now sid k m"

text \<open>A timer's callback runs only while the timer is armed, and not before it is due.\<close>

fun may_run :: "int \<Rightarrow> alert_call \<Rightarrow> manager \<Rightarrow> bool" where
  "may_run now (DetectorTimer sid k) m =
     (case Option.bind (entry_of m sid) (\<lambda>e. timers (edetector e) k) of Some due \<Rightarrow> due \<le> now | None \<Rightarrow> False)"
| "may_run now (ProgressTimer sid) m =
     (case Option.bind (Option.bind (entry_of m sid) progress) pend of Some en \<Rightarrow> end_due en \<le> now | None \<Rightarrow> False)"
| "may_run now (LeaveTimer sid) m =
     (case Option.bind (entry_of m sid) leaveGrace of Some due \<Rightarrow> due \<le> now | None \<Rightarrow> False)"
| "may_run now (GraceTimer sid k) m =
     (case find (\<lambda>w. wid w = k) (waiters_of m sid) of
        Some w \<Rightarrow> (case graceTimer w of Some due \<Rightarrow> due \<le> now | None \<Rightarrow> False) | None \<Rightarrow> False)"
| "may_run now (TimeoutTimer sid k) m =
     (case find (\<lambda>w. wid w = k) (waiters_of m sid) of Some w \<Rightarrow> timeoutTimer w \<le> now | None \<Rightarrow> False)"
| "may_run now c m = True"

inductive am_step :: "services \<Rightarrow> int \<times> manager \<Rightarrow> int \<times> manager \<Rightarrow> bool" for S where
  am_call: "t \<le> now \<Longrightarrow> may_run now c m \<Longrightarrow> am_step S (t, m) (now, perform S now c m)"

end
