(* ===== verification/Alert_Invariant.thy ===== *)
theory Alert_Invariant
  imports Alert_Manager
begin

text \<open>
  The invariant of the alert manager: the latches of a session, the awaits, the detectors, the
  viewers and the log of what was published. Every operation meets one contract, \<open>good\<close>; the
  operations of the source compose, and so do the proofs that they meet it.
\<close>

section \<open>Reading a changed state\<close>

lemma entry_of_notify [simp]: "entry_of (notify i m) = entry_of m"
  by (simp add: notify_def entry_of_def Let_def)

lemma notify_fields [simp]:
  "viewers (notify i m) = viewers m" "helpers (notify i m) = helpers m" "watchedCommands (notify i m) = watchedCommands m"
  "removed (notify i m) = removed m" "awaits (notify i m) = awaits m" "claimants (notify i m) = claimants m"
  "arrivals (notify i m) = arrivals m" "next_episode (notify i m) = next_episode m" "next_waiter (notify i m) = next_waiter m"
  "entries (notify i m) = entries m"
  by (simp_all add: notify_def Let_def)

lemma waiters_of_cong: "awaits m' = awaits m \<Longrightarrow> waiters_of m' = waiters_of m"
  by (simp add: waiters_of_def fun_eq_iff)

lemma lastEmitted_notify: "j \<noteq> i \<Longrightarrow> lastEmitted (notify i m) j = lastEmitted m j"
  by (simp add: notify_def Let_def)

lemma waiters_of_notify [simp]: "waiters_of (notify i m) = waiters_of m"
  by (rule waiters_of_cong) simp

lemma entry_of_mod [simp]:
  "entry_of (mod_entry i f m) j = (if j = i then map_option f (entry_of m i) else entry_of m j)"
  by (simp add: mod_entry_def entry_of_def map_of_js_map_set split: option.splits)

lemma mod_entry_fields [simp]:
  "viewers (mod_entry i f m) = viewers m" "helpers (mod_entry i f m) = helpers m" "watchedCommands (mod_entry i f m) = watchedCommands m"
  "removed (mod_entry i f m) = removed m" "awaits (mod_entry i f m) = awaits m" "claimants (mod_entry i f m) = claimants m"
  "arrivals (mod_entry i f m) = arrivals m" "next_episode (mod_entry i f m) = next_episode m"
  "next_waiter (mod_entry i f m) = next_waiter m" "lastEmitted (mod_entry i f m) = lastEmitted m" "mlog (mod_entry i f m) = mlog m"
  by (simp_all add: mod_entry_def split: option.splits)

lemma waiters_of_mod [simp]: "waiters_of (mod_entry i f m) = waiters_of m"
  by (rule waiters_of_cong) simp

lemma entry_of_create [simp]:
  "entry_of (getOrCreateEntry i m) j = (if j = i \<and> entry_of m i = None then Some new_entry else entry_of m j)"
  by (auto simp: getOrCreateEntry_def entry_of_def map_of_js_map_set split: option.splits)

lemma create_fields [simp]:
  "viewers (getOrCreateEntry i m) = viewers m" "helpers (getOrCreateEntry i m) = helpers m"
  "watchedCommands (getOrCreateEntry i m) = watchedCommands m" "removed (getOrCreateEntry i m) = removed m"
  "awaits (getOrCreateEntry i m) = awaits m" "claimants (getOrCreateEntry i m) = claimants m"
  "arrivals (getOrCreateEntry i m) = arrivals m" "next_episode (getOrCreateEntry i m) = next_episode m"
  "next_waiter (getOrCreateEntry i m) = next_waiter m" "lastEmitted (getOrCreateEntry i m) = lastEmitted m"
  "mlog (getOrCreateEntry i m) = mlog m"
  by (simp_all add: getOrCreateEntry_def split: option.splits)

lemma waiters_of_create [simp]: "waiters_of (getOrCreateEntry i m) = waiters_of m"
  by (rule waiters_of_cong) simp

lemma entry_of_upd [simp]:
  "entry_of (m\<lparr>removed := x1\<rparr>) = entry_of m" "entry_of (m\<lparr>claimants := x2\<rparr>) = entry_of m" "entry_of (m\<lparr>awaits := x3\<rparr>) = entry_of m"
  "entry_of (m\<lparr>viewers := x4\<rparr>) = entry_of m" "entry_of (m\<lparr>lastEmitted := x5\<rparr>) = entry_of m"
  "entry_of (m\<lparr>watchedCommands := x6\<rparr>) = entry_of m" "entry_of (m\<lparr>arrivals := x7\<rparr>) = entry_of m"
  "entry_of (m\<lparr>helpers := x8\<rparr>) = entry_of m" "entry_of (m\<lparr>next_episode := x9\<rparr>) = entry_of m"
  "entry_of (m\<lparr>next_waiter := x10\<rparr>) = entry_of m" "entry_of (m\<lparr>mlog := x11\<rparr>) = entry_of m"
  by (simp_all add: entry_of_def)

lemma waiters_of_upd [simp]:
  "waiters_of (m\<lparr>removed := x1\<rparr>) = waiters_of m" "waiters_of (m\<lparr>claimants := x2\<rparr>) = waiters_of m"
  "waiters_of (m\<lparr>viewers := x4\<rparr>) = waiters_of m" "waiters_of (m\<lparr>lastEmitted := x5\<rparr>) = waiters_of m"
  "waiters_of (m\<lparr>watchedCommands := x6\<rparr>) = waiters_of m" "waiters_of (m\<lparr>arrivals := x7\<rparr>) = waiters_of m"
  "waiters_of (m\<lparr>helpers := x8\<rparr>) = waiters_of m" "waiters_of (m\<lparr>next_episode := x9\<rparr>) = waiters_of m"
  "waiters_of (m\<lparr>next_waiter := x10\<rparr>) = waiters_of m" "waiters_of (m\<lparr>mlog := x11\<rparr>) = waiters_of m"
  "waiters_of (m\<lparr>entries := x12\<rparr>) = waiters_of m"
  by (rule waiters_of_cong, simp)+

lemma engaged_cong: "viewers m' = viewers m \<Longrightarrow> isEngaged m' = isEngaged m"
  by (simp add: isEngaged_def fun_eq_iff)

lemma engaged_upd [simp]:
  "isEngaged (notify i m) = isEngaged m" "isEngaged (mod_entry i f m) = isEngaged m" "isEngaged (getOrCreateEntry i m) = isEngaged m"
  "isEngaged (m\<lparr>arrivals := x7\<rparr>) = isEngaged m" "isEngaged (m\<lparr>next_episode := x9\<rparr>) = isEngaged m"
  "isEngaged (m\<lparr>next_waiter := x10\<rparr>) = isEngaged m" "isEngaged (m\<lparr>mlog := x11\<rparr>) = isEngaged m" "isEngaged (m\<lparr>removed := x1\<rparr>) = isEngaged m"
  "isEngaged (m\<lparr>entries := x12\<rparr>) = isEngaged m" "isEngaged (m\<lparr>claimants := x2\<rparr>) = isEngaged m"
  by (rule engaged_cong, simp)+

lemma set_waiters_fields [simp]:
  "entry_of (set_waiters i ws m) = entry_of m" "viewers (set_waiters i ws m) = viewers m" "helpers (set_waiters i ws m) = helpers m"
  "watchedCommands (set_waiters i ws m) = watchedCommands m" "claimants (set_waiters i ws m) = claimants m"
  "lastEmitted (set_waiters i ws m) = lastEmitted m" "mlog (set_waiters i ws m) = mlog m" "next_waiter (set_waiters i ws m) = next_waiter m"
  "waiters_of (set_waiters i ws m) j = (if j = i then ws else waiters_of m j)"
  "map_of (awaits (set_waiters i ws m)) = (map_of (awaits m))(i \<mapsto> ws)" "removed (set_waiters i ws m) = removed m"
  by (simp_all add: set_waiters_def waiters_of_def map_of_js_map_set)

section \<open>The invariant of the awaits\<close>

fun done_awaits :: "alert_event list \<Rightarrow> nat list" where
  "done_awaits [] = []"
| "done_awaits (AwaitDone k x # l) = k # done_awaits l"
| "done_awaits (Published i s # l) = done_awaits l"
| "done_awaits (Gone i # l) = done_awaits l"
| "done_awaits (ListenersCleared # l) = done_awaits l"

definition parked :: "manager \<Rightarrow> string \<Rightarrow> nat set" where
  "parked m i = wid ` set (waiters_of m i)"

definition awaits_ok :: "manager \<Rightarrow> bool" where
  "awaits_ok m \<longleftrightarrow>
     (\<forall>i. distinct (map wid (waiters_of m i)) \<and> map_of (awaits m) i \<noteq> Some [] \<and> distinct (claimants m i) \<and>
        (AwaitGroup \<in> set (claimants m i) \<longleftrightarrow> waiters_of m i \<noteq> []) \<and> parked m i \<inter> set (done_awaits (mlog m)) = {} \<and>
        (\<forall>j. i \<noteq> j \<longrightarrow> parked m i \<inter> parked m j = {})) \<and>
     distinct (done_awaits (mlog m)) \<and>
     (\<forall>k. k < next_waiter m \<longleftrightarrow> k \<in> set (done_awaits (mlog m)) \<or> (\<exists>i. k \<in> parked m i))"

lemma done_notify [simp]: "done_awaits (mlog (notify i m)) = done_awaits (mlog m)"
  by (simp add: notify_def Let_def)

lemma awaits_ok_cong:
  assumes "awaits m' = awaits m" "claimants m' = claimants m" "done_awaits (mlog m') = done_awaits (mlog m)" "next_waiter m' = next_waiter m"
  shows "awaits_ok m' = awaits_ok m"
  using assms waiters_of_cong [OF assms(1)] by (simp add: awaits_ok_def parked_def)

lemma awaits_ok_notify [simp]: "awaits_ok (notify i m) = awaits_ok m"
  by (rule awaits_ok_cong) simp_all

lemma awaits_ok_mod [simp]: "awaits_ok (mod_entry i f m) = awaits_ok m"
  by (rule awaits_ok_cong) simp_all

lemma awaits_ok_create [simp]: "awaits_ok (getOrCreateEntry i m) = awaits_ok m"
  by (rule awaits_ok_cong) simp_all

lemma parked_upd [simp]: "parked (m\<lparr>mlog := l\<rparr>) = parked m" "parked (notify i m) = parked m"
  by (simp_all add: parked_def fun_eq_iff)

lemma dropWaiter_fields [simp]:
  "entry_of (dropWaiter i k m) = entry_of m" "viewers (dropWaiter i k m) = viewers m" "helpers (dropWaiter i k m) = helpers m"
  "watchedCommands (dropWaiter i k m) = watchedCommands m" "lastEmitted (dropWaiter i k m) = lastEmitted m"
  "mlog (dropWaiter i k m) = mlog m" "next_waiter (dropWaiter i k m) = next_waiter m" "removed (dropWaiter i k m) = removed m"
  "entries (dropWaiter i k m) = entries m"
  by (simp_all add: dropWaiter_def unregister_def set_waiters_def Let_def split: option.splits)

lemma waiters_of_drop [simp]:
  "waiters_of (dropWaiter i k m) j = (if j = i then filter (\<lambda>w. wid w \<noteq> k) (waiters_of m i) else waiters_of m j)"
proof (cases "k \<in> wid ` set (waiters_of m i)")
  case True
  then show ?thesis
    by (auto simp: dropWaiter_def unregister_def waiters_of_def map_of_js_map_delete map_of_js_map_set set_waiters_def Let_def
        split: option.splits)
next
  case False
  then have "filter (\<lambda>w. wid w \<noteq> k) (waiters_of m i) = waiters_of m i" by (auto simp: filter_id_conv)
  with False show ?thesis by (auto simp: dropWaiter_def waiters_of_def split: option.splits)
qed

lemma claimants_drop:
  "k \<in> parked m i \<Longrightarrow> claimants (dropWaiter i k m) = (claimants m)(i :=
     if filter (\<lambda>w. wid w \<noteq> k) (waiters_of m i) = [] then filter (\<lambda>c. c \<noteq> AwaitGroup) (claimants m i) else claimants m i)"
  by (auto simp: dropWaiter_def unregister_def waiters_of_def parked_def set_waiters_def Let_def split: option.splits)

lemma awaits_drop:
  "map_of (awaits (dropWaiter i k m)) i \<noteq> Some [] \<or> map_of (awaits m) i = Some []"
  "j \<noteq> i \<Longrightarrow> map_of (awaits (dropWaiter i k m)) j = map_of (awaits m) j"
  by (auto simp: dropWaiter_def unregister_def set_waiters_def map_of_js_map_delete map_of_js_map_set Let_def split: option.splits)

lemma parked_drop: "parked (dropWaiter i k m) j = (if j = i then parked m i - {k} else parked m j)"
  by (auto simp: parked_def)

lemma settle_awaits_ok:
  assumes ok: "awaits_ok m"
  shows "awaits_ok (settle_waiter i k x m)"
proof (cases "k \<in> parked m i")
  case False
  then show ?thesis using ok by (simp add: settle_waiter_def parked_def)
next
  case True
  let ?m1 = "dropWaiter i k m"
  let ?m2 = "?m1\<lparr>mlog := AwaitDone k x # mlog ?m1\<rparr>"
  have k: "k \<notin> set (done_awaits (mlog m))" "\<And>j. j \<noteq> i \<Longrightarrow> k \<notin> parked m j" using ok True unfolding awaits_ok_def by blast+
  have "awaits_ok ?m2"
    unfolding awaits_ok_def
  proof (intro conjI allI)
    fix j
    show "distinct (map wid (waiters_of ?m2 j))" using ok by (auto simp: awaits_ok_def distinct_map_filter)
    show "map_of (awaits ?m2) j \<noteq> Some []" using ok awaits_drop [where i = i and k = k and m = m] by (cases "j = i") (auto simp: awaits_ok_def)
    show "distinct (claimants ?m2 j)" "AwaitGroup \<in> set (claimants ?m2 j) \<longleftrightarrow> waiters_of ?m2 j \<noteq> []"
      using ok claimants_drop [OF True] True by (auto simp: awaits_ok_def parked_def)
    show "parked ?m2 j \<inter> set (done_awaits (mlog ?m2)) = {}" using ok k by (auto simp: parked_drop awaits_ok_def)
    show "\<And>j'. j \<noteq> j' \<longrightarrow> parked ?m2 j \<inter> parked ?m2 j' = {}" using ok by (auto simp: parked_drop awaits_ok_def)
    show "distinct (done_awaits (mlog ?m2))" using ok k by (simp add: awaits_ok_def)
    show "\<And>q. q < next_waiter ?m2 \<longleftrightarrow> q \<in> set (done_awaits (mlog ?m2)) \<or> (\<exists>j. q \<in> parked ?m2 j)"
      using ok True by (auto simp: parked_drop awaits_ok_def split: if_splits)
  qed
  moreover have "settle_waiter i k x m = notify i ?m2" using True by (simp add: settle_waiter_def parked_def Let_def)
  ultimately show ?thesis by simp
qed

section \<open>The invariant of an entry\<close>

definition nonempty :: "'a held_completion_scheme \<Rightarrow> bool" where
  "nonempty ss \<longleftrightarrow> sources ss \<noteq> [] \<or> watching ss \<noteq> None"

definition entry_ok :: "alert_entry \<Rightarrow> bool" where
  "entry_ok e \<longleftrightarrow> (ackedQuiet e \<longrightarrow> ring e = None) \<and> (\<forall>r. ring e = Some r \<longrightarrow> nonempty r) \<and>
     (\<forall>h. held e = Some h \<longrightarrow> nonempty h \<and> todo e) \<and> (notification e \<noteq> None \<longrightarrow> todo e)"

definition entry_inv :: "int \<Rightarrow> alert_entry \<Rightarrow> bool" where
  "entry_inv t e \<longleftrightarrow> entry_ok e \<and> q_inv (t, edetector e)"

text \<open>Neither a ring nor a hold comes from a watched silence.\<close>

definition no_watch :: "alert_entry \<Rightarrow> bool" where
  "no_watch e \<longleftrightarrow> Option.bind (ring e) watching = None \<and> Option.bind (held e) watching = None"

lemma nonempty_addSource [simp]: "nonempty (addSource s ss)"
  by (auto simp: nonempty_def addSource_def split: ring_source.splits)

lemma takeRicher_sets [simp]: "watching (takeRicher d a ss) = watching ss" "sources (takeRicher d a ss) = sources ss"
  by (simp_all add: takeRicher_def)

lemma watching_addSource [simp]:
  "watching (addSource s ss) = (case s of Watched w \<Rightarrow> Some w | Listed l \<Rightarrow> watching ss)"
  by (simp add: addSource_def split: ring_source.splits)

lemma work_noted_sets [simp]:
  "sources (work_noted ss) = sources ss" "watching (work_noted ss) = None \<longleftrightarrow> watching ss = None" "nonempty (work_noted ss) = nonempty ss"
  by (simp_all add: work_noted_def nonempty_def)

lemma dropWatching_sets:
  "dropWatching ss = Some x \<Longrightarrow> sources x = sources ss \<and> watching x = None \<and> nonempty x"
  by (auto simp: dropWatching_def nonempty_def split: if_splits)

lemma new_entry_inv [simp]: "entry_inv t new_entry"
  by (simp add: entry_inv_def entry_ok_def new_entry_def new_detector_inv)

lemmas entry_defs = entry_inv_def entry_ok_def no_watch_def

lemma hold_inv: "entry_inv t e \<Longrightarrow> entry_inv t (hold s d a e)"
  by (auto simp: entry_defs hold_def Let_def)

lemma hold_ring [simp]: "ring (hold s d a e) = ring e"
  by (simp add: hold_def Let_def)

lemma hold_no_watch: "no_watch e \<Longrightarrow> no_watch (hold (Listed l) d a e)"
  by (auto simp: no_watch_def hold_def Let_def split: option.splits)

lemma updateReceipt_inv: "entry_inv t e \<Longrightarrow> entry_inv t (updateReceipt d e)"
  by (auto simp: entry_defs updateReceipt_def)

lemma updateReceipt_sets [simp]: "ring (updateReceipt d e) = ring e" "no_watch (updateReceipt d e) = no_watch e"
  by (simp_all add: updateReceipt_def no_watch_def)

lemma invalidate_inv: "entry_inv t e \<Longrightarrow> entry_inv t (invalidateWatching v e)"
  by (auto simp: entry_defs invalidateWatching_def dest: dropWatching_sets split: option.splits if_splits)

lemma invalidate_sets: "ring e = None \<Longrightarrow> ring (invalidateWatching v e) = None" "no_watch e \<Longrightarrow> no_watch (invalidateWatching v e)"
  by (auto simp: no_watch_def invalidateWatching_def dest: dropWatching_sets split: option.splits if_splits bind_splits)

lemma answered_inv: "entry_inv t e \<Longrightarrow> entry_inv t (answeredWatching e)"
  by (simp add: entry_defs answeredWatching_def reset_inv)

lemma answered_sets [simp]:
  "ring (answeredWatching e) = ring e" "held (answeredWatching e) = held e" "todo (answeredWatching e) = todo e"
  "notification (answeredWatching e) = notification e" "ackedQuiet (answeredWatching e) = ackedQuiet e"
  "commandExitWatch (answeredWatching e) = commandExitWatch e" "progress (answeredWatching e) = progress e"
  "leaveGrace (answeredWatching e) = leaveGrace e"
  by (simp_all add: answeredWatching_def)

lemma clearRing_sets [simp]:
  "ring (clearRingForUser e) = None" "held (clearRingForUser e) = None" "todo (clearRingForUser e) = todo e"
  "notification (clearRingForUser e) = notification e" "commandExitWatch (clearRingForUser e) = commandExitWatch e"
  "progress (clearRingForUser e) = progress e"
  by (auto simp: clearRingForUser_def Let_def)

lemma clearRing_inv: "entry_inv t e \<Longrightarrow> entry_inv t (clearRingForUser e)"
  by (auto simp: entry_defs clearRingForUser_def answeredWatching_def reset_inv Let_def)

lemma ringToTodo_sets [simp]:
  "ring (ringToTodo r e) = ring e" "held (ringToTodo r e) = held e" "ackedQuiet (ringToTodo r e) = ackedQuiet e"
  "edetector (ringToTodo r e) = edetector e" "no_watch (ringToTodo r e) = no_watch e"
  "commandExitWatch (ringToTodo r e) = commandExitWatch e"
  by (simp_all add: ringToTodo_def no_watch_def split: option.splits)

lemma ringToTodo_inv: "entry_inv t e \<Longrightarrow> entry_inv t (ringToTodo r e)"
  by (auto simp: entry_defs ringToTodo_def split: option.splits)

lemma endRun_sets [simp]:
  "ring (endRun e) = ring e" "held (endRun e) = held e" "progress (endRun e) = None" "todo (endRun e) = todo e"
  "no_watch (endRun e) = no_watch e" "commandExitWatch (endRun e) = commandExitWatch e" "notification (endRun e) = notification e"
  by (simp_all add: endRun_def cancelProgressEnd_def no_watch_def)

lemma endRun_inv: "entry_inv t e \<Longrightarrow> entry_inv t (endRun e)"
  by (simp add: entry_defs endRun_def cancelProgressEnd_def reset_inv)

lemma nonempty_sources [simp]: "nonempty (r\<lparr>sources := l\<rparr>) \<longleftrightarrow> l \<noteq> [] \<or> watching r \<noteq> None"
  by (simp add: nonempty_def)

lemma withdraw_inv: "withdrawRingSource s e = Some e' \<Longrightarrow> entry_inv t e \<Longrightarrow> entry_inv t e'"
  by (auto simp: entry_defs withdrawRingSource_def answeredWatching_def reset_inv Let_def dest: dropWatching_sets
      split: option.splits withdrawable.splits if_splits)

lemma withdraw_sets: "withdrawRingSource s e = Some e' \<Longrightarrow> ring e \<noteq> None \<and> (no_watch e \<longrightarrow> no_watch e')"
  by (auto simp: no_watch_def withdrawRingSource_def Let_def dest: dropWatching_sets
      split: option.splits withdrawable.splits if_splits)

lemma consume_inv: "consumeAwaitableRing u e = Some (e', c) \<Longrightarrow> entry_inv t e \<Longrightarrow> entry_inv t e'"
  by (auto simp: consumeAwaitableRing_def dest: withdraw_inv split: option.splits if_splits)

lemma consume_sets: "consumeAwaitableRing u e = Some (e', c) \<Longrightarrow> ring e \<noteq> None \<and> (no_watch e \<longrightarrow> no_watch e')"
  by (auto simp: consumeAwaitableRing_def dest: withdraw_sets split: option.splits if_splits)

lemma user_todo_inv:
  "entry_inv t e \<Longrightarrow> entry_inv t (let e1 = clearRingForUser e; e2 = (if v then ringToTodo (ring e) e1 else e1)
     in e2\<lparr>todo := v, notification := if v then notification e2 else None\<rparr>)"
  using clearRing_inv [of t e] by (auto simp: entry_defs Let_def ringToTodo_def split: option.splits)

lemma quiet_fields_inv [simp]:
  "entry_inv t (e\<lparr>progress := x1\<rparr>) = entry_inv t e" "entry_inv t (e\<lparr>commandExitWatch := x2\<rparr>) = entry_inv t e"
  "entry_inv t (e\<lparr>pendingCommandLine := x3\<rparr>) = entry_inv t e" "entry_inv t (e\<lparr>leaveGrace := x4\<rparr>) = entry_inv t e"
  "entry_inv t (e\<lparr>echoUntil := x5\<rparr>) = entry_inv t e"
  "no_watch (e\<lparr>progress := x1\<rparr>) = no_watch e" "no_watch (e\<lparr>commandExitWatch := x2\<rparr>) = no_watch e"
  "no_watch (e\<lparr>pendingCommandLine := x3\<rparr>) = no_watch e" "no_watch (e\<lparr>leaveGrace := x4\<rparr>) = no_watch e"
  "no_watch (e\<lparr>echoUntil := x5\<rparr>) = no_watch e" "no_watch (e\<lparr>ackedQuiet := x6\<rparr>) = no_watch e" "no_watch (e\<lparr>edetector := x7\<rparr>) = no_watch e"
  by (simp_all add: entry_defs)

lemma unacked_inv: "entry_inv t e \<Longrightarrow> entry_inv t (e\<lparr>ackedQuiet := False\<rparr>)"
  by (simp add: entry_defs)

lemma unheld_inv: "entry_inv t e \<Longrightarrow> entry_inv t (e\<lparr>held := None\<rparr>)" "no_watch e \<Longrightarrow> no_watch (e\<lparr>held := None\<rparr>)"
  by (simp_all add: entry_defs)

lemma detector_inv: "entry_inv t e \<Longrightarrow> q_inv (t, d) \<Longrightarrow> entry_inv t (e\<lparr>edetector := d\<rparr>)"
  by (simp add: entry_defs)

lemma expect_entry_inv: "entry_inv t e \<Longrightarrow> entry_inv t (e\<lparr>edetector := expectWork t (edetector e)\<rparr>)"
  by (intro detector_inv expect_inv [OF _ order_refl]) (simp_all add: entry_inv_def)

section \<open>What an operation on one session may do\<close>

definition holds_at :: "(alert_entry \<Rightarrow> bool) \<Rightarrow> manager \<Rightarrow> string \<Rightarrow> bool" where
  "holds_at Q m i \<longleftrightarrow> (\<forall>e. entry_of m i = Some e \<longrightarrow> Q e)"

text \<open>What subscribers were told last of a session, by the log and by the manager's own record of it.\<close>

fun told :: "alert_event list \<Rightarrow> string \<Rightarrow> alert_state" where
  "told [] i = DEFAULT_ALERT_STATE"
| "told (Published j st # l) i = (if j = i then st else told l i)"
| "told (ListenersCleared # l) i = DEFAULT_ALERT_STATE"
| "told (Gone j # l) i = told l i"
| "told (AwaitDone k x # l) i = told l i"

definition heard :: "manager \<Rightarrow> string \<Rightarrow> alert_state" where
  "heard m i = (case lastEmitted m i of None \<Rightarrow> DEFAULT_ALERT_STATE | Some st \<Rightarrow> st)"

definition log_ok :: "manager \<Rightarrow> bool" where
  "log_ok m \<longleftrightarrow> (\<forall>i. told (mlog m) i = heard m i)"

lemma log_ok_cong: "told (mlog m') = told (mlog m) \<Longrightarrow> lastEmitted m' = lastEmitted m \<Longrightarrow> log_ok m' = log_ok m"
  by (simp add: log_ok_def heard_def)

lemma log_ok_upd [simp]: "log_ok (mod_entry i f m) = log_ok m" "log_ok (getOrCreateEntry i m) = log_ok m"
  "log_ok (m\<lparr>removed := x1\<rparr>) = log_ok m" "log_ok (m\<lparr>claimants := x2\<rparr>) = log_ok m" "log_ok (m\<lparr>awaits := x3\<rparr>) = log_ok m"
  "log_ok (m\<lparr>viewers := x4\<rparr>) = log_ok m" "log_ok (m\<lparr>watchedCommands := x6\<rparr>) = log_ok m" "log_ok (m\<lparr>arrivals := x7\<rparr>) = log_ok m"
  "log_ok (m\<lparr>helpers := x8\<rparr>) = log_ok m" "log_ok (m\<lparr>next_episode := x9\<rparr>) = log_ok m" "log_ok (m\<lparr>next_waiter := x10\<rparr>) = log_ok m"
  "log_ok (m\<lparr>entries := x12\<rparr>) = log_ok m" "log_ok (m\<lparr>mlog := AwaitDone k y # mlog m\<rparr>) = log_ok m"
  "log_ok (m\<lparr>mlog := Gone j # mlog m\<rparr>) = log_ok m" "log_ok (set_waiters i ws m) = log_ok m" "log_ok (addWaiter i w m) = log_ok m"
  "log_ok (dropWaiter i n m) = log_ok m"
  by (rule log_ok_cong, simp add: fun_eq_iff addWaiter_def registerCompletionClaimant_def split: option.splits,
      simp add: addWaiter_def registerCompletionClaimant_def split: option.splits)+

lemma log_ok_notify: "log_ok m \<Longrightarrow> log_ok (notify i m)"
  by (auto simp: log_ok_def heard_def notify_def getState_def Let_def split: option.splits)

lemma log_ok_settle: "log_ok m \<Longrightarrow> log_ok (settle_waiter i k x m)"
proof -
  let ?m = "dropWaiter i k m"
  assume "log_ok m"
  moreover have "log_ok (?m\<lparr>mlog := AwaitDone k x # mlog ?m\<rparr>) = log_ok m" by (rule log_ok_cong) (simp_all add: fun_eq_iff)
  ultimately show ?thesis unfolding settle_waiter_def Let_def by (simp only: log_ok_notify split: if_split) simp
qed

text \<open>A session with parked awaits has an entry.\<close>

definition has_entry :: "manager \<Rightarrow> string \<Rightarrow> bool" where
  "has_entry m i \<longleftrightarrow> waiters_of m i = [] \<or> entry_of m i \<noteq> None"

lemma has_entry_upd [simp]:
  "has_entry (notify i m) = has_entry m" "has_entry (mod_entry i f m) = has_entry m"
  by (auto simp: has_entry_def fun_eq_iff)

text \<open>
  The contract of everything that works on session \<open>i\<close> at time \<open>t\<close>: it touches no other session and
  no viewer, keeps the invariants, opens no ring while the session is engaged and, if \<open>b\<close>, raises
  nothing for a watched silence.
\<close>

definition good :: "bool \<Rightarrow> int \<Rightarrow> string \<Rightarrow> manager \<Rightarrow> manager \<Rightarrow> bool" where
  "good b t i m m' \<longleftrightarrow>
     viewers m' = viewers m \<and> helpers m' = helpers m \<and> watchedCommands m' = watchedCommands m \<and>
     (\<forall>j. j \<noteq> i \<longrightarrow> entry_of m' j = entry_of m j \<and> waiters_of m' j = waiters_of m j \<and> lastEmitted m' j = lastEmitted m j) \<and>
     (holds_at (entry_inv t) m i \<longrightarrow> holds_at (entry_inv t) m' i) \<and>
     (isEngaged m i \<longrightarrow> holds_at (\<lambda>e. ring e = None) m i \<longrightarrow> holds_at (\<lambda>e. ring e = None) m' i) \<and>
     (b \<longrightarrow> holds_at no_watch m i \<longrightarrow> holds_at no_watch m' i) \<and>
     (awaits_ok m \<longrightarrow> awaits_ok m') \<and> (has_entry m i \<longrightarrow> has_entry m' i) \<and> (log_ok m \<longrightarrow> log_ok m')"

lemma good_refl [simp]: "good b t i m m"
  by (simp add: good_def)

lemma good_trans [trans]: "good b t i m m1 \<Longrightarrow> good b t i m1 m2 \<Longrightarrow> good b t i m m2"
  using engaged_cong [of m1 m] by (simp add: good_def)

lemma good_weaken: "good True t i m m' \<Longrightarrow> good b t i m m'"
  by (simp add: good_def)

lemma good_viewers: "good b t i m m' \<Longrightarrow> viewers m' = viewers m \<and> isEngaged m' = isEngaged m \<and> helpers m' = helpers m"
  using engaged_cong [of m' m] by (simp add: good_def)

lemma good_fold: "(\<And>x m. x \<in> set xs \<Longrightarrow> good b t i m (f x m)) \<Longrightarrow> good b t i m (fold f xs m)"
proof (induction xs arbitrary: m)
  case (Cons x xs)
  have "good b t i m (f x m)" using Cons.prems by simp
  also have "good b t i (f x m) (fold f xs (f x m))" using Cons by auto
  finally show ?case by simp
qed simp

lemma notify_good: "good b t i m (notify i m)"
  by (simp add: good_def holds_at_def lastEmitted_notify log_ok_notify)

lemma good_notify: "good b t i m m1 \<Longrightarrow> good b t i m (notify i m1)"
  by (rule good_trans [OF _ notify_good])

lemma good_mod:
  assumes "\<And>e. entry_of m i = Some e \<Longrightarrow> entry_inv t e \<Longrightarrow> entry_inv t (f e)"
    and "\<And>e. entry_of m i = Some e \<Longrightarrow> isEngaged m i \<Longrightarrow> ring e = None \<Longrightarrow> ring (f e) = None"
    and "\<And>e. entry_of m i = Some e \<Longrightarrow> b \<Longrightarrow> no_watch e \<Longrightarrow> no_watch (f e)"
  shows "good b t i m (mod_entry i f m)"
  using assms by (auto simp: good_def holds_at_def)

lemma good_then_mod:
  assumes "good b t i m m1"
    and "\<And>e. entry_inv t e \<Longrightarrow> entry_inv t (f e)" "\<And>e. ring e = None \<Longrightarrow> ring (f e) = None" "\<And>e. no_watch e \<Longrightarrow> no_watch (f e)"
  shows "good b t i m (mod_entry i f m1)"
  using good_trans [OF assms(1) good_mod] assms(2-4) by blast

lemma good_create: "good b t i m m1 \<Longrightarrow> good b t i m (getOrCreateEntry i m1)"
proof -
  assume g: "good b t i m m1"
  have "good b t i m1 (getOrCreateEntry i m1)"
    by (auto simp: good_def holds_at_def has_entry_def) (auto simp: new_entry_def no_watch_def)
  with g show ?thesis by (rule good_trans)
qed

lemma good_fields [simp]:
  "good b t i m (m1\<lparr>arrivals := x7\<rparr>) = good b t i m m1" "good b t i m (m1\<lparr>next_episode := x9\<rparr>) = good b t i m m1"
  "good b t i m (m1\<lparr>removed := x1\<rparr>) = good b t i m m1"
  using awaits_ok_cong [of "m1\<lparr>arrivals := x7\<rparr>" m1] awaits_ok_cong [of "m1\<lparr>next_episode := x9\<rparr>" m1] awaits_ok_cong [of "m1\<lparr>removed := x1\<rparr>" m1]
  by (simp_all add: good_def holds_at_def has_entry_def)

section \<open>Every operation meets the contract\<close>

subsection \<open>Awaits and completions\<close>

lemma settle_waiter_fields [simp]:
  "entry_of (settle_waiter i k x m) = entry_of m" "viewers (settle_waiter i k x m) = viewers m" "helpers (settle_waiter i k x m) = helpers m"
  "watchedCommands (settle_waiter i k x m) = watchedCommands m" "removed (settle_waiter i k x m) = removed m"
  "next_waiter (settle_waiter i k x m) = next_waiter m" "isEngaged (settle_waiter i k x m) = isEngaged m"
  by (simp_all add: settle_waiter_def Let_def isEngaged_def fun_eq_iff)

lemma waiters_of_settle [simp]:
  "waiters_of (settle_waiter i k x m) j = (if j = i then filter (\<lambda>w. wid w \<noteq> k) (waiters_of m i) else waiters_of m j)"
proof (cases "k \<in> wid ` set (waiters_of m i)")
  case False
  then have "filter (\<lambda>w. wid w \<noteq> k) (waiters_of m i) = waiters_of m i" by (auto simp: filter_id_conv)
  with False show ?thesis by (simp add: settle_waiter_def)
qed (simp add: settle_waiter_def Let_def)

lemma settle_waiter_others: "j \<noteq> i \<Longrightarrow> lastEmitted (settle_waiter i k x m) j = lastEmitted m j"
  by (simp add: settle_waiter_def Let_def lastEmitted_notify)

lemma settle_good: "good b t i m (settle_waiter i k x m)"
  by (simp add: good_def holds_at_def settle_waiter_others settle_awaits_ok has_entry_def log_ok_settle)

lemma settleWaiters_good: "good b t i m (settleWaiters now i how m)"
  unfolding settleWaiters_def by (intro good_fold settle_good)

lemma offers_good: "good b t i m m1 \<Longrightarrow> good b t i m (fst (fold (offer now i ev) ws (m1, c)))"
proof (induction ws arbitrary: m1 c)
  case (Cons w ws)
  have "good b t i m (settle_waiter i k x m1)" for k x using Cons.prems settle_good by (rule good_trans)
  then show ?case using Cons by (simp add: offer_def split: option.splits)
qed simp

lemma offers_entries: "entry_of (fst (fold (offer now i ev) ws (m, c))) = entry_of m"
  by (induction ws arbitrary: m c) (simp_all add: offer_def split: option.splits)

lemma claimants_run:
  "good b t i m (fst (run_claimants S now i ev cs m)) \<and> entry_of (fst (run_claimants S now i ev cs m)) = entry_of m"
proof (induction S now i ev cs m rule: run_claimants.induct)
  case (3 S now i ev cs m)
  obtain m' c where f: "fold (offer now i ev) (waiters_of m i) (m, False) = (m', c)" by fastforce
  have "good b t i m m'" "entry_of m' = entry_of m"
    using offers_good [OF good_refl, of b t i m now ev "waiters_of m i" False] offers_entries [of now i ev "waiters_of m i" m False] f by simp_all
  then show ?case using 3 f by (auto intro: good_trans)
qed auto

lemma raiseRing_good:
  assumes "\<not> isEngaged m i" "b \<Longrightarrow> \<exists>l. s = Listed l"
  shows "good b t i m (raiseRing S now i s d a m)"
proof (cases "Option.bind (entry_of m i) ring")
  case None
  have "good b t i (m\<lparr>next_episode := next_episode m + 1\<rparr>) (raiseRing S now i s d a m)"
    unfolding raiseRing_def None option.case Let_def
    by (rule good_mod) (use assms in \<open>auto simp: entry_defs split: bind_splits\<close>)
  then show ?thesis by (rule good_trans [rotated]) simp
next
  case (Some r)
  then show ?thesis unfolding raiseRing_def Some option.case
    by (intro good_mod) (use assms Some in \<open>auto simp: entry_defs split: bind_splits\<close>)
qed

lemma holdOrDeliver_good:
  assumes "b \<Longrightarrow> \<exists>l. s = Listed l"
  shows "good b t i m (holdOrDeliver S now i s d kept m)"
proof -
  let ?m1 = "if kept = None then m\<lparr>arrivals := arrivals m + 1\<rparr> else m"
  have 1: "good b t i m ?m1" by simp
  have "good b t i ?m1 (mod_entry i (hold s d a) ?m1)" for a
    by (rule good_mod) (use assms in \<open>auto simp: hold_inv hold_no_watch\<close>)
  moreover have "good b t i ?m1 (mod_entry i (updateReceipt d) ?m1)"
    by (rule good_mod) (auto simp: updateReceipt_inv)
  ultimately show ?thesis
    unfolding holdOrDeliver_def Let_def using raiseRing_good [of ?m1 i b s] assms
    by (intro good_notify good_trans [OF 1]) auto
qed

lemma dispatch_good:
  assumes "b \<Longrightarrow> ev \<noteq> SettledEvent"
  shows "good b t i m (fst (dispatchCompletion S now i ev m))"
proof -
  obtain m1 c where r: "run_claimants S now i ev (claimants m i) m = (m1, c)" by fastforce
  have 1: "good b t i m m1" using claimants_run [of b t i m S now ev "claimants m i"] r by simp
  have "good b t i m1 (case ring_rule m1 e ev of None \<Rightarrow> m1 | Some (s, d) \<Rightarrow> holdOrDeliver S now i s d None m1)" for e
    using assms by (auto simp: ring_rule_def split: option.splits completion_event.splits if_splits intro!: holdOrDeliver_good)
  then show ?thesis using r good_trans [OF 1] good_notify [OF 1] 1
    by (auto simp: dispatchCompletion_def split: option.splits)
qed

lemma onSettled_good: "good False t i m (onSettled S now i m)"
proof (cases "\<exists>e. entry_of m i = Some e \<and> progress e = None")
  case True
  obtain m1 c where d: "dispatchCompletion S now i SettledEvent m = (m1, c)" by fastforce
  then have "good False t i m m1" using dispatch_good [of False SettledEvent t i m S now] by simp
  moreover from this have "good False t i m (mod_entry i (invalidateWatching (\<lambda>k. True)) m1)"
    by (rule good_then_mod) (auto simp: invalidate_inv invalidate_sets)
  ultimately show ?thesis using True d by (auto simp: onSettled_def intro: good_notify)
next
  case False
  then show ?thesis by (auto simp: onSettled_def split: option.splits)
qed

lemma createDetector_good: "(b \<Longrightarrow> \<forall>x. ev \<noteq> Settled x) \<Longrightarrow> good b t i m (createDetector S now i ev m)"
  using onSettled_good notify_good by (cases ev; cases b) (auto simp: createDetector_def)

lemma run_detector_good:
  assumes "q_inv (t, d)" "b \<Longrightarrow> \<forall>e x. entry_of m i = Some e \<longrightarrow> Settled x \<notin> set (take (length (qlog d) - length (qlog (edetector e))) (qlog d))"
  shows "good b t i m (run_detector S now i d m)"
proof (cases "entry_of m i")
  case (Some e)
  have "good b t i m (mod_entry i (\<lambda>x. x\<lparr>edetector := d\<rparr>) m)"
    by (rule good_mod) (auto simp: detector_inv assms(1))
  moreover have "good b t i m' (fold (createDetector S now i) (rev (take (length (qlog d) - length (qlog (edetector e))) (qlog d))) m')" for m'
    using assms(2) Some by (intro good_fold createDetector_good) auto
  ultimately show ?thesis unfolding run_detector_def Some option.case by (rule good_trans)
qed (simp add: run_detector_def)

lemma mod_waiters_good:
  assumes "\<And>w. wid (f w) = wid w"
  shows "good b t i m (mod_waiters i f m)"
proof (cases "map_of (awaits m) i")
  case (Some ws)
  have w: "waiters_of m i = ws" using Some by (simp add: waiters_of_def)
  have p: "parked (set_waiters i (map f ws) m) = parked m" using assms w by (auto simp: parked_def fun_eq_iff image_image)
  have "awaits_ok m \<Longrightarrow> awaits_ok (set_waiters i (map f ws) m)"
    using assms w Some unfolding awaits_ok_def p by (auto simp: comp_def)
  then show ?thesis using Some w by (simp add: mod_waiters_def good_def holds_at_def has_entry_def)
qed (simp add: mod_waiters_def)

lemma noteWork_good: "good b t i m m1 \<Longrightarrow> good b t i m (noteWork i m1)"
proof -
  assume g: "good b t i m m1"
  have "good b t i m (mod_entry i (\<lambda>e. e\<lparr>ring := map_option work_noted (ring e), held := map_option work_noted (held e), ackedQuiet := False\<rparr>) m1)"
    using g by (rule good_then_mod) (auto simp: entry_defs split: bind_splits)
  then show ?thesis unfolding noteWork_def by (rule good_trans) (simp add: mod_waiters_good onOutput_def)
qed

subsection \<open>What a detector reports\<close>

definition unsettled :: "detector \<Rightarrow> detector \<Rightarrow> bool" where
  "unsettled d d' \<longleftrightarrow> (\<exists>l. qlog d' = l @ qlog d \<and> (\<forall>x. Settled x \<notin> set l))"

lemma unsettledI: "qlog d' = l @ qlog d \<Longrightarrow> (\<forall>x. Settled x \<notin> set l) \<Longrightarrow> unsettled d d'"
  by (auto simp: unsettled_def)

lemma unsettled_same [simp]: "qlog d' = qlog d \<Longrightarrow> unsettled d d'"
  by (rule unsettledI [of _ "[]"]) simp_all

lemma unsettled_trans: "unsettled d d1 \<Longrightarrow> unsettled d1 d2 \<Longrightarrow> unsettled d d2"
  unfolding unsettled_def by (metis Un_iff append.assoc set_append)

lemma unsettled_news: "unsettled d d' \<Longrightarrow> Settled x \<notin> set (take (length (qlog d') - length (qlog d)) (qlog d'))"
  by (auto simp: unsettled_def)

lemma setStatus_unsettled: "unsettled d (setStatus st id d)"
  by (auto simp: setStatus_def publish_def intro: unsettledI [of _ "[Changed st]"])

lemma mightBeBusy_unsettled: "unsettled d (enterMightBeBusy now d)"
  using setStatus_unsettled [of "clearTimers d" MightBeBusy] by (simp add: unsettled_def enterMightBeBusy_def schedule_def clearTimers_def)

lemma enterBusy_unsettled: "unsettled d (enterBusy now d)"
  using setStatus_unsettled [of "resetOutputTracking (clearTimers d)" Busy]
  by (simp add: unsettled_def enterBusy_def startMightNeedAttentionTimer_def schedule_def clearTimers_def resetOutputTracking_def)

lemma candidate_unsettled: "unsettled d (handleNothingToShowOutput now d)"
  using mightBeBusy_unsettled [of "d\<lparr>outputCountSinceReset := outputCountSinceReset d + 1\<rparr>" now]
  by (simp add: handleNothingToShowOutput_def startBusyCandidateTimer_def schedule_def unsettled_def Let_def split: option.splits)

lemma expire_unsettled: "unsettled d (expire_history now d)"
  using setStatus_unsettled [of "resetOutputTracking (clearTimers d)" NothingToShow]
  by (simp add: expire_history_def unsettled_def clearTimers_def resetOutputTracking_def split: option.splits)

lemma onData_unsettled: "unsettled d (fst (onData now d))"
proof -
  let ?d1 = "expire_history now d"
  let ?d2 = "?d1\<lparr>lastOutputAt := Some now, qlog := Output now # qlog ?d1\<rparr>"
  have 1: "unsettled d ?d1" by (rule expire_unsettled)
  moreover have "unsettled ?d1 ?d2" by (rule unsettledI [of _ "[Output now]"]) simp_all
  ultimately have 2: "unsettled d ?d2" by (rule unsettled_trans)
  have "unsettled ?d2 (startMightNeedAttentionTimer now ?d2)" by (simp add: startMightNeedAttentionTimer_def schedule_def)
  then have "unsettled ?d2 (case status ?d2 of NothingToShow \<Rightarrow> handleNothingToShowOutput now ?d2
      | MightBeBusy \<Rightarrow> enterBusy now ?d2 | Busy \<Rightarrow> startMightNeedAttentionTimer now ?d2 | MightNeedAttention \<Rightarrow> enterBusy now ?d2)"
    using candidate_unsettled [of ?d2 now] enterBusy_unsettled [of ?d2 now] by (cases "status ?d2") simp_all
  with 2 have "unsettled d (case status ?d2 of NothingToShow \<Rightarrow> handleNothingToShowOutput now ?d2
      | MightBeBusy \<Rightarrow> enterBusy now ?d2 | Busy \<Rightarrow> startMightNeedAttentionTimer now ?d2 | MightNeedAttention \<Rightarrow> enterBusy now ?d2)"
    by (rule unsettled_trans)
  then show ?thesis using 1 by (simp only: onData_def Let_def fst_conv split: if_split) auto
qed

lemma fired_unsettled:
  assumes "k \<noteq> SettledConfirm \<or> status d \<noteq> MightNeedAttention"
  shows "unsettled d (timer_fired k due hook now d)"
proof -
  let ?d = "d\<lparr>timers := (timers d)(k := None)\<rparr>"
  have e: "unsettled ?d d' \<Longrightarrow> unsettled d d'" for d' by (simp add: unsettled_def)
  have seed: "unsettled ?d (setStatus NothingToShow id (seedFromLatestOutput now ?d))"
    using setStatus_unsettled [of "seedFromLatestOutput now ?d" NothingToShow]
    by (simp add: unsettled_def seedFromLatestOutput_def detector_defs split: option.splits)
  have need: "unsettled ?d (schedule SettledConfirm x now (setStatus MightNeedAttention id ?d))" for x
    using setStatus_unsettled [of ?d MightNeedAttention] by (simp add: unsettled_def schedule_def)
  have same: "unsettled ?d ?d" by simp
  show ?thesis
    using assms e [OF seed] e [OF need] e [OF mightBeBusy_unsettled [of ?d now]] e [OF same]
    by (cases k) (simp_all add: timer_fired_def Let_def)
qed

lemma run_unsettled_good:
  assumes "holds_at (entry_inv t) m i \<Longrightarrow> q_inv (t, d)" "entry_of m i = Some e" "b \<Longrightarrow> unsettled (edetector e) d"
  shows "holds_at (entry_inv t) m i \<Longrightarrow> good b t i m (run_detector S now i d m)"
  using assms by (intro run_detector_good) (auto dest: unsettled_news)

lemma data_good:
  assumes "holds_at (entry_inv now) m i"
  shows "good b now i m (alert_onData S now i m)"
proof (cases "i \<in> removed m")
  case False
  let ?m0 = "getOrCreateEntry i m"
  have g0: "good b now i m ?m0" by (intro good_create good_refl)
  obtain e where e: "entry_of ?m0 i = Some e" by (cases "entry_of m i") simp_all
  have inv: "holds_at (entry_inv now) ?m0 i" using g0 assms by (simp add: good_def)
  then have "q_inv (now, edetector e)" using e by (simp add: holds_at_def entry_inv_def)
  then have "good b now i ?m0 (run_detector S now i (fst (onData now (edetector e))) ?m0)"
    using inv e onData_inv [OF _ order_refl] onData_unsettled by (intro run_unsettled_good) auto
  from good_trans [OF g0 this] noteWork_good [OF good_trans [OF g0 this]] g0
  show ?thesis using False e by (auto simp: alert_onData_def Let_def split: prod.splits)
qed (simp add: alert_onData_def)

lemma timer_good:
  assumes "holds_at (entry_inv now) m i" "may_run now (DetectorTimer i k) m"
    and "b \<Longrightarrow> k \<noteq> SettledConfirm \<or> holds_at (\<lambda>e. status (edetector e) \<noteq> MightNeedAttention) m i"
  shows "good b now i m (detector_timer_fired S now i k m)"
proof -
  obtain e due where e: "entry_of m i = Some e" "timers (edetector e) k = Some due" "due \<le> now"
    using assms(2) by (auto split: option.splits bind_splits)
  have "q_inv (now, edetector e)" using assms(1) e(1) by (simp add: holds_at_def entry_inv_def)
  then have "good b now i m (run_detector S now i (timer_fired k due [] now (edetector e)) m)"
    using assms e fired_inv [OF _ order_refl e(2,3)] fired_unsettled
    by (intro run_unsettled_good) (auto simp: holds_at_def)
  then show ?thesis using e by (simp add: detector_timer_fired_def)
qed

subsection \<open>The other operations\<close>

lemma endProgress_good: "good b t i m m1 \<Longrightarrow> good b t i m (settleProgressEnd S now i m1)"
proof (rule good_trans, assumption)
  show "good b t i m1 (settleProgressEnd S now i m1)"
  proof (cases "\<exists>e p en. entry_of m1 i = Some e \<and> progress e = Some p \<and> pend p = Some en")
    case True
    have g: "good b t i m1 (mod_entry i endRun m1)" by (rule good_mod) (auto simp: endRun_inv)
    have d: "good b t i m1 (fst (dispatchCompletion S now i (Notified n) (mod_entry i endRun m1)))" for n
      by (rule good_trans [OF g dispatch_good]) simp
    then show ?thesis using True by (auto simp: settleProgressEnd_def case_prod_beta good_notify [OF d])
  next
    case False
    then have "settleProgressEnd S now i m1 = m1" by (auto simp: settleProgressEnd_def split: option.splits bind_splits)
    then show ?thesis by simp
  qed
qed

lemma boundary_good: "good b t i m m1 \<Longrightarrow> good b t i m (fst (endRunAtBoundary S now i m1))"
  unfolding endRunAtBoundary_def Let_def fst_conv by (rule good_then_mod [OF endProgress_good]) (auto simp: endRun_inv)

lemma start_good: "good b t i m m1 \<Longrightarrow> good b t i m (startCommandExitWatch S now i src started m1)"
  unfolding startCommandExitWatch_def Let_def
  by (rule good_trans [OF good_then_mod [OF boundary_good] mod_waiters_good])
    (auto simp: resolveCommandStart_def Let_def unacked_inv onCommandStart_def)

lemma finish_good: "good b t i m m1 \<Longrightarrow> good b t i m (fst (finishCommandExitWatch S now i c m1))"
proof -
  assume g: "good b t i m m1"
  obtain m2 ended where r: "endRunAtBoundary S now i m1 = (m2, ended)" by fastforce
  then have "good b t i m m2" using boundary_good [OF g, of S now] by simp
  then have "good b t i m (mod_entry i (\<lambda>e. e\<lparr>commandExitWatch := None, pendingCommandLine := None\<rparr>) m2)"
    by (rule good_then_mod) auto
  from this good_trans [OF this dispatch_good] show ?thesis using r by (auto simp: finishCommandExitWatch_def Let_def split: option.splits)
qed

lemma semantic_good: "good b t i m (fst x) \<Longrightarrow> good b t i m (fst (semantic_event_step S now i ev x))"
proof -
  assume g: "good b t i m (fst x)"
  obtain m1 c where x: "x = (m1, c)" by (cases x)
  have "good b t i m (mod_entry i (\<lambda>e. e\<lparr>pendingCommandLine := Some l\<rparr>) m1)" for l
    using g x by (intro good_then_mod) auto
  then show ?thesis using g x start_good [of b t i m m1 S now] finish_good [of b t i m m1 S now]
    by (cases ev) (simp_all add: semantic_event_step_def Let_def case_prod_beta)
qed

lemma semantics_good: "good b t i m (fst x) \<Longrightarrow> good b t i m (fst (fold (semantic_event_step S now i) evs x))"
  by (induction evs arbitrary: x) (simp_all add: semantic_good)

lemma reported_good: "good b t i m (reportedEntry i m)"
  unfolding reportedEntry_def by (intro good_create) simp

lemma events_good: "good b t i m (applyTerminalSemanticEvents S now i evs m)"
  using semantics_good [of b t i m "(reportedEntry i m, False)" S now evs] reported_good [of b t i m]
  by (auto simp: applyTerminalSemanticEvents_def split: prod.splits intro: good_notify)

lemma exit_good: "good b t i m (onExit S now i c m)"
proof -
  have "good b t i m (case entry_of m i of None \<Rightarrow> m
      | Some e \<Rightarrow> (let (m1, changed) = finishCommandExitWatch S now i c m in if changed then notify i m1 else m1))"
    using finish_good [OF good_refl, of b t i m S now c] by (auto split: option.splits prod.splits intro: good_notify)
  then show ?thesis unfolding onExit_def by (rule good_trans [OF _ settleWaiters_good])
qed

lemma progress_good: "good b t i m (updateProtocolProgress S t i st pc m)"
proof -
  let ?m0 = "reportedEntry i m"
  have g0: "good b t i m ?m0" by (rule reported_good)
  have set: "good b t i m (mod_entry i (\<lambda>e. e\<lparr>progress := p\<rparr>) m1)" if "good b t i m m1" for p m1
    using that by (rule good_then_mod) auto
  have "good b t i m (mod_entry i cancelProgressEnd ?m0)" using g0 by (rule good_then_mod) (auto simp: cancelProgressEnd_def)
  from noteWork_good [OF this]
  have g1: "good b t i m (mod_entry i (\<lambda>e. e\<lparr>edetector := expectWork t (edetector e)\<rparr>) (noteWork i (mod_entry i cancelProgressEnd ?m0)))"
    by (rule good_then_mod) (auto intro: expect_entry_inv)
  show ?thesis using g0 g1 set [OF g0] good_notify [OF set [OF g1]]
    by (simp add: updateProtocolProgress_def Let_def split: option.splits)
qed

lemma report_good: "good b t i m (notifyFromProtocol S now i v m)"
  using good_trans [OF reported_good dispatch_good] reported_good by (auto simp: notifyFromProtocol_def Let_def split: option.splits)

lemma user_todo_good: "good b t i m m1 \<Longrightarrow> good b t i m (setTodoForUser i v m1)"
  unfolding setTodoForUser_def
  by (intro good_notify, erule good_then_mod [OF _ user_todo_inv]) (auto simp: Let_def no_watch_def)

lemma look_good: "good b t i m m1 \<Longrightarrow> good b t i m (mod_entry i (\<lambda>e. ringToTodo (ring e) (clearRingForUser e)) m1)"
  by (rule good_then_mod) (auto intro: ringToTodo_inv clearRing_inv simp: no_watch_def)

lemma acknowledge_good: "good b t i m (acknowledge S now i input m)"
proof -
  let ?m1 = "if input then mod_entry i (\<lambda>e. e\<lparr>echoUntil := now + ECHO_WINDOW\<rparr>) m else m"
  have 1: "good b t i m ?m1" by (auto intro: good_mod)
  then have 2: "good b t i m (mod_entry i markSeen ?m1)" by (rule good_then_mod) (auto simp: markSeen_def)
  have 3: "good b t i m (mod_entry i clearRingForUser (settleProgressEnd S now i (mod_entry i markSeen ?m1)))"
    by (rule good_then_mod [OF endProgress_good [OF 2]]) (auto simp: clearRing_inv no_watch_def)
  show ?thesis using 1 good_notify [OF look_good [OF 2]] user_todo_good [OF 3] by (auto simp: acknowledge_def Let_def)
qed

lemma write_good: "good b t i m (onWrite S t i data u m)"
proof -
  let ?m1 = "if u then acknowledge S t i True m else m"
  have 1: "good b t i m ?m1" by (simp add: acknowledge_good)
  have "good b t i m (mod_entry i (\<lambda>e. e\<lparr>edetector := expectWork t (edetector e)\<rparr>) (getOrCreateEntry i ?m1))"
    by (rule good_then_mod [OF good_create [OF 1]]) (auto intro: expect_entry_inv)
  with 1 show ?thesis by (simp add: onWrite_def Let_def)
qed

lemma silence_good: "good b t i m (silenceRun i m)"
  unfolding silenceRun_def by (auto intro!: good_notify good_mod simp: endRun_inv)

lemma seed_good: "good b t i m (seed_session i td n m)"
proof -
  have g: "good b t i m (getOrCreateEntry i m)" by (intro good_create good_refl)
  have "good b t i m (mod_entry i (\<lambda>e. endRun (e\<lparr>todo := (td = VBool True),
        notification := (if td = VBool True then normalizeActivityNotification n else None),
        ring := None, held := None, ackedQuiet := False, commandExitWatch := None, pendingCommandLine := None\<rparr>)) (getOrCreateEntry i m))"
    using g by (rule good_then_mod [OF _ endRun_inv]) (auto simp: entry_defs)
  then show ?thesis by (simp add: seed_session_def good_notify)
qed

lemma dismiss_good: "good b t i m (dismissAlert i m)"
  using look_good [OF good_refl] by (auto simp: dismissAlert_def intro: good_notify)

lemma todo_good: "good b t i m (toggleTodo i m)" "good b t i m (clearTodo i m)"
  by (auto simp: toggleTodo_def clearTodo_def Let_def intro!: user_todo_good good_create)

lemma addWaiter_fields [simp]:
  "entry_of (addWaiter i w m) = entry_of m" "viewers (addWaiter i w m) = viewers m" "helpers (addWaiter i w m) = helpers m"
  "watchedCommands (addWaiter i w m) = watchedCommands m" "lastEmitted (addWaiter i w m) = lastEmitted m" "mlog (addWaiter i w m) = mlog m"
  "next_waiter (addWaiter i w m) = next_waiter m" "removed (addWaiter i w m) = removed m"
  "waiters_of (addWaiter i w m) j = (if j = i then waiters_of m i @ [w] else waiters_of m j)"
  by (auto simp: addWaiter_def registerCompletionClaimant_def waiters_of_def set_waiters_def map_of_js_map_set split: option.splits)

lemma park_awaits_ok:
  assumes ok: "awaits_ok m" and k: "wid w = next_waiter m"
  shows "awaits_ok (addWaiter i w (m\<lparr>next_waiter := Suc (next_waiter m)\<rparr>))"
proof -
  let ?m = "addWaiter i w (m\<lparr>next_waiter := Suc (next_waiter m)\<rparr>)"
  have p: "parked ?m j = (if j = i then insert (next_waiter m) (parked m i) else parked m j)" for j using k by (auto simp: parked_def)
  have new: "next_waiter m \<notin> set (done_awaits (mlog m))" "\<And>j. next_waiter m \<notin> parked m j" using ok unfolding awaits_ok_def by (metis less_irrefl)+
  have a: "map_of (awaits ?m) j = (if j = i then Some (waiters_of m i @ [w]) else map_of (awaits m) j)" for j
    by (auto simp: addWaiter_def registerCompletionClaimant_def waiters_of_def set_waiters_def map_of_js_map_set split: option.splits)
  have none: "map_of (awaits m) i = None \<longleftrightarrow> waiters_of m i = []" using ok by (auto simp: awaits_ok_def waiters_of_def split: option.splits)
  have c: "claimants ?m j = (if j = i \<and> AwaitGroup \<notin> set (claimants m i) then claimants m i @ [AwaitGroup] else claimants m j)" for j
    using ok none by (auto simp: addWaiter_def registerCompletionClaimant_def awaits_ok_def split: option.splits)
  show ?thesis
    unfolding awaits_ok_def
  proof (intro conjI allI)
    fix j
    show "distinct (map wid (waiters_of ?m j))" using ok new k by (auto simp: awaits_ok_def parked_def)
    show "map_of (awaits ?m) j \<noteq> Some []" using ok a [of j] by (simp add: awaits_ok_def)
    show "distinct (claimants ?m j)" "AwaitGroup \<in> set (claimants ?m j) \<longleftrightarrow> waiters_of ?m j \<noteq> []"
      using ok c [of j] by (auto simp: awaits_ok_def)
    show "parked ?m j \<inter> set (done_awaits (mlog ?m)) = {}" using ok new by (auto simp: p awaits_ok_def)
    show "\<And>q. j \<noteq> q \<longrightarrow> parked ?m j \<inter> parked ?m q = {}" using ok new by (auto simp: p awaits_ok_def)
    show "distinct (done_awaits (mlog ?m))" using ok by (simp add: awaits_ok_def)
    show "\<And>q. q < next_waiter ?m \<longleftrightarrow> q \<in> set (done_awaits (mlog ?m)) \<or> (\<exists>j. q \<in> parked ?m j)"
      using ok by (auto simp: p awaits_ok_def less_Suc_eq split: if_splits)
  qed
qed

lemma park_good: "wid w = next_waiter m1 \<Longrightarrow> entry_of m1 i \<noteq> None \<Longrightarrow> good b t i m m1 \<Longrightarrow> good b t i m (addWaiter i w (m1\<lparr>next_waiter := next_waiter m1 + 1\<rparr>))"
proof (rule good_trans, assumption)
  assume "wid w = next_waiter m1" "entry_of m1 i \<noteq> None"
  then show "good b t i m1 (addWaiter i w (m1\<lparr>next_waiter := next_waiter m1 + 1\<rparr>))"
    using park_awaits_ok [of m1 w i] by (simp add: good_def holds_at_def has_entry_def)
qed

lemma await_good: "good b t i m (fst (awaitCompletion now i u tm m))"
proof (cases "i \<notin> helpers m \<and> i \<notin> removed m \<and> (\<exists>x. tm = JFin x \<and> \<not> (x \<le> 0 \<or> x > MAX_AWAIT_TIMEOUT_MS))")
  case True
  let ?m0 = "getOrCreateEntry i m"
  obtain x where x: "tm = JFin x" "\<not> (x \<le> 0 \<or> x > MAX_AWAIT_TIMEOUT_MS)" using True by blast
  obtain e where e: "entry_of ?m0 i = Some e" by (cases "entry_of m i") simp_all
  have g0: "good b t i m ?m0" by (intro good_create good_refl)
  show ?thesis
  proof (cases "consumeAwaitableRing u e")
    case None
    let ?w = "\<lparr>wid = next_waiter ?m0, wuntil = u, startedAt = now,
      graceTimer = (if commandExitWatch e = None then Some (now + AWAIT_GRACE_MS) else None), timeoutTimer = now + \<lfloor>x\<rfloor>\<rparr>"
    have "good b t i m (addWaiter i ?w (?m0\<lparr>next_waiter := next_waiter ?m0 + 1\<rparr>))" by (rule park_good [OF _ _ g0]) (simp_all add: e)
    from good_notify [OF this] True x e None show ?thesis by (simp add: awaitCompletion_def Let_def)
  next
    case (Some z)
    obtain e' c where z: "z = (e', c)" by (cases z)
    have "good b t i ?m0 (mod_entry i (\<lambda>_. e') ?m0)"
      using consume_inv [OF Some [unfolded z]] consume_sets [OF Some [unfolded z]] e by (intro good_mod) auto
    from good_notify [OF good_trans [OF g0 this]] True x e Some z show ?thesis by (simp add: awaitCompletion_def Let_def)
  qed
next
  case False
  then have "fst (awaitCompletion now i u tm m) = m" by (auto simp: awaitCompletion_def split: jsnum.splits)
  then show ?thesis by simp
qed

lemma await_ends_good:
  "good b t i m (cancel_await now i k m)" "good b t i m (await_grace_fired now i k m)" "good b t i m (await_timeout_fired now i k m)"
  by (simp_all add: cancel_await_def await_grace_fired_def await_timeout_fired_def settle_good split: option.splits)

lemma good_vacuous: "good False t i m m' \<Longrightarrow> \<not> holds_at no_watch m i \<Longrightarrow> good b t i m m'"
  by (simp add: good_def)

lemma escalate_good: "good b t i m (escalateHeld S now i m)"
proof (cases "Option.bind (entry_of m i) held")
  case (Some h)
  let ?m1 = "mod_entry i (\<lambda>e. e\<lparr>held := None\<rparr>) m"
  have g1: "good c t i m ?m1" for c by (rule good_mod) (auto simp: unheld_inv)
  have go: "good c t i ?m1 (fold (\<lambda>s. holdOrDeliver S now i s (detail h) (Some (arrived h))) (eachSource h) ?m1)"
    if "c \<Longrightarrow> watching h = None" for c
    using that by (intro good_fold holdOrDeliver_good) (auto simp: eachSource_def)
  have eq: "escalateHeld S now i m = fold (\<lambda>s. holdOrDeliver S now i s (detail h) (Some (arrived h))) (eachSource h) ?m1"
    using Some by (simp add: escalateHeld_def)
  show ?thesis
  proof (cases "watching h = None")
    case True
    then show ?thesis unfolding eq by (intro good_trans [OF g1 go])
  next
    case False
    then have "\<not> holds_at no_watch m i" using Some by (auto simp: holds_at_def no_watch_def split: bind_splits)
    moreover have "good False t i m (escalateHeld S now i m)" unfolding eq by (intro good_trans [OF g1 go]) simp
    ultimately show ?thesis by (rule good_vacuous [rotated])
  qed
qed (simp add: escalateHeld_def)

lemma leave_good: "good b t i m (leave_grace_fired S now i m)"
proof -
  have g: "good b t i m (mod_entry i endLeaveGrace m)" by (rule good_mod) (auto simp: endLeaveGrace_def)
  have "good b t i m (mod_entry i (\<lambda>e. e\<lparr>held := None\<rparr>) (mod_entry i endLeaveGrace m))"
    using g by (rule good_then_mod) (auto simp: unheld_inv)
  with good_trans [OF g escalate_good] show ?thesis by (simp add: leave_grace_fired_def Let_def)
qed

lemma viewer_moved_good: "good b t (fst x) m (viewer_moved S now after lp x m)"
proof -
  obtain i was where x: "x = (i, was)" by (cases x)
  have "good b t i m (mod_entry i (markSeen \<circ> endLeaveGrace) m)" by (rule good_mod) (auto simp: markSeen_def endLeaveGrace_def)
  moreover have "good b t i m (mod_entry i (\<lambda>e. e\<lparr>held := None\<rparr>) m)" by (rule good_mod) (auto simp: unheld_inv)
  moreover have "good b t i m (mod_entry i (startLeaveGrace now) m)" by (rule good_mod) (auto simp: startLeaveGrace_def endLeaveGrace_def)
  ultimately show ?thesis using x escalate_good [of b t i m S now] by (simp add: viewer_moved_def good_notify)
qed

section \<open>Every call keeps the invariant\<close>

definition okstep :: "(string \<Rightarrow> bool) \<Rightarrow> int \<Rightarrow> manager \<Rightarrow> manager \<Rightarrow> bool" where
  "okstep b t m m' \<longleftrightarrow>
     (\<forall>j. holds_at (entry_inv t) m j \<longrightarrow> holds_at (entry_inv t) m' j) \<and>
     (\<forall>j. isEngaged m' j \<longrightarrow> holds_at (\<lambda>e. ring e = None) m j \<longrightarrow> holds_at (\<lambda>e. ring e = None) m' j) \<and>
     (\<forall>j. b j \<longrightarrow> holds_at no_watch m j \<longrightarrow> holds_at no_watch m' j) \<and> (awaits_ok m \<longrightarrow> awaits_ok m') \<and>
     (\<forall>j. has_entry m j \<longrightarrow> has_entry m' j) \<and>
     (distinct (map fst (viewers m)) \<longrightarrow> distinct (map fst (viewers m'))) \<and> (log_ok m \<longrightarrow> log_ok m')"

lemma good_okstep: "good c t i m m' \<Longrightarrow> (b i \<Longrightarrow> c) \<Longrightarrow> okstep b t m m'"
proof -
  assume g: "good c t i m m'" and b: "b i \<Longrightarrow> c"
  have v: "isEngaged m' = isEngaged m" using good_viewers [OF g] by simp
  have h: "j \<noteq> i \<Longrightarrow> holds_at Q m j \<Longrightarrow> holds_at Q m' j" for Q j using g by (simp add: good_def holds_at_def)
  have e: "j \<noteq> i \<Longrightarrow> has_entry m j \<Longrightarrow> has_entry m' j" for j using g by (simp add: good_def has_entry_def)
  show ?thesis unfolding okstep_def
  proof (intro conjI allI impI)
    fix j
    show "holds_at (entry_inv t) m j \<Longrightarrow> holds_at (entry_inv t) m' j" using g h by (cases "j = i") (auto simp: good_def)
    show "isEngaged m' j \<Longrightarrow> holds_at (\<lambda>e. ring e = None) m j \<Longrightarrow> holds_at (\<lambda>e. ring e = None) m' j"
      using g h v by (cases "j = i") (auto simp: good_def)
    show "b j \<Longrightarrow> holds_at no_watch m j \<Longrightarrow> holds_at no_watch m' j" using g h b by (cases "j = i") (auto simp: good_def)
    show "has_entry m j \<Longrightarrow> has_entry m' j" using g e by (cases "j = i") (auto simp: good_def)
    show "awaits_ok m \<Longrightarrow> awaits_ok m'" "distinct (map fst (viewers m)) \<Longrightarrow> distinct (map fst (viewers m'))" "log_ok m \<Longrightarrow> log_ok m'"
      using g by (simp_all add: good_def)
  qed
qed

lemma okstep_good: "okstep b t m m1 \<Longrightarrow> good True t i m1 m2 \<Longrightarrow> okstep b t m m2"
proof -
  assume o: "okstep b t m m1" and g: "good True t i m1 m2"
  have "okstep b t m1 m2" using g by (rule good_okstep) simp
  with o good_viewers [OF g] show ?thesis by (simp add: okstep_def)
qed

lemma okstep_fold: "okstep b t m m1 \<Longrightarrow> (\<And>x m. good True t (g x) m (f x m)) \<Longrightarrow> okstep b t m (fold f xs m1)"
proof (induction xs arbitrary: m1)
  case (Cons x xs)
  have "okstep b t m (f x m1)" using okstep_good [OF Cons.prems(1) Cons.prems(2)] .
  with Cons show ?case by simp
qed simp

lemma okstep_same:
  assumes e: "\<And>j. entry_of m' j = entry_of m j \<or> entry_of m' j = None \<and> waiters_of m' j = []" and a: "awaits_ok m \<Longrightarrow> awaits_ok m'"
    and w: "\<And>j. waiters_of m' j = waiters_of m j \<or> waiters_of m' j = []"
    and v: "distinct (map fst (viewers m)) \<Longrightarrow> distinct (map fst (viewers m'))" and l: "log_ok m \<Longrightarrow> log_ok m'"
  shows "okstep b t m m'"
proof -
  have "has_entry m j \<Longrightarrow> has_entry m' j" for j using e [of j] w [of j] by (auto simp: has_entry_def)
  moreover
  have "holds_at Q m j \<Longrightarrow> holds_at Q m' j" for Q j using e [of j] by (auto simp: holds_at_def)
  ultimately show ?thesis using a v l unfolding okstep_def by blast
qed

lemma okstep_refl: "okstep b t m m"
  by (rule okstep_same) simp_all

lemma setViewer_okstep: "okstep b t m (setViewer S now vid v lp m)"
proof -
  let ?vs = "\<lambda>after. case after of None \<Rightarrow> js_map_delete vid (viewers m) | Some f \<Rightarrow> js_map_set vid f (viewers m)"
  have "okstep b t m (m\<lparr>viewers := ?vs after\<rparr>)" for after
    by (rule okstep_same)
      (simp_all add: awaits_ok_cong [of "m\<lparr>viewers := ?vs after\<rparr>" m] js_map_set_distinct js_map_delete_distinct split: option.splits)
  then have "okstep b t m (fold (viewer_moved S now after lp) xs (m\<lparr>viewers := ?vs after\<rparr>))" for after xs
    using viewer_moved_good by (rule okstep_fold [where g = fst])
  then show ?thesis by (simp only: setViewer_def Let_def okstep_refl simp_thms split: if_split)
qed

lemma replace_rules_okstep: "okstep b t m (replace_rules rules m)"
proof -
  have "okstep b t m (m\<lparr>watchedCommands := rules\<rparr>)"
    by (rule okstep_same) (simp_all add: awaits_ok_cong [of "m\<lparr>watchedCommands := rules\<rparr>" m])
  moreover have "good True t i m' (notify i (mod_entry i (withdrawUncoveredWatchingRing rules) m'))" for i m'
    by (intro good_notify good_mod) (auto simp: withdrawUncoveredWatchingRing_def invalidate_inv invalidate_sets)
  ultimately have "okstep b t m (fold (\<lambda>sid x. notify sid (mod_entry sid (withdrawUncoveredWatchingRing rules) x))
      (map fst (entries m)) (m\<lparr>watchedCommands := rules\<rparr>))"
    by (rule okstep_fold [where g = "\<lambda>x. x"])
  then show ?thesis by (simp add: replace_rules_def okstep_refl)
qed

lemma setWatched_okstep: "okstep b t m (setWatchedCommands names m)" "okstep b t m (setCommandWatched name w m)"
  by (simp_all add: setWatchedCommands_def setCommandWatched_def replace_rules_okstep okstep_refl Let_def)

lemma setHelper_okstep: "okstep b t m (setHelper i h m)"
proof -
  have "awaits_ok (m\<lparr>helpers := x\<rparr>) = awaits_ok m" for x by (rule awaits_ok_cong) simp_all
  then show ?thesis by (intro okstep_same) (simp_all add: setHelper_def Let_def log_ok_notify)
qed

lemma settle_all: "waiters_of (fold (\<lambda>w. settle_waiter i (wid w) (how (now - startedAt w))) ws m) i =
    filter (\<lambda>w. wid w \<notin> wid ` set ws) (waiters_of m i)"
  by (induction ws arbitrary: m) (auto simp: conj_commute intro: filter_cong)

lemma settle_all_fields:
  "entry_of (fold (\<lambda>w. settle_waiter i (wid w) (x w)) ws m) = entry_of m"
  "viewers (fold (\<lambda>w. settle_waiter i (wid w) (x w)) ws m) = viewers m"
  "helpers (fold (\<lambda>w. settle_waiter i (wid w) (x w)) ws m) = helpers m"
  "removed (fold (\<lambda>w. settle_waiter i (wid w) (x w)) ws m) = removed m"
  "watchedCommands (fold (\<lambda>w. settle_waiter i (wid w) (x w)) ws m) = watchedCommands m"
  by (induction ws arbitrary: m) simp_all

lemma settleWaiters_empty [simp]: "waiters_of (settleWaiters now i how m) i = []"
  by (auto simp: settleWaiters_def settle_all filter_empty_conv)

lemma settleWaiters_ok: "awaits_ok m \<Longrightarrow> awaits_ok (settleWaiters now i how m)"
  using settleWaiters_good [of True 0 i m now how] by (simp add: good_def)

lemma settleWaiters_fields [simp]:
  "entry_of (settleWaiters now i how m) = entry_of m" "viewers (settleWaiters now i how m) = viewers m"
  "helpers (settleWaiters now i how m) = helpers m" "removed (settleWaiters now i how m) = removed m"
  "watchedCommands (settleWaiters now i how m) = watchedCommands m"
  by (simp_all add: settleWaiters_def settle_all_fields)

lemma waiters_of_settleWaiters: "waiters_of (settleWaiters now i how m) j = (if j = i then [] else waiters_of m j)"
  using settleWaiters_good [of True 0 i m now how] by (simp add: good_def)

lemma waiters_of_discard: "waiters_of (discard now i m) j = (if j = i then [] else waiters_of m j)"
  by (simp add: discard_def Let_def waiters_of_settleWaiters)

lemma discard_ok:
  assumes "awaits_ok m"
  shows "awaits_ok (discard now i m)"
proof -
  let ?m1 = "settleWaiters now i Died (m\<lparr>removed := insert i (removed m)\<rparr>)"
  let ?m2 = "?m1\<lparr>claimants := (claimants ?m1)(i := [])\<rparr>"
  have "awaits_ok (m\<lparr>removed := insert i (removed m)\<rparr>) = awaits_ok m" by (rule awaits_ok_cong) simp_all
  then have 1: "awaits_ok ?m1" using assms by (intro settleWaiters_ok) simp
  have "parked ?m2 = parked ?m1" by (simp add: parked_def fun_eq_iff)
  then have 2: "awaits_ok ?m2" using 1 settleWaiters_empty [of now i Died "m\<lparr>removed := insert i (removed m)\<rparr>"]
    by (simp add: awaits_ok_def)
  have "awaits_ok (x\<lparr>helpers := h\<rparr>) = awaits_ok x" "awaits_ok (x\<lparr>entries := es\<rparr>) = awaits_ok x" for x h es
    by (rule awaits_ok_cong, simp_all)+
  with 2 show ?thesis by (simp add: discard_def Let_def)
qed

lemma entry_of_delete: "entry_of (m\<lparr>claimants := c, entries := js_map_delete i (entries m)\<rparr>) j = (if j = i then None else entry_of m j)"
  by (simp add: entry_of_def map_of_js_map_delete)

lemma discard_entries: "entry_of (discard now i m) j = (if j = i then None else entry_of m j)"
  by (simp add: discard_def Let_def entry_of_delete)

lemma log_ok_discard: "log_ok m \<Longrightarrow> log_ok (discard now i m)"
proof -
  assume "log_ok m"
  then have "log_ok (settleWaiters now i Died (m\<lparr>removed := insert i (removed m)\<rparr>))"
    using settleWaiters_good [of True 0 i "m\<lparr>removed := insert i (removed m)\<rparr>" now Died] by (simp add: good_def)
  then show ?thesis by (simp add: discard_def Let_def log_ok_notify)
qed

lemma viewers_discard: "viewers (discard now i m) = viewers m"
  by (simp add: discard_def Let_def)

lemma discard_okstep: "okstep b t m (remove_session now i m)" "okstep b t m (restart now i m)"
proof -
  have "awaits_ok (x\<lparr>removed := r\<rparr>) = awaits_ok x" "awaits_ok (x\<lparr>mlog := Gone i # mlog x\<rparr>) = awaits_ok x" for x r
    by (rule awaits_ok_cong, simp_all)+
  then show "okstep b t m (remove_session now i m)" "okstep b t m (restart now i m)"
    by (auto simp: remove_session_def restart_def Let_def discard_entries discard_ok waiters_of_discard viewers_discard log_ok_discard intro!: okstep_same split: if_splits)
qed

lemma claimant_okstep:
  "okstep b t m (registerCompletionClaimant i (OtherClaimant n) m)" "okstep b t m (unregister i (OtherClaimant n) m)"
  by (rule okstep_same, simp_all add: registerCompletionClaimant_def unregister_def awaits_ok_def parked_def)+

lemma settle_sessions:
  "waiters_of (fold (\<lambda>sid. settleWaiters now sid how) ids m) j = (if j \<in> set ids then [] else waiters_of m j)"
  by (induction ids arbitrary: m) (auto simp: waiters_of_settleWaiters)

lemma settle_sessions_ok: "awaits_ok m \<Longrightarrow> awaits_ok (fold (\<lambda>sid. settleWaiters now sid how) ids m)"
  by (induction ids arbitrary: m) (simp_all add: settleWaiters_ok)

lemma dispose_okstep: "okstep b t m (dispose_manager now m)"
proof (rule okstep_same)
  show "awaits_ok (dispose_manager now m)" if ok: "awaits_ok m"
  proof -
    let ?m1 = "fold (\<lambda>sid. settleWaiters now sid Cancelled) (map fst (awaits m)) m"
    have 1: "awaits_ok ?m1" using ok by (rule settle_sessions_ok)
    have "waiters_of m j = []" if "j \<notin> set (map fst (awaits m))" for j
      using that by (auto simp: waiters_of_def map_of_eq_None_iff [symmetric] split: option.splits)
    then have 2: "waiters_of ?m1 j = []" for j by (simp add: settle_sessions)
    show ?thesis using 1 2 by (simp add: dispose_manager_def awaits_ok_def parked_def Let_def) (simp add: waiters_of_def)
  qed
qed (simp_all add: dispose_manager_def Let_def entry_of_def waiters_of_def log_ok_def heard_def)

definition am_inv :: "int \<times> manager \<Rightarrow> bool" where
  "am_inv = (\<lambda>(t, m). (\<forall>j. holds_at (entry_inv t) m j \<and> has_entry m j) \<and> awaits_ok m \<and>
     distinct (map fst (viewers m)) \<and> log_ok m)"

text \<open>Only the detector's last deadline can raise something for a watched silence.\<close>

definition settling :: "alert_call \<Rightarrow> manager \<Rightarrow> string \<Rightarrow> bool" where
  "settling c m j \<longleftrightarrow> c = DetectorTimer j SettledConfirm \<and> (\<exists>e. entry_of m j = Some e \<and> status (edetector e) = MightNeedAttention)"

lemma perform_okstep:
  assumes "am_inv (now, m)" "may_run now c m"
  shows "okstep (\<lambda>j. \<not> settling c m j) now m (perform S now c m)"
proof -
  have h: "holds_at (entry_inv now) m i" for i using assms(1) by (simp add: am_inv_def)
  note ok = good_okstep [where c = True]
  show ?thesis
  proof (cases c)
    case (DetectorTimer i k)
    have "good (\<not> settling c m i) now i m (detector_timer_fired S now i k m)"
      using h assms(2) unfolding DetectorTimer by (intro timer_good) (auto simp: settling_def holds_at_def)
    then show ?thesis unfolding DetectorTimer perform.simps by (rule good_okstep) (simp add: DetectorTimer)
  qed (simp_all add: ok [OF data_good [OF h]] ok [OF exit_good] ok [OF write_good] ok [OF report_good] ok [OF progress_good]
      ok [OF events_good] ok [OF await_good] ok [OF await_ends_good(1)] ok [OF await_ends_good(2)] ok [OF await_ends_good(3)]
      ok [OF acknowledge_good] ok [OF dismiss_good] ok [OF todo_good(1)] ok [OF todo_good(2)] ok [OF silence_good] ok [OF seed_good]
      ok [OF endProgress_good [OF good_refl]] ok [OF leave_good] setViewer_okstep setWatched_okstep setHelper_okstep discard_okstep
      claimant_okstep dispose_okstep)
qed

lemma am_inv_later:
  assumes "am_inv (t, m)" "t \<le> now"
  shows "am_inv (now, m)"
  using assms(1) later_inv [OF _ assms(2)] by (auto simp: am_inv_def holds_at_def entry_inv_def)

lemma am_step_inv: "am_step S x y \<Longrightarrow> am_inv x \<Longrightarrow> am_inv y"
proof (induction rule: am_step.induct)
  case (am_call t now c m)
  have "am_inv (now, m)" using am_inv_later [OF am_call.prems am_call.hyps(1)] .
  with perform_okstep [OF this am_call.hyps(2), of S] show ?case by (auto simp: okstep_def am_inv_def)
qed

lemma new_manager_inv: "am_inv (t, new_manager)"
  by (simp add: am_inv_def new_manager_def holds_at_def entry_of_def awaits_ok_def waiters_of_def parked_def has_entry_def log_ok_def heard_def)

interpretation alerts: step_system "\<lambda>x. snd x = new_manager" "am_step S" am_inv for S
  by unfold_locales (auto intro: am_step_inv new_manager_inv)

lemma reachable_call:
  assumes "(am_step S)\<^sup>*\<^sup>* (t0, new_manager) (t, m)" "t \<le> now" "may_run now c m"
  shows "am_inv (now, m)" "okstep (\<lambda>j. \<not> settling c m j) now m (perform S now c m)"
proof -
  have "am_inv (t, m)" using alerts.reachable_inv [OF _ assms(1)] by simp
  then show "am_inv (now, m)" using am_inv_later assms(2) by blast
  then show "okstep (\<lambda>j. \<not> settling c m j) now m (perform S now c m)" using perform_okstep assms(3) by blast
qed

end
