(* ===== verification/Alert_Subscribers.thy ===== *)
theory Alert_Subscribers
  imports Alert_Invariant
begin

text \<open>
  Subscribers of the alert manager are never behind: after every call, what they heard last of a
  session is its state. Most operations change what is public and publish it; the others change
  nothing a subscriber can see. The proof goes through every operation in that way.
\<close>

section \<open>What was heard and what is\<close>

definition current :: "manager \<Rightarrow> string \<Rightarrow> bool" where
  "current m i \<longleftrightarrow> alertStatesEqual (heard m i) (getState m i)"

lemma statesEqual_refl [simp]: "alertStatesEqual x x"
  by (simp add: alertStatesEqual_def)

lemma getState_cong:
  "entry_of m' i = entry_of m i \<Longrightarrow> helpers m' = helpers m \<Longrightarrow> watchedCommands m' = watchedCommands m \<Longrightarrow>
   isEngaged m' i = isEngaged m i \<Longrightarrow> (waiters_of m' i = [] \<longleftrightarrow> waiters_of m i = []) \<Longrightarrow> getState m' i = getState m i"
  by (auto simp: getState_def getProjectedStatus_def isWatching_def split: option.splits)

lemma current_cong: "getState m' i = getState m i \<Longrightarrow> lastEmitted m' i = lastEmitted m i \<Longrightarrow> current m' i = current m i"
  by (simp add: current_def heard_def)

lemma getState_notify [simp]: "getState (notify j m) i = getState m i"
  by (rule getState_cong) simp_all

lemma current_notify: "current (notify i m) i"
proof -
  have "getState m i = DEFAULT_ALERT_STATE" if "entry_of m i = None \<or> i \<in> helpers m"
    using that by (auto simp: getState_def split: option.splits)
  then show ?thesis by (auto simp: current_def heard_def) (auto simp: notify_def Let_def split: option.splits)
qed

lemma current_others: "good b t i m m' \<Longrightarrow> j \<noteq> i \<Longrightarrow> current m' j = current m j"
proof (rule current_cong)
  assume g: "good b t i m m'" and j: "j \<noteq> i"
  have "isEngaged m' j = isEngaged m j" using good_viewers [OF g] by simp
  then show "getState m' j = getState m j" using g j by (intro getState_cong) (simp_all add: good_def)
  show "lastEmitted m' j = lastEmitted m j" using g j by (simp add: good_def)
qed

text \<open>What of an entry a subscriber can see.\<close>

definition looks_same :: "manager \<Rightarrow> string \<Rightarrow> alert_entry \<Rightarrow> alert_entry \<Rightarrow> bool" where
  "looks_same m i e e' \<longleftrightarrow> map_option episode (ring e') = map_option episode (ring e) \<and> map_option detail (ring e') = map_option detail (ring e) \<and>
     todo e' = todo e \<and> notification e' = notification e \<and> (progress e' = None \<longleftrightarrow> progress e = None) \<and>
     commandExitWatch e' = commandExitWatch e \<and> (isWatching m e \<longrightarrow> status (edetector e') = status (edetector e))"

lemma looks_same_refl: "looks_same m i e e"
  by (simp add: looks_same_def)

lemma getState_mod:
  "(\<And>e. entry_of m i = Some e \<Longrightarrow> i \<notin> helpers m \<Longrightarrow> looks_same m i e (f e)) \<Longrightarrow> getState (mod_entry i f m) i = getState m i"
proof (cases "entry_of m i = None \<or> i \<in> helpers m")
  case True
  then show ?thesis by (auto simp: getState_def split: option.splits)
next
  case False
  assume v: "\<And>e. entry_of m i = Some e \<Longrightarrow> i \<notin> helpers m \<Longrightarrow> looks_same m i e (f e)"
  obtain e where e: "entry_of m i = Some e" using False by auto
  have "looks_same m i e (f e)" using v e False by blast
  moreover from this have "isWatching (mod_entry i f m) (f e) = isWatching m e" by (simp add: isWatching_def looks_same_def)
  ultimately show ?thesis using e False
    by (cases "ring e"; cases "ring (f e)") (simp_all add: getState_def getProjectedStatus_def looks_same_def)
qed

lemma current_mod:
  "(\<And>e. entry_of m i = Some e \<Longrightarrow> i \<notin> helpers m \<Longrightarrow> looks_same m i e (f e)) \<Longrightarrow> current (mod_entry i f m) i = current m i"
  by (intro current_cong getState_mod) simp_all

lemma current_create: "has_entry m i \<Longrightarrow> current (getOrCreateEntry i m) i = current m i"
proof (rule current_cong)
  assume "has_entry m i"
  then show "getState (getOrCreateEntry i m) i = getState m i"
    by (cases "entry_of m i")
      (auto simp: getState_def new_entry_def getProjectedStatus_def isWatching_def watchRuleFor_def DEFAULT_ALERT_STATE_def has_entry_def)
qed simp

lemma current_create_upd: "has_entry m i \<Longrightarrow> current (reportedEntry i m) i = current m i"
proof -
  assume h: "has_entry m i"
  let ?m = "m\<lparr>removed := removed m - {i}\<rparr>"
  have "has_entry ?m i" using h by (simp add: has_entry_def)
  moreover have "current ?m i = current m i" by (intro current_cong getState_cong) simp_all
  ultimately show ?thesis by (simp add: reportedEntry_def current_create)
qed

section \<open>Operations on one session\<close>

lemma current_settle: "current m i \<Longrightarrow> current (settle_waiter i k x m) i"
  by (simp add: settle_waiter_def Let_def current_notify)

lemma current_fold: "(\<And>x m. current m i \<Longrightarrow> current (f x m) i) \<Longrightarrow> current m i \<Longrightarrow> current (fold f xs m) i"
  by (induction xs arbitrary: m) simp_all

lemma current_settleWaiters: "current m i \<Longrightarrow> current (settleWaiters now i how m) i"
  unfolding settleWaiters_def by (rule current_fold) (rule current_settle)

lemma current_offers: "current m i \<Longrightarrow> current (fst (fold (offer now i ev) ws (m, c))) i"
  by (induction ws arbitrary: m c) (simp_all add: offer_def current_settle split: option.splits)

lemma current_claimants: "current m i \<Longrightarrow> current (fst (run_claimants S now i ev cs m)) i"
proof (induction S now i ev cs m rule: run_claimants.induct)
  case (3 S now i ev cs m)
  obtain m' c where f: "fold (offer now i ev) (waiters_of m i) (m, False) = (m', c)" by fastforce
  then have "current m' i" using current_offers [OF 3(2), of now ev "waiters_of m i" False] by simp
  then show ?case using 3(1) f by simp
qed simp_all

lemma current_deliver: "current (holdOrDeliver S now i s d kept m) i"
  by (simp add: holdOrDeliver_def Let_def current_notify)

lemma current_dispatch: "current m i \<Longrightarrow> current (fst (dispatchCompletion S now i ev m)) i"
  using current_claimants [of m i S now ev "claimants m i"]
  by (auto simp: dispatchCompletion_def current_deliver current_notify split: prod.splits option.splits)

text \<open>A report is published even when the session was not, unless it was claimed.\<close>

lemma current_report:
  assumes "entry_of m i \<noteq> None" "i \<notin> helpers m"
  shows "snd (dispatchCompletion S now i (Notified n) m) \<or> current (fst (dispatchCompletion S now i (Notified n) m)) i"
proof -
  obtain m1 c where r: "run_claimants S now i (Notified n) (claimants m i) m = (m1, c)" by fastforce
  then have "entry_of m1 i \<noteq> None" using claimants_run [of True 0 i m S now "Notified n" "claimants m i"] assms(1) by simp
  then show ?thesis using r assms by (auto simp: dispatchCompletion_def ring_rule_def current_deliver current_notify split: option.splits)
qed

lemma current_onSettled: "current m i \<Longrightarrow> current (onSettled S now i m) i"
  using current_dispatch [of m i S now SettledEvent]
  by (auto simp: onSettled_def current_notify split: option.splits prod.splits)

lemma current_createDetector: "current m i \<or> (\<exists>st. ev = Changed st) \<Longrightarrow> current (createDetector S now i ev m) i"
  by (auto simp: createDetector_def current_notify current_onSettled split: detector_event.splits)

lemma current_news:
  "current m i \<or> (\<exists>st. Changed st \<in> set evs) \<Longrightarrow> current (fold (createDetector S now i) evs m) i"
proof (induction evs arbitrary: m)
  case (Cons ev evs)
  then show ?case using current_createDetector [of m i ev S now] by auto
qed simp

section \<open>The detector reports every change of its status\<close>

definition reports :: "detector \<Rightarrow> detector \<Rightarrow> bool" where
  "reports d d' \<longleftrightarrow> (\<exists>l. qlog d' = l @ qlog d \<and> (status d' \<noteq> status d \<longrightarrow> (\<exists>st. Changed st \<in> set l))) \<and> qdisposed d' = qdisposed d"

lemma reports_same: "qlog d' = qlog d \<Longrightarrow> status d' = status d \<Longrightarrow> qdisposed d' = qdisposed d \<Longrightarrow> reports d d'"
  by (simp add: reports_def)

lemma reports_trans: "reports d d1 \<Longrightarrow> reports d1 d2 \<Longrightarrow> reports d d2"
proof -
  assume "reports d d1" "reports d1 d2"
  then obtain l1 l2 where "qlog d1 = l1 @ qlog d" "status d1 \<noteq> status d \<longrightarrow> (\<exists>st. Changed st \<in> set l1)" "qdisposed d1 = qdisposed d"
    "qlog d2 = l2 @ qlog d1" "status d2 \<noteq> status d1 \<longrightarrow> (\<exists>st. Changed st \<in> set l2)" "qdisposed d2 = qdisposed d1"
    unfolding reports_def by blast
  then show ?thesis unfolding reports_def by (intro conjI exI [of _ "l2 @ l1"]) auto
qed

lemma reports_setStatus: "\<not> qdisposed d \<Longrightarrow> reports d (setStatus st id d)"
  by (auto simp: reports_def setStatus_def publish_def)

lemma reports_around:
  assumes "\<not> qdisposed d" "qlog x = qlog d" "status x = status d" "qdisposed x = qdisposed d"
    and "qlog y = qlog (setStatus st id x)" "status y = status (setStatus st id x)" "qdisposed y = qdisposed (setStatus st id x)"
  shows "reports d y"
  using reports_setStatus [of x st] assms by (simp add: reports_def)

lemma reports_news:
  "reports d d' \<Longrightarrow> status d' = status d \<or> (\<exists>st. Changed st \<in> set (rev (take (length (qlog d') - length (qlog d)) (qlog d'))))"
  by (auto simp: reports_def)

lemma reports_steps:
  assumes "\<not> qdisposed d"
  shows "reports d (enterMightBeBusy now d)" "reports d (enterBusy now d)" "reports d (handleNothingToShowOutput now d)"
    "reports d (expire_history now d)" "reports d (startMightNeedAttentionTimer now d)"
proof -
  have m: "reports x (enterMightBeBusy now x)" if "\<not> qdisposed x" for x
    using that by (rule reports_around [where x = "clearTimers x" and st = MightBeBusy])
      (simp_all add: enterMightBeBusy_def clearTimers_def schedule_def)
  show "reports d (enterMightBeBusy now d)" using m assms .
  show "reports d (enterBusy now d)"
    using assms by (rule reports_around [where x = "resetOutputTracking (clearTimers d)" and st = Busy])
      (simp_all add: enterBusy_def clearTimers_def resetOutputTracking_def startMightNeedAttentionTimer_def schedule_def)
  show "reports d (startMightNeedAttentionTimer now d)" by (rule reports_same) (simp_all add: detector_defs)
  have "reports d (enterMightBeBusy now (d\<lparr>outputCountSinceReset := outputCountSinceReset d + 1\<rparr>))"
    by (rule reports_trans [OF reports_same m]) (simp_all add: assms)
  then show "reports d (handleNothingToShowOutput now d)"
    by (auto simp: handleNothingToShowOutput_def Let_def detector_defs intro: reports_same split: option.splits)
  have "reports d (setStatus NothingToShow id (resetOutputTracking (clearTimers d)))"
    using assms by (rule reports_around [where x = "resetOutputTracking (clearTimers d)" and st = NothingToShow])
      (simp_all add: clearTimers_def resetOutputTracking_def)
  then show "reports d (expire_history now d)" by (auto simp: expire_history_def intro: reports_same split: option.splits)
qed

lemma reports_onData: "reports d (fst (onData now d))"
proof (cases "qdisposed d")
  case False
  let ?d1 = "expire_history now d"
  let ?d2 = "?d1\<lparr>lastOutputAt := Some now, qlog := Output now # qlog ?d1\<rparr>"
  have 1: "reports d ?d1" using reports_steps(4) [OF False] .
  then have n1: "\<not> qdisposed ?d1" using False by (simp add: reports_def)
  have "reports ?d1 ?d2" by (simp add: reports_def)
  from reports_trans [OF 1 this] have 2: "reports d ?d2" .
  have n2: "\<not> qdisposed ?d2" using n1 by simp
  have "reports d (case status ?d2 of NothingToShow \<Rightarrow> handleNothingToShowOutput now ?d2
      | MightBeBusy \<Rightarrow> enterBusy now ?d2 | Busy \<Rightarrow> startMightNeedAttentionTimer now ?d2 | MightNeedAttention \<Rightarrow> enterBusy now ?d2)"
    by (cases "status ?d2") (simp_all only: quiesce_status.case, auto intro: reports_trans [OF 2 reports_steps(2) [OF n2]]
        reports_trans [OF 2 reports_steps(3) [OF n2]] reports_trans [OF 2 reports_steps(5) [OF n2]])
  then show ?thesis using False 1 by (simp only: onData_def Let_def fst_conv if_False split: if_split) auto
qed (simp add: onData_def reports_def)

lemma reports_fired: "reports d (timer_fired k due [] now d)"
proof (cases "qdisposed d")
  case True
  then show ?thesis by (simp add: timer_fired_def Let_def reports_def)
next
  case False
  let ?d = "d\<lparr>timers := (timers d)(k := None)\<rparr>"
  have 0: "reports d ?d" and n: "\<not> qdisposed ?d" using False by (simp_all add: reports_def)
  have seed: "reports ?d (seedFromLatestOutput now ?d)" "\<not> qdisposed (seedFromLatestOutput now ?d)"
    using n by (auto simp: seedFromLatestOutput_def detector_defs intro!: reports_same split: option.splits)
  have "reports ?d (timer_fired k due [] now d)"
  proof (cases k)
    case BusyCandidate
    then show ?thesis using reports_steps(1) [OF n, of now] by (auto simp: timer_fired_def Let_def intro: reports_same)
  next
    case BusyConfirm
    then show ?thesis using n reports_trans [OF seed(1) reports_setStatus [OF seed(2)], of NothingToShow]
      by (auto simp: timer_fired_def Let_def intro: reports_same)
  next
    case MightNeedTimer
    have "reports ?d (schedule SettledConfirm x now (setStatus MightNeedAttention id ?d))" for x
      by (rule reports_trans [OF reports_setStatus [OF n] reports_same]) (simp_all add: schedule_def)
    then show ?thesis using MightNeedTimer n by (auto simp: timer_fired_def Let_def intro: reports_same)
  next
    case SettledConfirm
    then show ?thesis using n by (auto simp: timer_fired_def Let_def reports_def setStatus_def publish_def resetOutputTracking_def)
  qed
  with 0 show ?thesis by (rule reports_trans)
qed

lemma current_run_detector:
  assumes "current m i" "\<And>e. entry_of m i = Some e \<Longrightarrow> reports (edetector e) d"
  shows "current (run_detector S now i d m) i"
proof (cases "entry_of m i")
  case (Some e)
  let ?m = "mod_entry i (\<lambda>x. x\<lparr>edetector := d\<rparr>) m"
  have "current ?m i" if "status d = status (edetector e)"
    using that assms(1) Some by (subst current_mod) (simp_all add: looks_same_def)
  then have "current ?m i \<or> (\<exists>st. Changed st \<in> set (rev (take (length (qlog d) - length (qlog (edetector e))) (qlog d))))"
    using reports_news [OF assms(2) [OF Some]] by blast
  from current_news [OF this] show ?thesis using Some by (simp add: run_detector_def)
qed (simp add: run_detector_def assms(1))

section \<open>The other operations\<close>

lemma mod_waiters_state: "getState (mod_waiters i f m) j = getState m j"
  by (rule getState_cong) (auto simp: mod_waiters_def isEngaged_def waiters_of_def set_waiters_def map_of_js_map_set entry_of_def split: option.splits)

lemma mod_waiters_fields [simp]:
  "entry_of (mod_waiters i f m) = entry_of m" "helpers (mod_waiters i f m) = helpers m" "lastEmitted (mod_waiters i f m) = lastEmitted m"
  "watchedCommands (mod_waiters i f m) = watchedCommands m"
  by (simp_all add: mod_waiters_def split: option.splits)

lemma current_waiters: "current (mod_waiters i f m) j = current m j"
  by (rule current_cong) (simp_all add: mod_waiters_state)

lemma current_noteWork: "current (noteWork i m) i = current m i"
  unfolding noteWork_def by (simp add: current_waiters) (subst current_mod, auto simp: looks_same_def work_noted_def option.map_comp comp_def)

lemma current_data:
  assumes "current m i" "has_entry m i"
  shows "current (alert_onData S now i m) i"
proof (cases "i \<in> removed m")
  case False
  let ?m0 = "getOrCreateEntry i m"
  obtain e where e: "entry_of ?m0 i = Some e" by (cases "entry_of m i") simp_all
  have c: "current ?m0 i" using assms by (simp add: current_create)
  then have "current (run_detector S now i (fst (onData now (edetector e))) ?m0) i"
    by (rule current_run_detector) (use e reports_onData in simp)
  then show ?thesis using False e c by (auto simp: alert_onData_def Let_def current_noteWork split: prod.splits)
qed (simp add: alert_onData_def assms)

lemma current_timer: "current m i \<Longrightarrow> current (detector_timer_fired S now i k m) i"
  by (auto simp: detector_timer_fired_def intro!: current_run_detector reports_fired split: option.splits)

lemma looks_same_resets:
  "looks_same m i e (e\<lparr>pendingCommandLine := x\<rparr>)" "looks_same m i e (e\<lparr>echoUntil := y\<rparr>)" "looks_same m i e (e\<lparr>held := h\<rparr>)"
  "looks_same m i e (endLeaveGrace e)" "looks_same m i e (cancelProgressEnd e)" "looks_same m i e (e\<lparr>edetector := expectWork now (edetector e)\<rparr>)"
  by (simp_all add: looks_same_def endLeaveGrace_def cancelProgressEnd_def expectWork_def)

lemma current_hidden:
  "current (mod_entry i (\<lambda>e. e\<lparr>pendingCommandLine := x\<rparr>) m) i = current m i" "current (mod_entry i (\<lambda>e. e\<lparr>echoUntil := y\<rparr>) m) i = current m i"
  "current (mod_entry i (\<lambda>e. e\<lparr>held := h\<rparr>) m) i = current m i" "current (mod_entry i endLeaveGrace m) i = current m i"
  "current (mod_entry i cancelProgressEnd m) i = current m i"
  "current (mod_entry i (\<lambda>e. e\<lparr>edetector := expectWork now (edetector e)\<rparr>) m) i = current m i"
  by (rule current_mod, rule looks_same_resets)+

text \<open>What a helper does stays hidden.\<close>

lemma current_helper: "i \<in> helpers m \<Longrightarrow> current (mod_entry i f m) i = current m i"
  by (rule current_mod) simp

lemma current_endProgress: "current m i \<Longrightarrow> current (settleProgressEnd S now i m) i"
proof (cases "\<exists>e p en. entry_of m i = Some e \<and> progress e = Some p \<and> pend p = Some en")
  case True
  assume c: "current m i"
  show ?thesis
  proof (cases "i \<in> helpers m")
    case True
    then have "current (fst (dispatchCompletion S now i ev (mod_entry i endRun m))) i" for ev
      using c by (simp add: dispatchCompletion_def current_helper)
    moreover have "snd (dispatchCompletion S now i ev (mod_entry i endRun m)) = False" for ev using True by (simp add: dispatchCompletion_def)
    ultimately show ?thesis using c by (simp add: settleProgressEnd_def case_prod_beta split: option.splits)
  next
    case False
    have r: "\<not> snd (dispatchCompletion S now i (Notified n) (mod_entry i endRun m)) \<Longrightarrow>
        current (fst (dispatchCompletion S now i (Notified n) (mod_entry i endRun m))) i" for n
      using True False current_report [of "mod_entry i endRun m" i S now n] by auto
    show ?thesis using True by (auto simp: settleProgressEnd_def case_prod_beta current_notify r)
  qed
next
  case False
  assume c: "current m i"
  then show ?thesis using False by (auto simp: settleProgressEnd_def split: option.splits bind_splits)
qed

lemma current_finish:
  assumes "current m i"
  shows "current (fst (finishCommandExitWatch S now i c m)) i \<or> snd (finishCommandExitWatch S now i c m)"
proof -
  let ?m1 = "settleProgressEnd S now i m"
  have c: "current ?m1 i" using assms by (rule current_endProgress)
  show ?thesis
  proof (cases "\<exists>e. entry_of ?m1 i = Some e \<and> (progress e \<noteq> None \<or> commandExitWatch e \<noteq> None)")
    case True
    then show ?thesis by (auto simp: finishCommandExitWatch_def endRunAtBoundary_def Let_def)
  next
    case False
    have "current (mod_entry i (\<lambda>e. e\<lparr>commandExitWatch := None, pendingCommandLine := None\<rparr>) (mod_entry i endRun ?m1)) i"
      using c False by (subst current_mod, auto simp: looks_same_def, subst current_mod, auto simp: looks_same_def isWatching_def watchRuleFor_def)
    then show ?thesis using False
      by (cases "entry_of ?m1 i") (auto simp: finishCommandExitWatch_def endRunAtBoundary_def Let_def)
  qed
qed

lemma current_semantic: "current (fst x) i \<or> snd x \<Longrightarrow>
    current (fst (semantic_event_step S now i ev x)) i \<or> snd (semantic_event_step S now i ev x)"
  using current_finish [of "fst x" i S now]
  by (cases ev; cases x) (auto simp: semantic_event_step_def Let_def case_prod_beta)

lemma current_semantics: "current (fst x) i \<or> snd x \<Longrightarrow>
    current (fst (fold (semantic_event_step S now i) evs x)) i \<or> snd (fold (semantic_event_step S now i) evs x)"
  by (induction evs arbitrary: x) (simp_all add: current_semantic)

lemma current_events:
  assumes "current m i" "has_entry m i"
  shows "current (applyTerminalSemanticEvents S now i evs m) i"
  using current_semantics [of "(reportedEntry i m, False)" i S now evs] assms
  by (auto simp: applyTerminalSemanticEvents_def current_create_upd current_notify case_prod_beta)

lemma current_exit: "current m i \<Longrightarrow> current (onExit S now i c m) i"
  unfolding onExit_def
  by (rule current_settleWaiters) (use current_finish [of m i S now c] in \<open>auto simp: case_prod_beta current_notify split: option.splits\<close>)

lemma current_progress:
  assumes "current m i" "has_entry m i"
  shows "current (updateProtocolProgress S now i st pc m) i"
proof -
  let ?m0 = "reportedEntry i m"
  have 0: "current ?m0 i" using assms by (simp add: current_create_upd)
  have 1: "current (mod_entry i (\<lambda>e. e\<lparr>progress := Some p'\<rparr>) ?m0) i" if "Option.bind (entry_of ?m0 i) progress = Some p" for p p'
    using 0 that by (subst current_mod) (auto simp: looks_same_def split: bind_splits)
  show ?thesis using 0 1
    by (auto simp: updateProtocolProgress_def Let_def current_hidden current_noteWork current_notify assms(1) split: option.splits)
qed

lemma current_protocol: "current m i \<Longrightarrow> has_entry m i \<Longrightarrow> current (notifyFromProtocol S now i v m) i"
  by (auto simp: notifyFromProtocol_def Let_def current_create_upd current_dispatch split: option.splits)

lemma current_user: "current (setTodoForUser i v m) i" "current m i \<Longrightarrow> current (dismissAlert i m) i"
  "current m i \<Longrightarrow> current (silenceRun i m) i" "current m i \<Longrightarrow> current (seed_session i td n m) i"
  "current m i \<Longrightarrow> current (toggleTodo i m) i" "current m i \<Longrightarrow> current (clearTodo i m) i"
  by (simp_all add: setTodoForUser_def dismissAlert_def silenceRun_def seed_session_def toggleTodo_def clearTodo_def Let_def current_notify)

lemma current_acknowledge: "current m i \<Longrightarrow> current (acknowledge S now i input m) i"
  by (auto simp: acknowledge_def Let_def current_user current_notify current_hidden)

lemma current_write: "current m i \<Longrightarrow> has_entry m i \<Longrightarrow> current (onWrite S now i data u m) i"
  using acknowledge_good [of True now i m S now True]
  by (auto simp: onWrite_def Let_def current_hidden current_create current_acknowledge good_def)

lemma current_await: "current m i \<Longrightarrow> current (fst (awaitCompletion now i u tm m)) i"
  by (auto simp: awaitCompletion_def Let_def current_notify split: jsnum.splits option.splits prod.splits)

lemma current_await_ends:
  "current m i \<Longrightarrow> current (cancel_await now i k m) i" "current m i \<Longrightarrow> current (await_grace_fired now i k m) i"
  "current m i \<Longrightarrow> current (await_timeout_fired now i k m) i"
  by (simp_all add: cancel_await_def await_grace_fired_def await_timeout_fired_def current_settle split: option.splits)

lemma current_escalate: "current m i \<Longrightarrow> current (escalateHeld S now i m) i"
  by (auto simp: escalateHeld_def current_hidden intro!: current_fold current_deliver split: option.splits)

lemma current_leave: "current m i \<Longrightarrow> current (leave_grace_fired S now i m) i"
  by (simp add: leave_grace_fired_def Let_def current_hidden current_escalate)

section \<open>Operations on several sessions\<close>

lemma set_js_map_set: "distinct (map fst m) \<Longrightarrow> set (js_map_set k v m) = insert (k, v) {x \<in> set m. fst x \<noteq> k}"
proof (induction k v m rule: js_map_set.induct)
  case (2 k v k' v' m)
  then show ?case by (cases "k' = k") force+
qed simp

lemma isEngaged_iff: "isEngaged m j \<longleftrightarrow> (\<exists>v. (v, Some j) \<in> set (viewers m))"
  by (force simp: isEngaged_def)

lemma viewer_unpointed:
  assumes "distinct (map fst (viewers m))" "map_of (viewers m) vid \<noteq> Some (Some j)" "after \<noteq> Some (Some j)"
  shows "isEngaged (m\<lparr>viewers := (case after of None \<Rightarrow> js_map_delete vid (viewers m) | Some f \<Rightarrow> js_map_set vid f (viewers m))\<rparr>) j = isEngaged m j"
proof -
  have "(vid, Some j) \<notin> set (viewers m)" using assms(1,2) by (auto dest: map_of_is_SomeI)
  then show ?thesis using assms(1,3)
    by (cases after) (auto simp: isEngaged_iff set_js_map_set js_map_delete_def)
qed

text \<open>A session is behind after a viewer's move only if its engagement changed, and then the move is handled.\<close>

definition move_owed :: "manager \<Rightarrow> string \<times> bool \<Rightarrow> bool" where
  "move_owed m x \<longleftrightarrow> isEngaged m (fst x) \<noteq> snd x"

lemma current_moved:
  assumes "current m (fst x) \<or> move_owed m x"
    and "entry_of m (fst x) = None \<or> fst x \<in> helpers m \<Longrightarrow> current m (fst x)"
  shows "current (viewer_moved S now after lp x m) (fst x)"
  using assms by (cases x) (auto simp: viewer_moved_def move_owed_def current_notify)

definition hidden_current :: "manager \<Rightarrow> bool" where
  "hidden_current m \<longleftrightarrow> (\<forall>j. entry_of m j = None \<or> j \<in> helpers m \<longrightarrow> current m j)"

lemma moved_others: "j \<noteq> fst x \<Longrightarrow> current (viewer_moved S now after lp x m) j = current m j"
  using current_others [OF viewer_moved_good] by blast

lemma moved_fields:
  "isEngaged (viewer_moved S now after lp x m) = isEngaged m" "helpers (viewer_moved S now after lp x m) = helpers m"
  using good_viewers [OF viewer_moved_good [of True now x m S now after lp]] by simp_all

lemma current_moves:
  assumes "distinct (map fst xs)" "\<And>j. j \<notin> fst ` set xs \<Longrightarrow> current m j" "\<And>x. x \<in> set xs \<Longrightarrow> current m (fst x) \<or> move_owed m x"
    and "\<And>j. entry_of m j = None \<or> j \<in> helpers m \<Longrightarrow> current m j"
  shows "current (fold (viewer_moved S now after lp) xs m) j"
  using assms
proof (induction xs arbitrary: m)
  case (Cons x xs)
  let ?m = "viewer_moved S now after lp x m"
  have here: "current ?m (fst x)" using Cons.prems(3,4) by (intro current_moved) auto
  have other: "k \<noteq> fst x \<Longrightarrow> current ?m k = current m k" for k by (rule moved_others)
  have "current (fold (viewer_moved S now after lp) xs ?m) j"
  proof (rule Cons.IH)
    show "distinct (map fst xs)" using Cons.prems(1) by simp
    show "current ?m k" if "k \<notin> fst ` set xs" for k using that here other Cons.prems(2) by (cases "k = fst x") auto
    show "current ?m (fst y) \<or> move_owed ?m y" if "y \<in> set xs" for y
      using that Cons.prems(3) [of y] other [of "fst y"] here by (cases "fst y = fst x") (auto simp: move_owed_def moved_fields)
    show "current ?m k" if "entry_of ?m k = None \<or> k \<in> helpers ?m" for k
    proof (cases "k = fst x")
      case False
      have "entry_of ?m k = entry_of m k" using viewer_moved_good [of True now x m S now after lp] False by (simp add: good_def)
      then show ?thesis using that Cons.prems(4) other [OF False] by (simp add: moved_fields)
    qed (use here in simp)
  qed
  then show ?case by simp
qed simp

lemma current_setViewer:
  assumes "\<And>j. current m j" "distinct (map fst (viewers m))"
  shows "current (setViewer S now vid v lp m) j"
proof -
  define after where "after = (if js_prop v ''present'' = VBool True then Some (as_str (js_prop v ''focusId'')) else None)"
  let ?vs = "case after of None \<Rightarrow> js_map_delete vid (viewers m) | Some f \<Rightarrow> js_map_set vid f (viewers m)"
  let ?m = "m\<lparr>viewers := ?vs\<rparr>"
  let ?ids = "concat (map (\<lambda>f. case f of Some (Some sid) \<Rightarrow> [sid] | _ \<Rightarrow> []) [map_of (viewers m) vid, after])"
  let ?xs = "map (\<lambda>sid. (sid, isEngaged m sid)) ?ids"
  have eq: "setViewer S now vid v lp m = (if map_of (viewers m) vid = after then m else fold (viewer_moved S now after lp) ?xs ?m)"
    by (simp only: setViewer_def Let_def after_def)
  have same: "current ?m k" if "isEngaged ?m k = isEngaged m k \<or> entry_of m k = None \<or> k \<in> helpers m" for k
  proof -
    have "getState ?m k = getState m k"
    proof (cases "isEngaged ?m k = isEngaged m k")
      case True
      then show ?thesis by (intro getState_cong) simp_all
    next
      case False
      then show ?thesis using that by (auto simp: getState_def split: option.splits)
    qed
    then show ?thesis using assms(1) [of k] current_cong [of ?m k m] by simp
  qed
  have "current (fold (viewer_moved S now after lp) ?xs ?m) j" if "map_of (viewers m) vid \<noteq> after"
  proof (rule current_moves)
    show "distinct (map fst ?xs)" using that by (auto split: option.splits)
    show "current ?m k" if "k \<notin> fst ` set ?xs" for k
    proof (rule same, rule disjI1, rule viewer_unpointed [OF assms(2)])
      show "map_of (viewers m) vid \<noteq> Some (Some k)" "after \<noteq> Some (Some k)" using that by (auto split: option.splits)
    qed
    show "current ?m (fst x) \<or> move_owed ?m x" if "x \<in> set ?xs" for x
      using that same [of "fst x"] by (auto simp only: set_map move_owed_def) auto
    show "current ?m k" if "entry_of ?m k = None \<or> k \<in> helpers ?m" for k using that by (intro same) auto
  qed
  then show ?thesis using assms(1) unfolding eq by auto
qed

lemma current_rules:
  assumes "\<And>j. current m j"
  shows "current (replace_rules rules m) j"
proof -
  let ?f = "\<lambda>sid x. notify sid (mod_entry sid (withdrawUncoveredWatchingRing rules) x)"
  let ?m = "m\<lparr>watchedCommands := rules\<rparr>"
  have g: "good True 0 i m' (?f i m')" for i m'
    by (intro good_notify good_mod) (auto simp: withdrawUncoveredWatchingRing_def invalidate_inv invalidate_sets)
  have *: "current x j \<or> j \<in> set ids \<Longrightarrow> current (fold ?f ids x) j" for ids x
  proof (induction ids arbitrary: x)
    case (Cons i ids)
    have "current (?f i x) i" by (rule current_notify)
    moreover have "current (?f i x) j = current x j" if "j \<noteq> i" using g that by (rule current_others)
    ultimately show ?case using Cons by (cases "j = i") auto
  qed simp
  have "current ?m j" if "entry_of m j = None"
    using that assms [of j] current_cong [of ?m j m] by (simp add: getState_def)
  moreover have "j \<in> set (map fst (entries m))" if "entry_of m j \<noteq> None"
    using that by (auto simp: entry_of_def map_of_eq_None_iff)
  ultimately have "current (fold ?f (map fst (entries m)) ?m) j" by (intro *) blast
  then show ?thesis using assms by (simp add: replace_rules_def)
qed

lemma current_helpers:
  assumes "\<And>j. current m j"
  shows "current (setHelper i h m) j"
proof -
  let ?m = "m\<lparr>helpers := if h then insert i (helpers m) else helpers m - {i}\<rparr>"
  have s: "current ?m k" if "k \<noteq> i \<or> entry_of m i = None" for k
  proof -
    have "getState ?m k = getState m k"
      using that by (auto simp: getState_def getProjectedStatus_def isWatching_def isEngaged_def split: option.splits)
    then show ?thesis using assms [of k] current_cong [of ?m k m] by simp
  qed
  have "current (notify i ?m) j" if "j = i" using that current_notify by simp
  moreover have "current (notify i ?m) j = current ?m j" if "j \<noteq> i" using notify_good that by (rule current_others)
  ultimately show ?thesis using s by (cases "j = i") (auto simp: setHelper_def Let_def)
qed

lemma current_discard:
  assumes "\<And>j. current m j"
  shows "current (discard now i m) j"
proof -
  let ?m0 = "m\<lparr>removed := insert i (removed m)\<rparr>"
  let ?m1 = "settleWaiters now i Died ?m0"
  let ?m2 = "?m1\<lparr>claimants := (claimants ?m1)(i := [])\<rparr>"
  let ?m3 = "if entry_of ?m2 i = None then ?m2 else notify i (?m2\<lparr>entries := js_map_delete i (entries ?m2)\<rparr>)"
  have 0: "current ?m0 k" for k using assms [of k] by (subst current_cong [of _ _ m]) (auto intro: getState_cong)
  have 1: "current ?m1 k" for k
    using 0 current_settleWaiters [OF 0] current_others [OF settleWaiters_good [of True 0 i ?m0 now Died], of k] by (cases "k = i") auto
  have 2: "current ?m2 k" for k using 1 [of k] by (subst current_cong [of _ _ ?m1]) (auto intro: getState_cong simp: isEngaged_def)
  have 3: "current ?m3 k" for k
  proof (cases "entry_of ?m2 i = None")
    case True
    then show ?thesis using 2 by simp
  next
    case False
    have "current (notify i (?m2\<lparr>entries := js_map_delete i (entries ?m2)\<rparr>)) k" if "k \<noteq> i"
      using 2 [of k] that by (subst current_others [OF notify_good that], subst current_cong [of _ _ ?m2])
        (auto intro!: getState_cong simp: entry_of_delete isEngaged_def)
    then show ?thesis using False current_notify by (cases "k = i") auto
  qed
  have e: "entry_of ?m3 i = None" by (simp add: entry_of_delete)
  have "getState (?m3\<lparr>helpers := helpers ?m3 - {i}\<rparr>) j = getState ?m3 j"
    using e by (auto simp: getState_def getProjectedStatus_def isWatching_def isEngaged_def split: option.splits)
  then have "current (?m3\<lparr>helpers := helpers ?m3 - {i}\<rparr>) j" using 3 [of j] current_cong [of "?m3\<lparr>helpers := helpers ?m3 - {i}\<rparr>" j ?m3] by simp
  then show ?thesis by (simp only: discard_def Let_def)
qed

section \<open>Every call\<close>

lemma current_all: "good b t i m m' \<Longrightarrow> (\<And>j. current m j) \<Longrightarrow> current m' i \<Longrightarrow> current m' j"
  using current_others [of b t i m m' j] by (cases "j = i") auto

lemma current_bookkeeping:
  "current (registerCompletionClaimant i c m) j = current m j" "current (unregister i c m) j = current m j"
  by (auto intro!: current_cong getState_cong simp: registerCompletionClaimant_def unregister_def isEngaged_def)

lemma current_removed: "current (m\<lparr>removed := r\<rparr>) j = current m j" "current (m\<lparr>mlog := l\<rparr>) j = current m j"
  by (rule current_cong; auto intro: getState_cong)+

lemma current_disposed: "current (dispose_manager now m) j"
  by (simp add: current_def heard_def dispose_manager_def getState_def entry_of_def Let_def)

lemma perform_current:
  assumes "am_inv (now, m)" "may_run now c m" "\<And>j. current m j"
  shows "current (perform S now c m) j"
proof -
  have e: "has_entry m i" "holds_at (entry_inv now) m i" for i using assms(1) by (simp_all add: am_inv_def)
  have v: "distinct (map fst (viewers m))" using assms(1) by (simp add: am_inv_def)
  note a = current_all [where m = m and j = j, OF _ assms(3)] and c = assms(3)
  show ?thesis
  proof (cases c)
    case (DetectorTimer i k)
    then have "good False now i m (detector_timer_fired S now i k m)" using e assms(2) by (intro timer_good) auto
    then show ?thesis using a [OF _ current_timer [OF c]] DetectorTimer by simp
  qed (simp_all add: a [OF data_good [OF e(2), of True] current_data [OF c e(1)]] a [OF exit_good [of True 0] current_exit [OF c]]
      a [OF write_good [of True] current_write [OF c e(1)]] a [OF report_good [of True 0] current_protocol [OF c e(1)]]
      a [OF progress_good [of True] current_progress [OF c e(1)]] a [OF events_good [of True 0] current_events [OF c e(1)]]
      a [OF await_good [of True 0] current_await [OF c]] a [OF await_ends_good(1) [of True 0] current_await_ends(1) [OF c]]
      a [OF await_ends_good(2) [of True 0] current_await_ends(2) [OF c]] a [OF await_ends_good(3) [of True 0] current_await_ends(3) [OF c]]
      a [OF acknowledge_good [of True 0] current_acknowledge [OF c]] a [OF dismiss_good [of True 0] current_user(2) [OF c]]
      a [OF todo_good(1) [of True 0] current_user(5) [OF c]] a [OF todo_good(2) [of True 0] current_user(6) [OF c]]
      a [OF silence_good [of True 0] current_user(3) [OF c]] a [OF seed_good [of True 0] current_user(4) [OF c]]
      a [OF endProgress_good [OF good_refl, of True 0] current_endProgress [OF c]] a [OF leave_good [of True 0] current_leave [OF c]]
      current_setViewer [OF c v] current_rules [OF c] setWatchedCommands_def setCommandWatched_def current_helpers [OF c] current_discard [OF c] current_bookkeeping c
      current_disposed remove_session_def restart_def Let_def current_removed)
qed

definition sub_inv :: "int \<times> manager \<Rightarrow> bool" where
  "sub_inv = (\<lambda>(t, m). am_inv (t, m) \<and> (\<forall>j. current m j))"

interpretation subscribers: step_system "\<lambda>x. snd x = new_manager" "am_step S" sub_inv for S
proof unfold_locales
  show "sub_inv x" if "snd x = new_manager" for x
    using that new_manager_inv by (cases x) (simp add: sub_inv_def current_def heard_def new_manager_def getState_def entry_of_def)
  show "sub_inv y" if "am_step S x y" "sub_inv x" for S x y
    using that(1)
  proof cases
    case (am_call t now c m)
    then have m: "am_inv (now, m)" "\<And>j. current m j" using that(2) am_inv_later by (auto simp: sub_inv_def)
    then show ?thesis using am_call am_step_inv [OF that(1)] that(2) perform_current [OF m(1) am_call(4) m(2)] by (auto simp: sub_inv_def)
  qed
qed

end
