(* ===== verification/Alert_Correct.thy ===== *)
theory Alert_Correct
  imports Alert_Subscribers
begin

text \<open>
  What the alert manager guarantees in every state it can reach, whatever is called when and however
  late its timers run: the latches agree, no ring opens under the user's eyes, a ring for silence
  comes after the silence, every await is answered once, each completion is decided as the rules
  say, the user's verbs answer what is owed, and subscribers are never behind.
\<close>

section \<open>Who claims a completion\<close>

lemma offers_claim:
  "snd (fold (offer now i ev) ws (m, c)) = (c \<or> (\<exists>w \<in> set ws. awaitCauseFor (wuntil w) ev \<noteq> None))"
  by (induction ws arbitrary: m c) (auto simp: offer_def split: option.splits)

lemma offers_none: "(\<forall>w \<in> set ws. awaitCauseFor (wuntil w) ev = None) \<Longrightarrow> fold (offer now i ev) ws (m, c) = (m, c)"
  by (induction ws arbitrary: m c) (auto simp: offer_def)

lemma claimed_iff:
  "snd (run_claimants S now i ev cs m) \<longleftrightarrow> (\<exists>n. OtherClaimant n \<in> set cs \<and> claims S n ev) \<or>
     (AwaitGroup \<in> set cs \<and> (\<exists>w \<in> set (waiters_of m i). awaitCauseFor (wuntil w) ev \<noteq> None))"
proof (induction S now i ev cs m rule: run_claimants.induct)
  case (3 S now i ev cs m)
  obtain m' c where f: "fold (offer now i ev) (waiters_of m i) (m, False) = (m', c)" by fastforce
  have c: "c = (\<exists>w \<in> set (waiters_of m i). awaitCauseFor (wuntil w) ev \<noteq> None)"
    using offers_claim [of now i ev "waiters_of m i" m False] f by simp
  show ?case
  proof (cases c)
    case True
    then show ?thesis using f c by auto
  next
    case False
    then have "m' = m" using offers_none [of "waiters_of m i" ev now i m False] c f by auto
    then show ?thesis using 3 f False c by auto
  qed
qed auto

lemma dispatch_entry:
  assumes "entry_of m i = Some e" "i \<notin> helpers m"
  shows "\<exists>e'. entry_of (fst (dispatchCompletion S now i ev m)) i = Some e' \<and>
    (snd (dispatchCompletion S now i ev m) \<or> inEchoWindow now e \<or> ring_rule m e ev = None \<longrightarrow> e' = e) \<and>
    (\<forall>s d. \<not> snd (dispatchCompletion S now i ev m) \<longrightarrow> \<not> inEchoWindow now e \<longrightarrow> ring_rule m e ev = Some (s, d) \<longrightarrow>
      (if isEngaged m i then ring e' = ring e \<and> todo e' \<and> held e' \<noteq> None
       else if s = Listed ReportSource \<and> ackedQuiet e then ring e' = ring e \<and> held e' = held e \<and> todo e' = todo e
       else held e' = held e \<and> todo e' = todo e \<and> notification e' = notification e \<and>
         (\<exists>r'. ring e' = Some r' \<and> (\<forall>r. ring e = Some r \<longrightarrow> episode r' = episode r))))"
proof -
  obtain m1 c where r: "run_claimants S now i ev (claimants m i) m = (m1, c)" by fastforce
  have g: "good True 0 i m m1" and e1: "entry_of m1 = entry_of m" using claimants_run [of True 0 i m S now ev "claimants m i"] r by simp_all
  have eng: "isEngaged m1 = isEngaged m" using good_viewers [OF g] by simp
  have rule: "ring_rule m1 e ev = ring_rule m e ev"
    using g by (simp add: ring_rule_def isWatching_def good_def split: completion_event.splits option.splits)
  have d: "dispatchCompletion S now i ev m = (if c then (m1, True) else (if inEchoWindow now e then notify i m1
      else (case ring_rule m e ev of None \<Rightarrow> m1 | Some (s, d) \<Rightarrow> holdOrDeliver S now i s d None m1), False))"
    using r assms e1 rule by (simp add: dispatchCompletion_def)
  have h: "\<exists>e'. entry_of (holdOrDeliver S now i s d None m1) i = Some e' \<and>
      (if isEngaged m i then ring e' = ring e \<and> todo e' \<and> held e' \<noteq> None
       else if s = Listed ReportSource \<and> ackedQuiet e then ring e' = ring e \<and> held e' = held e \<and> todo e' = todo e
       else held e' = held e \<and> todo e' = todo e \<and> notification e' = notification e \<and>
         (\<exists>r'. ring e' = Some r' \<and> (\<forall>r. ring e = Some r \<longrightarrow> episode r' = episode r)))" for s d
    using assms(1) e1 eng
    by (cases "ring e") (simp_all add: holdOrDeliver_def Let_def hold_def updateReceipt_def raiseRing_def addSource_def takeRicher_def
        split: ring_source.split)
  show ?thesis
  proof (cases "c \<or> inEchoWindow now e \<or> ring_rule m e ev = None")
    case True
    then show ?thesis using d assms(1) e1 by auto
  next
    case False
    then obtain s dt where "ring_rule m e ev = Some (s, dt)" by (cases "ring_rule m e ev") auto
    then show ?thesis using d False h [of s dt] by auto
  qed
qed

section \<open>A settle nobody watches\<close>

lemma unwatched_dispatch_good:
  assumes "entry_of m i = Some e" "\<not> isWatching m e"
  shows "good True t i m (fst (dispatchCompletion S now i SettledEvent m))"
proof (cases "i \<in> helpers m")
  case False
  obtain m1 c where r: "run_claimants S now i SettledEvent (claimants m i) m = (m1, c)" by fastforce
  have g: "good True t i m m1" and e1: "entry_of m1 = entry_of m"
    using claimants_run [of True t i m S now SettledEvent "claimants m i"] r by simp_all
  have "ring_rule m1 e SettledEvent = None" using g assms(2) by (auto simp: ring_rule_def isWatching_def good_def split: option.splits)
  then show ?thesis using r g e1 assms(1) False good_notify [OF g] by (auto simp: dispatchCompletion_def)
qed (simp add: dispatchCompletion_def)

lemma unwatched_settle_good:
  assumes "entry_of m i = Some e" "\<not> isWatching m e \<or> progress e \<noteq> None"
  shows "good True t i m (onSettled S now i m)"
proof (cases "progress e = None")
  case True
  obtain m1 c where d: "dispatchCompletion S now i SettledEvent m = (m1, c)" by fastforce
  then have g: "good True t i m m1" using unwatched_dispatch_good [OF assms(1), of t S now] assms(2) True by simp
  then have "good True t i m (mod_entry i (invalidateWatching (\<lambda>k. True)) m1)"
    by (rule good_then_mod) (auto simp: invalidate_inv invalidate_sets)
  then show ?thesis using assms(1) True d g by (simp add: onSettled_def good_notify)
qed (simp add: onSettled_def assms(1))

lemma settled_log:
  assumes "\<not> qdisposed d" "status d = MightNeedAttention"
  shows "qlog (timer_fired SettledConfirm due [] now d) = Changed NothingToShow # Settled now # qlog d"
  using assms by (simp add: timer_fired_def Let_def setStatus_def publish_def resetOutputTracking_def)

lemma settling_watched:
  assumes "am_inv (now, m)" "may_run now c m" "settling c m i" "holds_at no_watch m i" "\<not> holds_at no_watch (perform S now c m) i"
  shows "\<exists>e u. entry_of m i = Some e \<and> isWatching m e \<and> progress e = None \<and> last_output (qlog (edetector e)) = Some u \<and> u + 5000 \<le> now"
proof -
  obtain e due where c: "c = DetectorTimer i SettledConfirm" and e: "entry_of m i = Some e" "status (edetector e) = MightNeedAttention"
    and t: "timers (edetector e) SettledConfirm = Some due" "due \<le> now"
    using assms(2,3) by (auto simp: settling_def split: option.splits bind_splits)
  have q: "q_inv (now, edetector e)" using assms(1) e by (simp add: am_inv_def holds_at_def entry_inv_def)
  then have nd: "\<not> qdisposed (edetector e)" using t by (auto simp: q_inv_def)
  then have u: "\<exists>u. last_output (qlog (edetector e)) = Some u \<and> u + 5000 \<le> now"
    using q e t by (auto simp: q_inv_def deadline_def T_MIGHT_NEED_ATTENTION_def T_SETTLED_CONFIRM_def)
  let ?d = "timer_fired SettledConfirm due [] now (edetector e)"
  let ?m = "mod_entry i (\<lambda>x. x\<lparr>edetector := ?d\<rparr>) m"
  have p: "perform S now c m = notify i (onSettled S now i ?m)"
    using e t settled_log [OF nd e(2), of due now] c by (simp add: detector_timer_fired_def run_detector_def createDetector_def)
  have "isWatching m e \<and> progress e = None"
  proof (rule ccontr)
    assume n: "\<not> (isWatching m e \<and> progress e = None)"
    have "good True now i ?m (onSettled S now i ?m)"
      using n e by (intro unwatched_settle_good [where e = "e\<lparr>edetector := ?d\<rparr>"]) (auto simp: isWatching_def)
    then have "good True now i ?m (perform S now c m)" unfolding p by (rule good_notify)
    moreover have "holds_at no_watch ?m i" using assms(4) e by (simp add: holds_at_def)
    ultimately show False using assms(5) by (simp add: good_def)
  qed
  with u e show ?thesis by blast
qed

section \<open>Sequences of calls\<close>

definition perform_all :: "services \<Rightarrow> (int \<times> alert_call) list \<Rightarrow> manager \<Rightarrow> manager" where
  "perform_all S cs m = fold (\<lambda>(now, c). perform S now c) cs m"

fun timely :: "services \<Rightarrow> int \<Rightarrow> manager \<Rightarrow> (int \<times> alert_call) list \<Rightarrow> bool" where
  "timely S t m [] = True"
| "timely S t m ((now, c) # cs) = (t \<le> now \<and> may_run now c m \<and> timely S now (perform S now c m) cs)"

lemma timely_run: "timely S t m cs \<Longrightarrow> (am_step S)\<^sup>*\<^sup>* (t, m) (fst (last ((t, c0) # cs)), perform_all S cs m)"
proof (induction S t m cs arbitrary: c0 rule: timely.induct)
  case (2 S t m now c cs)
  have "am_step S (t, m) (now, perform S now c m)" using 2(2) by (intro am_call) simp_all
  moreover have "(am_step S)\<^sup>*\<^sup>* (now, perform S now c m) (fst (last ((now, c) # cs)), perform_all S cs (perform S now c m))"
    using 2 by simp
  ultimately show ?case by (simp add: perform_all_def converse_rtranclp_into_rtranclp)
qed (simp add: perform_all_def)

definition example_services :: services where
  "example_services = \<lparr>
     uuid = (\<lambda>n. replicate n (CHR ''u'')), claims = (\<lambda>n ev. False)\<rparr>"

text \<open>A watched command is started, works, and falls silent; the last deadline is due.\<close>

definition example_calls :: "(int \<times> alert_call) list" where
  "example_calls = [(0, SetWatchedCommands [''make'']), (0, SemanticEvents ''a'' [CommandLine ''make'', CommandStart None None]),
     (0, OnWrite ''a'' ''x'' False), (100, OnData ''a''), (1000, OnData ''a''), (1700, OnData ''a''), (1800, OnData ''a''),
     (3900, DetectorTimer ''a'' MightNeedTimer)]"

definition example_waiting :: manager where
  "example_waiting = perform_all example_services example_calls new_manager"

lemma alert_example_run: "(am_step example_services)\<^sup>*\<^sup>* (0, new_manager) (3900, example_waiting)"
proof -
  have "timely example_services 0 new_manager example_calls" by code_simp
  from timely_run [OF this] show ?thesis by (simp add: example_waiting_def example_calls_def)
qed

lemma alert_example_then:
  "3900 \<le> now \<Longrightarrow> may_run now c example_waiting \<Longrightarrow>
   (am_step example_services)\<^sup>*\<^sup>* (0, new_manager) (now, perform example_services now c example_waiting)"
  by (rule rtranclp.rtrancl_into_rtrancl [of "am_step example_services", OF alert_example_run am_call])

lemma example_due: "may_run 7000 (DetectorTimer ''a'' SettledConfirm) example_waiting"
  by code_simp

section \<open>Properties\<close>

text \<open>The latches of a session agree in every reachable state: an acknowledged session is not ringing, a
  ring and a hold each have a source, a hold shows as a TODO, and only a TODO has a detail.\<close>

theorem alert_latches:
  assumes "(am_step S)\<^sup>*\<^sup>* (t0, new_manager) (t, m)" "entry_of m i = Some e"
  shows "(ackedQuiet e \<longrightarrow> ring e = None) \<and> (\<forall>r. ring e = Some r \<longrightarrow> sources r \<noteq> [] \<or> watching r \<noteq> None) \<and>
    (\<forall>h. held e = Some h \<longrightarrow> (sources h \<noteq> [] \<or> watching h \<noteq> None) \<and> todo e) \<and> (notification e \<noteq> None \<longrightarrow> todo e)"
proof -
  have "am_inv (t, m)" using alerts.reachable_inv [OF _ assms(1)] by simp
  then have "entry_ok e" using assms(2) by (simp add: am_inv_def holds_at_def entry_inv_def)
  then show ?thesis by (auto simp: entry_ok_def nonempty_def)
qed

theorem alert_latches_witness:
  "\<exists>e. entry_of (perform example_services 7000 (DetectorTimer ''a'' SettledConfirm) example_waiting) ''a'' = Some e \<and>
     ring e \<noteq> None \<and> \<not> ackedQuiet e"
proof -
  let ?m = "perform example_services 7000 (DetectorTimer ''a'' SettledConfirm) example_waiting"
  have run: "(am_step example_services)\<^sup>*\<^sup>* (0, new_manager) (7000, ?m)"
    by (rule alert_example_then) (simp, rule example_due)
  have "Option.bind (entry_of ?m ''a'') ring \<noteq> None" by code_simp
  then obtain e where e: "entry_of ?m ''a'' = Some e" "ring e \<noteq> None" by (auto simp: bind_eq_Some_conv)
  have "\<not> ackedQuiet e" using conjunct1 [OF alert_latches [OF run e(1)]] e(2) by metis
  with e show ?thesis by (intro exI conjI)
qed

text \<open>C14: No ring opens under the user's eyes: whatever is called, and whichever timer fires, a session that a
  present viewer points at afterwards does not start ringing.\<close>

theorem engaged_never_rings:
  assumes "(am_step S)\<^sup>*\<^sup>* (t0, new_manager) (t, m)" "t \<le> now" "may_run now c m"
    and "\<And>e. entry_of m i = Some e \<Longrightarrow> ring e = None"
    and "isEngaged (perform S now c m) i" "entry_of (perform S now c m) i = Some e'"
  shows "ring e' = None"
proof -
  have "holds_at (\<lambda>e. ring e = None) m i" using assms(4) by (simp add: holds_at_def)
  then have "holds_at (\<lambda>e. ring e = None) (perform S now c m) i"
    using reachable_call(2) [OF assms(1-3)] assms(5) unfolding okstep_def by blast
  then show ?thesis using assms(6) by (simp add: holds_at_def)
qed

theorem engaged_never_rings_witness:
  "\<exists>e'. entry_of (perform example_services 7000 (DetectorTimer ''a'' SettledConfirm)
     (perform example_services 5000 (SetViewer ''v'' (VObj [(''present'', VBool True), (''focusId'', VStr ''a'')]) None) example_waiting)) ''a'' = Some e' \<and>
     ring e' = None \<and> held e' \<noteq> None"
proof -
  let ?m = "perform example_services 5000 (SetViewer ''v'' (VObj [(''present'', VBool True), (''focusId'', VStr ''a'')]) None) example_waiting"
  have run: "(am_step example_services)\<^sup>*\<^sup>* (0, new_manager) (5000, ?m)" by (rule alert_example_then) simp_all
  have due: "may_run 7000 (DetectorTimer ''a'' SettledConfirm) ?m" by code_simp
  have quiet: "\<And>e. entry_of ?m ''a'' = Some e \<Longrightarrow> ring e = None"
  proof -
    have "Option.bind (entry_of ?m ''a'') ring = None" by code_simp
    then show "\<And>e. entry_of ?m ''a'' = Some e \<Longrightarrow> ring e = None" by simp
  qed
  have eng: "isEngaged (perform example_services 7000 (DetectorTimer ''a'' SettledConfirm) ?m) ''a''" by code_simp
  have "Option.bind (entry_of (perform example_services 7000 (DetectorTimer ''a'' SettledConfirm) ?m) ''a'') held \<noteq> None" by code_simp
  then obtain e' where e': "entry_of (perform example_services 7000 (DetectorTimer ''a'' SettledConfirm) ?m) ''a'' = Some e'" "held e' \<noteq> None"
    by (auto simp: bind_eq_Some_conv)
  have "(5000::int) \<le> 7000" by simp
  from engaged_never_rings [OF run this due quiet eng e'(1)] e' show ?thesis by blast
qed

text \<open>C15: A ring or a hold for a watched silence is earned: when a call makes one appear where there was none,
  the call is the detector's last deadline, the running command is covered by a rule, no progress
  cycle is open, and the latest output that counted is at least five seconds old.\<close>

theorem watch_ring_after_silence:
  assumes "(am_step S)\<^sup>*\<^sup>* (t0, new_manager) (t, m)" "t \<le> now" "may_run now c m"
    and "\<And>e. entry_of m i = Some e \<Longrightarrow> no_watch e"
    and "entry_of (perform S now c m) i = Some e'" "\<not> no_watch e'"
  shows "c = DetectorTimer i SettledConfirm \<and> (\<exists>e u. entry_of m i = Some e \<and> isWatching m e \<and> progress e = None \<and>
    last_output (qlog (edetector e)) = Some u \<and> u + 5000 \<le> now)"
proof -
  have inv: "am_inv (now, m)" and ok: "okstep (\<lambda>j. \<not> settling c m j) now m (perform S now c m)"
    using reachable_call [OF assms(1-3)] by blast+
  have before: "holds_at no_watch m i" and now: "\<not> holds_at no_watch (perform S now c m) i" using assms(4-6) by (auto simp: holds_at_def)
  then have s: "settling c m i" using ok by (auto simp: okstep_def)
  then show ?thesis using settling_watched [OF inv assms(3) s before now] by (auto simp: settling_def)
qed

theorem watch_ring_after_silence_witness:
  "\<exists>e u. entry_of example_waiting ''a'' = Some e \<and> isWatching example_waiting e \<and> last_output (qlog (edetector e)) = Some u \<and> u + 5000 \<le> 7000"
proof -
  let ?m = "perform example_services 7000 (DetectorTimer ''a'' SettledConfirm) example_waiting"
  have "map_option no_watch (entry_of example_waiting ''a'') = Some True" "map_option no_watch (entry_of ?m ''a'') = Some False"
    by code_simp+
  then obtain e' where e': "\<And>e. entry_of example_waiting ''a'' = Some e \<Longrightarrow> no_watch e" "entry_of ?m ''a'' = Some e'" "\<not> no_watch e'" by auto
  have "(3900::int) \<le> 7000" by simp
  from watch_ring_after_silence [OF alert_example_run this example_due e'] show ?thesis by blast
qed

text \<open>C30: Every await that was parked is answered once or still waits, under one session: its number is in the
  log of outcomes exactly when it is parked nowhere, never twice. When a session's process exits or
  the session is removed, none is left parked on it.\<close>

theorem await_answered_once:
  assumes "(am_step S)\<^sup>*\<^sup>* (t0, new_manager) (t, m)"
  shows "distinct (done_awaits (mlog m)) \<and>
    (\<forall>k < next_waiter m. k \<in> set (done_awaits (mlog m)) \<longleftrightarrow> (\<forall>i. k \<notin> wid ` set (waiters_of m i))) \<and>
    (\<forall>i j k. k \<in> wid ` set (waiters_of m i) \<longrightarrow> k \<in> wid ` set (waiters_of m j) \<longrightarrow> i = j) \<and>
    waiters_of (onExit S now i code m) i = [] \<and> waiters_of (remove_session now i m) i = []"
proof -
  have "am_inv (t, m)" using alerts.reachable_inv [OF _ assms] by simp
  then have ok: "awaits_ok m" by (simp add: am_inv_def)
  have c1: "distinct (done_awaits (mlog m))" using ok by (simp add: awaits_ok_def)
  have c2: "\<forall>k < next_waiter m. k \<in> set (done_awaits (mlog m)) \<longleftrightarrow> (\<forall>i. k \<notin> parked m i)" using ok unfolding awaits_ok_def by blast
  have c3: "\<forall>i j k. k \<in> parked m i \<longrightarrow> k \<in> parked m j \<longrightarrow> i = j" using ok unfolding awaits_ok_def by blast
  have c4: "waiters_of (onExit S now i code m) i = []" by (simp add: onExit_def)
  have c5: "waiters_of (remove_session now i m) i = []" by (simp add: remove_session_def Let_def waiters_of_discard)
  show ?thesis using c1 c2 c3 c4 c5 unfolding parked_def by blast
qed

theorem await_answered_once_witness:
  "done_awaits (mlog (perform example_services 4000 (AwaitCompletion ''a'' UntilQuiet (JFin 60000)) example_waiting)) = [] \<and>
   waiters_of (onExit example_services 4100 ''a'' (Some 0) (perform example_services 4000 (AwaitCompletion ''a'' UntilQuiet (JFin 60000)) example_waiting)) ''a'' = []"
proof -
  let ?m = "perform example_services 4000 (AwaitCompletion ''a'' UntilQuiet (JFin 60000)) example_waiting"
  have run: "(am_step example_services)\<^sup>*\<^sup>* (0, new_manager) (4000, ?m)" by (rule alert_example_then) simp_all
  have "done_awaits (mlog ?m) = []" by code_simp
  then show ?thesis using await_answered_once [OF run] by blast
qed



text \<open>C13: Subscribers are never behind: in every state the manager can reach, what it last published of a
  session is the session's state, as far as subscribers tell states apart. A session never published
  is in the default state.\<close>

theorem subscribers_current:
  assumes "(am_step S)\<^sup>*\<^sup>* (t0, new_manager) (t, m)"
  shows "alertStatesEqual (told (mlog m) i) (getState m i)"
proof -
  have "sub_inv (t, m)" using subscribers.reachable_inv [OF _ assms] by simp
  then show ?thesis by (simp add: sub_inv_def am_inv_def log_ok_def current_def)
qed

theorem subscribers_current_witness:
  "alertStatesEqual (told (mlog example_waiting) ''a'') (getState example_waiting ''a'') \<and>
   s_status (told (mlog example_waiting) ''a'') = DetectorStatus MightNeedAttention"
proof -
  have "s_status (told (mlog example_waiting) ''a'') = DetectorStatus MightNeedAttention" by code_simp
  then show ?thesis using subscribers_current [OF alert_example_run, of "''a''"] by blast
qed

definition echo_of :: "manager \<Rightarrow> string \<Rightarrow> int option" where
  "echo_of m i = map_option echoUntil (entry_of m i)"

lemma deliver_echo: "echo_of (holdOrDeliver S now i s d kept m) i = echo_of m i"
  by (cases "entry_of m i")
    (auto simp: echo_of_def holdOrDeliver_def hold_def updateReceipt_def raiseRing_def Let_def split: option.splits)

lemma dispatch_echo: "echo_of (fst (dispatchCompletion S now i ev m)) i = echo_of m i"
proof -
  obtain m1 c where r: "run_claimants S now i ev (claimants m i) m = (m1, c)" by fastforce
  then have "echo_of m1 i = echo_of m i" using claimants_run [of True 0 i m S now ev "claimants m i"] by (simp add: echo_of_def)
  moreover have "echo_of (notify i m1) i = echo_of m1 i" by (simp add: echo_of_def)
  ultimately show ?thesis using r by (auto simp: dispatchCompletion_def deliver_echo split: option.splits)
qed

lemma endProgress_echo: "echo_of (settleProgressEnd S now i m) i = echo_of m i"
proof -
  have "echo_of (mod_entry i endRun m) i = echo_of m i"
    by (cases "entry_of m i") (simp_all add: echo_of_def endRun_def cancelProgressEnd_def)
  moreover have "echo_of (notify i x) i = echo_of x i" for x by (simp add: echo_of_def)
  ultimately show ?thesis
    by (auto simp: settleProgressEnd_def case_prod_beta dispatch_echo split: option.splits)
qed

text \<open>The user's verbs answer what is owed. Typing into a session clears its ring, its hold and its TODO and
  opens the echo window for 750 milliseconds; a look without typing clears the ring and the hold and
  leaves a TODO that shows what the ring showed.\<close>

theorem acknowledge_answers:
  assumes "entry_of m i = Some e" "i \<notin> helpers m"
  shows "(\<exists>e'. entry_of (acknowledge S now i True m) i = Some e' \<and> ring e' = None \<and> held e' = None \<and> \<not> todo e' \<and>
      notification e' = None \<and> (\<forall>later. inEchoWindow later e' \<longleftrightarrow> later < now + 750)) \<and>
    (\<exists>e'. entry_of (acknowledge S now i False m) i = Some e' \<and> ring e' = None \<and> held e' = None \<and>
      (case ring e of Some r \<Rightarrow> todo e' \<and> notification e' = Some (detail r)
        | None \<Rightarrow> todo e' = todo e \<and> notification e' = notification e))"
proof -
  let ?m = "mod_entry i markSeen (mod_entry i (\<lambda>e. e\<lparr>echoUntil := now + ECHO_WINDOW\<rparr>) m)"
  let ?m1 = "settleProgressEnd S now i ?m"
  have "echo_of ?m1 i = Some (now + 750)"
    unfolding endProgress_echo using assms(1) by (simp add: echo_of_def markSeen_def ECHO_WINDOW_def)
  then obtain e1 where e1: "entry_of ?m1 i = Some e1" "echoUntil e1 = now + 750" by (auto simp: echo_of_def)
  have "acknowledge S now i True m = setTodoForUser i False (mod_entry i clearRingForUser ?m1)"
    using assms by (simp add: acknowledge_def Let_def)
  moreover have "echoUntil (clearRingForUser x) = echoUntil x" for x
    by (simp add: clearRingForUser_def answeredWatching_def Let_def)
  ultimately have c1: "\<exists>e'. entry_of (acknowledge S now i True m) i = Some e' \<and> ring e' = None \<and> held e' = None \<and> \<not> todo e' \<and>
      notification e' = None \<and> (\<forall>later. inEchoWindow later e' \<longleftrightarrow> later < now + 750)"
    using e1 by (simp add: setTodoForUser_def Let_def inEchoWindow_def)
  have c2: "\<exists>e'. entry_of (acknowledge S now i False m) i = Some e' \<and> ring e' = None \<and> held e' = None \<and>
      (case ring e of Some r \<Rightarrow> todo e' \<and> notification e' = Some (detail r)
        | None \<Rightarrow> todo e' = todo e \<and> notification e' = notification e)"
    using assms by (simp add: acknowledge_def Let_def markSeen_def ringToTodo_def split: option.splits)
  show ?thesis using c1 c2 by blast
qed

theorem acknowledge_answers_witness:
  "\<exists>e'. entry_of (acknowledge example_services 8000 ''a'' True example_waiting) ''a'' = Some e' \<and> ring e' = None \<and> \<not> todo e'"
proof -
  have "entry_of example_waiting ''a'' \<noteq> None" "''a'' \<notin> helpers example_waiting" by code_simp+
  then show ?thesis using acknowledge_answers [of example_waiting "''a''" _ example_services 8000] by blast
qed

end
