(* ===== verification/Shell_Quote.thy ===== *)
theory Shell_Quote
  imports Terminal_Command
begin

text \<open>
  Writing command lines: the quoting of arguments for POSIX shells, cmd and PowerShell
  (\<open>dor/src/commands/shell-quote.ts\<close>) and the escaping of pasted paths
  (\<open>lib/src/lib/shell-escape.ts\<close>). What is written for a POSIX shell is read back by the tokenizer of
  \<open>Terminal_Command\<close>; of what is written for cmd, whose parser is not part of the repository, only the guards of
  the percent signs are stated.
\<close>

section \<open>Characters\<close>

definition hasShellInputControls :: "string \<Rightarrow> bool" where
  "hasShellInputControls s = list_ex is_control s"

text \<open>In the range of the model the format and ignorable characters are the soft hyphen and the
  no-break space.\<close>

definition hasControlOrFormatCharacters :: "string \<Rightarrow> bool" where
  "hasControlOrFormatCharacters s = list_ex (\<lambda>c. is_control c \<or> c = CHR 0xA0 \<or> c = CHR 0xAD) s"

definition safe_char :: "char \<Rightarrow> bool" where
  "safe_char c = (is_letter c \<or> is_digit c \<or> c \<in> set ''_@%+=:,./-'')"

definition POSIX_SAFE_ARG :: "string \<Rightarrow> bool" where
  "POSIX_SAFE_ARG s = (s \<noteq> [] \<and> hd s \<noteq> CHR ''='' \<and> list_all safe_char s)"

definition WINDOWS_SAFE_ARG :: "string \<Rightarrow> bool" where
  "WINDOWS_SAFE_ARG s = (s \<noteq> [] \<and> list_all (\<lambda>c. is_letter c \<or> is_digit c \<or> c = bslash \<or> c \<in> set ''_+=:./-'') s)"

section \<open>POSIX shells\<close>

definition quotePosixArg :: "string \<Rightarrow> string" where
  "quotePosixArg arg =
     (if arg = [] then [squote, squote]
      else if POSIX_SAFE_ARG arg then arg
      else squote # concat (map (\<lambda>c. if c = squote \<or> c = bslash then [squote, bslash, c, squote] else [c]) arg) @ [squote])"

definition shellEscapePosix :: "string \<Rightarrow> string" where
  "shellEscapePosix input =
     (if input = [] then [squote, squote]
      else if list_ex line_end input then quotePosixArg input
      else concat (map (\<lambda>c. if POSIX_ESCAPABLE c then [bslash, c] else [c]) input))"

section \<open>PowerShell\<close>

text \<open>Backslashes are doubled before a quote and before the closing one; a quote gets one more.\<close>

fun msvcrt_body :: "nat \<Rightarrow> string \<Rightarrow> string" where
  "msvcrt_body n [] = replicate (2 * n) bslash"
| "msvcrt_body n (c # s) =
     (if c = bslash then msvcrt_body (n + 1) s
      else if c = dquote then replicate (2 * n) bslash @ bslash # dquote # msvcrt_body 0 s
      else replicate n bslash @ c # msvcrt_body 0 s)"

definition quoteMsvcrtArg :: "string \<Rightarrow> string" where
  "quoteMsvcrtArg arg = dquote # msvcrt_body 0 arg @ [dquote]"

definition legacyBinderLoses :: "string \<Rightarrow> bool" where
  "legacyBinderLoses arg =
     (arg = [] \<or> list_ex (\<lambda>c. c = dquote \<or> c \<in> set ''&|<>^'') arg \<or>
      list_ex (\<lambda>c. js_space c \<or> c = CHR 0x85) arg \<and> ends_with [bslash] arg)"

definition quotePowerShellArg :: "string \<Rightarrow> string" where
  "quotePowerShellArg arg =
     (if arg = [] then [squote, squote]
      else if WINDOWS_SAFE_ARG arg then arg
      else squote # concat (map (\<lambda>c. if c = squote then [squote, squote] else [c]) arg) @ [squote])"

definition quotePowerShellCommand :: "string list \<Rightarrow> string" where
  "quotePowerShellCommand args = (case args of
      [] \<Rightarrow> []
    | command # rest \<Rightarrow>
        let quotedCommand = quotePowerShellArg command;
            commandPrefix = (if starts_with [squote] quotedCommand then ''& '' else []);
            legacy = list_ex legacyBinderLoses rest;
            quotedRest = map (\<lambda>arg. quotePowerShellArg (if legacy \<and> legacyBinderLoses arg then quoteMsvcrtArg arg else arg)) rest;
            line = commandPrefix @ join_with '' '' (quotedCommand # quotedRest)
        in if legacy then ''& { $PSNativeCommandArgumentPassing = '' @ [squote] @ ''Legacy'' @ [squote] @ ''; '' @ line @ '' }'' else line)"

section \<open>cmd\<close>

definition quoteCmdProgram :: "string \<Rightarrow> string" where
  "quoteCmdProgram program =
     (if program = [] then [dquote, dquote]
      else if WINDOWS_SAFE_ARG program then program else dquote # program @ [dquote])"

definition CMD_SPECIAL :: "char \<Rightarrow> bool" where
  "CMD_SPECIAL c = (c = dquote \<or> c \<in> set ''^&|<>()!'')"

fun caret_loop :: "bool \<Rightarrow> string \<Rightarrow> string" where
  "caret_loop afterPercent [] = []"
| "caret_loop afterPercent (c # s) =
     (if afterPercent \<or> CMD_SPECIAL c then [CHR ''^'', c] else [c]) @ caret_loop (c = CHR ''%'') s"

definition caretEscapeCmd :: "string \<Rightarrow> string" where
  "caretEscapeCmd s = caret_loop False s"

definition quoteCmdArg :: "string \<Rightarrow> string" where
  "quoteCmdArg arg =
     (if arg = [] then [dquote, dquote]
      else if WINDOWS_SAFE_ARG arg then arg
      else if list_ex (\<lambda>c. c = dquote \<or> c = CHR ''%'') arg then caretEscapeCmd (quoteMsvcrtArg arg) else quoteMsvcrtArg arg)"

section \<open>Every Windows shell at once\<close>

text \<open>A \<open>$\<close> is unsafe unless a backslash follows.\<close>

fun windows_portable_unsafe :: "string \<Rightarrow> bool" where
  "windows_portable_unsafe [] = False"
| "windows_portable_unsafe (c # s) =
     (c = dquote \<or> c \<in> set ''`%!'' \<or> c = CHR ''$'' \<and> \<not> starts_with [bslash] s \<or> windows_portable_unsafe s)"

definition quoteWindowsPortableArg :: "string \<Rightarrow> string option" where
  "quoteWindowsPortableArg arg =
     (if arg = [] then None
      else if WINDOWS_SAFE_ARG arg then Some arg
      else if windows_portable_unsafe arg \<or> hasShellInputControls arg then None
      else if CHR '' '' \<notin> set arg \<and> list_ex (\<lambda>c. c \<in> set ''&|<>^'') arg \<or> ends_with [bslash] arg then None
      else Some (dquote # arg @ [dquote]))"

definition buildWindowsPortableCommand :: "string list \<Rightarrow> string option" where
  "buildWindowsPortableCommand args = (case args of
      [] \<Rightarrow> None
    | command # rest \<Rightarrow>
        if \<not> WINDOWS_SAFE_ARG command then None
        else let quoted = map quoteWindowsPortableArg rest
             in if list_all (\<lambda>a. a \<noteq> None) quoted then Some (join_with '' '' (command # map the quoted)) else None)"

section \<open>Which shell\<close>

datatype shell_kind = CmdKind | PosixKind | PowershellKind

definition shellCommandKind :: "string option \<Rightarrow> string \<Rightarrow> shell_kind" where
  "shellCommandKind shell platform =
     (let base = map lower_char (List.last (split_on CHR ''/'' (map (\<lambda>c. if c = bslash then CHR ''/'' else c) (case shell of Some s \<Rightarrow> s | None \<Rightarrow> []))))
      in if base = [] \<and> split_at ''win'' (map lower_char platform) \<noteq> None then CmdKind
         else if base \<in> {''cmd.exe'', ''cmd''} then CmdKind
         else if base \<in> {''powershell.exe'', ''powershell'', ''pwsh.exe'', ''pwsh''} then PowershellKind
         else PosixKind)"

definition buildShellCommandForKind :: "shell_kind \<Rightarrow> string list \<Rightarrow> string" where
  "buildShellCommandForKind kind args = (case kind of
      CmdKind \<Rightarrow> join_with '' '' (case args of [] \<Rightarrow> [] | p # rest \<Rightarrow> quoteCmdProgram p # map quoteCmdArg rest)
    | PowershellKind \<Rightarrow> quotePowerShellCommand args
    | PosixKind \<Rightarrow> join_with '' '' (map quotePosixArg args))"

definition shellEscapePath :: "string \<Rightarrow> shell_kind \<Rightarrow> string option" where
  "shellEscapePath input kind = (if kind = PosixKind then Some (shellEscapePosix input) else quoteWindowsPortableArg input)"

section \<open>The tokenizer reads what is written for a POSIX shell\<close>

text \<open>The tokenizer between two characters of a word: nothing is open.\<close>

definition in_word :: "lexer \<Rightarrow> bool" where
  "in_word s \<longleftrightarrow> lquote s = None \<and> \<not> escaping s \<and> wordParens s = 0 \<and> operatorPrefix s = None"

lemma lexer_noops [simp]:
  "operatorPrefix s = None \<Longrightarrow> s\<lparr>operatorPrefix := None\<rparr> = s"
  "s\<lparr>previous := previous s\<rparr> = s"
  "\<not> escaping s \<Longrightarrow> s\<lparr>lcurrent := x, escaping := False\<rparr> = s\<lparr>lcurrent := x\<rparr>"
  "\<not> escaping s \<Longrightarrow> s\<lparr>lcurrent := x, escaping := False, previous := b\<rparr> = s\<lparr>lcurrent := x, previous := b\<rparr>"
  by (cases s; simp)+

text \<open>Reading \<open>x\<close> adds \<open>w\<close> to the word in progress and changes nothing else that counts.\<close>

definition adds :: "string \<Rightarrow> string \<Rightarrow> bool" where
  "adds x w \<longleftrightarrow> (\<forall>s r. in_word s \<longrightarrow> (\<exists>b. lex_loop (x @ r) s = lex_loop r (s\<lparr>lcurrent := lcurrent s @ w, previous := b\<rparr>)))"

lemma adds_Nil: "adds [] []"
  unfolding adds_def by (metis append_Nil append_Nil2 lexer.surjective lexer.update_convs(2) lexer.update_convs(8))

lemma adds_append: assumes "adds x v" "adds y w" shows "adds (x @ y) (v @ w)"
  unfolding adds_def
proof (intro allI impI)
  fix s r assume "in_word s"
  then obtain b where b: "lex_loop ((x @ y) @ r) s = lex_loop (y @ r) (s\<lparr>lcurrent := lcurrent s @ v, previous := b\<rparr>)"
    using assms(1) unfolding adds_def by fastforce
  have "in_word (s\<lparr>lcurrent := lcurrent s @ v, previous := b\<rparr>)" using \<open>in_word s\<close> by (simp add: in_word_def)
  then obtain b' where "lex_loop (y @ r) (s\<lparr>lcurrent := lcurrent s @ v, previous := b\<rparr>) =
      lex_loop r (s\<lparr>lcurrent := lcurrent s @ v, previous := b\<rparr>\<lparr>lcurrent := (lcurrent s @ v) @ w, previous := b'\<rparr>)"
    using assms(2) unfolding adds_def by fastforce
  then show "\<exists>b. lex_loop ((x @ y) @ r) s = lex_loop r (s\<lparr>lcurrent := lcurrent s @ v @ w, previous := b\<rparr>)"
    using b by auto
qed

lemma adds_concat: "(\<And>c. c \<in> set w \<Longrightarrow> adds (f c) [c]) \<Longrightarrow> adds (concat (map f w)) w"
proof (induction w)
  case (Cons c w)
  then have "adds (f c @ concat (map f w)) ([c] @ w)" by (intro adds_append) auto
  then show ?case by simp
qed (simp add: adds_Nil)

lemma escapables:
  "POSIX_ESCAPABLE dquote" "POSIX_ESCAPABLE squote" "POSIX_ESCAPABLE bslash" "POSIX_ESCAPABLE CHR ''#''" "POSIX_ESCAPABLE CHR ''$''"
  "POSIX_ESCAPABLE CHR ''&''" "POSIX_ESCAPABLE CHR ''(''" "POSIX_ESCAPABLE CHR '')''" "POSIX_ESCAPABLE CHR '';''"
  "POSIX_ESCAPABLE CHR ''<''" "POSIX_ESCAPABLE CHR ''>''" "POSIX_ESCAPABLE CHR ''|''" "js_space newline" "\<not> POSIX_ESCAPABLE newline"
  by code_simp+

lemma adds_escaped: assumes "POSIX_ESCAPABLE c" shows "adds [bslash, c] [c]"
proof -
  have "c \<noteq> newline" using assms escapables(14) by blast
  then show ?thesis using assms
    by (auto simp: adds_def in_word_def lex_step_def add_char_def Let_def)
qed

text \<open>A character that is neither escapable nor whitespace stands for itself.\<close>

lemma adds_plain: assumes "\<not> POSIX_ESCAPABLE c" "\<not> js_space c" shows "adds [c] [c]"
  unfolding adds_def
proof (intro allI impI)
  fix s r assume s: "in_word s"
  have c: "c \<noteq> newline" "c \<noteq> dquote" "c \<noteq> squote" "c \<noteq> bslash" "c \<noteq> CHR ''#''" "c \<noteq> CHR ''$''" "c \<noteq> CHR ''&''" "c \<noteq> CHR ''(''"
    "c \<noteq> CHR '')''" "c \<noteq> CHR '';''" "c \<noteq> CHR ''<''" "c \<noteq> CHR ''>''" "c \<noteq> CHR ''|''"
    using assms escapables by blast+
  have "lex_step c r s = (r, s\<lparr>lcurrent := lcurrent s @ [c]\<rparr>)"
    using s c assms(2) by (simp add: in_word_def lex_step_def lex_plain_def add_char_def Let_def)
  then have "lex_loop ([c] @ r) s = lex_loop r (s\<lparr>lcurrent := lcurrent s @ [c], previous := Some c\<rparr>)" by simp
  then show "\<exists>b. lex_loop ([c] @ r) s = lex_loop r (s\<lparr>lcurrent := lcurrent s @ [c], previous := b\<rparr>)" by blast
qed

lemma read_quoted:
  assumes "lquote s = Some squote" "\<not> escaping s" "operatorPrefix s = None" "squote \<notin> set w"
  shows "\<exists>b. lex_loop (w @ squote # r) s = lex_loop r (s\<lparr>lcurrent := lcurrent s @ w, lquote := None, previous := b\<rparr>)"
  using assms
proof (induction w arbitrary: s)
  case (Cons c w)
  let ?s = "s\<lparr>lcurrent := lcurrent s @ [c], previous := Some c\<rparr>"
  have "lex_loop ((c # w) @ squote # r) s = lex_loop (w @ squote # r) ?s"
    using Cons.prems by (auto simp: lex_step_def add_char_def Let_def bslash_def)
  also obtain b where "lex_loop (w @ squote # r) ?s = lex_loop r (?s\<lparr>lcurrent := lcurrent ?s @ w, lquote := None, previous := b\<rparr>)"
    using Cons.IH [of ?s] Cons.prems by auto
  finally show ?case by auto
qed (auto simp: lex_step_def Let_def bslash_def)

lemma adds_quoted: assumes "squote \<notin> set w" shows "adds (squote # w @ [squote]) w"
  unfolding adds_def
proof (intro allI impI)
  fix s r assume s: "in_word s"
  have "lex_loop ((squote # w @ [squote]) @ r) s = lex_loop (w @ squote # r) (s\<lparr>lquote := Some squote, previous := Some squote\<rparr>)"
    using s by (simp add: in_word_def lex_step_def Let_def bslash_def dquote_def)
  moreover obtain b where "lex_loop (w @ squote # r) (s\<lparr>lquote := Some squote, previous := Some squote\<rparr>) =
      lex_loop r (s\<lparr>lquote := Some squote, previous := Some squote\<rparr>\<lparr>lcurrent := lcurrent s @ w, lquote := None, previous := b\<rparr>)"
    using read_quoted [of "s\<lparr>lquote := Some squote, previous := Some squote\<rparr>" w r] s assms by (auto simp: in_word_def)
  moreover have "s\<lparr>lquote := Some squote, previous := Some squote\<rparr>\<lparr>lcurrent := lcurrent s @ w, lquote := None, previous := b\<rparr> =
      s\<lparr>lcurrent := lcurrent s @ w, previous := b\<rparr>"
    using s by (cases s) (simp add: in_word_def)
  ultimately show "\<exists>b. lex_loop ((squote # w @ [squote]) @ r) s = lex_loop r (s\<lparr>lcurrent := lcurrent s @ w, previous := b\<rparr>)" by auto
qed

lemma safe_not_escapable: "POSIX_ESCAPABLE c \<Longrightarrow> \<not> safe_char c"
proof -
  have "list_all (\<lambda>c. \<not> safe_char c) (tab_char # dquote # squote # bslash # '' !#$&()*;<>?[]`{|}~'')" by code_simp
  then show "POSIX_ESCAPABLE c \<Longrightarrow> \<not> safe_char c" unfolding POSIX_ESCAPABLE_def list_all_iff by blast
qed

lemma safe_not_space: "safe_char c \<Longrightarrow> \<not> js_space c"
proof -
  have "list_all (\<lambda>c. \<not> js_space c) ''_@%+=:,./-''" by code_simp
  then show "safe_char c \<Longrightarrow> \<not> js_space c"
    unfolding safe_char_def list_all_iff by (auto simp: js_space_def is_letter_def is_upper_def is_lower_def is_digit_def simp del: set_simps)
qed

lemma adds_safe: "safe_char c \<Longrightarrow> adds [c] [c]"
  using adds_plain safe_not_escapable safe_not_space by blast

lemma adds_quotePosixArg: assumes "arg \<noteq> []" shows "adds (quotePosixArg arg) arg"
proof (cases "POSIX_SAFE_ARG arg")
  case True
  then have "adds (concat (map (\<lambda>c. [c]) arg)) arg" by (intro adds_concat adds_safe) (auto simp: POSIX_SAFE_ARG_def list_all_iff)
  then show ?thesis using True assms by (simp add: quotePosixArg_def)
next
  case False
  have body: "\<exists>x. squote # concat (map (\<lambda>c. if c = squote \<or> c = bslash then [squote, bslash, c, squote] else [c]) w) @ [squote] = x \<and> adds x w" for w
  proof -
    have "adds (squote # v @ concat (map (\<lambda>c. if c = squote \<or> c = bslash then [squote, bslash, c, squote] else [c]) w) @ [squote]) (v @ w)"
      if "squote \<notin> set v" for v using that
    proof (induction w arbitrary: v)
      case Nil then show ?case using adds_quoted [of v] by simp
    next
      case (Cons c w)
      show ?case
      proof (cases "c = squote \<or> c = bslash")
        case True
        then have "adds [bslash, c] [c]" using escapables(2,3) by (auto intro: adds_escaped)
        with adds_quoted [OF Cons.prems] Cons.IH [of "[]"]
        have "adds ((squote # v @ [squote]) @ [bslash, c] @
            (squote # concat (map (\<lambda>c. if c = squote \<or> c = bslash then [squote, bslash, c, squote] else [c]) w) @ [squote])) (v @ [c] @ w)"
          by (intro adds_append) simp_all
        then show ?thesis using True by auto
      next
        case False
        then show ?thesis using Cons.IH [of "v @ [c]"] Cons.prems by auto
      qed
    qed
    from this [of "[]"] show ?thesis by simp
  qed
  from body [of arg] show ?thesis using False assms by (simp add: quotePosixArg_def)
qed

lemma adds_shellEscapePosix:
  assumes "p \<noteq> []" "\<And>c. c \<in> set p \<Longrightarrow> js_space c \<Longrightarrow> c \<in> {CHR '' '', tab_char, newline, return_char}"
  shows "adds (shellEscapePosix p) p"
proof (cases "list_ex line_end p")
  case True
  then show ?thesis using assms(1) adds_quotePosixArg by (simp add: shellEscapePosix_def)
next
  case False
  have "adds (if POSIX_ESCAPABLE c then [bslash, c] else [c]) [c]" if "c \<in> set p" for c
  proof -
    have "c \<noteq> newline" "c \<noteq> return_char" using False that by (auto simp: list_ex_iff line_end_def)
    moreover have "POSIX_ESCAPABLE CHR '' ''" "POSIX_ESCAPABLE tab_char" by code_simp+
    ultimately show ?thesis using adds_escaped adds_plain assms(2) [OF that] by auto
  qed
  then show ?thesis using False assms(1) adds_concat by (simp add: shellEscapePosix_def)
qed

lemma read_words:
  assumes "in_word s" "lcurrent s = []" "\<And>w. w \<in> set ws \<Longrightarrow> w \<noteq> [] \<and> adds (f w) w"
  shows "ltokens (push_token (lex_loop (join_with '' '' (map f ws)) s)) = ltokens s @ ws"
  using assms
proof (induction ws arbitrary: s)
  case Nil then show ?case by (simp add: push_token_def)
next
  case (Cons w ws)
  obtain b where b: "lex_loop (f w @ r) s = lex_loop r (s\<lparr>lcurrent := w, previous := b r\<rparr>)" for r
    using Cons.prems unfolding adds_def by (metis append_Nil list.set_intros(1))
  show ?case
  proof (cases ws)
    case Nil
    then show ?thesis using b [of "[]"] Cons.prems by (simp add: push_token_def)
  next
    case (Cons v vs)
    let ?s = "s\<lparr>ltokens := ltokens s @ [w], lcurrent := [], previous := Some CHR '' ''\<rparr>"
    have sp: "js_space CHR '' ''" by code_simp
    have "join_with '' '' (map f (w # ws)) = f w @ CHR '' '' # join_with '' '' (map f ws)" using Cons by simp
    then have "lex_loop (join_with '' '' (map f (w # ws))) s = lex_loop (CHR '' '' # join_with '' '' (map f ws)) (s\<lparr>lcurrent := w, previous := b (CHR '' '' # join_with '' '' (map f ws))\<rparr>)"
      using b by simp
    also have "\<dots> = lex_loop (join_with '' '' (map f ws)) ?s"
      using Cons.prems(1) Cons.prems(3) [of w] sp by (simp add: in_word_def lex_step_def lex_plain_def push_token_def Let_def bslash_def dquote_def)
    finally show ?thesis using Cons.IH [of ?s] Cons.prems by (simp add: in_word_def)
  qed
qed

section \<open>Percent signs on a cmd line\<close>

text \<open>Each \<open>%\<close> has a caret after it, so that no \<open>%NAME%\<close> of an argument names a variable. How cmd and the C
  runtime read the line is not modelled.\<close>

fun percent_guarded :: "string \<Rightarrow> bool" where
  "percent_guarded [] = True"
| "percent_guarded (c # s) = ((c = CHR ''%'' \<longrightarrow> starts_with ''^'' s) \<and> percent_guarded s)"

lemma safe_windows_chars:
  assumes "WINDOWS_SAFE_ARG a" "c \<in> set a"
  shows "c \<noteq> dquote \<and> c \<notin> set ''^&|<>()!% '' \<and> c \<noteq> tab_char"
proof -
  have "list_all (\<lambda>c. \<not> (is_letter c \<or> is_digit c \<or> c = bslash \<or> c \<in> set ''_+=:./-'')) (dquote # tab_char # ''^&|<>()!% '')" by code_simp
  then show ?thesis using assms unfolding WINDOWS_SAFE_ARG_def list_all_iff by (meson list.set_intros)
qed

lemma percent_guarded_append: "percent_guarded a \<Longrightarrow> percent_guarded b \<Longrightarrow> percent_guarded (a @ b)"
  by (induction a) (auto simp: starts_with_extend)

lemma percent_guarded_plain: "CHR ''%'' \<notin> set a \<Longrightarrow> percent_guarded a"
  by (induction a) auto

lemma caret_loop_head: "p \<Longrightarrow> a \<noteq> [] \<Longrightarrow> starts_with ''^'' (caret_loop p a)"
  by (cases a) auto

lemma percent_guarded_caret: "percent_guarded (caret_loop p (a @ [dquote]))"
proof (induction a arbitrary: p)
  case (Cons c a)
  then show ?case by (auto simp: caret_loop_head)
qed (simp add: CMD_SPECIAL_def dquote_def)

lemma quoteCmdArg_guarded: "percent_guarded (quoteCmdArg a)"
proof (cases "WINDOWS_SAFE_ARG a \<or> CHR ''%'' \<notin> set a")
  case True
  have "percent_guarded (quoteMsvcrtArg a)" if "CHR ''%'' \<notin> set a"
  proof -
    have "CHR ''%'' \<notin> set (msvcrt_body n a)" for n using that
      by (induction n a rule: msvcrt_body.induct) (auto simp: bslash_def dquote_def)
    then show ?thesis by (intro percent_guarded_plain) (simp add: quoteMsvcrtArg_def dquote_def)
  qed
  moreover have "CHR ''%'' \<notin> set a" using True safe_windows_chars by fastforce
  moreover have "percent_guarded (caretEscapeCmd (quoteMsvcrtArg a))"
    using percent_guarded_caret [of False "dquote # msvcrt_body 0 a"] by (simp add: caretEscapeCmd_def quoteMsvcrtArg_def)
  ultimately show ?thesis by (simp add: quoteCmdArg_def percent_guarded_plain) (simp add: dquote_def)
next
  case False
  then have "quoteCmdArg a = caretEscapeCmd (quoteMsvcrtArg a)" by (auto simp: quoteCmdArg_def list_ex_iff)
  then show ?thesis using percent_guarded_caret [of False "dquote # msvcrt_body 0 a"]
    by (simp add: caretEscapeCmd_def quoteMsvcrtArg_def)
qed

section \<open>Properties\<close>

text \<open>C37: What Dormouse writes for a POSIX shell its own tokenizer reads back: the command line built from
  arguments splits into exactly those arguments, and a path escaped for pasting is one word, the path
  itself. An empty argument is written as a pair of quotes, which the tokenizer drops, and whitespace
  other than spaces, tabs and line breaks is not escaped in a path; both are left out.\<close>

theorem posix_line_reads_back:
  assumes "\<And>a. a \<in> set args \<Longrightarrow> a \<noteq> []"
    and "p \<noteq> []" "\<And>c. c \<in> set p \<Longrightarrow> js_space c \<Longrightarrow> c \<in> {CHR '' '', tab_char, newline, return_char}"
  shows "tokenizeCommand (buildShellCommandForKind PosixKind args) = args \<and> tokenizeCommand (shellEscapePosix p) = [p]"
proof -
  have new: "in_word new_lexer" "lcurrent new_lexer = []" "ltokens new_lexer = []" by (simp_all add: in_word_def new_lexer_def)
  have "tokenizeCommand (join_with '' '' (map f ws)) = ws" if "\<And>w. w \<in> set ws \<Longrightarrow> w \<noteq> [] \<and> adds (f w) w" for f ws
    using read_words [OF new(1,2) that] new(3) by (simp add: tokenizeCommand_def)
  from this [of args quotePosixArg] this [of "[p]" shellEscapePosix] show ?thesis
    using adds_quotePosixArg adds_shellEscapePosix [OF assms(2,3)] assms by (simp add: buildShellCommandForKind_def)
qed

theorem posix_line_reads_back_witness:
  "tokenizeCommand (buildShellCommandForKind PosixKind [''git'', ''commit'', ''-m'', ''it is $HOME; rm'']) = [''git'', ''commit'', ''-m'', ''it is $HOME; rm''] \<and>
   tokenizeCommand (shellEscapePosix ''my (old) notes.txt'') = [''my (old) notes.txt'']"
proof -
  have a: "\<And>a. a \<in> set [''git'', ''commit'', ''-m'', ''it is $HOME; rm''] \<Longrightarrow> a \<noteq> []" by auto
  have n: "''my (old) notes.txt'' \<noteq> []" by simp
  have "list_all (\<lambda>c. js_space c \<longrightarrow> c \<in> {CHR '' '', tab_char, newline, return_char}) ''my (old) notes.txt''" by code_simp
  then have "\<And>c. c \<in> set ''my (old) notes.txt'' \<Longrightarrow> js_space c \<Longrightarrow> c \<in> {CHR '' '', tab_char, newline, return_char}"
    unfolding list_all_iff by blast
  from posix_line_reads_back [OF a n this] show ?thesis .
qed

text \<open>On a line for cmd every argument, and a program that needs no quoting, has its percent signs guarded.\<close>

lemma cmd_line_guarded:
  assumes "WINDOWS_SAFE_ARG p"
  shows "percent_guarded (buildShellCommandForKind CmdKind (p # args))"
proof -
  have "quoteCmdProgram p = quoteCmdArg p" using assms by (simp add: quoteCmdProgram_def quoteCmdArg_def)
  moreover have "percent_guarded (join_with '' '' (map quoteCmdArg as))" for as
    by (induction as rule: induct_list012) (auto intro!: percent_guarded_append simp: quoteCmdArg_guarded)
  from this [of "p # args"] show ?thesis using calculation by (simp add: buildShellCommandForKind_def del: join_with.simps)
qed

end
