(* ===== verification/Js_Number.thy ===== *)
theory Js_Number
  imports Js_Text
begin

text \<open>
  \<open>Number\<close> on text: decimal, hexadecimal, octal and binary literals. Values are exact rationals, so a
  literal beyond the range of a double is not rounded to an infinity here.
\<close>

definition digits_value :: "nat \<Rightarrow> (char \<Rightarrow> nat) \<Rightarrow> string \<Rightarrow> nat" where
  "digits_value base f s = foldl (\<lambda>n c. base * n + f c) 0 s"

definition hex_value :: "char \<Rightarrow> nat" where
  "hex_value c = (if is_digit c then of_char c - 48 else of_char (lower_char c) - 87)"

definition is_hex :: "char \<Rightarrow> bool" where
  "is_hex c = (is_digit c \<or> lower_char c \<in> set ''abcdef'')"

text \<open>A decimal literal without a sign: digits with an optional fraction and exponent, as an exact
  rational.\<close>

definition decimal_literal :: "string \<Rightarrow> rat option" where
  "decimal_literal s =
     (let whole = takeWhile is_digit s; r = dropWhile is_digit s;
          frac = (case r of c # t \<Rightarrow> if c = CHR ''.'' then takeWhile is_digit t else [] | [] \<Rightarrow> []);
          r1 = (case r of c # t \<Rightarrow> if c = CHR ''.'' then dropWhile is_digit t else r | [] \<Rightarrow> []);
          m = rat_of_nat (digits_value 10 hex_value (whole @ frac)) / 10 ^ length frac
      in if whole = [] \<and> frac = [] then None
         else case r1 of
             [] \<Rightarrow> Some m
           | c # t \<Rightarrow>
               if c \<noteq> CHR ''e'' \<and> c \<noteq> CHR ''E'' then None
               else let neg = starts_with ''-'' t; d = (if neg \<or> starts_with ''+'' t then tl t else t)
                    in if d = [] \<or> \<not> list_all is_digit d then None
                       else Some (if neg then m / 10 ^ digits_value 10 hex_value d else m * 10 ^ digits_value 10 hex_value d))"

definition radix_literal :: "string \<Rightarrow> nat option" where
  "radix_literal s = (case s of
      z # x # ds \<Rightarrow>
        if z \<noteq> CHR ''0'' \<or> ds = [] then None
        else if lower_char x = CHR ''x'' \<and> list_all is_hex ds then Some (digits_value 16 hex_value ds)
        else if lower_char x = CHR ''o'' \<and> list_all (\<lambda>c. c \<in> set ''01234567'') ds then Some (digits_value 8 hex_value ds)
        else if lower_char x = CHR ''b'' \<and> list_all (\<lambda>c. c \<in> set ''01'') ds then Some (digits_value 2 hex_value ds)
        else None
    | _ \<Rightarrow> None)"

definition js_Number :: "string \<Rightarrow> jsnum" where
  "js_Number raw =
     (let s = js_trim raw; neg = starts_with ''-'' s; u = (if neg \<or> starts_with ''+'' s then tl s else s)
      in if s = [] then JFin 0
         else case radix_literal s of
             Some n \<Rightarrow> JFin (of_nat n)
           | None \<Rightarrow>
               if u = ''Infinity'' then (if neg then JNegInf else JPosInf)
               else (case decimal_literal u of Some r \<Rightarrow> JFin (if neg then - r else r) | None \<Rightarrow> JNaN))"

end
