(* ===== verification/Osc_Sanitize.thy ===== *)
theory Osc_Sanitize
  imports Js_Text
begin

text \<open>
  Cleaning untrusted text from terminal output (\<open>lib/src/lib/osc-sanitize.ts\<close>).
\<close>

section \<open>Cleaning\<close>

text \<open>Every maximal run of characters with a property, replaced by a function of the run.\<close>

function replace_runs :: "(char \<Rightarrow> bool) \<Rightarrow> (string \<Rightarrow> string) \<Rightarrow> string \<Rightarrow> string" where
  "replace_runs p f [] = []"
| "replace_runs p f (c # s) =
     (if p c then f (takeWhile p (c # s)) @ replace_runs p f (dropWhile p s) else c # replace_runs p f s)"
  by pat_completeness auto
termination by (relation "measure (\<lambda>(p, f, s). length s)") (auto simp: less_Suc_eq_le length_dropWhile_le)

definition truncateText :: "string \<Rightarrow> nat \<Rightarrow> string" where
  "truncateText input limit = (if length input \<le> limit then input else take limit input)"

definition sanitizeText :: "string \<Rightarrow> nat \<Rightarrow> string option" where
  "sanitizeText input limit =
     (let collapsed = js_trim (replace_runs js_space (\<lambda>_. '' '') (replace_runs is_control (\<lambda>_. '' '') input))
      in if collapsed = [] then None else Some (truncateText collapsed limit))"

text \<open>\<open>/\r\n?/\<close> becomes a line feed.\<close>

fun line_feeds :: "string \<Rightarrow> string" where
  "line_feeds [] = []"
| "line_feeds (c # s) = (if c = return_char then newline # line_feeds (if starts_with [newline] s then tl s else s) else c # line_feeds s)"

definition sanitizeCommandLine :: "string \<Rightarrow> nat \<Rightarrow> string option" where
  "sanitizeCommandLine input limit =
     (let collapsed = js_trim (replace_runs js_space (\<lambda>run. if newline \<in> set run then [newline] else '' '')
            (replace_runs (\<lambda>c. is_control c \<and> c \<noteq> newline) (\<lambda>_. '' '') (line_feeds input)))
      in if collapsed = [] then None else Some (truncateText collapsed limit))"

definition sanitizeClipboardText :: "string \<Rightarrow> string option" where
  "sanitizeClipboardText input =
     (let t = filter (\<lambda>c. \<not> (is_control c \<and> c \<noteq> tab_char \<and> c \<noteq> newline)) (line_feeds input)
      in if t = [] then None else Some t)"

section \<open>What cleaning guarantees\<close>

lemma replace_runs_set:
  assumes "\<And>run. set (f run) \<subseteq> A"
  shows "set (replace_runs p f s) \<subseteq> A \<union> {c \<in> set s. \<not> p c}"
  using assms
proof (induction p f s rule: replace_runs.induct)
  case (2 p f c s)
  have "set (f (takeWhile p (c # s))) \<subseteq> A" using 2(3) by blast
  then show ?case using 2(1,2) [OF _ 2(3)] by (auto dest: set_dropWhileD)
qed simp

lemma truncateText_length: "length (truncateText t n) \<le> n"
  by (simp add: truncateText_def)

lemma truncateText_set: "set (truncateText t n) \<subseteq> set t"
  using set_take_subset [of n t] by (auto simp: truncateText_def)

lemma space_not_control: "\<not> is_control CHR '' ''" "is_control return_char" "is_control newline" "is_control tab_char"
  by code_simp+

lemma sanitizeText_clean:
  assumes "sanitizeText input n = Some t"
  shows "length t \<le> n \<and> (\<forall>c \<in> set t. \<not> is_control c)"
proof -
  let ?a = "replace_runs is_control (\<lambda>_. '' '') input"
  have "set (replace_runs js_space (\<lambda>_. '' '') ?a) \<subseteq> {CHR '' ''} \<union> {c \<in> set ?a. \<not> js_space c}"
    by (rule replace_runs_set) simp
  then have "set (replace_runs js_space (\<lambda>_. '' '') ?a) \<subseteq> {CHR '' ''} \<union> set ?a" by blast
  moreover have "set ?a \<subseteq> {CHR '' ''} \<union> {c \<in> set input. \<not> is_control c}" by (rule replace_runs_set) simp
  ultimately have "\<forall>c \<in> set (replace_runs js_space (\<lambda>_. '' '') ?a). \<not> is_control c" using space_not_control(1) by blast
  then show ?thesis using assms truncateText_length truncateText_set js_trim_set
    unfolding sanitizeText_def Let_def by (auto split: if_splits) blast
qed

lemma line_feeds_set: "return_char \<notin> set (line_feeds s)"
  by (induction s rule: line_feeds.induct) auto

lemma sanitizeCommandLine_clean:
  assumes "sanitizeCommandLine input n = Some t"
  shows "length t \<le> n \<and> (\<forall>c \<in> set t. is_control c \<longrightarrow> c = newline)"
proof -
  let ?p = "\<lambda>c. is_control c \<and> c \<noteq> newline"
  let ?a = "replace_runs ?p (\<lambda>_. '' '') (line_feeds input)"
  let ?b = "replace_runs js_space (\<lambda>run. if newline \<in> set run then [newline] else '' '') ?a"
  have "set ?b \<subseteq> {newline, CHR '' ''} \<union> {c \<in> set ?a. \<not> js_space c}" by (rule replace_runs_set) simp
  then have "set ?b \<subseteq> {newline, CHR '' ''} \<union> set ?a" by blast
  moreover have "set ?a \<subseteq> {CHR '' ''} \<union> {c \<in> set (line_feeds input). \<not> ?p c}" by (rule replace_runs_set) simp
  ultimately have "\<forall>c \<in> set ?b. is_control c \<longrightarrow> c = newline" using space_not_control(1) by blast
  then show ?thesis using assms truncateText_length truncateText_set js_trim_set
    unfolding sanitizeCommandLine_def Let_def by (auto split: if_splits) blast
qed

lemma sanitizeClipboardText_clean:
  "sanitizeClipboardText input = Some t \<Longrightarrow> t \<noteq> [] \<and> (\<forall>c \<in> set t. is_control c \<longrightarrow> c = newline \<or> c = tab_char)"
  by (auto simp: sanitizeClipboardText_def Let_def split: if_splits)

end
