(* ===== verification/Terminal_Decode.thy ===== *)
theory Terminal_Decode
  imports Js_Number Osc_Sanitize
begin

text \<open>
  The decoders of \<open>lib/src/lib/terminal-protocol.ts\<close>: UTF-8 as \<open>TextDecoder\<close> reads it, base64 as \<open>atob\<close> does, percent
  escapes, words quoted by \<open>printf %q\<close> with their ANSI-C escapes, and the escapes of OSC 633. A code
  point beyond U+00FF is one character here, given by a parameter.
\<close>

section \<open>UTF-8\<close>

definition code_point :: "(nat \<Rightarrow> char) \<Rightarrow> nat \<Rightarrow> char" where
  "code_point wide n = (if n < 256 then char_of n else wide n)"

text \<open>The continuation bytes of one character, the first within bounds of its own; an end or a byte out
  of bounds gives U+FFFD, and that byte is read again.\<close>

fun utf8_more :: "nat \<Rightarrow> nat \<Rightarrow> nat \<Rightarrow> nat \<Rightarrow> nat list \<Rightarrow> nat \<times> nat list" where
  "utf8_more 0 lo hi acc bs = (acc, bs)"
| "utf8_more (Suc n) lo hi acc [] = (0xFFFD, [])"
| "utf8_more (Suc n) lo hi acc (b # bs) =
     (if lo \<le> b \<and> b \<le> hi then utf8_more n 0x80 0xBF (64 * acc + (b - 0x80)) bs else (0xFFFD, b # bs))"

definition utf8_first :: "nat \<Rightarrow> nat list \<Rightarrow> nat \<times> nat list" where
  "utf8_first b bs =
     (if b < 0x80 then (b, bs)
      else if 0xC2 \<le> b \<and> b \<le> 0xDF then utf8_more 1 0x80 0xBF (b - 0xC0) bs
      else if 0xE0 \<le> b \<and> b \<le> 0xEF then
        utf8_more 2 (if b = 0xE0 then 0xA0 else 0x80) (if b = 0xED then 0x9F else 0xBF) (b - 0xE0) bs
      else if 0xF0 \<le> b \<and> b \<le> 0xF4 then
        utf8_more 3 (if b = 0xF0 then 0x90 else 0x80) (if b = 0xF4 then 0x8F else 0xBF) (b - 0xF0) bs
      else (0xFFFD, bs))"

lemma utf8_more_length: "utf8_more n lo hi acc bs = (c, r) \<Longrightarrow> length r \<le> length bs"
  by (induction n lo hi acc bs rule: utf8_more.induct) (auto split: if_splits intro: le_SucI)

lemma utf8_first_length: "utf8_first b bs = (c, r) \<Longrightarrow> length r \<le> length bs"
  by (auto simp: utf8_first_def split: if_splits dest: utf8_more_length)

function utf8_points :: "nat list \<Rightarrow> nat list" where
  "utf8_points [] = []"
| "utf8_points (b # bs) = (case utf8_first b bs of (c, r) \<Rightarrow> c # utf8_points r)"
  by pat_completeness auto
termination by (relation "measure length") (auto simp: less_Suc_eq_le dest!: utf8_first_length [OF sym])

text \<open>\<open>TextDecoder.decode\<close> drops a byte order mark.\<close>

definition utf8_decode :: "(nat \<Rightarrow> char) \<Rightarrow> nat list \<Rightarrow> string" where
  "utf8_decode wide bs = map (code_point wide) (utf8_points (if take 3 bs = [0xEF, 0xBB, 0xBF] then drop 3 bs else bs))"

section \<open>Base64\<close>

definition b64_value :: "char \<Rightarrow> nat option" where
  "b64_value c =
     (if is_upper c then Some (of_char c - 65)
      else if is_lower c then Some (of_char c - 71)
      else if is_digit c then Some (of_char c + 4)
      else if c = CHR ''+'' then Some 62
      else if c = CHR ''/'' then Some 63
      else None)"

fun b64_bytes :: "nat list \<Rightarrow> nat list" where
  "b64_bytes (a # b # c # d # r) = [4 * a + b div 16, 16 * (b mod 16) + c div 4, 64 * (c mod 4) + d] @ b64_bytes r"
| "b64_bytes [a, b, c] = [4 * a + b div 16, 16 * (b mod 16) + c div 4]"
| "b64_bytes [a, b] = [4 * a + b div 16]"
| "b64_bytes _ = []"

text \<open>\<open>atob\<close>, on text without whitespace: padding counts only where it completes a group of four.\<close>

definition js_atob :: "string \<Rightarrow> nat list option" where
  "js_atob s =
     (let d = (if length s mod 4 = 0 then (if ends_with ''=='' s then take (length s - 2) s else if ends_with ''='' s then butlast s else s) else s)
      in if length d mod 4 = 1 \<or> list_ex (\<lambda>c. b64_value c = None) d then None
         else Some (b64_bytes (map (\<lambda>c. the (b64_value c)) d)))"

definition decodeBase64 :: "(nat \<Rightarrow> char) \<Rightarrow> string \<Rightarrow> string option" where
  "decodeBase64 wide input =
     (let s = js_trim input; pad = dropWhile (\<lambda>c. b64_value c \<noteq> None) s
      in if pad \<notin> {[], ''='', ''==''} \<or> length s mod 4 = 1 then None
         else map_option (utf8_decode wide) (js_atob s))"

section \<open>Percent escapes\<close>

fun percent_bytes :: "string \<Rightarrow> nat list \<times> string" where
  "percent_bytes (p # a # b # s) =
     (if p = CHR ''%'' \<and> is_hex a \<and> is_hex b then (let (bs, r) = percent_bytes s in (digits_value 16 hex_value [a, b] # bs, r))
      else ([], p # a # b # s))"
| "percent_bytes s = ([], s)"

lemma percent_bytes_length: "percent_bytes s = (bs, r) \<Longrightarrow> length r \<le> length s \<and> (bs \<noteq> [] \<longrightarrow> length r < length s)"
  by (induction s arbitrary: bs r rule: percent_bytes.induct) (auto simp: Let_def split: if_splits prod.splits)

function decodePercentEncoded :: "(nat \<Rightarrow> char) \<Rightarrow> string \<Rightarrow> string" where
  "decodePercentEncoded wide s = (case s of
      [] \<Rightarrow> []
    | c # t \<Rightarrow> (case percent_bytes s of (bs, r) \<Rightarrow>
        if bs = [] then c # decodePercentEncoded wide t else utf8_decode wide bs @ decodePercentEncoded wide r))"
  by pat_completeness auto
termination by (relation "measure (\<lambda>(w, s). length s)") (auto dest!: percent_bytes_length [OF sym])

declare decodePercentEncoded.simps [simp del]

section \<open>Shell words\<close>

definition ANSI_C_ESCAPES :: "(char \<times> char) list" where
  "ANSI_C_ESCAPES = zip ''abeEfnrtv'' [CHR 0x07, CHR 0x08, CHR 0x1B, CHR 0x1B, CHR 0x0C, CHR 0x0A, CHR 0x0D, CHR 0x09, CHR 0x0B]"

definition is_octal :: "char \<Rightarrow> bool" where
  "is_octal c = (c \<in> set ''01234567'')"

text \<open>\<open>ANSI_C_NUMERIC_ESCAPE\<close>: the digits, their base and how many characters the escape spans.\<close>

definition numeric_escape :: "string \<Rightarrow> (string \<times> nat \<times> nat) option" where
  "numeric_escape rest = (case rest of
      [] \<Rightarrow> None
    | c # t \<Rightarrow>
        (let run = (\<lambda>p k s. takeWhile p (take k s));
             limit = map_of [(CHR ''x'', 2), (CHR ''u'', 4), (CHR ''U'', 8)] c
         in case limit of
              Some k \<Rightarrow> (let h = run is_hex k t in if h = [] then None else Some (h, 16, Suc (length h)))
            | None \<Rightarrow> (let d = run is_octal 3 rest in if d = [] then None else Some (d, 8, length d))))"

definition decodeAnsiCEscape :: "(nat \<Rightarrow> char) \<Rightarrow> string \<Rightarrow> string \<times> nat" where
  "decodeAnsiCEscape wide rest = (case numeric_escape rest of
      Some (ds, base, width) \<Rightarrow>
        (let code = digits_value base hex_value ds in (if code \<le> 0x10FFFF then [code_point wide code] else [], width))
    | None \<Rightarrow>
        (case rest of
           [] \<Rightarrow> ([], 1)
         | c # t \<Rightarrow>
             if c = CHR ''c'' \<and> t \<noteq> [] then ([char_of ((of_char (hd t) :: nat) mod 32)], 2)
             else (case map_of ANSI_C_ESCAPES c of Some d \<Rightarrow> ([d], 1) | None \<Rightarrow> ([c], 1))))"

text \<open>The body of a \<open>$'...'\<close> word: its text, and what follows the closing quote.\<close>

function decodeAnsiCQuote :: "(nat \<Rightarrow> char) \<Rightarrow> string \<Rightarrow> string \<times> string" where
  "decodeAnsiCQuote wide [] = ([], [])"
| "decodeAnsiCQuote wide (c # s) =
     (if c = squote then ([], s)
      else if c = bslash then
        (let (t, width) = decodeAnsiCEscape wide (take 9 s); (u, r) = decodeAnsiCQuote wide (drop width s) in (t @ u, r))
      else (let (u, r) = decodeAnsiCQuote wide s in (c # u, r)))"
  by pat_completeness auto
termination by (relation "measure (\<lambda>(w, s). length s)") auto

lemma decodeAnsiCQuote_length: "length (snd (decodeAnsiCQuote wide s)) \<le> length s"
proof (induction s rule: length_induct)
  case (1 s)
  show ?case
  proof (cases s)
    case (Cons c t)
    have "length (snd (decodeAnsiCQuote wide (drop k t))) \<le> Suc (length t)" for k
    proof -
      have "length (snd (decodeAnsiCQuote wide (drop k t))) \<le> length (drop k t)" using 1 [rule_format, of "drop k t"] Cons by simp
      also have "\<dots> \<le> Suc (length t)" by simp
      finally show ?thesis .
    qed
    from this [of 0] this show ?thesis using Cons by (auto simp: Let_def split_beta)
  qed simp
qed

function decodeShellQuotedWord :: "(nat \<Rightarrow> char) \<Rightarrow> string \<Rightarrow> string" where
  "decodeShellQuotedWord wide [] = []"
| "decodeShellQuotedWord wide (c # s) =
     (if c = bslash then take 1 s @ decodeShellQuotedWord wide (drop 1 s)
      else if c = squote then takeWhile (\<lambda>d. d \<noteq> squote) s @ decodeShellQuotedWord wide (tl (dropWhile (\<lambda>d. d \<noteq> squote) s))
      else if c = CHR ''$'' \<and> starts_with [squote] s then
        fst (decodeAnsiCQuote wide (tl s)) @ decodeShellQuotedWord wide (snd (decodeAnsiCQuote wide (tl s)))
      else c # decodeShellQuotedWord wide s)"
  by pat_completeness auto
termination
proof (relation "measure (\<lambda>(w, s). length s)", goal_cases)
  case (3 wide c s)
  then show ?case using length_dropWhile_le [of "\<lambda>d. d \<noteq> squote" s] by simp
next
  case (4 wide c s)
  then show ?case using decodeAnsiCQuote_length [of wide "tl s"] by (simp add: less_Suc_eq_le)
qed auto

section \<open>OSC 633\<close>

fun decodeOsc633Value :: "string \<Rightarrow> string" where
  "decodeOsc633Value (a # b # s) =
     (if a = bslash \<and> b = bslash then bslash # decodeOsc633Value s
      else if a = bslash \<and> b = CHR ''x'' \<and> length s \<ge> 2 \<and> list_all is_hex (take 2 s)
        then char_of (digits_value 16 hex_value (take 2 s)) # decodeOsc633Value (drop 2 s)
      else a # decodeOsc633Value (b # s))"
| "decodeOsc633Value s = s"

end
