(* ===== verification/Css_Color.thy ===== *)
theory Css_Color
  imports Js_Number
begin

text \<open>
  CSS colours (\<open>lib/src/lib/css-color.ts\<close>). The two hexadecimal forms and \<open>rgb()\<close>; a channel is a JavaScript
  number, since \<open>parseFloat\<close> of a lone dot is \<open>NaN\<close>. Separators of \<open>rgb()\<close> are what the regular expression
  can match: whitespace with one comma in it, or whitespace that holds a space.
\<close>

record rgba =
  red :: jsnum
  green :: jsnum
  blue :: jsnum
  alpha :: jsnum

definition hex_number :: "string \<Rightarrow> nat" where
  "hex_number s = digits_value 16 hex_value s"

text \<open>\<open>HEX_SHORT\<close> and \<open>HEX_LONG\<close>: the digits after \<open>#\<close>.\<close>

definition hex_digits :: "string \<Rightarrow> string option" where
  "hex_digits v = (if starts_with ''#'' v \<and> list_all is_hex (tl v) \<and> length (tl v) \<in> {3, 4, 6, 8} then Some (tl v) else None)"

definition num_char :: "char \<Rightarrow> bool" where
  "num_char c = (is_digit c \<or> c = CHR ''.'')"

text \<open>\<open>parseFloat\<close> of digits and dots.\<close>

definition js_parseFloat :: "string \<Rightarrow> jsnum" where
  "js_parseFloat s =
     (let whole = takeWhile is_digit s;
          frac = (if starts_with ''.'' (dropWhile is_digit s) then takeWhile is_digit (tl (dropWhile is_digit s)) else [])
      in if whole = [] \<and> frac = [] then JNaN
         else JFin (rat_of_nat (digits_value 10 hex_value (whole @ frac)) / 10 ^ length frac))"

definition rgb_number :: "string \<Rightarrow> (string \<times> string) option" where
  "rgb_number s = (if takeWhile num_char s = [] then None else Some (takeWhile num_char s, dropWhile num_char s))"

definition rgb_separator :: "string \<Rightarrow> string option" where
  "rgb_separator s =
     (let r = dropWhile js_space s
      in if starts_with '','' r then Some (dropWhile js_space (tl r))
         else if CHR '' '' \<in> set (takeWhile js_space s) then Some r else None)"

text \<open>The optional fourth value and the closing parenthesis.\<close>

definition rgb_tail :: "string \<Rightarrow> string option option" where
  "rgb_tail s =
     (let r = dropWhile js_space s
      in if r = '')'' then Some None
         else if starts_with '','' r \<or> starts_with ''/'' r then
           (case rgb_number (dropWhile js_space (tl r)) of
              None \<Rightarrow> None
            | Some (n, t) \<Rightarrow>
                let u = (if starts_with ''%'' t then tl t else t); m = (if starts_with ''%'' t then n @ ''%'' else n)
                in if dropWhile js_space u = '')'' then Some (Some m) else None)
         else None)"

definition rgb_parts :: "string \<Rightarrow> (string \<times> string \<times> string \<times> string option) option" where
  "rgb_parts v =
     (let l = map lower_char v;
          body = (if starts_with ''rgba('' l then Some (drop 5 v) else if starts_with ''rgb('' l then Some (drop 4 v) else None)
      in Option.bind body (\<lambda>s.
         Option.bind (rgb_number (dropWhile js_space s)) (\<lambda>(r, s1).
         Option.bind (rgb_separator s1) (\<lambda>s2.
         Option.bind (rgb_number s2) (\<lambda>(g, s3).
         Option.bind (rgb_separator s3) (\<lambda>s4.
         Option.bind (rgb_number s4) (\<lambda>(b, s5).
         map_option (\<lambda>a. (r, g, b, a)) (rgb_tail s5))))))))"

definition js_scale :: "jsnum \<Rightarrow> rat \<Rightarrow> jsnum" where
  "js_scale x d = (case x of JFin r \<Rightarrow> JFin (r / d) | _ \<Rightarrow> x)"

definition parseColor :: "string \<Rightarrow> rgba option" where
  "parseColor value =
     (let v = js_trim value
      in case hex_digits v of
           Some h \<Rightarrow>
             (let wide = (6 \<le> length h);
                  part = (\<lambda>i. if wide then take 2 (drop (2 * i) h) else [h ! i, h ! i]);
                  n = (\<lambda>i. JFin (of_nat (hex_number (part i))));
                  opaque = (length h = 3 \<or> length h = 6)
              in Some \<lparr>red = n 0, green = n 1, blue = n 2, alpha = (if opaque then JFin 1 else js_scale (n 3) 255)\<rparr>)
         | None \<Rightarrow> map_option (\<lambda>(r, g, b, a). \<lparr>red = js_parseFloat r, green = js_parseFloat g, blue = js_parseFloat b,
             alpha = (case a of None \<Rightarrow> JFin 1
               | Some t \<Rightarrow> if ends_with ''%'' t then js_scale (js_parseFloat t) 100 else js_parseFloat t)\<rparr>) (rgb_parts v))"

text \<open>A channel in two hexadecimal digits.\<close>

definition channel_hex :: "jsnum \<Rightarrow> string" where
  "channel_hex x = (case x of
      JFin r \<Rightarrow> (let n = nat (max 0 (min 255 (js_round r))) in [hex_digit (n div 16), hex_digit (n mod 16)])
    | JPosInf \<Rightarrow> ''ff''
    | JNegInf \<Rightarrow> ''00''
    | JNaN \<Rightarrow> ''NaN'')"

definition toHex :: "rgba \<Rightarrow> string" where
  "toHex c = ''#'' @ channel_hex (red c) @ channel_hex (green c) @ channel_hex (blue c)"

definition parseColorRgb :: "string \<Rightarrow> (jsnum \<times> jsnum \<times> jsnum) option" where
  "parseColorRgb value = map_option (\<lambda>c. (red c, green c, blue c)) (parseColor value)"

section \<open>A colour in the short or long form is printed back in the long one\<close>

lemma lower_hex_value: "is_hex c \<Longrightarrow> hex_value c < 16"
  by (auto simp: is_hex_def hex_value_def is_digit_def)

lemma hex_channel:
  assumes "is_hex a" "is_hex b"
  shows "channel_hex (JFin (of_nat (hex_number [a, b]))) = [hex_digit (hex_value a), hex_digit (hex_value b)]"
proof -
  have "hex_value a < 16" "hex_value b < 16" using assms lower_hex_value by blast+
  moreover define n where "n = hex_number [a, b]"
  ultimately have n: "n div 16 = hex_value a" "n mod 16 = hex_value b" "n < 256" by (simp_all add: hex_number_def digits_value_def)
  have "js_round (rat_of_nat n) = int n" using js_round_of_int [of "int n"] by simp
  then have "channel_hex (JFin (of_nat n)) = [hex_digit (n div 16), hex_digit (n mod 16)]" using n(3) by (simp add: channel_hex_def)
  then show ?thesis by (simp add: n n_def [symmetric])
qed

end
