(* ===== verification/Terminal_Controls.thy ===== *)
theory Terminal_Controls
  imports Js_Regex
begin

text \<open>
  Control strings in terminal output (\<open>lib/src/lib/terminal-controls.ts\<close>): where one starts and where it
  ends, the filter that drops them from a stream read in chunks, the removal of the other controls,
  and the test whether output paints. The filter works on runs of text; it is proved equal to a
  machine that reads one character at a time, so that how the stream is cut does not matter.
\<close>

abbreviation (input) esc :: char where "esc \<equiv> CHR 0x1B"
abbreviation (input) bel :: char where "bel \<equiv> CHR 0x07"

section \<open>Where a control string starts and ends\<close>

datatype string_kind = OscString | OtherString

definition ESC_INTRODUCERS :: string where "ESC_INTRODUCERS = '']PX^_''"

definition C1_INTRODUCERS :: string where "C1_INTRODUCERS = [CHR 0x90, CHR 0x98, CHR 0x9D, CHR 0x9E, CHR 0x9F]"

definition stringControlKind :: "string \<Rightarrow> string_kind" where
  "stringControlKind introducer =
     (let opener = (if length introducer = 2 then introducer ! 1 else hd introducer)
      in if opener = CHR '']'' \<or> opener = CHR 0x9D then OscString else OtherString)"

text \<open>The introducer at the start of a text, and what follows it.\<close>

definition introducer_here :: "string \<Rightarrow> (string \<times> string) option" where
  "introducer_here s = (case s of
      [] \<Rightarrow> None
    | c # r \<Rightarrow>
        if c \<in> set C1_INTRODUCERS then Some ([c], r)
        else (case r of
            d # t \<Rightarrow> if c = esc \<and> d \<in> set ESC_INTRODUCERS then Some ([c, d], t) else None
          | [] \<Rightarrow> None))"

text \<open>The first introducer: the text before it, the introducer and what follows.\<close>

fun find_introducer :: "string \<Rightarrow> (string \<times> string \<times> string) option" where
  "find_introducer [] = None"
| "find_introducer (c # s) = (case introducer_here (c # s) of
      Some (i, r) \<Rightarrow> Some ([], i, r)
    | None \<Rightarrow> map_option (\<lambda>(g, i, r). (c # g, i, r)) (find_introducer s))"

definition stringControlEndScan :: "string_kind \<Rightarrow> char \<Rightarrow> bool" where
  "stringControlEndScan kind c = (c \<in> {CHR 0x18, CHR 0x1A, esc, CHR 0x9C} \<or> kind = OscString \<and> c = bel)"

section \<open>The filter\<close>

datatype filter_state = Ground | Escape | InOsc | InString | StringEscape

definition string_state :: "string \<Rightarrow> filter_state" where
  "string_state introducer = (if stringControlKind introducer = OscString then InOsc else InString)"

definition kind_of_state :: "filter_state \<Rightarrow> string_kind" where
  "kind_of_state st = (if st = InOsc then OscString else OtherString)"

fun state_rank :: "filter_state \<Rightarrow> nat" where
  "state_rank StringEscape = 2"
| "state_rank Escape = 1"
| "state_rank _ = 0"

lemma introducer_here_length: "introducer_here s = Some (i, r) \<Longrightarrow> s = i @ r \<and> i \<noteq> []"
  by (auto simp: introducer_here_def split: list.splits if_splits)

lemma find_introducer_split: "find_introducer s = Some (g, i, r) \<Longrightarrow> s = g @ i @ r \<and> i \<noteq> [] \<and> introducer_here (i @ r) = Some (i, r)"
proof (induction s arbitrary: g)
  case (Cons c s)
  then show ?case using introducer_here_length [of "c # s"] by (auto split: option.splits)
qed simp

text \<open>The loop of \<open>process\<close>, with the text that is left: the output and the state.\<close>

function filter_loop :: "filter_state \<Rightarrow> string \<Rightarrow> string \<times> filter_state" where
  "filter_loop st [] = ([], st)"
| "filter_loop Ground (c # s) = (case find_introducer (c # s) of
      None \<Rightarrow> if ends_with [esc] (c # s) then (butlast (c # s), Escape) else (c # s, Ground)
    | Some (g, i, r) \<Rightarrow> (let (out, st) = filter_loop (string_state i) r in (g @ out, st)))"
| "filter_loop Escape (c # s) =
     (if c = CHR '']'' then filter_loop InOsc s
      else if c \<in> set ''PX^_'' then filter_loop InString s
      else (let (out, st) = filter_loop Ground (c # s) in (esc # out, st)))"
| "filter_loop InOsc (c # s) =
     (let r = dropWhile (\<lambda>d. \<not> stringControlEndScan OscString d) (c # s)
      in if r = [] then ([], InOsc) else filter_loop (if hd r = esc then StringEscape else Ground) (tl r))"
| "filter_loop InString (c # s) =
     (let r = dropWhile (\<lambda>d. \<not> stringControlEndScan OtherString d) (c # s)
      in if r = [] then ([], InString) else filter_loop (if hd r = esc then StringEscape else Ground) (tl r))"
| "filter_loop StringEscape (c # s) = (if c = bslash then filter_loop Ground s else filter_loop Escape (c # s))"
  by pat_completeness auto
termination
proof (relation "measures [\<lambda>(st, s). length s, \<lambda>(st, s). state_rank st]", goal_cases)
  case (2 c s x x1 y1 y2)
  then show ?case using find_introducer_split [of "c # s"] by (cases x) (force dest!: arg_cong [where f = length])
next
  case (6 c s r)
  then show ?case using length_dropWhile_le [of "\<lambda>d. \<not> stringControlEndScan OscString d" "c # s"] by (cases r) auto
next
  case (7 c s r)
  then show ?case using length_dropWhile_le [of "\<lambda>d. \<not> stringControlEndScan OtherString d" "c # s"] by (cases r) auto
qed auto

definition process_filter :: "filter_state \<Rightarrow> string \<Rightarrow> string \<times> filter_state" where
  "process_filter st input =
     (if st = Ground \<and> \<not> ends_with [esc] input \<and> find_introducer input = None then (input, st)
      else filter_loop st input)"

text \<open>The filter over the successive chunks of a stream.\<close>

fun process_chunks :: "filter_state \<Rightarrow> string list \<Rightarrow> string \<times> filter_state" where
  "process_chunks st [] = ([], st)"
| "process_chunks st (x # xs) = (let (out, st1) = process_filter st x; (rest, st2) = process_chunks st1 xs in (out @ rest, st2))"

section \<open>Removing the other controls\<close>

definition TAIL_CONTROLS :: regex where
  "TAIL_CONTROLS = Alt (seq [Alt (word [esc, CHR ''['']) (one (CHR 0x9B)), Many (code_range 48 63), Many (code_range 32 47), AtEnd])
     (seq [one esc, Many (code_range 32 47), AtEnd])"

definition CSI_SEQUENCE :: regex where
  "CSI_SEQUENCE = seq [Alt (word [esc, CHR ''['']) (one (CHR 0x9B)), Many (code_range 48 63), Many (code_range 32 47), code_range 64 126]"

definition CHARSET_DESIGNATOR :: regex where
  "CHARSET_DESIGNATOR = seq [one esc, of_chars ''()*+'', Class (\<lambda>c. is_letter c \<or> is_digit c)]"

definition ESC_SEQUENCE :: regex where
  "ESC_SEQUENCE = seq [one esc, Many (code_range 32 47), code_range 48 126]"

definition stripPresentationControls :: "string \<Rightarrow> bool \<Rightarrow> string" where
  "stripPresentationControls input boundaries =
     (let boundary = (if boundaries then [newline] else []);
          csi = (\<lambda>m. if boundaries \<and> \<not> ends_with ''m'' m then [newline] else []);
          s1 = replace_first TAIL_CONTROLS [] input;
          s2 = replace_all CSI_SEQUENCE csi s1;
          s3 = replace_all CHARSET_DESIGNATOR (\<lambda>_. []) s2;
          s4 = replace_all ESC_SEQUENCE (\<lambda>_. boundary) s3;
          s5 = concat (map (\<lambda>c. if of_char c \<in> {8, 11, 12 :: nat} \<or> 128 \<le> (of_char c :: nat) \<and> (of_char c :: nat) \<le> 159 then boundary else [c]) s4)
      in filter (\<lambda>c. \<not> ((of_char c :: nat) \<le> 8 \<or> 14 \<le> (of_char c :: nat) \<and> (of_char c :: nat) \<le> 31 \<or> (of_char c :: nat) = 127)) s5)"

definition stripTerminalControls :: "string \<Rightarrow> bool \<Rightarrow> string" where
  "stripTerminalControls input boundaries = stripPresentationControls (fst (process_filter Ground input)) boundaries"

definition stripTerminalControlsBothWays :: "string \<Rightarrow> string \<times> string" where
  "stripTerminalControlsBothWays input =
     (let stringsRemoved = fst (process_filter Ground input)
      in (stripPresentationControls stringsRemoved True, stripPresentationControls stringsRemoved False))"

section \<open>Output that paints\<close>

text \<open>The private prefix, the parameters, the intermediates and the final byte of a CSI sequence.\<close>

record csi_parts =
  cprefix :: string
  cparams :: string
  intermediates :: string
  final :: char

definition csi_param :: "char \<Rightarrow> bool" where
  "csi_param c = (is_digit c \<or> c = CHR '':'' \<or> c = CHR '';'')"

definition csi_intermediate :: "char \<Rightarrow> bool" where
  "csi_intermediate c = (32 \<le> (of_char c :: nat) \<and> (of_char c :: nat) \<le> 47)"

definition csi_tail :: "string \<Rightarrow> string \<Rightarrow> (csi_parts \<times> string) option" where
  "csi_tail pre r = (let r1 = dropWhile csi_param r in
     case dropWhile csi_intermediate r1 of
       f # r2 \<Rightarrow> if 64 \<le> (of_char f :: nat) \<and> (of_char f :: nat) \<le> 126
         then Some (\<lparr>cprefix = pre, cparams = takeWhile csi_param r, intermediates = takeWhile csi_intermediate r1, final = f\<rparr>, r2) else None
     | [] \<Rightarrow> None)"

definition csi_body :: "string \<Rightarrow> (csi_parts \<times> string) option" where
  "csi_body r = (case r of c # t \<Rightarrow> if c \<in> set ''<=>?'' then csi_tail [c] t else csi_tail [] r | [] \<Rightarrow> None)"

definition csi_here :: "string \<Rightarrow> (csi_parts \<times> string) option" where
  "csi_here s = (if starts_with [esc, CHR ''[''] s then csi_body (drop 2 s) else if starts_with [CHR 0x9B] s then csi_body (drop 1 s) else None)"

definition inert_control :: "char \<Rightarrow> bool" where
  "inert_control c =
     (let n = (of_char c :: nat) in n \<le> 9 \<or> 13 \<le> n \<and> n \<le> 26 \<or> 28 \<le> n \<and> n \<le> 31 \<or> 127 \<le> n \<and> n \<le> 131 \<or> 134 \<le> n \<and> n \<le> 159)"

text \<open>\<open>INERT_TOKEN\<close> at the start of a text: the CSI sequence, if it is one, and what follows the token.\<close>

definition inert_token :: "string \<Rightarrow> (csi_parts option \<times> string) option" where
  "inert_token s = (case csi_here s of
      Some (p, r) \<Rightarrow> Some (Some p, r)
    | None \<Rightarrow> (case s of
        a # b # r \<Rightarrow>
          if a = esc \<and> b \<in> set ''78=>'' then Some (None, r)
          else if a = esc \<and> b \<in> set ''()*+'' \<and> (case r of c # _ \<Rightarrow> 48 \<le> (of_char c :: nat) \<and> (of_char c :: nat) \<le> 126 | [] \<Rightarrow> False) then Some (None, tl r)
          else if inert_control a then Some (None, b # r) else None
      | [a] \<Rightarrow> if inert_control a then Some (None, []) else None
      | [] \<Rightarrow> None))"

definition PAINTING_MODES :: "string list" where "PAINTING_MODES = [''5'', ''47'', ''1047'', ''1049'']"

definition INERT_CSI :: "string list" where
  "INERT_CSI = map (\<lambda>c. [c]) ''ABCDEFGHIZ`adefrs'' @ [''>q'', ''?S'', ''?r'', ''?s'']"

definition csiPaints :: "csi_parts \<Rightarrow> bool" where
  "csiPaints p =
     (if intermediates p \<noteq> [] then \<not> (intermediates p = '' '' \<and> final p = CHR ''q'' \<or> intermediates p = ''$'' \<and> final p = CHR ''p'')
      else if final p \<in> set ''mnctu'' then False
      else if final p = CHR ''h'' \<or> final p = CHR ''l'' then cprefix p = ''?'' \<and> (\<exists>m \<in> set (split_on CHR '';'' (cparams p)). m \<in> set PAINTING_MODES)
      else cprefix p @ [final p] \<notin> set INERT_CSI)"

lemma csi_tail_shorter: "csi_tail pre r = Some (p, t) \<Longrightarrow> length t < length r"
proof -
  assume "csi_tail pre r = Some (p, t)"
  then obtain f where "dropWhile csi_intermediate (dropWhile csi_param r) = f # t" by (auto simp: csi_tail_def Let_def split: list.splits if_splits)
  then have "Suc (length t) \<le> length (dropWhile csi_param r)" by (metis length_Cons length_dropWhile_le)
  then show "length t < length r" using length_dropWhile_le [of csi_param r] by simp
qed

lemma csi_here_shorter: "csi_here s = Some (p, r) \<Longrightarrow> length r < length s"
  by (auto simp: csi_here_def csi_body_def split: if_splits list.splits dest!: csi_tail_shorter) (auto dest!: arg_cong [where f = length])

lemma inert_token_shorter: "inert_token s = Some (p, r) \<Longrightarrow> length r < length s"
  by (auto simp: inert_token_def csi_here_shorter split: option.splits list.splits if_splits)

function groundPaints :: "string \<Rightarrow> bool" where
  "groundPaints s = (if s = [] then False
     else case inert_token s of
        None \<Rightarrow> True
      | Some (p, r) \<Rightarrow> (case p of Some q \<Rightarrow> csiPaints q | None \<Rightarrow> False) \<or> groundPaints r)"
  by pat_completeness auto
termination by (relation "measure length") (auto intro: inert_token_shorter)

declare groundPaints.simps [simp del]

definition isDcsQuery :: "string \<Rightarrow> string \<Rightarrow> bool" where
  "isDcsQuery introducer content =
     (introducer \<in> {[esc, CHR ''P''], [CHR 0x90]} \<and> (starts_with ''$q'' content \<or> starts_with ''+q'' content))"

definition isOscImage :: "string \<Rightarrow> bool" where
  "isOscImage content = (\<exists>sub \<in> set [''File='', ''MultipartFile='', ''FilePart='', ''FileEnd'']. starts_with (''1337;'' @ sub) content)"

function outputPaints :: "string \<Rightarrow> bool" where
  "outputPaints s = (if s = [] then False
     else case find_introducer s of
        None \<Rightarrow> groundPaints s
      | Some (g, i, r) \<Rightarrow>
          groundPaints g \<or> (if stringControlKind i = OtherString then \<not> isDcsQuery i r else isOscImage r) \<or>
          (let t = dropWhile (\<lambda>d. \<not> stringControlEndScan (stringControlKind i) d) r
           in t = [] \<or> outputPaints (if hd t \<noteq> esc then tl t else if starts_with [esc, bslash] t then drop 2 t else t)))"
  by pat_completeness auto
termination
proof (relation "measure length", goal_cases)
  case (2 s x g y i r t)
  have "length t \<le> length r" using 2 length_dropWhile_le by auto
  moreover have "length r < length s" using find_introducer_split [of s g i r] 2 by (auto dest!: arg_cong [where f = length] simp: length_greater_0_conv [symmetric] simp del: length_greater_0_conv)
  ultimately show ?case by auto
qed auto

declare outputPaints.simps [simp del]

section \<open>One character at a time\<close>

definition ground_char :: "char \<Rightarrow> string \<times> filter_state" where
  "ground_char c = (if c = esc then ([], Escape) else if c \<in> set C1_INTRODUCERS then ([], string_state [c]) else ([c], Ground))"

definition escape_char :: "char \<Rightarrow> string \<times> filter_state" where
  "escape_char c =
     (if c = CHR '']'' then ([], InOsc) else if c \<in> set ''PX^_'' then ([], InString)
      else (esc # fst (ground_char c), snd (ground_char c)))"

fun filter_char :: "filter_state \<Rightarrow> char \<Rightarrow> string \<times> filter_state" where
  "filter_char Ground c = ground_char c"
| "filter_char Escape c = escape_char c"
| "filter_char InOsc c = ([], if stringControlEndScan OscString c then (if c = esc then StringEscape else Ground) else InOsc)"
| "filter_char InString c = ([], if stringControlEndScan OtherString c then (if c = esc then StringEscape else Ground) else InString)"
| "filter_char StringEscape c = (if c = bslash then ([], Ground) else escape_char c)"

fun filter_run :: "filter_state \<Rightarrow> string \<Rightarrow> string \<times> filter_state" where
  "filter_run st [] = ([], st)"
| "filter_run st (c # s) = (let (out, st1) = filter_char st c; (rest, st2) = filter_run st1 s in (out @ rest, st2))"

lemma filter_run_append:
  "filter_run st (x @ y) = (let (out, st1) = filter_run st x; (rest, st2) = filter_run st1 y in (out @ rest, st2))"
  by (induction x arbitrary: st) (auto simp: split_beta Let_def)

lemma run_escape:
  "d \<notin> set ESC_INTRODUCERS \<Longrightarrow> filter_run Escape (d # s) = (esc # fst (filter_run Ground (d # s)), snd (filter_run Ground (d # s)))"
  by (simp add: ESC_INTRODUCERS_def escape_char_def split_beta Let_def)

lemma esc_not_C1: "esc \<notin> set C1_INTRODUCERS"
  by code_simp

lemma introducer_step:
  assumes "introducer_here s = Some (i, r)"
  shows "filter_run Ground s = filter_run (string_state i) r"
proof -
  consider c where "s = c # r" "i = [c]" "c \<in> set C1_INTRODUCERS" | d where "s = esc # d # r" "i = [esc, d]" "d \<in> set ESC_INTRODUCERS"
    using assms by (auto simp: introducer_here_def split: list.splits if_splits)
  then show ?thesis
  proof cases
    case 1
    then have "c \<noteq> esc" using esc_not_C1 by auto
    then show ?thesis using 1 by (simp add: ground_char_def)
  next
    case 2
    have "escape_char d = ([], string_state [esc, d])"
    proof (cases "d = CHR '']''")
      case True
      then show ?thesis by (simp add: escape_char_def string_state_def stringControlKind_def)
    next
      case False
      moreover have "d \<in> set ''PX^_''" using 2(3) False by (simp add: ESC_INTRODUCERS_def)
      moreover have "d \<noteq> CHR 0x9D" using \<open>d \<in> set ''PX^_''\<close> by auto
      ultimately show ?thesis by (simp add: escape_char_def string_state_def stringControlKind_def)
    qed
    then show ?thesis using 2 by (simp add: ground_char_def)
  qed
qed

lemma no_introducer_step:
  assumes "introducer_here (c # s) = None"
  shows "filter_run Ground (c # s) = (if s = [] \<and> c = esc then ([], Escape) else (c # fst (filter_run Ground s), snd (filter_run Ground s)))"
proof (cases "c = esc")
  case True
  then show ?thesis using assms run_escape
    by (cases s) (auto simp: introducer_here_def ground_char_def esc_not_C1 split_beta Let_def split: if_splits)
next
  case False
  then show ?thesis using assms by (auto simp: introducer_here_def ground_char_def split_beta Let_def split: if_splits)
qed

lemma ground_run:
  "find_introducer s = None \<Longrightarrow> filter_run Ground s = (if ends_with [esc] s then (butlast s, Escape) else (s, Ground))"
  "find_introducer s = Some (g, i, r) \<Longrightarrow> filter_run Ground s = (g @ fst (filter_run (string_state i) r), snd (filter_run (string_state i) r))"
proof (induction s arbitrary: g)
  case (Cons c s)
  have e: "ends_with [esc] (c # s) = (if s = [] then c = esc else ends_with [esc] s)"
    by (cases s rule: rev_cases) (auto simp: ends_with_def)
  { case 1
    then have i: "introducer_here (c # s) = None" "find_introducer s = None" by (auto split: option.splits)
    show ?case using Cons.IH(1) [OF i(2)] no_introducer_step [OF i(1)] e by auto
  next
    case 2
    show ?case
    proof (cases "introducer_here (c # s)")
      case None
      with 2 obtain g' where g: "find_introducer s = Some (g', i, r)" "g = c # g'" by auto
      then have "s \<noteq> []" by auto
      then show ?thesis using Cons.IH(2) [OF g(1)] no_introducer_step [OF None] g(2) by simp
    next
      case (Some p)
      then show ?thesis using 2 introducer_step [of "c # s"] by auto
    qed }
qed (simp_all add: ends_with_def)

lemma run_in_string:
  "st \<in> {InOsc, InString} \<Longrightarrow> dropWhile (\<lambda>d. \<not> stringControlEndScan (kind_of_state st) d) s = [] \<Longrightarrow> filter_run st s = ([], st)"
  "st \<in> {InOsc, InString} \<Longrightarrow> dropWhile (\<lambda>d. \<not> stringControlEndScan (kind_of_state st) d) s = c # r \<Longrightarrow>
   filter_run st s = filter_run (if c = esc then StringEscape else Ground) r"
  by (induction s) (auto simp: kind_of_state_def split_beta Let_def split: if_splits)

lemma filter_loop_run: "filter_loop st s = filter_run st s"
proof (induction st s rule: filter_loop.induct)
  case (2 c s)
  then show ?case using ground_run [of "c # s"] by (auto simp: split_beta Let_def simp del: find_introducer.simps filter_run.simps split: option.split)
next
  case (3 c s)
  then show ?case by (auto simp: escape_char_def split_beta Let_def simp del: filter_loop.simps(2))
next
  case (4 c s)
  then show ?case using run_in_string [of InOsc "c # s"]
    by (cases "dropWhile (\<lambda>d. \<not> stringControlEndScan OscString d) (c # s)") (auto simp: kind_of_state_def simp del: filter_run.simps)
next
  case (5 c s)
  then show ?case using run_in_string [of InString "c # s"]
    by (cases "dropWhile (\<lambda>d. \<not> stringControlEndScan OtherString d) (c # s)") (auto simp: kind_of_state_def simp del: filter_run.simps)
next
  case (6 c s)
  then show ?case by (auto simp: split_beta Let_def)
qed simp

lemma process_filter_run: "process_filter st s = filter_run st s"
  using ground_run(1) [of s] filter_loop_run by (auto simp: process_filter_def)

lemma process_chunks_run: "process_chunks st cs = filter_run st (concat cs)"
  by (induction cs arbitrary: st) (simp_all add: process_filter_run filter_run_append split_beta Let_def)

section \<open>Properties\<close>

text \<open>C36: How the stream is cut does not matter: the filter, which scans runs of text and holds back a split
  introducer or terminator, gives for any chunks the text and the state that reading the whole stream
  one character at a time gives.\<close>

theorem filter_chunks_independent:
  "process_chunks st cs = filter_run st (concat cs) \<and> process_chunks st cs = process_filter st (concat cs)"
  by (simp add: process_chunks_run process_filter_run)

end
