(* ===== verification/Js_Json_Parse.thy ===== *)
theory Js_Json_Parse
  imports Js_Number
begin

text \<open>
  \<open>JSON.parse\<close>, and \<open>JSON.stringify\<close> on any value. A text is read by three mutually recursive functions,
  each of which gives the value and the text that follows; that the text gets shorter is proved before
  termination, on the domain of the functions. Numbers are exact rationals; how one that is not a
  plain integer is printed is a parameter of \<open>json_text\<close>, and the character of a code unit beyond
  U+00FF is a parameter of the parser. What is printed is read back.
\<close>

section \<open>Reading\<close>

definition json_ws :: "string \<Rightarrow> string" where
  "json_ws s = dropWhile (\<lambda>c. c \<in> {CHR '' '', tab_char, newline, return_char}) s"

definition code_unit :: "(nat \<Rightarrow> char) \<Rightarrow> nat \<Rightarrow> char" where
  "code_unit wide n = (if n < 256 then char_of n else wide n)"

text \<open>The character after a backslash, other than \<open>u\<close>.\<close>

definition json_unescape :: "char \<Rightarrow> char option" where
  "json_unescape c = map_of (zip [dquote, bslash, CHR ''/'', CHR ''b'', CHR ''f'', CHR ''n'', CHR ''r'', CHR ''t'']
     [dquote, bslash, CHR ''/'', CHR 0x08, CHR 0x0C, newline, return_char, tab_char]) c"

function json_string :: "(nat \<Rightarrow> char) \<Rightarrow> string \<Rightarrow> (string \<times> string) option" where
  "json_string wide [] = None"
| "json_string wide (c # s) =
     (if c = dquote then Some ([], s)
      else if (of_char c :: nat) < 32 then None
      else if c \<noteq> bslash then map_option (\<lambda>(t, r). (c # t, r)) (json_string wide s)
      else if starts_with ''u'' s then
        (let h = take 4 (tl s) in
         if length h < 4 \<or> \<not> list_all is_hex h then None
         else map_option (\<lambda>(t, r). (code_unit wide (digits_value 16 hex_value h) # t, r)) (json_string wide (drop 5 s)))
      else (case s of
          [] \<Rightarrow> None
        | e # t \<Rightarrow> (case json_unescape e of
            None \<Rightarrow> None
          | Some d \<Rightarrow> map_option (\<lambda>(u, r). (d # u, r)) (json_string wide t))))"
  by pat_completeness auto
termination by (relation "measure (\<lambda>(w, s). length s)") auto

declare json_string.simps [simp del]

text \<open>A number: an optional sign, digits without a leading zero, an optional fraction and exponent.\<close>

definition json_exponent :: "rat \<Rightarrow> string \<Rightarrow> (rat \<times> string) option" where
  "json_exponent m s = (case s of
      [] \<Rightarrow> Some (m, s)
    | c # t \<Rightarrow>
        if c \<noteq> CHR ''e'' \<and> c \<noteq> CHR ''E'' then Some (m, s)
        else let neg = starts_with ''-'' t; d = (if neg \<or> starts_with ''+'' t then tl t else t);
                 k = digits_value 10 hex_value (takeWhile is_digit d)
             in if takeWhile is_digit d = [] then None
                else Some (if neg then m / 10 ^ k else m * 10 ^ k, dropWhile is_digit d))"

definition json_fraction :: "nat \<Rightarrow> string \<Rightarrow> (rat \<times> string) option" where
  "json_fraction whole s =
     (if starts_with ''.'' s then
        let f = takeWhile is_digit (tl s)
        in if f = [] then None
           else json_exponent (rat_of_nat whole + rat_of_nat (digits_value 10 hex_value f) / 10 ^ length f) (dropWhile is_digit (tl s))
      else json_exponent (rat_of_nat whole) s)"

definition json_unsigned :: "string \<Rightarrow> (rat \<times> string) option" where
  "json_unsigned s = (case s of
      [] \<Rightarrow> None
    | c # t \<Rightarrow>
        if c = CHR ''0'' then json_fraction 0 t
        else if is_digit c then json_fraction (digits_value 10 hex_value (takeWhile is_digit s)) (dropWhile is_digit s)
        else None)"

definition json_number :: "string \<Rightarrow> (rat \<times> string) option" where
  "json_number s = (if starts_with ''-'' s then map_option (\<lambda>(x, r). (- x, r)) (json_unsigned (tl s)) else json_unsigned s)"

lemma json_ws_length: "length (json_ws s) \<le> length s"
  by (simp add: json_ws_def length_dropWhile_le)

lemma json_string_shorter: "json_string wide s = Some (t, r) \<Longrightarrow> length r < length s"
proof (induction wide s arbitrary: t rule: json_string.induct)
  case (2 wide c s)
  note ih = 2(1-3)
  have eq: "json_string wide (c # s) = Some (t, r)" by (rule 2(4))
  consider "c = dquote" | "c \<noteq> dquote" "\<not> (of_char c :: nat) < 32" "c \<noteq> bslash"
    | "c = bslash" "starts_with ''u'' s" | "c = bslash" "\<not> starts_with ''u'' s" "c \<noteq> dquote" "\<not> (of_char c :: nat) < 32"
    using eq by (auto simp: json_string.simps dquote_def bslash_def split: if_splits)
  then show ?case
  proof cases
    case 1
    then show ?thesis using eq by (simp add: json_string.simps)
  next
    case 2
    then show ?thesis using eq ih(1) by (auto simp: json_string.simps)
  next
    case 3
    have "\<not> c = dquote" "\<not> (of_char c :: nat) < 32" using 3 by (auto simp: dquote_def bslash_def)
    then show ?thesis using eq 3 ih(2) by (auto simp: json_string.simps Let_def split: if_splits) fastforce
  next
    case 4
    then show ?thesis using eq ih(3) by (auto simp: json_string.simps split: list.splits option.splits) force
  qed
qed (simp add: json_string.simps)

lemma json_exponent_shorter: "json_exponent m s = Some (x, r) \<Longrightarrow> length r \<le> length s"
proof (cases s)
  case (Cons c t)
  have "length (dropWhile is_digit (tl t)) \<le> length t" "length (dropWhile is_digit t) \<le> length t"
    using length_dropWhile_le [of is_digit "tl t"] length_dropWhile_le [of is_digit t] by auto
  then show "json_exponent m s = Some (x, r) \<Longrightarrow> length r \<le> length s"
    using Cons by (auto simp: json_exponent_def Let_def split: if_splits)
qed (simp add: json_exponent_def)

lemma json_fraction_shorter: "json_fraction n s = Some (x, r) \<Longrightarrow> length r \<le> length s"
  using length_dropWhile_le [of is_digit "tl s"]
  by (auto simp: json_fraction_def Let_def split: if_splits dest!: json_exponent_shorter)

lemma json_number_shorter: "json_number s = Some (x, r) \<Longrightarrow> length r < length s"
proof -
  have u: "json_unsigned t = Some (y, r) \<Longrightarrow> length r < length t" for t y
    using length_dropWhile_le [of is_digit "tl t"]
    by (cases t) (auto simp: json_unsigned_def split: if_splits dest!: json_fraction_shorter)
  show "json_number s = Some (x, r) \<Longrightarrow> length r < length s"
    by (cases s) (auto simp: json_number_def split: if_splits dest!: u)
qed

text \<open>Arrays and objects that are open around the value being read: the items so far, or the members so far
  and the key of the next.\<close>

datatype json_frame = ArrFrame "jval list" | ObjFrame "(string \<times> jval) list" string

text \<open>A key with its colon, and what follows.\<close>

definition json_key :: "(nat \<Rightarrow> char) \<Rightarrow> string \<Rightarrow> (string \<times> string) option" where
  "json_key w s =
     (case (if starts_with [dquote] s then json_string w (tl s) else None) of
        None \<Rightarrow> None
      | Some (k, r) \<Rightarrow> if starts_with '':'' (json_ws r) then Some (k, json_ws (tl (json_ws r))) else None)"

definition json_scalar :: "(nat \<Rightarrow> char) \<Rightarrow> string \<Rightarrow> (jval \<times> string) option" where
  "json_scalar w s =
     (if starts_with [dquote] s then map_option (\<lambda>(t, r). (VStr t, r)) (json_string w (tl s))
      else if starts_with ''true'' s then Some (VBool True, drop 4 s)
      else if starts_with ''false'' s then Some (VBool False, drop 5 s)
      else if starts_with ''null'' s then Some (VNull, drop 4 s)
      else map_option (\<lambda>(x, r). (VNum (JFin x), r)) (json_number s))"

lemma json_key_shorter: "json_key w s = Some (k, r) \<Longrightarrow> length r < length s"
proof -
  assume "json_key w s = Some (k, r)"
  then obtain t where t: "json_string w (tl s) = Some (k, t)" and r: "r = json_ws (tl (json_ws t))"
    by (auto simp: json_key_def split: option.splits if_splits)
  have "length r \<le> length t" using json_ws_length [of "tl (json_ws t)"] json_ws_length [of t] r by simp
  then show "length r < length s" using json_string_shorter [OF t] by simp
qed

lemma json_scalar_shorter: "json_scalar w s = Some (v, r) \<Longrightarrow> length r < length s"
  by (cases s) (auto simp: json_scalar_def split: if_splits dest!: json_string_shorter json_number_shorter)

lemma json_ws_head: "json_ws s = c # r \<Longrightarrow> length r < length s"
  using json_ws_length [of s] by simp

lemma json_key_ws: "json_key w (json_ws s) = Some (k, r) \<Longrightarrow> length r < length s"
  using json_key_shorter json_ws_length by (rule less_le_trans)

text \<open>Reading a value, and going on after one.\<close>

function json_expect :: "(nat \<Rightarrow> char) \<Rightarrow> json_frame list \<Rightarrow> string \<Rightarrow> (jval \<times> string) option"
  and json_after :: "(nat \<Rightarrow> char) \<Rightarrow> json_frame list \<Rightarrow> jval \<Rightarrow> string \<Rightarrow> (jval \<times> string) option" where
  "json_expect w fs s =
     (if starts_with ''{'' s then
        (let r = json_ws (tl s) in
         if starts_with ''}'' r then json_after w fs (VObj []) (tl r)
         else (case json_key w r of None \<Rightarrow> None | Some (k, t) \<Rightarrow> json_expect w (ObjFrame [] k # fs) t))
      else if starts_with ''['' s then
        (let r = json_ws (tl s) in
         if starts_with '']'' r then json_after w fs (VArr []) (tl r) else json_expect w (ArrFrame [] # fs) r)
      else (case json_scalar w s of None \<Rightarrow> None | Some (v, r) \<Rightarrow> json_after w fs v r))"
| "json_after w fs v s = (case fs of
      [] \<Rightarrow> Some (v, s)
    | ArrFrame vs # gs \<Rightarrow>
        (let r = json_ws s in
         if starts_with '']'' r then json_after w gs (VArr (vs @ [v])) (tl r)
         else if starts_with '','' r then json_expect w (ArrFrame (vs @ [v]) # gs) (json_ws (tl r))
         else None)
    | ObjFrame kvs k # gs \<Rightarrow>
        (let r = json_ws s in
         if starts_with ''}'' r then json_after w gs (VObj (js_map_set k v kvs)) (tl r)
         else if starts_with '','' r then
           (case json_key w (json_ws (tl r)) of None \<Rightarrow> None | Some (k', t) \<Rightarrow> json_expect w (ObjFrame (js_map_set k v kvs) k' # gs) t)
         else None))"
  by pat_completeness auto
termination
  by (relation "measure (case_sum (\<lambda>(w, fs, s). length s) (\<lambda>(w, fs, v, s). length s))")
    (auto elim!: starts_withE dest!: json_scalar_shorter json_key_ws json_ws_head intro: le_less_trans [OF json_ws_length])

declare json_expect.simps [simp del] json_after.simps [simp del]

definition json_parse :: "(nat \<Rightarrow> char) \<Rightarrow> string \<Rightarrow> jval option" where
  "json_parse w raw = (case json_expect w [] (json_ws raw) of
      None \<Rightarrow> None
    | Some (v, r) \<Rightarrow> if json_ws r = [] then Some v else None)"

section \<open>Printing\<close>

text \<open>A number prints as an integer where it is one below \<open>10 ^ 21\<close>.\<close>

definition num_text :: "(rat \<Rightarrow> string) \<Rightarrow> rat \<Rightarrow> string" where
  "num_text shown r = (if of_int \<lfloor>r\<rfloor> = r \<and> \<bar>\<lfloor>r\<rfloor>\<bar> < 10 ^ 21 then show_int \<lfloor>r\<rfloor> else shown r)"

text \<open>A string in quotes, its characters printed by a given escape; \<open>json_escape\<close> is the language's.\<close>

definition quoted :: "(char \<Rightarrow> string) \<Rightarrow> string \<Rightarrow> string" where
  "quoted e s = dquote # concat (map e s) @ [dquote]"

fun json_text :: "(char \<Rightarrow> string) \<Rightarrow> (rat \<Rightarrow> string) \<Rightarrow> jval \<Rightarrow> string" where
  "json_text e shown VUndef = ''null''"
| "json_text e shown VNull = ''null''"
| "json_text e shown (VBool b) = (if b then ''true'' else ''false'')"
| "json_text e shown (VNum x) = (case x of JFin r \<Rightarrow> num_text shown r | _ \<Rightarrow> ''null'')"
| "json_text e shown (VStr s) = quoted e s"
| "json_text e shown (VArr vs) = ''['' @ join_comma (map (json_text e shown) vs) @ '']''"
| "json_text e shown (VObj kvs) = ''{'' @ join_comma (map (\<lambda>kv. quoted e (fst kv) @ '':'' @ json_text e shown (snd kv))
     (filter (\<lambda>kv. snd kv \<noteq> VUndef) kvs)) @ ''}''"

text \<open>Values that JSON can carry, with a printer of numbers that prints what is read back.\<close>

definition stops :: "string \<Rightarrow> bool" where
  "stops r = (r = [] \<or> hd r \<in> {CHR '','', CHR '']'', CHR ''}''})"

fun json_ok :: "(rat \<Rightarrow> string) \<Rightarrow> jval \<Rightarrow> bool" where
  "json_ok shown VUndef = False"
| "json_ok shown VNull = True"
| "json_ok shown (VBool b) = True"
| "json_ok shown (VNum x) = (case x of JFin r \<Rightarrow> of_int \<lfloor>r\<rfloor> = r \<and> \<bar>\<lfloor>r\<rfloor>\<bar> < 10 ^ 21 \<or> json_number (shown r) = Some (r, []) \<and> list_all (\<lambda>c. \<not> is_control c \<and> (of_char c :: nat) < 127) (shown r) | _ \<Rightarrow> False)"
| "json_ok shown (VStr s) = True"
| "json_ok shown (VArr vs) = list_all (json_ok shown) vs"
| "json_ok shown (VObj kvs) = (distinct (map fst kvs) \<and> list_all (\<lambda>kv. json_ok shown (snd kv)) kvs)"

section \<open>What is printed is read back\<close>

lemma hex_value_digit: "k < 16 \<Longrightarrow> is_hex (hex_digit k) \<and> hex_value (hex_digit k) = k"
proof -
  have "list_all (\<lambda>k. is_hex (hex_digit k) \<and> hex_value (hex_digit k) = k) [0..<16]" by code_simp
  then show "k < 16 \<Longrightarrow> is_hex (hex_digit k) \<and> hex_value (hex_digit k) = k" by (simp add: list_all_iff)
qed

lemma json_string_unicode:
  "json_string w (bslash # ''u00'' @ [hex_digit (of_char c div 16), hex_digit (of_char c mod 16)] @ s) =
     map_option (\<lambda>(t, r). (c # t, r)) (json_string w s)"
proof -
  have small: "(of_char c :: nat) < 256" by (rule nat_of_char_less_256)
  then have "of_char c div 16 < (16 :: nat)" "of_char c mod 16 < (16 :: nat)" by linarith+
  then have "is_hex (hex_digit (of_char c div 16)) \<and> hex_value (hex_digit (of_char c div 16)) = of_char c div 16"
    "is_hex (hex_digit (of_char c mod 16)) \<and> hex_value (hex_digit (of_char c mod 16)) = of_char c mod 16"
    using hex_value_digit by blast+
  moreover have "is_hex CHR ''0''" "hex_value CHR ''0'' = 0" by code_simp+
  moreover have "16 * (of_char c div 16) + of_char c mod 16 = (of_char c :: nat)" by simp
  ultimately show ?thesis using small
    by (subst json_string.simps) (simp add: dquote_def bslash_def digits_value_def code_unit_def)
qed

lemma json_string_escape: "json_string w (json_escape c @ s) = map_option (\<lambda>(t, r). (c # t, r)) (json_string w s)"
proof -
  have short: "json_string w (bslash # e # s) = map_option (\<lambda>(t, r). (the (json_unescape e) # t, r)) (json_string w s)"
    if "json_unescape e \<noteq> None" "e \<noteq> CHR ''u''" for e
    using that by (subst json_string.simps) (auto simp: dquote_def bslash_def)
  show ?thesis
  proof (cases "c \<in> {dquote, bslash, CHR 0x08, CHR 0x0C, CHR 0x0A, CHR 0x0D, CHR 0x09}")
    case True
    then show ?thesis
      by (elim insertE) (simp_all add: json_escape_def short [unfolded bslash_def] json_unescape_def dquote_def bslash_def)
  next
    case False
    then show ?thesis
    proof (cases "(of_char c :: nat) < 32")
      case True
      then show ?thesis using False json_string_unicode [of w c s] by (simp add: json_escape_def)
    next
      case big: False
      then have "json_escape c = [c]" using False by (simp add: json_escape_def)
      then show ?thesis using False big by (simp add: json_string.simps)
    qed
  qed
qed



text \<open>Digits that print a number give its value.\<close>

lemma digits_value_append: "digits_value b f (s @ [c]) = b * digits_value b f s + f c"
  by (simp add: digits_value_def)

lemma show_nat_digits: "show_nat n \<noteq> [] \<and> list_all is_digit (show_nat n) \<and> digits_value 10 hex_value (show_nat n) = n"
proof (induction n rule: show_nat.induct)
  case (1 n)
  have d: "is_digit (char_of (48 + k)) \<and> hex_value (char_of (48 + k)) = k" if "k < 10" for k :: nat
    using that by (simp add: is_digit_def hex_value_def of_char_of)
  show ?case
  proof (cases "n < 10")
    case True
    then show ?thesis using d by (subst (1 2 3) show_nat.simps) (simp add: digits_value_def)
  next
    case False
    then have s: "show_nat n = show_nat (n div 10) @ [char_of (48 + n mod 10)]" by (subst show_nat.simps) simp
    show ?thesis unfolding s digits_value_append using 1 False d [of "n mod 10"] by simp
  qed
qed

lemma show_nat_zero: "show_nat n = CHR ''0'' # t \<Longrightarrow> n = 0 \<and> t = []"
proof (induction n arbitrary: t rule: show_nat.induct)
  case (1 n)
  have c: "char_of (48 + k) = CHR ''0'' \<longleftrightarrow> k = 0" if "k < 10" for k :: nat
  proof -
    have "list_all (\<lambda>k. (char_of (48 + k) = CHR ''0'') = (k = 0)) [0..<10]" by code_simp
    then show ?thesis using that by (simp add: list_all_iff)
  qed
  show ?case
  proof (cases "n < 10")
    case True
    then show ?thesis using 1(2) c by (subst (asm) show_nat.simps) auto
  next
    case False
    then have "show_nat (n div 10) @ [char_of (48 + n mod 10)] = CHR ''0'' # t" using 1(2) by (subst (asm) show_nat.simps) simp
    then obtain u where "show_nat (n div 10) = CHR ''0'' # u" using show_nat_digits [of "n div 10"] by (cases "show_nat (n div 10)") auto
    with 1(1) False show ?thesis by fastforce
  qed
qed

lemma stops_cases: "stops r \<Longrightarrow> r = [] \<or> (\<exists>t. r = CHR '','' # t) \<or> (\<exists>t. r = CHR '']'' # t) \<or> (\<exists>t. r = CHR ''}'' # t)"
  by (cases r) (auto simp: stops_def)

lemma json_unsigned_show: "stops r \<Longrightarrow> json_unsigned (show_nat n @ r) = Some (rat_of_nat n, r)"
proof -
  assume r: "stops r"
  have t: "takeWhile is_digit r = []" "dropWhile is_digit r = r" and e: "json_exponent x r = Some (x, r)" "\<not> starts_with ''.'' r" for x
    using stops_cases [OF r] by (auto simp: json_exponent_def is_digit_def)
  obtain c u where s: "show_nat n = c # u" using show_nat_digits [of n] by (cases "show_nat n") auto
  have "takeWhile is_digit (show_nat n @ r) = show_nat n" "dropWhile is_digit (show_nat n @ r) = r"
    using show_nat_digits [of n] t by (simp_all add: list_all_iff)
  then show ?thesis using s show_nat_digits [of n] show_nat_zero [of n u] e
    by (auto simp: json_unsigned_def json_fraction_def split: if_splits)
qed

lemma json_number_show: "stops r \<Longrightarrow> json_number (show_int i @ r) = Some (of_int i, r)"
proof -
  assume r: "stops r"
  obtain c u where "show_nat (nat i) = c # u" "is_digit c" using show_nat_digits [of "nat i"] by (cases "show_nat (nat i)") auto
  then have "\<not> starts_with ''-'' (show_nat (nat i) @ r)" by (auto simp: is_digit_def)
  then show ?thesis using json_unsigned_show [OF r] by (auto simp: json_number_def show_int_def)
qed

lemma digits_extend: "stops r \<Longrightarrow> takeWhile is_digit (s @ r) = takeWhile is_digit s \<and> dropWhile is_digit (s @ r) = dropWhile is_digit s @ r"
  by (induction s) (auto simp: is_digit_def dest!: stops_cases)

lemma starts_extend: "stops r \<Longrightarrow> c \<notin> {CHR '','', CHR '']'', CHR ''}''} \<Longrightarrow> starts_with [c] (s @ r) = starts_with [c] s"
  by (cases s) (auto dest!: stops_cases)

lemma json_exponent_extend: "json_exponent m s = Some (x, t) \<Longrightarrow> stops r \<Longrightarrow> json_exponent m (s @ r) = Some (x, t @ r)"
proof (cases s)
  case (Cons c u)
  assume "json_exponent m s = Some (x, t)" "stops r"
  then show ?thesis using Cons digits_extend [of r u] digits_extend [of r "tl u"] starts_extend [of r _ u]
    by (cases u) (auto simp: json_exponent_def Let_def split: if_splits)
qed (auto simp: json_exponent_def dest!: stops_cases)

lemma json_fraction_extend: "json_fraction n s = Some (x, t) \<Longrightarrow> stops r \<Longrightarrow> json_fraction n (s @ r) = Some (x, t @ r)"
proof (cases "starts_with ''.'' s")
  case True
  then obtain u where u: "s = CHR ''.'' # u" by (auto elim!: starts_withE)
  assume "json_fraction n s = Some (x, t)" "stops r"
  then show ?thesis using digits_extend [of r u] json_exponent_extend [of _ "dropWhile is_digit u" x t r]
    by (simp add: json_fraction_def Let_def u split: if_splits)
next
  case False
  assume "json_fraction n s = Some (x, t)" "stops r"
  then show ?thesis using False starts_extend [of r "CHR ''.''" s] json_exponent_extend [of _ s x t r]
    by (simp add: json_fraction_def)
qed

lemma json_unsigned_extend: "json_unsigned s = Some (x, t) \<Longrightarrow> stops r \<Longrightarrow> json_unsigned (s @ r) = Some (x, t @ r)"
  using digits_extend [of r "tl s"]
  by (cases s) (auto simp: json_unsigned_def split: if_splits intro!: json_fraction_extend)

lemma json_number_extend: "json_number s = Some (x, t) \<Longrightarrow> stops r \<Longrightarrow> json_number (s @ r) = Some (x, t @ r)"
proof (cases "starts_with ''-'' s")
  case True
  then obtain u where u: "s = CHR ''-'' # u" by (auto elim!: starts_withE)
  assume "json_number s = Some (x, t)" and r: "stops r"
  then obtain y where "json_unsigned u = Some (y, t)" "x = - y" using u by (auto simp: json_number_def)
  then show ?thesis using json_unsigned_extend [OF _ r, of u] by (simp add: json_number_def u)
next
  case False
  assume "json_number s = Some (x, t)" "stops r"
  then show ?thesis using False starts_extend [of r "CHR ''-''" s] json_unsigned_extend [of s x t r]
    by (simp add: json_number_def)
qed

lemma json_number_head: "json_number s = Some z \<Longrightarrow> \<exists>c t. s = c # t \<and> (is_digit c \<or> c = CHR ''-'')"
  by (cases s) (auto simp: json_number_def json_unsigned_def is_digit_def split: if_splits)

lemma num_text_number:
  "json_ok shown (VNum x) \<Longrightarrow> \<exists>q. x = JFin q \<and> (\<forall>r. stops r \<longrightarrow> json_number (num_text shown q @ r) = Some (q, r))"
proof -
  assume ok: "json_ok shown (VNum x)"
  then obtain q where x: "x = JFin q" by (cases x) auto
  have "json_number (num_text shown q @ r) = Some (q, r)" if "stops r" for r
  proof (cases "of_int \<lfloor>q\<rfloor> = q \<and> \<bar>\<lfloor>q\<rfloor>\<bar> < 10 ^ 21")
    case True
    then show ?thesis using json_number_show [OF that, of "\<lfloor>q\<rfloor>"] by (simp add: num_text_def)
  next
    case False
    then show ?thesis using ok x json_number_extend [OF _ that] by (auto simp: num_text_def)
  qed
  with x show ?thesis by blast
qed

definition member_text :: "(char \<Rightarrow> string) \<Rightarrow> (rat \<Rightarrow> string) \<Rightarrow> string \<times> jval \<Rightarrow> string" where
  "member_text e shown kv = quoted e (fst kv) @ CHR '':'' # json_text e shown (snd kv)"

text \<open>A way of escaping characters that the reader undoes, and what follows for whole texts.\<close>

locale json_escaping =
  fixes w :: "nat \<Rightarrow> char" and e :: "char \<Rightarrow> string"
  assumes escape_read: "json_string w (e c @ s) = map_option (\<lambda>(t, r). (c # t, r)) (json_string w s)"
begin

lemma json_string_quote: "json_string w (concat (map e s) @ dquote # r) = Some (s, r)"
  by (induction s) (simp_all add: escape_read, simp add: json_string.simps)

lemma json_text_head:
  assumes "json_ok shown v"
  shows "\<exists>c t. json_text e shown v = c # t \<and> c \<notin> {CHR '' '', tab_char, newline, return_char, CHR '']'', CHR ''}''}"
proof (cases v)
  case (VNum x)
  then obtain q where "x = JFin q" "json_number (num_text shown q) = Some (q, [])"
    using num_text_number [of shown x] assms by (force simp: stops_def)
  then show ?thesis using VNum json_number_head by (fastforce simp: is_digit_def)
qed (use assms in \<open>auto simp: quoted_def dquote_def\<close>)

lemma json_ws_text: "json_ok shown v \<Longrightarrow> json_ws (json_text e shown v @ r) = json_text e shown v @ r"
  using json_text_head [of shown v] by (auto simp: json_ws_def)

lemma json_ws_mark: "c \<in> {CHR '','', CHR '']'', CHR ''}'', CHR '':'', dquote} \<Longrightarrow> json_ws (c # s) = c # s"
  by (auto simp: json_ws_def dquote_def)

lemma json_key_quote: "json_ok shown v \<Longrightarrow> json_key w (quoted e k @ CHR '':'' # json_text e shown v @ r) = Some (k, json_text e shown v @ r)"
  by (simp add: json_key_def quoted_def json_string_quote json_ws_mark json_ws_text)

text \<open>The items of an array and the members of an object, given that each is read back.\<close>

lemma json_items_text:
  assumes "\<And>v fs r. v \<in> set (v0 # vs) \<Longrightarrow> stops r \<Longrightarrow> json_expect w fs (json_text e shown v @ r) = json_after w fs v r"
    and "list_all (json_ok shown) (v0 # vs)"
  shows "json_expect w (ArrFrame us # fs) (join_comma (map (json_text e shown) (v0 # vs)) @ CHR '']'' # r) =
    json_after w fs (VArr (us @ v0 # vs)) r"
  using assms
proof (induction vs arbitrary: v0 us)
  case Nil
  then show ?case by (simp add: stops_def json_after.simps [of w "_ # _"] json_ws_mark)
next
  case (Cons v1 vs)
  let ?r = "join_comma (map (json_text e shown) (v1 # vs)) @ CHR '']'' # r"
  have "json_expect w (ArrFrame us # fs) (json_text e shown v0 @ CHR '','' # ?r) = json_after w (ArrFrame us # fs) v0 (CHR '','' # ?r)"
    by (rule Cons.prems(1)) (simp_all add: stops_def)
  also have "\<dots> = json_expect w (ArrFrame (us @ [v0]) # fs) ?r"
    using json_ws_text [of shown v1] Cons.prems(2) by (simp add: json_after.simps [of w "_ # _"] json_ws_mark)
  also have "\<dots> = json_after w fs (VArr ((us @ [v0]) @ v1 # vs)) r" using Cons.prems by (intro Cons.IH) auto
  finally show ?case by simp
qed

lemma json_members_text:
  assumes "\<And>v fs r. v \<in> snd ` set (kv0 # kvs) \<Longrightarrow> stops r \<Longrightarrow> json_expect w fs (json_text e shown v @ r) = json_after w fs v r"
    and "list_all (\<lambda>kv. json_ok shown (snd kv)) (kv0 # kvs)" "distinct (map fst (acc @ kv0 # kvs))"
  shows "\<exists>k t. json_key w (join_comma (map (member_text e shown) (kv0 # kvs)) @ CHR ''}'' # r) = Some (k, t) \<and>
    json_expect w (ObjFrame acc k # fs) t = json_after w fs (VObj (acc @ kv0 # kvs)) r"
  using assms
proof (induction kvs arbitrary: kv0 acc)
  case Nil
  then show ?case using json_key_quote [of shown "snd kv0" "fst kv0"]
    by (auto simp: member_text_def stops_def json_after.simps [of w "_ # _"] json_ws_mark js_map_set_new)
next
  case (Cons kv1 kvs)
  obtain k0 v0 where kv0: "kv0 = (k0, v0)" by (cases kv0)
  let ?r = "join_comma (map (member_text e shown) (kv1 # kvs)) @ CHR ''}'' # r"
  have "\<exists>k t. json_key w ?r = Some (k, t) \<and> json_expect w (ObjFrame (acc @ [kv0]) k # fs) t = json_after w fs (VObj ((acc @ [kv0]) @ kv1 # kvs)) r"
    using Cons.prems by (intro Cons.IH) auto
  then obtain k t where k: "json_key w ?r = Some (k, t)"
    and t: "json_expect w (ObjFrame (acc @ [kv0]) k # fs) t = json_after w fs (VObj (acc @ kv0 # kv1 # kvs)) r" by auto
  have "json_key w (quoted e k0 @ CHR '':'' # json_text e shown v0 @ CHR '','' # ?r) = Some (k0, json_text e shown v0 @ CHR '','' # ?r)"
    using Cons.prems(2) kv0 by (intro json_key_quote) simp
  moreover have "json_expect w (ObjFrame acc k0 # fs) (json_text e shown v0 @ CHR '','' # ?r) = json_after w (ObjFrame acc k0 # fs) v0 (CHR '','' # ?r)"
    by (rule Cons.prems(1)) (auto simp: stops_def kv0)
  moreover have "json_ws ?r = ?r" by (simp add: member_text_def quoted_def json_ws_mark)
  then have "json_after w (ObjFrame acc k0 # fs) v0 (CHR '','' # ?r) = json_after w fs (VObj (acc @ kv0 # kv1 # kvs)) r"
    using k t Cons.prems(3) kv0 by (simp add: json_after.simps [of w "_ # _"] json_ws_mark js_map_set_new)
  moreover have "join_comma (map (member_text e shown) (kv0 # kv1 # kvs)) @ CHR ''}'' # r =
      quoted e k0 @ CHR '':'' # json_text e shown v0 @ CHR '','' # ?r"
    by (simp add: member_text_def [of e shown "(k0, v0)"] kv0)
  ultimately show ?case by metis
qed

lemma json_expect_text: "json_ok shown v \<Longrightarrow> stops r \<Longrightarrow> json_expect w fs (json_text e shown v @ r) = json_after w fs v r"
proof (induction v arbitrary: fs r)
  case (VNum x)
  then obtain q where q: "x = JFin q" "json_number (num_text shown q @ r) = Some (q, r)" using num_text_number by blast
  then obtain c t where c: "num_text shown q @ r = c # t" "is_digit c \<or> c = CHR ''-''" using json_number_head by blast
  then have n: "c \<notin> {dquote, CHR ''t'', CHR ''f'', CHR ''n'', CHR ''{'', CHR ''[''}" by (auto simp: is_digit_def dquote_def)
  then have "json_scalar w (c # t) = Some (VNum x, r)" using q c(1) by (auto simp: json_scalar_def)
  then show ?case using q c(1) n by (subst json_expect.simps) auto
next
  case (VStr s)
  then show ?case by (simp add: json_expect.simps json_scalar_def quoted_def dquote_def json_string_quote [unfolded dquote_def])
next
  case (VArr vs)
  show ?case
  proof (cases vs)
    case Nil
    then show ?thesis by (simp add: json_expect.simps json_ws_mark)
  next
    case (Cons v0 us)
    have ok: "list_all (json_ok shown) (v0 # us)" using VArr.prems(1) Cons by simp
    have "json_expect w (ArrFrame [] # fs) (join_comma (map (json_text e shown) (v0 # us)) @ CHR '']'' # r) = json_after w fs (VArr ([] @ v0 # us)) r"
      using VArr.IH ok Cons by (intro json_items_text) (auto simp: list_all_iff)
    moreover have "json_ws (join_comma (map (json_text e shown) (v0 # us)) @ CHR '']'' # r) = join_comma (map (json_text e shown) (v0 # us)) @ CHR '']'' # r"
      using ok json_ws_text [of shown v0] by simp
    moreover have "\<not> starts_with '']'' (join_comma (map (json_text e shown) (v0 # us)) @ CHR '']'' # r)"
      using ok json_text_head [of shown v0] by auto
    ultimately show ?thesis using Cons by (subst json_expect.simps) (simp del: join_comma.simps)
  qed
next
  case (VObj kvs)
  have f: "filter (\<lambda>kv. snd kv \<noteq> VUndef) kvs = kvs" using VObj.prems(1) by (auto simp: list_all_iff intro!: filter_True)
  show ?case
  proof (cases kvs)
    case Nil
    then show ?thesis by (simp add: json_expect.simps json_ws_mark)
  next
    case (Cons kv0 us)
    let ?r = "join_comma (map (member_text e shown) (kv0 # us)) @ CHR ''}'' # r"
    have "\<exists>k t. json_key w ?r = Some (k, t) \<and> json_expect w (ObjFrame [] k # fs) t = json_after w fs (VObj ([] @ kv0 # us)) r"
      using VObj.IH VObj.prems(1) Cons by (intro json_members_text) (force simp: list_all_iff)+
    moreover have "json_ws ?r = ?r" "\<not> starts_with ''}'' ?r" by (simp_all add: member_text_def quoted_def json_ws_mark dquote_def)
    ultimately show ?thesis using Cons f by (subst json_expect.simps) (auto simp: member_text_def [abs_def] simp del: join_comma.simps)
  qed
qed (auto simp: json_expect.simps json_scalar_def dquote_def)

text \<open>Every value JSON can carry is read back from its text.\<close>

lemma json_parse_text: "json_ok shown v \<Longrightarrow> json_parse w (json_text e shown v) = Some v"
  using json_expect_text [of shown v "[]" "[]"] json_ws_text [of shown v "[]"]
  by (simp add: json_parse_def stops_def json_after.simps json_ws_def)

end

interpretation plain_json: json_escaping w json_escape for w
  by unfold_locales (rule json_string_escape)

text \<open>The characters of the strings in a value. Where they are printed without controls, so is the whole
  text.\<close>

fun json_chars :: "jval \<Rightarrow> string" where
  "json_chars (VStr s) = s"
| "json_chars (VArr vs) = concat (map json_chars vs)"
| "json_chars (VObj kvs) = concat (map (\<lambda>kv. fst kv @ json_chars (snd kv)) kvs)"
| "json_chars _ = []"

lemma set_join_comma: "set (join_comma xs) \<subseteq> insert CHR '','' (\<Union> (set ` set xs))"
  by (cases xs) auto

lemma show_int_chars: "c \<in> set (show_int i) \<Longrightarrow> is_digit c \<or> c = CHR ''-''"
  using show_nat_digits [of "nat i"] show_nat_digits [of "nat (- i)"] by (auto simp: show_int_def list_all_iff split: if_splits)

definition plain_char :: "char \<Rightarrow> bool" where
  "plain_char c = (\<not> is_control c \<and> (of_char c :: nat) < 127)"

lemma num_text_chars: "json_ok shown (VNum x) \<Longrightarrow> c \<in> set (json_text e shown (VNum x)) \<Longrightarrow> plain_char c"
  by (cases x) (auto simp: num_text_def plain_char_def is_control_def is_digit_def list_all_iff split: if_splits dest!: show_int_chars)

lemma json_text_chars:
  "json_ok shown v \<Longrightarrow> c \<in> set (json_text e shown v) \<Longrightarrow> plain_char c \<or> (\<exists>d \<in> set (json_chars v). c \<in> set (e d))"
proof (induction v)
  case (VStr s)
  then show ?case by (auto simp: quoted_def plain_char_def is_control_def dquote_def)
next
  case (VArr vs)
  then have "c \<in> set ''[],'' \<or> (\<exists>v \<in> set vs. c \<in> set (json_text e shown v))"
    using set_join_comma [of "map (json_text e shown) vs"] by auto
  then show ?case
  proof
    assume "\<exists>v \<in> set vs. c \<in> set (json_text e shown v)"
    then show ?case using VArr by (fastforce simp: list_all_iff)
  qed (auto simp: plain_char_def is_control_def)
next
  case (VObj kvs)
  then have "c \<in> set ''{},:'' \<or> (\<exists>kv \<in> set kvs. c \<in> set (quoted e (fst kv)) \<or> c \<in> set (json_text e shown (snd kv)))"
    using set_join_comma [of "map (\<lambda>kv. quoted e (fst kv) @ '':'' @ json_text e shown (snd kv)) (filter (\<lambda>kv. snd kv \<noteq> VUndef) kvs)"] by fastforce
  then consider "c \<in> set ''{},:''" | kv where "kv \<in> set kvs" "c \<in> set (quoted e (fst kv))"
    | kv where "kv \<in> set kvs" "c \<in> set (json_text e shown (snd kv))" by blast
  then show ?case
  proof cases
    case 1
    then show ?thesis by (auto simp: plain_char_def is_control_def)
  next
    case (2 kv)
    then show ?thesis by (auto simp: quoted_def plain_char_def is_control_def dquote_def)
  next
    case (3 kv)
    moreover have "json_ok shown (snd kv)" using VObj.prems(1) 3(1) by (auto simp: list_all_iff)
    ultimately have "plain_char c \<or> (\<exists>d \<in> set (json_chars (snd kv)). c \<in> set (e d))"
      using VObj.IH [OF 3(1) snds.intros] by blast
    then show ?thesis using 3(1) by auto
  qed
next
  case (VNum x)
  then show ?case using num_text_chars by blast
qed (auto simp: plain_char_def is_control_def split: if_splits)

end
