(* ===== verification/Tool_Osc.thy ===== *)
theory Tool_Osc
  imports Js_Json_Parse Osc_Sanitize Terminal_Controls
begin

text \<open>
  OSC 367, the reports a Tool writes to its terminal and its host reads
  (\<open>dor-tools-lib/src/osc.ts\<close>, \<open>dor-tools-lib/src/sanitize.ts\<close>): announcements, unsaved state, requests to open a
  path, and the payload a stopping Tool leaves. A throw of a writer is \<open>Inl\<close>. An argument the caller
  omits is \<open>undefined\<close>. The readers take the characters beyond U+00FF of \<open>JSON.parse\<close>, the writers the
  printer of numbers of \<open>JSON.stringify\<close>.
\<close>

section \<open>Reading\<close>

definition isRecord :: "jval \<Rightarrow> bool" where
  "isRecord v = (case v of VObj _ \<Rightarrow> True | _ \<Rightarrow> False)"

text \<open>The package's own copy of the sanitizer.\<close>

definition tools_sanitizeText :: "string \<Rightarrow> nat \<Rightarrow> string option" where
  "tools_sanitizeText input limit =
     (let collapsed = js_trim (replace_runs js_space (\<lambda>_. '' '') (replace_runs is_control (\<lambda>_. '' '') input))
      in if collapsed = [] then None else Some (if length collapsed \<le> limit then collapsed else take limit collapsed))"

definition is_bool :: "jval \<Rightarrow> bool" where
  "is_bool v = (case v of VBool _ \<Rightarrow> True | _ \<Rightarrow> False)"

definition TOOL_PAYLOAD_LIMIT :: nat where "TOOL_PAYLOAD_LIMIT = 4096"
definition NAME_LIMIT :: nat where "NAME_LIMIT = 200"
definition KEY_ELEMENT_LIMIT :: nat where "KEY_ELEMENT_LIMIT = 512"
definition KEY_ELEMENTS_LIMIT :: nat where "KEY_ELEMENTS_LIMIT = 8"
definition OPEN_PATH_LIMIT :: nat where "OPEN_PATH_LIMIT = 2048"

datatype persist_policy = Respawn | Never

record tool_announce =
  a_port :: "int option"
  a_path :: "string option"
  a_name :: "string option"
  a_key :: "string list option"
  a_dehydrate :: bool
  a_persist :: "persist_policy option"

definition sanitize :: "jval \<Rightarrow> nat \<Rightarrow> string option" where
  "sanitize value limit = (case value of VStr s \<Rightarrow> tools_sanitizeText s limit | _ \<Rightarrow> None)"

definition readPort :: "jval \<Rightarrow> int option" where
  "readPort value = (case value of
      VNum x \<Rightarrow> (case js_integer x of Some n \<Rightarrow> if 1 \<le> n \<and> n \<le> 65535 then Some n else None | None \<Rightarrow> None)
    | _ \<Rightarrow> None)"

fun read_elements :: "jval list \<Rightarrow> string list option" where
  "read_elements [] = Some []"
| "read_elements (v # vs) = (case sanitize v KEY_ELEMENT_LIMIT of
      None \<Rightarrow> None
    | Some s \<Rightarrow> map_option (\<lambda>ss. s # ss) (read_elements vs))"

definition readKey :: "jval \<Rightarrow> string list option" where
  "readKey value = (case value of
      VArr vs \<Rightarrow> if vs = [] \<or> length vs > KEY_ELEMENTS_LIMIT then None else read_elements vs
    | _ \<Rightarrow> None)"

definition parseToolPayload :: "(nat \<Rightarrow> char) \<Rightarrow> string \<Rightarrow> string \<Rightarrow> jval option" where
  "parseToolPayload w content verb =
     (if \<not> starts_with (verb @ '';'') content then None
      else let raw = drop (length verb + 1) content
           in if raw = [] \<or> length raw > TOOL_PAYLOAD_LIMIT then None
              else (case json_parse w raw of Some p \<Rightarrow> if isRecord p then Some p else None | None \<Rightarrow> None))"

definition validToolServePath :: "jval \<Rightarrow> bool" where
  "validToolServePath value = (case value of
      VStr s \<Rightarrow> length s \<le> 2048 \<and> starts_with ''/'' s \<and> \<not> starts_with ''//'' s \<and>
        list_all (\<lambda>c. \<not> (c = bslash \<or> (of_char c :: nat) \<le> 32 \<or> 127 \<le> (of_char c :: nat) \<and> (of_char c :: nat) \<le> 159)) s
    | _ \<Rightarrow> False)"

definition announce_of :: "jval \<Rightarrow> tool_announce" where
  "announce_of r =
     \<lparr>a_port = readPort (js_prop r ''port''),
      a_path = (if validToolServePath (js_prop r ''path'') then as_str (js_prop r ''path'') else None),
      a_name = sanitize (js_prop r ''name'') NAME_LIMIT,
      a_key = readKey (js_prop r ''key''),
      a_dehydrate = (js_prop r ''dehydrate'' = VBool True),
      a_persist = (if js_prop r ''persist'' = VStr ''never'' then Some Never
        else if js_prop r ''persist'' = VStr ''respawn'' then Some Respawn else None)\<rparr>"

definition says_nothing :: "tool_announce \<Rightarrow> bool" where
  "says_nothing a = (a_port a = None \<and> a_name a = None \<and> a_key a = None \<and> \<not> a_dehydrate a \<and> a_persist a = None)"

definition parseToolAnnounce :: "(nat \<Rightarrow> char) \<Rightarrow> string \<Rightarrow> tool_announce option" where
  "parseToolAnnounce w content = (case parseToolPayload w content ''serve'' of
      None \<Rightarrow> None
    | Some r \<Rightarrow>
        if js_prop r ''v'' \<noteq> VUndef \<and> js_prop r ''v'' \<noteq> VNum (JFin 1) then None
        else if says_nothing (announce_of r) then None else Some (announce_of r))"

definition parseToolState :: "(nat \<Rightarrow> char) \<Rightarrow> string \<Rightarrow> bool option" where
  "parseToolState w content = (case parseToolPayload w content ''state'' of
      None \<Rightarrow> None
    | Some r \<Rightarrow> if js_prop r ''v'' = VNum (JFin 1) then (case js_prop r ''dirty'' of VBool d \<Rightarrow> Some d | _ \<Rightarrow> None) else None)"

datatype disposition = Current | Other

record tool_open =
  o_path :: string
  o_preview :: bool
  o_disposition :: "disposition option"
  o_fragment :: "string option"

definition validToolFragment :: "jval \<Rightarrow> bool" where
  "validToolFragment value = (case value of VStr s \<Rightarrow> length s \<le> 2048 \<and> \<not> list_ex is_control s | _ \<Rightarrow> False)"

definition validOpenNavigation :: "jval \<Rightarrow> jval \<Rightarrow> jval \<Rightarrow> bool" where
  "validOpenNavigation preview disp fragment =
     (if disp \<noteq> VUndef \<and> (preview = VBool True \<or> disp \<noteq> VStr ''current'' \<and> disp \<noteq> VStr ''other'') then False
      else fragment = VUndef \<or> disp \<noteq> VUndef \<and> validToolFragment fragment)"

definition validToolOpenPath :: "jval \<Rightarrow> bool" where
  "validToolOpenPath value = (case value of
      VStr s \<Rightarrow> length s \<le> OPEN_PATH_LIMIT \<and>
        (starts_with ''/'' s \<or> (case s of a # b # c # _ \<Rightarrow> is_letter a \<and> b = CHR '':'' \<and> (c = bslash \<or> c = CHR ''/'') | _ \<Rightarrow> False)) \<and>
        \<not> list_ex is_control s
    | _ \<Rightarrow> False)"

definition read_disposition :: "jval \<Rightarrow> disposition option" where
  "read_disposition v = (if v = VUndef then None else Some (if v = VStr ''current'' then Current else Other))"

definition parseToolOpen :: "(nat \<Rightarrow> char) \<Rightarrow> string \<Rightarrow> tool_open option" where
  "parseToolOpen w content = (case parseToolPayload w content ''open'' of
      None \<Rightarrow> None
    | Some r \<Rightarrow>
        if js_prop r ''v'' \<noteq> VNum (JFin 1) \<or> \<not> validToolOpenPath (js_prop r ''path'') then None
        else if js_prop r ''preview'' \<noteq> VUndef \<and> \<not> is_bool (js_prop r ''preview'') then None
        else if \<not> validOpenNavigation (js_prop r ''preview'') (js_prop r ''disposition'') (js_prop r ''fragment'') then None
        else Some \<lparr>o_path = the (as_str (js_prop r ''path'')), o_preview = (js_prop r ''preview'' = VBool True),
                   o_disposition = read_disposition (js_prop r ''disposition''), o_fragment = as_str (js_prop r ''fragment'')\<rparr>)"

definition dehydratedState :: "(nat \<Rightarrow> char) \<Rightarrow> string \<Rightarrow> jval option" where
  "dehydratedState w content = (case parseToolPayload w content ''dehydrate'' of
      None \<Rightarrow> None
    | Some r \<Rightarrow> if js_prop r ''v'' = VNum (JFin 1) \<and> js_prop r ''state'' \<notin> {VUndef, VNull} then Some (js_prop r ''state'') else None)"

definition parseToolDehydrate :: "(nat \<Rightarrow> char) \<Rightarrow> string \<Rightarrow> string option" where
  "parseToolDehydrate w content = (if dehydratedState w content = None then None else Some (drop (length ''dehydrate;'') content))"

definition readDehydrated :: "(nat \<Rightarrow> char) \<Rightarrow> string option \<Rightarrow> jval option" where
  "readDehydrated w value = (case value of None \<Rightarrow> None | Some s \<Rightarrow> dehydratedState w (''dehydrate;'' @ s))"

section \<open>Writing\<close>

datatype tool_error = RangeError string | TypeError string

text \<open>The payload's text as it is, and with DEL and the C1 controls escaped.\<close>

definition escapeC1 :: "string \<Rightarrow> string" where
  "escapeC1 raw = concat (map (\<lambda>c. if 127 \<le> (of_char c :: nat) \<and> (of_char c :: nat) \<le> 159
     then bslash # ''u00'' @ [hex_digit (of_char c div 16), hex_digit (of_char c mod 16)] else [c]) raw)"

definition sequence :: "string \<Rightarrow> string \<Rightarrow> tool_error + string" where
  "sequence verb raw =
     (if length raw > TOOL_PAYLOAD_LIMIT then Inl (RangeError ''payload'')
      else Inr ([esc] @ '']367;'' @ verb @ '';'' @ raw @ [bel]))"

definition present :: "(string \<times> jval) list \<Rightarrow> (string \<times> jval) list" where
  "present kvs = filter (\<lambda>kv. snd kv \<noteq> VUndef) kvs"

definition serveSequence :: "(rat \<Rightarrow> string) \<Rightarrow> jval \<Rightarrow> jval \<Rightarrow> jval \<Rightarrow> jval \<Rightarrow> tool_error + string" where
  "serveSequence shown port path dehydrate persist =
     (if port \<noteq> VUndef \<and> readPort port = None then Inl (RangeError ''port'')
      else if path \<noteq> VUndef \<and> (port = VUndef \<or> \<not> validToolServePath path) then Inl (RangeError ''path'')
      else if dehydrate \<noteq> VUndef \<and> \<not> is_bool dehydrate then Inl (TypeError ''dehydrate'')
      else if persist \<noteq> VUndef \<and> persist \<noteq> VStr ''respawn'' \<and> persist \<noteq> VStr ''never'' then Inl (RangeError ''persist'')
      else if port = VUndef \<and> dehydrate \<noteq> VBool True \<and> persist = VUndef then Inl (RangeError ''serve'')
      else sequence ''serve'' (json_text json_escape shown
        (VObj (present [(''port'', port), (''path'', path), (''dehydrate'', dehydrate), (''persist'', persist)] @ [(''v'', VNum (JFin 1))]))))"

definition stateSequence :: "(rat \<Rightarrow> string) \<Rightarrow> jval \<Rightarrow> tool_error + string" where
  "stateSequence shown dirty =
     (if is_bool dirty
      then sequence ''state'' (json_text json_escape shown (VObj [(''v'', VNum (JFin 1)), (''dirty'', dirty)]))
      else Inl (TypeError ''dirty''))"

definition openSequence :: "(rat \<Rightarrow> string) \<Rightarrow> jval \<Rightarrow> jval \<Rightarrow> jval \<Rightarrow> jval \<Rightarrow> tool_error + string" where
  "openSequence shown path given disp fragment =
     (let preview = (if given = VUndef then VBool False else given)
      in if \<not> validToolOpenPath path then Inl (RangeError ''path'')
         else if \<not> is_bool preview then Inl (TypeError ''preview'')
         else if \<not> validOpenNavigation preview disp fragment then Inl (TypeError ''disposition'')
         else sequence ''open'' (json_text json_escape shown
           (VObj [(''v'', VNum (JFin 1)), (''path'', path), (''preview'', preview), (''disposition'', disp), (''fragment'', fragment)])))"

definition dehydrateSequence :: "(rat \<Rightarrow> string) \<Rightarrow> jval \<Rightarrow> tool_error + string" where
  "dehydrateSequence shown state =
     (if state = VUndef \<or> state = VNull then Inl (TypeError ''state'')
      else sequence ''dehydrate'' (escapeC1 (json_text json_escape shown (VObj [(''v'', VNum (JFin 1)), (''state'', state)]))))"

section \<open>What is read\<close>

lemma tools_sanitizeText_copy: "tools_sanitizeText = sanitizeText"
  by (simp add: fun_eq_iff tools_sanitizeText_def sanitizeText_def truncateText_def Let_def)

lemma sanitizeText_nonempty: "sanitizeText s n = Some t \<Longrightarrow> 0 < n \<Longrightarrow> t \<noteq> []"
  by (auto simp: sanitizeText_def truncateText_def Let_def split: if_splits)

lemma sanitize_clean: "sanitize v n = Some t \<Longrightarrow> length t \<le> n \<and> (\<forall>c \<in> set t. \<not> is_control c)"
  by (auto simp: sanitize_def tools_sanitizeText_copy dest: sanitizeText_clean split: jval.splits)

lemma read_elements_clean:
  "read_elements vs = Some ks \<Longrightarrow> length ks = length vs \<and> (\<forall>k \<in> set ks. length k \<le> KEY_ELEMENT_LIMIT \<and> (\<forall>c \<in> set k. \<not> is_control c))"
  by (induction vs arbitrary: ks) (auto split: option.splits dest!: sanitize_clean)

lemma readPort_Some: "readPort v = Some n \<Longrightarrow> v = VNum (JFin (of_int n)) \<and> 1 \<le> n \<and> n \<le> 65535"
  by (auto simp: readPort_def js_integer_def split: jval.splits option.splits jsnum.splits if_splits)

definition announce_ok :: "tool_announce \<Rightarrow> bool" where
  "announce_ok a =
     (pred_option (\<lambda>n. 1 \<le> n \<and> n \<le> 65535) (a_port a) \<and>
      pred_option (\<lambda>p. starts_with ''/'' p \<and> \<not> starts_with ''//'' p \<and> length p \<le> 2048 \<and>
        list_all (\<lambda>c. \<not> is_control c \<and> c \<noteq> bslash \<and> c \<noteq> CHR '' '') p) (a_path a) \<and>
      pred_option (\<lambda>n. length n \<le> NAME_LIMIT \<and> \<not> list_ex is_control n) (a_name a) \<and>
      pred_option (\<lambda>ks. ks \<noteq> [] \<and> length ks \<le> KEY_ELEMENTS_LIMIT \<and> list_all (\<lambda>k. length k \<le> KEY_ELEMENT_LIMIT \<and> \<not> list_ex is_control k) ks) (a_key a) \<and>
      \<not> says_nothing a)"

definition open_ok :: "tool_open \<Rightarrow> bool" where
  "open_ok r =
     (validToolOpenPath (VStr (o_path r)) \<and> pred_option (\<lambda>f. validToolFragment (VStr f)) (o_fragment r) \<and>
      (o_fragment r \<noteq> None \<longrightarrow> o_disposition r \<noteq> None) \<and> (o_disposition r \<noteq> None \<longrightarrow> \<not> o_preview r))"

lemma announce_read_ok: "parseToolAnnounce w content = Some a \<Longrightarrow> announce_ok a"
proof -
  assume "parseToolAnnounce w content = Some a"
  then obtain r where "a = announce_of r" and something: "\<not> says_nothing a"
    by (auto simp: parseToolAnnounce_def split: option.splits if_splits)
  note a = this(1) [unfolded announce_of_def]
  have "pred_option (\<lambda>n. 1 \<le> n \<and> n \<le> 65535) (a_port a)"
    using a readPort_Some [of "js_prop r ''port''"] by (cases "readPort (js_prop r ''port'')") auto
  moreover have "pred_option (\<lambda>p. starts_with ''/'' p \<and> \<not> starts_with ''//'' p \<and> length p \<le> 2048 \<and>
      list_all (\<lambda>c. \<not> is_control c \<and> c \<noteq> bslash \<and> c \<noteq> CHR '' '') p) (a_path a)"
    using a by (auto simp: validToolServePath_def as_str_def list_all_iff is_control_def split: jval.splits)
  moreover have "pred_option (\<lambda>n. length n \<le> NAME_LIMIT \<and> \<not> list_ex is_control n) (a_name a)"
    using a sanitize_clean [of "js_prop r ''name''" NAME_LIMIT]
    by (cases "sanitize (js_prop r ''name'') NAME_LIMIT") (auto simp: list_ex_iff)
  moreover have "pred_option (\<lambda>ks. ks \<noteq> [] \<and> length ks \<le> KEY_ELEMENTS_LIMIT \<and> list_all (\<lambda>k. length k \<le> KEY_ELEMENT_LIMIT \<and> \<not> list_ex is_control k) ks) (a_key a)"
    using a by (cases "readKey (js_prop r ''key'')") (auto simp: readKey_def list_all_iff list_ex_iff split: jval.splits if_splits dest: read_elements_clean)
  ultimately show ?thesis using something by (simp add: announce_ok_def)
qed

lemma open_read_ok: "parseToolOpen w content = Some r \<Longrightarrow> open_ok r"
  by (auto simp: parseToolOpen_def open_ok_def validOpenNavigation_def read_disposition_def as_str_def validToolOpenPath_def validToolFragment_def
      split: option.splits if_splits jval.splits)

lemma dehydrate_read_ok: "parseToolDehydrate w content = Some p \<Longrightarrow> content = ''dehydrate;'' @ p \<and> p \<noteq> [] \<and> length p \<le> TOOL_PAYLOAD_LIMIT"
  by (auto simp: parseToolDehydrate_def dehydratedState_def parseToolPayload_def Let_def split: option.splits if_splits elim!: starts_withE)

section \<open>What is written is read back\<close>

text \<open>A complete report: the control string of OSC 367 with a payload of printable characters.\<close>

definition osc_report :: "string \<Rightarrow> string \<Rightarrow> bool" where
  "osc_report s content = (s = [esc] @ '']367;'' @ content @ [bel] \<and> (\<forall>c \<in> set content. \<not> is_control c))"

definition c1_escape :: "char \<Rightarrow> string" where
  "c1_escape c = escapeC1 (json_escape c)"

lemma escapeC1_simps [simp]: "escapeC1 [] = []" "escapeC1 (s @ t) = escapeC1 s @ escapeC1 t"
  "plain_char c \<Longrightarrow> escapeC1 (c # s) = c # escapeC1 s"
  by (simp_all add: escapeC1_def plain_char_def)

lemma escapeC1_concat: "escapeC1 (concat xs) = concat (map escapeC1 xs)"
  by (induction xs) simp_all

lemma escapeC1_plain: "list_all plain_char s \<Longrightarrow> escapeC1 s = s"
  by (induction s) simp_all

lemma plain_marks [simp]: "plain_char bslash" "plain_char dquote"
  "plain_char CHR ''b''" "plain_char CHR ''f''" "plain_char CHR ''n''" "plain_char CHR ''r''" "plain_char CHR ''t''" "plain_char CHR ''u''" "plain_char CHR ''0''" "plain_char CHR ''[''" "plain_char CHR '']''" "plain_char CHR ''{''" "plain_char CHR ''}''" "plain_char CHR '':''" "plain_char CHR '',''"
  by code_simp+

lemma hex_digits_plain: "plain_char (hex_digit (of_char c div 16))" "plain_char (hex_digit (of_char c mod 16))"
proof -
  have "list_all (\<lambda>k. plain_char (hex_digit k)) [0..<16]" by code_simp
  then have "k < 16 \<Longrightarrow> plain_char (hex_digit k)" for k by (simp add: list_all_iff)
  moreover have "of_char c div 16 < (16 :: nat)" "of_char c mod 16 < (16 :: nat)" using nat_of_char_less_256 [of c] by linarith+
  ultimately show "plain_char (hex_digit (of_char c div 16))" "plain_char (hex_digit (of_char c mod 16))" by blast+
qed

definition is_c1 :: "char \<Rightarrow> bool" where
  "is_c1 c = (127 \<le> (of_char c :: nat) \<and> (of_char c :: nat) \<le> 159)"

lemma json_escape_cases: "json_escape c = [c] \<and> 32 \<le> (of_char c :: nat) \<or> list_all plain_char (json_escape c)"
  using hex_digits_plain by (simp add: json_escape_def)

lemma c1_escape_cases:
  "is_c1 c \<Longrightarrow> c1_escape c = bslash # ''u00'' @ [hex_digit (of_char c div 16), hex_digit (of_char c mod 16)]"
  "\<not> is_c1 c \<Longrightarrow> c1_escape c = json_escape c"
proof -
  assume c: "is_c1 c"
  then have "of_char d < (127 :: nat) \<Longrightarrow> c \<noteq> d" for d by (auto simp: is_c1_def)
  then have "json_escape c = [c]" using c by (simp add: json_escape_def dquote_def bslash_def is_c1_def)
  then show "c1_escape c = bslash # ''u00'' @ [hex_digit (of_char c div 16), hex_digit (of_char c mod 16)]"
    using c by (simp add: c1_escape_def escapeC1_def is_c1_def)
next
  assume "\<not> is_c1 c"
  then show "c1_escape c = json_escape c"
    using json_escape_cases [of c] by (auto simp: c1_escape_def escapeC1_plain) (simp add: escapeC1_def is_c1_def)
qed

lemma json_escape_visible: "d \<in> set (json_escape c) \<Longrightarrow> \<not> is_c1 c \<Longrightarrow> \<not> is_control d"
  using json_escape_cases [of c] by (auto simp: plain_char_def is_control_def is_c1_def list_all_iff)

lemma c1_escape_visible: "d \<in> set (c1_escape c) \<Longrightarrow> \<not> is_control d"
proof (cases "is_c1 c")
  case True
  have "list_all plain_char (c1_escape c)" using hex_digits_plain by (simp add: c1_escape_cases(1) [OF True])
  then show "d \<in> set (c1_escape c) \<Longrightarrow> \<not> is_control d" by (auto simp: list_all_iff plain_char_def)
next
  case False
  then show "d \<in> set (c1_escape c) \<Longrightarrow> \<not> is_control d" using json_escape_visible by (simp add: c1_escape_cases(2))
qed

interpretation c1_json: json_escaping w c1_escape for w
proof
  fix c s
  show "json_string w (c1_escape c @ s) = map_option (\<lambda>(t, r). (c # t, r)) (json_string w s)"
    using json_string_unicode [of w c s] json_string_escape [of w c s] by (cases "is_c1 c") (simp_all add: c1_escape_cases)
qed

lemma escapeC1_quoted: "escapeC1 (quoted json_escape s) = quoted c1_escape s"
  by (simp add: quoted_def escapeC1_concat c1_escape_def [abs_def] comp_def)

lemma escapeC1_join: "escapeC1 (join_comma xs) = join_comma (map escapeC1 xs)"
  by (cases xs) (simp_all add: escapeC1_concat comp_def)

lemma escapeC1_text: "json_ok shown v \<Longrightarrow> escapeC1 (json_text json_escape shown v) = json_text c1_escape shown v"
proof (induction v)
  case (VStr s)
  then show ?case by (simp add: escapeC1_quoted)
next
  case (VNum x)
  then have "list_all plain_char (json_text json_escape shown (VNum x))" using num_text_chars by (auto simp: list_all_iff)
  then show ?case using escapeC1_plain by fastforce
next
  case (VArr vs)
  then show ?case by (simp add: escapeC1_join list_all_iff comp_def cong: map_cong)
next
  case (VObj kvs)
  have "escapeC1 (json_text json_escape shown (snd kv)) = json_text c1_escape shown (snd kv)" if "kv \<in> set kvs" for kv
    using VObj.IH [OF that snds.intros] VObj.prems that by (auto simp: list_all_iff)
  moreover have "filter (\<lambda>kv. snd kv \<noteq> VUndef) kvs = kvs" using VObj.prems by (auto simp: list_all_iff intro!: filter_True)
  ultimately show ?case by (simp add: escapeC1_join escapeC1_quoted comp_def cong: map_cong)
qed (simp_all add: escapeC1_plain plain_char_def is_control_def)

lemma sequence_Inr:
  "sequence verb raw = Inr s \<Longrightarrow> s = [esc] @ '']367;'' @ (verb @ '';'' @ raw) @ [bel] \<and> length raw \<le> TOOL_PAYLOAD_LIMIT"
  by (auto simp: sequence_def split: if_splits)

lemma payload_read:
  assumes "json_parse w raw = Some v" "isRecord v" "length raw \<le> TOOL_PAYLOAD_LIMIT"
  shows "parseToolPayload w (verb @ '';'' @ raw) verb = Some v"
proof -
  have "raw \<noteq> []" using assms(1) by (auto simp: json_parse_def json_ws_def json_expect.simps [of w "[]" "[]"] json_scalar_def json_number_def json_unsigned_def)
  then show ?thesis using assms by (simp add: parseToolPayload_def starts_with_def)
qed

lemma json_text_visible:
  "json_ok shown v \<Longrightarrow> \<not> list_ex is_c1 (json_chars v) \<Longrightarrow> c \<in> set (json_text json_escape shown v) \<Longrightarrow> \<not> is_control c"
  using json_text_chars [of shown v c json_escape] json_escape_visible by (auto simp: plain_char_def list_ex_iff)

lemma record_read:
  assumes "sequence verb (json_text json_escape shown (VObj kvs)) = Inr s" "json_ok shown (VObj kvs)"
    and "\<not> list_ex is_c1 (json_chars (VObj kvs))" "\<not> list_ex is_control verb"
  obtains content where "osc_report s content" "\<And>w. parseToolPayload w content verb = Some (VObj kvs)"
proof
  note s = sequence_Inr [OF assms(1)]
  show "osc_report s (verb @ '';'' @ json_text json_escape shown (VObj kvs))"
  proof -
    have "\<not> is_control CHR '';''" by code_simp
    then have "\<not> is_control c" if "c \<in> set (verb @ '';'' @ json_text json_escape shown (VObj kvs))" for c
      using that assms(4) json_text_visible [OF assms(2,3)] by (auto simp: list_ex_iff simp del: json_text.simps)
    then show ?thesis using s unfolding osc_report_def by blast
  qed
  show "parseToolPayload w (verb @ '';'' @ json_text json_escape shown (VObj kvs)) verb = Some (VObj kvs)" for w
    using s plain_json.json_parse_text [OF assms(2)] by (intro payload_read) (simp_all add: isRecord_def)
qed

text \<open>A member that is left out, or a value that prints without controls.\<close>

definition sendable :: "(rat \<Rightarrow> string) \<Rightarrow> jval \<Rightarrow> bool" where
  "sendable shown v = (v = VUndef \<or> json_ok shown v \<and> \<not> list_ex is_c1 (json_chars v))"

lemma sendable_simps [simp]: "sendable shown VUndef" "sendable shown (VBool b)" "sendable shown (VStr s) = (\<not> list_ex is_c1 s)"
  "\<bar>n\<bar> < 10 ^ 21 \<Longrightarrow> sendable shown (VNum (JFin (of_int n)))" "sendable shown (VNum (JFin 1))"
  by (simp_all add: sendable_def)

lemma js_prop_present:
  "distinct (map fst kvs) \<Longrightarrow> js_prop (VObj (present kvs)) k = (case map_of kvs k of Some v \<Rightarrow> v | None \<Rightarrow> VUndef)"
proof (induction kvs)
  case (Cons kv kvs)
  have "fst kv \<notin> fst ` set kvs \<Longrightarrow> map_of kvs (fst kv) = None" by (simp add: map_of_eq_None_iff)
  then show ?case using Cons by (auto simp: present_def split: option.splits)
qed (simp add: present_def)

text \<open>A report made of members that may be missing.\<close>

lemma report_read:
  assumes "sequence verb (json_text json_escape shown (VObj l)) = Inr s" "\<not> list_ex is_control verb"
    and "distinct (map fst l)" "list_all (\<lambda>kv. \<not> list_ex is_c1 (fst kv) \<and> sendable shown (snd kv)) l"
  obtains content r where "osc_report s content" "\<And>w. parseToolPayload w content verb = Some r"
    "\<And>k. js_prop r k = (case map_of l k of Some v \<Rightarrow> v | None \<Rightarrow> VUndef)"
proof -
  have "json_text json_escape shown (VObj l) = json_text json_escape shown (VObj (present l))" by (simp add: present_def)
  with assms(1) have seq: "sequence verb (json_text json_escape shown (VObj (present l))) = Inr s" by metis
  have "json_ok shown (VObj (present l))" using assms(3,4) by (auto simp: present_def list_all_iff sendable_def distinct_map_filter)
  moreover have "\<not> list_ex is_c1 (json_chars (VObj (present l)))"
    using assms(4) by (fastforce simp: present_def list_all_iff list_ex_iff sendable_def)
  ultimately obtain content where "osc_report s content" "\<And>w. parseToolPayload w content verb = Some (VObj (present l))"
    using record_read [OF seq _ _ assms(2)] by blast
  with that js_prop_present [OF assms(3)] show ?thesis by blast
qed

lemma key_names: "list_all (\<lambda>k. \<not> list_ex is_c1 k)
  [''port'', ''path'', ''dehydrate'', ''persist'', ''v'', ''dirty'', ''preview'', ''disposition'', ''fragment'', ''state'', ''respawn'', ''never'', ''current'', ''other'']"
  by code_simp

lemma verbs_visible: "\<not> list_ex is_control ''serve''" "\<not> list_ex is_control ''state''" "\<not> list_ex is_control ''open''" "\<not> list_ex is_control ''dehydrate''"
  by code_simp+

lemma is_bool_cases: "is_bool v \<Longrightarrow> v = VBool True \<or> v = VBool False"
  by (auto simp: is_bool_def split: jval.splits)

lemma state_read_back:
  assumes "stateSequence shown (VBool b) = Inr s"
  obtains content where "osc_report s content" "\<And>w. parseToolState w content = Some b"
proof -
  have "sequence ''state'' (json_text json_escape shown (VObj [(''v'', VNum (JFin 1)), (''dirty'', VBool b)])) = Inr s"
    using assms by (simp add: stateSequence_def is_bool_def)
  then obtain content r where "osc_report s content" "\<And>w. parseToolPayload w content ''state'' = Some r"
    "\<And>k. js_prop r k = (case map_of [(''v'', VNum (JFin 1)), (''dirty'', VBool b)] k of Some v \<Rightarrow> v | None \<Rightarrow> VUndef)"
    by (rule report_read) (use key_names verbs_visible in simp_all)
  with that show ?thesis by (simp add: parseToolState_def)
qed

definition read_persist :: "jval \<Rightarrow> persist_policy option" where
  "read_persist v = (if v = VStr ''never'' then Some Never else if v = VStr ''respawn'' then Some Respawn else None)"

lemma serve_read_back:
  assumes "serveSequence shown port path dehydrate persist = Inr s"
  obtains content where "osc_report s content"
    "\<And>w. parseToolAnnounce w content = Some \<lparr>a_port = readPort port, a_path = as_str path, a_name = None, a_key = None,
       a_dehydrate = (dehydrate = VBool True), a_persist = read_persist persist\<rparr>"
proof -
  let ?l = "[(''port'', port), (''path'', path), (''dehydrate'', dehydrate), (''persist'', persist), (''v'', VNum (JFin 1))]"
  have same: "json_text json_escape shown (VObj (present (butlast ?l) @ [(''v'', VNum (JFin 1))])) = json_text json_escape shown (VObj ?l)"
    by (simp add: present_def)
  have seq: "sequence ''serve'' (json_text json_escape shown (VObj ?l)) = Inr s"
    and port: "port = VUndef \<or> (\<exists>n. readPort port = Some n)" and path: "path = VUndef \<or> validToolServePath path"
    and "dehydrate = VUndef \<or> is_bool dehydrate"
    and persist: "persist = VUndef \<or> persist = VStr ''respawn'' \<or> persist = VStr ''never''"
    and something: "\<not> (port = VUndef \<and> dehydrate \<noteq> VBool True \<and> persist = VUndef)"
    using assms same by (auto simp: serveSequence_def simp del: json_text.simps split: if_splits)
  then have dehydrate: "dehydrate = VUndef \<or> dehydrate = VBool True \<or> dehydrate = VBool False" using is_bool_cases by blast
  have "sendable shown port" using port readPort_Some [of port] by auto
  moreover have "sendable shown path"
    using path by (auto simp: validToolServePath_def list_all_iff list_ex_iff is_c1_def split: jval.splits)
  moreover have "sendable shown dehydrate" "sendable shown persist" using dehydrate persist key_names by auto
  ultimately obtain content r where c: "osc_report s content" and r: "\<And>w. parseToolPayload w content ''serve'' = Some r"
    and p: "\<And>k. js_prop r k = (case map_of ?l k of Some v \<Rightarrow> v | None \<Rightarrow> VUndef)"
    using report_read [OF seq verbs_visible(1)] key_names by (simp del: json_text.simps) blast
  have "announce_of r = \<lparr>a_port = readPort port, a_path = as_str path, a_name = None, a_key = None,
       a_dehydrate = (dehydrate = VBool True), a_persist = read_persist persist\<rparr>"
    unfolding announce_of_def p using path by (auto simp: sanitize_def readKey_def read_persist_def as_str_def validToolServePath_def)
  moreover from this have "\<not> says_nothing (announce_of r)"
    using something port persist by (auto simp: says_nothing_def read_persist_def)
  ultimately show ?thesis using that [OF c] r p by (simp add: parseToolAnnounce_def)
qed

lemma open_read_back:
  assumes "openSequence shown (VStr path) given disp fragment = Inr s"
  obtains content where "osc_report s content"
    "\<And>w. parseToolOpen w content = Some \<lparr>o_path = path, o_preview = (given = VBool True), o_disposition = read_disposition disp, o_fragment = as_str fragment\<rparr>"
proof -
  define preview where "preview = (if given = VUndef then VBool False else given)"
  let ?l = "[(''v'', VNum (JFin 1)), (''path'', VStr path), (''preview'', preview), (''disposition'', disp), (''fragment'', fragment)]"
  have seq: "sequence ''open'' (json_text json_escape shown (VObj ?l)) = Inr s"
    and path: "validToolOpenPath (VStr path)" and "is_bool preview" and nav: "validOpenNavigation preview disp fragment"
    using assms by (auto simp: openSequence_def Let_def preview_def [symmetric] simp del: json_text.simps split: if_splits)
  then have preview: "preview = VBool True \<or> preview = VBool False" using is_bool_cases by blast
  have disp: "disp = VUndef \<or> disp = VStr ''current'' \<or> disp = VStr ''other''" and fragment: "fragment = VUndef \<or> validToolFragment fragment"
    using nav by (auto simp: validOpenNavigation_def split: if_splits)
  have "sendable shown preview" "sendable shown disp" using preview disp key_names by auto
  moreover have "sendable shown fragment"
    using fragment by (auto simp: validToolFragment_def list_ex_iff is_c1_def is_control_def split: jval.splits)
  moreover have "sendable shown (VStr path)" using path by (auto simp: validToolOpenPath_def list_ex_iff is_c1_def is_control_def)
  ultimately obtain content r where c: "osc_report s content" and r: "\<And>w. parseToolPayload w content ''open'' = Some r"
    and p: "\<And>k. js_prop r k = (case map_of ?l k of Some v \<Rightarrow> v | None \<Rightarrow> VUndef)"
    using report_read [OF seq verbs_visible(3)] key_names by (simp del: json_text.simps) blast
  have "parseToolOpen w content = Some \<lparr>o_path = path, o_preview = (preview = VBool True), o_disposition = read_disposition disp, o_fragment = as_str fragment\<rparr>" for w
    unfolding parseToolOpen_def r option.case p using path nav preview by (auto simp: as_str_def is_bool_def)
  moreover have "(preview = VBool True) = (given = VBool True)" by (simp add: preview_def)
  ultimately show ?thesis using that [OF c] by simp
qed

lemma dehydrate_read_back:
  assumes "dehydrateSequence shown state = Inr s" "json_ok shown state"
  obtains content p where "osc_report s content"
    "\<And>w. parseToolDehydrate w content = Some p \<and> readDehydrated w (Some p) = Some state"
proof -
  let ?v = "VObj [(''v'', VNum (JFin 1)), (''state'', state)]"
  have ok: "json_ok shown ?v" using assms(2) by simp
  let ?raw = "json_text c1_escape shown ?v"
  have seq: "sequence ''dehydrate'' ?raw = Inr s" and state: "state \<notin> {VUndef, VNull}"
    using assms(1) escapeC1_text [OF ok] by (auto simp: dehydrateSequence_def simp del: json_text.simps split: if_splits)
  have "\<not> is_control CHR '';''" by code_simp
  then have "\<not> is_control c" if "c \<in> set (''dehydrate'' @ '';'' @ ?raw)" for c
    using that verbs_visible(4) json_text_chars [OF ok, of c c1_escape] c1_escape_visible
    by (auto simp: list_ex_iff plain_char_def simp del: json_text.simps)
  then have "osc_report s (''dehydrate'' @ '';'' @ ?raw)" using sequence_Inr [OF seq] unfolding osc_report_def by blast
  moreover have "dehydratedState w (''dehydrate'' @ '';'' @ ?raw) = Some state" for w
    using payload_read [OF c1_json.json_parse_text [OF ok], of w "''dehydrate''"] sequence_Inr [OF seq] state
    by (simp add: dehydratedState_def isRecord_def del: json_text.simps)
  ultimately show ?thesis
    using that [of "''dehydrate'' @ '';'' @ ?raw" ?raw] by (simp add: parseToolDehydrate_def readDehydrated_def del: json_text.simps)
qed

section \<open>Properties\<close>

text \<open>What the host takes from a Tool is bounded and harmless whatever the Tool writes: a port is a TCP
  port, a path to serve is one of the same origin, names and key elements are short and without
  controls, a path to open is absolute, a fragment comes only with a disposition and that never with
  a preview, and a restore payload is the text itself within its bound.\<close>

lemma tool_reports_bounded:
  "pred_option announce_ok (parseToolAnnounce w content) \<and> pred_option open_ok (parseToolOpen w content) \<and>
   pred_option (\<lambda>p. content = ''dehydrate;'' @ p \<and> p \<noteq> [] \<and> length p \<le> TOOL_PAYLOAD_LIMIT) (parseToolDehydrate w content)"
  using announce_read_ok open_read_ok dehydrate_read_ok by (auto simp: option.pred_set)

text \<open>A state that is not a number is accepted and printed as \<open>null\<close>, which the host takes for no state.\<close>

lemma dehydrate_nan_lost:
  "dehydrateSequence shown (VNum JNaN) = sequence ''dehydrate'' (escapeC1 (json_text json_escape shown (VObj [(''v'', VNum (JFin 1)), (''state'', VNull)])))"
  by (simp add: dehydrateSequence_def)

end
