(* ===== verification/Terminal_Protocol.thy ===== *)
theory Terminal_Protocol
  imports Terminal_Decode Css_Color Terminal_Controls Tool_Osc Alert_Manager
begin

text \<open>
  The parser of terminal output (\<open>lib/src/lib/terminal-protocol.ts\<close>): it consumes the control strings Dormouse
  understands, turns them into events, answers queries, hands everything else on to the renderer, and
  holds what a read has cut in two. Positions in the text are the text that is left. One call of
  \<open>process\<close> reads the clock once. The URL parser, the theme's colours and the characters beyond U+00FF
  are parameters.

  A state of OSC 9;4 is looked up in an object literal, which answers for the names it inherits as
  well: some of them are no functions or throw when they are called, so the parser can throw, and two
  give a progress update without a state.
\<close>

section \<open>Events\<close>

datatype protocol_event =
    Notification activity_notification
  | ClipboardOffer string
  | ToolAnnounced tool_announce
  | ToolStated bool
  | ToolOpened tool_open
  | ToolDehydrated string
  | Progress progress_state "rat option"
  | OddProgress
  | Response string
  | Semantic semantic_event

datatype color_target = Foreground | Background | Cursor

record terminal_colors =
  foreground :: string
  background :: string
  cursor :: string

definition parseTerminalColors :: "jval \<Rightarrow> terminal_colors option" where
  "parseTerminalColors v =
     (if is_object v then
        (case (as_str (js_prop v ''foreground''), as_str (js_prop v ''background''), as_str (js_prop v ''cursor'')) of
           (Some f, Some b, Some c) \<Rightarrow> Some \<lparr>foreground = f, background = b, cursor = c\<rparr>
         | _ \<Rightarrow> None)
      else None)"

record protocol_services =
  urls :: url_services
  wide_chars :: "nat \<Rightarrow> char"
  colorProvider :: "(color_target \<Rightarrow> string option) option"

datatype thrown = ThrownTypeError

record osc99_pending =
  o99_title :: string
  o99_body :: string
  o99_updated :: int

record protocol_parser =
  pending :: string
  forwarding :: "(string_kind \<times> string) option"
  discarding :: "string option"
  osc99Pending :: "(string \<times> osc99_pending) list"

definition new_protocol_parser :: protocol_parser where
  "new_protocol_parser = \<lparr>pending = [], forwarding = None, discarding = None, osc99Pending = []\<rparr>"

definition isForwardingString :: "protocol_parser \<Rightarrow> bool" where
  "isForwardingString p = (forwarding p \<noteq> None)"

record parse_result =
  visibleData :: string
  textData :: string
  events :: "protocol_event list"
  resumedStringEnd :: "nat option"

definition OSC_INCOMPLETE_LIMIT :: nat where "OSC_INCOMPLETE_LIMIT = 16384"
definition OSC99_PENDING_TTL_MS :: int where "OSC99_PENDING_TTL_MS = 60000"
definition OSC99_MAX_PENDING_IDS :: nat where "OSC99_MAX_PENDING_IDS = 64"
definition TITLE_LIMIT :: nat where "TITLE_LIMIT = 256"
definition BODY_LIMIT :: nat where "BODY_LIMIT = 4096"
definition COMMAND_LINE_LIMIT :: nat where "COMMAND_LINE_LIMIT = 2048"
definition CLIPBOARD_OFFER_LIMIT :: nat where "CLIPBOARD_OFFER_LIMIT = 16000"
definition OSC99_PENDING_TITLE_LIMIT :: nat where "OSC99_PENDING_TITLE_LIMIT = 2048"
definition OSC99_PENDING_BODY_LIMIT :: nat where "OSC99_PENDING_BODY_LIMIT = 16384"
definition OSC99_SUPPORT_PAYLOAD :: string where "OSC99_SUPPORT_PAYLOAD = ''o=always:p=title,body''"

definition OSC_CONSUMED_IDS :: "string list" where
  "OSC_CONSUMED_IDS = [''0'', ''2'', ''7'', ''9'', ''10'', ''11'', ''12'', ''50'', ''52'', ''99'', ''133'', ''367'', ''633'', ''777'']"

definition OSC1337_FORWARDED :: "string list" where
  "OSC1337_FORWARDED = [''File='', ''MultipartFile='', ''FilePart='', ''FileEnd'', ''ReportCellSize'']"

definition TERMINAL_BELL_NOTIFICATION :: activity_notification where
  "TERMINAL_BELL_NOTIFICATION = \<lparr>nsource = BEL, ntitle = Some ''Terminal bell'', nbody = None\<rparr>"

definition ITERM2_DEVICE_ATTRIBUTES_RESPONSE :: string where
  "ITERM2_DEVICE_ATTRIBUTES_RESPONSE = [esc] @ ''P>|iTerm2 3.6.6'' @ [esc, bslash]"

section \<open>Ground text\<close>

definition stripStandaloneBells :: "string \<Rightarrow> string \<times> protocol_event list" where
  "stripStandaloneBells segment =
     (if bel \<notin> set segment then (segment, [])
      else (filter (\<lambda>c. c \<noteq> bel) segment, [Notification TERMINAL_BELL_NOTIFICATION]))"

definition is_bell :: "protocol_event \<Rightarrow> bool" where
  "is_bell e = (case e of Notification n \<Rightarrow> nsource n = BEL | _ \<Rightarrow> False)"

definition is_richer :: "protocol_event \<Rightarrow> bool" where
  "is_richer e = (case e of Notification n \<Rightarrow> nsource n \<noteq> BEL | _ \<Rightarrow> False)"

fun keep_first_bell :: "bool \<Rightarrow> protocol_event list \<Rightarrow> protocol_event list" where
  "keep_first_bell kept [] = []"
| "keep_first_bell kept (e # es) = (if \<not> is_bell e then e # keep_first_bell kept es else if kept then keep_first_bell kept es else e # keep_first_bell True es)"

definition filterTerminalBellEvents :: "protocol_event list \<Rightarrow> protocol_event list" where
  "filterTerminalBellEvents es =
     (let bellCount = length (filter is_bell es); hasRicher = list_ex is_richer es
      in if bellCount = 0 then es
         else if \<not> hasRicher \<and> bellCount = 1 then es
         else keep_first_bell hasRicher es)"

definition da_query_here :: "string \<Rightarrow> string option" where
  "da_query_here s =
     (if starts_with ([esc] @ ''[>q'') s then Some (drop 4 s)
      else if starts_with ([CHR 0x9B] @ ''>q'') s then Some (drop 3 s) else None)"

function answerDeviceAttributeQueries :: "string \<Rightarrow> string \<times> protocol_event list" where
  "answerDeviceAttributeQueries [] = ([], [])"
| "answerDeviceAttributeQueries (c # s) = (case da_query_here (c # s) of
      Some r \<Rightarrow> (let (t, es) = answerDeviceAttributeQueries r in (t, Response ITERM2_DEVICE_ATTRIBUTES_RESPONSE # es))
    | None \<Rightarrow> (let (t, es) = answerDeviceAttributeQueries s in (c # t, es)))"
  by pat_completeness auto
termination by (relation "measure length") (auto simp: da_query_here_def split: if_splits)

definition DEVICE_ATTRIBUTE_PENDING_SUFFIXES :: "string list" where
  "DEVICE_ATTRIBUTE_PENDING_SUFFIXES = [[esc] @ ''[>'', [esc] @ ''['', [esc], [CHR 0x9B] @ ''>'', [CHR 0x9B]]"

definition takeDeviceAttributePendingSuffix :: "string \<Rightarrow> string" where
  "takeDeviceAttributePendingSuffix s =
     (case find (\<lambda>x. ends_with x s) DEVICE_ATTRIBUTE_PENDING_SUFFIXES of Some x \<Rightarrow> x | None \<Rightarrow> [])"

section \<open>Where a control string ends and who takes it\<close>

text \<open>The payload, the terminator, what follows, and whether the string was cancelled; \<open>None\<close> while these
  characters do not tell.\<close>

definition end_at :: "string \<Rightarrow> string \<Rightarrow> (string \<times> string \<times> string \<times> bool) option" where
  "end_at payload r = (case r of
      [] \<Rightarrow> None
    | c # t \<Rightarrow>
        if c \<noteq> esc then Some (payload, [c], t, c = CHR 0x18 \<or> c = CHR 0x1A)
        else if t = [] then None
        else if hd t = bslash then Some (payload, [esc, bslash], tl t, False)
        else Some (payload, [], r, True))"

definition findStringControlEnd :: "string_kind \<Rightarrow> string \<Rightarrow> (string \<times> string \<times> string \<times> bool) option" where
  "findStringControlEnd kind s =
     end_at (takeWhile (\<lambda>c. \<not> stringControlEndScan kind c) s) (dropWhile (\<lambda>c. \<not> stringControlEndScan kind c) s)"

datatype osc_disposition = Consume | Forward

definition osc1337DispositionAt :: "string \<Rightarrow> osc_disposition option" where
  "osc1337DispositionAt t =
     (if list_ex (\<lambda>command. starts_with command t) OSC1337_FORWARDED then Some Forward
      else if list_ex (\<lambda>command. length t < length command \<and> starts_with t command) OSC1337_FORWARDED then None
      else Some Consume)"

definition oscDispositionAt :: "string \<Rightarrow> osc_disposition option" where
  "oscDispositionAt t =
     (let oid = takeWhile is_digit t; r = dropWhile is_digit t
      in if r = [] then None
         else if oid = [] \<or> hd r \<noteq> CHR '';'' then Some Forward
         else if oid = ''1337'' then osc1337DispositionAt (tl r)
         else if oid \<in> set OSC_CONSUMED_IDS then Some Consume else Some Forward)"

section \<open>The control strings Dormouse reads\<close>

definition osc_is :: "string \<Rightarrow> string \<Rightarrow> bool" where
  "osc_is oid content = (content = oid \<or> starts_with (oid @ '';'') content)"

definition cwd_events :: "cwd_state option \<Rightarrow> protocol_event list" where
  "cwd_events c = (case c of Some d \<Rightarrow> [Semantic (CwdEvent d)] | None \<Rightarrow> [])"

definition parseOsc7 :: "protocol_services \<Rightarrow> rat \<Rightarrow> string \<Rightarrow> protocol_event list" where
  "parseOsc7 S now content = (if starts_with ''7;'' content then cwd_events (cwdFromOsc7 (urls S) (drop 2 content) now) else [])"

definition commandStartEvent :: "run_source \<Rightarrow> protocol_event" where
  "commandStartEvent src = Semantic (CommandStart (Some src) None)"

definition parseExitCode :: "string option \<Rightarrow> int option" where
  "parseExitCode raw = (case raw of None \<Rightarrow> None | Some s \<Rightarrow> if s = [] then None else js_integer (js_Number s))"

definition nth_field :: "string list \<Rightarrow> nat \<Rightarrow> string option" where
  "nth_field fs k = (if k < length fs then Some (fs ! k) else None)"

definition parsePromptBoundary :: "string list \<Rightarrow> run_source \<Rightarrow> protocol_event list" where
  "parsePromptBoundary fs src = (case nth_field fs 1 of
      None \<Rightarrow> []
    | Some f \<Rightarrow>
        if f = ''A'' then [Semantic PromptStart]
        else if f = ''B'' then [Semantic PromptEnd]
        else if f = ''C'' then [commandStartEvent src]
        else if f = ''D'' then [Semantic (CommandFinish (parseExitCode (nth_field fs 2)) None)]
        else [])"

definition commandLineEvents :: "string \<Rightarrow> nat \<Rightarrow> (string \<Rightarrow> string) \<Rightarrow> protocol_event list" where
  "commandLineEvents encoded encodedWidth decode =
     (case sanitizeCommandLine (decode (truncateText encoded (COMMAND_LINE_LIMIT * encodedWidth))) COMMAND_LINE_LIMIT of
        None \<Rightarrow> [] | Some l \<Rightarrow> [Semantic (CommandLine l)])"

definition parseOsc133CommandLine :: "(nat \<Rightarrow> char) \<Rightarrow> string \<Rightarrow> protocol_event list" where
  "parseOsc133CommandLine wide ps =
     (let quoted = split_at '';cmdline='' ps;
          front = (case quoted of None \<Rightarrow> ps | Some (b, _) \<Rightarrow> b)
      in case find (starts_with ''cmdline_url='') (split_on CHR '';'' front) of
           Some url \<Rightarrow> commandLineEvents (drop (length ''cmdline_url='') url) 12 (decodePercentEncoded wide)
         | None \<Rightarrow> (case quoted of
             Some (_, after) \<Rightarrow> commandLineEvents after 4 (decodeShellQuotedWord wide)
           | None \<Rightarrow> []))"

definition parseOsc133 :: "(nat \<Rightarrow> char) \<Rightarrow> string \<Rightarrow> protocol_event list" where
  "parseOsc133 wide content =
     (let fs = split_on CHR '';'' content
      in if hd fs \<noteq> ''133'' then []
         else let boundary = parsePromptBoundary fs Osc133Boundaries
              in if nth_field fs 1 \<noteq> Some ''C'' then boundary
                 else parseOsc133CommandLine wide (drop (length ''133;C'') content) @ boundary)"

definition parseOsc633Property :: "rat \<Rightarrow> string \<Rightarrow> protocol_event list" where
  "parseOsc633Property now raw = (if starts_with ''Cwd='' raw then cwd_events (cwdFromOsc633 (drop 4 raw) now) else [])"

definition parseOsc633 :: "rat \<Rightarrow> string \<Rightarrow> protocol_event list" where
  "parseOsc633 now content =
     (let fs = split_on CHR '';'' content
      in if hd fs \<noteq> ''633'' then []
         else if nth_field fs 1 = Some ''E'' then
           (if starts_with ''633;E;'' content
            then commandLineEvents (takeWhile (\<lambda>c. c \<noteq> CHR '';'') (drop (length ''633;E;'') content)) 4 decodeOsc633Value else [])
         else if nth_field fs 1 = Some ''P'' then parseOsc633Property now (drop (length ''633;P;'') content)
         else parsePromptBoundary fs Osc633Boundaries)"

definition parseOsc1337 :: "rat \<Rightarrow> string \<Rightarrow> protocol_event list option" where
  "parseOsc1337 now content =
     (if oscDispositionAt content = Some Forward then None
      else Some (if starts_with ''1337;CurrentDir='' content then cwd_events (cwdFromOsc1337 (drop (length ''1337;CurrentDir='') content) now) else []))"

definition parseOscTitle :: "string \<Rightarrow> title_source \<Rightarrow> protocol_event list" where
  "parseOscTitle content src =
     (if \<not> starts_with (if src = TOsc0 then ''0;'' else ''2;'') content then []
      else case sanitizeText (drop 2 content) TITLE_LIMIT of
             None \<Rightarrow> []
           | Some t \<Rightarrow> [Semantic (TitleEvent \<lparr>ttitle = t, tsource = src, tupdated = 0\<rparr>)])"

definition isKnownUnsupportedIterm2Osc :: "string \<Rightarrow> bool" where
  "isKnownUnsupportedIterm2Osc content = osc_is ''50'' content"

definition parseOsc52 :: "(nat \<Rightarrow> char) \<Rightarrow> string \<Rightarrow> protocol_event list" where
  "parseOsc52 wide content =
     (let fs = split_on CHR '';'' content;
          data = (if length fs = 3 then filter (\<lambda>c. \<not> js_space c) (fs ! 2) else [])
      in if length data > CLIPBOARD_OFFER_LIMIT then []
         else case Option.bind (decodeBase64 wide data) sanitizeClipboardText of
                None \<Rightarrow> [] | Some t \<Rightarrow> [ClipboardOffer t])"

definition formatOscColorResponse :: "string \<Rightarrow> string option \<Rightarrow> string option" where
  "formatOscColorResponse code color =
     (case color of
        None \<Rightarrow> None
      | Some c \<Rightarrow>
          if c = [] then None
          else map_option (\<lambda>rgb. [esc] @ '']'' @ code @ '';rgb:'' @ channel_hex (red rgb) @ channel_hex (red rgb) @ ''/'' @
              channel_hex (green rgb) @ channel_hex (green rgb) @ ''/'' @ channel_hex (blue rgb) @ channel_hex (blue rgb) @ [esc, bslash]) (parseColor c))"

definition parseColorQuery :: "protocol_services \<Rightarrow> string \<Rightarrow> protocol_event list option" where
  "parseColorQuery S content =
     (case (map_of [(''10;?'', (''10'', Foreground)), (''11;?'', (''11'', Background)), (''12;?'', (''12'', Cursor))] content, colorProvider S) of
        (Some (code, target), Some provider) \<Rightarrow> map_option (\<lambda>d. [Response d]) (formatOscColorResponse code (provider target))
      | _ \<Rightarrow> None)"

section \<open>Progress\<close>

definition parsePercent :: "string option \<Rightarrow> rat option" where
  "parsePercent raw = (case raw of
      None \<Rightarrow> None
    | Some s \<Rightarrow> if s = [] then None
        else (case js_Number s of JFin r \<Rightarrow> if r < 0 \<or> r > 100 then None else Some r | _ \<Rightarrow> None))"

text \<open>What the state table inherits: names whose value is no function or throws without an object, and
  names whose call answers something that is not an update.\<close>

definition INHERITED_THROWING :: "string list" where
  "INHERITED_THROWING = [''__proto__'', ''__defineGetter__'', ''__defineSetter__'', ''__lookupGetter__'', ''__lookupSetter__'',
     ''hasOwnProperty'', ''propertyIsEnumerable'', ''toLocaleString'', ''valueOf'']"

definition INHERITED_ODD :: "string list" where
  "INHERITED_ODD = [''constructor'', ''toString'']"

definition parseOsc94 :: "string \<Rightarrow> thrown + protocol_event option" where
  "parseOsc94 content =
     (let fs = split_on CHR '';'' content;
          key = (case nth_field fs 2 of Some k \<Rightarrow> k | None \<Rightarrow> []);
          raw = nth_field fs 3
      in if key = [] \<or> key = ''0'' then Inr (Some (Progress ProgClear None))
         else if key = ''1'' then Inr (map_option (\<lambda>q. Progress ProgNormal (Some q)) (parsePercent raw))
         else if key = ''2'' then Inr (Some (Progress ProgError (parsePercent raw)))
         else if key = ''3'' then Inr (Some (Progress ProgIndeterminate None))
         else if key = ''4'' then Inr (map_option (\<lambda>q. Progress ProgWarning (Some q)) (parsePercent raw))
         else if key \<in> set INHERITED_THROWING then Inl ThrownTypeError
         else if key \<in> set INHERITED_ODD then Inr (Some OddProgress)
         else Inr None)"

text \<open>\<open>/^9;(\d+)(?:;|$)/\<close>: the subcommand and what follows the match.\<close>

definition osc9_subcommand :: "string \<Rightarrow> (string \<times> string) option" where
  "osc9_subcommand content =
     (if \<not> starts_with ''9;'' content then None
      else let d = takeWhile is_digit (drop 2 content); r = dropWhile is_digit (drop 2 content)
           in if d = [] \<or> r \<noteq> [] \<and> hd r \<noteq> CHR '';'' then None else Some (d, tl r))"

definition parseOsc9 :: "rat \<Rightarrow> string \<Rightarrow> thrown + protocol_event list" where
  "parseOsc9 now content = (case osc9_subcommand content of
      None \<Rightarrow> Inr (case sanitizeText (drop 2 content) BODY_LIMIT of
          None \<Rightarrow> [] | Some b \<Rightarrow> [Notification \<lparr>nsource = OSC9, ntitle = None, nbody = Some b\<rparr>])
    | Some (d, r) \<Rightarrow>
        if d = ''4'' then (case parseOsc94 content of Inl x \<Rightarrow> Inl x | Inr e \<Rightarrow> Inr (case e of None \<Rightarrow> [] | Some ev \<Rightarrow> [ev]))
        else if d = ''9'' then Inr (cwd_events (cwdFromOsc9_9 r now))
        else Inr [])"

definition notification_events :: "notification_source \<Rightarrow> string option \<Rightarrow> string option \<Rightarrow> protocol_event list" where
  "notification_events src title body =
     (if title = None \<and> body = None then [] else [Notification \<lparr>nsource = src, ntitle = title, nbody = body\<rparr>])"

definition parseOsc777 :: "string \<Rightarrow> protocol_event list" where
  "parseOsc777 content =
     (if \<not> starts_with ''777;notify;'' content then []
      else let rest = drop (length ''777;notify;'') content;
               (rawTitle, rawBody) = (case split_at '';'' rest of None \<Rightarrow> (rest, []) | Some (t, b) \<Rightarrow> (t, b))
           in notification_events OSC777 (sanitizeText rawTitle TITLE_LIMIT) (sanitizeText rawBody BODY_LIMIT))"

section \<open>Notifications in chunks\<close>

definition metadata_part :: "string \<Rightarrow> (char \<times> string) list \<Rightarrow> (char \<times> string) list" where
  "metadata_part part m = (case split_at ''='' part of
      Some ([k], v) \<Rightarrow> if is_letter k then js_map_set k v m else m
    | _ \<Rightarrow> m)"

definition parseOsc99Metadata :: "string \<Rightarrow> (char \<times> string) list" where
  "parseOsc99Metadata raw = fold metadata_part (split_on CHR '':'' raw) []"

definition sanitizeOsc99Id :: "string option \<Rightarrow> string option" where
  "sanitizeOsc99Id i = (case i of None \<Rightarrow> None | Some s \<Rightarrow> if s = [] then None else sanitizeText s TITLE_LIMIT)"

definition response_id_char :: "char \<Rightarrow> bool" where
  "response_id_char c = (is_letter c \<or> is_digit c \<or> c \<in> set ''_+.-'')"

definition OSC99_RESPONSE_ID_RE :: "string \<Rightarrow> bool" where
  "OSC99_RESPONSE_ID_RE s = (s \<noteq> [] \<and> length s \<le> 64 \<and> list_all response_id_char s)"

definition formatOsc99SupportResponse :: "string option \<Rightarrow> string" where
  "formatOsc99SupportResponse i =
     (let metadata = (case i of Some s \<Rightarrow> if OSC99_RESPONSE_ID_RE s then ''i='' @ s @ '':p=?'' else ''p=?'' | None \<Rightarrow> ''p=?'')
      in [esc] @ '']99;'' @ metadata @ '';'' @ OSC99_SUPPORT_PAYLOAD @ [esc, bslash])"

definition appendLimited :: "string \<Rightarrow> string \<Rightarrow> nat \<Rightarrow> string" where
  "appendLimited existing added limit = truncateText (existing @ added) limit"

definition expireOsc99Pending :: "int \<Rightarrow> (string \<times> osc99_pending) list \<Rightarrow> (string \<times> osc99_pending) list" where
  "expireOsc99Pending now m = filter (\<lambda>kv. \<not> o99_updated (snd kv) < now - OSC99_PENDING_TTL_MS) m"

definition enforceOsc99PendingCap :: "(string \<times> osc99_pending) list \<Rightarrow> (string \<times> osc99_pending) list" where
  "enforceOsc99PendingCap m = drop (length m - OSC99_MAX_PENDING_IDS) m"

definition osc99_decode :: "(nat \<Rightarrow> char) \<Rightarrow> (char \<times> string) list \<Rightarrow> string \<Rightarrow> string option" where
  "osc99_decode wide metadata raw =
     (let encoding = (case map_of metadata CHR ''e'' of Some e \<Rightarrow> e | None \<Rightarrow> ''0'')
      in if encoding = ''1'' then decodeBase64 wide raw else if encoding = ''0'' then Some raw else None)"

text \<open>A title or body chunk appended to what is collected.\<close>

definition osc99_append :: "string \<Rightarrow> string \<Rightarrow> osc99_pending \<Rightarrow> osc99_pending" where
  "osc99_append payloadType payload t =
     (if payloadType = ''title'' then t\<lparr>o99_title := appendLimited (o99_title t) payload OSC99_PENDING_TITLE_LIMIT\<rparr>
      else if payloadType = ''body'' then t\<lparr>o99_body := appendLimited (o99_body t) payload OSC99_PENDING_BODY_LIMIT\<rparr>
      else t)"

definition osc99_fresh :: "int \<Rightarrow> osc99_pending" where
  "osc99_fresh now = \<lparr>o99_title = [], o99_body = [], o99_updated = now\<rparr>"

text \<open>The entry of an id is made when it is new.\<close>

definition osc99_open :: "int \<Rightarrow> string option \<Rightarrow> (string \<times> osc99_pending) list \<Rightarrow> (string \<times> osc99_pending) list" where
  "osc99_open now oid m = (case oid of
      None \<Rightarrow> m
    | Some i \<Rightarrow> if map_of m i = None then enforceOsc99PendingCap (js_map_set i (osc99_fresh now) m) else m)"

text \<open>A decoded chunk: it is collected, and the last one makes the notification.\<close>

definition osc99_chunk :: "int \<Rightarrow> string option \<Rightarrow> bool \<Rightarrow> string \<Rightarrow> string \<Rightarrow> (string \<times> osc99_pending) list \<Rightarrow>
  (string \<times> osc99_pending) list \<times> protocol_event list" where
  "osc99_chunk now oid fin payloadType payload m0 =
     (let m = osc99_open now oid m0;
          target = (case Option.bind oid (map_of m) of Some t \<Rightarrow> t | None \<Rightarrow> osc99_fresh now);
          collected = (osc99_append payloadType payload target)\<lparr>o99_updated := now\<rparr>
      in if \<not> fin then (case oid of None \<Rightarrow> m | Some i \<Rightarrow> js_map_set i collected m, [])
         else (case oid of None \<Rightarrow> m | Some i \<Rightarrow> js_map_delete i m,
               notification_events OSC99 (sanitizeText (o99_title collected) TITLE_LIMIT) (sanitizeText (o99_body collected) BODY_LIMIT)))"

definition parseOsc99 :: "(nat \<Rightarrow> char) \<Rightarrow> int \<Rightarrow> string \<Rightarrow> (string \<times> osc99_pending) list \<Rightarrow> (string \<times> osc99_pending) list \<times> protocol_event list" where
  "parseOsc99 wide now content m =
     (let m0 = expireOsc99Pending now m in
      if \<not> starts_with ''99;'' content then (m0, [])
      else let (rawMetadata, rawPayload) = (case split_at '';'' (drop 3 content) of None \<Rightarrow> (drop 3 content, []) | Some (a, b) \<Rightarrow> (a, b));
               metadata = parseOsc99Metadata rawMetadata;
               payloadType = (case map_of metadata CHR ''p'' of Some p \<Rightarrow> p | None \<Rightarrow> ''title'')
           in if payloadType = ''?'' then (m0, [Response (formatOsc99SupportResponse (map_of metadata CHR ''i''))])
              else if payloadType = ''close'' \<or> payloadType = ''alive'' then (m0, [])
              else case osc99_decode wide metadata rawPayload of
                     None \<Rightarrow> (m0, [])
                   | Some payload \<Rightarrow> osc99_chunk now (sanitizeOsc99Id (map_of metadata CHR ''i''))
                       (map_of metadata CHR ''d'' \<noteq> Some ''0'') payloadType payload m0)"

section \<open>The parser\<close>

definition parse_tool :: "(nat \<Rightarrow> char) \<Rightarrow> string \<Rightarrow> protocol_event list" where
  "parse_tool wide payload = (case parseToolAnnounce wide payload of
      Some a \<Rightarrow> [ToolAnnounced a]
    | None \<Rightarrow> (case parseToolState wide payload of
        Some d \<Rightarrow> [ToolStated d]
      | None \<Rightarrow> (case parseToolOpen wide payload of
          Some r \<Rightarrow> [ToolOpened r]
        | None \<Rightarrow> (case parseToolDehydrate wide payload of Some d \<Rightarrow> [ToolDehydrated d] | None \<Rightarrow> []))))"

text \<open>The events of a complete OSC, or \<open>None\<close> if it is the renderer's.\<close>

definition parseOsc :: "protocol_services \<Rightarrow> int \<Rightarrow> string \<Rightarrow> protocol_parser \<Rightarrow> protocol_parser \<times> (thrown + protocol_event list option)" where
  "parseOsc S now content p =
     (let t = rat_of_int now in
      if osc_is ''7'' content then (p, Inr (Some (parseOsc7 S t content)))
      else if osc_is ''9'' content then (p, case parseOsc9 t content of Inl x \<Rightarrow> Inl x | Inr es \<Rightarrow> Inr (Some es))
      else if osc_is ''133'' content then (p, Inr (Some (parseOsc133 (wide_chars S) content)))
      else if osc_is ''633'' content then (p, Inr (Some (parseOsc633 t content)))
      else if osc_is ''1337'' content then (p, Inr (parseOsc1337 t content))
      else if osc_is ''0'' content then (p, Inr (Some (parseOscTitle content TOsc0)))
      else if osc_is ''2'' content then (p, Inr (Some (parseOscTitle content TOsc2)))
      else if osc_is ''99'' content then
        (let (m, es) = parseOsc99 (wide_chars S) now content (osc99Pending p) in (p\<lparr>osc99Pending := m\<rparr>, Inr (Some es)))
      else if osc_is ''777'' content then (p, Inr (Some (parseOsc777 content)))
      else if content = ''367'' then (p, Inr (Some []))
      else if starts_with ''367;'' content then (p, Inr (Some (parse_tool (wide_chars S) (drop 4 content))))
      else if osc_is ''52'' content then (p, Inr (Some (parseOsc52 (wide_chars S) content)))
      else case parseColorQuery S content of
             Some es \<Rightarrow> (p, Inr (Some es))
           | None \<Rightarrow> (p, Inr (if isKnownUnsupportedIterm2Osc content then Some [] else None)))"

definition held_esc :: "string \<Rightarrow> string" where
  "held_esc s = (if ends_with [esc] s then [esc] else [])"

definition beginForwarding :: "string_kind \<Rightarrow> string \<Rightarrow> protocol_parser \<Rightarrow> protocol_parser \<times> string" where
  "beginForwarding kind s p = (p\<lparr>forwarding := Some (kind, held_esc s)\<rparr>, if held_esc s = [] then s else butlast s)"

text \<open>A string control whose end these characters do not hold.\<close>

definition hold_incomplete :: "string_kind \<Rightarrow> string \<Rightarrow> string \<Rightarrow> protocol_parser \<Rightarrow> protocol_parser \<times> string" where
  "hold_incomplete kind introducer r p =
     (let incomplete = introducer @ r;
          disposition = (if kind = OscString then oscDispositionAt r else Some Forward)
      in if disposition = Some Forward then beginForwarding kind incomplete p
         else if length incomplete \<le> OSC_INCOMPLETE_LIMIT then (p\<lparr>pending := incomplete\<rparr>, [])
         else (p\<lparr>discarding := Some (held_esc incomplete)\<rparr>, []))"

text \<open>What becomes of a complete one: the text it leaves and its events. The last argument is the text from
  the payload on, which is all the routing of a cancelled OSC looks at.\<close>

definition take_control ::
  "protocol_services \<Rightarrow> int \<Rightarrow> string_kind \<Rightarrow> string \<Rightarrow> string \<Rightarrow> string \<Rightarrow> bool \<Rightarrow> string \<Rightarrow> protocol_parser \<Rightarrow>
   protocol_parser \<times> (thrown + string \<times> protocol_event list)" where
  "take_control S now kind introducer payload terminator cancelled r p =
     (let sq = introducer @ payload @ terminator
      in if kind \<noteq> OscString then (p, Inr (sq, []))
         else if cancelled then (p, Inr (if oscDispositionAt r = Some Forward then sq else [], []))
         else case parseOsc S now payload p of
                (p1, Inl x) \<Rightarrow> (p1, Inl x)
              | (p1, Inr None) \<Rightarrow> (p1, Inr (sq, []))
              | (p1, Inr (Some es)) \<Rightarrow> (p1, Inr ([], es)))"

definition ground_part :: "string \<Rightarrow> string \<times> protocol_event list" where
  "ground_part s = (let (t, bells) = stripStandaloneBells s; (u, answers) = answerDeviceAttributeQueries t in (u, bells @ answers))"

definition ground_tail :: "string \<Rightarrow> protocol_parser \<Rightarrow> protocol_parser \<times> string \<times> protocol_event list" where
  "ground_tail s p =
     (let (t, bells) = stripStandaloneBells s;
          held = takeDeviceAttributePendingSuffix t;
          (u, answers) = answerDeviceAttributeQueries (take (length t - length held) t)
      in (p\<lparr>pending := held\<rparr>, u, bells @ answers))"

lemma end_at_split: "end_at q r = Some (payload, t, u, c) \<Longrightarrow> payload = q \<and> r = t @ u"
proof (cases r)
  case (Cons d w)
  then show "end_at q r = Some (payload, t, u, c) \<Longrightarrow> payload = q \<and> r = t @ u"
    by (cases w) (simp_all add: end_at_def split: if_split_asm)
qed (simp add: end_at_def)

lemma findStringControlEnd_split: "findStringControlEnd kind s = Some (payload, t, r, c) \<Longrightarrow> s = payload @ t @ r"
  unfolding findStringControlEnd_def by (drule end_at_split) (metis takeWhile_dropWhile_id)

lemma loop_shorter:
  assumes "find_introducer s = Some (g, introducer, r)" "findStringControlEnd kind r = Some (payload, t, u, c)"
  shows "length u < length s"
proof -
  have "s = g @ introducer @ r" "introducer \<noteq> []" using find_introducer_split [OF assms(1)] by blast+
  moreover have "r = payload @ t @ u" using assms(2) by (rule findStringControlEnd_split)
  ultimately show ?thesis by simp
qed

text \<open>The loop of \<open>process\<close> on the text that is left: visible data, text data and events.\<close>

function ground_loop ::
  "protocol_services \<Rightarrow> int \<Rightarrow> string \<Rightarrow> protocol_parser \<Rightarrow> protocol_parser \<times> (thrown + string \<times> string \<times> protocol_event list)" where
  "ground_loop S now s p =
     (if s = [] then (p, Inr ([], [], []))
      else case find_introducer s of
         None \<Rightarrow> (let (p1, ground, es) = ground_tail s p in (p1, Inr (ground, ground, es)))
       | Some (g, introducer, r) \<Rightarrow>
           (let (gap, es) = ground_part g; kind = stringControlKind introducer
            in case findStringControlEnd kind r of
                 None \<Rightarrow> (let (p1, out) = hold_incomplete kind introducer r p in (p1, Inr (gap @ out, gap, es)))
               | Some (payload, terminator, rest, cancelled) \<Rightarrow>
                   (case take_control S now kind introducer payload terminator cancelled r p of
                      (p1, Inl x) \<Rightarrow> (p1, Inl x)
                    | (p1, Inr (out, es1)) \<Rightarrow>
                        (case ground_loop S now rest p1 of
                           (p2, Inl x) \<Rightarrow> (p2, Inl x)
                         | (p2, Inr (vis, txt, es2)) \<Rightarrow> (p2, Inr (gap @ out @ vis, gap @ txt, es @ es1 @ es2))))))"
  by pat_completeness auto
termination
  by (relation "measure (\<lambda>(S, now, s, p). length s)") (auto intro: loop_shorter)

declare ground_loop.simps [simp del]

definition needs_parse :: "string \<Rightarrow> bool" where
  "needs_parse s = (list_ex (\<lambda>c. c \<in> {bel, esc, CHR 0x9B}) s \<or> find_introducer s \<noteq> None)"

definition process_ground :: "protocol_services \<Rightarrow> int \<Rightarrow> string \<Rightarrow> protocol_parser \<Rightarrow> protocol_parser \<times> (thrown + parse_result)" where
  "process_ground S now data p =
     (if pending p = [] \<and> \<not> needs_parse data
      then (p, Inr \<lparr>visibleData = data, textData = data, events = [], resumedStringEnd = Some 0\<rparr>)
      else case ground_loop S now (pending p @ data) (p\<lparr>pending := []\<rparr>) of
             (p1, Inl x) \<Rightarrow> (p1, Inl x)
           | (p1, Inr (vis, txt, es)) \<Rightarrow>
               (p1, Inr \<lparr>visibleData = vis, textData = txt, events = filterTerminalBellEvents es, resumedStringEnd = Some 0\<rparr>))"

definition processForwarded ::
  "protocol_services \<Rightarrow> int \<Rightarrow> string_kind \<Rightarrow> string \<Rightarrow> string \<Rightarrow> protocol_parser \<Rightarrow> protocol_parser \<times> (thrown + parse_result)" where
  "processForwarded S now kind heldEsc data p =
     (case findStringControlEnd kind (heldEsc @ data) of
        None \<Rightarrow> (let (p1, out) = beginForwarding kind (heldEsc @ data) p
                in (p1, Inr \<lparr>visibleData = out, textData = [], events = [], resumedStringEnd = None\<rparr>))
      | Some (payload, terminator, rest, _) \<Rightarrow>
          (case process_ground S now rest (p\<lparr>forwarding := None\<rparr>) of
             (p1, Inl x) \<Rightarrow> (p1, Inl x)
           | (p1, Inr res) \<Rightarrow> (p1, Inr (res\<lparr>visibleData := payload @ terminator @ visibleData res,
               resumedStringEnd := Some (length (payload @ terminator))\<rparr>))))"

definition process_undiscarded :: "protocol_services \<Rightarrow> int \<Rightarrow> string \<Rightarrow> protocol_parser \<Rightarrow> protocol_parser \<times> (thrown + parse_result)" where
  "process_undiscarded S now data p = (case forwarding p of
      Some (kind, heldEsc) \<Rightarrow> processForwarded S now kind heldEsc data p
    | None \<Rightarrow> process_ground S now data p)"

definition process :: "protocol_services \<Rightarrow> int \<Rightarrow> string \<Rightarrow> protocol_parser \<Rightarrow> protocol_parser \<times> (thrown + parse_result)" where
  "process S now data p = (case discarding p of
      None \<Rightarrow> process_undiscarded S now data p
    | Some heldEsc \<Rightarrow>
        (case findStringControlEnd OscString (heldEsc @ data) of
           None \<Rightarrow> (p\<lparr>discarding := Some (held_esc (heldEsc @ data))\<rparr>,
             Inr \<lparr>visibleData = [], textData = [], events = [], resumedStringEnd = Some 0\<rparr>)
         | Some (_, _, rest, _) \<Rightarrow> process_undiscarded S now rest (p\<lparr>discarding := None\<rparr>)))"

definition textProjectionOf :: "parse_result \<Rightarrow> string option" where
  "textProjectionOf r = (if textData r = visibleData r then None else Some (textData r))"

section \<open>Handing events on\<close>

text \<open>A clock whose readings only grow; the state is the latest reading it gave.\<close>

definition next_timestamp :: "rat \<Rightarrow> rat option \<Rightarrow> rat" where
  "next_timestamp candidate latest = (case latest of None \<Rightarrow> candidate | Some l \<Rightarrow> if candidate > l then candidate else l + 1 / 1000)"

definition timestampSemanticEvent :: "rat \<Rightarrow> rat option \<Rightarrow> semantic_event \<Rightarrow> semantic_event \<times> rat option" where
  "timestampSemanticEvent candidate latest e =
     (let t = next_timestamp candidate latest
      in case e of
           CwdEvent c \<Rightarrow> (CwdEvent (c\<lparr>cupdated := t\<rparr>), Some t)
         | CommandStart src _ \<Rightarrow> (CommandStart src (Some t), Some t)
         | CommandFinish code _ \<Rightarrow> (CommandFinish code (Some t), Some t)
         | TitleEvent x \<Rightarrow> (TitleEvent (x\<lparr>tupdated := t\<rparr>), Some t)
         | _ \<Rightarrow> (e, latest))"

definition source_name :: "notification_source \<Rightarrow> string" where
  "source_name src = fst (the (find (\<lambda>x. snd x = src) ACTIVITY_NOTIFICATION_SOURCES))"

definition semanticEventOf :: "rat \<Rightarrow> rat option \<Rightarrow> protocol_event \<Rightarrow> semantic_event option \<times> rat option" where
  "semanticEventOf candidate latest e = (case e of
      Semantic x \<Rightarrow> (let (y, l) = timestampSemanticEvent candidate latest x in (Some y, l))
    | Notification n \<Rightarrow>
        (let t = next_timestamp candidate latest
         in (map_option TitleEvent (terminalTitleFromNotification (source_name (nsource n)) (ntitle n) (nbody n) t), Some t))
    | _ \<Rightarrow> (None, latest))"

datatype sink_call =
    SemanticCall "semantic_event list"
  | NotifyCall activity_notification
  | ProgressCall progress_state "rat option"
  | OddProgressCall

definition applyTerminalReport :: "protocol_event \<Rightarrow> sink_call list" where
  "applyTerminalReport e = (case e of
      Notification n \<Rightarrow> [NotifyCall n] | Progress st q \<Rightarrow> [ProgressCall st q] | OddProgress \<Rightarrow> [OddProgressCall] | _ \<Rightarrow> [])"

definition applySemantic :: "semantic_event list \<Rightarrow> sink_call list" where
  "applySemantic run = (if run = [] then [] else [SemanticCall run])"

text \<open>The loop of \<open>applyTerminalEvents\<close>: the clock gives a reading for each event; \<open>run\<close> are the semantic events
  not handed over yet. The calls on the sink, the semantic events, and the latest timestamp.\<close>

fun apply_loop :: "(nat \<Rightarrow> rat) \<Rightarrow> nat \<Rightarrow> rat option \<Rightarrow> semantic_event list \<Rightarrow> protocol_event list \<Rightarrow>
  sink_call list \<times> semantic_event list \<times> rat option" where
  "apply_loop clock k latest run [] = (applySemantic run, [], latest)"
| "apply_loop clock k latest run (e # es) =
     (let (x, l) = semanticEventOf (clock k) latest e; xs = (case x of Some y \<Rightarrow> [y] | None \<Rightarrow> []) in
      if applyTerminalReport e \<noteq> [] then
        (let (cs, all, l') = apply_loop clock (Suc k) l [] es in (applySemantic (run @ xs) @ applyTerminalReport e @ cs, xs @ all, l'))
      else (let (cs, all, l') = apply_loop clock (Suc k) l (run @ xs) es in (cs, xs @ all, l')))"

definition applyTerminalEvents :: "(nat \<Rightarrow> rat) \<Rightarrow> rat option \<Rightarrow> protocol_event list \<Rightarrow> sink_call list \<times> semantic_event list \<times> rat option" where
  "applyTerminalEvents clock latest es = (if es = [] then ([], [], latest) else apply_loop clock 0 latest [] es)"

fun collect_loop :: "(nat \<Rightarrow> rat) \<Rightarrow> nat \<Rightarrow> rat option \<Rightarrow> protocol_event list \<Rightarrow> semantic_event list \<times> rat option" where
  "collect_loop clock k latest [] = ([], latest)"
| "collect_loop clock k latest (e # es) =
     (let (x, l) = semanticEventOf (clock k) latest e; (all, l') = collect_loop clock (Suc k) l es
      in ((case x of Some y \<Rightarrow> [y] | None \<Rightarrow> []) @ all, l'))"

definition collectTerminalSemanticEvents :: "(nat \<Rightarrow> rat) \<Rightarrow> rat option \<Rightarrow> protocol_event list \<Rightarrow> semantic_event list \<times> rat option" where
  "collectTerminalSemanticEvents clock latest es = collect_loop clock 0 latest es"

definition isProtocolCommandStart :: "protocol_event \<Rightarrow> bool" where
  "isProtocolCommandStart e = (case e of Semantic (CommandStart _ _) \<Rightarrow> True | _ \<Rightarrow> False)"

definition collectTerminalToolEvents :: "protocol_event list \<Rightarrow> protocol_event list" where
  "collectTerminalToolEvents es = filter (\<lambda>e. (case e of ToolAnnounced _ \<Rightarrow> True | ToolStated _ \<Rightarrow> True | ToolOpened _ \<Rightarrow> True
     | ToolDehydrated _ \<Rightarrow> True | _ \<Rightarrow> False) \<or> isProtocolCommandStart e) es"

definition collectTerminalProtocolResponses :: "protocol_event list \<Rightarrow> string list" where
  "collectTerminalProtocolResponses es = List.map_filter (\<lambda>e. case e of Response d \<Rightarrow> Some d | _ \<Rightarrow> None) es"

definition collectTerminalClipboardOffers :: "protocol_event list \<Rightarrow> string list" where
  "collectTerminalClipboardOffers es = List.map_filter (\<lambda>e. case e of ClipboardOffer t \<Rightarrow> Some t | _ \<Rightarrow> None) es"

end
