(* ===== verification/Protocol_Correct.thy ===== *)
theory Protocol_Correct
  imports Terminal_Protocol
begin

text \<open>
  What the parser of terminal output (\<open>lib/src/lib/terminal-protocol.ts\<close>) guarantees of one read: the
  bounds of what it holds between reads, the cleanliness of every event it makes of untrusted output,
  and the one way it can throw.
\<close>

section \<open>What is held between reads\<close>

definition osc99_ok :: "(string \<times> osc99_pending) list \<Rightarrow> bool" where
  "osc99_ok m = (distinct (map fst m) \<and> length m \<le> OSC99_MAX_PENDING_IDS \<and>
     (\<forall>(i, t) \<in> set m. length i \<le> TITLE_LIMIT \<and> length (o99_title t) \<le> OSC99_PENDING_TITLE_LIMIT \<and> length (o99_body t) \<le> OSC99_PENDING_BODY_LIMIT))"

definition ground_parser :: "protocol_parser \<Rightarrow> bool" where
  "ground_parser p = (forwarding p = None \<and> discarding p = None)"

definition parser_inv :: "protocol_parser \<Rightarrow> bool" where
  "parser_inv p =
     (length (pending p) \<le> OSC_INCOMPLETE_LIMIT \<and> osc99_ok (osc99Pending p) \<and>
      (forwarding p \<noteq> None \<or> discarding p \<noteq> None \<longrightarrow> pending p = []) \<and> \<not> (forwarding p \<noteq> None \<and> discarding p \<noteq> None) \<and>
      pred_option (\<lambda>(kind, h). h \<in> {[], [esc]}) (forwarding p) \<and> pred_option (\<lambda>h. h \<in> {[], [esc]}) (discarding p))"

lemma expire_ok: "osc99_ok m \<Longrightarrow> osc99_ok (expireOsc99Pending now m)"
  unfolding osc99_ok_def expireOsc99Pending_def
  by (auto simp: distinct_map_filter intro: order_trans [OF length_filter_le])

lemma cap_ok: "distinct (map fst m) \<Longrightarrow> (\<And>i t. (i, t) \<in> set m \<Longrightarrow> length i \<le> TITLE_LIMIT \<and> length (o99_title t) \<le> OSC99_PENDING_TITLE_LIMIT \<and> length (o99_body t) \<le> OSC99_PENDING_BODY_LIMIT) \<Longrightarrow>
  osc99_ok (enforceOsc99PendingCap m)"
  unfolding osc99_ok_def enforceOsc99PendingCap_def by (auto simp: drop_map [symmetric] dest: in_set_dropD)

lemma set_entry:
  assumes "osc99_ok m" "i \<in> fst ` set m" "length (o99_title t) \<le> OSC99_PENDING_TITLE_LIMIT" "length (o99_body t) \<le> OSC99_PENDING_BODY_LIMIT"
  shows "osc99_ok (js_map_set i t m)"
proof -
  have "length (js_map_set i t m) = length m" using assms(2) by (induction i t m rule: js_map_set.induct) auto
  moreover have "length i \<le> TITLE_LIMIT" using assms(1,2) by (auto simp: osc99_ok_def)
  ultimately show ?thesis using assms js_map_set_distinct [of m i t] by (auto simp: osc99_ok_def dest!: js_map_set_set)
qed

lemma delete_ok: "osc99_ok m \<Longrightarrow> osc99_ok (js_map_delete i m)"
  unfolding osc99_ok_def js_map_delete_def by (auto simp: distinct_map_filter intro: order_trans [OF length_filter_le])

lemma append_ok:
  "length (o99_title t) \<le> OSC99_PENDING_TITLE_LIMIT \<and> length (o99_body t) \<le> OSC99_PENDING_BODY_LIMIT \<Longrightarrow>
   length (o99_title (osc99_append ty pl t)) \<le> OSC99_PENDING_TITLE_LIMIT \<and> length (o99_body (osc99_append ty pl t)) \<le> OSC99_PENDING_BODY_LIMIT"
  by (simp add: osc99_append_def appendLimited_def truncateText_length)

lemma id_length: "sanitizeOsc99Id i = Some s \<Longrightarrow> length s \<le> TITLE_LIMIT"
  by (auto simp: sanitizeOsc99Id_def split: option.splits if_splits dest: sanitizeText_clean)

text \<open>The entry a chunk belongs to, made if it is new.\<close>

lemma open_osc99_ok:
  assumes "osc99_ok m" "length i \<le> TITLE_LIMIT"
  shows "osc99_ok (osc99_open now (Some i) m) \<and> i \<in> fst ` set (osc99_open now (Some i) m)"
proof (cases "map_of m i = None")
  case True
  then have "js_map_set i t m = m @ [(i, t)]" for t by (intro js_map_set_new) (simp add: map_of_eq_None_iff)
  then have m1: "osc99_open now (Some i) m = enforceOsc99PendingCap (m @ [(i, osc99_fresh now)])" using True by (simp add: osc99_open_def)
  have "osc99_ok (enforceOsc99PendingCap (m @ [(i, osc99_fresh now)]))"
    using assms True by (intro cap_ok) (auto simp: osc99_ok_def map_of_eq_None_iff osc99_fresh_def)
  moreover have "i \<in> fst ` set (enforceOsc99PendingCap (m @ [(i, osc99_fresh now)]))"
    using assms(1) by (auto simp: enforceOsc99PendingCap_def OSC99_MAX_PENDING_IDS_def osc99_ok_def)
  ultimately show ?thesis by (simp add: m1)
next
  case False
  then show ?thesis using assms(1) by (auto simp: osc99_open_def map_of_eq_None_iff)
qed

lemma chunk_ok:
  assumes "osc99_ok m" "pred_option (\<lambda>i. length i \<le> TITLE_LIMIT) oid"
  shows "osc99_ok (fst (osc99_chunk now oid fin ty pl m))"
proof (cases oid)
  case None
  then show ?thesis using assms(1) by (simp add: osc99_chunk_def osc99_open_def Let_def)
next
  case (Some i)
  let ?m = "osc99_open now (Some i) m"
  have m: "osc99_ok ?m" "i \<in> fst ` set ?m" using open_osc99_ok [OF assms(1), of i] assms(2) Some by simp_all
  let ?t = "case map_of ?m i of Some t \<Rightarrow> t | None \<Rightarrow> osc99_fresh now"
  have "length (o99_title ?t) \<le> OSC99_PENDING_TITLE_LIMIT \<and> length (o99_body ?t) \<le> OSC99_PENDING_BODY_LIMIT"
    using m(1) by (auto simp: osc99_ok_def osc99_fresh_def dest!: map_of_SomeD split: option.splits)
  from append_ok [OF this, of ty pl] show ?thesis
    using Some m set_entry [OF m] delete_ok [OF m(1)] by (simp add: osc99_chunk_def Let_def)
qed

lemma parseOsc99_ok: "osc99_ok m \<Longrightarrow> osc99_ok (fst (parseOsc99 wide now content m))"
proof -
  assume "osc99_ok m"
  then have m: "osc99_ok (expireOsc99Pending now m)" by (rule expire_ok)
  have "pred_option (\<lambda>i. length i \<le> TITLE_LIMIT) (sanitizeOsc99Id i)" for i using id_length by (auto simp: option.pred_set)
  from chunk_ok [OF m this] show ?thesis using m by (auto simp: parseOsc99_def Let_def split: prod.split option.split)
qed

lemma parseOsc_keeps:
  "fst (parseOsc S now content p) = p\<lparr>osc99Pending := osc99Pending (fst (parseOsc S now content p))\<rparr> \<and>
   (osc99_ok (osc99Pending p) \<longrightarrow> osc99_ok (osc99Pending (fst (parseOsc S now content p))))"
  using parseOsc99_ok [of "osc99Pending p" "wide_chars S" now content]
  by (auto simp: parseOsc_def Let_def split_beta split: option.split)

section \<open>What events carry\<close>

definition clean_text :: "nat \<Rightarrow> string \<Rightarrow> bool" where
  "clean_text n t = (length t \<le> n \<and> (\<forall>c \<in> set t. \<not> is_control c))"

definition cwd_ok :: "cwd_state \<Rightarrow> bool" where
  "cwd_ok c = (clean_value (cpath c) \<and> pred_option clean_value (chost c) \<and> pred_option clean_value (curi c))"

definition semantic_ok :: "semantic_event \<Rightarrow> bool" where
  "semantic_ok e = (case e of
      CwdEvent c \<Rightarrow> cwd_ok c
    | CommandLine l \<Rightarrow> length l \<le> COMMAND_LINE_LIMIT \<and> (\<forall>c \<in> set l. is_control c \<longrightarrow> c = newline)
    | TitleEvent t \<Rightarrow> clean_text TITLE_LIMIT (ttitle t)
    | _ \<Rightarrow> True)"

text \<open>The characters an answer may have between its introducer and its terminator: those of an OSC 99 id and the
  punctuation of the fixed texts.\<close>

definition response_char :: "char \<Rightarrow> bool" where
  "response_char c = (is_letter c \<or> is_digit c \<or> c \<in> set ''_+.-'' \<or> c \<in> set '']>|;:=?,/ '')"

definition response_ok :: "string \<Rightarrow> bool" where
  "response_ok d = (\<exists>t. d = [esc] @ t @ [esc, bslash] \<and> length t \<le> 96 \<and> list_all response_char t)"

definition event_ok :: "protocol_event \<Rightarrow> bool" where
  "event_ok e = (case e of
      Notification n \<Rightarrow> pred_option (clean_text TITLE_LIMIT) (ntitle n) \<and> pred_option (clean_text BODY_LIMIT) (nbody n)
    | ClipboardOffer t \<Rightarrow> t \<noteq> [] \<and> length t \<le> 12000 \<and> (\<forall>c \<in> set t. is_control c \<longrightarrow> c = newline \<or> c = tab_char)
    | ToolAnnounced a \<Rightarrow> announce_ok a
    | ToolOpened r \<Rightarrow> open_ok r
    | ToolDehydrated d \<Rightarrow> d \<noteq> [] \<and> length d \<le> TOOL_PAYLOAD_LIMIT
    | Progress st q \<Rightarrow> pred_option (\<lambda>x. 0 \<le> x \<and> x \<le> 100) q
    | Response d \<Rightarrow> response_ok d
    | Semantic x \<Rightarrow> semantic_ok x
    | _ \<Rightarrow> True)"

lemma sanitized_visible: "pred_option (clean_text n) (sanitizeText t n)"
  using sanitizeText_clean [of t n] by (cases "sanitizeText t n") (simp_all add: clean_text_def)

lemma cwd_events_ok [simp]: "pred_option cwd_ok c \<Longrightarrow> list_all event_ok (cwd_events c)"
  by (cases c) (simp_all add: cwd_events_def event_ok_def semantic_ok_def)

lemma cwds_ok: "pred_option cwd_ok (cwdFromOsc7 U raw now)" "pred_option cwd_ok (cwdFromOsc9_9 raw now)"
  "pred_option cwd_ok (cwdFromOsc633 raw now)" "pred_option cwd_ok (cwdFromOsc1337 raw now)"
proof -
  have "cwd_ok c" if "c \<in> Option.these {cwdFromOsc7 U raw now, cwdFromOsc9_9 raw now, cwdFromOsc633 raw now, cwdFromOsc1337 raw now,
    cwdFromProcessPath raw now, cwdFromManualPath raw now}" for c
    using reported_cwd_clean [OF that] by (simp add: cwd_ok_def)
  then show "pred_option cwd_ok (cwdFromOsc7 U raw now)" "pred_option cwd_ok (cwdFromOsc9_9 raw now)"
    "pred_option cwd_ok (cwdFromOsc633 raw now)" "pred_option cwd_ok (cwdFromOsc1337 raw now)"
    by (auto simp: option.pred_set in_these_eq)
qed

lemma notification_events_ok [simp]:
  "list_all event_ok (notification_events src (sanitizeText t TITLE_LIMIT) (sanitizeText b BODY_LIMIT))"
  using sanitized_visible by (simp add: notification_events_def event_ok_def)

lemma command_line_events_ok [simp]: "list_all event_ok (commandLineEvents l n d)"
  using sanitizeCommandLine_clean by (auto simp: commandLineEvents_def event_ok_def semantic_ok_def split: option.split)

lemma prompt_boundary_ok [simp]: "list_all event_ok (parsePromptBoundary fs src)"
  by (simp add: parsePromptBoundary_def commandStartEvent_def event_ok_def semantic_ok_def split: option.split)

lemma osc7_ok: "list_all event_ok (parseOsc7 S now content)"
  using cwds_ok by (simp add: parseOsc7_def)

lemma osc133_ok: "list_all event_ok (parseOsc133 wide content)"
  by (simp add: parseOsc133_def parseOsc133CommandLine_def Let_def split: option.split)

lemma osc633_ok: "list_all event_ok (parseOsc633 now content)"
  using cwds_ok by (simp add: parseOsc633_def parseOsc633Property_def Let_def)

lemma osc1337_ok: "pred_option (list_all event_ok) (parseOsc1337 now content)"
  using cwds_ok by (simp add: parseOsc1337_def)

lemma title_ok: "list_all event_ok (parseOscTitle content src)"
  using sanitized_visible [of TITLE_LIMIT "drop 2 content"]
  by (cases "sanitizeText (drop 2 content) TITLE_LIMIT") (simp_all add: parseOscTitle_def event_ok_def semantic_ok_def)

text \<open>Every decoder of a clipboard payload leaves no more than it got: four characters of base64 are three bytes,
  a character takes a byte at least, and cleaning only drops.\<close>

lemma b64_bytes_length: "4 * length (b64_bytes ns) \<le> 3 * length ns"
  by (induction ns rule: b64_bytes.induct) auto

lemma utf8_points_length: "length (utf8_points bs) \<le> length bs"
proof (induction bs rule: utf8_points.induct)
  case (2 b bs)
  obtain c r where cr: "utf8_first b bs = (c, r)" by fastforce
  with "2.IH" [OF cr [symmetric]] utf8_first_length [OF cr] show ?case by simp
qed simp

lemma utf8_decode_length: "length (utf8_decode wide bs) \<le> length bs"
  using utf8_points_length [of "drop 3 bs"] utf8_points_length [of bs] by (auto simp: utf8_decode_def)

lemma js_atob_length: "js_atob s = Some bs \<Longrightarrow> 4 * length bs \<le> 3 * length s"
proof -
  assume "js_atob s = Some bs"
  moreover define d where "d = (if length s mod 4 = 0 then (if ends_with ''=='' s then take (length s - 2) s else if ends_with ''='' s then butlast s else s) else s)"
  ultimately have "bs = b64_bytes (map (\<lambda>c. the (b64_value c)) d)"
    unfolding js_atob_def Let_def d_def [symmetric] by (simp split: if_split_asm)
  moreover have "length d \<le> length s" by (simp add: d_def)
  ultimately show ?thesis using b64_bytes_length [of "map (\<lambda>c. the (b64_value c)) d"] by simp
qed

lemma decodeBase64_length: "decodeBase64 wide s = Some t \<Longrightarrow> 4 * length t \<le> 3 * length s"
proof -
  assume "decodeBase64 wide s = Some t"
  then obtain bs where "js_atob (js_trim s) = Some bs" "t = utf8_decode wide bs"
    by (auto simp: decodeBase64_def Let_def split: if_splits)
  with js_atob_length utf8_decode_length [of wide bs] js_trim_length [of s] show ?thesis
    by (meson le_trans mult_le_mono2)
qed

lemma line_feeds_length: "length (line_feeds s) \<le> length s"
proof (induction s rule: line_feeds.induct)
  case (2 c s)
  then show ?case by (cases s) (auto split: if_splits intro: le_SucI)
qed simp

lemma sanitizeClipboardText_length: "sanitizeClipboardText s = Some t \<Longrightarrow> length t \<le> length s"
  using line_feeds_length [of s]
  by (auto simp: sanitizeClipboardText_def Let_def split: if_splits intro: le_trans [OF length_filter_le])

lemma osc52_ok: "list_all event_ok (parseOsc52 wide content)"
proof -
  have "event_ok (ClipboardOffer t)"
    if short: "\<not> length d > CLIPBOARD_OFFER_LIMIT" and read: "Option.bind (decodeBase64 wide d) sanitizeClipboardText = Some t" for d t
  proof -
    obtain u where u: "decodeBase64 wide d = Some u" "sanitizeClipboardText u = Some t"
      using read by (cases "decodeBase64 wide d") auto
    have "4 * length u \<le> 3 * 16000"
      using decodeBase64_length [OF u(1)] short by (simp add: CLIPBOARD_OFFER_LIMIT_def)
    with sanitizeClipboardText_length [OF u(2)] sanitizeClipboardText_clean [OF u(2)] show ?thesis
      by (simp add: event_ok_def)
  qed
  moreover define d where "d = (if length (split_on CHR '';'' content) = 3 then filter (\<lambda>c. \<not> js_space c) (split_on CHR '';'' content ! 2) else [])"
  ultimately show ?thesis
    unfolding parseOsc52_def Let_def d_def [symmetric]
    by (cases "length d > CLIPBOARD_OFFER_LIMIT"; cases "Option.bind (decodeBase64 wide d) sanitizeClipboardText") simp_all
qed

lemma tool_ok: "list_all event_ok (parse_tool wide payload)"
  using announce_read_ok open_read_ok dehydrate_read_ok by (auto simp: parse_tool_def event_ok_def split: option.split)

lemma osc777_ok: "list_all event_ok (parseOsc777 content)"
  by (simp add: parseOsc777_def Let_def split_beta)

lemma percent_ok: "pred_option (\<lambda>x. 0 \<le> x \<and> x \<le> 100) (parsePercent raw)"
  by (auto simp: parsePercent_def split: option.split jsnum.split)

lemma osc94_ok: "parseOsc94 content = Inr (Some e) \<Longrightarrow> event_ok e"
  using percent_ok by (auto simp: parseOsc94_def Let_def event_ok_def option.pred_set split: if_split_asm)

lemma osc9_ok: "parseOsc9 now content = Inr es \<Longrightarrow> list_all event_ok es"
  using cwds_ok sanitized_visible [of BODY_LIMIT "drop 2 content"] osc94_ok [of content]
  by (cases "sanitizeText (drop 2 content) BODY_LIMIT")
    (auto simp: parseOsc9_def event_ok_def split: option.splits sum.splits if_split_asm)

lemma response_literals: "list_all response_char (OSC99_SUPPORT_PAYLOAD @ '']99;'' @ ''i='' @ '':p=?'' @ ''p=?'' @ '';'' @ '';rgb:'' @ ''/'' @ ''NaN'' @ ''0123456789abcdef'' @ ''101112'')"
  by code_simp

lemma response_id_char_ok: "response_id_char c \<Longrightarrow> response_char c"
  by (auto simp: response_id_char_def response_char_def)

lemma response_okI: "list_all response_char t \<Longrightarrow> length t \<le> 96 \<Longrightarrow> response_ok ([esc] @ t @ [esc, bslash])"
  unfolding response_ok_def by blast

lemma support_response_ok: "response_ok (formatOsc99SupportResponse i)"
proof -
  let ?m = "case i of Some s \<Rightarrow> if OSC99_RESPONSE_ID_RE s then ''i='' @ s @ '':p=?'' else ''p=?'' | None \<Rightarrow> ''p=?''"
  have "list_all response_char ?m \<and> length ?m \<le> 70"
    using response_literals response_id_char_ok by (auto simp: OSC99_RESPONSE_ID_RE_def list_all_iff split: option.split)
  then have "list_all response_char ('']99;'' @ ?m @ '';'' @ OSC99_SUPPORT_PAYLOAD)" "length ('']99;'' @ ?m @ '';'' @ OSC99_SUPPORT_PAYLOAD) \<le> 96"
    using response_literals by (simp_all add: OSC99_SUPPORT_PAYLOAD_def)
  from response_okI [OF this] show ?thesis by (simp add: formatOsc99SupportResponse_def)
qed

lemma hex_digit_ok: "k < 16 \<Longrightarrow> response_char (hex_digit k)"
  using response_literals nth_mem [of k "''0123456789abcdef''"] by (auto simp: hex_digit_def list_all_iff simp del: nth_mem)

lemma channel_ok: "list_all response_char (channel_hex x)" "length (channel_hex x) \<le> 3"
  using response_literals by (auto simp: channel_hex_def Let_def intro!: hex_digit_ok split: jsnum.split)

lemma color_response_ok:
  assumes "formatOscColorResponse code color = Some d" "list_all response_char code" "length code = 2"
  shows "response_ok d"
proof -
  let ?t = "\<lambda>rgb. '']'' @ code @ '';rgb:'' @ channel_hex (red rgb) @ channel_hex (red rgb) @ ''/'' @
      channel_hex (green rgb) @ channel_hex (green rgb) @ ''/'' @ channel_hex (blue rgb) @ channel_hex (blue rgb)"
  obtain c rgb where "color = Some c" "c \<noteq> []" "parseColor c = Some rgb"
    using assms(1) by (auto simp: formatOscColorResponse_def split: option.splits if_split_asm)
  with assms(1) have "d = [esc] @ ?t rgb @ [esc, bslash]" by (simp add: formatOscColorResponse_def)
  moreover have "list_all response_char (?t rgb)" for rgb using assms(2) response_literals channel_ok(1) by simp
  moreover have "length (?t rgb) \<le> 96" for rgb
    using channel_ok(2) [of "red rgb"] channel_ok(2) [of "green rgb"] channel_ok(2) [of "blue rgb"] assms(3) by simp
  ultimately show ?thesis using response_okI by blast
qed

lemma color_query_ok: "pred_option (list_all event_ok) (parseColorQuery S content)"
  using color_response_ok response_literals
  by (auto simp: parseColorQuery_def event_ok_def option.pred_set split: option.splits if_split_asm)

lemma device_response_ok: "event_ok (Response ITERM2_DEVICE_ATTRIBUTES_RESPONSE)"
proof -
  have "list_all response_char ''P>|iTerm2 3.6.6''" by code_simp
  from response_okI [OF this] show ?thesis by (simp add: event_ok_def ITERM2_DEVICE_ATTRIBUTES_RESPONSE_def)
qed

lemma bell_ok: "event_ok (Notification TERMINAL_BELL_NOTIFICATION)"
proof -
  have "list_all (\<lambda>c. \<not> is_control c) ''Terminal bell''" by code_simp
  then show ?thesis by (simp add: event_ok_def TERMINAL_BELL_NOTIFICATION_def clean_text_def TITLE_LIMIT_def list_all_iff)
qed

lemma osc99_events_ok: "list_all event_ok (snd (parseOsc99 wide now content m))"
proof -
  have "list_all event_ok (snd (osc99_chunk now oid fin ty pl m0))" for oid fin ty pl m0 by (simp add: osc99_chunk_def Let_def)
  then show ?thesis using support_response_ok by (auto simp: parseOsc99_def Let_def event_ok_def split_beta split: option.split)
qed

section \<open>What it takes to throw\<close>

text \<open>A progress report, OSC 9;4, whose state is one of the names.\<close>

definition throwing_report :: "string \<Rightarrow> bool" where
  "throwing_report s = list_ex (\<lambda>k. s = ''9;4;'' @ k \<or> starts_with (''9;4;'' @ k @ '';'') s) INHERITED_THROWING"

lemma first_field: "hd (split_on d s) = takeWhile (\<lambda>c. c \<noteq> d) s"
  by (induction s) (auto split: list.split)

lemma field_is:
  assumes "d \<notin> set k"
  shows "takeWhile (\<lambda>c. c \<noteq> d) s = k \<longleftrightarrow> s = k \<or> starts_with (k @ [d]) s"
proof
  assume k: "takeWhile (\<lambda>c. c \<noteq> d) s = k"
  show "s = k \<or> starts_with (k @ [d]) s"
  proof (cases "dropWhile (\<lambda>c. c \<noteq> d) s")
    case Nil
    then have "takeWhile (\<lambda>c. c \<noteq> d) s = s" by (metis append_Nil2 takeWhile_dropWhile_id)
    with k show ?thesis by simp
  next
    case (Cons c v)
    then have "c = d" using hd_dropWhile [of "\<lambda>c. c \<noteq> d" s] by simp
    with k Cons have "s = (k @ [d]) @ v" using takeWhile_dropWhile_id [of "\<lambda>c. c \<noteq> d" s] by simp
    then show ?thesis by (simp add: starts_with_def)
  qed
next
  have all: "\<And>c. c \<in> set k \<Longrightarrow> c \<noteq> d" using assms by auto
  assume "s = k \<or> starts_with (k @ [d]) s"
  then show "takeWhile (\<lambda>c. c \<noteq> d) s = k"
    using all by (auto elim!: starts_withE simp: takeWhile_append2)
qed

lemma names_plain: "list_all (\<lambda>k. CHR '';'' \<notin> set k \<and> k \<notin> set [[], ''0'', ''1'', ''2'', ''3'', ''4'']) INHERITED_THROWING"
  by code_simp

lemma throwing_report_state: "throwing_report (''9;4;'' @ r) \<longleftrightarrow> takeWhile (\<lambda>c. c \<noteq> CHR '';'') r \<in> set INHERITED_THROWING"
proof -
  have "(''9;4;'' @ r = ''9;4;'' @ k \<or> starts_with (''9;4;'' @ k @ '';'') (''9;4;'' @ r)) = (takeWhile (\<lambda>c. c \<noteq> CHR '';'') r = k)"
    if "k \<in> set INHERITED_THROWING" for k
    using field_is [of "CHR '';''" k r] that names_plain by (auto simp: list_all_iff starts_with_def)
  then show ?thesis by (auto simp: throwing_report_def list_ex_iff)
qed

lemma progress_throws: "isl (parseOsc9 now (''9;4;'' @ r)) \<longleftrightarrow> throwing_report (''9;4;'' @ r)"
proof -
  have sub: "osc9_subcommand (''9;4;'' @ r) = Some (''4'', r)"
    by (simp add: osc9_subcommand_def starts_with_def is_digit_def)
  let ?k = "takeWhile (\<lambda>c. c \<noteq> CHR '';'') r"
  have key: "nth_field (split_on CHR '';'' (''9;4;'' @ r)) 2 = Some ?k"
    using first_field [of "CHR '';''" r] by (simp add: nth_field_def hd_conv_nth)
  have "isl (parseOsc94 (''9;4;'' @ r)) \<longleftrightarrow> ?k \<in> set INHERITED_THROWING"
    using names_plain unfolding parseOsc94_def Let_def key by (auto simp: list_all_iff)
  moreover have "isl (parseOsc9 now (''9;4;'' @ r)) = isl (parseOsc94 (''9;4;'' @ r))"
    unfolding parseOsc9_def sub by (cases "parseOsc94 (''9;4;'' @ r)") (simp_all split: option.split)
  ultimately show ?thesis unfolding throwing_report_state by blast
qed

lemma throwing_report_starts: "throwing_report s \<Longrightarrow> \<exists>r. s = ''9;4;'' @ r"
  by (auto simp: throwing_report_def list_ex_iff elim!: starts_withE)

lemma osc9_throws: "isl (parseOsc9 now content) \<longleftrightarrow> throwing_report content"
proof
  assume throws: "isl (parseOsc9 now content)"
  then obtain r where sub: "osc9_subcommand content = Some (''4'', r)" and in4: "isl (parseOsc94 content)"
    by (auto simp: parseOsc9_def split: option.splits sum.splits if_split_asm)
  define q where "q = dropWhile is_digit (drop 2 content)"
  have starts: "starts_with ''9;'' content" and digits: "takeWhile is_digit (drop 2 content) = ''4''"
    and after: "q = [] \<or> hd q = CHR '';''"
    using sub by (simp_all add: osc9_subcommand_def q_def Let_def split: if_split_asm)
  have "drop 2 content = ''4'' @ q" unfolding q_def digits [symmetric] by simp
  moreover obtain w where "content = ''9;'' @ w" using starts by (rule starts_withE)
  ultimately have q: "content = ''9;4'' @ q" by simp
  show "throwing_report content"
  proof (cases q)
    case Nil
    then have "\<not> isl (parseOsc94 content)" using q by (simp add: parseOsc94_def nth_field_def)
    with in4 show ?thesis by simp
  next
    case (Cons c t)
    then have "content = ''9;4;'' @ t" using q after by simp
    with throws show ?thesis using progress_throws [of now t] by simp
  qed
next
  assume "throwing_report content"
  then show "isl (parseOsc9 now content)" using throwing_report_starts progress_throws by blast
qed

text \<open>The payloads of the complete OSC strings of a text that are not cancelled, in order.\<close>

function osc_payloads :: "string \<Rightarrow> string list" where
  "osc_payloads s = (case find_introducer s of
      None \<Rightarrow> []
    | Some (g, introducer, r) \<Rightarrow>
        (let kind = stringControlKind introducer in
         case findStringControlEnd kind r of
           None \<Rightarrow> []
         | Some (payload, t, u, cancelled) \<Rightarrow> (if kind = OscString \<and> \<not> cancelled then [payload] else []) @ osc_payloads u))"
  by pat_completeness auto
termination
  by (relation "measure length") (auto intro: loop_shorter)

declare osc_payloads.simps [simp del]

text \<open>The text a read scans for control strings: what was held and the characters read, from behind the string
  on that an earlier read left open; nothing if that one does not end.\<close>

definition ground_text_undiscarded :: "string \<Rightarrow> protocol_parser \<Rightarrow> string" where
  "ground_text_undiscarded data p = (case forwarding p of
      None \<Rightarrow> pending p @ data
    | Some (kind, h) \<Rightarrow> (case findStringControlEnd kind (h @ data) of None \<Rightarrow> [] | Some (_, _, rest, _) \<Rightarrow> pending p @ rest))"

definition ground_text :: "string \<Rightarrow> protocol_parser \<Rightarrow> string" where
  "ground_text data p = (case discarding p of
      None \<Rightarrow> ground_text_undiscarded data p
    | Some h \<Rightarrow> (case findStringControlEnd OscString (h @ data) of None \<Rightarrow> [] | Some (_, _, rest, _) \<Rightarrow> ground_text_undiscarded rest p))"

lemma parseOsc_throws: "isl (snd (parseOsc S now content p)) \<longleftrightarrow> throwing_report content"
proof (cases "osc_is ''9'' content")
  case True
  then have "\<not> osc_is ''7'' content" by (auto simp: osc_is_def elim!: starts_withE)
  with True show ?thesis using osc9_throws [of "rat_of_int now" content] by (auto simp: parseOsc_def Let_def split: sum.split)
next
  case False
  have "osc_is ''9'' (''9;4;'' @ r)" for r by (simp add: osc_is_def starts_with_def)
  then have "\<not> throwing_report content" using False throwing_report_starts by blast
  with False show ?thesis by (auto simp: parseOsc_def Let_def split_beta split: option.split)
qed

lemma take_control_throws:
  "isl (snd (take_control S now kind i payload t c r p)) \<longleftrightarrow> kind = OscString \<and> \<not> c \<and> throwing_report payload"
  using parseOsc_throws [of S now payload p]
  by (auto simp: take_control_def Let_def split: sum.split option.split prod.split)

lemma ground_loop_throws: "isl (snd (ground_loop S now s p)) \<longleftrightarrow> list_ex throwing_report (osc_payloads s)"
proof (induction S now s p rule: ground_loop.induct)
  case (1 S now s p)
  consider (stop) "s = []" | (tail) "s \<noteq> []" "find_introducer s = None"
    | (hold) g i r where "s \<noteq> []" "find_introducer s = Some (g, i, r)" "findStringControlEnd (stringControlKind i) r = None"
    | (control) g i r q t u c where "s \<noteq> []" "find_introducer s = Some (g, i, r)" "findStringControlEnd (stringControlKind i) r = Some (q, t, u, c)"
    by (cases "find_introducer s") (auto, metis option.exhaust prod.exhaust)
  then show ?case
  proof cases
    case stop
    then show ?thesis by (subst ground_loop.simps, subst osc_payloads.simps) simp
  next
    case tail
    then show ?thesis by (subst ground_loop.simps, subst osc_payloads.simps) (simp add: split_beta Let_def)
  next
    case hold
    then show ?thesis by (subst ground_loop.simps, subst osc_payloads.simps) (simp add: split_beta Let_def)
  next
    case control
    obtain ground es where g: "ground_part g = (ground, es)" by fastforce
    obtain p1 o1 where o1: "take_control S now (stringControlKind i) i q t c r p = (p1, o1)" by fastforce
    have thr: "isl o1 \<longleftrightarrow> stringControlKind i = OscString \<and> \<not> c \<and> throwing_report q"
      using take_control_throws [of S now "stringControlKind i" i q t c r p] o1 by simp
    have pay: "osc_payloads s = (if stringControlKind i = OscString \<and> \<not> c then [q] else []) @ osc_payloads u"
      using control by (subst osc_payloads.simps) (simp add: Let_def)
    show ?thesis
    proof (cases o1)
      case (Inl x)
      then show ?thesis using control g o1 thr pay by (subst ground_loop.simps) simp
    next
      case (Inr oe)
      obtain out es1 where oe: "oe = (out, es1)" by fastforce
      have ih: "isl (snd (ground_loop S now u p1)) \<longleftrightarrow> list_ex throwing_report (osc_payloads u)"
        using 1 [OF control(1) control(2) _ _ _ _ _ control(3)] g o1 Inr oe by simp
      obtain p2 o2 where o2: "ground_loop S now u p1 = (p2, o2)" by fastforce
      have "isl (snd (ground_loop S now s p)) = isl o2"
        using control g o1 Inr oe o2 by (subst ground_loop.simps) (simp split: sum.split prod.split)
      then show ?thesis using ih o2 thr pay Inr by auto
    qed
  qed
qed

lemma no_introducer_no_payload: "find_introducer s = None \<Longrightarrow> osc_payloads s = []"
  by (subst osc_payloads.simps) simp

lemma process_ground_throws:
  "isl (snd (process_ground S now data p)) \<longleftrightarrow> list_ex throwing_report (osc_payloads (pending p @ data))"
proof (cases "pending p = [] \<and> \<not> needs_parse data")
  case True
  then have "osc_payloads (pending p @ data) = []" by (intro no_introducer_no_payload) (cases "find_introducer data"; simp add: needs_parse_def)
  with True show ?thesis by (simp add: process_ground_def)
next
  case False
  then show ?thesis using ground_loop_throws [of S now "pending p @ data" "p\<lparr>pending := []\<rparr>"]
    by (auto simp: process_ground_def split: prod.split sum.split)
qed

lemma process_undiscarded_throws:
  "isl (snd (process_undiscarded S now data p)) \<longleftrightarrow> list_ex throwing_report (osc_payloads (ground_text_undiscarded data p))"
proof (cases "forwarding p")
  case None
  then show ?thesis by (simp add: process_undiscarded_def ground_text_undiscarded_def process_ground_throws)
next
  case (Some kh)
  obtain kind h where kh: "kh = (kind, h)" by fastforce
  show ?thesis
  proof (cases "findStringControlEnd kind (h @ data)")
    case None
    then show ?thesis using Some kh
      by (simp add: process_undiscarded_def processForwarded_def ground_text_undiscarded_def no_introducer_no_payload split_beta)
  next
    case e: (Some e)
    obtain q t u c where quad: "e = (q, t, u, c)" by (cases e)
    obtain p1 o1 where o1: "process_ground S now u (p\<lparr>forwarding := None\<rparr>) = (p1, o1)" by fastforce
    then show ?thesis using Some kh e quad process_ground_throws [of S now u "p\<lparr>forwarding := None\<rparr>"]
      by (auto simp: process_undiscarded_def processForwarded_def ground_text_undiscarded_def split: sum.split)
  qed
qed

lemma process_throws: "isl (snd (process S now data p)) \<longleftrightarrow> list_ex throwing_report (osc_payloads (ground_text data p))"
proof (cases "discarding p")
  case None
  then show ?thesis by (simp add: process_def ground_text_def process_undiscarded_throws)
next
  case (Some h)
  show ?thesis
  proof (cases "findStringControlEnd OscString (h @ data)")
    case None
    then show ?thesis using Some by (simp add: process_def ground_text_def no_introducer_no_payload)
  next
    case e: (Some e)
    obtain q t u c where quad: "e = (q, t, u, c)" by (cases e)
    have "ground_text_undiscarded u (p\<lparr>discarding := None\<rparr>) = ground_text_undiscarded u p"
      by (simp add: ground_text_undiscarded_def split: option.split)
    then show ?thesis using Some e quad process_undiscarded_throws [of S now u "p\<lparr>discarding := None\<rparr>"]
      by (simp add: process_def ground_text_def)
  qed
qed

section \<open>The loop\<close>

text \<open>The parser while it scans text outside of control strings.\<close>

definition scanning :: "protocol_parser \<Rightarrow> bool" where
  "scanning p = (ground_parser p \<and> pending p = [] \<and> osc99_ok (osc99Pending p))"

lemma scanning_inv: "scanning p \<Longrightarrow> parser_inv p"
  by (simp add: scanning_def ground_parser_def parser_inv_def)

lemma parseOsc_scanning: "scanning p \<Longrightarrow> scanning (fst (parseOsc S now content p))"
  using parseOsc_keeps [of S now content p]
  by (metis scanning_def ground_parser_def protocol_parser.select_convs protocol_parser.surjective protocol_parser.update_convs(4))

lemma parseOsc_events: "snd (parseOsc S now content p) = Inr (Some es) \<Longrightarrow> list_all event_ok es"
  using osc7_ok osc9_ok osc133_ok osc633_ok osc1337_ok [of "rat_of_int now" content] title_ok osc99_events_ok osc777_ok tool_ok osc52_ok color_query_ok [of S content]
  by (auto simp: parseOsc_def Let_def split_beta split: if_split_asm sum.splits option.splits)

lemma take_control_scanning: "scanning p \<Longrightarrow> scanning (fst (take_control S now kind i payload t c r p))"
  using parseOsc_scanning [of p S now payload] by (auto simp: take_control_def Let_def split_beta split: sum.split option.split prod.split)

lemma take_control_sound:
  "case snd (take_control S now kind i payload t c r p) of Inl x \<Rightarrow> True | Inr (out, es) \<Rightarrow> list_all event_ok es"
  using parseOsc_events [of S now payload p]
  by (auto simp: take_control_def Let_def split: sum.split option.split prod.split)

lemma held_esc_cases: "held_esc s = [] \<or> held_esc s = [esc]"
  by (simp add: held_esc_def)

lemma hold_incomplete_inv: "scanning p \<Longrightarrow> parser_inv (fst (hold_incomplete kind i r p))"
  using held_esc_cases [of "i @ r"]
  by (auto simp: hold_incomplete_def beginForwarding_def Let_def scanning_def ground_parser_def parser_inv_def)

lemma held_suffix_length: "length (takeDeviceAttributePendingSuffix t) \<le> 3"
proof -
  have "find P DEVICE_ATTRIBUTE_PENDING_SUFFIXES = Some x \<Longrightarrow> length x \<le> 3" for P x
    by (auto simp: DEVICE_ATTRIBUTE_PENDING_SUFFIXES_def split: if_split_asm)
  then show ?thesis by (auto simp: takeDeviceAttributePendingSuffix_def split: option.split)
qed

lemma ground_tail_inv: "scanning p \<Longrightarrow> parser_inv (fst (ground_tail s p))"
  using held_suffix_length [of "fst (stripStandaloneBells s)"]
  by (simp add: ground_tail_def Let_def split_beta scanning_def ground_parser_def parser_inv_def OSC_INCOMPLETE_LIMIT_def)

lemma answers_ok: "list_all event_ok (snd (answerDeviceAttributeQueries s))"
  using device_response_ok by (induction s rule: answerDeviceAttributeQueries.induct) (auto simp: split_beta Let_def split: option.split)

lemma bells_ok: "list_all event_ok (snd (stripStandaloneBells s))"
  using bell_ok by (simp add: stripStandaloneBells_def)

lemma ground_events_ok: "list_all event_ok (snd (ground_part s))" "list_all event_ok (snd (snd (ground_tail s p)))"
  using bells_ok answers_ok by (simp_all add: ground_part_def ground_tail_def Let_def split_beta)

lemma filter_bells_ok: "list_all event_ok es \<Longrightarrow> list_all event_ok (filterTerminalBellEvents es)"
proof -
  have "list_all event_ok es \<Longrightarrow> list_all event_ok (keep_first_bell k es)" for k by (induction k es rule: keep_first_bell.induct) auto
  then show "list_all event_ok es \<Longrightarrow> list_all event_ok (filterTerminalBellEvents es)" by (simp add: filterTerminalBellEvents_def Let_def)
qed

definition sound_outcome :: "(thrown + 'a) \<Rightarrow> ('a \<Rightarrow> protocol_event list) \<Rightarrow> bool" where
  "sound_outcome r evs = (case r of Inl x \<Rightarrow> True | Inr y \<Rightarrow> list_all event_ok (evs y))"

lemma ground_loop_sound:
  "scanning p \<Longrightarrow> parser_inv (fst (ground_loop S now s p)) \<and> sound_outcome (snd (ground_loop S now s p)) (\<lambda>(v, t, es). es)"
proof (induction S now s p rule: ground_loop.induct)
  case (1 S now s p)
  consider (stop) "s = []" | (tail) "s \<noteq> []" "find_introducer s = None"
    | (hold) g i r where "s \<noteq> []" "find_introducer s = Some (g, i, r)" "findStringControlEnd (stringControlKind i) r = None"
    | (control) g i r q t u c where "s \<noteq> []" "find_introducer s = Some (g, i, r)" "findStringControlEnd (stringControlKind i) r = Some (q, t, u, c)"
    by (cases "find_introducer s") (auto, metis option.exhaust prod.exhaust)
  then show ?case
  proof cases
    case stop
    then show ?thesis using 1(2) scanning_inv by (subst (1 2) ground_loop.simps) (simp add: sound_outcome_def)
  next
    case tail
    then show ?thesis using 1(2) ground_tail_inv ground_events_ok(2) by (subst (1 2) ground_loop.simps) (simp add: sound_outcome_def split_beta Let_def)
  next
    case hold
    then show ?thesis using 1(2) hold_incomplete_inv ground_events_ok(1) by (subst (1 2) ground_loop.simps) (simp add: sound_outcome_def split_beta Let_def)
  next
    case control
    obtain ground es where g: "ground_part g = (ground, es)" by fastforce
    obtain p1 o1 where o1: "take_control S now (stringControlKind i) i q t c r p = (p1, o1)" by fastforce
    have p1: "scanning p1" using take_control_scanning [OF 1(2)] o1 by (metis fst_conv)
    show ?thesis
    proof (cases o1)
      case (Inl x)
      then show ?thesis using control g o1 Inl scanning_inv [OF p1] by (subst (1 2) ground_loop.simps) (simp add: sound_outcome_def)
    next
      case (Inr oe)
      obtain out es1 where oe: "oe = (out, es1)" by fastforce
      have es1: "list_all event_ok es1" using take_control_sound [where payload = q and p = p, of S now "stringControlKind i" i t c r] o1 Inr oe by simp
      have ih: "parser_inv (fst (ground_loop S now u p1)) \<and> sound_outcome (snd (ground_loop S now u p1)) (\<lambda>(v, t, es). es)"
        using 1(1) [OF control(1) control(2) _ _ _ _ _ control(3)] g o1 Inr oe p1 by simp
      show ?thesis using control g o1 Inr oe es1 ih ground_events_ok(1) [of g]
        by (subst (1 2) ground_loop.simps) (auto simp: sound_outcome_def split: prod.split sum.split)
    qed
  qed
qed

lemma process_ground_sound:
  assumes "parser_inv p" "ground_parser p"
  shows "parser_inv (fst (process_ground S now data p)) \<and> sound_outcome (snd (process_ground S now data p)) events"
proof -
  have "scanning (p\<lparr>pending := []\<rparr>)" using assms by (simp add: scanning_def parser_inv_def ground_parser_def)
  from ground_loop_sound [OF this, of S now "pending p @ data"] show ?thesis
    using assms(1) filter_bells_ok by (auto simp: process_ground_def sound_outcome_def split: prod.split sum.splits)
qed

lemma begin_forwarding_inv: "parser_inv p \<Longrightarrow> forwarding p \<noteq> None \<Longrightarrow> parser_inv (fst (beginForwarding kind s p))"
  using held_esc_cases [of s] by (auto simp: beginForwarding_def parser_inv_def)

lemma process_undiscarded_sound:
  assumes "parser_inv p" "discarding p = None"
  shows "parser_inv (fst (process_undiscarded S now data p)) \<and> sound_outcome (snd (process_undiscarded S now data p)) events"
proof (cases "forwarding p")
  case None
  then show ?thesis using process_ground_sound [OF assms(1)] assms(2) by (simp add: process_undiscarded_def ground_parser_def)
next
  case (Some kh)
  obtain kind h where kh: "kh = (kind, h)" by fastforce
  have p: "pending p = []" "h = [] \<or> h = [esc]" using assms(1) Some kh by (auto simp: parser_inv_def)
  show ?thesis
  proof (cases "findStringControlEnd kind (h @ data)")
    case None
    then show ?thesis using Some kh begin_forwarding_inv [OF assms(1), of kind "h @ data"]
      by (simp add: process_undiscarded_def processForwarded_def sound_outcome_def split_beta)
  next
    case (Some e)
    obtain q t u c where e: "e = (q, t, u, c)" by (cases e)
    have "parser_inv (p\<lparr>forwarding := None\<rparr>)" "ground_parser (p\<lparr>forwarding := None\<rparr>)"
      using assms by (auto simp: parser_inv_def ground_parser_def)
    from process_ground_sound [OF this, of S now u] show ?thesis
      using Some e kh \<open>forwarding p = Some kh\<close> p(1)
      by (auto simp: process_undiscarded_def processForwarded_def sound_outcome_def split: prod.split sum.splits)
  qed
qed

lemma process_sound:
  assumes "parser_inv p"
  shows "parser_inv (fst (process S now data p)) \<and> sound_outcome (snd (process S now data p)) events"
proof (cases "discarding p")
  case None
  then show ?thesis using process_undiscarded_sound [OF assms] by (simp add: process_def)
next
  case (Some h)
  have p: "pending p = []" "h = [] \<or> h = [esc]" "forwarding p = None" using assms Some by (cases "forwarding p"; auto simp: parser_inv_def)+
  show ?thesis
  proof (cases "findStringControlEnd OscString (h @ data)")
    case None
    then show ?thesis using Some assms p held_esc_cases [of "h @ data"] by (auto simp: process_def sound_outcome_def parser_inv_def)
  next
    case (Some e)
    obtain q t u c where e: "e = (q, t, u, c)" by (cases e)
    have "parser_inv (p\<lparr>discarding := None\<rparr>)" using assms p by (auto simp: parser_inv_def)
    from process_undiscarded_sound [OF this, of S now u] show ?thesis
      using Some e \<open>discarding p = Some h\<close> p(1) by (auto simp: process_def sound_outcome_def split: sum.splits)
  qed
qed

text \<open>A parser and the reads it has seen.\<close>

inductive protocol_step :: "protocol_parser \<Rightarrow> protocol_parser \<Rightarrow> bool" where
  read: "protocol_step p (fst (process S now data p))"

inductive_cases protocol_stepE: "protocol_step p p'"

interpretation protocol_run: step_system "\<lambda>p. p = new_protocol_parser" protocol_step parser_inv
proof
  show "s = new_protocol_parser \<Longrightarrow> parser_inv s" for s by (simp add: new_protocol_parser_def parser_inv_def osc99_ok_def)
  show "protocol_step s s' \<Longrightarrow> parser_inv s \<Longrightarrow> parser_inv s'" for s s' using process_sound by (auto elim: protocol_stepE)
qed

section \<open>A control string that is read at once\<close>

lemma control_scan: "stringControlEndScan kind c \<Longrightarrow> is_control c" "\<not> is_control CHR '']''" "\<not> is_control CHR '';''" "\<not> is_digit CHR '';''"
proof -
  have "list_all is_control [CHR 0x18, CHR 0x1A, esc, CHR 0x9C, bel]" by code_simp
  then show "stringControlEndScan kind c \<Longrightarrow> is_control c" by (auto simp: stringControlEndScan_def)
qed code_simp+

lemma no_end_here: "list_all (\<lambda>c. \<not> is_control c) t \<Longrightarrow> findStringControlEnd kind t = None"
proof -
  assume "list_all (\<lambda>c. \<not> is_control c) t"
  then have "dropWhile (\<lambda>c. \<not> stringControlEndScan kind c) t = []" using control_scan(1) by (auto simp: list_all_iff)
  then show ?thesis unfolding findStringControlEnd_def by (simp only: end_at_def list.case)
qed

lemma end_at_bell: "list_all (\<lambda>c. \<not> is_control c) t \<Longrightarrow> findStringControlEnd OscString (t @ [bel]) = Some (t, [bel], [], False)"
proof -
  assume "list_all (\<lambda>c. \<not> is_control c) t"
  then have "\<And>c. c \<in> set t \<Longrightarrow> \<not> stringControlEndScan OscString c" using control_scan(1) by (auto simp: list_all_iff)
  then show ?thesis by (simp add: findStringControlEnd_def end_at_def stringControlEndScan_def)
qed

lemma osc_introducer: "find_introducer (esc # CHR '']'' # t) = Some ([], [esc, CHR '']''], t)" "stringControlKind [esc, CHR '']''] = OscString"
  by (simp_all add: introducer_here_def C1_INTRODUCERS_def ESC_INTRODUCERS_def stringControlKind_def)

lemma ground_part_Nil [simp]: "ground_part [] = ([], [])"
  by (simp add: ground_part_def stripStandaloneBells_def)

lemma scanning_loop_whole:
  assumes "list_all (\<lambda>c. \<not> is_control c) t"
  shows "ground_loop S now (esc # CHR '']'' # t @ [bel]) p = (case parseOsc S now t p of
      (p1, Inl x) \<Rightarrow> (p1, Inl x)
    | (p1, Inr None) \<Rightarrow> (p1, Inr (esc # CHR '']'' # t @ [bel], [], []))
    | (p1, Inr (Some es)) \<Rightarrow> (p1, Inr ([], [], es)))"
proof -
  have stop: "ground_loop S now [] p1 = (p1, Inr ([], [], []))" for p1 by (subst ground_loop.simps) simp
  show ?thesis using end_at_bell [OF assms]
    by (subst ground_loop.simps) (simp add: osc_introducer take_control_def stop del: find_introducer.simps split: prod.split sum.split option.split)
qed

lemma read_whole:
  assumes "list_all (\<lambda>c. \<not> is_control c) t" "pending p @ data = esc # CHR '']'' # t @ [bel]" "forwarding p = None" "discarding p = None"
    "parseOsc S now t (p\<lparr>pending := []\<rparr>) = (p1, o1)" "o1 \<noteq> Inr None"
  shows "process S now data p = (p1, case o1 of Inl x \<Rightarrow> Inl x | Inr es \<Rightarrow> Inr \<lparr>visibleData = [], textData = [],
    events = filterTerminalBellEvents (the es), resumedStringEnd = Some 0\<rparr>)"
proof -
  have "\<not> (pending p = [] \<and> \<not> needs_parse data)" using assms(2) by (auto simp: needs_parse_def)
  then show ?thesis using assms scanning_loop_whole [OF assms(1)]
    by (auto simp: process_def process_undiscarded_def process_ground_def split: sum.split option.split)
qed

section \<open>Properties\<close>

text \<open>C18: After any reads, also ones that threw, the parser holds at most 16384 characters of an unfinished
  control string, and none while it forwards or discards one, of which it holds at most an escape
  character; of notifications in chunks it collects at most 64, each under an id of its own of at most 256
  characters, with at most 2048 characters of title and 16384 of body.\<close>

theorem parser_invariant:
  assumes "protocol_step\<^sup>*\<^sup>* new_protocol_parser p"
  shows "length (pending p) \<le> 16384 \<and> (forwarding p \<noteq> None \<or> discarding p \<noteq> None \<longrightarrow> pending p = []) \<and>
    \<not> (forwarding p \<noteq> None \<and> discarding p \<noteq> None) \<and>
    pred_option (\<lambda>(kind, h). h = [] \<or> h = [esc]) (forwarding p) \<and> pred_option (\<lambda>h. h = [] \<or> h = [esc]) (discarding p) \<and>
    length (osc99Pending p) \<le> 64 \<and> distinct (map fst (osc99Pending p)) \<and>
    (\<forall>(i, t) \<in> set (osc99Pending p). length i \<le> 256 \<and> length (o99_title t) \<le> 2048 \<and> length (o99_body t) \<le> 16384)"
  using protocol_run.reachable_inv [OF refl assms]
  by (simp add: parser_inv_def osc99_ok_def OSC_INCOMPLETE_LIMIT_def OSC99_MAX_PENDING_IDS_def TITLE_LIMIT_def OSC99_PENDING_TITLE_LIMIT_def OSC99_PENDING_BODY_LIMIT_def)

definition plain_services :: protocol_services where
  "plain_services = \<lparr>urls = \<lparr>parse_url = (\<lambda>_. None), decodeURIComponent = Some\<rparr>, wide_chars = (\<lambda>_. CHR ''?''), colorProvider = None\<rparr>"

theorem parser_invariant_witness:
  "length (osc99Pending (fst (process plain_services 5 ([esc] @ '']99;i=a:d=0;build'' @ [bel]) new_protocol_parser))) = 1 \<and>
   length (osc99Pending (fst (process plain_services 5 ([esc] @ '']99;i=a:d=0;build'' @ [bel]) new_protocol_parser))) \<le> 64"
proof -
  let ?p = "fst (process plain_services 5 ([esc] @ '']99;i=a:d=0;build'' @ [bel]) new_protocol_parser)"
  have "protocol_step\<^sup>*\<^sup>* new_protocol_parser ?p" using protocol_step.read by blast
  moreover have "length (osc99Pending ?p) = 1" by code_simp
  ultimately show ?thesis using parser_invariant [of ?p] by simp
qed



text \<open>C20: A read throws exactly if among the control strings it reads to their end there is an OSC, not cancelled,
  that is a progress report 9;4 whose state is one of nine names that every object inherits: the payload is the
  report alone or goes on with a semicolon behind the name. The control strings are those of the held text and the
  characters read, scanned from behind the string that an earlier read left open.\<close>

theorem parser_throws_only:
  "isl (snd (process S now data p)) = list_ex throwing_report (osc_payloads (ground_text data p))"
  by (rule process_throws)

theorem parser_throws_only_witness:
  "snd (process plain_services 5 ([esc] @ '']9;4;valueOf'' @ [bel]) new_protocol_parser) = Inl ThrownTypeError \<and>
   \<not> isl (snd (process plain_services 5 ([esc] @ '']9;4;valueOfX'' @ [bel]) new_protocol_parser))"
proof
  have "list_ex throwing_report (osc_payloads (ground_text ([esc] @ '']9;4;valueOf'' @ [bel]) new_protocol_parser))" by code_simp
  then have "isl (snd (process plain_services 5 ([esc] @ '']9;4;valueOf'' @ [bel]) new_protocol_parser))" unfolding parser_throws_only .
  then show "snd (process plain_services 5 ([esc] @ '']9;4;valueOf'' @ [bel]) new_protocol_parser) = Inl ThrownTypeError"
    by (metis isl_def thrown.exhaust)
  have "\<not> list_ex throwing_report (osc_payloads (ground_text ([esc] @ '']9;4;valueOfX'' @ [bel]) new_protocol_parser))" by code_simp
  then show "\<not> isl (snd (process plain_services 5 ([esc] @ '']9;4;valueOfX'' @ [bel]) new_protocol_parser))" unfolding parser_throws_only .
qed

end
