(* ===== verification/Protocol_Stream.thy ===== *)
theory Protocol_Stream
  imports Protocol_Correct
begin

text \<open>
  The parser of terminal output (\<open>lib/src/lib/terminal-protocol.ts\<close>) over a stream: a Tool's reports are
  delivered however they are cut, the parser agrees with the filter of \<open>Terminal_Controls\<close> on where control
  strings start and end, and events reach their sink in the order of the stream.
\<close>

section \<open>A control string in pieces\<close>

text \<open>Reads one after the other: what is drawn and the events.\<close>

fun process_reads :: "protocol_services \<Rightarrow> (int \<times> string) list \<Rightarrow> protocol_parser \<Rightarrow> protocol_parser \<times> (thrown + string \<times> protocol_event list)" where
  "process_reads S [] p = (p, Inr ([], []))"
| "process_reads S ((now, data) # reads) p = (case process S now data p of
      (p1, Inl x) \<Rightarrow> (p1, Inl x)
    | (p1, Inr r) \<Rightarrow> (case process_reads S reads p1 of
        (p2, Inl x) \<Rightarrow> (p2, Inl x)
      | (p2, Inr (out, es)) \<Rightarrow> (p2, Inr (visibleData r @ out, events r @ es))))"

lemma digits_367: "is_digit CHR ''3''" "is_digit CHR ''6''" "is_digit CHR ''7''" and visible_tool: "list_all (\<lambda>c. \<not> is_control c) ''367;''"
  by code_simp+

lemma tool_disposition: "oscDispositionAt (take k (''367;'' @ content)) \<noteq> Some Forward"
proof -
  consider "k = 0" | "k = 1" | "k = 2" | "k = 3" | j where "k = Suc (Suc (Suc (Suc j)))" by atomize_elim presburger
  then show ?thesis
  proof cases
    case 5
    then have "take k (''367;'' @ content) = ''367;'' @ take j content" by simp
    then show ?thesis using control_scan(4) digits_367 by (simp add: oscDispositionAt_def OSC_CONSUMED_IDS_def)
  qed (use digits_367 in \<open>simp_all add: oscDispositionAt_def numeral_2_eq_2 numeral_3_eq_3\<close>)
qed

lemma lone_escape:
  "ground_loop S now [esc] p = (p\<lparr>pending := [esc]\<rparr>, Inr ([], [], []))"
proof -
  have "find_introducer [esc] = None" "stripStandaloneBells [esc] = ([esc], [])" "takeDeviceAttributePendingSuffix [esc] = [esc]" by code_simp+
  then show ?thesis by (subst ground_loop.simps) (simp add: ground_tail_def)
qed

text \<open>A Tool's report up to any point before its end is held.\<close>

lemma read_part:
  assumes "list_all (\<lambda>c. \<not> is_control c) t" "length t \<le> 16000" "t = ''367;'' @ content" "x @ y @ z = esc # CHR '']'' # t @ [bel]" "z \<noteq> []"
  shows "process S now y (new_protocol_parser\<lparr>pending := x\<rparr>) =
    (new_protocol_parser\<lparr>pending := x @ y\<rparr>, Inr \<lparr>visibleData = [], textData = [], events = [], resumedStringEnd = Some 0\<rparr>)"
proof -
  let ?p = "new_protocol_parser\<lparr>pending := x\<rparr>"
  have "(x @ y) @ butlast z = esc # CHR '']'' # t" using arg_cong [OF assms(4), of butlast] assms(5) by (simp add: butlast_append)
  then have prefix: "x @ y = take (length (x @ y)) (esc # CHR '']'' # t)" by (metis append_eq_conv_conj)
  have p: "process S now y ?p = process_ground S now y ?p" by (simp add: process_def process_undiscarded_def new_protocol_parser_def)
  consider "x @ y = []" | "x @ y = [esc]" | k where "x @ y = esc # CHR '']'' # take k t"
    using prefix by (cases "length (x @ y)"; cases "length (x @ y) - 1") auto
  then show ?thesis
  proof cases
    case 1
    then show ?thesis using p by (simp add: process_ground_def needs_parse_def new_protocol_parser_def)
  next
    case 2
    then have "\<not> (x = [] \<and> \<not> needs_parse y)" by (auto simp: needs_parse_def)
    then show ?thesis using p 2 by (auto simp: process_ground_def lone_escape filterTerminalBellEvents_def new_protocol_parser_def)
  next
    case 3
    then have n: "\<not> (x = [] \<and> \<not> needs_parse y)" by (auto simp: needs_parse_def)
    have "findStringControlEnd OscString (take k t) = None" using assms(1) by (intro no_end_here) (auto simp: list_all_iff dest: in_set_takeD)
    moreover have "oscDispositionAt (take k t) \<noteq> Some Forward" using assms(3) tool_disposition by blast
    ultimately have "ground_loop S now (x @ y) q = (q\<lparr>pending := x @ y\<rparr>, Inr ([], [], []))" for q unfolding 3 using assms(2)
      by (subst ground_loop.simps) (simp add: osc_introducer hold_incomplete_def OSC_INCOMPLETE_LIMIT_def Let_def del: find_introducer.simps)
    then show ?thesis using p n by (auto simp: process_ground_def filterTerminalBellEvents_def new_protocol_parser_def)
  qed
qed

text \<open>However it is cut, its event comes once and nothing of it is drawn.\<close>

lemma reads_deliver:
  assumes "list_all (\<lambda>c. \<not> is_control c) content" "length content \<le> 15000" "parse_tool (wide_chars S) content = [e]" "\<not> is_bell e"
  shows "x @ concat (map snd reads) = [esc] @ '']367;'' @ content @ [bel] \<Longrightarrow> length x < length content + 7 \<Longrightarrow>
    process_reads S reads (new_protocol_parser\<lparr>pending := x\<rparr>) = (new_protocol_parser, Inr ([], [e]))"
proof (induction reads arbitrary: x)
  case Nil
  then show ?case by (auto dest: arg_cong [where f = length])
next
  case (Cons r reads)
  obtain now y where r: "r = (now, y)" by fastforce
  let ?t = "''367;'' @ content"
  have t: "list_all (\<lambda>c. \<not> is_control c) ?t" "length ?t \<le> 16000" using assms(1,2) visible_tool by simp_all
  show ?case
  proof (cases "concat (map snd reads) = []")
    case False
    have w: "x @ y @ concat (map snd reads) = esc # CHR '']'' # ?t @ [bel]" using Cons.prems(1) r by simp
    note step = read_part [OF t refl w False, of S now]
    have "length (x @ y) < length content + 7" using arg_cong [OF w, of length] False by (cases "concat (map snd reads)") auto
    then show ?thesis using Cons.IH [of "x @ y"] Cons.prems(1) r step by simp
  next
    case True
    have w: "x @ y = esc # CHR '']'' # ?t @ [bel]" using Cons.prems(1) r True by simp
    have parse: "parseOsc S now ?t new_protocol_parser = (new_protocol_parser, Inr (Some [e]))"
      using assms(3) by (simp add: parseOsc_def osc_is_def Let_def)
    have "process S now y (new_protocol_parser\<lparr>pending := x\<rparr>) = (new_protocol_parser, Inr \<lparr>visibleData = [], textData = [], events = [e], resumedStringEnd = Some 0\<rparr>)"
      using read_whole [OF t(1), of "new_protocol_parser\<lparr>pending := x\<rparr>" y S now new_protocol_parser "Inr (Some [e])"] w parse assms(4)
      by (simp add: new_protocol_parser_def filterTerminalBellEvents_def)
    moreover have "process_reads S reads new_protocol_parser = (new_protocol_parser, Inr ([], []))"
      using True by (induction reads) (auto simp: process_def process_undiscarded_def process_ground_def needs_parse_def new_protocol_parser_def)
    ultimately show ?thesis using r by simp
  qed
qed

text \<open>A Tool's writer that answers the text makes the event's contents known to the reader.\<close>

definition tool_writes :: "(rat \<Rightarrow> string) \<Rightarrow> string \<Rightarrow> protocol_event \<Rightarrow> bool" where
  "tool_writes shown s e =
     ((\<exists>port path dehydrate persist. serveSequence shown port path dehydrate persist = Inr s \<and>
         e = ToolAnnounced \<lparr>a_port = readPort port, a_path = as_str path, a_name = None, a_key = None,
           a_dehydrate = (dehydrate = VBool True), a_persist = read_persist persist\<rparr>) \<or>
      (\<exists>b. stateSequence shown (VBool b) = Inr s \<and> e = ToolStated b) \<or>
      (\<exists>path given disp fragment. openSequence shown (VStr path) given disp fragment = Inr s \<and>
         e = ToolOpened \<lparr>o_path = path, o_preview = (given = VBool True), o_disposition = read_disposition disp, o_fragment = as_str fragment\<rparr>) \<or>
      (\<exists>state d. dehydrateSequence shown state = Inr s \<and> json_ok shown state \<and> e = ToolDehydrated d \<and> s = [esc] @ '']367;dehydrate;'' @ d @ [bel]))"

lemma payload_verb: "parseToolPayload w content verb = Some r \<Longrightarrow> starts_with (verb @ '';'') content \<and> length content \<le> length verb + 1 + TOOL_PAYLOAD_LIMIT"
  by (auto simp: parseToolPayload_def Let_def split: if_split_asm)

lemma one_verb:
  "parseToolAnnounce w content = Some a \<Longrightarrow> starts_with ''serve;'' content \<and> length content \<le> 15000"
  "parseToolState w content = Some b \<Longrightarrow> starts_with ''state;'' content \<and> length content \<le> 15000"
  "parseToolOpen w content = Some c \<Longrightarrow> starts_with ''open;'' content \<and> length content \<le> 15000"
  "parseToolDehydrate w content = Some d \<Longrightarrow> starts_with ''dehydrate;'' content \<and> length content \<le> 15000"
  using payload_verb [of w content "''serve''"] payload_verb [of w content "''state''"] payload_verb [of w content "''open''"] dehydrate_read_ok [of w content d]
  by (auto simp: parseToolAnnounce_def parseToolState_def parseToolOpen_def TOOL_PAYLOAD_LIMIT_def split: option.splits)

lemma verbs_differ: "starts_with ''state;'' t \<Longrightarrow> \<not> starts_with ''serve;'' t"
  "starts_with ''open;'' t \<Longrightarrow> \<not> starts_with ''serve;'' t \<and> \<not> starts_with ''state;'' t"
  "starts_with ''dehydrate;'' t \<Longrightarrow> \<not> starts_with ''serve;'' t \<and> \<not> starts_with ''state;'' t \<and> \<not> starts_with ''open;'' t"
  by (auto elim!: starts_withE)

lemma other_verbs:
  "\<not> starts_with ''serve;'' t \<Longrightarrow> parseToolAnnounce w t = None" "\<not> starts_with ''state;'' t \<Longrightarrow> parseToolState w t = None"
  "\<not> starts_with ''open;'' t \<Longrightarrow> parseToolOpen w t = None"
  by (simp_all add: parseToolAnnounce_def parseToolState_def parseToolOpen_def parseToolPayload_def)

lemma parse_tool_one:
  "parseToolAnnounce w t = Some a \<Longrightarrow> parse_tool w t = [ToolAnnounced a]"
  "parseToolState w t = Some b \<Longrightarrow> parse_tool w t = [ToolStated b]"
  "parseToolOpen w t = Some c \<Longrightarrow> parse_tool w t = [ToolOpened c]"
  "parseToolDehydrate w t = Some d \<Longrightarrow> parse_tool w t = [ToolDehydrated d]"
  using one_verb [of w t] verbs_differ [of t] other_verbs [of t w] by (simp_all add: parse_tool_def)

lemma tool_no_bell: "\<not> is_bell (ToolAnnounced a)" "\<not> is_bell (ToolStated b)" "\<not> is_bell (ToolOpened c)" "\<not> is_bell (ToolDehydrated d)"
  by (simp_all add: is_bell_def)

lemma tool_writes_report:
  assumes "tool_writes shown s e"
  obtains content where "osc_report s content" "length content \<le> 15000" "parse_tool w content = [e]" "\<not> is_bell e"
proof -
  consider (serve) port path dehydrate persist where "serveSequence shown port path dehydrate persist = Inr s"
        "e = ToolAnnounced \<lparr>a_port = readPort port, a_path = as_str path, a_name = None, a_key = None,
           a_dehydrate = (dehydrate = VBool True), a_persist = read_persist persist\<rparr>"
    | (state) b where "stateSequence shown (VBool b) = Inr s" "e = ToolStated b"
    | (opens) path given disp fragment where "openSequence shown (VStr path) given disp fragment = Inr s"
        "e = ToolOpened \<lparr>o_path = path, o_preview = (given = VBool True), o_disposition = read_disposition disp, o_fragment = as_str fragment\<rparr>"
    | (dehydrate) state d where "dehydrateSequence shown state = Inr s" "json_ok shown state" "e = ToolDehydrated d" "s = [esc] @ '']367;dehydrate;'' @ d @ [bel]"
    using assms unfolding tool_writes_def by blast
  then show thesis
  proof cases
    case serve
    from serve_read_back [OF serve(1)] show ?thesis using that one_verb(1) parse_tool_one(1) serve(2) by (metis tool_no_bell(1))
  next
    case state
    from state_read_back [OF state(1)] show ?thesis using that one_verb(2) parse_tool_one(2) state(2) by (metis tool_no_bell(2))
  next
    case opens
    from open_read_back [OF opens(1)] show ?thesis using that one_verb(3) parse_tool_one(3) opens(2) by (metis tool_no_bell(3))
  next
    case dehydrate
    have "d = d'" if "osc_report s content" "parseToolDehydrate w content = Some d'" for content d'
      using dehydrate_read_ok [OF that(2)] that(1) dehydrate(4) by (simp add: osc_report_def)
    with dehydrate_read_back [OF dehydrate(1,2)] show ?thesis using that one_verb(4) parse_tool_one(4) dehydrate(3) by (metis tool_no_bell(4))
  qed
qed

section \<open>Where control strings start and end\<close>

text \<open>Where the parser stands in the terms of the filter of \<open>Terminal_Controls\<close>.\<close>

definition kind_state :: "string_kind \<Rightarrow> filter_state" where
  "kind_state kind = (if kind = OscString then InOsc else InString)"

definition held_state :: "string_kind \<Rightarrow> string \<Rightarrow> filter_state" where
  "held_state kind h = (if h = [] then kind_state kind else StringEscape)"

definition string_position :: "protocol_parser \<Rightarrow> filter_state" where
  "string_position p = (case forwarding p of
      Some (kind, h) \<Rightarrow> held_state kind h
    | None \<Rightarrow> (case discarding p of Some h \<Rightarrow> held_state OscString h | None \<Rightarrow> snd (filter_run Ground (pending p))))"

text \<open>What is still to be looked at again, and a bell that hides the escape character before it.\<close>

definition unread :: "protocol_parser \<Rightarrow> string" where
  "unread p = pending p @ (case forwarding p of Some (kind, h) \<Rightarrow> h | None \<Rightarrow> []) @ (case discarding p of Some h \<Rightarrow> h | None \<Rightarrow> [])"

definition bell_hides :: "string \<Rightarrow> bool" where
  "bell_hides s = (ends_with [bel] s \<and> ends_with [esc] (filter (\<lambda>c. c \<noteq> bel) s))"

lemma ends_with_iff: "ends_with [c] s \<longleftrightarrow> s \<noteq> [] \<and> last s = c"
  by (cases s rule: rev_cases) (auto simp: ends_with_def)

lemma bell_hides_suffix: "bell_hides u \<Longrightarrow> bell_hides (v @ u)"
  by (auto simp: bell_hides_def ends_with_iff)

lemma stripped_end: "\<not> bell_hides s \<Longrightarrow> ends_with [esc] (filter (\<lambda>c. c \<noteq> bel) s) = ends_with [esc] s"
  by (cases s rule: rev_cases) (auto simp: bell_hides_def ends_with_iff)

lemma run_append: "snd (filter_run st (x @ y)) = snd (filter_run (snd (filter_run st x)) y)"
  by (simp add: filter_run_append split_beta Let_def)

lemma kind_state_kind: "kind_state kind \<in> {InOsc, InString}" "kind_of_state (kind_state kind) = kind"
  by (cases kind; simp add: kind_state_def kind_of_state_def)+

lemma held_run: "h = [] \<or> h = [esc] \<Longrightarrow> held_state kind h = snd (filter_run (kind_state kind) h)"
  by (cases kind) (auto simp: held_state_def kind_state_def stringControlEndScan_def)

lemma no_end_run:
  assumes "findStringControlEnd kind r = None"
  shows "snd (filter_run (kind_state kind) r) = held_state kind (held_esc r)"
proof (cases "dropWhile (\<lambda>c. \<not> stringControlEndScan kind c) r")
  case Nil
  then have "esc \<notin> set r" by (auto simp: stringControlEndScan_def)
  then have "held_esc r = []" by (auto simp: held_esc_def ends_with_iff dest: last_in_set)
  then show ?thesis using run_in_string(1) [OF kind_state_kind(1), of kind r] Nil by (simp add: kind_state_kind(2) held_state_def)
next
  case (Cons c w)
  then have "c = esc" "w = []" using assms by (auto simp: findStringControlEnd_def end_at_def split: if_split_asm)
  moreover from this have "ends_with [esc] r" using Cons takeWhile_dropWhile_id [of "\<lambda>c. \<not> stringControlEndScan kind c" r]
    by (metis ends_with_iff last_snoc snoc_eq_iff_butlast)
  ultimately show ?thesis using run_in_string(2) [OF kind_state_kind(1), of kind r c w] Cons
    by (simp add: kind_state_kind(2) held_state_def held_esc_def)
qed

lemma end_run:
  assumes "findStringControlEnd kind r = Some (q, t, u, x)"
  shows "snd (filter_run (kind_state kind) r) = snd (filter_run Ground u)"
proof (cases "dropWhile (\<lambda>c. \<not> stringControlEndScan kind c) r")
  case Nil
  then show ?thesis using assms by (simp only: findStringControlEnd_def end_at_def list.case option.distinct)
next
  case (Cons c w)
  then have run: "filter_run (kind_state kind) r = filter_run (if c = esc then StringEscape else Ground) w"
    using run_in_string(2) [OF kind_state_kind(1), of kind r c w] by (simp add: kind_state_kind(2))
  have e: "end_at (takeWhile (\<lambda>c. \<not> stringControlEndScan kind c) r) (c # w) = Some (q, t, u, x)" using assms Cons by (simp add: findStringControlEnd_def)
  show ?thesis
  proof (cases "c = esc")
    case True
    then obtain d v where "w = d # v" using e by (cases w) (simp_all add: end_at_def)
    then show ?thesis using run True e by (auto simp: end_at_def ground_char_def split_beta Let_def split: if_split_asm)
  qed (use run e in \<open>simp add: end_at_def\<close>)
qed

lemma introducer_kind: "find_introducer s = Some (g, i, r) \<Longrightarrow> string_state i = kind_state (stringControlKind i)"
  by (simp add: string_state_def kind_state_def)

lemma introducer_last: "find_introducer s = Some (g, i, r) \<Longrightarrow> held_esc (i @ r) = held_esc r"
proof -
  assume "find_introducer s = Some (g, i, r)"
  then have "i \<noteq> [] \<and> introducer_here (i @ r) = Some (i, r)" using find_introducer_split by blast
  then have "i \<noteq> []" "last i \<noteq> esc" using esc_not_C1 by (auto simp: introducer_here_def ESC_INTRODUCERS_def split: list.splits if_split_asm)
  then show ?thesis by (cases "r = []") (simp_all add: held_esc_def ends_with_iff)
qed

lemma held_suffix_run: "snd (filter_run Ground (takeDeviceAttributePendingSuffix t)) = (if ends_with [esc] t then Escape else Ground)"
proof -
  have "list_all (\<lambda>x. snd (filter_run Ground x) = (if x = [esc] then Escape else Ground)) DEVICE_ATTRIBUTE_PENDING_SUFFIXES" by code_simp
  then have run: "snd (filter_run Ground (takeDeviceAttributePendingSuffix t)) = (if takeDeviceAttributePendingSuffix t = [esc] then Escape else Ground)"
    by (auto simp: takeDeviceAttributePendingSuffix_def list_all_iff find_Some_iff ground_char_def split: option.split)
  have "takeDeviceAttributePendingSuffix t = [esc] \<longleftrightarrow> ends_with [esc] t"
    by (cases t rule: rev_cases) (auto simp: takeDeviceAttributePendingSuffix_def DEVICE_ATTRIBUTE_PENDING_SUFFIXES_def ends_with_def starts_with_def)
  with run show ?thesis by simp
qed

lemma ground_tail_position:
  assumes "scanning p" "find_introducer s = None" "\<not> bell_hides s"
  shows "string_position (fst (ground_tail s p)) = snd (filter_run Ground s)"
proof -
  have "fst (stripStandaloneBells s) = filter (\<lambda>c. c \<noteq> bel) s" by (induction s) (auto simp: stripStandaloneBells_def)
  then show ?thesis using assms ground_run(1) [OF assms(2)] held_suffix_run stripped_end [OF assms(3)]
    by (simp add: ground_tail_def string_position_def scanning_def ground_parser_def split_beta Let_def)
qed

lemma hold_position:
  assumes "scanning p" "find_introducer s = Some (g, i, r)" "findStringControlEnd (stringControlKind i) r = None"
  shows "string_position (fst (hold_incomplete (stringControlKind i) i r p)) = snd (filter_run Ground s)"
proof -
  let ?k = "stringControlKind i"
  have s: "snd (filter_run Ground s) = snd (filter_run (kind_state ?k) r)" using ground_run(2) [OF assms(2)] introducer_kind [OF assms(2)] by simp
  have i: "snd (filter_run Ground (i @ r)) = snd (filter_run (kind_state ?k) r)"
    using find_introducer_split [OF assms(2)] introducer_step introducer_kind [OF assms(2)] by metis
  show ?thesis using assms(1) s i no_end_run [OF assms(3)] introducer_last [OF assms(2)]
    by (auto simp: hold_incomplete_def beginForwarding_def string_position_def scanning_def ground_parser_def Let_def)
qed

lemma ground_loop_position:
  "scanning p \<Longrightarrow> \<not> bell_hides s \<Longrightarrow> snd (ground_loop S now s p) = Inr res \<Longrightarrow> string_position (fst (ground_loop S now s p)) = snd (filter_run Ground s)"
proof (induction S now s p arbitrary: res rule: ground_loop.induct)
  case (1 S now s p)
  consider (stop) "s = []" | (tail) "s \<noteq> []" "find_introducer s = None"
    | (hold) g i r where "s \<noteq> []" "find_introducer s = Some (g, i, r)" "findStringControlEnd (stringControlKind i) r = None"
    | (control) g i r q t u c where "s \<noteq> []" "find_introducer s = Some (g, i, r)" "findStringControlEnd (stringControlKind i) r = Some (q, t, u, c)"
    by (cases "find_introducer s") (auto, metis option.exhaust prod.exhaust)
  then show ?case
  proof cases
    case stop
    then show ?thesis using 1(2) by (subst ground_loop.simps) (simp add: string_position_def scanning_def ground_parser_def)
  next
    case tail
    then show ?thesis using ground_tail_position [OF 1(2) tail(2) 1(3)] by (subst ground_loop.simps) (simp add: split_beta Let_def)
  next
    case hold
    then show ?thesis using hold_position [OF 1(2) hold(2,3)] by (subst ground_loop.simps) (simp add: split_beta Let_def)
  next
    case control
    obtain ground es where g: "ground_part g = (ground, es)" by fastforce
    obtain p1 o1 where o1: "take_control S now (stringControlKind i) i q t c r p = (p1, o1)" by fastforce
    have p1: "scanning p1" using take_control_scanning [OF 1(2)] o1 by (metis fst_conv)
    have s: "s = (g @ i @ q @ t) @ u" using find_introducer_split [OF control(2)] findStringControlEnd_split [OF control(3)] by simp
    note step = ground_loop.simps [of S now s p]
    obtain out es1 where o1': "o1 = Inr (out, es1)" using 1(4) control g o1 by (subst (asm) step) (cases o1; auto)
    have sub: "fst (ground_loop S now s p) = fst (ground_loop S now u p1)" "\<exists>res'. snd (ground_loop S now u p1) = Inr res'"
      using 1(4) control g o1 o1' unfolding step by (auto split: prod.splits sum.splits)
    then obtain res' where "snd (ground_loop S now u p1) = Inr res'" by blast
    moreover have "\<not> bell_hides u" using bell_hides_suffix 1(3) s by blast
    ultimately have "string_position (fst (ground_loop S now u p1)) = snd (filter_run Ground u)"
      using 1(1) [OF control(1) control(2) _ _ _ _ _ control(3)] g o1 o1' p1 by simp
    then show ?thesis using sub(1) end_run [OF control(3)] ground_run(2) [OF control(2)] introducer_kind [OF control(2)] by simp
  qed
qed

lemma process_ground_position:
  assumes "parser_inv p" "ground_parser p" "\<not> bell_hides (pending p @ data)" "snd (process_ground S now data p) = Inr res"
  shows "string_position (fst (process_ground S now data p)) = snd (filter_run Ground (pending p @ data))"
proof (cases "pending p = [] \<and> \<not> needs_parse data")
  case True
  then have intro: "find_introducer data = None" and "\<forall>c \<in> set data. c \<notin> {bel, esc, CHR 0x9B}" by (simp_all only: needs_parse_def list_ex_iff) blast+
  then have "esc \<notin> set data" by blast
  then have "\<not> ends_with [esc] data" unfolding ends_with_iff using last_in_set by metis
  then have "filter_run Ground data = (data, Ground)" using ground_run(1) [OF intro] by (simp only: if_False)
  then show ?thesis using True assms(2) by (simp add: process_ground_def string_position_def ground_parser_def)
next
  case False
  have "scanning (p\<lparr>pending := []\<rparr>)" using assms(1,2) by (simp add: scanning_def parser_inv_def ground_parser_def)
  moreover obtain res' where "snd (ground_loop S now (pending p @ data) (p\<lparr>pending := []\<rparr>)) = Inr res'"
    using False assms(4) by (cases "ground_loop S now (pending p @ data) (p\<lparr>pending := []\<rparr>)"; cases "snd (ground_loop S now (pending p @ data) (p\<lparr>pending := []\<rparr>))")
      (auto simp: process_ground_def)
  ultimately have "string_position (fst (ground_loop S now (pending p @ data) (p\<lparr>pending := []\<rparr>))) = snd (filter_run Ground (pending p @ data))"
    using assms(3) ground_loop_position by blast
  then show ?thesis using False by (auto simp: process_ground_def split: prod.split sum.split)
qed

text \<open>From inside a string: the text up to its end is passed over.\<close>

lemma position_after_end:
  assumes "findStringControlEnd kind (h @ data) = Some (q, t, u, x)" "h = [] \<or> h = [esc]"
  shows "snd (filter_run Ground u) = snd (filter_run (held_state kind h) data)" "\<not> bell_hides (h @ data) \<Longrightarrow> \<not> bell_hides u"
proof -
  show "snd (filter_run Ground u) = snd (filter_run (held_state kind h) data)"
    using end_run [OF assms(1)] held_run [OF assms(2), of kind] by (simp add: run_append)
  have "h @ data = (q @ t) @ u" using findStringControlEnd_split [OF assms(1)] by simp
  then show "\<not> bell_hides (h @ data) \<Longrightarrow> \<not> bell_hides u" using bell_hides_suffix by metis
qed

lemma position_no_end:
  assumes "findStringControlEnd kind (h @ data) = None" "h = [] \<or> h = [esc]"
  shows "held_state kind (held_esc (h @ data)) = snd (filter_run (held_state kind h) data)"
  using no_end_run [OF assms(1)] held_run [OF assms(2), of kind] by (simp add: run_append)

lemma process_undiscarded_position:
  assumes "parser_inv p" "discarding p = None" "\<not> bell_hides (unread p @ data)" "snd (process_undiscarded S now data p) = Inr res"
  shows "string_position (fst (process_undiscarded S now data p)) = snd (filter_run (string_position p) data)"
proof (cases "forwarding p")
  case None
  then show ?thesis using process_ground_position [OF assms(1), of data S now res] assms(2-4)
    by (simp add: process_undiscarded_def ground_parser_def unread_def string_position_def run_append)
next
  case (Some kh)
  obtain kind h where kh: "kh = (kind, h)" by fastforce
  have p: "pending p = []" "h = [] \<or> h = [esc]" using assms(1) Some kh by (auto simp: parser_inv_def)
  have hides: "\<not> bell_hides (h @ data)" using assms(2,3) Some kh p(1) by (simp add: unread_def)
  show ?thesis
  proof (cases "findStringControlEnd kind (h @ data)")
    case None
    then show ?thesis using Some kh position_no_end [OF None p(2)]
      by (simp add: process_undiscarded_def processForwarded_def beginForwarding_def string_position_def)
  next
    case (Some e)
    obtain q t u x where e: "e = (q, t, u, x)" by (cases e)
    let ?p = "p\<lparr>forwarding := None\<rparr>"
    have inv: "parser_inv ?p" "ground_parser ?p" using assms by (auto simp: parser_inv_def ground_parser_def)
    note after = position_after_end [OF Some [unfolded e] p(2)]
    have step: "process_undiscarded S now data p = (case process_ground S now u ?p of (p1, Inl x) \<Rightarrow> (p1, Inl x)
        | (p1, Inr res) \<Rightarrow> (p1, Inr (res\<lparr>visibleData := q @ t @ visibleData res, resumedStringEnd := Some (length (q @ t))\<rparr>)))"
      using Some e kh \<open>forwarding p = Some kh\<close> by (simp add: process_undiscarded_def processForwarded_def split: prod.split sum.split)
    then obtain res' where "snd (process_ground S now u ?p) = Inr res'" using assms(4) by (auto split: prod.splits sum.splits)
    with process_ground_position [OF inv, of u S now] after(2) [OF hides] p(1)
    have "string_position (fst (process_ground S now u ?p)) = snd (filter_run Ground u)" by simp
    moreover have "fst (process_undiscarded S now data p) = fst (process_ground S now u ?p)" using step by (simp split: prod.split sum.split)
    moreover have "string_position p = held_state kind h" using kh \<open>forwarding p = Some kh\<close> by (simp add: string_position_def)
    ultimately show ?thesis using after(1) by simp
  qed
qed

lemma process_position:
  assumes "parser_inv p" "\<not> bell_hides (unread p @ data)" "snd (process S now data p) = Inr res"
  shows "string_position (fst (process S now data p)) = snd (filter_run (string_position p) data)"
proof (cases "discarding p")
  case None
  then show ?thesis using process_undiscarded_position [OF assms(1) None assms(2)] assms(3) by (simp add: process_def)
next
  case (Some h)
  have p: "pending p = []" "h = [] \<or> h = [esc]" "forwarding p = None" using assms(1) Some by (cases "forwarding p"; auto simp: parser_inv_def)+
  have hides: "\<not> bell_hides (h @ data)" using assms(2) Some p by (simp add: unread_def)
  show ?thesis
  proof (cases "findStringControlEnd OscString (h @ data)")
    case None
    then show ?thesis using Some p position_no_end [OF None p(2)] by (simp add: process_def string_position_def)
  next
    case (Some e)
    obtain q t u x where e: "e = (q, t, u, x)" by (cases e)
    let ?p = "p\<lparr>discarding := None\<rparr>"
    have inv: "parser_inv ?p" using assms(1) p by (auto simp: parser_inv_def)
    note after = position_after_end [OF Some [unfolded e] p(2)]
    have step: "process S now data p = process_undiscarded S now u ?p" using Some e \<open>discarding p = Some h\<close> by (simp add: process_def)
    have "string_position (fst (process_undiscarded S now u ?p)) = snd (filter_run (string_position ?p) u)"
      using process_undiscarded_position [OF inv, of u S now res] after(2) [OF hides] p assms(3) step by (simp add: unread_def)
    then show ?thesis using step after(1) p \<open>discarding p = Some h\<close> by (simp add: string_position_def)
  qed
qed

text \<open>No read ends with a bell that hides an escape character.\<close>

fun clear_cuts :: "protocol_services \<Rightarrow> (int \<times> string) list \<Rightarrow> protocol_parser \<Rightarrow> bool" where
  "clear_cuts S [] p = True"
| "clear_cuts S ((now, data) # reads) p = (\<not> bell_hides (unread p @ data) \<and> clear_cuts S reads (fst (process S now data p)))"

lemma process_reads_position:
  "parser_inv p \<Longrightarrow> clear_cuts S reads p \<Longrightarrow> process_reads S reads p = (p1, Inr res) \<Longrightarrow>
   string_position p1 = snd (process_chunks (string_position p) (map snd reads))"
proof (induction S reads p arbitrary: res rule: process_reads.induct)
  case (2 S now data reads p)
  obtain p2 o2 where o2: "process S now data p = (p2, o2)" by fastforce
  with 2(4) obtain r res' where r: "o2 = Inr r" "process_reads S reads p2 = (p1, Inr res')" by (cases o2) (auto split: prod.splits sum.splits)
  have "parser_inv p2" using process_sound [OF 2(2), of S now data] o2 by simp
  from 2(1) [OF o2 [symmetric] r(1) this _ r(2)] 2(3) o2 process_position [OF 2(2), of data S now r] r(1)
  show ?case by (simp add: split_beta Let_def process_filter_run)
qed simp

section \<open>The order of events\<close>

definition event_time :: "semantic_event \<Rightarrow> rat option" where
  "event_time e = (case e of
      CwdEvent c \<Rightarrow> Some (cupdated c) | CommandStart src t \<Rightarrow> t | CommandFinish code t \<Rightarrow> t | TitleEvent x \<Rightarrow> Some (tupdated x) | _ \<Rightarrow> None)"

text \<open>The calls on the sink with each semantic event in a call of its own, and what they should be: for each
  event in turn, the semantic event it stands for and then its report.\<close>

definition single_calls :: "sink_call \<Rightarrow> sink_call list" where
  "single_calls c = (case c of SemanticCall run \<Rightarrow> map (\<lambda>x. SemanticCall [x]) run | _ \<Rightarrow> [c])"

fun stream_calls :: "(nat \<Rightarrow> rat) \<Rightarrow> nat \<Rightarrow> rat option \<Rightarrow> protocol_event list \<Rightarrow> sink_call list" where
  "stream_calls clock k latest [] = []"
| "stream_calls clock k latest (e # es) =
     (let (x, l) = semanticEventOf (clock k) latest e
      in (case x of Some y \<Rightarrow> [SemanticCall [y]] | None \<Rightarrow> []) @ applyTerminalReport e @ stream_calls clock (Suc k) l es)"

lemma single_semantic: "concat (map single_calls (applySemantic run)) = map (\<lambda>x. SemanticCall [x]) run"
  by (simp add: applySemantic_def single_calls_def)

lemma single_report: "concat (map single_calls (applyTerminalReport e)) = applyTerminalReport e"
  by (cases e) (simp_all add: applyTerminalReport_def single_calls_def)

lemma apply_loop_order:
  "concat (map single_calls (fst (apply_loop clock k latest run es))) = map (\<lambda>x. SemanticCall [x]) run @ stream_calls clock k latest es \<and>
   snd (apply_loop clock k latest run es) = collect_loop clock k latest es \<and> SemanticCall [] \<notin> set (fst (apply_loop clock k latest run es))"
proof (induction clock k latest run es rule: apply_loop.induct)
  case (1 clock k latest run)
  then show ?case by (simp add: single_semantic) (simp add: applySemantic_def)
next
  case (2 clock k latest run e es)
  obtain x l where x: "semanticEventOf (clock k) latest e = (x, l)" by fastforce
  have "SemanticCall [] \<notin> set (applyTerminalReport e)" "SemanticCall [] \<notin> set (applySemantic r)" for r
    by (cases e) (simp_all add: applyTerminalReport_def applySemantic_def)
  then show ?case using 2(1) [OF x [symmetric] refl refl] 2(2) [OF x [symmetric] refl refl]
    by (cases "applyTerminalReport e = []"; cases x) (auto simp: x single_semantic single_report split_beta Let_def)
qed

lemma next_timestamp_grows: "pred_option (\<lambda>l. l < next_timestamp c latest) latest"
  by (cases latest) (simp_all add: next_timestamp_def)

text \<open>A timestamp is later than every earlier one, also where none is given.\<close>

lemma semantic_time:
  assumes "semanticEventOf c latest e = (x, l)"
  shows "pred_option (\<lambda>a. \<exists>b. l = Some b \<and> a \<le> b) latest \<and>
    (\<forall>y t. x = Some y \<longrightarrow> event_time y = Some t \<longrightarrow> l = Some t \<and> pred_option (\<lambda>a. a < t) latest)"
proof -
  have up: "latest = Some a \<Longrightarrow> a < next_timestamp c latest" for a using next_timestamp_grows [of c latest] by simp
  show ?thesis
  proof (cases e)
    case (Semantic s)
    then show ?thesis using assms up
      by (cases s; cases latest) (auto simp: semanticEventOf_def timestampSemanticEvent_def event_time_def Let_def dest: less_imp_le)
  next
    case (Notification n)
    then show ?thesis using assms up
      by (cases latest) (auto simp: semanticEventOf_def Let_def terminalTitleFromNotification_def event_time_def split: option.splits if_split_asm dest: less_imp_le)
  qed (use assms in \<open>auto simp: semanticEventOf_def option.pred_set\<close>)
qed

lemma collect_times:
  "sorted_wrt (<) (List.map_filter event_time (fst (collect_loop clock k latest es))) \<and>
   (\<forall>t \<in> set (List.map_filter event_time (fst (collect_loop clock k latest es))). pred_option (\<lambda>a. a < t) latest)"
proof (induction clock k latest es rule: collect_loop.induct)
  case (2 clock k latest e es)
  obtain x l where x: "semanticEventOf (clock k) latest e = (x, l)" by fastforce
  let ?r = "List.map_filter event_time (fst (collect_loop clock (Suc k) l es))"
  have ih: "sorted_wrt (<) ?r" "\<And>t. t \<in> set ?r \<Longrightarrow> pred_option (\<lambda>a. a < t) l" using 2 [OF x [symmetric] refl] by auto
  note st = semantic_time [OF x]
  have later: "pred_option (\<lambda>a. a < t) latest" if "t \<in> set ?r" for t using ih(2) [OF that] st by (cases latest) auto
  show ?case
  proof (cases "Option.bind x event_time")
    case None
    then have "List.map_filter event_time ((case x of Some y \<Rightarrow> [y] | None \<Rightarrow> []) @ fst (collect_loop clock (Suc k) l es)) = ?r"
      by (cases x) (auto simp: List.map_filter_simps)
    then show ?thesis using ih(1) later x by (simp add: split_beta Let_def)
  next
    case (Some t)
    then obtain y where y: "x = Some y" "event_time y = Some t" by (auto simp: Option.bind_eq_Some_conv)
    then have "List.map_filter event_time ((case x of Some y \<Rightarrow> [y] | None \<Rightarrow> []) @ fst (collect_loop clock (Suc k) l es)) = t # ?r"
      by (simp add: List.map_filter_simps)
    moreover have "l = Some t" "pred_option (\<lambda>a. a < t) latest" using st y by blast+
    moreover from this(1) ih(2) have "\<forall>u \<in> set ?r. t < u" by auto
    ultimately show ?thesis using ih(1) later x by (simp add: split_beta Let_def)
  qed
qed (simp add: List.map_filter_simps)

section \<open>Properties\<close>

text \<open>C16: A Tool's report reaches the host however the terminal cuts it: what one of the writers of the Tools
  library answers, read by a new parser in any pieces at any times, gives exactly the one event with the
  values that were written, draws nothing, and leaves the parser as it was; and the host reads a dehydrated
  state back from its event. Side conditions, in \<open>tool_writes\<close>: a state report is of a boolean, the path of an
  open request is a string, as their types have it, and a dehydrated state is a JSON value, \<open>json_ok\<close>: no
  undefined, object keys distinct, and every number finite and printed by \<open>shown\<close> as JSON reads it. A state
  with a NaN or an infinity in it is answered, too, but prints as null, and the host does not get the
  value back (\<open>dehydrate_nan_lost\<close>).\<close>

theorem tool_reports_delivered:
  assumes "tool_writes shown s e" "concat (map snd reads) = s"
  shows "process_reads S reads new_protocol_parser = (new_protocol_parser, Inr ([], [e])) \<and>
    (\<forall>state d. dehydrateSequence shown state = Inr s \<and> json_ok shown state \<and> e = ToolDehydrated d \<longrightarrow> readDehydrated (wide_chars S) (Some d) = Some state)"
proof (intro conjI allI impI)
  obtain content where c: "osc_report s content" "length content \<le> 15000" "parse_tool (wide_chars S) content = [e]" "\<not> is_bell e"
    using tool_writes_report [OF assms(1)] by blast
  then have "list_all (\<lambda>c. \<not> is_control c) content" "s = [esc] @ '']367;'' @ content @ [bel]" by (auto simp: osc_report_def list_all_iff)
  with reads_deliver [OF _ c(2-4), of "[]" reads] assms(2)
  show "process_reads S reads new_protocol_parser = (new_protocol_parser, Inr ([], [e]))" by (simp add: new_protocol_parser_def)
  fix state d assume d: "dehydrateSequence shown state = Inr s \<and> json_ok shown state \<and> e = ToolDehydrated d"
  then obtain content' d' where "osc_report s content'" "parseToolDehydrate (wide_chars S) content' = Some d'" "readDehydrated (wide_chars S) (Some d') = Some state"
    using dehydrate_read_back [of shown state s] by metis
  moreover from this have "content' = content" using c(1) by (simp add: osc_report_def)
  ultimately show "readDehydrated (wide_chars S) (Some d) = Some state" using c(3) parse_tool_one(4) d by fastforce
qed

definition plain_shown :: "rat \<Rightarrow> string" where
  "plain_shown _ = ''0''"

theorem tool_reports_delivered_witness:
  "process_reads plain_services [(1, [esc] @ '']36''), (2, ''7;state;{\"v\":1,\"dirty\":true''), (3, ''}'' @ [bel])] new_protocol_parser =
     (new_protocol_parser, Inr ([], [ToolStated True]))"
proof -
  let ?reads = "[(1, [esc] @ '']36''), (2, ''7;state;{\"v\":1,\"dirty\":true''), (3, ''}'' @ [bel])] :: (int \<times> string) list"
  have "stateSequence plain_shown (VBool True) = Inr (concat (map snd ?reads))" by code_simp
  then have "tool_writes plain_shown (concat (map snd ?reads)) (ToolStated True)" unfolding tool_writes_def by blast
  from tool_reports_delivered [OF this refl, of plain_services] show ?thesis by blast
qed

text \<open>C17: The parser and the filter of terminal text agree on where control strings start and end: after any
  reads that did not throw, in none of which a bell at the end hides an escape character before it, the
  parser, whether it forwards a string, discards one, holds one back or is outside of all, stands
  exactly where the filter stands after the same chunks, and so where it would stand had the stream
  been read at once.\<close>

theorem parser_tracks_strings:
  assumes "clear_cuts S reads new_protocol_parser" "process_reads S reads new_protocol_parser = (p, Inr res)"
  shows "string_position p = snd (process_chunks Ground (map snd reads)) \<and> string_position p = snd (process_filter Ground (concat (map snd reads)))"
proof -
  have "parser_inv new_protocol_parser" "string_position new_protocol_parser = Ground"
    by (simp_all add: new_protocol_parser_def parser_inv_def osc99_ok_def string_position_def)
  then show ?thesis using process_reads_position [OF _ assms] by (simp add: process_chunks_run process_filter_run)
qed

theorem parser_tracks_strings_witness:
  "string_position (fst (process_reads plain_services [(1, ''a'' @ [esc]), (2, '']8;;x''), (3, ''y'' @ [esc])] new_protocol_parser)) = StringEscape"
proof -
  let ?reads = "[(1, ''a'' @ [esc]), (2, '']8;;x''), (3, ''y'' @ [esc])] :: (int \<times> string) list"
  let ?r = "process_reads plain_services ?reads new_protocol_parser"
  have "isl (snd ?r) = False" "clear_cuts plain_services ?reads new_protocol_parser" "snd (process_chunks Ground (map snd ?reads)) = StringEscape" by code_simp+
  moreover from this(1) have "?r = (fst ?r, Inr (projr (snd ?r)))" by (cases ?r; cases "snd ?r") auto
  ultimately show ?thesis using parser_tracks_strings [of plain_services ?reads "fst ?r"] by metis
qed

text \<open>Where a bell does hide an escape character the parser takes a bracket for an introducer that was
  text.\<close>

lemma hidden_escape_joins:
  "string_position (fst (process_reads plain_services [(1, [esc, bel]), (2, '']8;;x'')] new_protocol_parser)) = InOsc"
  "snd (process_chunks Ground [[esc, bel], '']8;;x'']) = Ground"
  by code_simp+

text \<open>C21: Events are handed on in the order of the stream: with the batches of semantic events taken apart, the
  calls on the sink are, for each event in turn, the semantic event it stands for and then its report; no
  batch is empty; the semantic events are those that are collected without a sink; and their
  timestamps grow strictly, whatever the clock does, also past the latest one of earlier reads.\<close>

theorem events_in_stream_order:
  assumes "applyTerminalEvents clock latest es = (calls, semantic, l)"
  shows "concat (map single_calls calls) = stream_calls clock 0 latest es \<and> SemanticCall [] \<notin> set calls \<and>
    (semantic, l) = collectTerminalSemanticEvents clock latest es \<and>
    sorted_wrt (<) (List.map_filter event_time semantic) \<and> (\<forall>t \<in> set (List.map_filter event_time semantic). pred_option (\<lambda>a. a < t) latest)"
proof -
  have "calls = fst (apply_loop clock 0 latest [] es)" "(semantic, l) = snd (apply_loop clock 0 latest [] es)"
    using assms by (auto simp: applyTerminalEvents_def applySemantic_def split: if_split_asm)
  then show ?thesis using apply_loop_order [of clock 0 latest "[]" es] collect_times [of clock 0 latest es]
    by (simp add: collectTerminalSemanticEvents_def) (metis fst_conv)
qed

theorem events_in_stream_order_witness:
  "sorted_wrt (<) (List.map_filter event_time (fst (snd (applyTerminalEvents (\<lambda>_. 7) (Some 9)
     [Semantic (CommandStart None None), Notification TERMINAL_BELL_NOTIFICATION, Semantic (CommandFinish (Some 0) None)]))))"
proof -
  let ?r = "applyTerminalEvents (\<lambda>_. 7) (Some 9)
     [Semantic (CommandStart None None), Notification TERMINAL_BELL_NOTIFICATION, Semantic (CommandFinish (Some 0) None)]"
  have "?r = (fst ?r, fst (snd ?r), snd (snd ?r))" by simp
  then show ?thesis using events_in_stream_order by blast
qed

end
