(* ===== verification/Tool_Runs.thy ===== *)
theory Tool_Runs
  imports Terminal_Protocol
begin

text \<open>
  What the host keeps of a Tool's run (\<open>lib/src/lib/\<close>): the latch that admits \<open>open\<close> requests of the run the host
  launched and no other (\<open>tool-launch-latch.ts\<close>), the latest announcement and unsaved state of each Session
  (\<open>tool-announce-store.ts\<close>, \<open>tool-dirty-store.ts\<close>), the payloads of stopping Tools
  (\<open>tool-reap-store.ts\<close>), the requests they make (\<open>tool-open-requests.ts\<close>), the events that feed all of them
  (\<open>tool-events.ts\<close>) and the holds on runs the host itself interrupts (\<open>tool-run-hold.ts\<close>). A map of the
  source is an association list; calls of listeners and of the control dispatcher are a log.
\<close>

section \<open>The launch latch\<close>

record launch_latch =
  launched :: "string option"
  latch_line :: "string option"
  latch_running :: bool

definition new_latch :: launch_latch where
  "new_latch = \<lparr>launched = None, latch_line = None, latch_running = False\<rparr>"

definition typed_line :: "string \<Rightarrow> string" where
  "typed_line typed = (if ends_with [return_char] typed then butlast typed else typed)"

definition arm :: "string \<Rightarrow> launch_latch \<Rightarrow> launch_latch" where
  "arm typed l = \<lparr>launched = Some (typed_line typed), latch_line = None, latch_running = False\<rparr>"

definition latch_step :: "protocol_event \<Rightarrow> launch_latch \<Rightarrow> launch_latch" where
  "latch_step e l = (case e of
      Semantic (CommandLine s) \<Rightarrow> l\<lparr>latch_line := Some s\<rparr>
    | Semantic (CommandStart _ _) \<Rightarrow> \<lparr>launched = None, latch_line = None, latch_running = launched l \<noteq> None \<and> latch_line l = launched l\<rparr>
    | Semantic (CommandFinish _ _) \<Rightarrow> l\<lparr>latch_running := False\<rparr>
    | Semantic PromptStart \<Rightarrow> l\<lparr>latch_running := False, latch_line := None\<rparr>
    | Semantic PromptEnd \<Rightarrow> l\<lparr>latch_running := False, latch_line := None\<rparr>
    | _ \<Rightarrow> l)"

definition is_open :: "protocol_event \<Rightarrow> bool" where
  "is_open e = (case e of ToolOpened _ \<Rightarrow> True | _ \<Rightarrow> False)"

fun admit :: "protocol_event list \<Rightarrow> launch_latch \<Rightarrow> launch_latch \<times> protocol_event list" where
  "admit [] l = (l, [])"
| "admit (e # es) l =
     (let (l1, out) = admit es (latch_step e l)
      in (l1, if is_open e \<and> \<not> latch_running l then out else e # out))"

section \<open>The stores\<close>

record reap_record =
  reap_payload :: "string option"
  reap_cwd :: "string option"
  reap_alert :: "jval option"

record open_params =
  op_file :: string
  op_preview :: "bool option"
  op_cwd :: "string option"
  op_disposition :: "disposition option"
  op_fragment :: "string option"

datatype tool_call = AnnounceNews string | DirtyNews | OpenRequest string open_params "(nat \<times> bool) option"

record tool_stores =
  announces :: "(string \<times> tool_announce) list"
  dirty :: "(string \<times> bool) list"
  dirty_snapshot :: "(string \<times> bool) list option"
  stopping :: "(string \<times> string option) list"
  reaped :: "(string \<times> reap_record) list"
  newest :: "(string \<times> nat) list"
  tool_log :: "tool_call list"

definition new_tool_stores :: tool_stores where
  "new_tool_stores = \<lparr>announces = [], dirty = [], dirty_snapshot = None, stopping = [], reaped = [], newest = [], tool_log = []\<rparr>"

definition tell :: "tool_call \<Rightarrow> tool_stores \<Rightarrow> tool_stores" where
  "tell c st = st\<lparr>tool_log := tool_log st @ [c]\<rparr>"

definition clearToolAnnounce :: "string \<Rightarrow> tool_stores \<Rightarrow> tool_stores" where
  "clearToolAnnounce sid st = st\<lparr>announces := js_map_delete sid (announces st)\<rparr>"

definition getToolAnnounce :: "string \<Rightarrow> tool_stores \<Rightarrow> tool_announce option" where
  "getToolAnnounce sid st = map_of (announces st) sid"

definition recordToolAnnounce :: "string \<Rightarrow> tool_announce option \<Rightarrow> tool_stores \<Rightarrow> tool_stores" where
  "recordToolAnnounce sid announce st = (case announce of
      None \<Rightarrow> clearToolAnnounce sid st
    | Some a \<Rightarrow>
        let previous = map_of (announces st) sid; st1 = st\<lparr>announces := js_map_set sid a (announces st)\<rparr>
        in if Option.bind previous a_port = a_port a \<and> Option.bind previous a_path = a_path a then st1 else tell (AnnounceNews sid) st1)"

definition getToolDirty :: "string \<Rightarrow> tool_stores \<Rightarrow> bool option" where
  "getToolDirty sid st = map_of (dirty st) sid"

definition getToolDirtySnapshot :: "tool_stores \<Rightarrow> tool_stores \<times> (string \<times> bool) list" where
  "getToolDirtySnapshot st = (case dirty_snapshot st of Some m \<Rightarrow> (st, m) | None \<Rightarrow> (st\<lparr>dirty_snapshot := Some (dirty st)\<rparr>, dirty st))"

definition recordToolDirty :: "string \<Rightarrow> bool option \<Rightarrow> tool_stores \<Rightarrow> tool_stores" where
  "recordToolDirty sid v st =
     (if getToolDirty sid st = v then st
      else tell DirtyNews (st\<lparr>dirty := (case v of None \<Rightarrow> js_map_delete sid (dirty st) | Some b \<Rightarrow> js_map_set sid b (dirty st)), dirty_snapshot := None\<rparr>))"

definition clearToolDirty :: "string \<Rightarrow> tool_stores \<Rightarrow> tool_stores" where
  "clearToolDirty sid st = recordToolDirty sid None st"

definition beginToolStop :: "string \<Rightarrow> tool_stores \<Rightarrow> tool_stores" where
  "beginToolStop sid st = st\<lparr>stopping := js_map_set sid None (stopping st)\<rparr>"

definition isToolStopping :: "string \<Rightarrow> tool_stores \<Rightarrow> bool" where
  "isToolStopping sid st = (map_of (stopping st) sid \<noteq> None)"

definition offerToolDehydrate :: "string \<Rightarrow> string \<Rightarrow> tool_stores \<Rightarrow> tool_stores" where
  "offerToolDehydrate sid d st = (if isToolStopping sid st then st\<lparr>stopping := js_map_set sid (Some d) (stopping st)\<rparr> else st)"

definition endToolStop :: "string \<Rightarrow> tool_stores \<Rightarrow> tool_stores \<times> string option" where
  "endToolStop sid st = (st\<lparr>stopping := js_map_delete sid (stopping st)\<rparr>, case map_of (stopping st) sid of Some d \<Rightarrow> d | None \<Rightarrow> None)"

definition markToolReaped :: "string \<Rightarrow> reap_record \<Rightarrow> tool_stores \<Rightarrow> tool_stores" where
  "markToolReaped sid r st = st\<lparr>reaped := js_map_set sid r (reaped st)\<rparr>"

definition getToolReap :: "string \<Rightarrow> tool_stores \<Rightarrow> reap_record option" where
  "getToolReap sid st = map_of (reaped st) sid"

definition isToolReaped :: "string \<Rightarrow> tool_stores \<Rightarrow> bool" where
  "isToolReaped sid st = (getToolReap sid st \<noteq> None)"

definition takeToolReap :: "string \<Rightarrow> tool_stores \<Rightarrow> tool_stores \<times> reap_record option" where
  "takeToolReap sid st = (st\<lparr>reaped := js_map_delete sid (reaped st)\<rparr>, getToolReap sid st)"

definition clearToolReap :: "string \<Rightarrow> tool_stores \<Rightarrow> tool_stores" where
  "clearToolReap sid st = st\<lparr>stopping := js_map_delete sid (stopping st), reaped := js_map_delete sid (reaped st)\<rparr>"

section \<open>Open requests\<close>

text \<open>The text before the last separator and the text up to and with it; a path without one has neither.\<close>

definition path_cut :: "string \<Rightarrow> string" where
  "path_cut path = rev (dropWhile (\<lambda>c. c \<noteq> CHR ''/'' \<and> c \<noteq> bslash) (rev path))"

definition drive_or_empty :: "string \<Rightarrow> bool" where
  "drive_or_empty dir = (dir = [] \<or> length dir = 2 \<and> is_letter (dir ! 0) \<and> dir ! 1 = CHR '':'')"

definition directoryOf :: "string \<Rightarrow> string" where
  "directoryOf path =
     (let upto = path_cut path; dir = (if upto = [] then butlast path else butlast upto)
      in if drive_or_empty dir then upto else dir)"

text \<open>\<open>dispatchToolOpen\<close>: a request with a disposition is settled by nobody; another carries the number it has
  in its Session and whether it was a preview, for the answer.\<close>

definition dispatchToolOpen :: "(string \<Rightarrow> string option) \<Rightarrow> string \<Rightarrow> tool_open \<Rightarrow> tool_stores \<Rightarrow> tool_stores" where
  "dispatchToolOpen inheritableCwd sid r st =
     (let sequence_no = Suc (case map_of (newest st) sid of Some n \<Rightarrow> n | None \<Rightarrow> 0);
          st1 = st\<lparr>newest := js_map_set sid sequence_no (newest st)\<rparr>
      in if o_disposition r \<noteq> None
         then tell (OpenRequest sid \<lparr>op_file = o_path r, op_preview = None, op_cwd = None, op_disposition = o_disposition r, op_fragment = o_fragment r\<rparr> None) st1
         else tell (OpenRequest sid \<lparr>op_file = o_path r, op_preview = Some (o_preview r),
                op_cwd = Some (case inheritableCwd sid of Some d \<Rightarrow> d | None \<Rightarrow> directoryOf (o_path r)),
                op_disposition = None, op_fragment = None\<rparr> (Some (sequence_no, o_preview r))) st1)"

text \<open>The answer to such a request; the retry as a preview reports to nobody.\<close>

definition open_settled :: "(string \<Rightarrow> string option) \<Rightarrow> string \<Rightarrow> string \<Rightarrow> nat \<Rightarrow> bool \<Rightarrow> bool \<Rightarrow> tool_stores \<Rightarrow> tool_stores" where
  "open_settled inheritableCwd sid path sequence_no preview failed st =
     (if failed \<and> \<not> preview \<and> map_of (newest st) sid = Some sequence_no
      then tell (OpenRequest sid \<lparr>op_file = path, op_preview = Some True,
             op_cwd = Some (case inheritableCwd sid of Some d \<Rightarrow> d | None \<Rightarrow> directoryOf path), op_disposition = None, op_fragment = None\<rparr> None) st
      else st)"

definition dispatchToolOpens :: "(string \<Rightarrow> string option) \<Rightarrow> string \<Rightarrow> protocol_event list \<Rightarrow> tool_stores \<Rightarrow> tool_stores" where
  "dispatchToolOpens inheritableCwd sid es st =
     fold (\<lambda>e st. case e of ToolOpened r \<Rightarrow> dispatchToolOpen inheritableCwd sid r st | _ \<Rightarrow> st) es st"

section \<open>Events\<close>

definition forgetToolReports :: "string \<Rightarrow> tool_stores \<Rightarrow> tool_stores" where
  "forgetToolReports sid st = recordToolDirty sid None (clearToolAnnounce sid st)"

definition recordToolEvent :: "string \<Rightarrow> protocol_event \<Rightarrow> tool_stores \<Rightarrow> tool_stores" where
  "recordToolEvent sid e st = (case e of
      ToolAnnounced a \<Rightarrow> recordToolAnnounce sid (Some a) st
    | ToolStated d \<Rightarrow> recordToolDirty sid (Some d) st
    | _ \<Rightarrow> if isProtocolCommandStart e then forgetToolReports sid st else st)"

definition recordToolEvents :: "string \<Rightarrow> protocol_event list \<Rightarrow> tool_stores \<Rightarrow> tool_stores" where
  "recordToolEvents sid es st = fold (recordToolEvent sid) es st"

definition offerDehydrates :: "string \<Rightarrow> protocol_event list \<Rightarrow> tool_stores \<Rightarrow> tool_stores" where
  "offerDehydrates sid es st = fold (\<lambda>e st. case e of ToolDehydrated d \<Rightarrow> offerToolDehydrate sid d st | _ \<Rightarrow> st) es st"

definition applyLiveToolEvents :: "(string \<Rightarrow> string option) \<Rightarrow> string \<Rightarrow> protocol_event list \<Rightarrow> tool_stores \<Rightarrow> tool_stores" where
  "applyLiveToolEvents inheritableCwd sid es st = dispatchToolOpens inheritableCwd sid es (offerDehydrates sid es (recordToolEvents sid es st))"

section \<open>Holds on a run\<close>

text \<open>\<open>tool-run-hold.ts\<close>: a hold is the runs it saw and the time its timer is due; the pane states are those of
  \<open>Terminal_State\<close>.\<close>

definition HOST_HOLD_MS :: int where "HOST_HOLD_MS = 31000"

record run_hold =
  hold_current :: "string option"
  hold_last :: "string option"
  hold_due :: int

datatype hold_call = SilenceRun string | HoldNews string

record run_holds =
  holds :: "(string \<times> run_hold) list"
  lapsed :: "string list"
  hold_log :: "hold_call list"

definition new_run_holds :: run_holds where
  "new_run_holds = \<lparr>holds = [], lapsed = [], hold_log = []\<rparr>"

definition holdForHostInterrupt :: "int \<Rightarrow> (string \<Rightarrow> pane_state) \<Rightarrow> string \<Rightarrow> run_holds \<Rightarrow> run_holds" where
  "holdForHostInterrupt now panes sid h =
     h\<lparr>hold_log := hold_log h @ [SilenceRun sid], lapsed := removeAll sid (lapsed h),
       holds := js_map_set sid \<lparr>hold_current = map_option run_id (currentCommand (panes sid)), hold_last = map_option run_id (lastCommand (panes sid)),
         hold_due = now + HOST_HOLD_MS\<rparr> (holds h)\<rparr>"

definition isRunHeld :: "(string \<Rightarrow> pane_state) \<Rightarrow> string \<Rightarrow> run_holds \<Rightarrow> bool" where
  "isRunHeld panes sid h = (case map_of (holds h) sid of
      None \<Rightarrow> False
    | Some rh \<Rightarrow>
        let current = map_option run_id (currentCommand (panes sid)); last_run = map_option run_id (lastCommand (panes sid))
        in \<not> (current \<noteq> None \<and> current \<noteq> hold_current rh) \<and>
           (last_run = None \<or> last_run = hold_last rh \<or> last_run = hold_current rh))"

definition releaseRunHold :: "string \<Rightarrow> run_holds \<Rightarrow> run_holds" where
  "releaseRunHold sid h =
     (if map_of (holds h) sid = None then h
      else h\<lparr>holds := js_map_delete sid (holds h), lapsed := List.insert sid (lapsed h), hold_log := hold_log h @ [HoldNews sid]\<rparr>)"

text \<open>The timers that are due.\<close>

definition hold_timers :: "int \<Rightarrow> run_holds \<Rightarrow> run_holds" where
  "hold_timers now h = fold releaseRunHold (map fst (filter (\<lambda>kv. hold_due (snd kv) \<le> now) (holds h))) h"

definition isHoldLapsed :: "string \<Rightarrow> run_holds \<Rightarrow> bool" where
  "isHoldLapsed sid h = (sid \<in> set (lapsed h))"

definition clearHoldLapse :: "string \<Rightarrow> run_holds \<Rightarrow> run_holds" where
  "clearHoldLapse sid h = h\<lparr>lapsed := removeAll sid (lapsed h)\<rparr>"

section \<open>Histories\<close>

text \<open>Something happened, and nothing since has ended it.\<close>

definition since :: "('a list \<Rightarrow> 'a \<Rightarrow> bool) \<Rightarrow> ('a \<Rightarrow> bool) \<Rightarrow> 'a list \<Rightarrow> bool" where
  "since happens keeps hist = (\<exists>a x b. hist = a @ x # b \<and> happens a x \<and> list_all keeps b)"

lemma since_Nil [simp]: "\<not> since happens keeps []"
  by (simp add: since_def)

lemma since_snoc [simp]: "since happens keeps (hist @ [y]) \<longleftrightarrow> happens hist y \<or> since happens keeps hist \<and> keeps y"
proof
  assume "since happens keeps (hist @ [y])"
  then obtain a x b where h: "hist @ [y] = a @ x # b" "happens a x" "list_all keeps b" by (auto simp: since_def)
  then show "happens hist y \<or> since happens keeps hist \<and> keeps y"
    by (cases b rule: rev_cases) (auto simp: since_def)
next
  assume "happens hist y \<or> since happens keeps hist \<and> keeps y"
  then show "since happens keeps (hist @ [y])"
  proof
    assume "since happens keeps hist \<and> keeps y"
    then obtain a x b where "hist @ [y] = a @ x # (b @ [y])" "happens a x" "list_all keeps (b @ [y])" by (auto simp: since_def)
    then show ?thesis unfolding since_def by blast
  next
    assume "happens hist y"
    then have "hist @ [y] = hist @ y # [] \<and> happens hist y \<and> list_all keeps []" by simp
    then show ?thesis unfolding since_def by blast
  qed
qed

text \<open>What a latch has seen: the host typing a line, and events in the order of the stream.\<close>

datatype latch_input = Armed string | Seen protocol_event

definition latch_after :: "latch_input list \<Rightarrow> launch_latch" where
  "latch_after hist = fold (\<lambda>i l. case i of Armed typed \<Rightarrow> arm typed l | Seen e \<Rightarrow> latch_step e l) hist new_latch"

definition a_start :: "latch_input \<Rightarrow> bool" where
  "a_start i = (case i of Seen e \<Rightarrow> isProtocolCommandStart e | Armed _ \<Rightarrow> False)"

definition an_end :: "latch_input \<Rightarrow> bool" where
  "an_end i = (case i of Seen (Semantic (CommandFinish _ _)) \<Rightarrow> True | Seen (Semantic PromptStart) \<Rightarrow> True | Seen (Semantic PromptEnd) \<Rightarrow> True | _ \<Rightarrow> False)"

definition a_prompt :: "latch_input \<Rightarrow> bool" where
  "a_prompt i = (case i of Seen (Semantic PromptStart) \<Rightarrow> True | Seen (Semantic PromptEnd) \<Rightarrow> True | _ \<Rightarrow> False)"

definition reports_line :: "latch_input \<Rightarrow> bool" where
  "reports_line i = (case i of Seen (Semantic (CommandLine _)) \<Rightarrow> True | _ \<Rightarrow> False)"

definition an_arm :: "latch_input \<Rightarrow> bool" where
  "an_arm i = (case i of Armed _ \<Rightarrow> True | _ \<Rightarrow> False)"

text \<open>The host typed a line and no command has started since; the shell reported a line and nothing has
  replaced it; and so the run that is on is the one the host launched.\<close>

definition host_typed :: "string \<Rightarrow> latch_input list \<Rightarrow> bool" where
  "host_typed t = since (\<lambda>_ i. \<exists>typed. i = Armed typed \<and> typed_line typed = t) (\<lambda>i. \<not> a_start i \<and> \<not> an_arm i)"

definition shell_reported :: "string \<Rightarrow> latch_input list \<Rightarrow> bool" where
  "shell_reported t = since (\<lambda>_ i. i = Seen (Semantic (CommandLine t))) (\<lambda>i. \<not> a_start i \<and> \<not> an_arm i \<and> \<not> a_prompt i \<and> \<not> reports_line i)"

definition launched_run :: "latch_input list \<Rightarrow> bool" where
  "launched_run = since (\<lambda>earlier i. a_start i \<and> (\<exists>t. host_typed t earlier \<and> shell_reported t earlier)) (\<lambda>i. \<not> a_start i \<and> \<not> an_arm i \<and> \<not> an_end i)"

lemmas latch_inputs = a_start_def an_end_def a_prompt_def reports_line_def an_arm_def isProtocolCommandStart_def

lemma latch_follows:
  "(\<forall>t. (launched (latch_after hist) = Some t) = host_typed t hist) \<and> (\<forall>t. (latch_line (latch_after hist) = Some t) = shell_reported t hist) \<and>
   latch_running (latch_after hist) = launched_run hist"
proof (induction hist rule: rev_induct)
  case Nil
  then show ?case by (simp add: latch_after_def new_latch_def host_typed_def shell_reported_def launched_run_def)
next
  case (snoc i hist)
  let ?l = "latch_after hist"
  have ih: "host_typed t hist = (launched ?l = Some t)" "shell_reported t hist = (latch_line ?l = Some t)" "launched_run hist = latch_running ?l" for t
    using snoc by auto
  have step: "latch_after (hist @ [i]) = (case i of Armed typed \<Rightarrow> arm typed ?l | Seen e \<Rightarrow> latch_step e ?l)" by (simp add: latch_after_def split: latch_input.split)
  have typed: "host_typed t (hist @ [i]) = ((\<exists>typed. i = Armed typed \<and> typed_line typed = t) \<or> launched ?l = Some t \<and> \<not> a_start i \<and> \<not> an_arm i)"
    and reported: "shell_reported t (hist @ [i]) = (i = Seen (Semantic (CommandLine t)) \<or> latch_line ?l = Some t \<and> \<not> a_start i \<and> \<not> an_arm i \<and> \<not> a_prompt i \<and> \<not> reports_line i)" for t
    using ih by (simp_all add: host_typed_def shell_reported_def)
  have run: "launched_run (hist @ [i]) = (a_start i \<and> (\<exists>t. launched ?l = Some t \<and> latch_line ?l = Some t) \<or> latch_running ?l \<and> \<not> a_start i \<and> \<not> an_arm i \<and> \<not> an_end i)"
    using ih by (simp add: launched_run_def)
  show ?case
  proof (cases i)
    case (Armed typed)
    then show ?thesis unfolding step typed reported run by (simp add: latch_inputs arm_def)
  next
    case (Seen e)
    show ?thesis
    proof (cases e)
      case (Semantic s)
      then show ?thesis unfolding step typed reported run by (cases s; auto simp: Seen latch_inputs latch_step_def)
    qed (unfold step typed reported run, auto simp: Seen latch_inputs latch_step_def)
  qed
qed

section \<open>What each event leaves\<close>

lemma told_keeps [simp]: "announces (tell c st) = announces st" "dirty (tell c st) = dirty st" "stopping (tell c st) = stopping st"
  by (simp_all add: tell_def)

lemma opens_keep [simp]:
  "announces (dispatchToolOpens w sid es st) = announces st" "dirty (dispatchToolOpens w sid es st) = dirty st"
  "stopping (dispatchToolOpens w sid es st) = stopping st"
proof -
  have one: "announces (dispatchToolOpen w sid r st) = announces st \<and> dirty (dispatchToolOpen w sid r st) = dirty st \<and>
      stopping (dispatchToolOpen w sid r st) = stopping st" for r st by (simp add: dispatchToolOpen_def Let_def)
  have "announces (dispatchToolOpens w sid es st) = announces st \<and> dirty (dispatchToolOpens w sid es st) = dirty st \<and>
      stopping (dispatchToolOpens w sid es st) = stopping st"
    unfolding dispatchToolOpens_def using one by (induction es arbitrary: st) (auto split: protocol_event.split)
  then show "announces (dispatchToolOpens w sid es st) = announces st" "dirty (dispatchToolOpens w sid es st) = dirty st"
    "stopping (dispatchToolOpens w sid es st) = stopping st" by simp_all
qed

lemma offers_keep [simp]: "announces (offerDehydrates sid es st) = announces st" "dirty (offerDehydrates sid es st) = dirty st"
proof -
  have "announces (offerDehydrates sid es st) = announces st \<and> dirty (offerDehydrates sid es st) = dirty st"
    unfolding offerDehydrates_def by (induction es arbitrary: st) (auto simp: offerToolDehydrate_def split: protocol_event.split)
  then show "announces (offerDehydrates sid es st) = announces st" "dirty (offerDehydrates sid es st) = dirty st" by simp_all
qed

lemma records_keep [simp]: "stopping (recordToolEvents sid es st) = stopping st"
proof -
  have "stopping (recordToolEvent sid e st) = stopping st" for e st
    by (cases e) (auto simp: recordToolEvent_def recordToolAnnounce_def recordToolDirty_def forgetToolReports_def clearToolAnnounce_def Let_def)
  then show ?thesis unfolding recordToolEvents_def by (induction es arbitrary: st) auto
qed

lemma dirty_after: "getToolDirty other (recordToolDirty sid v st) = (if other = sid then v else getToolDirty other st)"
  "announces (recordToolDirty sid v st) = announces st"
  by (auto simp: recordToolDirty_def getToolDirty_def map_of_js_map_set map_of_js_map_delete split: option.split)

lemma announce_after: "getToolAnnounce other (recordToolAnnounce sid (Some a) st) = (if other = sid then Some a else getToolAnnounce other st)"
  "dirty (recordToolAnnounce sid (Some a) st) = dirty st"
  by (auto simp: recordToolAnnounce_def getToolAnnounce_def map_of_js_map_set Let_def)

lemma forget_after: "getToolAnnounce other (forgetToolReports sid st) = (if other = sid then None else getToolAnnounce other st)"
  "getToolDirty other (forgetToolReports sid st) = (if other = sid then None else getToolDirty other st)"
  by (auto simp: forgetToolReports_def clearToolAnnounce_def getToolAnnounce_def dirty_after map_of_js_map_delete) (simp add: getToolDirty_def)+

text \<open>An announcement, a report of unsaved changes, a payload, and the start of a run.\<close>

definition announces_tool :: "protocol_event \<Rightarrow> bool" where
  "announces_tool e = (case e of ToolAnnounced _ \<Rightarrow> True | _ \<Rightarrow> False)"

definition states_tool :: "protocol_event \<Rightarrow> bool" where
  "states_tool e = (case e of ToolStated _ \<Rightarrow> True | _ \<Rightarrow> False)"

definition dehydrates_tool :: "protocol_event \<Rightarrow> bool" where
  "dehydrates_tool e = (case e of ToolDehydrated _ \<Rightarrow> True | _ \<Rightarrow> False)"

lemma event_after:
  "getToolAnnounce other (recordToolEvent sid e st) = (if other \<noteq> sid then getToolAnnounce other st
     else case e of ToolAnnounced a \<Rightarrow> Some a | _ \<Rightarrow> if isProtocolCommandStart e then None else getToolAnnounce other st)"
  "getToolDirty other (recordToolEvent sid e st) = (if other \<noteq> sid then getToolDirty other st
     else case e of ToolStated d \<Rightarrow> Some d | _ \<Rightarrow> if isProtocolCommandStart e then None else getToolDirty other st)"
proof -
  have "getToolDirty other (recordToolAnnounce sid (Some a) st) = getToolDirty other st" "getToolAnnounce other (recordToolDirty sid v st) = getToolAnnounce other st" for a v
    by (simp_all add: getToolDirty_def getToolAnnounce_def announce_after dirty_after)
  then show "getToolAnnounce other (recordToolEvent sid e st) = (if other \<noteq> sid then getToolAnnounce other st
     else case e of ToolAnnounced a \<Rightarrow> Some a | _ \<Rightarrow> if isProtocolCommandStart e then None else getToolAnnounce other st)"
   "getToolDirty other (recordToolEvent sid e st) = (if other \<noteq> sid then getToolDirty other st
     else case e of ToolStated d \<Rightarrow> Some d | _ \<Rightarrow> if isProtocolCommandStart e then None else getToolDirty other st)"
    by (cases e; simp add: recordToolEvent_def announce_after dirty_after forget_after isProtocolCommandStart_def)+
qed

lemma events_after:
  "(getToolAnnounce sid (recordToolEvents sid es new_tool_stores) = Some a) = since (\<lambda>_ e. e = ToolAnnounced a) (\<lambda>e. \<not> isProtocolCommandStart e \<and> \<not> announces_tool e) es"
  "(getToolDirty sid (recordToolEvents sid es new_tool_stores) = Some d) = since (\<lambda>_ e. e = ToolStated d) (\<lambda>e. \<not> isProtocolCommandStart e \<and> \<not> states_tool e) es"
proof (induction es rule: rev_induct)
  case Nil
  { case 1 show ?case by (simp add: recordToolEvents_def getToolAnnounce_def new_tool_stores_def) }
  { case 2 show ?case by (simp add: recordToolEvents_def getToolDirty_def new_tool_stores_def) }
next
  case (snoc e es)
  have step: "recordToolEvents sid (es @ [e]) new_tool_stores = recordToolEvent sid e (recordToolEvents sid es new_tool_stores)" by (simp add: recordToolEvents_def)
  { case 1 show ?case unfolding step since_snoc event_after using snoc.IH(1) by (cases e) (auto simp: announces_tool_def isProtocolCommandStart_def) }
  { case 2 show ?case unfolding step since_snoc event_after using snoc.IH(2) by (cases e) (auto simp: states_tool_def isProtocolCommandStart_def) }
qed

lemma same_record:
  "announces x = announces y \<Longrightarrow> announces (recordToolAnnounce sid (Some a) x) = announces (recordToolAnnounce sid (Some a) y)"
  "dirty x = dirty y \<Longrightarrow> dirty (recordToolDirty sid v x) = dirty (recordToolDirty sid v y)"
  "announces (recordToolDirty sid v x) = announces x" "dirty (recordToolAnnounce sid (Some a) x) = dirty x"
  by (simp_all add: recordToolAnnounce_def recordToolDirty_def getToolDirty_def Let_def split: option.split)

lemma same_forget:
  "announces x = announces y \<and> dirty x = dirty y \<Longrightarrow> announces (forgetToolReports sid x) = announces (forgetToolReports sid y) \<and>
   dirty (forgetToolReports sid x) = dirty (forgetToolReports sid y)"
  using same_record(2) [of "clearToolAnnounce sid x" "clearToolAnnounce sid y" sid None]
  by (simp add: forgetToolReports_def same_record(3)) (simp add: clearToolAnnounce_def)

lemma same_offer: "stopping x = stopping y \<Longrightarrow> stopping (offerToolDehydrate sid d x) = stopping (offerToolDehydrate sid d y)"
  by (simp add: offerToolDehydrate_def isToolStopping_def)

text \<open>Batches one after the other record what the stream as a whole records.\<close>

lemma live_batches:
  "announces (fold (applyLiveToolEvents w sid) batches st) = announces (recordToolEvents sid (concat batches) st)"
  "dirty (fold (applyLiveToolEvents w sid) batches st) = dirty (recordToolEvents sid (concat batches) st)"
proof -
  have same: "announces (recordToolEvent sid e x) = announces (recordToolEvent sid e y) \<and> dirty (recordToolEvent sid e x) = dirty (recordToolEvent sid e y)"
    if "announces x = announces y \<and> dirty x = dirty y" for e x y
    using that same_forget [of x y sid] same_record(1,2) [of x y sid] by (cases e) (simp_all add: recordToolEvent_def same_record(3,4))
  have agree: "announces (recordToolEvents sid es x) = announces (recordToolEvents sid es y) \<and> dirty (recordToolEvents sid es x) = dirty (recordToolEvents sid es y)"
    if "announces x = announces y \<and> dirty x = dirty y" for es x y
    unfolding recordToolEvents_def using that
  proof (induction es arbitrary: x y)
    case (Cons e es)
    from Cons.IH [OF same [OF Cons.prems]] show ?case by simp
  qed simp
  have "announces (fold (applyLiveToolEvents w sid) batches x) = announces (recordToolEvents sid (concat batches) y) \<and>
      dirty (fold (applyLiveToolEvents w sid) batches x) = dirty (recordToolEvents sid (concat batches) y)"
    if "announces x = announces y \<and> dirty x = dirty y" for x y
    using that
  proof (induction batches arbitrary: x y)
    case (Cons b bs)
    have "announces (applyLiveToolEvents w sid b x) = announces (recordToolEvents sid b y) \<and> dirty (applyLiveToolEvents w sid b x) = dirty (recordToolEvents sid b y)"
      using agree [OF Cons.prems] by (simp add: applyLiveToolEvents_def)
    from Cons.IH [OF this] show ?case by (simp add: recordToolEvents_def)
  qed (simp add: recordToolEvents_def)
  then show "announces (fold (applyLiveToolEvents w sid) batches st) = announces (recordToolEvents sid (concat batches) st)"
    "dirty (fold (applyLiveToolEvents w sid) batches st) = dirty (recordToolEvents sid (concat batches) st)" by blast+
qed

text \<open>What a stopping Tool has said since.\<close>

lemma stopping_after:
  "stopping (fold (applyLiveToolEvents w sid) batches st) = stopping (offerDehydrates sid (concat batches) st)"
proof -
  have agree: "stopping (offerDehydrates sid es x) = stopping (offerDehydrates sid es y)" if "stopping x = stopping y" for es x y
    unfolding offerDehydrates_def using that
  proof (induction es arbitrary: x y)
    case (Cons e es)
    have "stopping (case e of ToolDehydrated d \<Rightarrow> offerToolDehydrate sid d x | _ \<Rightarrow> x) = stopping (case e of ToolDehydrated d \<Rightarrow> offerToolDehydrate sid d y | _ \<Rightarrow> y)"
      using Cons.prems same_offer [of x y sid] by (cases e) simp_all
    from Cons.IH [OF this] show ?case by simp
  qed simp
  have "stopping (fold (applyLiveToolEvents w sid) batches x) = stopping (offerDehydrates sid (concat batches) y)" if "stopping x = stopping y" for x y
    using that
  proof (induction batches arbitrary: x y)
    case (Cons b bs)
    have "stopping (applyLiveToolEvents w sid b x) = stopping (offerDehydrates sid b y)"
      using agree [of "recordToolEvents sid b x" y b] Cons.prems by (simp add: applyLiveToolEvents_def)
    from Cons.IH [OF this] show ?case by (simp add: offerDehydrates_def)
  qed (simp add: offerDehydrates_def)
  then show ?thesis by blast
qed

lemma offers_after:
  assumes "map_of (stopping st) sid = Some None"
  shows "\<exists>x. map_of (stopping (offerDehydrates sid es st)) sid = Some x \<and>
    (\<forall>d. (x = Some d) = since (\<lambda>_ e. e = ToolDehydrated d) (\<lambda>e. \<not> dehydrates_tool e) es)"
proof (induction es rule: rev_induct)
  case Nil
  then show ?case using assms by (simp add: offerDehydrates_def)
next
  case (snoc e es)
  then obtain x where x: "map_of (stopping (offerDehydrates sid es st)) sid = Some x"
    "\<And>d. (x = Some d) = since (\<lambda>_ e. e = ToolDehydrated d) (\<lambda>e. \<not> dehydrates_tool e) es" by blast
  have "offerDehydrates sid (es @ [e]) st = (case e of ToolDehydrated d \<Rightarrow> offerToolDehydrate sid d (offerDehydrates sid es st) | _ \<Rightarrow> offerDehydrates sid es st)"
    by (simp add: offerDehydrates_def split: protocol_event.split)
  then show ?case using x by (cases e) (auto simp: offerToolDehydrate_def isToolStopping_def map_of_js_map_set dehydrates_tool_def)
qed

lemma no_stop_no_offer: "map_of (stopping st) sid = None \<Longrightarrow> stopping (offerDehydrates sid es st) = stopping st"
  unfolding offerDehydrates_def by (induction es arbitrary: st) (auto simp: offerToolDehydrate_def isToolStopping_def split: protocol_event.split)

subsection \<open>Other Sessions\<close>

text \<open>Two stores that hold the same of a Session.\<close>

definition same_session :: "string \<Rightarrow> tool_stores \<Rightarrow> tool_stores \<Rightarrow> bool" where
  "same_session i x y =
     (getToolAnnounce i x = getToolAnnounce i y \<and> getToolDirty i x = getToolDirty i y \<and>
      map_of (stopping x) i = map_of (stopping y) i \<and> getToolReap i x = getToolReap i y \<and>
      map_of (newest x) i = map_of (newest y) i)"

lemma same_session_refl [simp]: "same_session i x x"
  by (simp add: same_session_def)

lemma same_session_trans: "same_session i x y \<Longrightarrow> same_session i y z \<Longrightarrow> same_session i x z"
  by (simp add: same_session_def)

lemma same_session_fold:
  "(\<And>e x. same_session i x (f e x)) \<Longrightarrow> same_session i x (fold f es x)"
  by (induction es arbitrary: x) (auto intro: same_session_trans)

lemma other_session_ops:
  assumes "other \<noteq> sid"
  shows "same_session other st (recordToolAnnounce sid v st)" "same_session other st (recordToolDirty sid b st)"
    "same_session other st (forgetToolReports sid st)" "same_session other st (offerToolDehydrate sid p st)"
    "same_session other st (dispatchToolOpen w sid r st)" "same_session other st (beginToolStop sid st)"
    "same_session other st (fst (endToolStop sid st))" "same_session other st (fst (takeToolReap sid st))"
  using assms
  by (auto simp: same_session_def recordToolAnnounce_def clearToolAnnounce_def recordToolDirty_def forgetToolReports_def offerToolDehydrate_def
      dispatchToolOpen_def beginToolStop_def endToolStop_def takeToolReap_def getToolAnnounce_def getToolDirty_def getToolReap_def tell_def
      map_of_js_map_set map_of_js_map_delete Let_def split: option.split)

lemma other_session_live:
  assumes "other \<noteq> sid"
  shows "same_session other st (applyLiveToolEvents w sid es st)"
proof -
  have rec: "same_session other x (recordToolEvent sid e x)" for e x
    using other_session_ops [OF assms] by (cases e) (auto simp: recordToolEvent_def)
  have off: "same_session other x (case e of ToolDehydrated d \<Rightarrow> offerToolDehydrate sid d x | _ \<Rightarrow> x)" for e x
    using other_session_ops [OF assms] by (cases e) auto
  have opn: "same_session other x (case e of ToolOpened r \<Rightarrow> dispatchToolOpen w sid r x | _ \<Rightarrow> x)" for e x
    using other_session_ops [OF assms] by (cases e) auto
  have 1: "same_session other st (recordToolEvents sid es st)"
    unfolding recordToolEvents_def by (rule same_session_fold) (rule rec)
  have 2: "same_session other x (offerDehydrates sid es x)" for x
    unfolding offerDehydrates_def by (rule same_session_fold) (rule off)
  have 3: "same_session other x (dispatchToolOpens w sid es x)" for x
    unfolding dispatchToolOpens_def by (rule same_session_fold) (rule opn)
  show ?thesis unfolding applyLiveToolEvents_def using 1 2 3 by (meson same_session_trans)
qed

section \<open>Properties\<close>

text \<open>C22: A Tool's request to open something is admitted exactly in the run the host launched: the host typed
  a line and no command had started since, the shell then reported that very line and nothing replaced it
  before the start, and since that start no command has started or ended, no prompt has been drawn and
  the host has typed nothing else. Every other event passes, and nothing is reordered.\<close>

theorem opens_of_launched_run:
  "admit es (latch_after hist) = (latch_after (hist @ map Seen es),
     map snd (filter (\<lambda>(i, e). if is_open e then launched_run (hist @ map Seen (take i es)) else True) (enumerate 0 es)))"
proof (induction es arbitrary: hist)
  case (Cons e es)
  have step: "latch_step e (latch_after hist) = latch_after (hist @ [Seen e])" by (simp add: latch_after_def)
  have shift: "map snd (filter (\<lambda>(i, e'). if is_open e' then launched_run (hist @ map Seen (take i (e # es))) else True) (enumerate 1 es)) =
    map snd (filter (\<lambda>(i, e'). if is_open e' then launched_run ((hist @ [Seen e]) @ map Seen (take i es)) else True) (enumerate 0 es))"
    by (simp add: enumerate_eq_zip upt_conv_Cons map_Suc_upt [symmetric] zip_map1 filter_map comp_def case_prod_beta' del: upt_Suc)
  show ?case using Cons.IH [of "hist @ [Seen e]"] shift latch_follows [of hist] by (simp add: step Let_def)
qed simp


text \<open>A run the host interrupts is held from then on until another run starts or finishes or its time is up;
  a hold that lapses is told.\<close>

lemma hold_begins: "isRunHeld panes sid (holdForHostInterrupt now panes sid h)"
  by (auto simp: isRunHeld_def holdForHostInterrupt_def map_of_js_map_set Let_def)

lemma other_run_ends_hold:
  "currentCommand (panes' sid) = Some c \<Longrightarrow> map_option run_id (currentCommand (panes sid)) \<noteq> Some (run_id c) \<Longrightarrow>
   \<not> isRunHeld panes' sid (holdForHostInterrupt now panes sid h)"
  by (cases "currentCommand (panes sid)") (simp_all add: isRunHeld_def holdForHostInterrupt_def map_of_js_map_set Let_def)

lemma hold_lapses: "map_of (holds h) sid \<noteq> None \<Longrightarrow> isHoldLapsed sid (releaseRunHold sid h) \<and> \<not> isRunHeld panes sid (releaseRunHold sid h)"
  by (auto simp: isHoldLapsed_def releaseRunHold_def isRunHeld_def map_of_js_map_delete)

end
