(* ===== verification/Pty_Stream.thy ===== *)
theory Pty_Stream
  imports Protocol_Correct Terminal_Report_Filter Tool_Runs
begin

text \<open>
  The parse site of a PTY (\<open>lib/src/lib/processed-pty-stream.ts\<close>, \<open>lib/src/host/owner-pty.ts\<close>): reads are cut to a
  bound, parsed once, and handed to the owner and to every sink that has subscribed. A sink is a number;
  what is handed over is a list of calls. A sink that throws loses its chunk and nothing else happens, and
  one that unsubscribes while it is called does so for later chunks, so neither is visible here.
\<close>

section \<open>Cutting a read\<close>

definition MAX_PARSER_INPUT_CHARS :: nat where "MAX_PARSER_INPUT_CHARS = 64 * 1024"

definition isHighSurrogate :: "nat \<Rightarrow> bool" where
  "isHighSurrogate code = (0xD800 \<le> code \<and> code \<le> 0xDBFF)"

text \<open>Where the first piece ends; \<open>code\<close> gives the code unit of a character. The texts of the parser model are
  of 8-bit characters, among which there is no surrogate; the cut itself is stated for any.\<close>

definition piece_end :: "('a \<Rightarrow> nat) \<Rightarrow> nat \<Rightarrow> 'a list \<Rightarrow> nat" where
  "piece_end code limit raw =
     (let e = min limit (length raw) in if e < length raw \<and> 1 < e \<and> isHighSurrogate (code (raw ! (e - 1))) then e - 1 else e)"

partial_function (option) bound_loop :: "('a \<Rightarrow> nat) \<Rightarrow> nat \<Rightarrow> 'a list \<Rightarrow> 'a list list option" where
  "bound_loop code limit raw =
     (if raw = [] then Some []
      else Option.bind (bound_loop code limit (drop (piece_end code limit raw) raw)) (\<lambda>pieces. Some (take (piece_end code limit raw) raw # pieces)))"

definition boundPtyRead :: "('a \<Rightarrow> nat) \<Rightarrow> nat \<Rightarrow> 'a list \<Rightarrow> 'a list list option" where
  "boundPtyRead code limit raw = (if length raw \<le> limit then Some [raw] else bound_loop code limit raw)"

section \<open>The stream\<close>

record pty_chunk =
  chunk_data :: string
  chunk_text :: "string option"

definition chunkOf :: "string \<Rightarrow> string \<Rightarrow> pty_chunk" where
  "chunkOf visible textual = \<lparr>chunk_data = visible, chunk_text = (if textual = visible then None else Some textual)\<rparr>"

record pty_stream =
  stream_parser :: protocol_parser
  subscriptions :: "(nat \<times> bool) list"
  next_sink :: nat

definition createProcessedPtyStream :: pty_stream where
  "createProcessedPtyStream = \<lparr>stream_parser = new_protocol_parser, subscriptions = [], next_sink = 0\<rparr>"

datatype stream_call = OnEvents "protocol_event list" | OnChunk pty_chunk | SinkChunk nat pty_chunk

definition subscribe :: "pty_stream \<Rightarrow> pty_stream \<times> nat" where
  "subscribe st = (st\<lparr>subscriptions := subscriptions st @ [(next_sink st, isForwardingString (stream_parser st))], next_sink := Suc (next_sink st)\<rparr>, next_sink st)"

definition unsubscribe :: "nat \<Rightarrow> pty_stream \<Rightarrow> pty_stream" where
  "unsubscribe k st = st\<lparr>subscriptions := js_map_delete k (subscriptions st)\<rparr>"

definition hasSinks :: "pty_stream \<Rightarrow> bool" where
  "hasSinks st = (subscriptions st \<noteq> [])"

text \<open>What one subscription gets of a chunk, and whether it still waits.\<close>

definition serve_sink :: "parse_result \<Rightarrow> nat \<times> bool \<Rightarrow> (nat \<times> bool) \<times> stream_call list" where
  "serve_sink r sub = (case sub of (k, waits) \<Rightarrow>
     if \<not> waits then ((k, False), if visibleData r = [] then [] else [SinkChunk k (chunkOf (visibleData r) (textData r))])
     else case resumedStringEnd r of
            None \<Rightarrow> ((k, True), [])
          | Some n \<Rightarrow> ((k, False), if drop n (visibleData r) = [] then [] else [SinkChunk k (chunkOf (drop n (visibleData r)) (textData r))]))"

definition deliver_piece :: "protocol_services \<Rightarrow> int \<Rightarrow> string \<Rightarrow> pty_stream \<Rightarrow> pty_stream \<times> stream_call list \<times> thrown option" where
  "deliver_piece S now piece st = (case process S now piece (stream_parser st) of
      (p, Inl x) \<Rightarrow> (st\<lparr>stream_parser := p\<rparr>, [], Some x)
    | (p, Inr r) \<Rightarrow>
        (st\<lparr>stream_parser := p, subscriptions := map (fst \<circ> serve_sink r) (subscriptions st)\<rparr>,
         (if events r = [] then [] else [OnEvents (events r)]) @
         (if visibleData r = [] then [] else [OnChunk (chunkOf (visibleData r) (textData r))]) @
         concat (map (snd \<circ> serve_sink r) (subscriptions st)), None))"

fun deliver_pieces :: "protocol_services \<Rightarrow> (int \<times> string) list \<Rightarrow> pty_stream \<Rightarrow> pty_stream \<times> stream_call list \<times> thrown option" where
  "deliver_pieces S [] st = (st, [], None)"
| "deliver_pieces S ((now, piece) # pieces) st = (case deliver_piece S now piece st of
      (st1, calls, Some x) \<Rightarrow> (st1, calls, Some x)
    | (st1, calls, None) \<Rightarrow> (case deliver_pieces S pieces st1 of (st2, more_calls, x) \<Rightarrow> (st2, calls @ more_calls, x)))"

text \<open>One raw read; it does not return only if cutting it does not.\<close>

definition write_stream :: "protocol_services \<Rightarrow> int \<Rightarrow> string \<Rightarrow> pty_stream \<Rightarrow> (pty_stream \<times> stream_call list \<times> thrown option) option" where
  "write_stream S now raw st =
     map_option (\<lambda>pieces. deliver_pieces S (map (Pair now) pieces) st) (boundPtyRead of_char MAX_PARSER_INPUT_CHARS raw)"

section \<open>The owner\<close>

datatype owner_call =
    AlertCall sink_call
  | ToolEvents "protocol_event list"
  | SemanticEvents "semantic_event list"
  | WriteResponse string
  | OfferClipboard string
  | AlertData
  | Render pty_chunk

record owner_stream =
  owned :: pty_stream
  owner_latch :: launch_latch
  owner_time :: "rat option"

definition createOwnerPtyStream :: "rat option \<Rightarrow> owner_stream" where
  "createOwnerPtyStream latest = \<lparr>owned = createProcessedPtyStream, owner_latch = new_latch, owner_time = latest\<rparr>"

definition owner_events :: "(nat \<Rightarrow> rat) \<Rightarrow> protocol_event list \<Rightarrow> owner_stream \<Rightarrow> owner_stream \<times> owner_call list" where
  "owner_events clock es o1 =
     (let (calls, semantic, latest) = applyTerminalEvents clock (owner_time o1) es;
          (latch, admitted) = admit es (owner_latch o1);
          toolEvents = collectTerminalToolEvents admitted
      in (o1\<lparr>owner_latch := latch, owner_time := latest\<rparr>,
          map AlertCall calls @ (if toolEvents = [] then [] else [ToolEvents toolEvents]) @
          (if semantic = [] then [] else [SemanticEvents semantic]) @
          map WriteResponse (collectTerminalProtocolResponses es) @ map OfferClipboard (collectTerminalClipboardOffers es)))"

definition owner_chunk :: "bool \<Rightarrow> pty_chunk \<Rightarrow> owner_call list" where
  "owner_chunk chrome c = (if \<not> chrome \<and> outputPaints (chunk_data c) then [AlertData] else []) @ [Render c]"

fun owner_calls :: "(nat \<Rightarrow> rat) \<Rightarrow> bool \<Rightarrow> stream_call list \<Rightarrow> owner_stream \<Rightarrow> owner_stream \<times> owner_call list" where
  "owner_calls clock chrome [] o1 = (o1, [])"
| "owner_calls clock chrome (c # cs) o1 =
     (let (o2, here) = (case c of OnEvents es \<Rightarrow> owner_events clock es o1 | OnChunk ch \<Rightarrow> (o1, owner_chunk chrome ch) | SinkChunk _ _ \<Rightarrow> (o1, []));
          (o3, rest) = owner_calls clock chrome cs o2
      in (o3, here @ rest))"

text \<open>A read by the program, and one of Dormouse's own chrome.\<close>

definition owner_write :: "protocol_services \<Rightarrow> (nat \<Rightarrow> rat) \<Rightarrow> bool \<Rightarrow> int \<Rightarrow> string \<Rightarrow> owner_stream \<Rightarrow> (owner_stream \<times> owner_call list \<times> thrown option) option" where
  "owner_write S clock chrome now raw o1 =
     map_option (\<lambda>(st, calls, x). let (o2, out) = owner_calls clock chrome calls (o1\<lparr>owned := st\<rparr>) in (o2, out, x)) (write_stream S now raw (owned o1))"

definition armLaunch :: "string \<Rightarrow> owner_stream \<Rightarrow> owner_stream" where
  "armLaunch typed o1 = o1\<lparr>owner_latch := arm typed (owner_latch o1)\<rparr>"

text \<open>\<open>alertedPty\<close>: the alerts hear of a write before the PTY gets its bytes.\<close>

datatype pty_call = AlertWrite string string bool bool | PtyWrite string string bool

definition alerted_write :: "string \<Rightarrow> string \<Rightarrow> bool \<Rightarrow> bool \<Rightarrow> pty_call list" where
  "alerted_write sid data paced userInput = [AlertWrite sid data paced userInput, PtyWrite sid data paced]"

definition writeClientInput :: "string \<Rightarrow> string \<Rightarrow> pty_call list" where
  "writeClientInput sid data = alerted_write sid data False (0 < length (stripPassiveMouseReportsFromInput data))"

section \<open>The replay buffer\<close>

text \<open>\<open>lib/src/host/replay-buffer.ts\<close>: the chunks are walked from the last one until there is enough.\<close>

fun tail_chunks :: "int \<Rightarrow> string list \<Rightarrow> string list" where
  "tail_chunks wanted [] = []"
| "tail_chunks wanted (c # cs) = (if wanted \<le> 0 then [] else tail_chunks (wanted - int (length c)) cs @ [c])"

definition sliceSince :: "string list \<Rightarrow> int \<Rightarrow> int \<Rightarrow> int \<Rightarrow> string" where
  "sliceSince chunks heldChars receivedChars mark =
     (let oldestHeld = receivedChars - heldChars; wanted = receivedChars - max mark oldestHeld
      in if wanted \<le> 0 then []
         else let joined = concat (tail_chunks wanted (rev chunks))
              in if int (length joined) > wanted then drop (nat (int (length joined) - wanted)) joined else joined)"

section \<open>The pieces of a read\<close>

lemma piece_end_bounds: "0 < limit \<Longrightarrow> raw \<noteq> [] \<Longrightarrow> 0 < piece_end code limit raw \<and> piece_end code limit raw \<le> limit \<and> piece_end code limit raw \<le> length raw"
  by (cases raw) (auto simp: piece_end_def Let_def min_def)

text \<open>A pair is not cut: a piece does not end in the first half of one whose second half starts the next.\<close>

definition isLowSurrogate :: "nat \<Rightarrow> bool" where
  "isLowSurrogate code = (0xDC00 \<le> code \<and> code \<le> 0xDFFF)"

fun pairs_whole :: "('a \<Rightarrow> nat) \<Rightarrow> 'a list list \<Rightarrow> bool" where
  "pairs_whole code (p # q # ps) = (\<not> (isHighSurrogate (code (last p)) \<and> isLowSurrogate (code (hd q))) \<and> pairs_whole code (q # ps))"
| "pairs_whole code ps = True"

lemma piece_pair:
  assumes "1 < limit" "piece_end code limit raw < length raw"
  shows "\<not> (isHighSurrogate (code (last (take (piece_end code limit raw) raw))) \<and> isLowSurrogate (code (hd (drop (piece_end code limit raw) raw))))"
proof -
  let ?e = "min limit (length raw)" and ?n = "piece_end code limit raw"
  have ends: "last (take n raw) = raw ! (n - 1)" "hd (drop n raw) = raw ! n" if "0 < n" "n < length raw" for n
    using that by (cases raw; simp add: last_conv_nth hd_drop_conv_nth)+
  show ?thesis
  proof (cases "?e < length raw \<and> 1 < ?e \<and> isHighSurrogate (code (raw ! (?e - 1)))")
    case True
    then have n: "?n = ?e - 1" by (simp add: piece_end_def Let_def)
    then have "hd (drop ?n raw) = raw ! (?e - 1)" "isHighSurrogate (code (raw ! (?e - 1)))" using True ends(2) [of ?n] by auto
    then show ?thesis by (auto simp: isHighSurrogate_def isLowSurrogate_def)
  next
    case False
    then have n: "?n = ?e" by (auto simp: piece_end_def Let_def)
    then have "?e < length raw" "1 < ?e" using assms by auto
    then show ?thesis using False n ends(1) [of ?n] by auto
  qed
qed

lemma bound_loop_pieces:
  assumes "1 < limit"
  shows "\<exists>ps. bound_loop code limit raw = Some ps \<and> concat ps = raw \<and> list_all (\<lambda>p. p \<noteq> [] \<and> length p \<le> limit) ps \<and> pairs_whole code ps \<and> (raw \<noteq> [] \<longrightarrow> ps \<noteq> [] \<and> hd (hd ps) = hd raw)"
proof (induction "length raw" arbitrary: raw rule: less_induct)
  case less
  show ?case
  proof (cases "raw = []")
    case True
    then show ?thesis by (subst bound_loop.simps) simp
  next
    case False
    let ?n = "piece_end code limit raw"
    have n: "0 < ?n" "?n \<le> limit" "?n \<le> length raw" using piece_end_bounds [of limit raw code] assms False by auto
    then obtain ps where ps: "bound_loop code limit (drop ?n raw) = Some ps" "concat ps = drop ?n raw" "list_all (\<lambda>p. p \<noteq> [] \<and> length p \<le> limit) ps"
      "pairs_whole code ps" "drop ?n raw \<noteq> [] \<longrightarrow> ps \<noteq> [] \<and> hd (hd ps) = hd (drop ?n raw)"
      using less [of "drop ?n raw"] False by auto
    have loop: "bound_loop code limit raw = Some (take ?n raw # ps)" using ps(1) False by (subst bound_loop.simps) simp
    have "pairs_whole code (take ?n raw # ps)"
    proof (cases ps)
      case (Cons q qs)
      then have "drop ?n raw \<noteq> []" using ps(2,3) by auto
      then show ?thesis using piece_pair [OF assms, of code raw] ps(4,5) Cons by simp
    qed simp
    moreover have "hd (take ?n raw) = hd raw" using n(1) False by (cases raw; cases ?n) auto
    ultimately show ?thesis using loop ps n False by (cases raw) auto
  qed
qed

lemma boundPtyRead_pieces:
  assumes "1 < limit"
  shows "\<exists>ps. boundPtyRead code limit raw = Some ps \<and> concat ps = raw \<and> list_all (\<lambda>p. length p \<le> limit) ps \<and> pairs_whole code ps"
  using bound_loop_pieces [OF assms, of code raw] by (auto simp: boundPtyRead_def list_all_iff)

section \<open>The tail of the buffer\<close>

lemma tail_chunks_suffix:
  "\<exists>front. concat (rev cs) = front @ concat (tail_chunks wanted cs) \<and> (front = [] \<or> wanted \<le> int (length (concat (tail_chunks wanted cs))))"
proof (induction wanted cs rule: tail_chunks.induct)
  case (2 wanted c cs)
  then show ?case by (cases "wanted \<le> 0") auto
qed simp

text \<open>What is read since a mark is the end of what is held, as long as what came since, and no longer than what
  is held.\<close>

lemma slice_since_exact:
  assumes "heldChars = int (length (concat chunks))"
  shows "sliceSince chunks heldChars receivedChars mark = drop (length (concat chunks) - nat (min heldChars (receivedChars - mark))) (concat chunks)"
proof -
  define w where "w = receivedChars - max mark (receivedChars - heldChars)"
  define t where "t = concat (tail_chunks w (rev chunks))"
  have w: "min heldChars (receivedChars - mark) = w" by (simp add: w_def)
  obtain front where f: "concat chunks = front @ t" "front = [] \<or> w \<le> int (length t)" using tail_chunks_suffix [of "rev chunks" w] by (auto simp: t_def)
  have "w \<le> int (length front + length t)" using assms f(1) by (simp add: w_def)
  then have "drop (length front + length t - nat w) (front @ t) = (if w < int (length t) then drop (nat (int (length t) - w)) t else t)" if "0 < w"
    using f(2) that by (cases "front = []") (auto simp: nat_diff_distrib)
  moreover have "sliceSince chunks heldChars receivedChars mark = (if w \<le> 0 then [] else if w < int (length t) then drop (nat (int (length t) - w)) t else t)"
    by (simp only: sliceSince_def Let_def w_def [symmetric] t_def [symmetric])
  ultimately show ?thesis unfolding w f(1) by (cases "w \<le> 0") simp_all
qed

section \<open>How much is drawn\<close>

text \<open>What is drawn comes out of what was held and what was read, and the text is part of it.\<close>

lemma da_here_shorter: "da_query_here s = Some r \<Longrightarrow> length r \<le> length s"
  by (auto simp: da_query_here_def split: if_split_asm)

lemma answers_shorter: "length (fst (answerDeviceAttributeQueries s)) \<le> length s"
proof (induction s rule: answerDeviceAttributeQueries.induct)
  case (2 c s)
  then show ?case using da_here_shorter [of "c # s"] by (cases "da_query_here (c # s)") (auto simp: split_beta Let_def intro: le_trans)
qed simp

lemma strip_shorter: "length (fst (stripStandaloneBells s)) \<le> length s"
  by (simp add: stripStandaloneBells_def)

lemma ground_part_shorter: "length (fst (ground_part s)) \<le> length s"
  using answers_shorter [of "fst (stripStandaloneBells s)"] strip_shorter [of s] by (simp add: ground_part_def split_beta Let_def)

lemma ground_tail_shorter: "length (fst (snd (ground_tail s p))) + length (pending (fst (ground_tail s p))) \<le> length s"
proof -
  let ?t = "fst (stripStandaloneBells s)" and ?h = "takeDeviceAttributePendingSuffix (fst (stripStandaloneBells s))"
  have "length ?h \<le> length ?t"
  proof -
    have "ends_with x t \<Longrightarrow> length x \<le> length t" for x t :: string
      by (auto simp: ends_with_def elim!: starts_withE dest!: arg_cong [where f = length])
    then show ?thesis by (auto simp: takeDeviceAttributePendingSuffix_def find_Some_iff split: option.split)
  qed
  then show ?thesis using answers_shorter [of "take (length ?t - length ?h) ?t"] strip_shorter [of s]
    by (simp add: ground_tail_def split_beta Let_def)
qed

lemma hold_shorter:
  "length (snd (hold_incomplete kind i r p)) \<le> length (i @ r)" by (simp add: hold_incomplete_def beginForwarding_def Let_def)

lemma take_control_shorter: "snd (take_control S now kind i q t c r p) = Inr (out, es) \<Longrightarrow> length out \<le> length (i @ q @ t)"
  by (auto simp: take_control_def Let_def split: if_split_asm prod.splits sum.splits option.splits)

lemma ground_loop_shorter:
  "snd (ground_loop S now s p) = Inr (vis, tx, es) \<Longrightarrow> length vis \<le> length s \<and> length tx \<le> length vis"
proof (induction S now s p arbitrary: vis tx es rule: ground_loop.induct)
  case (1 S now s p)
  consider (stop) "s = []" | (tail) "s \<noteq> []" "find_introducer s = None"
    | (hold) g i r where "s \<noteq> []" "find_introducer s = Some (g, i, r)" "findStringControlEnd (stringControlKind i) r = None"
    | (control) g i r q t u c where "s \<noteq> []" "find_introducer s = Some (g, i, r)" "findStringControlEnd (stringControlKind i) r = Some (q, t, u, c)"
    by (cases "find_introducer s") (auto, metis option.exhaust prod.exhaust)
  then show ?case
  proof cases
    case stop
    then show ?thesis using 1(2) by (subst (asm) ground_loop.simps) simp
  next
    case tail
    then show ?thesis using 1(2) ground_tail_shorter [of s p] by (subst (asm) ground_loop.simps) (auto simp: split_beta Let_def)
  next
    case hold
    have "s = g @ i @ r" using find_introducer_split [OF hold(2)] by simp
    then show ?thesis using 1(2) hold ground_part_shorter [of g] hold_shorter [of "stringControlKind i" i r p]
      by (subst (asm) ground_loop.simps) (auto simp: split_beta Let_def)
  next
    case control
    obtain ground es0 where g: "ground_part g = (ground, es0)" by fastforce
    obtain p1 o1 where o1: "take_control S now (stringControlKind i) i q t c r p = (p1, o1)" by fastforce
    have s: "s = g @ i @ q @ t @ u" using find_introducer_split [OF control(2)] findStringControlEnd_split [OF control(3)] by simp
    note step = ground_loop.simps [of S now s p]
    obtain out es1 where o1': "o1 = Inr (out, es1)" using 1(2) control g o1 by (subst (asm) step) (cases o1; auto)
    obtain vis' tx' es' where rest: "snd (ground_loop S now u p1) = Inr (vis', tx', es')" "vis = ground @ out @ vis'" "tx = ground @ tx'"
      using 1(2) control g o1 o1' unfolding step by (auto split: prod.splits sum.splits)
    have "length vis' \<le> length u \<and> length tx' \<le> length vis'"
      using 1(1) [OF control(1) control(2) _ _ _ _ _ control(3)] g o1 o1' rest(1) by simp
    moreover have "length out \<le> length (i @ q @ t)" using take_control_shorter o1 o1' by (metis snd_conv)
    ultimately show ?thesis using s rest(2,3) ground_part_shorter [of g] g by simp
  qed
qed

lemma process_ground_shorter:
  assumes "snd (process_ground S now data p) = Inr r"
  shows "length (visibleData r) \<le> length (pending p @ data) \<and> length (textData r) \<le> length (visibleData r)"
proof (cases "pending p = [] \<and> \<not> needs_parse data")
  case True
  then show ?thesis using assms by (auto simp: process_ground_def)
next
  case False
  obtain p1 o1 where l: "ground_loop S now (pending p @ data) (p\<lparr>pending := []\<rparr>) = (p1, o1)" by fastforce
  then obtain vis tx es where "o1 = Inr (vis, tx, es)" "visibleData r = vis" "textData r = tx"
    using False assms by (cases o1) (auto simp: process_ground_def)
  then show ?thesis using ground_loop_shorter [of S now "pending p @ data" "p\<lparr>pending := []\<rparr>"] l by simp
qed

lemma process_undiscarded_shorter:
  assumes "parser_inv p" "snd (process_undiscarded S now data p) = Inr r"
  shows "length (visibleData r) \<le> OSC_INCOMPLETE_LIMIT + length data \<and> length (textData r) \<le> length (visibleData r)"
proof (cases "forwarding p")
  case None
  then show ?thesis using process_ground_shorter [of S now data p r] assms by (auto simp: process_undiscarded_def parser_inv_def)
next
  case (Some kh)
  obtain kind h where kh: "kh = (kind, h)" by fastforce
  have h: "length h \<le> 1" using assms(1) Some kh by (auto simp: parser_inv_def)
  show ?thesis
  proof (cases "findStringControlEnd kind (h @ data)")
    case None
    then show ?thesis using assms(2) Some kh h by (auto simp: process_undiscarded_def processForwarded_def beginForwarding_def OSC_INCOMPLETE_LIMIT_def split: if_split_asm)
  next
    case (Some e)
    obtain q t u x where e: "e = (q, t, u, x)" by (cases e)
    have s: "length h + length data = length q + length t + length u" using findStringControlEnd_split [OF Some [unfolded e]] by (metis length_append add.assoc)
    obtain p1 o1 where g: "process_ground S now u (p\<lparr>forwarding := None\<rparr>) = (p1, o1)" by fastforce
    obtain res where res: "o1 = Inr res" "visibleData r = q @ t @ visibleData res" "textData r = textData res"
      using assms(2) Some e kh \<open>forwarding p = Some kh\<close> g by (cases o1) (auto simp: process_undiscarded_def processForwarded_def)
    have "pending p = []" using assms(1) \<open>forwarding p = Some kh\<close> by (simp add: parser_inv_def)
    then show ?thesis using process_ground_shorter [of S now u "p\<lparr>forwarding := None\<rparr>" res] g res s h by (simp add: OSC_INCOMPLETE_LIMIT_def)
  qed
qed

lemma process_shorter:
  assumes "parser_inv p" "snd (process S now data p) = Inr r"
  shows "length (visibleData r) \<le> OSC_INCOMPLETE_LIMIT + length data \<and> length (textData r) \<le> length (visibleData r)"
proof (cases "discarding p")
  case None
  then show ?thesis using process_undiscarded_shorter [OF assms(1)] assms(2) by (simp add: process_def)
next
  case (Some h)
  have p: "pending p = []" "length h \<le> 1" "forwarding p = None" using assms(1) Some by (cases "forwarding p"; auto simp: parser_inv_def)+
  show ?thesis
  proof (cases "findStringControlEnd OscString (h @ data)")
    case None
    then show ?thesis using assms(2) Some by (auto simp: process_def)
  next
    case (Some e)
    obtain q t u x where e: "e = (q, t, u, x)" by (cases e)
    have s: "length h + length data = length q + length t + length u" using findStringControlEnd_split [OF Some [unfolded e]] by (metis length_append add.assoc)
    have "snd (process_ground S now u (p\<lparr>discarding := None\<rparr>)) = Inr r"
      using assms(2) Some e \<open>discarding p = Some h\<close> p(3) by (simp add: process_def process_undiscarded_def)
    from process_ground_shorter [OF this] show ?thesis using s p(1,2) by (simp add: OSC_INCOMPLETE_LIMIT_def)
  qed
qed

section \<open>The stream over time\<close>

inductive stream_step :: "pty_stream \<Rightarrow> pty_stream \<Rightarrow> bool" where
  reading: "write_stream S now raw st = Some (st', calls, x) \<Longrightarrow> stream_step st st'"
| joining: "stream_step st (fst (subscribe st))"
| leaving: "stream_step st (unsubscribe k st)"

inductive_cases stream_stepE: "stream_step st st'"

definition stream_inv :: "pty_stream \<Rightarrow> bool" where
  "stream_inv st = (parser_inv (stream_parser st) \<and> distinct (map fst (subscriptions st)) \<and> (\<forall>k \<in> fst ` set (subscriptions st). k < next_sink st))"

lemma serve_sink_key [simp]: "fst (fst (serve_sink r sub)) = fst sub"
  by (cases sub) (simp add: serve_sink_def split: option.split)

lemma deliver_piece_inv: "stream_inv st \<Longrightarrow> stream_inv (fst (deliver_piece S now piece st))"
proof -
  assume inv: "stream_inv st"
  have "parser_inv (fst (process S now piece (stream_parser st)))" using inv process_sound by (auto simp: stream_inv_def)
  then show "stream_inv (fst (deliver_piece S now piece st))" using inv
    by (auto simp: stream_inv_def deliver_piece_def comp_def image_image split: prod.split sum.split)
qed

lemma deliver_pieces_inv: "stream_inv st \<Longrightarrow> stream_inv (fst (deliver_pieces S pieces st))"
proof (induction S pieces st rule: deliver_pieces.induct)
  case (2 S now piece pieces st)
  have inv: "stream_inv (fst (deliver_piece S now piece st))" using 2(2) by (rule deliver_piece_inv)
  obtain st1 calls x where d: "deliver_piece S now piece st = (st1, calls, x)" by (cases "deliver_piece S now piece st")
  show ?case
  proof (cases x)
    case None
    then show ?thesis using 2(1) [OF d [symmetric] refl None] d inv by (auto split: prod.split)
  qed (use d inv in simp)
qed simp

interpretation stream_run: step_system "\<lambda>st. st = createProcessedPtyStream" stream_step stream_inv
proof
  show "s = createProcessedPtyStream \<Longrightarrow> stream_inv s" for s
    using protocol_run.start_inv [OF refl] by (simp add: stream_inv_def createProcessedPtyStream_def)
  show "stream_step s s' \<Longrightarrow> stream_inv s \<Longrightarrow> stream_inv s'" for s s'
  proof (erule stream_stepE)
    fix S now raw calls x assume w: "write_stream S now raw s = Some (s', calls, x)" and inv: "stream_inv s"
    then obtain pieces where "deliver_pieces S (map (Pair now) pieces) s = (s', calls, x)" by (auto simp: write_stream_def)
    then show "stream_inv s'" using deliver_pieces_inv [OF inv, of S "map (Pair now) pieces"] by simp
  next
    assume "s' = fst (subscribe s)" "stream_inv s"
    then show "stream_inv s'" by (auto simp: stream_inv_def subscribe_def)
  next
    fix k assume "s' = unsubscribe k s" "stream_inv s"
    then show "stream_inv s'" using js_map_delete_distinct [of "subscriptions s" k] by (auto simp: stream_inv_def unsubscribe_def js_map_delete_def)
  qed
qed

text \<open>A message with a chunk and its text: every code unit takes at most three bytes and so four characters of
  base64.\<close>

definition chunk_fits :: "pty_chunk \<Rightarrow> bool" where
  "chunk_fits c = (length (chunk_data c) \<le> 64 * 1024 + 16384 \<and> 4 * (length (chunk_data c) + (case chunk_text c of Some t \<Rightarrow> length t | None \<Rightarrow> 0)) \<le> 640 * 1024)"

definition call_fits :: "stream_call \<Rightarrow> bool" where
  "call_fits c = (case c of OnEvents _ \<Rightarrow> True | OnChunk ch \<Rightarrow> chunk_fits ch | SinkChunk _ ch \<Rightarrow> chunk_fits ch)"

lemma deliver_piece_fits:
  assumes "stream_inv st" "length piece \<le> MAX_PARSER_INPUT_CHARS"
  shows "list_all call_fits (fst (snd (deliver_piece S now piece st)))"
proof (cases "snd (process S now piece (stream_parser st))")
  case (Inl x)
  then show ?thesis by (auto simp: deliver_piece_def split: prod.split)
next
  case (Inr r)
  have r: "length (visibleData r) \<le> OSC_INCOMPLETE_LIMIT + length piece" "length (textData r) \<le> length (visibleData r)"
    using process_shorter [OF _ Inr] assms(1) by (auto simp: stream_inv_def)
  have fits: "chunk_fits (chunkOf (drop n (visibleData r)) (textData r))" for n
    using r assms(2) by (auto simp: chunk_fits_def chunkOf_def OSC_INCOMPLETE_LIMIT_def MAX_PARSER_INPUT_CHARS_def)
  have "list_all call_fits (snd (serve_sink r sub))" for sub
    using fits fits [of 0] by (cases sub) (auto simp: serve_sink_def call_fits_def split: option.split)
  then show ?thesis using Inr fits [of 0] by (auto simp: deliver_piece_def call_fits_def list_all_iff split: prod.split if_split_asm)
qed

lemma deliver_pieces_fits:
  "stream_inv st \<Longrightarrow> list_all (\<lambda>x. length (snd x) \<le> MAX_PARSER_INPUT_CHARS) pieces \<Longrightarrow> list_all call_fits (fst (snd (deliver_pieces S pieces st)))"
proof (induction S pieces st rule: deliver_pieces.induct)
  case (2 S now piece pieces st)
  obtain st1 calls x where d: "deliver_piece S now piece st = (st1, calls, x)" by (cases "deliver_piece S now piece st")
  have here: "list_all call_fits calls" "stream_inv st1" using deliver_piece_fits [OF 2(2), of piece S now] deliver_piece_inv [OF 2(2), of S now piece] 2(3) d by simp_all
  show ?case
  proof (cases x)
    case None
    then show ?thesis using 2(1) [OF d [symmetric] refl None here(2)] 2(3) here(1) d by (auto split: prod.split)
  qed (use d here in simp)
qed simp

section \<open>What a sink gets\<close>

definition sink_received :: "nat \<Rightarrow> stream_call list \<Rightarrow> string" where
  "sink_received k calls = concat (map (\<lambda>c. case c of SinkChunk j ch \<Rightarrow> if j = k then chunk_data ch else [] | _ \<Rightarrow> []) calls)"

definition rendered :: "stream_call list \<Rightarrow> string" where
  "rendered calls = concat (map (\<lambda>c. case c of OnChunk ch \<Rightarrow> chunk_data ch | _ \<Rightarrow> []) calls)"

lemma sink_received_append [simp]: "sink_received k (a @ b) = sink_received k a @ sink_received k b" "rendered (a @ b) = rendered a @ rendered b"
  by (simp_all add: sink_received_def rendered_def)

definition sink_share :: "parse_result \<Rightarrow> bool \<Rightarrow> string" where
  "sink_share r waits = (if \<not> waits then visibleData r else case resumedStringEnd r of None \<Rightarrow> [] | Some n \<Rightarrow> drop n (visibleData r))"

lemma serve_share: "sink_received k (snd (serve_sink r (j, waits))) = (if j = k then sink_share r waits else [])" "rendered (snd (serve_sink r (j, waits))) = []"
  by (auto simp: sink_received_def rendered_def serve_sink_def sink_share_def chunkOf_def split: option.split)

lemma serve_all:
  "rendered (concat (map (snd \<circ> serve_sink r) subs)) = []"
  "distinct (map fst subs) \<Longrightarrow> (k, waits) \<in> set subs \<Longrightarrow> sink_received k (concat (map (snd \<circ> serve_sink r) subs)) = sink_share r waits"
proof -
  show "rendered (concat (map (snd \<circ> serve_sink r) subs)) = []" using serve_share(2) [of r]
    by (induction subs) (simp_all add: rendered_def [of "[]"], metis prod.exhaust)
  have none: "k \<notin> fst ` set subs \<Longrightarrow> sink_received k (concat (map (snd \<circ> serve_sink r) subs)) = []" for subs
    by (induction subs) (auto simp: serve_share, simp add: sink_received_def)
  show "distinct (map fst subs) \<Longrightarrow> (k, waits) \<in> set subs \<Longrightarrow> sink_received k (concat (map (snd \<circ> serve_sink r) subs)) = sink_share r waits"
  proof (induction subs)
    case (Cons s subs)
    then show ?case using none [of subs] by (cases s) (auto simp: serve_share rev_image_eqI comp_def)
  qed simp
qed

lemma deliver_piece_shares:
  assumes "deliver_piece S now piece st = (st1, calls, None)" "distinct (map fst (subscriptions st))" "(k, waits) \<in> set (subscriptions st)"
  obtains p r where "process S now piece (stream_parser st) = (p, Inr r)" "stream_parser st1 = p" "rendered calls = visibleData r"
    "sink_received k calls = sink_share r waits" "distinct (map fst (subscriptions st1))"
    "(k, waits \<and> resumedStringEnd r = None) \<in> set (subscriptions st1)"
proof -
  obtain p o1 where po: "process S now piece (stream_parser st) = (p, o1)" by fastforce
  then obtain r where r: "o1 = Inr r" using assms(1) by (cases o1) (auto simp: deliver_piece_def)
  have st1: "st1 = st\<lparr>stream_parser := p, subscriptions := map (fst \<circ> serve_sink r) (subscriptions st)\<rparr>"
    and calls: "calls = (if events r = [] then [] else [OnEvents (events r)]) @ (if visibleData r = [] then [] else [OnChunk (chunkOf (visibleData r) (textData r))]) @
      concat (map (snd \<circ> serve_sink r) (subscriptions st))"
    using assms(1) po r by (simp_all add: deliver_piece_def)
  have front: "sink_received k ((if events r = [] then [] else [OnEvents (events r)]) @ (if visibleData r = [] then [] else [OnChunk (chunkOf (visibleData r) (textData r))])) = []"
    "rendered ((if events r = [] then [] else [OnEvents (events r)]) @ (if visibleData r = [] then [] else [OnChunk (chunkOf (visibleData r) (textData r))])) = visibleData r"
    by (auto simp: sink_received_def rendered_def chunkOf_def)
  have "fst (serve_sink r (k, waits)) = (k, waits \<and> resumedStringEnd r = None)" by (auto simp: serve_sink_def split: option.split)
  then have "(k, waits \<and> resumedStringEnd r = None) \<in> set (subscriptions st1)" using assms(3) st1 by (force simp: comp_def)
  moreover have "distinct (map fst (subscriptions st1))" using assms(2) st1 by (simp add: comp_def)
  moreover have "rendered calls = visibleData r" "sink_received k calls = sink_share r waits"
    using front serve_all(1) [of r "subscriptions st"] serve_all(2) [OF assms(2,3), of r] unfolding calls by auto
  ultimately show ?thesis using that po r st1 by simp
qed

lemma steady_sink:
  "deliver_pieces S pieces st = (st1, calls, None) \<Longrightarrow> distinct (map fst (subscriptions st)) \<Longrightarrow> (k, False) \<in> set (subscriptions st) \<Longrightarrow>
   sink_received k calls = rendered calls"
proof (induction S pieces st arbitrary: calls rule: deliver_pieces.induct)
  case (2 S now piece pieces st)
  obtain st2 here x where d: "deliver_piece S now piece st = (st2, here, x)" by (cases "deliver_piece S now piece st")
  then obtain rest where x: "x = None" "deliver_pieces S pieces st2 = (st1, rest, None)" "calls = here @ rest" using 2(2) by (cases x) (auto split: prod.splits)
  from d x(1) have "deliver_piece S now piece st = (st2, here, None)" by simp
  from deliver_piece_shares [OF this 2(3,4)] obtain r where r: "rendered here = visibleData r" "sink_received k here = sink_share r False"
    "distinct (map fst (subscriptions st2))" "(k, False) \<in> set (subscriptions st2)" by (metis (full_types))
  from 2(1) [OF d [symmetric] refl x(1,2) r(3,4)] show ?case using x(3) r(1,2) by (simp add: sink_share_def)
qed (simp add: sink_received_def rendered_def)

text \<open>The end of a string is where it is, however much of it has been seen before or comes after.\<close>

lemma end_later:
  assumes "findStringControlEnd kind s = Some (q, t, u, x)"
  shows "findStringControlEnd kind (s @ v) = Some (q, t, u @ v, x)"
proof -
  let ?P = "\<lambda>c. \<not> stringControlEndScan kind c"
  have "dropWhile ?P s \<noteq> []"
  proof
    assume "dropWhile ?P s = []"
    then show False using assms unfolding findStringControlEnd_def by (simp only: end_at_def list.case option.distinct)
  qed
  then have d: "dropWhile ?P (s @ v) = dropWhile ?P s @ v" "takeWhile ?P (s @ v) = takeWhile ?P s" by (simp_all add: dropWhile_append takeWhile_append) (auto simp: dropWhile_eq_Nil_conv)
  obtain c w where cw: "dropWhile ?P s = c # w" using \<open>dropWhile ?P s \<noteq> []\<close> by (cases "dropWhile ?P s") auto
  have "end_at (takeWhile ?P s) (c # w) = Some (q, t, u, x)" using assms cw by (simp add: findStringControlEnd_def)
  then have "end_at (takeWhile ?P s) (c # w @ v) = Some (q, t, u @ v, x)" by (cases w) (auto simp: end_at_def split: if_split_asm)
  then show ?thesis unfolding findStringControlEnd_def d cw by simp
qed

lemma end_shift:
  assumes "list_all (\<lambda>c. \<not> stringControlEndScan kind c) v"
  shows "findStringControlEnd kind (v @ w) = map_option (\<lambda>(q, t, u, x). (v @ q, t, u, x)) (findStringControlEnd kind w)"
proof -
  let ?P = "\<lambda>c. \<not> stringControlEndScan kind c"
  have "dropWhile ?P (v @ w) = dropWhile ?P w" "takeWhile ?P (v @ w) = v @ takeWhile ?P w" using assms by (auto simp: list_all_iff)
  moreover have "end_at (v @ a) r = map_option (\<lambda>(q, t, u, x). (v @ q, t, u, x)) (end_at a r)" for a r by (cases r) (auto simp: end_at_def)
  ultimately show ?thesis unfolding findStringControlEnd_def by simp
qed

lemma no_end_split:
  assumes "findStringControlEnd kind s = None"
  obtains v where "s = v @ held_esc s" "list_all (\<lambda>c. \<not> stringControlEndScan kind c) v" "v = (if held_esc s = [] then s else butlast s)"
proof -
  let ?P = "\<lambda>c. \<not> stringControlEndScan kind c"
  define a where "a = takeWhile ?P s"
  define d where "d = dropWhile ?P s"
  have s: "s = a @ d" by (simp add: a_def d_def)
  have P: "list_all ?P a" by (auto simp: a_def list_all_iff dest: set_takeWhileD)
  have "end_at a d = None" using assms by (simp add: findStringControlEnd_def a_def d_def)
  then have cases: "d = [] \<or> d = [esc]" unfolding end_at_def by (cases d) (simp_all split: if_split_asm)
  have "stringControlEndScan kind esc" by (simp add: stringControlEndScan_def)
  then have "esc \<notin> set a" using P unfolding list_all_iff by blast
  then have "d = [] \<Longrightarrow> held_esc s = []" using s by (cases a rule: rev_cases) (auto simp: held_esc_def ends_with_def)
  moreover have "d = [esc] \<Longrightarrow> held_esc s = [esc]" using s by (simp add: held_esc_def ends_with_def)
  ultimately have "s = a @ held_esc s" "a = (if held_esc s = [] then s else butlast s)" using s cases by (metis append_Nil2 butlast_snoc list.distinct(1))+
  with P show ?thesis using that [of a] by blast
qed

lemma late_sink:
  "deliver_pieces S pieces st = (st1, calls, None) \<Longrightarrow> stream_inv st \<Longrightarrow> (k, True) \<in> set (subscriptions st) \<Longrightarrow>
   forwarding (stream_parser st) = Some (kind, h) \<Longrightarrow>
   (case findStringControlEnd kind (h @ concat (map snd pieces)) of
      None \<Rightarrow> sink_received k calls = []
    | Some (q, t, u, x) \<Rightarrow> rendered calls = q @ t @ sink_received k calls)"
proof (induction S pieces st arbitrary: calls h rule: deliver_pieces.induct)
  case (1 S st)
  have "h = [] \<or> h = [esc]" using 1(2,4) by (auto simp: stream_inv_def parser_inv_def)
  then have "findStringControlEnd kind h = None"
    by (cases kind) (auto simp: findStringControlEnd_def end_at_def stringControlEndScan_def)
  then show ?case using 1(1) by (simp add: sink_received_def)
next
  case (2 S now x pieces st)
  let ?p = "stream_parser st" and ?tail = "concat (map snd pieces)"
  obtain st2 here e where d: "deliver_piece S now x st = (st2, here, e)" by (cases "deliver_piece S now x st")
  then obtain rest where e: "e = None" "deliver_pieces S pieces st2 = (st1, rest, None)" "calls = here @ rest" using 2(2) by (cases e) (auto split: prod.splits)
  have inv: "stream_inv st2" using deliver_piece_inv [OF 2(3), of S now x] d by simp
  have dist: "distinct (map fst (subscriptions st))" using 2(3) by (simp add: stream_inv_def)
  from d e(1) have "deliver_piece S now x st = (st2, here, None)" by simp
  from deliver_piece_shares [OF this dist 2(4)] obtain p2 r where r: "process S now x ?p = (p2, Inr r)" "stream_parser st2 = p2"
    "rendered here = visibleData r" "sink_received k here = sink_share r True" "(k, resumedStringEnd r = None) \<in> set (subscriptions st2)"
    by (metis (full_types))
  have "discarding ?p = None" using 2(3,5) by (cases "discarding ?p") (auto simp: stream_inv_def parser_inv_def)
  with r(1) have fw: "processForwarded S now kind h x ?p = (p2, Inr r)" using 2(5) by (simp add: process_def process_undiscarded_def)
  show ?case
  proof (cases "findStringControlEnd kind (h @ x)")
    case None
    from no_end_split [OF None] obtain v where v: "h @ x = v @ held_esc (h @ x)" "list_all (\<lambda>c. \<not> stringControlEndScan kind c) v"
      "v = (if held_esc (h @ x) = [] then h @ x else butlast (h @ x))" by blast
    let ?h = "held_esc (h @ x)"
    have p2: "forwarding p2 = Some (kind, ?h)" "visibleData r = v" "resumedStringEnd r = None"
      using fw None v(3) by (auto simp: processForwarded_def beginForwarding_def)
    have ih: "case findStringControlEnd kind (?h @ ?tail) of None \<Rightarrow> sink_received k rest = [] | Some (q, t, u, x) \<Rightarrow> rendered rest = q @ t @ sink_received k rest"
      using 2(1) [OF d [symmetric] refl e(1,2) inv] r(2,5) p2(1,3) by simp
    have all: "h @ concat (map snd ((now, x) # pieces)) = v @ ?h @ ?tail" using v(1) by simp
    have "findStringControlEnd kind (h @ concat (map snd ((now, x) # pieces))) = map_option (\<lambda>(q, t, u, y). (v @ q, t, u, y)) (findStringControlEnd kind (?h @ ?tail))"
      unfolding all by (rule end_shift [OF v(2)])
    moreover have "sink_received k calls = sink_received k rest" "rendered calls = v @ rendered rest" using e(3) r(3,4) p2 by (simp_all add: sink_share_def)
    ultimately show ?thesis using ih by (auto split: option.splits)
  next
    case (Some f)
    obtain q t u y where f: "f = (q, t, u, y)" by (cases f)
    have end_all: "findStringControlEnd kind (h @ concat (map snd ((now, x) # pieces))) = Some (q, t, u @ ?tail, y)"
      using end_later [OF Some [unfolded f], of ?tail] by simp
    obtain vis where res: "visibleData r = (q @ t) @ vis" "resumedStringEnd r = Some (length (q @ t))"
      using fw Some f by (auto simp: processForwarded_def split: prod.splits sum.splits)
    then have "(k, False) \<in> set (subscriptions st2)" using r(5) by simp
    then have "sink_received k rest = rendered rest" using steady_sink [OF e(2)] inv by (simp add: stream_inv_def)
    moreover have "sink_received k here = vis" "rendered here = q @ t @ vis" using r(3,4) res by (simp_all add: sink_share_def)
    ultimately show ?thesis using end_all e(3) by simp
  qed
qed

section \<open>Properties\<close>

text \<open>C24: Cutting a read ends for characters of any kind, given their code units: the read is cut into
  pieces of at most 65536 characters that make it up and never part the two halves of a surrogate pair.
  Writing a read to the stream ends, too: it returns, or throws what the parser throws on a piece (\<open>x\<close>), with
  the later pieces of that read undelivered; and everything handed over until then fits a message: what is drawn
  of a piece is at most 16384 characters longer than it, and the chunk with its text fits 640 KiB once
  encoded.\<close>

theorem pty_chunks_fit:
  fixes code :: "'a \<Rightarrow> nat"
  assumes "stream_step\<^sup>*\<^sup>* createProcessedPtyStream st"
  shows "(\<exists>pieces. boundPtyRead code MAX_PARSER_INPUT_CHARS units = Some pieces \<and> concat pieces = units \<and>
      list_all (\<lambda>p. length p \<le> 65536) pieces \<and> pairs_whole code pieces) \<and>
    (\<exists>st' calls x. write_stream S now raw st = Some (st', calls, x) \<and> list_all call_fits calls)"
proof -
  have inv: "stream_inv st" by (rule stream_run.reachable_inv [OF refl assms])
  have bound: "1 < MAX_PARSER_INPUT_CHARS" by (simp add: MAX_PARSER_INPUT_CHARS_def)
  obtain pieces where ps: "boundPtyRead of_char MAX_PARSER_INPUT_CHARS raw = Some pieces"
    "list_all (\<lambda>p. length p \<le> MAX_PARSER_INPUT_CHARS) pieces"
    using boundPtyRead_pieces [OF bound, of of_char raw] by auto
  then have "list_all call_fits (fst (snd (deliver_pieces S (map (Pair now) pieces) st)))"
    by (intro deliver_pieces_fits [OF inv]) (auto simp: list_all_iff)
  moreover obtain st' calls x where "deliver_pieces S (map (Pair now) pieces) st = (st', calls, x)" by (cases "deliver_pieces S (map (Pair now) pieces) st")
  ultimately have "write_stream S now raw st = Some (st', calls, x) \<and> list_all call_fits calls" using ps(1) by (simp add: write_stream_def)
  moreover have "\<exists>pieces. boundPtyRead code MAX_PARSER_INPUT_CHARS units = Some pieces \<and> concat pieces = units \<and>
      list_all (\<lambda>p. length p \<le> 65536) pieces \<and> pairs_whole code pieces"
    using boundPtyRead_pieces [OF bound, of code units] by (simp add: MAX_PARSER_INPUT_CHARS_def)
  ultimately show ?thesis by blast
qed

text \<open>C23: A sink that joins late starts at ground text: joining outside of a forwarded string it gets exactly
  what the owner draws from then on; joining inside of one it gets nothing until the string ends and
  then exactly what the owner draws behind its end.\<close>

theorem late_sink_starts_at_ground:
  assumes "stream_step\<^sup>*\<^sup>* createProcessedPtyStream st" "deliver_pieces S pieces (fst (subscribe st)) = (st1, calls, None)"
  shows "case forwarding (stream_parser st) of
      None \<Rightarrow> sink_received (snd (subscribe st)) calls = rendered calls
    | Some (kind, h) \<Rightarrow>
        (case findStringControlEnd kind (h @ concat (map snd pieces)) of
           None \<Rightarrow> sink_received (snd (subscribe st)) calls = []
         | Some (q, t, u, x) \<Rightarrow> rendered calls = q @ t @ sink_received (snd (subscribe st)) calls)"
proof -
  let ?st = "fst (subscribe st)" and ?k = "snd (subscribe st)"
  have "stream_step\<^sup>*\<^sup>* createProcessedPtyStream ?st" using assms(1) stream_step.joining by (rule rtranclp.rtrancl_into_rtrancl)
  then have inv: "stream_inv ?st" by (rule stream_run.reachable_inv [OF refl])
  have joined: "(?k, isForwardingString (stream_parser st)) \<in> set (subscriptions ?st)" "stream_parser ?st = stream_parser st"
    by (simp_all add: subscribe_def)
  show ?thesis
  proof (cases "forwarding (stream_parser st)")
    case None
    then show ?thesis using steady_sink [OF assms(2)] inv joined by (simp add: stream_inv_def isForwardingString_def)
  next
    case (Some kh)
    then show ?thesis using late_sink [OF assms(2) inv, of ?k "fst kh" "snd kh"] joined by (simp add: isForwardingString_def split_beta)
  qed
qed

theorem late_sink_starts_at_ground_witness:
  "sink_received 0 (fst (snd (deliver_pieces plain_services [(2, ''BC'' @ [esc]), (3, [bslash] @ ''text'')]
     (fst (subscribe (fst (deliver_piece plain_services 1 ([esc] @ ''PqA'') createProcessedPtyStream))))))) = ''text''"
proof -
  let ?st = "fst (deliver_piece plain_services 1 ([esc] @ ''PqA'') createProcessedPtyStream)"
  let ?pieces = "[(2, ''BC'' @ [esc]), (3, [bslash] @ ''text'')] :: (int \<times> string) list"
  let ?r = "deliver_pieces plain_services ?pieces (fst (subscribe ?st))"
  have w: "write_stream plain_services 1 ([esc] @ ''PqA'') createProcessedPtyStream = Some (deliver_pieces plain_services [(1, [esc] @ ''PqA'')] createProcessedPtyStream)"
    by (simp add: write_stream_def boundPtyRead_def MAX_PARSER_INPUT_CHARS_def)
  have "snd (snd (deliver_piece plain_services 1 ([esc] @ ''PqA'') createProcessedPtyStream)) = None" by code_simp
  then have "fst (deliver_pieces plain_services [(1, [esc] @ ''PqA'')] createProcessedPtyStream) = ?st" by (auto split: prod.split)
  with w have "stream_step\<^sup>*\<^sup>* createProcessedPtyStream ?st" using stream_step.reading by (metis prod.collapse r_into_rtranclp)
  moreover have "snd (snd ?r) = None" by code_simp
  then have "?r = (fst ?r, fst (snd ?r), None)" by (metis prod.collapse)
  ultimately have main: "case forwarding (stream_parser ?st) of
      None \<Rightarrow> sink_received (snd (subscribe ?st)) (fst (snd ?r)) = rendered (fst (snd ?r))
    | Some (kind, h) \<Rightarrow>
        (case findStringControlEnd kind (h @ concat (map snd ?pieces)) of
           None \<Rightarrow> sink_received (snd (subscribe ?st)) (fst (snd ?r)) = []
         | Some (q, t, u, x) \<Rightarrow> rendered (fst (snd ?r)) = q @ t @ sink_received (snd (subscribe ?st)) (fst (snd ?r)))"
    by (rule late_sink_starts_at_ground)
  have "forwarding (stream_parser ?st) = Some (OtherString, [])" "snd (subscribe ?st) = 0"
    "findStringControlEnd OtherString ([] @ concat (map snd ?pieces)) = Some (''BC'', [esc, bslash], ''text'', False)"
    "rendered (fst (snd ?r)) = ''BC'' @ [esc, bslash] @ ''text''" by code_simp+
  with main show ?thesis by simp
qed

theorem pty_chunks_fit_witness:
  "(\<exists>pieces. boundPtyRead id MAX_PARSER_INPUT_CHARS (replicate 65535 97 @ [0xD83D, 0xDE00]) = Some pieces \<and>
      concat pieces = replicate 65535 97 @ [0xD83D, 0xDE00] \<and> list_all (\<lambda>p. length p \<le> 65536) pieces \<and> pairs_whole id pieces) \<and>
   (\<exists>st' calls x. write_stream plain_services 1 ''hello'' createProcessedPtyStream = Some (st', calls, x) \<and> list_all call_fits calls)"
  by (rule pty_chunks_fit) simp

end
