(* ===== verification/Spec2Isabelle.thy ===== *)
theory Spec2Isabelle
  imports Lath_Correct Lath_Hit_Test Lath_Validate Sec_Bytes Token_Bucket Presence_Window
    Burrow_Acl Noise_Cipher Noise_Transport Noise_Session Noise_Handshake Direct_Path Direct_Peer
    Direct_Endpoint Direct_Session Alert_Correct Shell_Quote Protocol_Stream Pty_Stream
begin

text \<open>
  Dormouse is a terminal multiplexer whose panes can be watched and driven from a phone. This library
  models the parts of it whose correctness is a matter of logic rather than of rendering or of
  process plumbing, and proves what they promise. Paths below are relative to \<open>src/\<close>.

  \<^bold>\<open>The program's parts and how they meet.\<close> The desktop side (\<open>lib/\<close>) lays terminals out with a
  tiling engine, Lath, and watches their output. The remote side lets a Client (the phone, \<open>Pocket\<close>)
  reach a Burrow (the desktop) through an untrusted relay: the two run a Noise handshake, keep a
  transport session over it, may move that session from the relay to a direct WebRTC channel, and
  authorize what the Client asks by an access list and a presence proof. The shared security code is
  in \<open>remote-lib-common/\<close>; the ends that use it are in \<open>lib/src/remote/\<close>.

  \<^bold>\<open>Shared theories.\<close> \<open>Dormouse_Prelude\<close>: untrusted JavaScript values, results of code that may
  throw, rounding, sums, sequences of calls, the \<open>step_system\<close> locale (an invariant kept by every
  step holds in every reachable state) that each state machine below interprets. \<open>Js_Json\<close>:
  \<open>JSON.stringify\<close> on the values the fingerprints are made of, with its injectivity. \<open>Js_Text\<close>, \<open>Js_Regex\<close>
  and \<open>Js_Number\<close>: what the sources use of JavaScript's strings, regular expressions (a backtracking
  matcher that lists the matches in the order the language prefers them) and numbers in text.
  \<open>Js_Json_Parse\<close>: \<open>JSON.parse\<close> as a machine with a stack, and the locale \<open>json_escaping\<close>, in which it
  reads back what \<open>JSON.stringify\<close> prints under any escaping of characters that keeps to its laws.

  \<^bold>\<open>The tiling engine\<close> (\<open>lib/src/lib/lath/\<close>).
  \<^item> \<open>Lath_Model\<close>, \<open>model.ts\<close>: the split tree, its queries, \<open>normalize\<close>, \<open>structureFingerprint\<close>. Weights
    and pixel lengths are exact rationals where the code has doubles; the tolerance of \<open>validate\<close> is kept.
  \<^item> \<open>Lath_Layout\<close>, \<open>layout.ts\<close>: the water-filling of minimums, cumulative rounding, rectangles, sashes,
    neighbours. The rectangles tile the wall.
  \<^item> \<open>Lath_Drop_Target\<close>, \<open>Lath_Ops\<close>, \<open>drop-target.ts\<close> and \<open>ops.ts\<close>: split, remove, restore, replace,
    swap, insert, move, resize, with their error branches.
  \<^item> \<open>Lath_Correct\<close>: what each operation does to the leaves and that every reachable tree is valid; a
    removed leaf is restored exactly.
  \<^item> \<open>Lath_Hit_Test\<close>, \<open>hit-test.ts\<close>: the drop a pointer position offers can be carried out; a swap, or
    a leaf dropped from outside, lands in the rectangle that was shown.
  \<^item> \<open>Lath_Validate\<close>, \<open>validate\<close> of \<open>model.ts\<close> and \<open>persistence.ts\<close>: the check of an untrusted object
    graph, which may share or contain itself; its loop is a partial function that is shown to return, since
    a node is expanded once.

  \<^bold>\<open>The secure channel\<close> (\<open>remote-lib-common/src/security/\<close>).
  \<^item> \<open>Sec_Bytes\<close>, \<open>bytes.ts\<close>: base64url with its 32-bit accumulator, lengths, framing, comparison.
  \<^item> \<open>Noise_Cipher\<close> and \<open>Noise_Handshake\<close>, \<open>noise.ts\<close>: the cipher state and the IK handshake. The AEAD, the
    hash, the MAC and the key agreement are parameters; \<open>aead_ok\<close> and the agreement law state the
    documented behaviour the code relies on.
  \<^item> \<open>Noise_Transport\<close> and \<open>Noise_Session\<close>, \<open>noise-transport.ts\<close>: prologues, chunks, the reassembler over
    its growing buffer as a refinement of a stream parser, and the session that poisons itself on error.
    The JSON text of a control message is a parameter.
  \<^item> This theory: the handshake and the session together deliver messages.

  \<^bold>\<open>The direct path.\<close> \<open>Direct_Path\<close>, \<open>direct-path.ts\<close>: the bounded frame queue behind the locale
  \<open>frame_fifo\<close>, the guards on signals and addresses, the cutover. \<open>Direct_Peer\<close>,
  \<open>lib/src/remote/direct/direct-peer.ts\<close>: the peer connection; what WebRTC answers is a parameter.
  \<open>Direct_Endpoint\<close>, \<open>direct-endpoint.ts\<close>: every handler of the endpoint, a method that awaits split at
  the await, callbacks that re-enter modelled as calls; \<open>Direct_Session\<close>: the endpoint as a step
  relation, its invariant, silence on the relay after the switch, delivery in order across both paths.

  \<^bold>\<open>Who may do what.\<close> \<open>Burrow_Acl\<close>, \<open>acl.ts\<close>: the append-only list of approved pairs. \<open>Presence_Window\<close>,
  \<open>presence-window.ts\<close>: a window is open only on the strength of a proof, within its bounds.
  \<open>Token_Bucket\<close>, \<open>token-bucket.ts\<close>: the rate of handshakes, under any clock.

  \<^bold>\<open>Watching terminals.\<close> \<open>Quiesce_Detector\<close>, \<open>lib/src/lib/quiesce-detector.ts\<close>: the busy and quiet states
  of a session and their timers. \<open>Alert_Manager\<close>, \<open>alert-manager.ts\<close>: every operation and timer of the
  manager that turns completions into rings, holds, TODOs and answers to parked awaits; one detector
  per session is embedded in it and its settle hook calls back into the manager. Uuids and foreign
  claimants are the record \<open>services\<close>, a parameter. \<open>Alert_Invariant\<close>: one contract, \<open>good\<close>,
  that every operation meets, and the invariant it gives. \<open>Alert_Subscribers\<close>: the published state is
  the session's state. \<open>Alert_Correct\<close>: what the user is promised.

  \<^bold>\<open>What terminals say\<close> (\<open>lib/src/lib/\<close>).
  \<^item> \<open>Terminal_Command\<close>, \<open>terminal-state.ts\<close>: the tokenizer of command lines, lists and pipelines, wrappers
    and script runners; the key a line is watched under and the title it gives.
  \<^item> \<open>Terminal_Cwd\<close> and \<open>Terminal_State\<close>, \<open>terminal-state.ts\<close>: reported directories with their bounds and
    labels; the events of a shell, the reducer, headers and groups. The alert manager resolves commands
    with the same definitions. The URL parser is a parameter.
  \<^item> \<open>Terminal_Report_Filter\<close>, \<open>terminal-report-filter.ts\<close>: telling a terminal's replies from typing.
  \<^item> \<open>Terminal_Controls\<close>, \<open>terminal-controls.ts\<close>: control strings and their filter, proved equal to a machine
    that reads one character at a time. \<open>Osc_Sanitize\<close>, \<open>osc-sanitize.ts\<close>: the cleaning of untrusted text.
  \<^item> \<open>Shell_Quote\<close>, \<open>shell-escape.ts\<close> and \<open>dor/src/commands/shell-quote.ts\<close>: quoting for three shells. What is
    written for a POSIX shell is read back by the tokenizer above; cmd and PowerShell themselves are not modelled.

  \<^bold>\<open>Reading terminal output\<close> (\<open>lib/src/lib/terminal-protocol.ts\<close>).
  \<^item> \<open>Tool_Osc\<close>, \<open>dor-tools-lib/src/osc.ts\<close>: the reports a Tool writes and the host reads, with their
    bounds; what is written is read back. \<open>Css_Color\<close>, \<open>css-color.ts\<close>: the colours a query is answered with.
  \<^item> \<open>Terminal_Decode\<close>: base64, UTF-8, percent escapes, \<open>printf %q\<close> words and the escapes of OSC 633.
  \<^item> \<open>Terminal_Protocol\<close>: the parser. Its state is what it holds of an unfinished string, the string it
    forwards to the renderer or discards, and the notifications that come in chunks; \<open>process\<close> is one
    read. The events it makes go to the reducer and the alert manager above through
    \<open>applyTerminalEvents\<close>.
  \<^item> \<open>Protocol_Correct\<close>: an invariant of the parser, the cleanliness of its events and the one way it
    can throw, by one induction over its loop. \<open>Protocol_Stream\<close>: what holds over many reads: a Tool's
    report arrives however it is cut, the parser stands where the filter of \<open>Terminal_Controls\<close> stands, and
    events reach their sink in order.
  \<^item> \<open>Tool_Runs\<close>, \<open>tool-launch-latch.ts\<close> and the other \<open>tool-*.ts\<close> stores: what is kept of a Tool's run, fed by
    the parser's events; which run may ask to open something.
  \<^item> \<open>Pty_Stream\<close>, \<open>processed-pty-stream.ts\<close>, \<open>host/owner-pty.ts\<close>, \<open>host/replay-buffer.ts\<close>: reads are cut, parsed once
    and handed to the owner, which calls the alerts, the latch and the renderer, and to the sinks; what a
    sink gets that joins late, and that every chunk fits a message of the secure channel.

  \<^bold>\<open>Conventions.\<close> A JavaScript object that is mutated is a record passed along; a throw is \<open>Inl\<close>; a
  timer is the time it is due or whether it is armed, and a step of the machine runs its callback; an
  event log in the state records what a component told its owner, so that order can be stated.
  There is no fuel: cutting a PTY read, checking a persisted tree and collecting its leaves are partial
  functions, the first two shown to return on every input and the last on what the check accepts, and every
  other loop is structural or has a measure (the reassembler's unread bytes, the text the protocol parser has
  left, the frames still queued, the unpinned children of the water-filling).

  \<^bold>\<open>Not modelled.\<close> Rendering and DOM events (\<open>components/\<close>), processes and sockets (\<open>standalone/\<close>,
  \<open>dor/\<close>, \<open>vscode-ext/\<close>), the hosted service, and the code that only calls WebCrypto or WebRTC: there is
  no logic of the program's own in them that a theory without those services could check. The numbers
  of the layout are exact, so the rounding errors of doubles are outside the model; so are the timestamps of
  events, where the step of 0.001 is lost on doubles once a clock reads \<open>2 ^ 44\<close> milliseconds or more. The
  text codec is modelled up to U+00FF; a text of the parser model has no surrogates, so the rule that keeps
  their pairs whole is stated for code units of any kind, beside the parser.

  \<^bold>\<open>Next.\<close> The wire guards and routing of the relay, pairing invitations and one-time links, enrolment
  codes, the end-to-end ceremonies, the relay's state.
\<close>

section \<open>From the handshake to messages\<close>

text \<open>The transport session an end starts with the result of its handshake.\<close>

definition session_of :: "noise_session \<Rightarrow> session" where
  "session_of n = new_session (nsend n) (nreceive n) (nhash n)"

lemma fresh_sessions_in_step: "mirrored a b \<Longrightarrow> in_step (session_of a) (session_of b) \<and> in_step (session_of b) (session_of a)"
  using reassembler_ok_empty
  by (simp add: mirrored_def in_step_def session_of_def new_session_def new_reassembler_def live_def queued_def)

lemma mirrored_delivery:
  assumes "aead_ok A" "mirrored a b" "\<forall>m \<in> set msgs. length m \<le> MAX_APP_MESSAGE_LENGTH"
    and "int (sum_list (map body_count msgs)) \<le> RESERVED_NONCE"
  shows "\<exists>s t cts. feed (\<lambda>s m. sendApp A C m s) (session_of a) msgs = (s, Inr cts) \<and>
      feed (receive_app A C) (session_of b) cts = (t, Inr msgs)"
    "\<exists>s t cts. feed (\<lambda>s m. sendApp A C m s) (session_of b) msgs = (s, Inr cts) \<and>
      feed (receive_app A C) (session_of a) cts = (t, Inr msgs)"
proof -
  have spare: "spare (send_cipher (session_of a)) (sum_list (map body_count msgs) + 0)"
    "spare (send_cipher (session_of b)) (sum_list (map body_count msgs) + 0)"
    using assms(2,4) by (auto simp: spare_def session_of_def new_session_def mirrored_def)
  note st = fresh_sessions_in_step [OF assms(2)]
  show "\<exists>s t cts. feed (\<lambda>s m. sendApp A C m s) (session_of a) msgs = (s, Inr cts) \<and>
      feed (receive_app A C) (session_of b) cts = (t, Inr msgs)"
    using session_delivery [OF assms(1) conjunct1 [OF st] assms(3) spare(1), of C] by blast
  show "\<exists>s t cts. feed (\<lambda>s m. sendApp A C m s) (session_of b) msgs = (s, Inr cts) \<and>
      feed (receive_app A C) (session_of a) cts = (t, Inr msgs)"
    using session_delivery [OF assms(1) conjunct2 [OF st] assms(3) spare(2), of C] by blast
qed

text \<open>C1: The whole secure channel: two honest ends that run the handshake can then exchange application
  messages of up to a mebibyte in both directions, and each message arrives complete, unchanged
  and in order, as long as the nonce counter lasts.\<close>

theorem secure_channel_delivers:
  assumes "crypto_ok W" "aead_ok A"
    and "valid_pair W s" "valid_pair W e" "valid_pair W r" "valid_pair W f"
    and "agrees W e r" "agrees W s r" "agrees W e f" "agrees W s f"
    and "length p1 + 96 \<le> NOISE_MAX_MESSAGE_LENGTH" "length p2 + 48 \<le> NOISE_MAX_MESSAGE_LENGTH"
    and "\<forall>m \<in> set ups \<union> set downs. length m \<le> MAX_APP_MESSAGE_LENGTH"
    and "int (sum_list (map body_count ups)) \<le> RESERVED_NONCE" "int (sum_list (map body_count downs)) \<le> RESERVED_NONCE"
  shows "\<exists>i0 r0 i1 m1 r1 r2 m2 i2 a b.
    createNoiseInitiator W prologue s None (publicKey r) = Inr i0 \<and> createNoiseResponder W prologue r None = Inr r0 \<and>
    writeMessage W A (Some e) p1 i0 = (i1, Inr m1) \<and> readMessage W A m1 r0 = (r1, Inr p1) \<and>
    writeMessage W A (Some f) p2 r1 = (r2, Inr m2) \<and> readMessage W A m2 i1 = (i2, Inr p2) \<and>
    session_result i2 = Inr a \<and> session_result r2 = Inr b \<and>
    (\<exists>x y cts. feed (\<lambda>s m. sendApp A C m s) (session_of a) ups = (x, Inr cts) \<and>
       feed (receive_app A C) (session_of b) cts = (y, Inr ups)) \<and>
    (\<exists>x y cts. feed (\<lambda>s m. sendApp A C m s) (session_of b) downs = (x, Inr cts) \<and>
       feed (receive_app A C) (session_of a) cts = (y, Inr downs))"
proof -
  obtain i0 r0 where st: "createNoiseInitiator W prologue s None (publicKey r) = Inr i0" "createNoiseResponder W prologue r None = Inr r0"
    and c: "sym i0 = sym r0" "ready True i0" "ready False r0" "static_pair i0 = s" "static_pair r0 = r" "remoteStatic i0 = Some (publicKey r)"
    using start_ok [OF assms(3,5)] by blast
  from handshake_run [OF assms(1-12) c] obtain i1 m1 r1 r2 m2 i2 a b where
    run: "writeMessage W A (Some e) p1 i0 = (i1, Inr m1)" "readMessage W A m1 r0 = (r1, Inr p1)"
    "writeMessage W A (Some f) p2 r1 = (r2, Inr m2)" "readMessage W A m2 i1 = (i2, Inr p2)"
    "session_result i2 = Inr a" "session_result r2 = Inr b" and m: "mirrored a b" by blast
  have "\<forall>m \<in> set ups. length m \<le> MAX_APP_MESSAGE_LENGTH" "\<forall>m \<in> set downs. length m \<le> MAX_APP_MESSAGE_LENGTH"
    using assms(13) by auto
  with st run mirrored_delivery(1) [OF assms(2) m _ assms(14), of C] mirrored_delivery(2) [OF assms(2) m _ assms(15), of C]
  show ?thesis by blast
qed

theorem secure_channel_delivers_witness:
  "\<exists>a b x y cts. feed (\<lambda>s m. sendApp plain_aead empty_codec m s) (session_of a) [[1, 2]] = (x, Inr cts) \<and>
     feed (receive_app plain_aead empty_codec) (session_of b) cts = (y, Inr [[1, 2]])"
proof -
  have l: "length [42 :: byte] + 96 \<le> NOISE_MAX_MESSAGE_LENGTH" "length ([] :: byte list) + 48 \<le> NOISE_MAX_MESSAGE_LENGTH"
    by (simp_all add: NOISE_MAX_MESSAGE_LENGTH_def)
  have a: "agrees toy_crypto (toy_pair 7) (toy_pair 5)" "agrees toy_crypto (toy_pair 3) (toy_pair 5)"
    "agrees toy_crypto (toy_pair 7) (toy_pair 11)" "agrees toy_crypto (toy_pair 3) (toy_pair 11)"
    by (simp_all add: toy_agrees)
  have m: "\<forall>m \<in> set [[1, 2]] \<union> set []. length (m :: byte list) \<le> MAX_APP_MESSAGE_LENGTH"
    "int (sum_list (map body_count [[1, 2]])) \<le> RESERVED_NONCE" "int (sum_list (map body_count [])) \<le> RESERVED_NONCE"
    by (simp_all add: MAX_APP_MESSAGE_LENGTH_def body_count_def chunks.simps frame_def transport_sizes RESERVED_NONCE_def)
  from secure_channel_delivers [OF toy_crypto_ok plain_aead_ok toy_valid toy_valid toy_valid toy_valid a l m, of "[1]" empty_codec]
  show ?thesis by blast
qed

end
